(* ===== verification/Bottler_Prelude.thy ===== *)
theory Bottler_Prelude
  imports Main "HOL-Library.Word" "HOL-Library.Monad_Syntax" "HOL-Library.Signed_Division"
begin

text \<open>
  The prelude of the development: the machine types of the kernel's C code, the wrap-around of
  its signed integers, byte memory and C strings, paths through linked lists on a heap, and the
  interface that every ``walk the list until the key is found'' loop of the kernel satisfies.

  Conventions used by every theory:
  \<^item> addresses and \<open>size_t\<close> values are natural numbers (\<open>NULL\<close> is 0); the wrap-around of
    \<open>size_t\<close> is written out where the code can reach it;
  \<^item> \<open>int\<close> and \<open>char\<close> variables are integers, cut back to their width by \<open>s32\<close> and
    \<open>s8\<close> after every operation that can leave it;
  \<^item> objects of each C type live in a typed heap, a partial map from addresses;
  \<^item> a computation returns \<open>None\<close> when the program reads or writes an address where no
    object of the type lives, or when a loop never ends. A theorem that concludes
    \<open>f x = Some y\<close> therefore says that the code returns.
\<close>

unbundle bit_operations_syntax

section \<open>Machine types\<close>

type_synonym addr = nat
type_synonym u8 = "8 word"
type_synonym u16 = "16 word"
type_synonym u32 = "32 word"
type_synonym u64 = "64 word"
type_synonym mem = "addr \<Rightarrow> u8"

abbreviation (input) NULL :: addr where
  "NULL \<equiv> 0"

abbreviation (input) EXIT_SUCCESS :: int where
  "EXIT_SUCCESS \<equiv> 0"

abbreviation (input) EXIT_FAILURE :: int where
  "EXIT_FAILURE \<equiv> 1"

text \<open>The value a C \<open>char\<close> (\<open>int\<close>) variable holds after it is assigned \<open>x\<close>.\<close>

definition s8 :: "int \<Rightarrow> int" where
  "s8 x = signed_take_bit 7 x"

definition s32 :: "int \<Rightarrow> int" where
  "s32 x = signed_take_bit 31 x"

text \<open>The byte that represents a \<open>char\<close> value in memory.\<close>

definition byte :: "int \<Rightarrow> u8" where
  "byte x = word_of_int x"

lemma s8_id [simp]: "- 128 \<le> x \<Longrightarrow> x < 128 \<Longrightarrow> s8 x = x"
  by (simp add: s8_def signed_take_bit_int_eq_self)

lemma s32_id [simp]: "- 2147483648 \<le> x \<Longrightarrow> x < 2147483648 \<Longrightarrow> s32 x = x"
  by (simp add: s32_def signed_take_bit_int_eq_self)

lemma s8_range: "- 128 \<le> s8 x" "s8 x < 128"
  using signed_take_bit_int_greater_eq_minus_exp [of 7 x] signed_take_bit_int_less_exp [of 7 x]
  by (simp_all add: s8_def)

lemma s32_range: "- 2147483648 \<le> s32 x" "s32 x < 2147483648"
  using signed_take_bit_int_greater_eq_minus_exp [of 31 x] signed_take_bit_int_less_exp [of 31 x]
  by (simp_all add: s32_def)

lemma sint_eq_iff [simp]: "sint (v :: 'a::len word) = sint w \<longleftrightarrow> v = w"
  by (auto intro: signed_word_eqI)

lemma sint_eq_0_iff [simp]: "sint (w :: 'a::len word) = 0 \<longleftrightarrow> w = 0"
  using sint_eq_iff [of w 0] by (simp del: sint_eq_iff)

section \<open>Byte memory and C strings\<close>

text \<open>The bytes of memory from an address on.\<close>

definition bytes :: "mem \<Rightarrow> addr \<Rightarrow> nat \<Rightarrow> u8 list" where
  "bytes m p n = map (\<lambda>i. m (p + i)) [0..<n]"

lemma length_bytes [simp]: "length (bytes m p n) = n"
  by (simp add: bytes_def)

lemma nth_bytes [simp]: "i < n \<Longrightarrow> bytes m p n ! i = m (p + i)"
  by (simp add: bytes_def)

lemma bytes_0 [simp]: "bytes m p 0 = []"
  by (simp add: bytes_def)

lemma bytes_Suc: "bytes m p (Suc n) = bytes m p n @ [m (p + n)]"
  by (simp add: bytes_def)

lemma bytes_cong: "(\<And>i. i < n \<Longrightarrow> m (p + i) = m' (q + i)) \<Longrightarrow> bytes m p n = bytes m' q n"
  by (simp add: bytes_def)

lemma bytes_append: "bytes m a (n + k) = bytes m a n @ bytes m (a + n) k"
  by (rule nth_equalityI) (auto simp: nth_append)

lemma bytes_upd_outside [simp]: "a < p \<or> p + n \<le> a \<Longrightarrow> bytes (m(a := v)) p n = bytes m p n"
  by (rule bytes_cong) auto

text \<open>\<open>wr m p bs\<close>: memory after the bytes \<open>bs\<close> are stored from \<open>p\<close> on.\<close>

definition wr :: "mem \<Rightarrow> addr \<Rightarrow> u8 list \<Rightarrow> mem" where
  "wr m p bs = (\<lambda>x. if p \<le> x \<and> x < p + length bs then bs ! (x - p) else m x)"

lemma wr_Nil [simp]: "wr m p [] = m"
  by (auto simp: wr_def fun_eq_iff)

lemma wr_Cons: "wr m p (b # bs) = wr (m(p := b)) (Suc p) bs"
  by (auto simp: wr_def nth_Cons' fun_eq_iff)

lemma wr_single [simp]: "wr m p [b] = m(p := b)"
  by (simp add: wr_Cons)

lemma wr_append: "wr m p (as @ bs) = wr (wr m p as) (p + length as) bs"
  by (auto simp: wr_def nth_append fun_eq_iff intro!: arg_cong2 [where f = nth])

lemma wr_outside: "x < p \<or> p + length bs \<le> x \<Longrightarrow> wr m p bs x = m x"
  by (auto simp: wr_def)

lemma wr_inside: "i < length bs \<Longrightarrow> wr m p bs (p + i) = bs ! i"
  by (simp add: wr_def)

lemma bytes_wr [simp]: "bytes (wr m p bs) p (length bs) = bs"
  by (rule nth_equalityI) (simp_all add: wr_inside)

lemma bytes_wr_eq: "n = length bs \<Longrightarrow> bytes (wr m p bs) p n = bs"
  by simp

lemma bytes_outside: "q + length bs \<le> a \<or> a + n \<le> q \<Longrightarrow> bytes (wr m q bs) a n = bytes m a n"
  by (rule bytes_cong) (auto simp: wr_outside)

lemma wr_overwrite: "length as = length bs \<Longrightarrow> wr (wr m p as) p bs = wr m p bs"
  by (auto simp: wr_def)

text \<open>\<open>cstr m p s\<close>: the NUL-terminated string at \<open>p\<close> is \<open>s\<close>.\<close>

definition cstr :: "mem \<Rightarrow> addr \<Rightarrow> u8 list \<Rightarrow> bool" where
  "cstr m p s \<longleftrightarrow> bytes m p (length s) = s \<and> 0 \<notin> set s \<and> m (p + length s) = 0"

lemma bytes_Cons: "bytes m p (Suc n) = m p # bytes m (Suc p) n"
  by (simp add: bytes_def upt_conv_Cons map_Suc_upt [symmetric] del: upt_Suc)

lemma cstr_Nil [simp]: "cstr m p [] \<longleftrightarrow> m p = 0"
  by (simp add: cstr_def)

lemma cstr_Cons [simp]: "cstr m p (c # s) \<longleftrightarrow> m p = c \<and> c \<noteq> 0 \<and> cstr m (Suc p) s"
  by (auto simp: cstr_def bytes_Cons)

lemma cstr_unique: "cstr m p s \<Longrightarrow> cstr m p t \<Longrightarrow> s = t"
proof (induction s arbitrary: p t)
  case Nil
  then show ?case by (cases t) auto
next
  case (Cons c s)
  then show ?case by (cases t) auto
qed

lemma cstr_nth: "cstr m p s \<Longrightarrow> i < length s \<Longrightarrow> m (p + i) = s ! i \<and> s ! i \<noteq> 0"
  by (metis cstr_def nth_bytes nth_mem)

lemma cstr_cong:
  "(\<And>i. i \<le> length s \<Longrightarrow> m (p + i) = m' (q + i)) \<Longrightarrow> cstr m p s = cstr m' q s"
  unfolding cstr_def by (metis bytes_cong less_imp_le_nat order_refl)

lemma cstr_wr: "0 \<notin> set s \<Longrightarrow> cstr (wr m p (s @ [0])) p s"
  by (auto simp: cstr_def wr_append bytes_upd_outside)

lemma cstr_wr_outside: "p + length s < q \<or> q + length bs \<le> p \<Longrightarrow> cstr (wr m q bs) p s = cstr m p s"
  by (rule cstr_cong) (auto simp: wr_def)

section \<open>Linked lists\<close>

text \<open>
  \<open>lpath n p as q\<close>: following the \<open>next\<close> pointers \<open>n\<close> from \<open>p\<close> visits the addresses
  \<open>as\<close> and arrives at \<open>q\<close>. No element is \<open>NULL\<close>.
\<close>

fun lpath :: "(addr \<Rightarrow> addr option) \<Rightarrow> addr \<Rightarrow> addr list \<Rightarrow> addr \<Rightarrow> bool" where
  "lpath n p [] q \<longleftrightarrow> p = q"
| "lpath n p (a # as) q \<longleftrightarrow> p = a \<and> a \<noteq> NULL \<and> (\<exists>r. n a = Some r \<and> lpath n r as q)"

lemma lpath_append: "lpath n p (as @ bs) q \<longleftrightarrow> (\<exists>r. lpath n p as r \<and> lpath n r bs q)"
  by (induction as arbitrary: p) auto

lemma lpath_NULL: "lpath n NULL as q \<longleftrightarrow> as = [] \<and> q = NULL"
  by (cases as) auto

lemma lpath_nonnull: "lpath n p as q \<Longrightarrow> NULL \<notin> set as"
  by (induction as arbitrary: p) auto

lemma lpath_cong: "(\<And>a. a \<in> set as \<Longrightarrow> n a = n' a) \<Longrightarrow> lpath n p as q = lpath n' p as q"
  by (induction as arbitrary: p) auto

lemma lpath_upd [simp]: "a \<notin> set as \<Longrightarrow> lpath (n(a := v)) p as q = lpath n p as q"
  by (rule lpath_cong) auto

lemma lpath_unique: "lpath n p as NULL \<Longrightarrow> lpath n p bs NULL \<Longrightarrow> as = bs"
proof (induction as arbitrary: p bs)
  case Nil
  then show ?case by (simp add: lpath_NULL)
next
  case (Cons a as)
  then show ?case by (cases bs) (auto simp: lpath_NULL)
qed

lemma lpath_distinct: "lpath n p as NULL \<Longrightarrow> distinct as"
proof (induction as arbitrary: p)
  case Nil
  then show ?case by simp
next
  case (Cons a as)
  then obtain r where r: "n a = Some r" "lpath n r as NULL" by auto
  have "a \<notin> set as"
  proof
    assume "a \<in> set as"
    then obtain bs cs where as: "as = bs @ a # cs" by (meson split_list)
    with r(2) have "lpath n a (a # cs) NULL"
      by (auto simp: lpath_append)
    moreover from Cons.prems have "lpath n a (a # as) NULL" by simp
    ultimately have "a # cs = a # as" by (rule lpath_unique)
    with as show False by simp
  qed
  with Cons r show ?case by auto
qed

lemma lpath_dom: "lpath n p as q \<Longrightarrow> a \<in> set as \<Longrightarrow> n a \<noteq> None"
  by (induction as arbitrary: p) auto

lemma lpath_snoc: "lpath n p (as @ [a]) q \<longleftrightarrow> lpath n p as a \<and> a \<noteq> NULL \<and> n a = Some q"
  by (auto simp: lpath_append)

text \<open>
  What the search loops of the kernel compute: the first element of the list that satisfies
  \<open>P\<close> and the element before it, and two \<open>NULL\<close>s when there is none.
\<close>

fun find_prev :: "(addr \<Rightarrow> bool) \<Rightarrow> addr \<Rightarrow> addr list \<Rightarrow> addr \<times> addr" where
  "find_prev P prev [] = (NULL, NULL)"
| "find_prev P prev (a # as) = (if P a then (a, prev) else find_prev P a as)"

lemma find_prev_none: "(\<And>a. a \<in> set as \<Longrightarrow> \<not> P a) \<Longrightarrow> find_prev P prev as = (NULL, NULL)"
  by (induction as arbitrary: prev) auto

lemma find_prev_hit:
  "(\<And>b. b \<in> set bs \<Longrightarrow> \<not> P b) \<Longrightarrow> P a \<Longrightarrow>
     find_prev P prev (bs @ a # cs) = (a, if bs = [] then prev else last bs)"
  by (induction bs arbitrary: prev) auto

lemma find_prev_cases:
  obtains (none) "\<And>a. a \<in> set as \<Longrightarrow> \<not> P a" "find_prev P prev as = (NULL, NULL)"
  | (hit) bs a cs where "as = bs @ a # cs" "P a" "\<And>b. b \<in> set bs \<Longrightarrow> \<not> P b"
      "find_prev P prev as = (a, if bs = [] then prev else last bs)"
proof (cases "\<exists>a \<in> set as. P a")
  case False
  then show ?thesis using none by (metis find_prev_none)
next
  case True
  then obtain bs a cs where "as = bs @ a # cs" "P a" "\<forall>b \<in> set bs. \<not> P b"
    by (metis split_list_first_prop)
  then show ?thesis using hit by (metis find_prev_hit)
qed

text \<open>
  The interface of a search loop over a linked list: \<open>hit s k a\<close> reads the object at \<open>a\<close>
  and says whether it has the key \<open>k\<close>, \<open>nxt s a\<close> reads its \<open>next\<close> pointer, and
  \<open>loop s k prev cur\<close> is the state of the C loop at the top of its body. The kernel has five
  of these loops (processes and pipes); each of them is an interpretation.
\<close>

locale linked_search =
  fixes hit :: "'s \<Rightarrow> 'k \<Rightarrow> addr \<Rightarrow> bool option"
    and nxt :: "'s \<Rightarrow> addr \<Rightarrow> addr option"
    and loop :: "'s \<Rightarrow> 'k \<Rightarrow> addr \<Rightarrow> addr \<Rightarrow> (addr \<times> addr) option"
  assumes loop_eq: "loop s k prev cur =
    (if cur = NULL then Some (NULL, NULL)
     else do {
       h \<leftarrow> hit s k cur;
       if h then Some (cur, prev)
       else do { n \<leftarrow> nxt s cur; loop s k cur n }
     })"
begin

lemma loop_list:
  assumes "lpath (nxt s) cur as NULL" and "\<And>a. a \<in> set as \<Longrightarrow> hit s k a \<noteq> None"
  shows "loop s k prev cur = Some (find_prev (\<lambda>a. hit s k a = Some True) prev as)"
  using assms
proof (induction as arbitrary: prev cur)
  case Nil
  then show ?case by (simp add: loop_eq)
next
  case (Cons a as)
  then obtain r h where r: "nxt s a = Some r" "lpath (nxt s) r as NULL" and h: "hit s k a = Some h"
    by fastforce
  with Cons show ?case
    by (cases h) (auto simp: loop_eq [of s k prev a])
qed

lemma loop_absent:
  assumes "lpath (nxt s) cur as NULL" and "\<And>a. a \<in> set as \<Longrightarrow> hit s k a = Some False"
  shows "loop s k prev cur = Some (NULL, NULL)"
  using loop_list [OF assms(1), of k prev] assms(2) by (simp add: find_prev_none)

lemma loop_found:
  assumes "lpath (nxt s) cur (bs @ a # cs) NULL" and "hit s k a = Some True"
    and "\<And>b. b \<in> set bs \<Longrightarrow> hit s k b = Some False"
  shows "loop s k prev cur = Some (a, if bs = [] then prev else last bs)"
  using assms
proof (induction bs arbitrary: prev cur)
  case Nil
  then show ?case by (simp add: loop_eq)
next
  case (Cons b bs)
  then obtain r where r: "nxt s b = Some r" "lpath (nxt s) r (bs @ a # cs) NULL" "cur = b" "b \<noteq> NULL"
    by auto
  with Cons show ?case
    by (subst loop_eq) auto
qed

end

end
