(* ===== verification/KLib.thy ===== *)
theory KLib
  imports Bottler_Prelude
begin

text \<open>
  The kernel's C library, \<open>src/Kernel/lib.c\<close>, over byte memory: \<open>memset\<close>, \<open>memcpy\<close> with
  its word-at-a-time path, \<open>reverse\<close>, \<open>itoa\<close>, \<open>strcpy\<close>, \<open>strcmp\<close> and
  \<open>addSpaces\<close>, each translated loop by loop, and for each a lemma that says which bytes it
  stores. C functions that return their first argument return it here too, beside the memory.
\<close>

section \<open>Definitions\<close>

text \<open>The address of \<open>buffer[i]\<close>.\<close>

definition idx :: "addr \<Rightarrow> int \<Rightarrow> addr" where
  "idx buffer i = nat (int buffer + i)"

fun memset_loop :: "u8 \<Rightarrow> addr \<Rightarrow> nat \<Rightarrow> mem \<Rightarrow> mem" where
  "memset_loop chr dst 0 m = m"
| "memset_loop chr dst (Suc l) m = memset_loop chr dst l (m(dst + l := chr))"

definition memset :: "addr \<Rightarrow> int \<Rightarrow> nat \<Rightarrow> mem \<Rightarrow> addr \<times> mem" where
  "memset destination c l m = (destination, memset_loop (byte c) destination l m)"

text \<open>One iteration of the \<open>uint32_t\<close> loop loads four bytes and stores four bytes.\<close>

definition copy4 :: "addr \<Rightarrow> addr \<Rightarrow> mem \<Rightarrow> mem" where
  "copy4 d s m = wr m d [m s, m (s + 1), m (s + 2), m (s + 3)]"

definition copy1 :: "addr \<Rightarrow> addr \<Rightarrow> mem \<Rightarrow> mem" where
  "copy1 d s m = m(d := m s)"

definition memcpy :: "addr \<Rightarrow> addr \<Rightarrow> nat \<Rightarrow> mem \<Rightarrow> addr \<times> mem" where
  "memcpy destination source l m =
     (destination,
      if destination mod 4 = 0 \<and> source mod 4 = 0 \<and> l mod 4 = 0
      then fold (\<lambda>i. copy4 (destination + 4 * i) (source + 4 * i)) [0..<l div 4] m
      else fold (\<lambda>i. copy1 (destination + i) (source + i)) [0..<l] m)"

definition swap_c :: "addr \<Rightarrow> addr \<Rightarrow> mem \<Rightarrow> mem" where
  "swap_c x y m = (let t = m x; m' = m(x := m y) in m'(y := t))"

function reverse_loop :: "addr \<Rightarrow> int \<Rightarrow> int \<Rightarrow> mem \<Rightarrow> mem" where
  "reverse_loop buffer i j m =
     (if i < j then reverse_loop buffer (i + 1) (j - 1) (swap_c (idx buffer i) (idx buffer j) m) else m)"
  by pat_completeness auto
termination
  by (relation "measure (\<lambda>(b, i, j, m). nat (j - i))") auto

definition reverse :: "addr \<Rightarrow> int \<Rightarrow> int \<Rightarrow> mem \<Rightarrow> addr \<times> mem" where
  "reverse buffer i j m = (buffer, reverse_loop buffer i j m)"

definition abs_c :: "int \<Rightarrow> int" where
  "abs_c v = (if v < 0 then s32 (- v) else v)"

function addSpaces_loop :: "addr \<Rightarrow> int \<Rightarrow> mem \<Rightarrow> mem" where
  "addSpaces_loop str qty m =
     (if qty > 0 then addSpaces_loop (str + 1) (qty - 1) (m(str := 32)) else m)"
  by pat_completeness auto
termination
  by (relation "measure (\<lambda>(s, q, m). nat q)") auto

definition addSpaces :: "addr \<Rightarrow> int \<Rightarrow> mem \<Rightarrow> int \<times> mem" where
  "addSpaces str qty m = (qty, addSpaces_loop str qty m)"

definition digit_char :: "int \<Rightarrow> u8" where
  "digit_char r = (if r \<ge> 10 then byte (65 + (r - 10)) else byte (48 + r))"

text \<open>\<open>while (n && i < length)\<close> of \<open>itoa\<close>; C's \<open>/\<close> and \<open>%\<close> truncate towards zero.\<close>

function itoa_loop :: "int \<Rightarrow> int \<Rightarrow> addr \<Rightarrow> int \<Rightarrow> int \<Rightarrow> mem \<Rightarrow> int \<times> mem" where
  "itoa_loop base len buffer n i m =
     (if n \<noteq> 0 \<and> i < len
      then itoa_loop base len buffer (n sdiv base) (i + 1) (m(idx buffer i := digit_char (n smod base)))
      else (i, m))"
  by pat_completeness auto
termination
  by (relation "measure (\<lambda>(b, l, buf, n, i, m). nat (l - i))") auto

definition itoa :: "int \<Rightarrow> addr \<Rightarrow> int \<Rightarrow> int \<Rightarrow> mem \<Rightarrow> addr \<times> mem" where
  "itoa value buffer base len m =
     (if base < 2 \<or> base > 32 then (buffer, m)
      else
        let (i, m) = itoa_loop base len buffer (abs_c value) 0 m;
            (i, m) = (if i = 0 then (i + 1, m(idx buffer i := byte 48)) else (i, m));
            (i, m) = (if value < 0 \<and> base = 10 then (i + 1, m(idx buffer i := byte 45)) else (i, m));
            m = m(idx buffer i := 0)
        in reverse buffer 0 (i - 1) m)"

partial_function (option) strcpy_loop :: "addr \<Rightarrow> addr \<Rightarrow> int \<Rightarrow> mem \<Rightarrow> (int \<times> mem) option" where
  "strcpy_loop strDest strSrc i m =
     (if m strSrc \<noteq> 0
      then strcpy_loop (strDest + 1) (strSrc + 1) (s32 (i + 1)) (m(strDest := m strSrc))
      else Some (i, m(strDest := m strSrc)))"

definition strcpy :: "addr \<Rightarrow> addr \<Rightarrow> mem \<Rightarrow> (int \<times> mem) option" where
  "strcpy strDest strSrc m = strcpy_loop strDest strSrc 0 m"

partial_function (option) strcmp :: "mem \<Rightarrow> addr \<Rightarrow> addr \<Rightarrow> int option" where
  "strcmp m s1 s2 =
     (if m s1 \<noteq> 0 \<and> m s1 = m s2 then strcmp m (s1 + 1) (s2 + 1)
      else Some (sint (m s1) - sint (m s2)))"

declare reverse_loop.simps [simp del] addSpaces_loop.simps [simp del] itoa_loop.simps [simp del]

section \<open>memset and memcpy\<close>

lemma memset_loop_wr: "memset_loop chr dst l m = wr m dst (replicate l chr)"
proof (induction l arbitrary: m)
  case 0
  then show ?case by simp
next
  case (Suc l)
  have "wr (m(dst + l := chr)) dst (replicate l chr) = wr m dst (replicate (Suc l) chr)"
    by (auto simp: wr_def fun_eq_iff nth_Cons')
  with Suc show ?case by (simp add: fun_upd_def)
qed

lemma memset_wr: "memset p c l m = (p, wr m p (replicate l (byte c)))"
  by (simp add: memset_def memset_loop_wr)

text \<open>
  Both loops of \<open>memcpy\<close> copy forwards, so they are right when the regions do not overlap and
  also when the destination lies before the source.
\<close>

lemma fold_copy1:
  assumes "d \<le> s \<or> s + l \<le> d" and "n \<le> l"
  shows "fold (\<lambda>i. copy1 (d + i) (s + i)) [0..<n] m = wr m d (bytes m s n)"
  using assms(2)
proof (induction n)
  case 0
  then show ?case by simp
next
  case (Suc n)
  then have "fold (\<lambda>i. copy1 (d + i) (s + i)) [0..<Suc n] m = copy1 (d + n) (s + n) (wr m d (bytes m s n))"
    by simp
  also have "\<dots> = (wr m d (bytes m s n))(d + n := m (s + n))"
    using assms(1) Suc.prems by (auto simp: copy1_def wr_outside)
  also have "\<dots> = wr m d (bytes m s (Suc n))"
    by (simp add: bytes_Suc wr_append)
  finally show ?case .
qed

lemma bytes_plus4: "bytes m s (n + 4) = bytes m s n @ [m (s + n), m (s + n + 1), m (s + n + 2), m (s + n + 3)]"
  by (simp add: bytes_def numeral_eq_Suc)

lemma fold_copy4:
  assumes "d \<le> s \<or> s + l \<le> d" and "4 * n \<le> l"
  shows "fold (\<lambda>i. copy4 (d + 4 * i) (s + 4 * i)) [0..<n] m = wr m d (bytes m s (4 * n))"
  using assms(2)
proof (induction n)
  case 0
  then show ?case by simp
next
  case (Suc n)
  let ?m = "wr m d (bytes m s (4 * n))"
  from Suc have "fold (\<lambda>i. copy4 (d + 4 * i) (s + 4 * i)) [0..<Suc n] m = copy4 (d + 4 * n) (s + 4 * n) ?m"
    by simp
  also have "\<dots> = wr ?m (d + 4 * n) [m (s + 4 * n), m (s + 4 * n + 1), m (s + 4 * n + 2), m (s + 4 * n + 3)]"
    using assms(1) Suc.prems by (auto simp: copy4_def wr_outside)
  also have "\<dots> = wr m d (bytes m s (4 * n + 4))"
    by (simp only: bytes_plus4 wr_append length_bytes)
  finally show ?case by (simp add: add.commute)
qed

lemma memcpy_wr:
  assumes "d \<le> s \<or> s + l \<le> d"
  shows "memcpy d s l m = (d, wr m d (bytes m s l))"
proof (cases "d mod 4 = 0 \<and> s mod 4 = 0 \<and> l mod 4 = 0")
  case True
  then have "4 * (l div 4) = l" by auto
  with True fold_copy4 [OF assms, of "l div 4" m] show ?thesis by (simp add: memcpy_def)
next
  case False
  then show ?thesis using fold_copy1 [OF assms, of l m] by (auto simp: memcpy_def)
qed

section \<open>Strings\<close>

lemma addSpaces_loop_wr: "addSpaces_loop str qty m = wr m str (replicate (nat qty) 32)"
proof (induction str qty m rule: addSpaces_loop.induct)
  case (1 str qty m)
  show ?case
  proof (cases "qty > 0")
    case True
    then have "nat qty = Suc (nat (qty - 1))" by simp
    with True 1 show ?thesis by (simp add: addSpaces_loop.simps [of str qty m] wr_Cons fun_upd_def)
  next
    case False
    then show ?thesis by (simp add: addSpaces_loop.simps)
  qed
qed

lemma addSpaces_wr: "addSpaces str qty m = (qty, wr m str (replicate (nat qty) 32))"
  by (simp add: addSpaces_def addSpaces_loop_wr)

lemma strcpy_loop_wr:
  assumes "cstr m src s" and "dst \<le> src \<or> src + length s < dst"
    and "0 \<le> i" and "i + int (length s) < 2147483648"
  shows "strcpy_loop dst src i m = Some (i + int (length s), wr m dst (s @ [0]))"
  using assms
proof (induction s arbitrary: dst src i m)
  case Nil
  then show ?case by (simp add: strcpy_loop.simps fun_upd_def)
next
  case (Cons c s)
  then have c: "m src = c" "c \<noteq> 0" "cstr m (Suc src) s" by auto
  have "cstr (m(dst := c)) (Suc src) s = cstr m (Suc src) s"
    using Cons.prems(2) by (intro cstr_cong) auto
  moreover have "s32 (i + 1) = i + 1" using Cons.prems by simp
  ultimately show ?case
    using c Cons.IH [of "m(dst := c)" "Suc src" "Suc dst" "i + 1"] Cons.prems(2-4)
    by (subst strcpy_loop.simps) (auto simp: wr_Cons algebra_simps fun_upd_def)
qed

lemma strcpy_wr:
  assumes "cstr m src s" and "dst \<le> src \<or> src + length s < dst" and "length s < 2147483648"
  shows "strcpy dst src m = Some (int (length s), wr m dst (s @ [0]))"
  using strcpy_loop_wr [OF assms(1,2), of 0] assms(3) by (simp add: strcpy_def)

lemma strcmp_result:
  assumes "cstr m p s" and "cstr m q t"
  shows "\<exists>r. strcmp m p q = Some r \<and> (r = 0 \<longleftrightarrow> s = t)"
  using assms
proof (induction s arbitrary: p q t)
  case Nil
  then show ?case by (cases t) (auto simp: strcmp.simps)
next
  case (Cons c s)
  show ?case
  proof (cases t)
    case Nil
    with Cons.prems show ?thesis by (auto simp: strcmp.simps)
  next
    case (Cons d t')
    with Cons.prems show ?thesis
      using Cons.IH [of "Suc p" "Suc q" t'] by (cases "c = d") (auto simp: strcmp.simps [of m p q])
  qed
qed

section \<open>reverse\<close>

lemma idx_nat [simp]: "idx b (int i) = b + i"
  by (simp add: idx_def nat_int_add)

lemma reverse_loop_at:
  assumes "0 \<le> i"
  shows "reverse_loop b i j m x =
    (if int b + i \<le> int x \<and> int x \<le> int b + j then m (nat (int b + i + (int b + j) - int x)) else m x)"
  using assms
proof (induction b i j m arbitrary: x rule: reverse_loop.induct)
  case (1 b i j m)
  show ?case
  proof (cases "i < j")
    case True
    let ?m = "swap_c (idx b i) (idx b j) m"
    have step: "reverse_loop b i j m x = reverse_loop b (i + 1) (j - 1) ?m x"
      using True by (subst reverse_loop.simps) simp
    have m: "?m y = (if int y = int b + i then m (idx b j) else if int y = int b + j then m (idx b i) else m y)" for y
      using 1(2) True by (auto simp: swap_c_def idx_def Let_def)
    have IH: "reverse_loop b (i + 1) (j - 1) ?m x =
        (if int b + i < int x \<and> int x < int b + j then ?m (nat (int b + i + (int b + j) - int x)) else ?m x)"
      using 1 True by (simp add: algebra_simps)
    show ?thesis
      unfolding step IH m using 1(2) True by (auto simp: idx_def intro!: arg_cong [where f = m])
  next
    case False
    then have "int b + i \<le> int x \<and> int x \<le> int b + j \<Longrightarrow> nat (int b + i + (int b + j) - int x) = x" by linarith
    with False show ?thesis by (subst reverse_loop.simps) auto
  qed
qed

text \<open>On a whole buffer, \<open>reverse\<close> stores the reversed bytes.\<close>

lemma reverse_wr:
  assumes "bytes m b n = bs" and "n = length bs"
  shows "reverse b 0 (int n - 1) m = (b, wr m b (rev bs))"
proof -
  have "reverse_loop b 0 (int n - 1) m x = wr m b (rev bs) x" for x
  proof (cases "b \<le> x \<and> x < b + n")
    case True
    define k where "k = n - 1 - (x - b)"
    with True have k: "nat (int b + (int b + (int n - 1)) - int x) = b + k" "k < n" by linarith+
    have "m (b + k) = bs ! k"
      using k(2) assms(2) by (subst assms(1) [symmetric]) simp
    also have "x - b < length bs" "k = length bs - Suc (x - b)"
      using True assms(2) by (auto simp: k_def)
    then have "bs ! k = rev bs ! (x - b)" by (simp add: rev_nth)
    finally show ?thesis
      using True assms(2) k by (auto simp: reverse_loop_at wr_def)
  next
    case False
    then show ?thesis using assms(2) by (auto simp: reverse_loop_at wr_outside)
  qed
  then show ?thesis by (auto simp: reverse_def)
qed

section \<open>itoa\<close>

text \<open>The digits of a number, least significant first, and the text \<open>itoa\<close> makes of it.\<close>

fun lsd :: "nat \<Rightarrow> nat \<Rightarrow> u8 list" where
  "lsd b n = (if n = 0 \<or> b < 2 then [] else digit_char (int (n mod b)) # lsd b (n div b))"

declare lsd.simps [simp del]

lemma lsd_0 [simp]: "lsd b 0 = []"
  by (subst lsd.simps) simp

definition itoa_text :: "int \<Rightarrow> int \<Rightarrow> int \<Rightarrow> u8 list" where
  "itoa_text value base len =
     (let ds = take (nat len) (lsd (nat base) (nat \<bar>value\<bar>))
      in (if value < 0 \<and> base = 10 then [byte 45] else []) @ (if ds = [] then [byte 48] else rev ds))"

lemma itoa_loop_wr:
  assumes "2 \<le> b"
  shows "itoa_loop (int b) len buf (int n) (int i) m =
    (int i + int (length (take (nat (len - int i)) (lsd b n))),
     wr m (buf + i) (take (nat (len - int i)) (lsd b n)))"
proof (induction n arbitrary: i m rule: less_induct)
  case (less n)
  show ?case
  proof (cases "n \<noteq> 0 \<and> int i < len")
    case True
    have q: "int n sdiv int b = int (n div b)" "int n smod int b = int (n mod b)"
      by (cases "b = 0"; simp add: signed_divide_int_def signed_modulo_int_def zdiv_int zmod_int sgn_if)+
    have n: "nat (len - int i) = Suc (nat (len - int (Suc i)))" using True by linarith
    have l: "lsd b n = digit_char (int (n mod b)) # lsd b (n div b)"
      using True assms by (subst lsd.simps) simp
    have "n div b < n" using True assms by simp
    note IH = less [OF this, of "Suc i" "m(buf + i := digit_char (int (n mod b)))"]
    have "itoa_loop (int b) len buf (int n) (int i) m =
        itoa_loop (int b) len buf (int (n div b)) (int (Suc i)) (m(buf + i := digit_char (int (n mod b))))"
      using True by (subst itoa_loop.simps) (simp add: q add.commute)
    then show ?thesis
      unfolding IH n l by (simp add: wr_Cons)
  next
    case False
    then have "take (nat (len - int i)) (lsd b n) = []" by auto
    with False show ?thesis by (subst itoa_loop.simps) auto
  qed
qed

lemma length_itoa_text: "0 \<le> len \<Longrightarrow> length (itoa_text value base len) \<le> nat len + 2"
  by (auto simp: itoa_text_def Let_def)

lemma itoa_wr:
  assumes "2 \<le> base" "base \<le> 32" and "- 2147483648 < value" "value < 2147483648"
  shows "itoa value buf base len m = (buf, wr m buf (itoa_text value base len @ [0]))"
proof -
  define ds where "ds = take (nat len) (lsd (nat base) (nat \<bar>value\<bar>))"
  define bs where "bs = (if ds = [] then [byte 48] else ds) @ (if value < 0 \<and> base = 10 then [byte 45] else [])"
  have a: "abs_c value = int (nat \<bar>value\<bar>)" and b: "base = int (nat base)" and b2: "2 \<le> nat base"
    using assms by (auto simp: abs_c_def)
  have loop: "itoa_loop base len buf (abs_c value) 0 m = (int (length ds), wr m buf ds)"
    using itoa_loop_wr [OF b2, of len buf "nat \<bar>value\<bar>" 0 m]
    unfolding a [symmetric] b [symmetric] ds_def by simp
  have "itoa value buf base len m =
      reverse buf 0 (int (length bs) - 1) ((wr m buf bs)(buf + length bs := 0))"
    unfolding itoa_def loop bs_def using assms(1,2)
    by (cases "ds = []"; cases "value < 0 \<and> base = 10")
       (auto simp: wr_append wr_Cons idx_def nat_int_add nat_add_distrib add.commute)
  also have "\<dots> = (buf, wr ((wr m buf bs)(buf + length bs := 0)) buf (rev bs))"
    by (rule reverse_wr) (simp_all only: bytes_upd_outside bytes_wr le_refl simp_thms)
  also have "wr ((wr m buf bs)(buf + length bs := 0)) buf (rev bs) = wr m buf (rev bs @ [0])"
    by (auto simp: wr_def fun_eq_iff nth_append)
  also have "rev bs = itoa_text value base len"
    by (simp add: itoa_text_def Let_def bs_def ds_def)
  finally show ?thesis .
qed

section \<open>Reading a number back\<close>

text \<open>The value of a text of digits in base \<open>b\<close>, most significant first, with an optional sign.\<close>

definition digit_val :: "u8 \<Rightarrow> int" where
  "digit_val c = (if 65 \<le> uint c then uint c - 55 else uint c - 48)"

definition digits_value :: "int \<Rightarrow> u8 list \<Rightarrow> int" where
  "digits_value b ds = foldl (\<lambda>acc c. acc * b + digit_val c) 0 ds"

fun text_value :: "int \<Rightarrow> u8 list \<Rightarrow> int" where
  "text_value b [] = 0"
| "text_value b (c # cs) = (if c = byte 45 then - digits_value b cs else digits_value b (c # cs))"

lemma uint_digit_char:
  assumes "0 \<le> r" "r < 32"
  shows "uint (digit_char r) = (if r \<ge> 10 then r + 55 else r + 48)"
proof -
  have "uint (word_of_int k :: u8) = k" if "0 \<le> k" "k < 256" for k
    using that by (simp add: uint_word_of_int)
  from this [of "65 + (r - 10)"] this [of "48 + r"] assms show ?thesis
    unfolding digit_char_def byte_def by (auto simp del: of_int_add of_int_diff)
qed

lemma digit_val_char [simp]: "0 \<le> r \<Longrightarrow> r < 32 \<Longrightarrow> digit_val (digit_char r) = r"
  by (simp add: digit_val_def uint_digit_char)

lemma digit_char_not_special: "0 \<le> r \<Longrightarrow> r < 32 \<Longrightarrow> digit_char r \<noteq> 0 \<and> digit_char r \<noteq> byte 45"
  using uint_digit_char [of r] by (auto simp: byte_def split: if_splits)

lemma lsd_digits: "2 \<le> b \<Longrightarrow> b \<le> 32 \<Longrightarrow> c \<in> set (lsd b n) \<Longrightarrow> c \<noteq> 0 \<and> c \<noteq> byte 45"
proof (induction b n rule: lsd.induct)
  case (1 b n)
  have "n mod b < b" using 1(2) by simp
  then have "n mod b < 32" using 1(3) by linarith
  then have "digit_char (int (n mod b)) \<noteq> 0 \<and> digit_char (int (n mod b)) \<noteq> byte 45"
    by (intro digit_char_not_special) auto
  with 1 show ?case by (subst (asm) (2) lsd.simps) (auto split: if_splits)
qed

lemma digits_value_lsd: "2 \<le> b \<Longrightarrow> b \<le> 32 \<Longrightarrow> digits_value (int b) (rev (lsd b n)) = int n"
proof (induction b n rule: lsd.induct)
  case (1 b n)
  show ?case
  proof (cases "n = 0")
    case False
    have "n mod b < b" using 1(2) by simp
    then have "int (n mod b) < 32" using 1(3) by linarith
    then have "digits_value (int b) (rev (lsd b n)) = int (n div b) * int b + int (n mod b)"
      using 1 False by (subst lsd.simps) (simp add: digits_value_def)
    then show ?thesis by (metis div_mult_mod_eq of_nat_add of_nat_mult)
  qed (simp add: digits_value_def)
qed

lemma length_lsd: "2 \<le> b \<Longrightarrow> n < b ^ k \<Longrightarrow> length (lsd b n) \<le> k"
proof (induction k arbitrary: n)
  case 0
  then show ?case by simp
next
  case (Suc k)
  then have "n div b < b ^ k" by (simp add: less_mult_imp_div_less mult.commute)
  with Suc show ?case by (subst lsd.simps) simp
qed

lemma itoa_text_value:
  assumes b: "2 \<le> base" "base \<le> 32" and v: "- 2147483648 < value" "value < 2147483648" "31 \<le> len"
  shows "cstr (wr m buf (itoa_text value base len @ [0])) buf (itoa_text value base len)"
    and "text_value base (itoa_text value base len) = (if base = 10 then value else \<bar>value\<bar>)"
proof -
  let ?b = "nat base" and ?n = "nat \<bar>value\<bar>"
  have nb: "2 \<le> ?b" "?b \<le> 32" "int ?b = base" using b by auto
  have "?n < 2 ^ 31" using v by simp
  also have "(2::nat) ^ 31 \<le> ?b ^ 31" using nb(1) by (rule power_mono) simp
  finally have "length (lsd ?b ?n) \<le> nat len" using length_lsd [OF nb(1), of ?n 31] v(3) by linarith
  then have t: "itoa_text value base len = (if value < 0 \<and> base = 10 then [byte 45] else []) @
      (if value = 0 then [byte 48] else rev (lsd ?b ?n))"
    using nb(1) by (auto simp: itoa_text_def Let_def lsd.simps [of ?b ?n])
  have ok: "c \<noteq> 0 \<and> c \<noteq> byte 45" if "c \<in> set (lsd ?b ?n)" for c
    using lsd_digits [OF nb(1,2) that] .
  then have "0 \<notin> set (itoa_text value base len)" unfolding t by (auto simp: byte_def)
  then show "cstr (wr m buf (itoa_text value base len @ [0])) buf (itoa_text value base len)" by (rule cstr_wr)
  have nosign: "text_value base (rev (lsd ?b ?n)) = \<bar>value\<bar>"
    using digits_value_lsd [OF nb(1,2), of ?n] ok nb(3)
    by (cases "rev (lsd ?b ?n)") (auto simp: digits_value_def dest: arg_cong [of _ _ set])
  have "digits_value base (rev (lsd ?b ?n)) = \<bar>value\<bar>" using digits_value_lsd [OF nb(1,2), of ?n] nb(3) by simp
  with nosign show "text_value base (itoa_text value base len) = (if base = 10 then value else \<bar>value\<bar>)"
    unfolding t by (auto simp: digits_value_def digit_val_def byte_def)
qed

section \<open>Properties\<close>

text \<open>\<open>memcpy\<close>, on its word path and on its byte path alike, returns the destination, stores
  there the bytes that the source had before the call, and changes nothing else, when the regions
  do not overlap or the destination lies before the source.\<close>

theorem memcpy_copies:
  assumes "destination \<le> source \<or> source + l \<le> destination"
  shows "\<exists>m'. memcpy destination source l m = (destination, m') \<and>
    bytes m' destination l = bytes m source l \<and>
    (\<forall>x. x < destination \<or> destination + l \<le> x \<longrightarrow> m' x = m x)"
  using assms by (simp add: memcpy_wr bytes_wr_eq wr_outside)

theorem memcpy_copies_witness:
  "\<exists>m'. memcpy 8 16 4 (\<lambda>a. of_nat a) = (8, m') \<and> bytes m' 8 4 = [16, 17, 18, 19] \<and> m' 12 = 12"
proof -
  have "bytes (\<lambda>a. of_nat a) 16 4 = [16, 17, 18, 19]"
    by (simp add: bytes_def numeral_eq_Suc upt_rec)
  with memcpy_copies [of 8 16 4 "\<lambda>a. of_nat a"] show ?thesis by auto
qed

text \<open>\<open>strcpy\<close> returns, its result is the length of the string, the copy is the same string,
  \<open>strcmp\<close> of the copy and the original is 0, and no byte outside the copy changes.\<close>

theorem strcpy_strcmp:
  assumes "cstr m src s" and "src + length s < dst \<or> dst + length s < src" and "length s < 2147483648"
  shows "\<exists>m'. strcpy dst src m = Some (int (length s), m') \<and> cstr m' dst s \<and>
    strcmp m' dst src = Some 0 \<and> (\<forall>x. x < dst \<or> dst + length s < x \<longrightarrow> m' x = m x)"
proof -
  let ?m = "wr m dst (s @ [0])"
  have "strcpy dst src m = Some (int (length s), ?m)" using assms by (intro strcpy_wr) auto
  moreover have "cstr ?m dst s" using assms(1) by (intro cstr_wr) (simp add: cstr_def)
  moreover have "cstr ?m src s" using assms by (subst cstr_wr_outside) auto
  ultimately show ?thesis using strcmp_result [of ?m dst s src s] by (auto simp: wr_outside)
qed

theorem strcpy_strcmp_witness:
  "\<exists>m'. strcpy 8 2 ((\<lambda>_. 0)(2 := 104, 3 := 105)) = Some (2, m') \<and> cstr m' 8 [104, 105]"
  using strcpy_strcmp [of "(\<lambda>_. 0)(2 := 104, 3 := 105)" 2 "[104, 105]" 8] by auto

text \<open>\<open>itoa\<close> writes a NUL-terminated text whose value, read back in the same base, is the
  number it was given (its absolute value in a base other than 10, which prints no sign), when
  the length bound admits all digits of an \<open>int\<close>.\<close>

theorem itoa_roundtrip:
  assumes "2 \<le> base" "base \<le> 32" and "- 2147483648 < value" "value < 2147483648" and "31 \<le> len"
  shows "\<exists>t m'. itoa value buffer base len m = (buffer, m') \<and> cstr m' buffer t \<and>
    text_value base t = (if base = 10 then value else \<bar>value\<bar>)"
  using itoa_wr [OF assms(1-4)] itoa_text_value [OF assms] by metis

theorem itoa_roundtrip_witness:
  "\<exists>t m'. itoa (- 305) 64 10 40 (\<lambda>_. 0) = (64, m') \<and> cstr m' 64 t \<and> text_value 10 t = - 305"
  using itoa_roundtrip [of 10 "- 305" 40 64 "\<lambda>_. 0"] by simp

end
