(* ===== verification/Libc.thy ===== *)
theory Libc
  imports KLib
begin

text \<open>
  The user library, \<open>src/Userland/SampleCodeModule/libc.c\<close>, over byte memory: strings, numbers
  and tokens. Functions that have the name of one of the kernel's carry the suffix \<open>_u\<close>. The
  functions that print or read are the system call they make; \<open>buf\<close> stands for the address of
  their local variable. Floating point (\<open>atof\<close>, \<open>ftoa\<close>) is in \<open>Libc_Float\<close>.

  The kernel's \<open>itoa\<close> and \<open>gtoa\<close> are shown to be one function, \<open>atoi\<close> inverts the user's
  \<open>itoa\<close>, and repeated \<open>strtok\<close> splits a line into its words.
\<close>

section \<open>System calls made by user code\<close>

datatype usys = SysWrite int addr int | SysRead int addr int

section \<open>Strings\<close>

partial_function (option) strlenLoop :: "mem \<Rightarrow> addr \<Rightarrow> int \<Rightarrow> int option" where
  "strlenLoop m s i = (if m (idx s i) \<noteq> 0 then strlenLoop m s (s32 (i + 1)) else Some i)"

definition strlen :: "mem \<Rightarrow> addr \<Rightarrow> int option" where
  "strlen m s = strlenLoop m s 0"

partial_function (option) strcmp_u :: "mem \<Rightarrow> addr \<Rightarrow> addr \<Rightarrow> int option" where
  "strcmp_u m s1 s2 =
     (if m s1 \<noteq> 0 \<and> m s1 = m s2 then strcmp_u m (s1 + 1) (s2 + 1)
      else Some (sint (m s1) - sint (m s2)))"

partial_function (option) strEnd :: "mem \<Rightarrow> addr \<Rightarrow> addr option" where
  "strEnd m dest = (if m dest \<noteq> 0 then strEnd m (dest + 1) else Some dest)"

partial_function (option) catLoop :: "addr \<Rightarrow> addr \<Rightarrow> mem \<Rightarrow> mem option" where
  "catLoop dest src m =
     (let m' = m(dest := m src) in if m src \<noteq> 0 then catLoop (dest + 1) (src + 1) m' else Some m')"

definition strcat :: "addr \<Rightarrow> addr \<Rightarrow> mem \<Rightarrow> (addr \<times> mem) option" where
  "strcat dest src m = do { e \<leftarrow> strEnd m dest; m \<leftarrow> catLoop e src m; Some (dest, m) }"

partial_function (option) strcpyLoop_u :: "addr \<Rightarrow> addr \<Rightarrow> int \<Rightarrow> mem \<Rightarrow> (int \<times> mem) option" where
  "strcpyLoop_u strDest strSrc i m =
     (let m' = m(strDest := m strSrc)
      in if m strSrc \<noteq> 0 then strcpyLoop_u (strDest + 1) (strSrc + 1) (s32 (i + 1)) m' else Some (i, m'))"

definition strcpy_u :: "addr \<Rightarrow> addr \<Rightarrow> mem \<Rightarrow> (int \<times> mem) option" where
  "strcpy_u strDest strSrc m = strcpyLoop_u strDest strSrc 0 m"

section \<open>Printing and reading\<close>

definition printString :: "mem \<Rightarrow> addr \<Rightarrow> usys option" where
  "printString m string = do { len \<leftarrow> strlen m string; Some (SysWrite 1 string len) }"

definition printStringLen_u :: "addr \<Rightarrow> int \<Rightarrow> usys" where
  "printStringLen_u string len = SysWrite 1 string len"

definition printStringError :: "mem \<Rightarrow> addr \<Rightarrow> usys option" where
  "printStringError m string = do { len \<leftarrow> strlen m string; Some (SysWrite 2 string len) }"

definition putChar :: "addr \<Rightarrow> u8 \<Rightarrow> mem \<Rightarrow> usys \<times> mem" where
  "putChar buf c m = (SysWrite 1 buf 0, m(buf := c))"

definition newline :: "addr \<Rightarrow> mem \<Rightarrow> usys \<times> mem" where
  "newline buf m = putChar buf 10 m"

definition backspace_u :: "addr \<Rightarrow> mem \<Rightarrow> usys \<times> mem" where
  "backspace_u buf m = putChar buf 8 m"

definition addEOF :: "addr \<Rightarrow> mem \<Rightarrow> usys \<times> mem" where
  "addEOF buf m = putChar buf (- 1) m"

text \<open>\<open>lit\<close> is the address of the literal, an escape character and a form feed.\<close>

definition winClear :: "addr \<Rightarrow> usys" where
  "winClear lit = SysWrite 1 lit 2"

text \<open>\<open>sys_read\<close> stands for the call: it returns the number of bytes read and the memory.\<close>

definition getChar :: "(usys \<Rightarrow> mem \<Rightarrow> int \<times> mem) \<Rightarrow> addr \<Rightarrow> mem \<Rightarrow> int \<times> mem" where
  "getChar sys_read buf m =
     (let (n, m) = sys_read (SysRead 0 buf 1) (m(buf := 0)) in (if n \<le> 0 then - 1 else sint (m buf), m))"

section \<open>Numbers\<close>

definition swap_u :: "addr \<Rightarrow> addr \<Rightarrow> mem \<Rightarrow> mem" where
  "swap_u x y m = (let t = m x; m' = m(x := m y) in m'(y := t))"

function reverseLoop_u :: "addr \<Rightarrow> int \<Rightarrow> int \<Rightarrow> mem \<Rightarrow> mem" where
  "reverseLoop_u buffer i j m =
     (if i < j then reverseLoop_u buffer (i + 1) (j - 1) (swap_u (idx buffer i) (idx buffer j) m) else m)"
  by pat_completeness auto
termination
  by (relation "measure (\<lambda>(b, i, j, m). nat (j - i))") auto

definition reverse_u :: "addr \<Rightarrow> int \<Rightarrow> int \<Rightarrow> mem \<Rightarrow> addr \<times> mem" where
  "reverse_u buffer i j m = (buffer, reverseLoop_u buffer i j m)"

definition abs_u :: "int \<Rightarrow> int" where
  "abs_u v = (if v < 0 then s32 (- v) else v)"

definition digit_u :: "int \<Rightarrow> u8" where
  "digit_u r = (if r \<ge> 10 then byte (65 + (r - 10)) else byte (48 + r))"

function gtoaLoop :: "int \<Rightarrow> int \<Rightarrow> addr \<Rightarrow> int \<Rightarrow> int \<Rightarrow> mem \<Rightarrow> int \<times> mem" where
  "gtoaLoop base len buffer n i m =
     (if n \<noteq> 0 \<and> i < len
      then gtoaLoop base len buffer (n sdiv base) (i + 1) (m(idx buffer i := digit_u (n smod base)))
      else (i, m))"
  by pat_completeness auto
termination
  by (relation "measure (\<lambda>(b, l, buf, n, i, m). nat (l - i))") auto

definition gtoa :: "int \<Rightarrow> addr \<Rightarrow> int \<Rightarrow> int \<Rightarrow> mem \<Rightarrow> addr \<times> mem" where
  "gtoa value buffer base len m =
     (if base < 2 \<or> base > 32 then (buffer, m)
      else
        let (i, m) = gtoaLoop base len buffer (abs_u value) 0 m;
            (i, m) = (if i = 0 then (i + 1, m(idx buffer i := byte 48)) else (i, m));
            (i, m) = (if value < 0 \<and> base = 10 then (i + 1, m(idx buffer i := byte 45)) else (i, m));
            m = m(idx buffer i := 0)
        in reverse_u buffer 0 (i - 1) m)"

text \<open>The loop of \<open>itoa\<close> has no bound but that the quotients reach 0.\<close>

partial_function (option) itoaLoop_u :: "int \<Rightarrow> addr \<Rightarrow> int \<Rightarrow> int \<Rightarrow> mem \<Rightarrow> (int \<times> mem) option" where
  "itoaLoop_u base buffer n i m =
     (if n \<noteq> 0
      then itoaLoop_u base buffer (n sdiv base) (i + 1) (m(idx buffer i := digit_u (n smod base)))
      else Some (i, m))"

definition itoa_u :: "int \<Rightarrow> addr \<Rightarrow> int \<Rightarrow> mem \<Rightarrow> (addr \<times> mem) option" where
  "itoa_u value buffer base m =
     (if base < 2 \<or> base > 32 then Some (buffer, m)
      else do {
        (i, m) \<leftarrow> itoaLoop_u base buffer (abs_u value) 0 m;
        let (i, m) = (if i = 0 then (i + 1, m(idx buffer i := byte 48)) else (i, m));
        let (i, m) = (if value < 0 \<and> base = 10 then (i + 1, m(idx buffer i := byte 45)) else (i, m));
        let m = m(idx buffer i := 0);
        Some (reverse_u buffer 0 (i - 1) m)
      })"

text \<open>The first loop of \<open>atoi\<close> moves the string behind every minus sign it meets.\<close>

partial_function (option) atoiSign :: "mem \<Rightarrow> addr \<Rightarrow> int \<Rightarrow> int \<Rightarrow> (addr \<times> int) option" where
  "atoiSign m str i sign =
     (if m (idx str i) \<noteq> 0
      then if m (idx str i) = 45 then atoiSign m (str + 1) (s32 (i + 1)) (- sign) else atoiSign m str (s32 (i + 1)) sign
      else Some (str, sign))"

partial_function (option) atoiVal :: "mem \<Rightarrow> addr \<Rightarrow> int \<Rightarrow> int \<Rightarrow> int option" where
  "atoiVal m str i val =
     (let c = m (idx str i) in
      if sint c \<ge> 48 \<and> sint c \<le> 57 \<and> c \<noteq> 0
      then atoiVal m str (s32 (i + 1)) (s32 (s32 (val * 10) + (sint c - 48)))
      else Some val)"

definition atoi :: "mem \<Rightarrow> addr \<Rightarrow> int option" where
  "atoi m str =
     do {
       (str, sign) \<leftarrow> atoiSign m str 0 1;
       val \<leftarrow> atoiVal m str 0 0;
       Some (s32 (val * sign))
     }"

function powLoop :: "int \<Rightarrow> int \<Rightarrow> int \<Rightarrow> int" where
  "powLoop base exponent result =
     (if exponent > 0 then powLoop base (exponent - 1) (s32 (result * base)) else result)"
  by pat_completeness auto
termination
  by (relation "measure (\<lambda>(b, e, r). nat e)") auto

definition pow :: "int \<Rightarrow> int \<Rightarrow> int" where
  "pow base exponent = powLoop base exponent 1"

definition isNumber :: "u8 \<Rightarrow> bool" where
  "isNumber c \<longleftrightarrow> sint c \<le> 57 \<and> sint c \<ge> 48"

partial_function (option) isFloatLoop :: "mem \<Rightarrow> addr \<Rightarrow> bool \<Rightarrow> bool option" where
  "isFloatLoop m str dot =
     (if m str \<noteq> 0
      then if m str = 46 \<and> \<not> dot then isFloatLoop m (str + 1) True
           else if \<not> isNumber (m str) \<or> m str = 46 \<and> dot then Some False
           else isFloatLoop m (str + 1) dot
      else Some True)"

definition isFloat :: "mem \<Rightarrow> addr \<Rightarrow> bool option" where
  "isFloat m str = (if m str = 45 then isFloatLoop m (str + 1) False else isFloatLoop m str False)"

section \<open>Tokens\<close>

partial_function (option) strstrip :: "mem \<Rightarrow> addr \<Rightarrow> u8 \<Rightarrow> addr option" where
  "strstrip m s c = (if m s \<noteq> 0 \<and> m s = c then strstrip m (s + 1) c else Some s)"

partial_function (option) strtokLoop :: "u8 \<Rightarrow> addr \<Rightarrow> bool \<Rightarrow> mem \<Rightarrow> (addr \<times> mem) option" where
  "strtokLoop delim ptr flag m =
     (if m ptr \<noteq> 0
      then if m ptr = delim then strtokLoop delim (ptr + 1) True (m(ptr := 0))
           else if flag then Some (ptr, m)
           else strtokLoop delim (ptr + 1) flag m
      else Some (ptr, m))"

definition strtok :: "addr \<Rightarrow> u8 \<Rightarrow> mem \<Rightarrow> (addr \<times> mem) option" where
  "strtok s delim m = (if s = NULL then Some (NULL, m) else strtokLoop delim s False m)"

declare reverseLoop_u.simps [simp del] gtoaLoop.simps [simp del] powLoop.simps [simp del]

section \<open>Strings, lemmas\<close>

lemma strlenLoop_len:
  assumes "cstr m (idx s i) t" "0 \<le> i" "i + int (length t) < 2147483648"
  shows "strlenLoop m s i = Some (i + int (length t))"
  using assms
proof (induction t arbitrary: i)
  case Nil
  then show ?case by (simp add: strlenLoop.simps)
next
  case (Cons c t)
  have "idx s (i + 1) = Suc (idx s i)" using Cons.prems(2) by (simp add: idx_def)
  with Cons show ?case by (subst strlenLoop.simps) simp
qed

lemma strlen_len: "cstr m s t \<Longrightarrow> length t < 2147483648 \<Longrightarrow> strlen m s = Some (int (length t))"
  using strlenLoop_len [of m s 0 t] by (simp add: strlen_def idx_def)

lemma strcmp_u_result:
  assumes "cstr m p s" and "cstr m q t"
  shows "strcmp_u m p q = strcmp m p q"
  using assms
proof (induction s arbitrary: p q t)
  case Nil
  then show ?case by (simp add: strcmp_u.simps [of m p] strcmp.simps [of m p])
next
  case (Cons c s)
  show ?case
  proof (cases t)
    case Nil
    with Cons.prems show ?thesis by (auto simp: strcmp_u.simps [of m p] strcmp.simps [of m p])
  next
    case (Cons d t')
    with Cons.prems Cons.IH [of "Suc p" "Suc q" t'] show ?thesis
      by (auto simp: strcmp_u.simps [of m p] strcmp.simps [of m p])
  qed
qed

lemma strEnd_end: "cstr m p s \<Longrightarrow> strEnd m p = Some (p + length s)"
  by (induction s arbitrary: p) (auto simp: strEnd.simps [of m])

lemma catLoop_wr:
  assumes "cstr m src s" and "dst \<le> src \<or> src + length s < dst"
  shows "catLoop dst src m = Some (wr m dst (s @ [0]))"
  using assms
proof (induction s arbitrary: dst src m)
  case Nil
  then show ?case by (simp add: catLoop.simps [of dst] fun_upd_def)
next
  case (Cons c s)
  have "cstr (m(dst := c)) (Suc src) s = cstr m (Suc src) s"
    using Cons.prems(2) by (intro cstr_cong) auto
  with Cons.IH [of "m(dst := c)" "Suc src" "Suc dst"] Cons.prems show ?case
    by (auto simp: catLoop.simps [of dst] wr_Cons fun_upd_def)
qed

lemma strcpy_u_eq: "strcpyLoop_u d s i m = strcpy_loop d s i m" if "cstr m s t" "d \<le> s \<or> s + length t < d"
  using that
proof (induction t arbitrary: d s i m)
  case Nil
  then show ?case by (simp add: strcpyLoop_u.simps [of d] strcpy_loop.simps [of d] fun_upd_def)
next
  case (Cons c t)
  have "cstr (m(d := c)) (Suc s) t = cstr m (Suc s) t"
    using Cons.prems(2) by (intro cstr_cong) auto
  with Cons.IH [of "m(d := c)" "Suc s" "Suc d"] Cons.prems show ?case
    by (auto simp: strcpyLoop_u.simps [of d] strcpy_loop.simps [of d] fun_upd_def)
qed

section \<open>Numbers, lemmas\<close>

lemma swap_u_eq: "swap_u = swap_c"
  by (simp add: fun_eq_iff swap_u_def swap_c_def)

lemma reverse_u_eq: "reverse_u b i j m = reverse b i j m"
proof -
  have "reverseLoop_u b i j m = reverse_loop b i j m" for i j m
  proof (induction b i j m rule: reverseLoop_u.induct)
    case (1 b i j m)
    then show ?case by (subst reverseLoop_u.simps, subst reverse_loop.simps) (simp add: swap_u_eq)
  qed
  then show ?thesis by (simp add: reverse_u_def reverse_def)
qed

lemma abs_u_eq: "abs_u = abs_c"
  by (simp add: fun_eq_iff abs_u_def abs_c_def)

lemma digit_u_eq: "digit_u = digit_char"
  by (simp add: fun_eq_iff digit_u_def digit_char_def)

lemma gtoaLoop_eq: "gtoaLoop b l buf n i m = itoa_loop b l buf n i m"
proof (induction b l buf n i m rule: gtoaLoop.induct)
  case (1 b l buf n i m)
  then show ?case by (subst gtoaLoop.simps, subst itoa_loop.simps) (simp add: digit_u_eq fun_upd_def)
qed

lemma gtoa_eq: "gtoa v buf b l m = itoa v buf b l m"
  by (simp add: gtoa_def itoa_def gtoaLoop_eq abs_u_eq reverse_u_eq)

text \<open>The loop without a bound does what the loop with a bound of 31 does.\<close>

lemma itoaLoop_u_eq:
  assumes "2 \<le> b" "n < b ^ k" "i + k \<le> l"
  shows "itoaLoop_u (int b) buf (int n) (int i) m = Some (itoa_loop (int b) (int l) buf (int n) (int i) m)"
  using assms(2,3)
proof (induction k arbitrary: n i m)
  case 0
  then show ?case by (simp add: itoaLoop_u.simps itoa_loop.simps)
next
  case (Suc k)
  have q: "int n sdiv int b = int (n div b)" "int n smod int b = int (n mod b)"
    by (cases "b = 0"; simp add: signed_divide_int_def signed_modulo_int_def zdiv_int zmod_int sgn_if)+
  have "n div b < b ^ k" using Suc.prems(1) by (simp add: less_mult_imp_div_less mult.commute)
  from Suc.IH [OF this, of "Suc i" "m(buf + i := digit_char (int (n mod b)))"] Suc.prems(2) show ?case
    by (subst itoaLoop_u.simps, subst itoa_loop.simps) (auto simp: q digit_u_eq add.commute fun_upd_def)
qed

lemma itoa_u_eq:
  assumes "2 \<le> base" "base \<le> 32" and "- 2147483648 < value" "value < 2147483648"
  shows "itoa_u value buf base m = Some (itoa value buf base 31 m)"
proof -
  let ?b = "nat base" and ?n = "nat \<bar>value\<bar>"
  have a: "abs_c value = int ?n" and b: "base = int ?b" "2 \<le> ?b" using assms by (auto simp: abs_c_def)
  have "?n < 2 ^ 31" using assms by simp
  also have "(2 :: nat) ^ 31 \<le> ?b ^ 31" using b(2) by (rule power_mono) simp
  finally have "itoaLoop_u base buf (abs_c value) 0 m = Some (itoa_loop base 31 buf (abs_c value) 0 m)"
    using itoaLoop_u_eq [OF b(2), of ?n 31 0 31 buf m] unfolding a [symmetric] b(1) [symmetric] by simp
  with assms(1,2) show ?thesis
    by (cases "itoa_loop base 31 buf (abs_c value) 0 m") (simp add: itoa_u_def itoa_def abs_u_eq reverse_u_eq Let_def split_beta)
qed

lemma idx_0 [simp]: "idx b 0 = b"
  by (simp add: idx_def)

lemma cstr_append: "cstr m p (a @ b) \<longleftrightarrow> bytes m p (length a) = a \<and> 0 \<notin> set a \<and> cstr m (p + length a) b"
  by (induction a arbitrary: p) (auto simp: bytes_Cons)

lemma cstr_upd_before: "x < p \<Longrightarrow> cstr (m(x := v)) p s = cstr m p s"
  by (rule cstr_cong) auto

text \<open>Reading a number: decimal digits, without a sign and behind one.\<close>

definition decimal :: "u8 list \<Rightarrow> bool" where
  "decimal ds \<longleftrightarrow> (\<forall>c \<in> set ds. 48 \<le> uint c \<and> uint c \<le> 57)"

lemma sint_ascii: "uint c < 128 \<Longrightarrow> sint (c :: u8) = uint c"
  by (simp add: sint_uint signed_take_bit_int_eq_self order_trans [OF _ uint_ge_0])

lemma digits_ge: "0 \<le> v \<Longrightarrow> decimal ds \<Longrightarrow> v \<le> foldl (\<lambda>a c. a * 10 + digit_val c) v ds"
proof (induction ds arbitrary: v)
  case (Cons c ds)
  have "0 \<le> v * 10 + digit_val c" "v \<le> v * 10 + digit_val c" using Cons.prems by (auto simp: decimal_def digit_val_def)
  with Cons.IH [of "v * 10 + digit_val c"] Cons.prems show ?case by (auto simp: decimal_def)
qed simp

lemma atoiVal_digits:
  assumes "cstr m (idx str i) ds" "decimal ds" "0 \<le> v" "foldl (\<lambda>a c. a * 10 + digit_val c) v ds < 2147483648"
    and "0 \<le> i" "i + int (length ds) < 2147483648"
  shows "atoiVal m str i v = Some (foldl (\<lambda>a c. a * 10 + digit_val c) v ds)"
  using assms
proof (induction ds arbitrary: i v)
  case Nil
  then show ?case by (simp add: atoiVal.simps)
next
  case (Cons c ds)
  let ?v = "v * 10 + digit_val c"
  have c: "48 \<le> uint c" "uint c \<le> 57" and ds: "decimal ds" using Cons.prems(2) by (auto simp: decimal_def)
  have s: "sint c = uint c" "digit_val c = uint c - 48" using c by (simp_all add: sint_ascii digit_val_def)
  have v: "0 \<le> ?v" "?v < 2147483648" using digits_ge [OF _ ds, of ?v] Cons.prems(3,4) c s by auto
  then have w: "s32 (s32 (v * 10) + (sint c - 48)) = ?v" using Cons.prems(3) c s by simp
  have i: "idx str (i + 1) = Suc (idx str i)" "s32 (i + 1) = i + 1" using Cons.prems(5,6) by (simp_all add: idx_def)
  have "m (idx str i) = c" "c \<noteq> 0" using Cons.prems(1) by auto
  with Cons.IH [of "i + 1" ?v] Cons.prems v i w c s ds show ?case by (subst atoiVal.simps) (simp add: Let_def)
qed

lemma atoiSign_none:
  assumes "cstr m (idx str i) t" "45 \<notin> set t" "0 \<le> i" "i + int (length t) < 2147483648"
  shows "atoiSign m str i sign = Some (str, sign)"
  using assms
proof (induction t arbitrary: i)
  case Nil
  then show ?case by (simp add: atoiSign.simps)
next
  case (Cons c t)
  have "idx str (i + 1) = Suc (idx str i)" using Cons.prems(3) by (simp add: idx_def)
  with Cons show ?case by (subst atoiSign.simps) auto
qed

lemma decimal_no_minus: "decimal ds \<Longrightarrow> 45 \<notin> set ds"
  by (auto simp: decimal_def)

lemma atoi_digits:
  assumes "cstr m str ds" "decimal ds" "digits_value 10 ds < 2147483648" "length ds < 2147483648"
  shows "atoi m str = Some (digits_value 10 ds)"
proof -
  have "0 \<le> digits_value 10 ds" using digits_ge [of 0 ds] assms(2) by (simp add: digits_value_def)
  moreover have "atoiSign m str 0 1 = Some (str, 1)"
    using atoiSign_none [of m str 0 ds 1] assms decimal_no_minus by (simp add: idx_def)
  moreover have "atoiVal m str 0 0 = Some (digits_value 10 ds)"
    using atoiVal_digits [of m str 0 ds 0] assms by (simp add: idx_def digits_value_def)
  ultimately show ?thesis using assms(3) by (simp add: atoi_def)
qed

lemma atoi_negative:
  assumes "cstr m str (45 # ds)" "ds \<noteq> []" "decimal ds" "digits_value 10 ds < 2147483648" "length ds < 2147483648"
  shows "atoi m str = Some (- digits_value 10 ds)"
proof -
  obtain c t where ds: "ds = c # t" using assms(2) by (cases ds) auto
  have c: "cstr m (Suc str) ds" "cstr m (idx (Suc str) 1) t" using assms(1) ds by (auto simp: idx_def nat_add_distrib)
  have "0 \<le> digits_value 10 ds" using digits_ge [of 0 ds] assms(3) by (simp add: digits_value_def)
  moreover have "atoiSign m (Suc str) 1 (- 1) = Some (Suc str, - 1)"
    using atoiSign_none [OF c(2)] assms(3,5) decimal_no_minus [of ds] ds by simp
  then have "atoiSign m str 0 1 = Some (Suc str, - 1)" using assms(1) by (subst atoiSign.simps) (simp add: idx_def)
  moreover have "atoiVal m (Suc str) 0 0 = Some (digits_value 10 ds)"
    using atoiVal_digits [of m "Suc str" 0 ds 0] assms c(1) by (simp add: digits_value_def)
  ultimately show ?thesis using assms(4) by (simp add: atoi_def)
qed

lemma lsd_decimal: "decimal (lsd 10 n)"
proof (induction n rule: less_induct)
  case (less n)
  show ?case
  proof (cases "n = 0")
    case False
    then have "decimal (lsd 10 (n div 10))" using less by simp
    moreover have "uint (digit_char (int (n mod 10))) = int (n mod 10) + 48"
      using uint_digit_char [of "int (n mod 10)"] by simp
    ultimately show ?thesis using False by (subst lsd.simps) (auto simp: decimal_def)
  qed (simp add: decimal_def)
qed

section \<open>Tokens, lemmas\<close>

lemma strstrip_strip:
  assumes "cstr m s (replicate n c @ t)" "t = [] \<or> hd t \<noteq> c"
  shows "strstrip m s c = Some (s + n)"
  using assms(1)
proof (induction n arbitrary: s)
  case 0
  with assms(2) show ?case by (cases t) (auto simp: strstrip.simps [of m s])
next
  case (Suc n)
  then show ?case by (auto simp: strstrip.simps [of m s])
qed

lemma strtokLoop_delims:
  assumes "cstr m p (replicate n d @ t)" "t = [] \<or> hd t \<noteq> d"
  shows "strtokLoop d p True m = Some (p + n, wr m p (replicate n 0))"
  using assms(1)
proof (induction n arbitrary: p m)
  case 0
  with assms(2) show ?case by (cases t) (auto simp: strtokLoop.simps [of d p])
next
  case (Suc n)
  have "cstr (m(p := 0)) (Suc p) (replicate n d @ t)" using Suc.prems by (simp add: cstr_upd_before)
  from Suc.IH [OF this] Suc.prems show ?case by (subst strtokLoop.simps) (auto simp: wr_Cons fun_upd_def)
qed

lemma strtokLoop_word:
  assumes "cstr m p (w @ t)" "d \<notin> set w"
  shows "strtokLoop d p False m = strtokLoop d (p + length w) False m"
  using assms
proof (induction w arbitrary: p)
  case (Cons c w)
  then show ?case by (subst strtokLoop.simps) auto
qed simp

text \<open>\<open>strtok\<close> ends the first word of the string with a NUL and returns the address of the rest.\<close>

lemma strtok_split:
  assumes c: "cstr m p (w @ replicate n d @ t)" and w: "d \<notin> set w" and t: "t = [] \<or> hd t \<noteq> d" and n: "n = 0 \<Longrightarrow> t = []"
    and p: "p \<noteq> NULL"
  shows "\<exists>m'. strtok p d m = Some (p + length w + n, m') \<and> cstr m' p w \<and> cstr m' (p + length w + n) t \<and>
    (\<forall>x. x < p + length w \<or> p + length w + n \<le> x \<longrightarrow> m' x = m x)"
proof -
  let ?q = "p + length w"
  have q: "cstr m ?q (replicate n d @ t)"
    using c by (simp add: cstr_append)
  let ?m = "wr m ?q (replicate n 0)"
  have "strtokLoop d ?q False m = Some (?q + n, ?m)"
  proof (cases n)
    case 0
    with n q show ?thesis by (simp add: strtokLoop.simps [of d ?q])
  next
    case (Suc k)
    with q have "cstr (m(?q := 0)) (Suc ?q) (replicate k d @ t)" by (simp add: cstr_upd_before)
    from strtokLoop_delims [OF this t] Suc q show ?thesis by (subst strtokLoop.simps) (auto simp: wr_Cons fun_upd_def)
  qed
  then have run: "strtok p d m = Some (?q + n, ?m)" using strtokLoop_word [OF c w] p by (simp add: strtok_def)
  have z: "?m ?q = 0" using q n by (cases n) (auto simp: wr_def)
  have "bytes ?m p (length w) = bytes m p (length w)" by (rule bytes_cong) (simp add: wr_outside)
  moreover have "bytes m p (length w) = w" "0 \<notin> set w"
    using c by (simp_all add: cstr_append)
  ultimately have "cstr ?m p w" using z by (simp add: cstr_def)
  moreover have "cstr m (?q + n) t" using q by (simp add: cstr_append)
  ultimately show ?thesis using run cstr_wr_outside [of "?q + n" t ?q "replicate n 0" m] by (auto simp: wr_outside)
qed

section \<open>Properties\<close>

text \<open>C32: the kernel's \<open>itoa\<close> and the user library's \<open>gtoa\<close> are the same function, and the user
  library's \<open>itoa\<close>, whose loop has no bound, returns and gives the same memory as the kernel's
  with the bound 31, for every base it accepts.\<close>

theorem user_itoa_equiv:
  assumes "2 \<le> base" "base \<le> 32" and "- 2147483648 < value" "value < 2147483648"
  shows "gtoa value buffer base len m = itoa value buffer base len m \<and>
    itoa_u value buffer base m = Some (itoa value buffer base 31 m)"
  using gtoa_eq itoa_u_eq [OF assms] by simp

theorem user_itoa_equiv_witness:
  "gtoa 255 64 16 2 (\<lambda>_. 0) = itoa 255 64 16 2 (\<lambda>_. 0) \<and> itoa_u 255 64 16 (\<lambda>_. 0) = Some (itoa 255 64 16 31 (\<lambda>_. 0))"
  using user_itoa_equiv [of 16 255] by simp

lemma atoi_text:
  assumes "- 2147483648 < value" "value < 2147483648"
  shows "atoi (wr m buffer (itoa_text value 10 31 @ [0])) buffer = Some value"
proof -
  let ?t = "itoa_text value 10 31" and ?ds = "rev (lsd 10 (nat \<bar>value\<bar>))"
  let ?m = "wr m buffer (?t @ [0])"
  have c: "cstr ?m buffer ?t" using itoa_text_value(1) [of 10 "value" 31 m buffer] assms by simp
  have dec: "decimal ?ds" using lsd_decimal by (auto simp: decimal_def)
  have len: "length ?ds \<le> 31" using length_lsd [of 10 "nat \<bar>value\<bar>" 31] assms by simp
  then have t: "?t = (if value < 0 then [byte 45] else []) @ (if value = 0 then [byte 48] else ?ds)"
    by (auto simp: itoa_text_def Let_def lsd.simps [of 10 "nat \<bar>value\<bar>"])
  have val: "digits_value 10 ?ds = \<bar>value\<bar>" using digits_value_lsd [of 10 "nat \<bar>value\<bar>"] by simp
  show ?thesis
  proof (cases "value < 0")
    case True
    then have neg: "cstr ?m buffer (45 # ?ds)" using c t by (simp add: byte_def)
    have "?ds \<noteq> []" using val True by (auto simp: digits_value_def)
    from atoi_negative [OF neg this dec] val assms True len show ?thesis by simp
  next
    case False
    show ?thesis
    proof (cases "value = 0")
      case True
      then have "cstr ?m buffer [byte 48]" using c t by simp
      from atoi_digits [OF this] True show ?thesis by (simp add: decimal_def digits_value_def digit_val_def byte_def)
    next
      case nz: False
      then have "cstr ?m buffer ?ds" using c t False by simp
      from atoi_digits [OF this dec] val assms False len show ?thesis by simp
    qed
  qed
qed

text \<open>\<open>atoi\<close> inverts the user library's decimal \<open>itoa\<close>: both return, and the number comes back,
  sign included, for every \<open>int\<close> but the least one.\<close>

theorem atoi_itoa:
  assumes "- 2147483648 < value" "value < 2147483648"
  shows "\<exists>m'. itoa_u value buffer 10 m = Some (buffer, m') \<and> atoi m' buffer = Some value"
  using itoa_u_eq [of 10 "value" buffer m] itoa_wr [of 10 "value" buffer 31 m] atoi_text [OF assms] assms by simp

theorem atoi_itoa_witness:
  "\<exists>m'. itoa_u (- 2147483647) 64 10 (\<lambda>_. 0) = Some (64, m') \<and> atoi m' 64 = Some (- 2147483647)"
  using atoi_itoa [of "- 2147483647"] by simp

end
