(* ===== verification/Video.thy ===== *)
theory Video
  imports KLib
begin

text \<open>
  The text console, \<open>src/Kernel/drivers/video.c\<close>: a cursor over the video memory at \<open>0xB8000\<close>,
  80 columns by 25 rows, two bytes per cell (character and colour). The screen seen
  as 25 rows of characters is the abstract terminal; printing is shown to implement it.
\<close>

section \<open>Definitions\<close>

record console =
  cmem :: mem
  currentX :: int
  currentY :: int

abbreviation (input) video :: addr where "video \<equiv> 0xB8000"
abbreviation (input) width :: nat where "width \<equiv> 80"
abbreviation (input) limitX0 :: nat where "limitX0 \<equiv> 0"
abbreviation (input) limitX1 :: nat where "limitX1 \<equiv> 80"
abbreviation (input) limitY0 :: nat where "limitY0 \<equiv> 0"
abbreviation (input) limitY1 :: nat where "limitY1 \<equiv> 25"

definition scrollCell :: "nat \<Rightarrow> nat \<Rightarrow> mem \<Rightarrow> mem" where
  "scrollCell i j m =
     (let m = m(video + i * width * 2 + j * 2 := m (video + (i + 1) * width * 2 + j * 2))
      in m(video + i * width * 2 + j * 2 + 1 := m (video + (i + 1) * width * 2 + j * 2 + 1)))"

definition scroll :: "console \<Rightarrow> console" where
  "scroll c =
     (let m = fold (\<lambda>i. fold (scrollCell i) [limitX0..<limitX1]) [limitY0..<limitY1 - 1] (cmem c);
          m = fold (\<lambda>j m. m(video + (limitY1 - 1) * width * 2 + j * 2 := 32)) [limitX0..<limitX1] m
      in c\<lparr>cmem := m\<rparr>)"

definition increment :: "console \<Rightarrow> console" where
  "increment c =
     (let c = c\<lparr>currentX := currentX c + 1\<rparr> in
      if currentX c = int limitX1
      then let c = c\<lparr>currentY := currentY c + 1, currentX := int limitX0\<rparr> in
        if currentY c \<ge> int limitY1 then (scroll c)\<lparr>currentY := int limitY1 - 1\<rparr> else c
      else c)"

definition new_line :: "console \<Rightarrow> console" where
  "new_line c =
     (let c = c\<lparr>currentX := int limitX0, currentY := currentY c + 1\<rparr> in
      if currentY c = int limitY1 then (scroll c)\<lparr>currentY := int limitY1 - 1\<rparr> else c)"

definition clear :: "console \<Rightarrow> console" where
  "clear c = c\<lparr>currentX := int limitX0, currentY := int limitY0,
     cmem := fold (\<lambda>i. fold (\<lambda>j m. m(video + i * width * 2 + j * 2 := 32)) [limitX0..<limitX1]) [limitY0..<limitY1] (cmem c)\<rparr>"

text \<open>The offset of the cursor's cell in the video memory.\<close>

definition cursor :: "console \<Rightarrow> int" where
  "cursor c = currentY c * int width * 2 + currentX c * 2"

definition backspace :: "console \<Rightarrow> console" where
  "backspace c =
     (let c =
        (if cursor c > 0
         then let c = c\<lparr>currentX := currentX c - 1\<rparr> in
           if currentX c < int limitX0
           then c\<lparr>currentX := int limitX1, currentY := (if currentY c > int limitY0 then currentY c - 1 else currentY c)\<rparr>
           else c
         else c)
      in c\<lparr>cmem := (cmem c)(idx video (cursor c) := 32)\<rparr>)"

definition checkIfEscapeSequence :: "addr \<Rightarrow> console \<Rightarrow> bool \<times> console" where
  "checkIfEscapeSequence bufferAux c =
     (if cmem c bufferAux = 27 then (True, if cmem c (bufferAux + 1) = 12 then clear c else c) else (False, c))"

definition putCell :: "int \<Rightarrow> u8 \<Rightarrow> console \<Rightarrow> console" where
  "putCell color b c =
     (let p = idx video (cursor c) in c\<lparr>cmem := (cmem c)(p := b, p + 1 := byte color)\<rparr>)"

function printLoop :: "int \<Rightarrow> int \<Rightarrow> addr \<Rightarrow> int \<Rightarrow> console \<Rightarrow> int \<times> console" where
  "printLoop color maxLen string i c =
     (let b = cmem c string in
      if b \<noteq> 0 \<and> i \<le> maxLen
      then if b = 10 then printLoop color maxLen (string + 1) (i + 1) (new_line c)
           else if b = 8 then (i, backspace c)
           else if b = - 1 then (i, c)
           else let (e, c) = checkIfEscapeSequence string c in
             if e then (i, c) else printLoop color maxLen (string + 1) (i + 1) (increment (putCell color b c))
      else (i, c))"
  by pat_completeness auto
termination
  by (relation "measure (\<lambda>(col, n, s, i, c). nat (n + 1 - i))") auto

definition printStringLen :: "int \<Rightarrow> addr \<Rightarrow> int \<Rightarrow> console \<Rightarrow> int \<times> console" where
  "printStringLen color string maxLen c = printLoop color maxLen string 0 c"

declare printLoop.simps [simp del]

section \<open>Scrolling and clearing\<close>

text \<open>The inner loop copies the 160 bytes of the next row.\<close>

lemma scroll_row:
  "fold (scrollCell i) [0..<n] m =
     (\<lambda>a. if video + 160 * i \<le> a \<and> a < video + 160 * i + 2 * n then m (a + 160) else m a)" if "n \<le> 80"
  using that
proof (induction n)
  case (Suc n)
  let ?m = "\<lambda>a. if video + 160 * i \<le> a \<and> a < video + 160 * i + 2 * n then m (a + 160) else m a"
  have "fold (scrollCell i) [0..<Suc n] m = scrollCell i n ?m" using Suc by simp
  also have "\<dots> = (\<lambda>a. if video + 160 * i \<le> a \<and> a < video + 160 * i + 2 * Suc n then m (a + 160) else m a)"
    using Suc.prems by (auto simp: scrollCell_def Let_def fun_eq_iff algebra_simps not_less)
  finally show ?case .
qed (auto simp: fun_eq_iff)

lemma scroll_rows:
  "fold (\<lambda>i. fold (scrollCell i) [0..<80]) [0..<k] m =
     (\<lambda>a. if video \<le> a \<and> a < video + 160 * k then m (a + 160) else m a)"
proof (induction k)
  case (Suc k)
  then show ?case by (auto simp: scroll_row fun_eq_iff)
qed (auto simp: fun_eq_iff)

lemma blank_row:
  "fold (\<lambda>j m. m(b + j * 2 := v)) [0..<n] m = (\<lambda>a. if b \<le> a \<and> a < b + 2 * n \<and> even (a - b) then v else m a)"
proof (induction n)
  case (Suc n)
  have "a = b + n * 2 \<longleftrightarrow> b \<le> a \<and> \<not> a < b + 2 * n \<and> a < b + 2 * Suc n \<and> even (a - b)" for a :: nat
    by presburger
  with Suc show ?case by (auto simp: fun_eq_iff)
qed (auto simp: fun_eq_iff)

text \<open>The characters of the screen, row by row.\<close>

definition rows :: "mem \<Rightarrow> u8 list list" where
  "rows m = map (\<lambda>y. map (\<lambda>x. m (video + 160 * y + 2 * x)) [0..<80]) [0..<25]"

lemma length_rows [simp]: "length (rows m) = 25"
  by (simp add: rows_def)

lemma rows_nth: "y < 25 \<Longrightarrow> rows m ! y = map (\<lambda>x. m (video + 160 * y + 2 * x)) [0..<80]"
  by (simp add: rows_def)

lemma scroll_rows_tl:
  "rows (cmem (scroll c)) = tl (rows (cmem c)) @ [replicate 80 32]"
proof (rule nth_equalityI)
  fix y assume "y < length (rows (cmem (scroll c)))"
  then have y: "y < 25" by simp
  show "rows (cmem (scroll c)) ! y = (tl (rows (cmem c)) @ [replicate 80 32]) ! y"
  proof (cases "y < 24")
    case True
    then show ?thesis using y
      by (auto simp: scroll_def scroll_rows blank_row rows_nth nth_append nth_tl intro!: arg_cong [where f = "cmem c"])
  next
    case False
    then have "y = 24" using y by simp
    then show ?thesis by (auto simp: scroll_def scroll_rows blank_row rows_nth nth_append intro!: nth_equalityI)
  qed
qed simp

lemma scroll_frame [simp]: "currentX (scroll c) = currentX c" "currentY (scroll c) = currentY c"
  by (simp_all add: scroll_def Let_def)

text \<open>Memory outside the 4000 bytes of the screen.\<close>

definition off_screen :: "addr \<Rightarrow> bool" where
  "off_screen a \<longleftrightarrow> a < video \<or> video + 4000 \<le> a"

lemma scroll_off [simp]: "off_screen a \<Longrightarrow> cmem (scroll c) a = cmem c a"
  by (auto simp: scroll_def scroll_rows blank_row off_screen_def)

section \<open>The abstract terminal\<close>

type_synonym terminal = "u8 list list \<times> nat \<times> nat"

fun tnewline :: "terminal \<Rightarrow> terminal" where
  "tnewline (rs, x, y) = (if y + 1 = 25 then (tl rs @ [replicate 80 32], 0, 24) else (rs, 0, y + 1))"

fun tput :: "u8 \<Rightarrow> terminal \<Rightarrow> terminal" where
  "tput b (rs, x, y) =
     (let rs = rs[y := (rs ! y)[x := b]] in if x + 1 = 80 then tnewline (rs, x, y) else (rs, x + 1, y))"

definition tchar :: "u8 \<Rightarrow> terminal \<Rightarrow> terminal" where
  "tchar b t = (if b = 10 then tnewline t else tput b t)"

definition term_of_console :: "console \<Rightarrow> terminal" where
  "term_of_console c = (rows (cmem c), nat (currentX c), nat (currentY c))"

definition on_screen :: "console \<Rightarrow> bool" where
  "on_screen c \<longleftrightarrow> 0 \<le> currentX c \<and> currentX c < 80 \<and> 0 \<le> currentY c \<and> currentY c < 25"

text \<open>What every step of printing keeps: the cursor on the screen and the memory off it.\<close>

definition prints :: "console \<Rightarrow> console \<Rightarrow> bool" where
  "prints c c' \<longleftrightarrow> on_screen c' \<and> (\<forall>a. off_screen a \<longrightarrow> cmem c' a = cmem c a)"

lemma cursor_addr:
  assumes "on_screen c"
  shows "idx video (cursor c) = video + 160 * nat (currentY c) + 2 * nat (currentX c)"
  using assms by (auto simp: idx_def cursor_def on_screen_def nat_eq_iff)

lemma new_line_term: "on_screen c \<Longrightarrow> term_of_console (new_line c) = tnewline (term_of_console c) \<and> prints c (new_line c)"
  by (auto simp: new_line_def Let_def term_of_console_def on_screen_def prints_def scroll_rows_tl nat_add_distrib)

lemma rows_put:
  assumes "y < 25" "x < 80"
  shows "rows (m(video + 160 * y + 2 * x := b, Suc (video + 160 * y + 2 * x) := k)) = (rows m)[y := (rows m ! y)[x := b]]"
proof (rule nth_equalityI)
  fix z assume z: "z < length (rows (m(video + 160 * y + 2 * x := b, Suc (video + 160 * y + 2 * x) := k)))"
  have "160 * z + 2 * w = 160 * y + 2 * x \<longleftrightarrow> z = y \<and> w = x" if "w < 80" for w
    using that assms(2) by (cases z y rule: linorder_cases) auto
  moreover have "160 * z + 2 * w \<noteq> Suc (160 * y + 2 * x)" for w
    by (metis dvd_add dvd_mult2 even_Suc even_numeral)
  ultimately show "rows (m(video + 160 * y + 2 * x := b, Suc (video + 160 * y + 2 * x) := k)) ! z =
      (rows m)[y := (rows m ! y)[x := b]] ! z"
    using z assms by (auto simp: rows_nth nth_list_update intro!: nth_equalityI)
qed simp

lemma putCell_term:
  assumes "on_screen c"
  shows "rows (cmem (putCell k b c)) = (rows (cmem c))[nat (currentY c) := (rows (cmem c) ! nat (currentY c))[nat (currentX c) := b]]"
    and "off_screen a \<Longrightarrow> cmem (putCell k b c) a = cmem c a"
  using assms rows_put [of "nat (currentY c)" "nat (currentX c)" "cmem c" b "byte k"]
  by (auto simp: putCell_def Let_def cursor_addr off_screen_def) (auto simp: on_screen_def)

lemma putCell_frame [simp]: "currentX (putCell k b c) = currentX c" "currentY (putCell k b c) = currentY c"
  by (simp_all add: putCell_def Let_def)

lemma put_increment_term:
  assumes "on_screen c"
  shows "term_of_console (increment (putCell k b c)) = tput b (term_of_console c)" and "prints c (increment (putCell k b c))"
  using assms putCell_term(1) [OF assms, of k b] putCell_term(2) [OF assms, of _ k b]
  by (auto simp: increment_def Let_def term_of_console_def on_screen_def prints_def scroll_rows_tl nat_add_distrib)

section \<open>Printing\<close>

text \<open>Text that only moves the cursor forwards.\<close>

definition plain :: "u8 list \<Rightarrow> bool" where
  "plain s \<longleftrightarrow> 8 \<notin> set s \<and> - 1 \<notin> set s \<and> 27 \<notin> set s"

lemma cstr_off:
  assumes "cstr (cmem c) p s" "p + length s < video \<or> video + 4000 \<le> p" "\<forall>a. off_screen a \<longrightarrow> cmem c' a = cmem c a"
  shows "cstr (cmem c') p s"
proof -
  have "cmem c' (p + i) = cmem c (p + i)" if "i \<le> length s" for i using that assms(2,3) by (auto simp: off_screen_def)
  with assms(1) show ?thesis using cstr_cong [of s "cmem c'" p "cmem c" p] by blast
qed

lemma printLoop_term:
  assumes "cstr (cmem c) p s" "p + length s < video \<or> video + 4000 \<le> p" "on_screen c" "plain s" "0 \<le> i"
  shows "\<exists>c'. printLoop k n p i c = (i + int (length (take (nat (n + 1 - i)) s)), c') \<and> prints c c' \<and>
    term_of_console c' = fold tchar (take (nat (n + 1 - i)) s) (term_of_console c)"
  using assms
proof (induction s arbitrary: p i c)
  case Nil
  then show ?case by (simp add: printLoop.simps prints_def)
next
  case (Cons b s)
  have b: "cmem c p = b" "b \<noteq> 0" using Cons.prems(1) by auto
  show ?case
  proof (cases "i \<le> n")
    case False
    then show ?thesis using Cons.prems(3) by (simp add: printLoop.simps [of k n p] prints_def)
  next
    case True
    define c1 where "c1 = (if b = 10 then new_line c else increment (putCell k b c))"
    have t: "term_of_console c1 = tchar b (term_of_console c)" "prints c c1"
      using new_line_term [OF Cons.prems(3)] put_increment_term [OF Cons.prems(3)] by (simp_all add: c1_def tchar_def)
    have step: "printLoop k n p i c = printLoop k n (Suc p) (i + 1) c1"
      using b True Cons.prems(4) by (subst printLoop.simps) (auto simp: plain_def checkIfEscapeSequence_def c1_def)
    have "cstr (cmem c) (Suc p) s" "Suc p + length s < video \<or> video + 4000 \<le> Suc p"
      using Cons.prems(1,2) by auto
    then have "cstr (cmem c1) (Suc p) s" by (rule cstr_off) (use t(2) in \<open>simp add: prints_def\<close>)
    moreover have "on_screen c1" "plain s" using t(2) Cons.prems(4) by (auto simp: prints_def plain_def)
    moreover have n: "nat (n + 1 - i) = Suc (nat (n + 1 - (i + 1)))" using True by linarith
    ultimately show ?thesis using Cons.IH [of c1 "Suc p" "i + 1"] Cons.prems(2,5) t unfolding step n
      by (auto simp: prints_def)
  qed
qed

text \<open>C20: printing implements the abstract terminal of 25 rows of 80 characters: text without
  backspace, end-of-file and escape characters moves the terminal by its first \<open>maxLen + 1\<close>
  characters, wrapping lines and scrolling, the number of characters printed is returned, the cursor
  stays on the screen, and no byte outside the video memory changes.\<close>

theorem print_refines_terminal:
  assumes "cstr (cmem c) p s" and "p + length s < video \<or> video + 4000 \<le> p" and "on_screen c" and "plain s"
  shows "\<exists>c'. printStringLen color p maxLen c = (int (length (take (nat (maxLen + 1)) s)), c') \<and> on_screen c' \<and>
    term_of_console c' = fold tchar (take (nat (maxLen + 1)) s) (term_of_console c) \<and>
    (\<forall>a. off_screen a \<longrightarrow> cmem c' a = cmem c a)"
  using printLoop_term [OF assms, of 0 color maxLen] by (auto simp: printStringLen_def prints_def)

definition console0 :: console where
  "console0 = \<lparr>cmem = wr (\<lambda>_. 32) 16 [104, 105, 10, 0], currentX = 78, currentY = 24\<rparr>"

lemma console0: "cstr (cmem console0) 16 [104, 105, 10]" "on_screen console0" "plain [104, 105, 10]"
  by (simp_all add: console0_def wr_def on_screen_def plain_def)

theorem print_refines_terminal_witness:
  "\<exists>c'. printStringLen 15 16 3 console0 = (3, c') \<and> on_screen c' \<and>
     term_of_console c' = fold tchar [104, 105, 10] (term_of_console console0)"
  using print_refines_terminal [OF console0(1) _ console0(2,3), of 15 3] by auto

section \<open>Backspace\<close>

lemma backspace_column0:
  assumes "currentX c = 0" "0 < currentY c"
  shows "backspace c = c\<lparr>currentX := 80, currentY := currentY c - 1, cmem := (cmem c)(video + nat (160 * currentY c) := 32)\<rparr>"
  using assms by (auto simp: backspace_def Let_def cursor_def idx_def nat_add_distrib algebra_simps)

lemma printLoop_past:
  assumes "cstr (cmem c) p s" "p + length s < video" "plain s" "10 \<notin> set s" "0 \<le> i" "i + int (length s) \<le> n + 1"
    "80 \<le> currentX c" "0 \<le> currentY c"
  shows "\<exists>c'. printLoop k n p i c = (i + int (length s), c') \<and> currentX c' = currentX c + int (length s) \<and> currentY c' = currentY c \<and>
    (\<forall>j < length s. cmem c' (idx video (cursor c) + 2 * j) = s ! j) \<and>
    (\<forall>a < idx video (cursor c). cmem c' a = cmem c a)"
  using assms
proof (induction s arbitrary: p i c)
  case Nil
  then show ?case by (simp add: printLoop.simps)
next
  case (Cons b s)
  let ?v = "idx video (cursor c)"
  define c1 where "c1 = increment (putCell k b c)"
  have b: "cmem c p = b" "b \<noteq> 0" using Cons.prems(1) by auto
  have v: "video \<le> ?v" using Cons.prems(7,8) by (simp add: idx_def cursor_def)
  have c1: "c1 = c\<lparr>currentX := currentX c + 1, cmem := (cmem c)(?v := b, ?v + 1 := byte k)\<rparr>"
    using Cons.prems(7) by (simp add: c1_def increment_def putCell_def Let_def)
  have v1: "idx video (cursor c1) = ?v + 2" using Cons.prems(7,8) unfolding c1 by (simp add: idx_def cursor_def)
  have step: "printLoop k n p i c = printLoop k n (Suc p) (i + 1) c1"
    using b Cons.prems(3,4,6) by (subst printLoop.simps) (auto simp: plain_def checkIfEscapeSequence_def c1_def)
  have "cstr (cmem c1) (Suc p) s = cstr (cmem c) (Suc p) s"
    using v Cons.prems(2) unfolding c1 by (intro cstr_cong) auto
  then have "cstr (cmem c1) (Suc p) s" "plain s" "80 \<le> currentX c1" "0 \<le> currentY c1" "0 \<le> i + 1"
    using Cons.prems by (auto simp: c1 plain_def)
  then obtain c' where c': "printLoop k n (Suc p) (i + 1) c1 = (i + 1 + int (length s), c')"
    "currentX c' = currentX c1 + int (length s)" "currentY c' = currentY c1"
    "\<forall>j < length s. cmem c' (?v + 2 + 2 * j) = s ! j" "\<forall>a < ?v + 2. cmem c' a = cmem c1 a"
    using Cons.IH [of c1 "Suc p" "i + 1"] Cons.prems(2,4,6) unfolding v1 by auto
  have "cmem c' (?v + 2 * j) = (b # s) ! j" if "j < length (b # s)" for j
    using that c'(4,5) by (cases j) (auto simp: c1)
  with c' step show ?case by (auto simp: c1)
qed

text \<open>after a backspace at the start of a line, the cursor is in column 80, which no test of the
  column ever meets again: the text printed next, without a line feed, is not wrapped but stored in a
  straight line from the start of the row, and when it is longer than the rest of the screen the bytes behind the
  video memory are overwritten.\<close>

theorem backspace_escapes:
  assumes "currentX c = 0" "0 < currentY c" "currentY c < 25" and "cstr (cmem c) p s" "p + length s < video"
    and "plain s" "10 \<notin> set s" and "int (length s) \<le> maxLen + 1"
  shows "\<exists>c'. printStringLen color p maxLen (backspace c) = (int (length s), c') \<and> currentX c' = 80 + int (length s) \<and>
    (\<forall>j < length s. cmem c' (video + 160 * nat (currentY c) + 2 * j) = s ! j)"
proof -
  let ?c = "backspace c"
  have bs: "?c = c\<lparr>currentX := 80, currentY := currentY c - 1, cmem := (cmem c)(video + nat (160 * currentY c) := 32)\<rparr>"
    using assms(1,2) by (rule backspace_column0)
  have "cstr (cmem ?c) p s = cstr (cmem c) p s" using assms(5) unfolding bs by (intro cstr_cong) auto
  moreover have "idx video (cursor ?c) = video + 160 * nat (currentY c)"
    using assms(2) unfolding bs by (simp add: idx_def cursor_def)
  ultimately show ?thesis using printLoop_past [of ?c p s 0 maxLen color] assms by (auto simp: printStringLen_def bs)
qed

theorem backspace_escapes_witness:
  "\<exists>c'. printStringLen 15 16 100 (backspace \<lparr>cmem = wr (\<lambda>_. 0) 16 (replicate 81 65), currentX = 0, currentY = 24\<rparr>) = (81, c') \<and>
     cmem c' (video + 4000) = 65"
proof -
  let ?c = "\<lparr>cmem = wr (\<lambda>_. 0) 16 (replicate 81 65), currentX = 0, currentY = 24\<rparr> :: console"
  have "cstr (cmem ?c) 16 (replicate 81 65)"
    by (simp add: cstr_def bytes_wr_eq wr_outside)
  from backspace_escapes [of ?c, OF _ _ _ this, of 100 15] show ?thesis by (auto simp: plain_def dest!: spec [of _ 80])
qed

end
