(* ===== verification/MemFRT4.thy ===== *)
theory MemFRT4
  imports KLib
begin

text \<open>
  The default memory manager, \<open>src/Kernel/utils/memManagerFRT4.c\<close>: a first-fit allocator with
  an address-ordered, coalescing free list. The \<open>BlockLink_t\<close> headers in memory are the map
  \<open>blocks\<close>; \<open>xStart\<close> is one of them, at the address the linker gave it. \<open>size_t\<close> values
  are natural numbers whose additions wrap at \<open>2 ^ 64\<close> (\<open>add64\<close>, \<open>sub64\<close>).
\<close>

section \<open>State\<close>

record BlockLink_t =
  pxNextFreeBlock :: addr
  xBlockSize :: nat

record mm_state =
  ucHeap :: addr
  xStart :: addr
  blocks :: "addr \<rightharpoonup> BlockLink_t"
  pxEnd :: addr
  xFreeBytesRemaining :: nat
  xMinimumEverFreeBytesRemaining :: nat
  xNumberOfSuccessfulAllocations :: nat
  xNumberOfSuccessfulFrees :: nat
  xBlockAllocatedBit :: nat

record HeapStats_t =
  xAvailableHeapSpaceInBytes :: nat
  xSizeOfLargestFreeBlockInBytes :: nat
  xSizeOfSmallestFreeBlockInBytes :: nat
  xNumberOfFreeBlocks :: nat
  xMinimumEverFree :: nat
  xSuccessfulAllocations :: nat
  xSuccessfulFrees :: nat

definition configTOTAL_HEAP_SIZE :: nat where
  "configTOTAL_HEAP_SIZE = 1024 * 1024 * 512"

definition portBYTE_ALIGNMENT_MASK :: nat where
  "portBYTE_ALIGNMENT_MASK = 7"

definition add64 :: "nat \<Rightarrow> nat \<Rightarrow> nat" where
  "add64 a b = (a + b) mod 2 ^ 64"

definition sub64 :: "nat \<Rightarrow> nat \<Rightarrow> nat" where
  "sub64 a b = (a + 2 ^ 64 - b) mod 2 ^ 64"

text \<open>\<open>~x\<close> of a \<open>size_t\<close>.\<close>

definition not64 :: "nat \<Rightarrow> nat" where
  "not64 x = 2 ^ 64 - 1 - x"

definition xHeapStructSize :: nat where
  "xHeapStructSize = add64 16 7 AND not64 portBYTE_ALIGNMENT_MASK"

definition heapMINIMUM_BLOCK_SIZE :: nat where
  "heapMINIMUM_BLOCK_SIZE = push_bit 1 xHeapStructSize"

section \<open>Operations\<close>

definition initMemoryManager :: "addr \<Rightarrow> mm_state \<Rightarrow> mm_state" where
  "initMemoryManager managedMemory s = s\<lparr>ucHeap := managedMemory\<rparr>"

definition prvHeapInit :: "mm_state \<Rightarrow> mm_state" where
  "prvHeapInit s =
     (let uxAddress = ucHeap s;
          (uxAddress, xTotalHeapSize) =
            (if uxAddress AND portBYTE_ALIGNMENT_MASK \<noteq> 0
             then let ux = add64 uxAddress 7 AND not64 portBYTE_ALIGNMENT_MASK
                  in (ux, sub64 configTOTAL_HEAP_SIZE (sub64 ux (ucHeap s)))
             else (uxAddress, configTOTAL_HEAP_SIZE));
          pucAlignedHeap = uxAddress;
          bl = (blocks s)(xStart s \<mapsto> \<lparr>pxNextFreeBlock = pucAlignedHeap, xBlockSize = 0\<rparr>);
          uxAddress = sub64 (add64 pucAlignedHeap xTotalHeapSize) xHeapStructSize AND not64 portBYTE_ALIGNMENT_MASK;
          bl = bl(uxAddress \<mapsto> \<lparr>pxNextFreeBlock = NULL, xBlockSize = 0\<rparr>);
          sz = sub64 uxAddress pucAlignedHeap;
          bl = bl(pucAlignedHeap \<mapsto> \<lparr>pxNextFreeBlock = uxAddress, xBlockSize = sz\<rparr>)
      in s\<lparr>blocks := bl, pxEnd := uxAddress, xMinimumEverFreeBytesRemaining := sz,
           xFreeBytesRemaining := sz, xBlockAllocatedBit := push_bit (8 * 8 - 1) 1\<rparr>)"

text \<open>\<open>for (pxIterator = &xStart; pxIterator->pxNextFreeBlock < pxBlockToInsert; ...)\<close>\<close>

partial_function (option) insertLoop :: "(addr \<rightharpoonup> BlockLink_t) \<Rightarrow> addr \<Rightarrow> addr \<Rightarrow> addr option" where
  "insertLoop bl pxBlockToInsert pxIterator =
     do {
       b \<leftarrow> bl pxIterator;
       if pxNextFreeBlock b < pxBlockToInsert
       then insertLoop bl pxBlockToInsert (pxNextFreeBlock b)
       else Some pxIterator
     }"

definition prvInsertBlockIntoFreeList :: "addr \<Rightarrow> mm_state \<Rightarrow> mm_state option" where
  "prvInsertBlockIntoFreeList pxBlockToInsert s =
     do {
       pxIterator \<leftarrow> insertLoop (blocks s) pxBlockToInsert (xStart s);
       it \<leftarrow> blocks s pxIterator;
       b \<leftarrow> blocks s pxBlockToInsert;
       let (bl, ins) =
         (if add64 pxIterator (xBlockSize it) = pxBlockToInsert
          then ((blocks s)(pxIterator \<mapsto> it\<lparr>xBlockSize := add64 (xBlockSize it) (xBlockSize b)\<rparr>), pxIterator)
          else (blocks s, pxBlockToInsert));
       it \<leftarrow> bl pxIterator;
       b \<leftarrow> bl ins;
       bl \<leftarrow>
         (if add64 ins (xBlockSize b) = pxNextFreeBlock it
          then if pxNextFreeBlock it \<noteq> pxEnd s
               then do {
                 nx \<leftarrow> bl (pxNextFreeBlock it);
                 Some (bl(ins \<mapsto> \<lparr>pxNextFreeBlock = pxNextFreeBlock nx,
                                   xBlockSize = add64 (xBlockSize b) (xBlockSize nx)\<rparr>))
               }
               else Some (bl(ins \<mapsto> b\<lparr>pxNextFreeBlock := pxEnd s\<rparr>))
          else Some (bl(ins \<mapsto> b\<lparr>pxNextFreeBlock := pxNextFreeBlock it\<rparr>)));
       bl \<leftarrow>
         (if pxIterator \<noteq> ins
          then do { it \<leftarrow> bl pxIterator; Some (bl(pxIterator \<mapsto> it\<lparr>pxNextFreeBlock := ins\<rparr>)) }
          else Some bl);
       Some (s\<lparr>blocks := bl\<rparr>)
     }"

text \<open>\<open>while ((pxBlock->xBlockSize < xWantedSize) && (pxBlock->pxNextFreeBlock != NULL))\<close>\<close>

partial_function (option) mallocLoop :: "(addr \<rightharpoonup> BlockLink_t) \<Rightarrow> nat \<Rightarrow> addr \<Rightarrow> addr \<Rightarrow> (addr \<times> addr) option" where
  "mallocLoop bl xWantedSize pxPreviousBlock pxBlock =
     do {
       b \<leftarrow> bl pxBlock;
       if xBlockSize b < xWantedSize \<and> pxNextFreeBlock b \<noteq> NULL
       then mallocLoop bl xWantedSize pxBlock (pxNextFreeBlock b)
       else Some (pxPreviousBlock, pxBlock)
     }"

text \<open>
  The bytes of an allocated block belong to the caller, who may write any of them: headers
  left behind inside the block by earlier merges are no longer there.
\<close>

definition forget :: "addr \<Rightarrow> nat \<Rightarrow> (addr \<rightharpoonup> BlockLink_t) \<Rightarrow> (addr \<rightharpoonup> BlockLink_t)" where
  "forget a n bl = (\<lambda>x. if a < x \<and> x < a + n then None else bl x)"

text \<open>The size a request is rounded to: the header is added, then the next multiple of 8.\<close>

definition adjustWantedSize :: "nat \<Rightarrow> nat" where
  "adjustWantedSize xWantedSize =
     (if xWantedSize > 0
      then let w = add64 xWantedSize xHeapStructSize
           in if w AND portBYTE_ALIGNMENT_MASK \<noteq> 0
              then add64 w (sub64 8 (w AND portBYTE_ALIGNMENT_MASK)) else w
      else xWantedSize)"

definition pvPortMalloc :: "nat \<Rightarrow> mm_state \<Rightarrow> (addr \<times> mm_state) option" where
  "pvPortMalloc xWantedSize s =
    (let s = (if pxEnd s = NULL then prvHeapInit s else s)
     in if xWantedSize AND xBlockAllocatedBit s = 0
        then let w = adjustWantedSize xWantedSize
          in if w > 0 \<and> w \<le> xFreeBytesRemaining s
             then do {
               st \<leftarrow> blocks s (xStart s);
               (pxPreviousBlock, pxBlock) \<leftarrow> mallocLoop (blocks s) w (xStart s) (pxNextFreeBlock st);
               if pxBlock \<noteq> pxEnd s
               then do {
                 prev \<leftarrow> blocks s pxPreviousBlock;
                 let pvReturn = add64 (pxNextFreeBlock prev) xHeapStructSize;
                 b \<leftarrow> blocks s pxBlock;
                 let s = s\<lparr>blocks := (blocks s)(pxPreviousBlock \<mapsto> prev\<lparr>pxNextFreeBlock := pxNextFreeBlock b\<rparr>)\<rparr>;
                 s \<leftarrow>
                   (if sub64 (xBlockSize b) w > heapMINIMUM_BLOCK_SIZE
                    then let pxNewBlockLink = add64 pxBlock w
                      in prvInsertBlockIntoFreeList pxNewBlockLink
                        (s\<lparr>blocks := (blocks s)
                             (pxNewBlockLink \<mapsto> \<lparr>pxNextFreeBlock = NULL, xBlockSize = sub64 (xBlockSize b) w\<rparr>,
                              pxBlock \<mapsto> b\<lparr>xBlockSize := w\<rparr>)\<rparr>)
                    else Some s);
                 b \<leftarrow> blocks s pxBlock;
                 let fr = sub64 (xFreeBytesRemaining s) (xBlockSize b);
                 Some (pvReturn,
                   s\<lparr>blocks := forget pxBlock (xBlockSize b)
                       ((blocks s)(pxBlock \<mapsto> \<lparr>pxNextFreeBlock = NULL,
                                               xBlockSize = xBlockSize b OR xBlockAllocatedBit s\<rparr>)),
                     xFreeBytesRemaining := fr,
                     xMinimumEverFreeBytesRemaining := min fr (xMinimumEverFreeBytesRemaining s),
                     xNumberOfSuccessfulAllocations := add64 (xNumberOfSuccessfulAllocations s) 1\<rparr>)
               }
               else Some (NULL, s)
             }
             else Some (NULL, s)
        else Some (NULL, s))"

definition vPortFree :: "addr \<Rightarrow> mm_state \<Rightarrow> mm_state option" where
  "vPortFree pv s =
     (if pv \<noteq> NULL
      then do {
        let pxLink = sub64 pv xHeapStructSize;
        b \<leftarrow> blocks s pxLink;
        if xBlockSize b AND xBlockAllocatedBit s \<noteq> 0 \<and> pxNextFreeBlock b = NULL
        then do {
          let sz = xBlockSize b AND not64 (xBlockAllocatedBit s);
          s \<leftarrow> prvInsertBlockIntoFreeList pxLink
             (s\<lparr>blocks := (blocks s)(pxLink \<mapsto> b\<lparr>xBlockSize := sz\<rparr>),
                xFreeBytesRemaining := add64 (xFreeBytesRemaining s) sz\<rparr>);
          Some (s\<lparr>xNumberOfSuccessfulFrees := add64 (xNumberOfSuccessfulFrees s) 1\<rparr>)
        }
        else Some s
      }
      else Some s)"

definition xPortGetFreeHeapSize :: "mm_state \<Rightarrow> nat" where
  "xPortGetFreeHeapSize s = xFreeBytesRemaining s"

definition xPortGetMinimumEverFreeHeapSize :: "mm_state \<Rightarrow> nat" where
  "xPortGetMinimumEverFreeHeapSize s = xMinimumEverFreeBytesRemaining s"

text \<open>The \<open>do { ... } while (pxBlock != pxEnd)\<close> loop of \<open>vPortGetHeapStats\<close>.\<close>

partial_function (option) statsLoop ::
    "(addr \<rightharpoonup> BlockLink_t) \<Rightarrow> addr \<Rightarrow> addr \<Rightarrow> nat \<Rightarrow> nat \<Rightarrow> nat \<Rightarrow> (nat \<times> nat \<times> nat) option" where
  "statsLoop bl pend pxBlock xBlocks xMaxSize xMinSize =
     do {
       b \<leftarrow> bl pxBlock;
       let xBlocks = add64 xBlocks 1;
       let xMaxSize = (if xBlockSize b > xMaxSize then xBlockSize b else xMaxSize);
       let xMinSize = (if xBlockSize b < xMinSize then xBlockSize b else xMinSize);
       if pxNextFreeBlock b \<noteq> pend
       then statsLoop bl pend (pxNextFreeBlock b) xBlocks xMaxSize xMinSize
       else Some (xBlocks, xMaxSize, xMinSize)
     }"

definition vPortGetHeapStats :: "mm_state \<Rightarrow> HeapStats_t option" where
  "vPortGetHeapStats s =
     do {
       st \<leftarrow> blocks s (xStart s);
       (xBlocks, xMaxSize, xMinSize) \<leftarrow>
         (if pxNextFreeBlock st \<noteq> NULL
          then statsLoop (blocks s) (pxEnd s) (pxNextFreeBlock st) 0 0 configTOTAL_HEAP_SIZE
          else Some (0, 0, configTOTAL_HEAP_SIZE));
       Some \<lparr>xAvailableHeapSpaceInBytes = xFreeBytesRemaining s,
             xSizeOfLargestFreeBlockInBytes = xMaxSize,
             xSizeOfSmallestFreeBlockInBytes = xMinSize,
             xNumberOfFreeBlocks = xBlocks,
             xMinimumEverFree = xMinimumEverFreeBytesRemaining s,
             xSuccessfulAllocations = xNumberOfSuccessfulAllocations s,
             xSuccessfulFrees = xNumberOfSuccessfulFrees s\<rparr>
     }"

end
