(* ===== verification/MemFRT4_Heap.thy ===== *)
theory MemFRT4_Heap
  imports MemFRT4
begin

text \<open>
  The heap of the default memory manager as an abstract layout: free lists as lists of
  (address, size) pairs, the coalescing insertion \<open>ins_free\<close> that
  \<open>prvInsertBlockIntoFreeList\<close> implements, the layout of free and allocated blocks that tile
  the heap, and the invariant \<open>heap_inv\<close> that ties a layout to the headers in memory.
\<close>

unbundle bit_operations_syntax

lemma add64_id [simp]: "a + b < 18446744073709551616 \<Longrightarrow> add64 a b = a + b"
  by (simp add: add64_def)

lemma sub64_id [simp]: "b \<le> a \<Longrightarrow> a < 18446744073709551616 \<Longrightarrow> sub64 a b = a - b"
  by (simp add: sub64_def mod_if)

lemma xHeapStructSize_16 [simp]: "xHeapStructSize = 16"
  by (simp add: xHeapStructSize_def not64_def portBYTE_ALIGNMENT_MASK_def)

lemma heapMINIMUM_BLOCK_SIZE_32 [simp]: "heapMINIMUM_BLOCK_SIZE = 32"
  by (simp add: heapMINIMUM_BLOCK_SIZE_def)

lemma and_mask7: "x AND portBYTE_ALIGNMENT_MASK = x mod 8"
  using take_bit_eq_mask [of 3 x] by (simp add: portBYTE_ALIGNMENT_MASK_def mask_eq_exp_minus_1 take_bit_eq_mod)

lemma and_not7:
  assumes "x < 18446744073709551616"
  shows "x AND not64 portBYTE_ALIGNMENT_MASK = x - x mod 8"
proof -
  have "not64 portBYTE_ALIGNMENT_MASK = push_bit 3 (mask 61)"
    by (simp add: not64_def portBYTE_ALIGNMENT_MASK_def push_bit_eq_mult mask_eq_exp_minus_1)
  moreover have "x AND push_bit 3 (mask 61) = push_bit 3 (take_bit 61 (drop_bit 3 x))"
    by (rule bit_eqI) (auto simp: bit_simps)
  moreover have "take_bit 61 (drop_bit 3 x) = x div 8"
    using assms by (simp add: drop_bit_eq_div take_bit_nat_eq_self)
  ultimately show ?thesis
    by (simp add: push_bit_eq_mult minus_mod_eq_mult_div mult.commute)
qed

lemma bit63_free: "x < 9223372036854775808 \<Longrightarrow> x AND 9223372036854775808 = (0::nat)"
  using and_exp_eq_0_iff_not_bit [of x 63] by (simp add: bit_iff_odd)

lemma bit63_used: "(x OR 9223372036854775808) AND 9223372036854775808 \<noteq> (0::nat)"
proof -
  have "(x OR 2 ^ 63) AND 2 ^ 63 \<noteq> 0"
    using and_exp_eq_0_iff_not_bit [of "x OR 2 ^ 63" 63] by (simp add: bit_or_iff bit_exp_iff del: power_numeral)
  then show ?thesis by simp
qed

lemma bit63_clear:
  assumes "x < 9223372036854775808"
  shows "(x OR 9223372036854775808) AND not64 9223372036854775808 = x"
proof -
  have "(x OR 9223372036854775808) AND not64 9223372036854775808 = take_bit 63 (x OR 2 ^ 63)"
    by (simp add: take_bit_eq_mask mask_eq_exp_minus_1 not64_def)
  also have "\<dots> = take_bit 63 x"
    by (rule bit_eqI) (auto simp: bit_take_bit_iff bit_or_iff bit_exp_iff simp del: power_numeral)
  also have "\<dots> = x"
    using assms by (simp add: take_bit_nat_eq_self)
  finally show ?thesis .
qed

section \<open>Free lists\<close>

text \<open>\<open>chain bl p L q\<close>: the headers from \<open>p\<close> on are the blocks \<open>L\<close> (address and size), linked, up to \<open>q\<close>.\<close>

fun chain :: "(addr \<rightharpoonup> BlockLink_t) \<Rightarrow> addr \<Rightarrow> (addr \<times> nat) list \<Rightarrow> addr \<Rightarrow> bool" where
  "chain bl p [] q \<longleftrightarrow> p = q"
| "chain bl p ((a, n) # L) q \<longleftrightarrow>
     p = a \<and> (\<exists>r. bl a = Some \<lparr>pxNextFreeBlock = r, xBlockSize = n\<rparr> \<and> chain bl r L q)"

text \<open>Blocks in address order, with a gap between any two: nothing is left to merge.\<close>

fun gapped :: "(addr \<times> nat) list \<Rightarrow> bool" where
  "gapped [] \<longleftrightarrow> True"
| "gapped ((a, n) # L) \<longleftrightarrow> (case L of [] \<Rightarrow> True | (b, m) # _ \<Rightarrow> a + n < b) \<and> gapped L"

text \<open>The insertion with coalescing that \<open>prvInsertBlockIntoFreeList\<close> implements.\<close>

fun join_right :: "addr \<Rightarrow> nat \<Rightarrow> (addr \<times> nat) list \<Rightarrow> (addr \<times> nat) list" where
  "join_right a n [] = [(a, n)]"
| "join_right a n ((b, m) # L) = (if a + n = b then (a, n + m) # L else (a, n) # (b, m) # L)"

fun ins_free :: "addr \<Rightarrow> nat \<Rightarrow> (addr \<times> nat) list \<Rightarrow> (addr \<times> nat) list" where
  "ins_free a n [] = [(a, n)]"
| "ins_free a n ((b, m) # L) =
     (if L \<noteq> [] \<and> fst (hd L) < a then (b, m) # ins_free a n L
      else if b + m = a then join_right b (m + n) L
      else (b, m) # join_right a n L)"

definition addrs :: "(addr \<times> nat) list \<Rightarrow> addr set" where
  "addrs L = fst ` set L"

lemma addrs_simps [simp]: "addrs [] = {}" "addrs ((a, n) # L) = insert a (addrs L)"
  "addrs (L @ M) = addrs L \<union> addrs M"
  by (auto simp: addrs_def)

lemma addrs_tl: "b \<in> addrs (tl L) \<Longrightarrow> b \<in> addrs L"
  by (cases L) (auto simp: addrs_def)

lemma chain_append: "chain bl p (L @ M) q \<longleftrightarrow> (\<exists>r. chain bl p L r \<and> chain bl r M q)"
proof (induction L arbitrary: p)
  case (Cons x L)
  then show ?case by (cases x) (simp, blast)
qed simp

lemma chain_cong: "(\<And>a. a \<in> addrs L \<Longrightarrow> bl a = bl' a) \<Longrightarrow> chain bl p L q = chain bl' p L q"
  by (induction L arbitrary: p) auto

lemma chain_upd [simp]: "a \<notin> addrs L \<Longrightarrow> chain (bl(a := v)) p L q = chain bl p L q"
  by (rule chain_cong) auto

lemma gapped_append:
  "gapped (L @ M) \<longleftrightarrow> gapped L \<and> gapped M \<and>
     (L \<noteq> [] \<longrightarrow> M \<noteq> [] \<longrightarrow> fst (last L) + snd (last L) < fst (hd M))"
proof (induction L)
  case (Cons x L)
  then show ?case by (cases x; cases L; cases M) (auto split: prod.splits)
qed simp

lemma gapped_less: "gapped ((a, n) # L) \<Longrightarrow> (b, m) \<in> set L \<Longrightarrow> a + n < b"
proof (induction L arbitrary: a n)
  case (Cons x L)
  then show ?case by (cases x) fastforce
qed simp

lemma gapped_addrs: "gapped ((a, n) # L) \<Longrightarrow> b \<in> addrs L \<Longrightarrow> a + n < b"
  unfolding addrs_def using gapped_less by fastforce

lemma gapped_before: "gapped (L @ [(b, m)]) \<Longrightarrow> (a, n) \<in> set L \<Longrightarrow> a + n < b"
proof (induction L)
  case (Cons x L)
  show ?case
  proof (cases "x = (a, n)")
    case True
    with Cons.prems(1) show ?thesis using gapped_less [of a n "L @ [(b, m)]" b m] by simp
  next
    case False
    with Cons show ?thesis by (cases x) auto
  qed
qed simp

text \<open>The insertion point: the last block before \<open>a\<close>.\<close>

lemma ins_free_at:
  assumes "\<And>b. b \<in> addrs (tl (pre @ [(it, m)])) \<Longrightarrow> b < a"
    and "cs \<noteq> [] \<Longrightarrow> a \<le> fst (hd cs)"
  shows "ins_free a n (pre @ (it, m) # cs) =
    pre @ (if it + m = a then join_right it (m + n) cs else (it, m) # join_right a n cs)"
  using assms
proof (induction pre)
  case Nil
  then show ?case by (auto simp: neq_Nil_conv)
next
  case (Cons x pre)
  then show ?case by (cases x; cases pre) auto
qed

lemma insertLoop_at:
  assumes "chain bl p (pre @ (it, m) # cs) e"
    and "\<And>b. b \<in> addrs (tl (pre @ [(it, m)])) \<Longrightarrow> b < a"
    and "a \<le> (if cs = [] then e else fst (hd cs))"
  shows "insertLoop bl a p = Some it"
  using assms
proof (induction pre arbitrary: p)
  case Nil
  then show ?case by (subst insertLoop.simps) (auto simp: neq_Nil_conv split: if_splits)
next
  case (Cons x pre)
  obtain y k where x: "x = (y, k)" by (cases x)
  with Cons.prems(1) obtain r where r: "bl y = Some \<lparr>pxNextFreeBlock = r, xBlockSize = k\<rparr>" "p = y"
    "chain bl r (pre @ (it, m) # cs) e" by auto
  have "r < a" using r(3) Cons.prems(2) x by (cases pre) auto
  moreover have "insertLoop bl a r = Some it"
    using Cons.IH [OF r(3)] Cons.prems(2,3) x by (cases pre) auto
  ultimately show ?case using r x by (subst insertLoop.simps) auto
qed

text \<open>
  One insertion: the list with the new block merged in, and only the headers of the block
  before it and of the block itself are written.
\<close>

lemma join_right_eq: "join_right a n cs =
   (if cs \<noteq> [] \<and> a + n = fst (hd cs) then (a, n + snd (hd cs)) # tl cs else (a, n) # cs)"
  by (cases cs) auto


definition next_of :: "(addr \<times> nat) list \<Rightarrow> addr \<Rightarrow> addr" where
  "next_of cs e = (if cs = [] then e else fst (hd cs))"

lemma chain_start: "chain bl r cs e \<Longrightarrow> r = next_of cs e"
  by (cases cs) (auto simp: next_of_def)

lemma prvInsert_chain:
  assumes ch: "chain (blocks s) (xStart s) (pre @ (it, m) # cs) (pxEnd s)"
    and hdr: "blocks s a = Some \<lparr>pxNextFreeBlock = z, xBlockSize = n\<rparr>"
    and gp: "gapped (pre @ (it, m) # cs)"
    and before: "it < a" "it + m \<le> a"
    and after: "\<And>b k. (b, k) \<in> set cs \<Longrightarrow> a < b \<and> b < pxEnd s \<and> b + k \<le> pxEnd s"
    and e: "0 < n" "a + n \<le> pxEnd s" "pxEnd s < 9223372036854775808"
  shows "\<exists>bl'. prvInsertBlockIntoFreeList a s = Some (s\<lparr>blocks := bl'\<rparr>) \<and>
    chain bl' (xStart s) (ins_free a n (pre @ (it, m) # cs)) (pxEnd s) \<and>
    (\<forall>x. x \<noteq> it \<longrightarrow> x \<noteq> a \<longrightarrow> bl' x = blocks s x) \<and>
    (\<forall>x \<in> {it, a}. \<exists>z' k. bl' x = Some \<lparr>pxNextFreeBlock = z', xBlockSize = k\<rparr> \<and> k < 9223372036854775808)"
proof -
  have gp': "gapped (pre @ [(it, m)])" using gp by (simp add: gapped_append)
  have pre: "b < it" if "b \<in> addrs pre" for b
    using that gapped_before [OF gp'] by (fastforce simp: addrs_def)
  have cs: "a < b" "b < pxEnd s" if "b \<in> addrs cs" for b
    using that after by (auto simp: addrs_def)
  let ?c = "next_of cs (pxEnd s)"
  obtain r where r: "chain (blocks s) (xStart s) pre it"
    "blocks s it = Some \<lparr>pxNextFreeBlock = ?c, xBlockSize = m\<rparr>" "chain (blocks s) ?c cs (pxEnd s)"
    using ch by (auto simp: chain_append dest: chain_start)
  have "a \<le> ?c" using after [of "fst (hd cs)" "snd (hd cs)"] e by (cases cs) (auto simp: next_of_def)
  have tl: "b < a" if "b \<in> addrs (tl (pre @ [(it, m)]))" for b
    using addrs_tl [OF that] pre before(1) by force
  with \<open>a \<le> ?c\<close> have loop: "insertLoop (blocks s) a (xStart s) = Some it"
    by (intro insertLoop_at [OF ch]) (simp_all add: next_of_def)
  have ins: "ins_free a n (pre @ (it, m) # cs) =
      pre @ (if it + m = a then join_right it (m + n) cs else (it, m) # join_right a n cs)"
    using tl \<open>a \<le> ?c\<close> by (intro ins_free_at) (simp_all add: next_of_def)
  have ne: "it \<noteq> a" "a \<notin> addrs pre" "it \<notin> addrs pre" "a \<notin> addrs cs" "it \<notin> addrs cs"
    using pre cs before(1) by force+
  have lim: "it + m < 18446744073709551616" "m + n < 18446744073709551616" "a + n < 18446744073709551616"
    using before e by linarith+
  show ?thesis
  proof (cases "cs \<noteq> [] \<and> a + n = fst (hd cs)")
    case True
    then obtain k cs' where c: "cs = (a + n, k) # cs'" by (cases cs) auto
    then have k: "a + n + k \<le> pxEnd s" "a + n < pxEnd s" using after [of "a + n" k] by auto
    let ?d = "next_of cs' (pxEnd s)"
    have c': "blocks s (a + n) = Some \<lparr>pxNextFreeBlock = ?d, xBlockSize = k\<rparr>" "chain (blocks s) ?d cs' (pxEnd s)"
      using r(3) c by (auto dest: chain_start)
    show ?thesis
    proof (cases "it + m = a")
      case left: True
      let ?bl = "(blocks s)(it \<mapsto> \<lparr>pxNextFreeBlock = ?d, xBlockSize = m + n + k\<rparr>)"
      have "prvInsertBlockIntoFreeList a s = Some (s\<lparr>blocks := ?bl\<rparr>)"
        using r(2) hdr c' left lim k ne c e
        by (simp add: prvInsertBlockIntoFreeList_def loop next_of_def)
      moreover have "chain ?bl (xStart s) (ins_free a n (pre @ (it, m) # cs)) (pxEnd s)"
        unfolding ins using r(1) c' left ne c by (simp add: chain_append add.assoc)
      ultimately show ?thesis
        using hdr ne e before lim left k by (intro exI [of _ ?bl]) auto
    next
      case left: False
      let ?bl = "(blocks s)(a \<mapsto> \<lparr>pxNextFreeBlock = ?d, xBlockSize = n + k\<rparr>, it \<mapsto> \<lparr>pxNextFreeBlock = a, xBlockSize = m\<rparr>)"
      have "prvInsertBlockIntoFreeList a s = Some (s\<lparr>blocks := ?bl\<rparr>)"
        using r(2) hdr c' left lim k ne c e
        by (simp add: prvInsertBlockIntoFreeList_def loop next_of_def)
      moreover have "chain ?bl (xStart s) (ins_free a n (pre @ (it, m) # cs)) (pxEnd s)"
        unfolding ins using r(1) c' left ne c by (simp add: chain_append add.assoc)
      ultimately show ?thesis
        using hdr ne e k before by (intro exI [of _ ?bl]) auto
    qed
  next
    case right: False
    then have j: "join_right x l cs = (x, l) # cs" if "x + l = a + n" for x l
      using that by (auto simp: join_right_eq)
    have c: "add64 a n = ?c \<Longrightarrow> ?c = pxEnd s"
      using right lim by (auto simp: next_of_def split: if_splits)
    show ?thesis
    proof (cases "it + m = a")
      case left: True
      let ?bl = "(blocks s)(it \<mapsto> \<lparr>pxNextFreeBlock = ?c, xBlockSize = m + n\<rparr>)"
      have "prvInsertBlockIntoFreeList a s = Some (s\<lparr>blocks := ?bl\<rparr>)"
        using r(2) hdr left lim ne e c
        by (auto simp: prvInsertBlockIntoFreeList_def loop)
      moreover have "chain ?bl (xStart s) (ins_free a n (pre @ (it, m) # cs)) (pxEnd s)"
        unfolding ins using r left ne j [of it "m + n"] by (simp add: chain_append)
      ultimately show ?thesis
        using hdr ne e before lim left by (intro exI [of _ ?bl]) auto
    next
      case left: False
      let ?bl = "(blocks s)(a \<mapsto> \<lparr>pxNextFreeBlock = ?c, xBlockSize = n\<rparr>, it \<mapsto> \<lparr>pxNextFreeBlock = a, xBlockSize = m\<rparr>)"
      have "prvInsertBlockIntoFreeList a s = Some (s\<lparr>blocks := ?bl\<rparr>)"
        using r(2) hdr left lim ne e c
        by (auto simp: prvInsertBlockIntoFreeList_def loop)
      moreover have "chain ?bl (xStart s) (ins_free a n (pre @ (it, m) # cs)) (pxEnd s)"
        unfolding ins using r left ne j [of a n] by (simp add: chain_append)
      ultimately show ?thesis
        using hdr ne e before lim left by (intro exI [of _ ?bl]) auto
    qed
  qed
qed


section \<open>Layouts: the abstract heap\<close>

text \<open>
  The heap from \<open>hs\<close> to \<open>e\<close>: the free blocks \<open>fl\<close> in address order and the allocated
  blocks \<open>al\<close> (header address to size). They are aligned, pairwise disjoint, the free list is
  fully coalesced, and together they account for every byte.
\<close>

definition blk :: "addr \<Rightarrow> addr \<Rightarrow> addr \<Rightarrow> nat \<Rightarrow> bool" where
  "blk hs e a n \<longleftrightarrow> hs \<le> a \<and> a + n \<le> e \<and> 16 < n \<and> 8 dvd a \<and> 8 dvd n"

definition layout :: "addr \<Rightarrow> addr \<Rightarrow> addr \<Rightarrow> (addr \<times> nat) list \<Rightarrow> (addr \<rightharpoonup> nat) \<Rightarrow> bool" where
  "layout xs hs e fl al \<longleftrightarrow>
     xs < hs \<and> gapped ((xs, 0) # fl) \<and>
     (\<forall>(a, n) \<in> set fl. blk hs e a n) \<and>
     (\<forall>a n. al a = Some n \<longrightarrow> blk hs e a n) \<and>
     (\<forall>(a, n) \<in> set fl. \<forall>b m. al b = Some m \<longrightarrow> a + n \<le> b \<or> b + m \<le> a) \<and>
     (\<forall>a n b m. al a = Some n \<longrightarrow> al b = Some m \<longrightarrow> a \<noteq> b \<longrightarrow> a + n \<le> b \<or> b + m \<le> a) \<and>
     finite (dom al) \<and>
     sum_list (map snd fl) + (\<Sum>a\<in>dom al. the (al a)) = e - hs"

lemma layoutI:
  assumes "xs < hs" "gapped ((xs, 0) # fl)"
    and "\<And>a n. (a, n) \<in> set fl \<Longrightarrow> blk hs e a n"
    and "\<And>a n. al a = Some n \<Longrightarrow> blk hs e a n"
    and "\<And>a n b m. (a, n) \<in> set fl \<Longrightarrow> al b = Some m \<Longrightarrow> a + n \<le> b \<or> b + m \<le> a"
    and "\<And>a n b m. al a = Some n \<Longrightarrow> al b = Some m \<Longrightarrow> a \<noteq> b \<Longrightarrow> a + n \<le> b \<or> b + m \<le> a"
    and "finite (dom al)"
    and "sum_list (map snd fl) + (\<Sum>a\<in>dom al. the (al a)) = e - hs"
  shows "layout xs hs e fl al"
  unfolding layout_def using assms by (simp add: case_prod_beta)

lemma layoutD:
  assumes "layout xs hs e fl al"
  shows layout_start: "xs < hs" and layout_gapped: "gapped ((xs, 0) # fl)"
    and layout_free_blk: "\<And>a n. (a, n) \<in> set fl \<Longrightarrow> blk hs e a n"
    and layout_al_blk: "\<And>a n. al a = Some n \<Longrightarrow> blk hs e a n"
    and layout_free_al: "\<And>a n b m. (a, n) \<in> set fl \<Longrightarrow> al b = Some m \<Longrightarrow> a + n \<le> b \<or> b + m \<le> a"
    and layout_al_al: "\<And>a n b m. al a = Some n \<Longrightarrow> al b = Some m \<Longrightarrow> a \<noteq> b \<Longrightarrow> a + n \<le> b \<or> b + m \<le> a"
    and layout_finite: "finite (dom al)"
    and layout_sum: "sum_list (map snd fl) + (\<Sum>a\<in>dom al. the (al a)) = e - hs"
  using assms unfolding layout_def by (blast, blast, fast, blast, fast, blast, blast, blast)

lemma sum_dom_upd:
  assumes "finite (dom al)" "al a = None"
  shows "(\<Sum>x\<in>dom (al(a \<mapsto> n)). the ((al(a \<mapsto> n)) x)) = n + (\<Sum>x\<in>dom al. the (al x))"
proof -
  have "a \<notin> dom al" using assms(2) by auto
  then have "(\<Sum>x\<in>dom al. the ((al(a \<mapsto> n)) x)) = (\<Sum>x\<in>dom al. the (al x))"
    by (intro sum.cong) auto
  with assms(1) \<open>a \<notin> dom al\<close> show ?thesis by simp
qed

lemma sum_dom_del:
  assumes "finite (dom al)" "al a = Some n"
  shows "n + (\<Sum>x\<in>dom (al(a := None)). the ((al(a := None)) x)) = (\<Sum>x\<in>dom al. the (al x))"
proof -
  have "al = (al(a := None))(a \<mapsto> n)" using assms(2) by auto
  then show ?thesis
    using sum_dom_upd [of "al(a := None)" a n] assms(1) by (metis finite_Diff dom_fun_upd fun_upd_same)
qed

lemma layout_free_unalloc:
  assumes "layout xs hs e fl al" "(a, n) \<in> set fl" "a \<le> x" "x < a + n"
  shows "al x = None"
proof (rule ccontr)
  assume "al x \<noteq> None"
  then obtain m where m: "al x = Some m" by auto
  then show False
    using layout_free_al [OF assms(1,2) m] layout_al_blk [OF assms(1) m] assms(3,4) by (auto simp: blk_def)
qed

text \<open>The neighbours of a free block.\<close>

lemma gapped_mid:
  assumes "gapped (P @ (a, n) # cs)"
  shows gapped_mid_before: "(b, m) \<in> set P \<Longrightarrow> b + m < a"
    and gapped_mid_after: "(b, m) \<in> set cs \<Longrightarrow> a + n < b"
    and gapped_mid_drop: "gapped (P @ cs)"
proof -
  have g1: "gapped (P @ [(a, n)])" and g2: "gapped ((a, n) # cs)"
    using assms unfolding gapped_append by simp_all
  show lt: "b + m < a" if "(b, m) \<in> set P" for b m
    using gapped_before [OF g1 that] .
  show gt: "a + n < b" if "(b, m) \<in> set cs" for b m
    using gapped_less [OF g2 that] .
  show "gapped (P @ cs)"
  proof (cases "P = [] \<or> cs = []")
    case False
    then have "fst (last P) + snd (last P) < a" "a + n < fst (hd cs)"
      using lt [of "fst (last P)" "snd (last P)"] gt [of "fst (hd cs)" "snd (hd cs)"] by simp_all
    with assms show ?thesis unfolding gapped_append by simp
  qed (use assms in \<open>auto simp: gapped_append\<close>)
qed

text \<open>Taking a whole block, and taking the front of one.\<close>

lemma layout_take:
  assumes l: "layout xs hs e (pre @ (a, n) # cs) al"
  shows "layout xs hs e (pre @ cs) (al(a \<mapsto> n))"
proof (rule layoutI)
  have "16 < n" using layout_free_blk [OF l, of a n] by (simp add: blk_def)
  then have al: "al a = None" by (intro layout_free_unalloc [OF l, of a n]) auto
  have gp: "gapped (((xs, 0) # pre) @ (a, n) # cs)" using layout_gapped [OF l] by simp
  have apart: "b + m \<le> a \<or> a + n \<le> b" if "(b, m) \<in> set (pre @ cs)" for b m
    using that gapped_mid_before [OF gp, of b m] gapped_mid_after [OF gp, of b m] by auto
  show "xs < hs" using layout_start [OF l] .
  show "gapped ((xs, 0) # pre @ cs)" using gapped_mid_drop [OF gp] by simp
  show "blk hs e b m" if "(b, m) \<in> set (pre @ cs)" for b m
    using layout_free_blk [OF l, of b m] that by auto
  show "blk hs e b m" if "(al(a \<mapsto> n)) b = Some m" for b m
    using that layout_al_blk [OF l, of b m] layout_free_blk [OF l, of a n] by (auto split: if_splits)
  show "b + m \<le> c \<or> c + k \<le> b" if "(b, m) \<in> set (pre @ cs)" "(al(a \<mapsto> n)) c = Some k" for b m c k
    using that apart [of b m] layout_free_al [OF l, of b m c k] by (auto split: if_splits)
  show "b + m \<le> c \<or> c + k \<le> b" if "(al(a \<mapsto> n)) b = Some m" "(al(a \<mapsto> n)) c = Some k" "b \<noteq> c" for b m c k
    using that layout_al_al [OF l, of b m c k] layout_free_al [OF l, of a n b m] layout_free_al [OF l, of a n c k]
    by (auto split: if_splits)
  show "finite (dom (al(a \<mapsto> n)))" using layout_finite [OF l] by simp
  show "sum_list (map snd (pre @ cs)) + (\<Sum>x\<in>dom (al(a \<mapsto> n)). the ((al(a \<mapsto> n)) x)) = e - hs"
    using layout_sum [OF l] sum_dom_upd [OF layout_finite [OF l] al, of n] by simp
qed

lemma layout_split:
  assumes l: "layout xs hs e (pre @ (a, n) # cs) al" and w: "8 dvd w" "16 < w" "16 + w < n"
  shows "layout xs hs e (pre @ (a + w, n - w) # cs) (al(a \<mapsto> w))"
proof (rule layoutI)
  have ok: "blk hs e a n" using layout_free_blk [OF l, of a n] by simp
  then have al: "al a = None" by (intro layout_free_unalloc [OF l, of a n]) (auto simp: blk_def)
  have gp: "gapped (((xs, 0) # pre) @ (a, n) # cs)" using layout_gapped [OF l] by simp
  have new: "blk hs e (a + w) (n - w)" "blk hs e a w" using ok w by (auto simp: blk_def)
  show "xs < hs" using layout_start [OF l] .
  show "gapped ((xs, 0) # pre @ (a + w, n - w) # cs)"
  proof -
    have "gapped ((a + w, n - w) # cs)"
      using gp w unfolding gapped_append by (auto split: list.splits)
    moreover have "gapped ((xs, 0) # pre)" "fst (last ((xs, 0) # pre)) + snd (last ((xs, 0) # pre)) < a"
      using gp unfolding gapped_append by simp_all
    ultimately have "gapped (((xs, 0) # pre) @ (a + w, n - w) # cs)"
      unfolding gapped_append by simp
    then show ?thesis by simp
  qed
  show "blk hs e b m" if "(b, m) \<in> set (pre @ (a + w, n - w) # cs)" for b m
    using layout_free_blk [OF l, of b m] that new by auto
  show "blk hs e b m" if "(al(a \<mapsto> w)) b = Some m" for b m
    using that layout_al_blk [OF l, of b m] new by (auto split: if_splits)
  show "b + m \<le> c \<or> c + k \<le> b" if "(b, m) \<in> set (pre @ (a + w, n - w) # cs)" "(al(a \<mapsto> w)) c = Some k" for b m c k
    using that w gapped_mid_before [OF gp, of b m] gapped_mid_after [OF gp, of b m]
      layout_free_al [OF l, of b m c k] layout_free_al [OF l, of a n c k]
    by (auto split: if_splits)
  show "b + m \<le> c \<or> c + k \<le> b" if "(al(a \<mapsto> w)) b = Some m" "(al(a \<mapsto> w)) c = Some k" "b \<noteq> c" for b m c k
    using that w layout_al_al [OF l, of b m c k] layout_free_al [OF l, of a n b m] layout_free_al [OF l, of a n c k]
    by (auto split: if_splits)
  show "finite (dom (al(a \<mapsto> w)))" using layout_finite [OF l] by simp
  show "sum_list (map snd (pre @ (a + w, n - w) # cs)) + (\<Sum>x\<in>dom (al(a \<mapsto> w)). the ((al(a \<mapsto> w)) x)) = e - hs"
    using layout_sum [OF l] sum_dom_upd [OF layout_finite [OF l] al, of w] w by simp
qed


text \<open>
  Giving a block back: it replaces the free blocks \<open>mid\<close> it is merged with by the one block
  \<open>(x, l)\<close>.
\<close>

lemma layout_merge:
  assumes l: "layout xs hs e (pre @ mid @ cs) al" and a: "al a = Some n"
    and gp: "gapped ((xs, 0) # pre @ (x, l) # cs)" and new: "blk hs e x l"
    and sum: "sum_list (map snd mid) + n = l"
    and apart: "\<And>b m. al b = Some m \<Longrightarrow> b \<noteq> a \<Longrightarrow> x + l \<le> b \<or> b + m \<le> x"
  shows "layout xs hs e (pre @ (x, l) # cs) (al(a := None))"
proof (rule layoutI)
  show "xs < hs" using layout_start [OF l] .
  show "gapped ((xs, 0) # pre @ (x, l) # cs)" by (rule gp)
  show "blk hs e b m" if "(b, m) \<in> set (pre @ (x, l) # cs)" for b m
    using layout_free_blk [OF l, of b m] that new by auto
  show "blk hs e b m" if "(al(a := None)) b = Some m" for b m
    using that layout_al_blk [OF l, of b m] by (auto split: if_splits)
  show "b + m \<le> c \<or> c + k \<le> b" if "(b, m) \<in> set (pre @ (x, l) # cs)" "(al(a := None)) c = Some k" for b m c k
    using that apart [of c k] layout_free_al [OF l, of b m c k] by (auto split: if_splits)
  show "b + m \<le> c \<or> c + k \<le> b" if "(al(a := None)) b = Some m" "(al(a := None)) c = Some k" "b \<noteq> c" for b m c k
    using that layout_al_al [OF l, of b m c k] by (auto split: if_splits)
  show "finite (dom (al(a := None)))" using layout_finite [OF l] by simp
  show "sum_list (map snd (pre @ (x, l) # cs)) + (\<Sum>x\<in>dom (al(a := None)). the ((al(a := None)) x)) = e - hs"
    using layout_sum [OF l] sum_dom_del [OF layout_finite [OF l] a] sum by simp
qed

lemma join_right_cases:
  assumes "gapped cs" and "cs \<noteq> [] \<Longrightarrow> x + l \<le> fst (hd cs)"
  obtains mid cs' k where "cs = mid @ cs'" "join_right x l cs = (x, l + k) # cs'" "gapped cs'"
    "sum_list (map snd mid) = k" "cs' \<noteq> [] \<longrightarrow> x + l + k < fst (hd cs')"
    "mid = [] \<and> k = 0 \<or> mid = [(x + l, k)]"
proof (cases "cs \<noteq> [] \<and> x + l = fst (hd cs)")
  case True
  then obtain k cs' where "cs = (x + l, k) # cs'" by (cases cs) auto
  then show ?thesis using assms(1) by (intro that [of "[(x + l, k)]" cs' k]) (auto split: list.splits)
next
  case False
  then show ?thesis using assms by (intro that [of "[]" cs 0]) (auto simp: join_right_eq)
qed

lemma split_point:
  assumes "gapped ((x, k) # L)" "x < a" "x + k \<le> a" "0 < n"
    and "\<And>b m. (b, m) \<in> set L \<Longrightarrow> b + m \<le> a \<or> a + n \<le> b" "\<And>b m. (b, m) \<in> set L \<Longrightarrow> 0 < m"
  obtains P q m cs where "(x, k) # L = P @ (q, m) # cs" "q < a" "q + m \<le> a"
    "\<And>b l. (b, l) \<in> set cs \<Longrightarrow> a + n \<le> b"
  using assms
proof (induction L arbitrary: x k thesis)
  case Nil
  show ?case by (rule Nil.prems(1) [of "[]" x k "[]"]) (use Nil.prems in auto)
next
  case (Cons y L)
  obtain b m where y: "y = (b, m)" by (cases y)
  have g: "gapped ((b, m) # L)" using Cons.prems(2) y by simp
  show ?case
  proof (cases "b < a")
    case True
    then have "b + m \<le> a" using Cons.prems(6) [of b m] y by simp
    then obtain P q l cs where P: "(b, m) # L = P @ (q, l) # cs" "q < a" "q + l \<le> a"
      "\<And>b l. (b, l) \<in> set cs \<Longrightarrow> a + n \<le> b"
      using Cons.IH [OF _ g True] Cons.prems by (metis list.set_intros(2))
    show ?thesis by (rule Cons.prems(1) [of "(x, k) # P" q l cs]) (use P y in simp_all)
  next
    case False
    then have "a + n \<le> b" using Cons.prems(6) [of b m] Cons.prems(7) [of b m] y by simp
    then have "a + n \<le> c" if "(c, l) \<in> set (y # L)" for c l
      using that gapped_less [OF g, of c l] y by auto
    then show ?thesis by (intro Cons.prems(1) [of "[]" x k "y # L"]) (use Cons.prems in auto)
  qed
qed

text \<open>The release of an allocated block, as \<open>ins_free\<close> computes it.\<close>

lemma layout_release:
  assumes l: "layout xs hs e fl al" and a: "al a = Some n"
  obtains P q m cs fl' where "(xs, 0) # fl = P @ (q, m) # cs" "q < a" "q + m \<le> a"
    "\<And>b k. (b, k) \<in> set cs \<Longrightarrow> a + n \<le> b"
    "ins_free a n ((xs, 0) # fl) = (xs, 0) # fl'" "layout xs hs e fl' (al(a := None))"
    "sum_list (map snd fl') = sum_list (map snd fl) + n"
proof -
  have ok: "blk hs e a n" using layout_al_blk [OF l a] .
  have "xs < a" using ok layout_start [OF l] by (auto simp: blk_def)
  moreover have "b + m \<le> a \<or> a + n \<le> b" if "(b, m) \<in> set fl" for b m
    using layout_free_al [OF l that a] by auto
  moreover have "0 < m" if "(b, m) \<in> set fl" for b m
    using layout_free_blk [OF l that] by (simp add: blk_def)
  ultimately obtain P q m cs where P: "(xs, 0) # fl = P @ (q, m) # cs" "q < a" "q + m \<le> a"
      "\<And>b k. (b, k) \<in> set cs \<Longrightarrow> a + n \<le> b"
    by (rule_tac split_point [OF layout_gapped [OF l], of a n]) (use ok in \<open>auto simp: blk_def\<close>)
  have gp: "gapped (P @ (q, m) # cs)" using layout_gapped [OF l] P(1) by simp
  have cs: "cs \<noteq> [] \<Longrightarrow> a + n \<le> fst (hd cs)" using P(4) [of "fst (hd cs)" "snd (hd cs)"] by simp
  have ins: "ins_free a n ((xs, 0) # fl) =
      P @ (if q + m = a then join_right q (m + n) cs else (q, m) # join_right a n cs)"
    unfolding P(1)
  proof (rule ins_free_at)
    show "b < a" if "b \<in> addrs (tl (P @ [(q, m)]))" for b
      using addrs_tl [OF that] gapped_mid_before [OF gp] P(2) by (fastforce simp: addrs_def)
    show "cs \<noteq> [] \<Longrightarrow> a \<le> fst (hd cs)" using cs by simp
  qed
  define A where "A = (if q + m = a then P else P @ [(q, m)])"
  define x where "x = (if q + m = a then q else a)"
  define k0 where "k0 = (if q + m = a then m else 0)"
  have adj: "x + k0 = a" by (simp add: x_def k0_def)
  have "A \<noteq> []" using P(1) \<open>xs < a\<close> by (auto simp: A_def)
  then have "\<exists>pre. A = (xs, 0) # pre" using P(1) by (cases P) (auto simp: A_def split: if_splits)
  then obtain pre where pre: "A = (xs, 0) # pre" by blast
  have fl: "fl = pre @ (if q + m = a then [(q, m)] else []) @ cs"
    using P(1) pre by (cases P) (auto simp: A_def split: if_splits)
  have gA: "gapped A" "fst (last A) + snd (last A) < x"
    using gp P(3) \<open>A \<noteq> []\<close> by (auto simp: A_def x_def gapped_append split: if_splits)
  have "gapped cs" using gp by (auto simp: gapped_append split: list.splits)
  moreover have "cs \<noteq> [] \<Longrightarrow> x + (k0 + n) \<le> fst (hd cs)" using cs adj by simp
  ultimately obtain mid cs' k where j: "cs = mid @ cs'" "join_right x (k0 + n) cs = (x, k0 + n + k) # cs'"
    "gapped cs'" "sum_list (map snd mid) = k" "cs' \<noteq> [] \<longrightarrow> x + (k0 + n) + k < fst (hd cs')"
    "mid = [] \<and> k = 0 \<or> mid = [(x + (k0 + n), k)]"
    by (rule join_right_cases) blast
  let ?mid = "(if q + m = a then [(q, m)] else []) @ mid"
  have l': "layout xs hs e (pre @ ?mid @ cs') al" using l fl j(1) by simp
  have "layout xs hs e (pre @ (x, k0 + n + k) # cs') (al(a := None))"
  proof (rule layout_merge [OF l' a])
    have "gapped (A @ (x, k0 + n + k) # cs')"
      using gA j(3,5) \<open>A \<noteq> []\<close> unfolding gapped_append by (auto split: list.splits)
    then show "gapped ((xs, 0) # pre @ (x, k0 + n + k) # cs')" using pre by simp
    show "sum_list (map snd ?mid) + n = k0 + n + k" using j(4) by (simp add: k0_def)
    have q: "q + m = a \<Longrightarrow> blk hs e q m" using layout_free_blk [OF l', of q m] by simp
    have k: "mid \<noteq> [] \<Longrightarrow> blk hs e (a + n) k"
      using layout_free_blk [OF l', of "a + n" k] j(6) adj by (auto simp: add.assoc [symmetric])
    show "blk hs e x (k0 + n + k)"
      using ok q k j(6) by (auto simp: blk_def x_def k0_def)
    show "x + (k0 + n + k) \<le> b \<or> b + l \<le> x" if b: "al b = Some l" "b \<noteq> a" for b l
      using layout_al_al [OF l b(1) a b(2)] layout_al_blk [OF l b(1)] j(6) adj
        layout_free_al [OF l' _ b(1), of q m] layout_free_al [OF l' _ b(1), of "a + n" k]
      by (auto simp: blk_def x_def k0_def split: if_splits)
  qed
  moreover have "ins_free a n ((xs, 0) # fl) = (xs, 0) # pre @ (x, k0 + n + k) # cs'"
    using ins j(2) pre by (auto simp: A_def x_def k0_def split: if_splits)
  ultimately obtain fl' where fl': "ins_free a n ((xs, 0) # fl) = (xs, 0) # fl'" "layout xs hs e fl' (al(a := None))"
    by blast
  moreover have "sum_list (map snd fl') = sum_list (map snd fl) + n"
    using layout_sum [OF fl'(2)] layout_sum [OF l] sum_dom_del [OF layout_finite [OF l] a] by simp
  ultimately show ?thesis using that P by blast
qed


section \<open>The invariant of the memory manager\<close>

text \<open>The allocated blocks, read off the headers: those with the top bit of their size set.\<close>

definition alloc_in :: "nat \<Rightarrow> (addr \<rightharpoonup> BlockLink_t) \<Rightarrow> addr \<rightharpoonup> nat" where
  "alloc_in bt bl a =
     (case bl a of None \<Rightarrow> None
      | Some b \<Rightarrow> if xBlockSize b AND bt \<noteq> 0 then Some (xBlockSize b AND not64 bt) else None)"

definition alloc_of :: "mm_state \<Rightarrow> addr \<rightharpoonup> nat" where
  "alloc_of s = alloc_in (xBlockAllocatedBit s) (blocks s)"

definition heapBase :: "mm_state \<Rightarrow> addr" where
  "heapBase s = (ucHeap s + 7) div 8 * 8"

definition heap_inv :: "mm_state \<Rightarrow> (addr \<times> nat) list \<Rightarrow> bool" where
  "heap_inv s fl \<longleftrightarrow>
     xBlockAllocatedBit s = 9223372036854775808 \<and> pxEnd s < 9223372036854775808 \<and> heapBase s < pxEnd s \<and>
     chain (blocks s) (xStart s) ((xStart s, 0) # fl) (pxEnd s) \<and>
     blocks s (pxEnd s) = Some \<lparr>pxNextFreeBlock = NULL, xBlockSize = 0\<rparr> \<and>
     (\<forall>a b. blocks s a = Some b \<longrightarrow> alloc_of s a \<noteq> None \<longrightarrow> pxNextFreeBlock b = NULL) \<and>
     layout (xStart s) (heapBase s) (pxEnd s) fl (alloc_of s) \<and>
     xFreeBytesRemaining s = sum_list (map snd fl)"

definition heap_ok :: "mm_state \<Rightarrow> bool" where
  "heap_ok s \<longleftrightarrow> (\<exists>fl. heap_inv s fl)"

abbreviation top_bit :: nat where
  "top_bit \<equiv> 9223372036854775808"

lemma alloc_in_free: "bl a = Some \<lparr>pxNextFreeBlock = z, xBlockSize = k\<rparr> \<Longrightarrow> k < top_bit \<Longrightarrow> alloc_in top_bit bl a = None"
  by (simp add: alloc_in_def bit63_free)

lemma alloc_in_used:
  "bl a = Some \<lparr>pxNextFreeBlock = z, xBlockSize = k OR top_bit\<rparr> \<Longrightarrow> k < top_bit \<Longrightarrow> alloc_in top_bit bl a = Some k"
  using bit63_used [of k] by (simp add: alloc_in_def bit63_clear)

lemma alloc_in_None: "bl a = None \<Longrightarrow> alloc_in bt bl a = None"
  by (simp add: alloc_in_def)

lemma alloc_in_cong: "bl a = bl' a \<Longrightarrow> alloc_in bt bl a = alloc_in bt bl' a"
  by (simp add: alloc_in_def)

text \<open>Rounding a request.\<close>

lemma adjustWantedSize_pos:
  assumes "0 < w" "w < top_bit"
  shows "8 dvd adjustWantedSize w" "w + 16 \<le> adjustWantedSize w" "adjustWantedSize w \<le> w + 23"
proof -
  have "adjustWantedSize w = (if (w + 16) mod 8 \<noteq> 0 then w + 16 + (8 - (w + 16) mod 8) else w + 16)"
  proof -
    have "(w + 16) mod 8 < 8" by simp
    then have "sub64 8 ((w + 16) mod 8) = 8 - (w + 16) mod 8" by (intro sub64_id) linarith+
    moreover have "add64 w 16 = w + 16" using assms by simp
    moreover have "add64 (w + 16) (8 - (w + 16) mod 8) = w + 16 + (8 - (w + 16) mod 8)" using assms by simp
    ultimately show ?thesis using assms(1) by (simp add: adjustWantedSize_def and_mask7 Let_def)
  qed
  then show "8 dvd adjustWantedSize w" "w + 16 \<le> adjustWantedSize w" "adjustWantedSize w \<le> w + 23"
    by presburger+
qed

text \<open>The first-fit loop.\<close>

lemma mallocLoop_found:
  assumes "chain bl p (pre @ (a, n) # cs) e" and "NULL \<notin> addrs (pre @ (a, n) # cs)"
    and "\<And>b k. (b, k) \<in> set pre \<Longrightarrow> k < w" and "w \<le> n"
  shows "mallocLoop bl w prev p = Some (if pre = [] then prev else fst (last pre), a)"
  using assms
proof (induction pre arbitrary: p prev)
  case Nil
  then show ?case by (subst mallocLoop.simps) auto
next
  case (Cons x pre)
  obtain b k where x: "x = (b, k)" by (cases x)
  with Cons.prems(1) obtain r where r: "bl b = Some \<lparr>pxNextFreeBlock = r, xBlockSize = k\<rparr>" "p = b"
    "chain bl r (pre @ (a, n) # cs) e" by auto
  have "r \<noteq> NULL" using r(3) Cons.prems(2) x by (cases pre) auto
  moreover have "mallocLoop bl w b r = Some (if pre = [] then b else fst (last pre), a)"
    by (rule Cons.IH [OF r(3)]) (use Cons.prems(2-4) x in auto)
  moreover have "k < w" using Cons.prems(3) [of b k] x by simp
  ultimately show ?case using r x by (subst mallocLoop.simps) auto
qed

lemma mallocLoop_end:
  assumes "chain bl p L e" and "NULL \<notin> addrs L" "e \<noteq> NULL"
    and "bl e = Some \<lparr>pxNextFreeBlock = NULL, xBlockSize = 0\<rparr>"
    and "\<And>b k. (b, k) \<in> set L \<Longrightarrow> k < w"
  shows "\<exists>q. mallocLoop bl w prev p = Some (q, e)"
  using assms
proof (induction L arbitrary: p prev)
  case Nil
  then show ?case by (subst mallocLoop.simps) auto
next
  case (Cons x L)
  obtain b k where x: "x = (b, k)" by (cases x)
  with Cons.prems(1) obtain r where r: "bl b = Some \<lparr>pxNextFreeBlock = r, xBlockSize = k\<rparr>" "p = b"
    "chain bl r L e" by auto
  have "r \<noteq> NULL" using r(3) Cons.prems(2,3) x by (cases L) auto
  moreover have "\<exists>q. mallocLoop bl w b r = Some (q, e)"
    by (rule Cons.IH [OF r(3)]) (use Cons.prems(2-5) x in auto)
  moreover have "k < w" using Cons.prems(5) [of b k] x by simp
  ultimately show ?case using r x by (subst mallocLoop.simps) auto
qed

lemma heap_inv_bounds:
  assumes "heap_inv s fl" "(a, n) \<in> set fl"
  shows "heapBase s \<le> a" "a + n \<le> pxEnd s" "16 < n" "a < pxEnd s" "xStart s < a" "n < top_bit"
  using assms layout_free_blk [of _ _ _ fl _ a n] layout_start
  unfolding heap_inv_def blk_def by fastforce+


lemma heap_invD:
  assumes "heap_inv s fl"
  shows heap_inv_bit: "xBlockAllocatedBit s = top_bit" and heap_inv_end: "pxEnd s < top_bit" "heapBase s < pxEnd s"
    and heap_inv_chain: "chain (blocks s) (xStart s) ((xStart s, 0) # fl) (pxEnd s)"
    and heap_inv_last: "blocks s (pxEnd s) = Some \<lparr>pxNextFreeBlock = NULL, xBlockSize = 0\<rparr>"
    and heap_inv_next: "\<And>a b. blocks s a = Some b \<Longrightarrow> alloc_of s a \<noteq> None \<Longrightarrow> pxNextFreeBlock b = NULL"
    and heap_inv_layout: "layout (xStart s) (heapBase s) (pxEnd s) fl (alloc_of s)"
    and heap_inv_free: "xFreeBytesRemaining s = sum_list (map snd fl)"
  using assms unfolding heap_inv_def by blast+

text \<open>The last step of an allocation marks the block and leaves its payload to the caller.\<close>

lemma finish_alloc:
  assumes inv: "heap_inv s fl" and ia: "(a, n) \<in> set fl" "sz \<le> n"
    and lay: "layout (xStart s) (heapBase s) (pxEnd s) fl' ((alloc_of s)(a \<mapsto> sz))"
    and ch: "chain bl (xStart s) ((xStart s, 0) # fl') (pxEnd s)"
    and last: "bl (pxEnd s) = blocks s (pxEnd s)"
    and used: "\<And>x. alloc_of s x \<noteq> None \<Longrightarrow> bl x = blocks s x"
    and unused: "\<And>x. x \<noteq> a \<Longrightarrow> alloc_of s x = None \<Longrightarrow> alloc_in top_bit bl x = None"
    and s': "blocks s' = forget a sz (bl(a \<mapsto> \<lparr>pxNextFreeBlock = NULL, xBlockSize = sz OR top_bit\<rparr>))"
      "xFreeBytesRemaining s' = xFreeBytesRemaining s - sz" "xBlockAllocatedBit s' = xBlockAllocatedBit s"
      "ucHeap s' = ucHeap s" "xStart s' = xStart s" "pxEnd s' = pxEnd s"
  shows "heap_inv s' fl'" "alloc_of s' = (alloc_of s)(a \<mapsto> sz)"
proof -
  note b = heap_inv_bounds [OF inv ia(1)]
  note l = heap_inv_layout [OF inv]
  have sz: "16 < sz" "sz < top_bit" "a + sz \<le> pxEnd s"
    using layout_al_blk [OF lay, of a sz] b(6) ia(2) b(2) by (auto simp: blk_def)
  have bl': "blocks s' x = bl x" if "x < a \<or> a + sz \<le> x" for x
    using that sz s'(1) by (auto simp: forget_def)
  have al: "alloc_of s' x = ((alloc_of s)(a \<mapsto> sz)) x" for x
  proof (cases "a \<le> x \<and> x < a + sz")
    case True
    then have "x \<noteq> a \<Longrightarrow> alloc_of s x = None"
      using ia(2) by (intro layout_free_unalloc [OF l ia(1)]) auto
    with True show ?thesis
      using sz s' heap_inv_bit [OF inv]
      by (auto simp: alloc_of_def forget_def alloc_in_None intro!: alloc_in_used)
  next
    case False
    then have "alloc_of s' x = alloc_in top_bit bl x" "x \<noteq> a"
      using bl' [of x] s' heap_inv_bit [OF inv] sz by (auto simp: alloc_of_def intro: alloc_in_cong)
    then show ?thesis
      using used [of x] unused [of x] heap_inv_bit [OF inv]
      by (cases "alloc_of s x") (auto simp: alloc_of_def cong: alloc_in_cong)
  qed
  then show al': "alloc_of s' = (alloc_of s)(a \<mapsto> sz)" by blast
  have out: "x < a \<or> a + sz \<le> x" if "x \<in> addrs ((xStart s, 0) # fl')" for x
  proof (cases "x = xStart s")
    case False
    with that obtain m where m: "(x, m) \<in> set fl'" by (auto simp: addrs_def)
    show ?thesis
      using layout_free_al [OF lay m, of a sz] layout_free_blk [OF lay m] by (auto simp: blk_def)
  qed (use b(5) in simp)
  have "chain (blocks s') (xStart s) ((xStart s, 0) # fl') (pxEnd s)"
    using ch out bl' by (subst chain_cong [of _ _ bl]) auto
  moreover have "blocks s' (pxEnd s) = Some \<lparr>pxNextFreeBlock = NULL, xBlockSize = 0\<rparr>"
    using last heap_inv_last [OF inv] bl' [of "pxEnd s"] sz(3) by simp
  moreover have "pxNextFreeBlock c = NULL" if "blocks s' x = Some c" "alloc_of s' x \<noteq> None" for x c
  proof (cases "x = a")
    case True
    with that s'(1) show ?thesis by (auto simp: forget_def)
  next
    case False
    with that(2) al' have "alloc_of s x \<noteq> None" by simp
    with that(1) False s'(1) used [of x] heap_inv_next [OF inv, of x c] show ?thesis
      by (auto simp: forget_def split: if_splits)
  qed
  moreover have "sum_list (map snd fl') + sz = sum_list (map snd fl)"
  proof -
    have "alloc_of s a = None" using b by (intro layout_free_unalloc [OF l ia(1)]) auto
    from sum_dom_upd [OF layout_finite [OF l] this, of sz] layout_sum [OF l] layout_sum [OF lay] show ?thesis
      by simp
  qed
  ultimately show "heap_inv s' fl'"
    using inv lay s' al' unfolding heap_inv_def heapBase_def by simp
qed


text \<open>The free block that is found, and the block before it in the list.\<close>

lemma heap_inv_point:
  assumes inv: "heap_inv s (pre @ (a, n) # cs)"
  obtains P q m where "(xStart s, 0) # pre = P @ [(q, m)]" "gapped (P @ (q, m) # cs)" "q + m < a"
    "chain (blocks s) (xStart s) P q" "blocks s q = Some \<lparr>pxNextFreeBlock = a, xBlockSize = m\<rparr>"
    "blocks s a = Some \<lparr>pxNextFreeBlock = next_of cs (pxEnd s), xBlockSize = n\<rparr>"
    "chain (blocks s) (next_of cs (pxEnd s)) cs (pxEnd s)"
    "\<forall>b \<in> addrs P. b < q" "\<forall>b \<in> addrs cs. a + n < b" "m < top_bit"
proof -
  obtain P q m where P: "(xStart s, 0) # pre = P @ [(q, m)]"
    by (metis append_butlast_last_id list.distinct(1) surj_pair)
  then have fold_P: "(xStart s, 0) # pre @ (a, n) # cs = P @ (q, m) # (a, n) # cs"
    by (metis append.assoc append_Cons append_Nil)
  have gp: "gapped (P @ (q, m) # (a, n) # cs)"
    using layout_gapped [OF heap_inv_layout [OF inv]] unfolding fold_P .
  have ch: "chain (blocks s) (xStart s) (P @ (q, m) # (a, n) # cs) (pxEnd s)"
    using heap_inv_chain [OF inv] unfolding fold_P .
  have "gapped (P @ (q, m) # cs)" using gapped_mid_drop [of "P @ [(q, m)]" a n cs] gp by simp
  moreover have "q + m < a" using gp by (simp add: gapped_append)
  moreover have "\<forall>b \<in> addrs P. b < q" using gapped_mid_before [OF gp] by (fastforce simp: addrs_def)
  moreover have "\<forall>b \<in> addrs cs. a + n < b"
    using gapped_mid_after [of "P @ [(q, m)]" a n cs] gp by (fastforce simp: addrs_def)
  moreover have "a < top_bit" using heap_inv_bounds [OF inv, of a n] heap_inv_end [OF inv] by auto
  ultimately show ?thesis
    using P ch by (intro that [of P q m]) (auto simp: chain_append dest: chain_start)
qed

lemma addrs_unalloc:
  assumes inv: "heap_inv s fl" and "x \<in> addrs ((xStart s, 0) # fl)"
  shows "alloc_of s x = None"
proof (cases "x = xStart s")
  case True
  with heap_inv_chain [OF inv] heap_inv_bit [OF inv] show ?thesis
    by (auto simp: alloc_of_def intro: alloc_in_free)
next
  case False
  with assms(2) obtain m where "(x, m) \<in> set fl" by (auto simp: addrs_def)
  with heap_inv_bounds [OF inv this] show ?thesis
    by (intro layout_free_unalloc [OF heap_inv_layout [OF inv], of x m]) auto
qed

text \<open>The two ways to allocate a block: whole, or its front with the rest put back.\<close>

lemma take_whole:
  assumes inv: "heap_inv s (pre @ (a, n) # cs)"
    and q: "(xStart s, 0) # pre = P @ [(q, m)]"
    and bl: "bl = (blocks s)(q \<mapsto> \<lparr>pxNextFreeBlock = next_of cs (pxEnd s), xBlockSize = m\<rparr>)"
    and s': "blocks s' = forget a n (bl(a \<mapsto> \<lparr>pxNextFreeBlock = NULL, xBlockSize = n OR top_bit\<rparr>))"
      "xFreeBytesRemaining s' = xFreeBytesRemaining s - n" "xBlockAllocatedBit s' = xBlockAllocatedBit s"
      "ucHeap s' = ucHeap s" "xStart s' = xStart s" "pxEnd s' = pxEnd s"
  shows "heap_inv s' (pre @ cs)" "alloc_of s' = (alloc_of s)(a \<mapsto> n)"
proof -
  obtain P' q' m' where P: "(xStart s, 0) # pre = P' @ [(q', m')]" "gapped (P' @ (q', m') # cs)" "q' + m' < a"
    "chain (blocks s) (xStart s) P' q'" "blocks s q' = Some \<lparr>pxNextFreeBlock = a, xBlockSize = m'\<rparr>"
    "chain (blocks s) (next_of cs (pxEnd s)) cs (pxEnd s)"
    "\<forall>b \<in> addrs P'. b < q'" "\<forall>b \<in> addrs cs. a + n < b" "m' < top_bit"
    using heap_inv_point [OF inv] by metis
  have eq: "P' = P" "q' = q" "m' = m" using P(1) q by simp_all
  have qq: "q \<in> addrs ((xStart s, 0) # pre @ (a, n) # cs)" using q by (metis Un_iff addrs_simps append_Cons insertI1)
  have qn: "q \<notin> addrs P" "q \<notin> addrs cs" using P(3,7,8) unfolding eq by force+
  have "chain bl (xStart s) (P @ (q, m) # cs) (pxEnd s)"
    using P(3-8) qn unfolding bl eq by (auto simp: chain_append)
  then have ch: "chain bl (xStart s) ((xStart s, 0) # pre @ cs) (pxEnd s)"
    using q by (metis append.assoc append_Cons append_Nil)
  have "q < pxEnd s" using P(3) eq heap_inv_bounds [OF inv, of a n] by simp
  then have last: "bl (pxEnd s) = blocks s (pxEnd s)" by (simp add: bl)
  have unused: "alloc_in top_bit bl x = None" if "x \<noteq> a" "alloc_of s x = None" for x
    using that heap_inv_bit [OF inv] P(9) unfolding bl eq
    by (cases "x = q") (auto simp: alloc_of_def intro: alloc_in_free cong: alloc_in_cong)
  have used: "bl x = blocks s x" if "alloc_of s x \<noteq> None" for x
    using that addrs_unalloc [OF inv qq] unfolding bl by auto
  have "(a, n) \<in> set (pre @ (a, n) # cs)" by simp
  note fin = finish_alloc [OF inv this le_refl layout_take [OF heap_inv_layout [OF inv]] ch last used unused s']
  show "heap_inv s' (pre @ cs)" "alloc_of s' = (alloc_of s)(a \<mapsto> n)" by (rule fin; assumption)+
qed

lemma take_front:
  assumes inv: "heap_inv s (pre @ (a, n) # cs)" and w: "8 dvd w" "16 < w" "w + 16 < n"
    and q: "(xStart s, 0) # pre = P @ [(q, m)]"
    and bl: "bl = (blocks s)(q \<mapsto> \<lparr>pxNextFreeBlock = next_of cs (pxEnd s), xBlockSize = m\<rparr>,
      a + w \<mapsto> \<lparr>pxNextFreeBlock = NULL, xBlockSize = n - w\<rparr>, a \<mapsto> \<lparr>pxNextFreeBlock = z, xBlockSize = w\<rparr>)"
  shows "\<exists>bl'. prvInsertBlockIntoFreeList (a + w) (s\<lparr>blocks := bl\<rparr>) = Some (s\<lparr>blocks := bl'\<rparr>) \<and>
    bl' a = Some \<lparr>pxNextFreeBlock = z, xBlockSize = w\<rparr> \<and>
    (\<forall>s'. blocks s' = forget a w (bl'(a \<mapsto> \<lparr>pxNextFreeBlock = NULL, xBlockSize = w OR top_bit\<rparr>)) \<longrightarrow>
      xFreeBytesRemaining s' = xFreeBytesRemaining s - w \<longrightarrow> xBlockAllocatedBit s' = xBlockAllocatedBit s \<longrightarrow>
      ucHeap s' = ucHeap s \<longrightarrow> xStart s' = xStart s \<longrightarrow> pxEnd s' = pxEnd s \<longrightarrow>
      heap_inv s' (pre @ (a + w, n - w) # cs) \<and> alloc_of s' = (alloc_of s)(a \<mapsto> w))"
proof -
  obtain P' q' m' where P: "(xStart s, 0) # pre = P' @ [(q', m')]" "gapped (P' @ (q', m') # cs)" "q' + m' < a"
    "chain (blocks s) (xStart s) P' q'" "chain (blocks s) (next_of cs (pxEnd s)) cs (pxEnd s)"
    "\<forall>b \<in> addrs P'. b < q'" "\<forall>b \<in> addrs cs. a + n < b" "m' < top_bit"
    using heap_inv_point [OF inv] by metis
  have eq: "P' = P" "q' = q" "m' = m" using P(1) q by simp_all
  note P = P [unfolded eq]
  have ia: "(a, n) \<in> set (pre @ (a, n) # cs)" by simp
  note b = heap_inv_bounds [OF inv ia]
  have qq: "q \<in> addrs ((xStart s, 0) # pre @ (a, n) # cs)" using q by (metis Un_iff addrs_simps append_Cons insertI1)
  have out: "x \<notin> addrs P" "x \<notin> addrs cs" if "a \<le> x" "x \<le> a + n" for x
    using that P(3,6,7) by force+
  have qn: "q \<notin> addrs P" "q \<notin> addrs cs" using P(3,6,7) by force+
  have "chain bl (xStart s) (P @ (q, m) # cs) (pxEnd s)"
    using P(3-7) qn out [of a] out [of "a + w"] w unfolding bl by (auto simp: chain_append)
  moreover have "a + w < b \<and> b < pxEnd s \<and> b + k \<le> pxEnd s" if "(b, k) \<in> set cs" for b k
    using that P(7) w heap_inv_bounds [OF inv, of b k] by (auto simp: addrs_def)
  ultimately obtain bl' where ins: "prvInsertBlockIntoFreeList (a + w) (s\<lparr>blocks := bl\<rparr>) = Some (s\<lparr>blocks := bl'\<rparr>)"
    "chain bl' (xStart s) (ins_free (a + w) (n - w) (P @ (q, m) # cs)) (pxEnd s)"
    "\<forall>x. x \<noteq> q \<longrightarrow> x \<noteq> a + w \<longrightarrow> bl' x = bl x"
    "\<exists>z k. bl' (a + w) = Some \<lparr>pxNextFreeBlock = z, xBlockSize = k\<rparr> \<and> k < top_bit"
    using prvInsert_chain [of "s\<lparr>blocks := bl\<rparr>" P q m cs "a + w" NULL "n - w"] P(2,3) w b heap_inv_end [OF inv]
    by (auto simp: bl)
  have hd: "cs \<noteq> [] \<Longrightarrow> a + n < fst (hd cs)" using P(7) by (cases cs) auto
  have "ins_free (a + w) (n - w) (P @ (q, m) # cs) = P @ (q, m) # (a + w, n - w) # cs"
  proof (subst ins_free_at)
    show "x < a + w" if "x \<in> addrs (tl (P @ [(q, m)]))" for x
      using addrs_tl [OF that] P(3,6) by force
    show "cs \<noteq> [] \<Longrightarrow> a + w \<le> fst (hd cs)" "P @ (if q + m = a + w then join_right q (m + (n - w)) cs
        else (q, m) # join_right (a + w) (n - w) cs) = P @ (q, m) # (a + w, n - w) # cs"
      using P(3) w hd by (auto simp: join_right_eq)
  qed
  with ins(2) have ch: "chain bl' (xStart s) ((xStart s, 0) # pre @ (a + w, n - w) # cs) (pxEnd s)"
    using q by (metis append.assoc append_Cons append_Nil)
  then have qu: "\<exists>z. bl' q = Some \<lparr>pxNextFreeBlock = z, xBlockSize = m\<rparr>"
    using q by (auto simp: chain_append append_eq_Cons_conv Cons_eq_append_conv)
  have other: "bl' x = blocks s x" if "x \<noteq> q" "x \<noteq> a" "x \<noteq> a + w" for x
    using that ins(3) by (simp add: bl)
  have last: "bl' (pxEnd s) = blocks s (pxEnd s)"
    using other [of "pxEnd s"] P(3) b w by simp
  have hdr: "bl' a = Some \<lparr>pxNextFreeBlock = z, xBlockSize = w\<rparr>"
    using ins(3) P(3) w by (simp add: bl)
  have used: "bl' x = blocks s x" if "alloc_of s x \<noteq> None" for x
  proof (rule other)
    show "x \<noteq> q" using that addrs_unalloc [OF inv qq] by auto
    show "x \<noteq> a" "x \<noteq> a + w"
      using that layout_free_unalloc [OF heap_inv_layout [OF inv] ia, of x] w by auto
  qed
  have unused: "alloc_in top_bit bl' x = None" if "x \<noteq> a" "alloc_of s x = None" for x
    using that heap_inv_bit [OF inv] qu ins(4) other [of x] P(8)
    by (cases "x = q \<or> x = a + w") (auto simp: alloc_of_def intro: alloc_in_free cong: alloc_in_cong)
  have lay: "layout (xStart s) (heapBase s) (pxEnd s) (pre @ (a + w, n - w) # cs) ((alloc_of s)(a \<mapsto> w))"
    using w by (intro layout_split [OF heap_inv_layout [OF inv]]) auto
  have "w \<le> n" using w by simp
  note fin = finish_alloc [OF inv ia this lay ch last used unused]
  show ?thesis
    using ins(1) hdr fin by blast
qed

end
