(* ===== verification/Allocator.thy ===== *)
theory Allocator
  imports Bottler_Prelude
begin

text \<open>
  The interface of the kernel's memory managers, as the scheduler, the semaphores and the pipes
  use it through \<open>pvPortMalloc\<close> and \<open>vPortFree\<close>. \<open>live s\<close> maps the pointers that
  were handed out and not yet given back to the number of usable bytes behind them, and \<open>lim\<close> bounds
  the sizes that a client may ask for. The client
  lemmas are proved once, from the laws of the interface.
\<close>

text \<open>A client that requests several blocks in a row, and one that gives several back.\<close>

fun mallocs :: "(nat \<Rightarrow> 's \<Rightarrow> (addr \<times> 's) option) \<Rightarrow> nat list \<Rightarrow> 's \<Rightarrow> (addr list \<times> 's) option" where
  "mallocs malloc [] s = Some ([], s)"
| "mallocs malloc (n # ns) s =
     do { (p, s) \<leftarrow> malloc n s; (ps, s) \<leftarrow> mallocs malloc ns s; Some (p # ps, s) }"

fun frees :: "(addr \<Rightarrow> 's \<Rightarrow> 's option) \<Rightarrow> addr list \<Rightarrow> 's \<Rightarrow> 's option" where
  "frees free [] s = Some s"
| "frees free (p # ps) s = do { s \<leftarrow> free p s; frees free ps s }"

locale allocator =
  fixes malloc :: "nat \<Rightarrow> 's \<Rightarrow> (addr \<times> 's) option"
    and free :: "addr \<Rightarrow> 's \<Rightarrow> 's option"
    and ok :: "'s \<Rightarrow> bool"
    and live :: "'s \<Rightarrow> addr \<rightharpoonup> nat"
    and lim :: nat
  assumes malloc_result: "ok s \<Longrightarrow> n < lim \<Longrightarrow> \<exists>p s'. malloc n s = Some (p, s') \<and> ok s' \<and>
      (p = NULL \<and> live s' = live s \<or>
       p \<noteq> NULL \<and> live s p = None \<and> (\<exists>k \<ge> n. live s' = (live s)(p \<mapsto> k)))"
    and free_live: "ok s \<Longrightarrow> live s p = Some k \<Longrightarrow>
      \<exists>s'. free p s = Some s' \<and> ok s' \<and> live s' = (live s)(p := None)"
    and free_NULL: "ok s \<Longrightarrow> free NULL s = Some s"
    and live_nonnull: "ok s \<Longrightarrow> live s NULL = None"
    and live_apart: "ok s \<Longrightarrow> live s p = Some j \<Longrightarrow> live s q = Some k \<Longrightarrow> p \<noteq> q \<Longrightarrow> p + j \<le> q \<or> q + k \<le> p"
begin

lemma mallocE:
  assumes "ok s" "n < lim"
  obtains (fails) s' where "malloc n s = Some (NULL, s')" "ok s'" "live s' = live s"
  | (gives) p s' k where "malloc n s = Some (p, s')" "ok s'" "p \<noteq> NULL" "live s p = None" "n \<le> k"
      "live s' = (live s)(p \<mapsto> k)"
  using malloc_result [OF assms] by metis

lemma malloc_free:
  assumes "ok s" "n < lim" "malloc n s = Some (p, s')" "p \<noteq> NULL"
  shows "\<exists>s''. free p s' = Some s'' \<and> ok s'' \<and> live s'' = live s"
proof (rule mallocE [OF assms(1,2)])
  fix q s1 k assume "malloc n s = Some (q, s1)" "ok s1" "live s q = None" "live s1 = (live s)(q \<mapsto> k)"
  with assms free_live [of s1 q k] show ?thesis by (auto simp: fun_upd_idem)
qed (use assms in auto)

lemma malloc_keeps:
  assumes "ok s" "n < lim" "malloc n s = Some (p, s')" "live s q = Some k"
  shows "live s' q = Some k"
  by (rule mallocE [OF assms(1,2)]) (use assms(3,4) in auto)

text \<open>The blocks of several requests are live together, new, and do not overlap.\<close>

lemma mallocs_result:
  assumes "ok s" "\<And>n. n \<in> set ns \<Longrightarrow> n < lim"
  shows "\<exists>ps s'. mallocs malloc ns s = Some (ps, s') \<and> ok s' \<and> length ps = length ns \<and>
    (\<forall>q k. live s q = Some k \<longrightarrow> live s' q = Some k) \<and>
    (\<forall>p \<in> set ps. p \<noteq> NULL \<longrightarrow> live s p = None) \<and>
    (\<forall>i < length ps. ps ! i \<noteq> NULL \<longrightarrow> (\<exists>k \<ge> ns ! i. live s' (ps ! i) = Some k)) \<and>
    distinct (filter (\<lambda>p. p \<noteq> NULL) ps)"
  using assms
proof (induction ns arbitrary: s)
  case Nil
  then show ?case by simp
next
  case (Cons n ns)
  then have n: "n < lim" by simp
  obtain p s1 where m: "malloc n s = Some (p, s1)" "ok s1"
    "p \<noteq> NULL \<longrightarrow> live s p = None \<and> (\<exists>k \<ge> n. live s1 p = Some k)"
    "\<forall>q k. live s q = Some k \<longrightarrow> live s1 q = Some k"
    using malloc_result [OF Cons.prems(1) n] malloc_keeps [OF Cons.prems(1) n] by fastforce
  obtain ps s' where r: "mallocs malloc ns s1 = Some (ps, s')" "ok s'" "length ps = length ns"
    "\<forall>q k. live s1 q = Some k \<longrightarrow> live s' q = Some k" "\<forall>p \<in> set ps. p \<noteq> NULL \<longrightarrow> live s1 p = None"
    "\<forall>i < length ps. ps ! i \<noteq> NULL \<longrightarrow> (\<exists>k \<ge> ns ! i. live s' (ps ! i) = Some k)"
    "distinct (filter (\<lambda>p. p \<noteq> NULL) ps)"
    using Cons.IH [OF m(2)] Cons.prems(2) by auto
  have new: "q \<noteq> NULL \<longrightarrow> live s q = None" if "q \<in> set (p # ps)" for q
    using that m(3,4) r(5) by (metis not_None_eq set_ConsD)
  have size: "\<exists>k \<ge> (n # ns) ! i. live s' ((p # ps) ! i) = Some k"
    if "i < length (p # ps)" "(p # ps) ! i \<noteq> NULL" for i
    using that m(3) r(4,6) by (cases i) auto
  have "p \<noteq> NULL \<longrightarrow> p \<notin> set ps" using m(3) r(5) by auto
  then show ?case using m r new size by auto
qed

lemma frees_live:
  assumes "ok s" "distinct ps" "\<And>p. p \<in> set ps \<Longrightarrow> live s p \<noteq> None"
  shows "\<exists>s'. frees free ps s = Some s' \<and> ok s' \<and> live s' = live s |` (- set ps)"
  using assms
proof (induction ps arbitrary: s)
  case Nil
  then show ?case by simp
next
  case (Cons p ps)
  obtain k where "live s p = Some k" using Cons.prems(3) [of p] by auto
  then obtain s1 where s1: "free p s = Some s1" "ok s1" "live s1 = (live s)(p := None)"
    using free_live [OF Cons.prems(1)] by blast
  with Cons obtain s' where "frees free ps s1 = Some s'" "ok s'" "live s' = live s1 |` (- set ps)"
    using Cons.IH [of s1] by (metis (no_types, lifting) distinct.simps(2) fun_upd_apply list.set_intros(2))
  with s1 show ?case by (auto simp: restrict_map_def fun_eq_iff)
qed

end

end
