(* ===== verification/MemFRT4_Ops.thy ===== *)
theory MemFRT4_Ops
  imports MemFRT4_Heap Allocator
begin

text \<open>
  What \<open>pvPortMalloc\<close>, \<open>vPortFree\<close>, the lazy initialisation and the statistics of the default
  memory manager do on a heap that satisfies its invariant, and the memory manager as an
  \<open>allocator\<close>.
\<close>

unbundle bit_operations_syntax

lemma heap_inv_pos: "heap_inv s fl \<Longrightarrow> pxEnd s \<noteq> NULL"
  using heap_inv_end(2) by fastforce

lemma bit63_only: "x AND top_bit = 0 \<longleftrightarrow> \<not> bit x 63" for x :: nat
  using and_exp_eq_0_iff_not_bit [of x 63] by (simp del: bit_iff_odd)

lemma heap_inv_start:
  assumes "heap_inv s fl"
  shows "blocks s (xStart s) = Some \<lparr>pxNextFreeBlock = next_of fl (pxEnd s), xBlockSize = 0\<rparr>"
    and "chain (blocks s) (next_of fl (pxEnd s)) fl (pxEnd s)" and "NULL \<notin> addrs fl"
proof -
  show "blocks s (xStart s) = Some \<lparr>pxNextFreeBlock = next_of fl (pxEnd s), xBlockSize = 0\<rparr>"
    "chain (blocks s) (next_of fl (pxEnd s)) fl (pxEnd s)"
    using heap_inv_chain [OF assms] by (auto dest: chain_start)
  show "NULL \<notin> addrs fl"
    using heap_inv_bounds(5) [OF assms] by (fastforce simp: addrs_def)
qed

lemma free_sum_le:
  assumes "(a, n) \<in> set (fl :: (addr \<times> nat) list)" shows "n \<le> sum_list (map snd fl)"
  using assms by (induction fl) auto

text \<open>First fit: the first free block that is large enough is used.\<close>

lemma pvPortMalloc_take:
  assumes inv: "heap_inv s (pre @ (a, n) # cs)" and w: "0 < n0" "n0 < top_bit"
    and small: "\<And>b k. (b, k) \<in> set pre \<Longrightarrow> k < adjustWantedSize n0" and fit: "adjustWantedSize n0 \<le> n"
  shows "\<exists>s' sz fl'. pvPortMalloc n0 s = Some (a + 16, s') \<and> heap_inv s' fl' \<and>
    (if n - adjustWantedSize n0 > 32
     then fl' = pre @ (a + adjustWantedSize n0, n - adjustWantedSize n0) # cs else fl' = pre @ cs) \<and>
    alloc_of s' = (alloc_of s)(a \<mapsto> sz) \<and> adjustWantedSize n0 \<le> sz \<and> sz \<le> adjustWantedSize n0 + 32 \<and>
    xFreeBytesRemaining s' + sz = xFreeBytesRemaining s \<and>
    xNumberOfSuccessfulAllocations s' = add64 (xNumberOfSuccessfulAllocations s) 1"
proof -
  define aw where "aw = adjustWantedSize n0"
  note aw = adjustWantedSize_pos [OF w, folded aw_def]
  have ia: "(a, n) \<in> set (pre @ (a, n) # cs)" by simp
  note b = heap_inv_bounds [OF inv ia]
  obtain P q m where P: "(xStart s, 0) # pre = P @ [(q, m)]" "q + m < a"
    "blocks s q = Some \<lparr>pxNextFreeBlock = a, xBlockSize = m\<rparr>"
    "blocks s a = Some \<lparr>pxNextFreeBlock = next_of cs (pxEnd s), xBlockSize = n\<rparr>"
    using heap_inv_point [OF inv] by metis
  have q: "q = (if pre = [] then xStart s else fst (last pre))"
    using arg_cong [OF P(1), of last] by (auto split: if_splits)
  have le: "n \<le> xFreeBytesRemaining s" "aw \<le> xFreeBytesRemaining s"
    using free_sum_le [OF ia] heap_inv_free [OF inv] fit by (simp_all add: aw_def)
  have loop: "mallocLoop (blocks s) aw (xStart s) (next_of (pre @ (a, n) # cs) (pxEnd s)) = Some (q, a)"
    unfolding q using small fit
    by (intro mallocLoop_found [OF heap_inv_start(2,3) [OF inv]]) (auto simp: aw_def)
  have pe: "pxEnd s \<noteq> NULL" "a \<noteq> pxEnd s" "a < 18446744073709551600" "q \<noteq> a"
    using heap_inv_end [OF inv] b P(2) by auto
  have free: "xFreeBytesRemaining s < 18446744073709551616"
    using layout_sum [OF heap_inv_layout [OF inv]] heap_inv_free [OF inv] heap_inv_end [OF inv] by simp
  note run = w pe aw le heap_inv_bit [OF inv] heap_inv_start(1) [OF inv] loop P(3,4)
  show ?thesis
  proof (cases "n - aw > 32")
    case False
    define s' where "s' = s\<lparr>blocks := forget a n ((blocks s)(q \<mapsto> \<lparr>pxNextFreeBlock = next_of cs (pxEnd s), xBlockSize = m\<rparr>,
        a \<mapsto> \<lparr>pxNextFreeBlock = NULL, xBlockSize = n OR top_bit\<rparr>)),
      xFreeBytesRemaining := xFreeBytesRemaining s - n,
      xMinimumEverFreeBytesRemaining := min (xFreeBytesRemaining s - n) (xMinimumEverFreeBytesRemaining s),
      xNumberOfSuccessfulAllocations := add64 (xNumberOfSuccessfulAllocations s) 1\<rparr>"
    have "pvPortMalloc n0 s = Some (a + 16, s')"
      using run False b fit free
      by (simp add: pvPortMalloc_def bit63_free Let_def aw_def [symmetric] s'_def)
    moreover have "heap_inv s' (pre @ cs)" "alloc_of s' = (alloc_of s)(a \<mapsto> n)"
      by (rule take_whole [OF inv P(1) refl]; simp add: s'_def)+
    ultimately show ?thesis using False fit le
      by (intro exI [of _ s'] exI [of _ n] exI [of _ "pre @ cs"]) (auto simp: aw_def s'_def)
  next
    case True
    let ?bl = "(blocks s)(q \<mapsto> \<lparr>pxNextFreeBlock = next_of cs (pxEnd s), xBlockSize = m\<rparr>,
      a + aw \<mapsto> \<lparr>pxNextFreeBlock = NULL, xBlockSize = n - aw\<rparr>,
      a \<mapsto> \<lparr>pxNextFreeBlock = next_of cs (pxEnd s), xBlockSize = aw\<rparr>)"
    have "16 < aw" "aw + 16 < n" using aw w True by auto
    from take_front [OF inv aw(1) this P(1) refl, of "next_of cs (pxEnd s)"] obtain bl' where bl':
      "prvInsertBlockIntoFreeList (a + aw) (s\<lparr>blocks := ?bl\<rparr>) = Some (s\<lparr>blocks := bl'\<rparr>)"
      "bl' a = Some \<lparr>pxNextFreeBlock = next_of cs (pxEnd s), xBlockSize = aw\<rparr>"
      "\<And>s'. blocks s' = forget a aw (bl'(a \<mapsto> \<lparr>pxNextFreeBlock = NULL, xBlockSize = aw OR top_bit\<rparr>)) \<Longrightarrow>
        xFreeBytesRemaining s' = xFreeBytesRemaining s - aw \<Longrightarrow> xBlockAllocatedBit s' = xBlockAllocatedBit s \<Longrightarrow>
        ucHeap s' = ucHeap s \<Longrightarrow> xStart s' = xStart s \<Longrightarrow> pxEnd s' = pxEnd s \<Longrightarrow>
        heap_inv s' (pre @ (a + aw, n - aw) # cs) \<and> alloc_of s' = (alloc_of s)(a \<mapsto> aw)"
      by blast
    define s' where "s' = s\<lparr>blocks := forget a aw (bl'(a \<mapsto> \<lparr>pxNextFreeBlock = NULL, xBlockSize = aw OR top_bit\<rparr>)),
      xFreeBytesRemaining := xFreeBytesRemaining s - aw,
      xMinimumEverFreeBytesRemaining := min (xFreeBytesRemaining s - aw) (xMinimumEverFreeBytesRemaining s),
      xNumberOfSuccessfulAllocations := add64 (xNumberOfSuccessfulAllocations s) 1\<rparr>"
    have "a + aw < 18446744073709551616" using b heap_inv_end [OF inv] True by linarith
    then have "pvPortMalloc n0 s = Some (a + 16, s')"
      using run True b fit free bl'(1,2)
      by (simp add: pvPortMalloc_def bit63_free Let_def aw_def [symmetric] s'_def)
    moreover have "heap_inv s' (pre @ (a + aw, n - aw) # cs) \<and> alloc_of s' = (alloc_of s)(a \<mapsto> aw)"
      by (rule bl'(3)) (simp_all add: s'_def)
    moreover have "xFreeBytesRemaining s' + aw = xFreeBytesRemaining s"
      "xNumberOfSuccessfulAllocations s' = add64 (xNumberOfSuccessfulAllocations s) 1" using le by (simp_all add: s'_def)
    ultimately show ?thesis using True unfolding aw_def [symmetric]
      by (intro exI [of _ s'] exI [of _ aw] exI [of _ "pre @ (a + aw, n - aw) # cs"]) simp
  qed
qed

lemma pvPortMalloc_none:
  assumes inv: "heap_inv s fl" and w: "0 < n0" "n0 < top_bit"
    and small: "\<And>b k. (b, k) \<in> set fl \<Longrightarrow> k < adjustWantedSize n0"
  shows "pvPortMalloc n0 s = Some (NULL, s)"
proof -
  have pe: "pxEnd s \<noteq> NULL" by (rule heap_inv_pos [OF inv])
  obtain q where "mallocLoop (blocks s) (adjustWantedSize n0) (xStart s) (next_of fl (pxEnd s)) = Some (q, pxEnd s)"
    using mallocLoop_end [OF heap_inv_start(2,3) [OF inv] pe heap_inv_last [OF inv], of "adjustWantedSize n0" "xStart s"] small by auto
  then show ?thesis
    using pe w heap_inv_bit [OF inv] heap_inv_start(1) [OF inv] by (simp add: pvPortMalloc_def bit63_free Let_def)
qed

lemma pvPortMalloc_refuse:
  assumes "heap_inv s fl" "n0 = 0 \<or> bit n0 63"
  shows "pvPortMalloc n0 s = Some (NULL, s)"
  using assms heap_inv_pos [OF assms(1)] heap_inv_bit [OF assms(1)]
  by (auto simp: pvPortMalloc_def adjustWantedSize_def bit63_only simp del: bit_iff_odd)

lemma vPortFree_live:
  assumes inv: "heap_inv s fl" and a: "alloc_of s a = Some n"
  shows "\<exists>s' fl'. vPortFree (a + 16) s = Some s' \<and> heap_inv s' fl' \<and> alloc_of s' = (alloc_of s)(a := None) \<and>
    xFreeBytesRemaining s' = xFreeBytesRemaining s + n \<and>
    xNumberOfSuccessfulFrees s' = add64 (xNumberOfSuccessfulFrees s) 1 \<and> vPortFree (a + 16) s' = Some s'"
proof -
  note l = heap_inv_layout [OF inv]
  obtain P q m cs fl' where P: "(xStart s, 0) # fl = P @ (q, m) # cs" "q < a" "q + m \<le> a"
    "\<And>b k. (b, k) \<in> set cs \<Longrightarrow> a + n \<le> b"
    "ins_free a n ((xStart s, 0) # fl) = (xStart s, 0) # fl'"
    "layout (xStart s) (heapBase s) (pxEnd s) fl' ((alloc_of s)(a := None))"
    "sum_list (map snd fl') = sum_list (map snd fl) + n"
    by (rule layout_release [OF l a]) blast
  have ok: "blk (heapBase s) (pxEnd s) a n" using layout_al_blk [OF l a] .
  then have n: "16 < n" "n < top_bit" "a + n \<le> pxEnd s" "a \<noteq> pxEnd s" using heap_inv_end [OF inv] by (auto simp: blk_def)
  obtain k where c: "blocks s a = Some \<lparr>pxNextFreeBlock = NULL, xBlockSize = k\<rparr>"
    "k AND top_bit \<noteq> 0" "k AND not64 top_bit = n"
  proof -
    obtain c where c: "blocks s a = Some c" "xBlockSize c AND top_bit \<noteq> 0" "xBlockSize c AND not64 top_bit = n"
      using a heap_inv_bit [OF inv] by (auto simp: alloc_of_def alloc_in_def split: option.splits if_splits)
    moreover have "pxNextFreeBlock c = NULL" using heap_inv_next [OF inv c(1)] a by simp
    ultimately show ?thesis by (intro that [of "xBlockSize c"]) simp_all
  qed
  have an: "a \<notin> addrs ((xStart s, 0) # fl)" using addrs_unalloc [OF inv, of a] a by auto
  define s0 where "s0 = s\<lparr>blocks := (blocks s)(a \<mapsto> \<lparr>pxNextFreeBlock = NULL, xBlockSize = n\<rparr>),
     xFreeBytesRemaining := xFreeBytesRemaining s + n\<rparr>"
  have s0 [simp]: "xStart s0 = xStart s" "pxEnd s0 = pxEnd s" "heapBase s0 = heapBase s" 
    "blocks s0 = (blocks s)(a \<mapsto> \<lparr>pxNextFreeBlock = NULL, xBlockSize = n\<rparr>)"
    by (simp_all add: s0_def heapBase_def)
  have ch: "chain (blocks s0) (xStart s0) (P @ (q, m) # cs) (pxEnd s0)"
    using heap_inv_chain [OF inv] an unfolding P(1) by simp
  have gp: "gapped (P @ (q, m) # cs)" using layout_gapped [OF l] unfolding P(1) .
  have csb: "a < b \<and> b < pxEnd s0 \<and> b + k \<le> pxEnd s0" if "(b, k) \<in> set cs" for b k
  proof -
    have "(b, k) \<in> set ((xStart s, 0) # fl)" using that unfolding P(1) by simp
    moreover have "b \<noteq> xStart s" using P(4) [OF that] layout_start [OF l] ok by (auto simp: blk_def)
    ultimately show ?thesis using heap_inv_bounds [OF inv, of b k] P(4) [OF that] n by auto
  qed
  obtain bl' where bl': "prvInsertBlockIntoFreeList a s0 = Some (s0\<lparr>blocks := bl'\<rparr>)"
    "chain bl' (xStart s) ((xStart s, 0) # fl') (pxEnd s)"
    "\<forall>x. x \<noteq> q \<longrightarrow> x \<noteq> a \<longrightarrow> bl' x = blocks s0 x"
    "\<forall>x \<in> {q, a}. \<exists>z' k. bl' x = Some \<lparr>pxNextFreeBlock = z', xBlockSize = k\<rparr> \<and> k < top_bit"
    using prvInsert_chain [OF ch _ gp P(2,3) csb, of NULL n] n heap_inv_end [OF inv] P(5) unfolding P(1) by auto
  define s' where "s' = s0\<lparr>blocks := bl', xNumberOfSuccessfulFrees := add64 (xNumberOfSuccessfulFrees s) 1\<rparr>"
  have free: "xFreeBytesRemaining s + n < 18446744073709551616"
    using layout_sum [OF P(6)] P(7) heap_inv_free [OF inv] heap_inv_end [OF inv] by simp
  have "a + 16 < 18446744073709551616" using n heap_inv_end [OF inv] by linarith
  then have run: "vPortFree (a + 16) s = Some s'"
    using c heap_inv_bit [OF inv] free bl'(1) by (simp add: vPortFree_def s'_def s0_def)
  have qf: "alloc_of s q = None" using addrs_unalloc [OF inv, of q] unfolding P(1) by simp
  have fr: "alloc_in top_bit bl' x = None" if "x \<in> {q, a}" for x
    using bl'(4) that by (metis alloc_in_free)
  have al: "alloc_of s' = (alloc_of s)(a := None)"
  proof
    fix x
    show "alloc_of s' x = ((alloc_of s)(a := None)) x"
      using fr [of x] qf bl'(3) heap_inv_bit [OF inv]
      by (cases "x \<in> {q, a}") (auto simp: alloc_of_def s'_def s0_def cong: alloc_in_cong)
  qed
  have "q \<noteq> pxEnd s" using P(2) n by linarith
  then have "blocks s' (pxEnd s) = Some \<lparr>pxNextFreeBlock = NULL, xBlockSize = 0\<rparr>"
    using bl'(3) heap_inv_last [OF inv] n(4) by (simp add: s'_def)
  moreover have "pxNextFreeBlock d = NULL" if "blocks s' x = Some d" "alloc_of s' x \<noteq> None" for x d
    using that al qf bl'(3) heap_inv_next [OF inv, of x d]
    by (cases "x \<in> {q, a}") (auto simp: s'_def split: if_splits)
  ultimately have "heap_inv s' fl'"
    using inv bl'(2) P(6,7) al unfolding heap_inv_def by (simp add: s'_def s0_def heapBase_def)
  moreover have "vPortFree (a + 16) s' = Some s'"
    using bl'(4) \<open>a + 16 < 18446744073709551616\<close> heap_inv_bit [OF inv]
    by (auto simp: vPortFree_def s'_def s0_def bit63_free)
  ultimately show ?thesis using run al by (auto simp: s'_def s0_def)
qed

section \<open>The first call\<close>

definition mm_fresh :: "mm_state \<Rightarrow> bool" where
  "mm_fresh s \<longleftrightarrow> pxEnd s = NULL \<and> blocks s = Map.empty \<and> xStart s < ucHeap s \<and> ucHeap s < 2 ^ 62"

lemma prvHeapInit_inv:
  assumes "mm_fresh s"
  shows "heap_inv (prvHeapInit s) [(heapBase s, pxEnd (prvHeapInit s) - heapBase s)]"
    and "alloc_of (prvHeapInit s) = Map.empty"
    and "pxEnd (prvHeapInit s) = (ucHeap s + configTOTAL_HEAP_SIZE - 16) div 8 * 8"
proof -
  have lim: "ucHeap s < 4611686018427387904" "xStart s < ucHeap s" using assms by (auto simp: mm_fresh_def)
  define h where "h = ucHeap s"
  define e where "e = (h + configTOTAL_HEAP_SIZE - 16) div 8 * 8"
  have hb: "heapBase s = (h + 7) div 8 * 8" by (simp add: heapBase_def h_def)
  have al: "x - x mod 8 = x div 8 * 8" for x :: nat by (simp add: minus_mod_eq_div_mult)
  have init: "prvHeapInit s = s\<lparr>blocks := [xStart s \<mapsto> \<lparr>pxNextFreeBlock = heapBase s, xBlockSize = 0\<rparr>,
      e \<mapsto> \<lparr>pxNextFreeBlock = NULL, xBlockSize = 0\<rparr>,
      heapBase s \<mapsto> \<lparr>pxNextFreeBlock = e, xBlockSize = e - heapBase s\<rparr>], pxEnd := e,
      xMinimumEverFreeBytesRemaining := e - heapBase s, xFreeBytesRemaining := e - heapBase s,
      xBlockAllocatedBit := top_bit\<rparr>"
  proof (cases "h mod 8 = 0")
    case True
    then have "heapBase s = h" unfolding hb by presburger
    with True lim assms show ?thesis
      by (simp add: prvHeapInit_def h_def [symmetric] and_mask7 and_not7 al e_def configTOTAL_HEAP_SIZE_def
          Let_def mm_fresh_def)
  next
    case False
    have "(h + 7) div 8 * 8 \<le> h + 7" "h \<le> (h + 7) div 8 * 8" by presburger+
    with False lim assms show ?thesis
      by (simp add: prvHeapInit_def h_def [symmetric] and_mask7 and_not7 al e_def configTOTAL_HEAP_SIZE_def
          Let_def mm_fresh_def hb)
  qed
  then show "pxEnd (prvHeapInit s) = (ucHeap s + configTOTAL_HEAP_SIZE - 16) div 8 * 8"
    by (simp add: e_def h_def)
  have hbb: "h \<le> heapBase s" "heapBase s \<le> h + 7" "8 dvd heapBase s" unfolding hb by (presburger, presburger, simp)
  have round: "x < x div 8 * 8 + 8" "x div 8 * 8 \<le> x" for x :: nat by presburger+
  have eb: "h + 536870888 < e" "e \<le> h + 536870896" "8 dvd e"
    using round [of "h + 536870896"] unfolding e_def configTOTAL_HEAP_SIZE_def by simp_all
  have b: "xStart s < heapBase s" "heapBase s + 32 < e" "e < top_bit" "8 dvd heapBase s" "8 dvd e"
    using lim hbb eb by (simp_all add: h_def)
  then show al0: "alloc_of (prvHeapInit s) = Map.empty"
    unfolding init by (auto simp: fun_eq_iff alloc_of_def alloc_in_def bit63_free)
  have "heapBase (prvHeapInit s) = heapBase s" by (simp add: init heapBase_def)
  with b al0 show "heap_inv (prvHeapInit s) [(heapBase s, pxEnd (prvHeapInit s) - heapBase s)]"
    unfolding heap_inv_def layout_def blk_def by (simp add: init)
qed

lemma pvPortMalloc_fresh:
  assumes "mm_fresh s"
  shows "pvPortMalloc n s = pvPortMalloc n (prvHeapInit s)"
proof -
  have "pxEnd (prvHeapInit s) \<noteq> NULL" using heap_inv_pos [OF prvHeapInit_inv(1) [OF assms]] .
  with assms show ?thesis by (simp add: pvPortMalloc_def mm_fresh_def)
qed

section \<open>The memory manager as an allocator\<close>

definition mm_ok :: "mm_state \<Rightarrow> bool" where
  "mm_ok s \<longleftrightarrow> heap_ok s \<or> mm_fresh s"

definition payload :: "mm_state \<Rightarrow> addr \<rightharpoonup> nat" where
  "payload s p = (if p < 16 then None else map_option (\<lambda>n. n - 16) (alloc_of s (p - 16)))"

lemma payload_upd:
  "alloc_of s' = (alloc_of s)(a \<mapsto> n) \<Longrightarrow> payload s' = (payload s)(a + 16 \<mapsto> n - 16)"
  "alloc_of s' = (alloc_of s)(a := None) \<Longrightarrow> payload s' = (payload s)(a + 16 := None)"
  by (auto simp: payload_def fun_eq_iff)

lemma payload_Some: "payload s p = Some k \<Longrightarrow> \<exists>a n. p = a + 16 \<and> alloc_of s a = Some n \<and> k = n - 16"
  by (auto simp: payload_def split: if_splits) (metis le_add_diff_inverse2 not_less)

lemma payload_fresh: "mm_fresh s \<Longrightarrow> payload s = Map.empty"
  by (auto simp: payload_def mm_fresh_def alloc_of_def alloc_in_def fun_eq_iff)

lemma malloc_inv:
  assumes inv: "heap_inv s fl" and n: "n < 2 ^ 64"
  shows "\<exists>p s'. pvPortMalloc n s = Some (p, s') \<and> heap_ok s' \<and>
     (p = NULL \<and> payload s' = payload s \<or>
      p \<noteq> NULL \<and> payload s p = None \<and> (\<exists>k \<ge> n. payload s' = (payload s)(p \<mapsto> k)))"
proof (cases "n = 0 \<or> bit n 63")
  case True
  then show ?thesis using pvPortMalloc_refuse [OF inv True] inv by (auto simp: heap_ok_def)
next
  case False
  have "n div top_bit < 2" using n by (intro less_mult_imp_div_less) simp
  moreover have "even (n div top_bit)" using False bit_iff_odd [of n 63] by simp
  ultimately have "n div top_bit = 0" using less_2_cases [of "n div top_bit"] by (metis One_nat_def odd_one)
  then have n: "0 < n" "n < top_bit" using False by (simp_all add: div_eq_0_iff)
  show ?thesis
  proof (cases "\<exists>(b, k) \<in> set fl. adjustWantedSize n \<le> k")
    case False
    then show ?thesis using pvPortMalloc_none [OF inv n] inv by (fastforce simp: heap_ok_def)
  next
    case True
    then obtain pre a k cs where fl: "fl = pre @ (a, k) # cs" "adjustWantedSize n \<le> k"
      "\<And>b k. (b, k) \<in> set pre \<Longrightarrow> k < adjustWantedSize n"
      using split_list_first_prop [of fl "\<lambda>(b, k). adjustWantedSize n \<le> k"] by (fastforce simp: not_le)
    then obtain s' sz fl' where s': "pvPortMalloc n s = Some (a + 16, s')" "heap_inv s' fl'"
      "alloc_of s' = (alloc_of s)(a \<mapsto> sz)" "adjustWantedSize n \<le> sz"
      using pvPortMalloc_take [OF inv [unfolded fl(1)] n _ fl(2)] by blast
    have "alloc_of s a = None"
      using addrs_unalloc [OF inv, of a] fl(1) by simp
    with s' payload_upd(1) [OF s'(3)] adjustWantedSize_pos(2) [OF n] show ?thesis
      by (auto simp: heap_ok_def payload_def intro!: exI [of _ "sz - 16"])
  qed
qed

text \<open>Requests that fit into one free block succeed, one after the other.\<close>

definition room :: "nat \<Rightarrow> mm_state \<Rightarrow> bool" where
  "room k s \<longleftrightarrow> (\<exists>fl a n. heap_inv s fl \<and> (a, n) \<in> set fl \<and> k \<le> n)"

definition room_for :: "nat list \<Rightarrow> mm_state \<Rightarrow> bool" where
  "room_for ns s \<longleftrightarrow> room (sum_list (map adjustWantedSize ns) + 33) s"

lemma room_inv:
  assumes inv: "heap_inv s fl" and x: "(b, m) \<in> set fl" "adjustWantedSize n + k \<le> m" and n: "0 < n" "n < top_bit" and k: "32 < k"
  shows "\<exists>p s'. pvPortMalloc n s = Some (p, s') \<and> p \<noteq> NULL \<and> room k s'"
proof -
  from x have "\<exists>x \<in> set fl. adjustWantedSize n \<le> snd x" by force
  then obtain pre a l cs where fl: "fl = pre @ (a, l) # cs" "adjustWantedSize n \<le> l"
      "\<And>b k. (b, k) \<in> set pre \<Longrightarrow> k < adjustWantedSize n"
    using split_list_first_prop [of fl "\<lambda>x. adjustWantedSize n \<le> snd x"] by (fastforce simp: not_le)
  from pvPortMalloc_take [OF inv [unfolded fl(1)] n _ fl(2)] fl(3) obtain s' fl' where
    s': "pvPortMalloc n s = Some (a + 16, s')" "heap_inv s' fl'"
      "if l - adjustWantedSize n > 32 then fl' = pre @ (a + adjustWantedSize n, l - adjustWantedSize n) # cs
       else fl' = pre @ cs" by blast
  have "\<exists>b m. (b, m) \<in> set fl' \<and> k \<le> m"
  proof (cases "(b, m) = (a, l)")
    case True
    with x(2) k s'(3) show ?thesis by (intro exI [of _ "a + adjustWantedSize n"] exI [of _ "l - adjustWantedSize n"]) auto
  next
    case False
    with x(1) fl(1) s'(3) have "(b, m) \<in> set fl'" by (auto split: if_splits)
    with x(2) show ?thesis by (intro exI [of _ b] exI [of _ m]) simp
  qed
  with s' show ?thesis by (auto simp: room_def)
qed

lemma room_malloc:
  assumes "room_for (n # ns) s" "0 < n" "n < top_bit"
  obtains p s' where "pvPortMalloc n s = Some (p, s')" "p \<noteq> NULL" "room_for ns s'"
proof -
  obtain fl a m where "heap_inv s fl" "(a, m) \<in> set fl" "adjustWantedSize n + (sum_list (map adjustWantedSize ns) + 33) \<le> m"
    using assms(1) by (auto simp: room_for_def room_def add.assoc)
  from room_inv [OF this assms(2,3)] that show ?thesis by (auto simp: room_for_def)
qed

lemma room_fresh:
  assumes "mm_fresh s" "sum_list (map adjustWantedSize ns) + 33 \<le> configTOTAL_HEAP_SIZE - 32"
  shows "room_for ns (prvHeapInit s)"
proof -
  have "(ucHeap s + 536870896) div 8 * 8 + 8 > ucHeap s + 536870896" "heapBase s \<le> ucHeap s + 7"
    unfolding heapBase_def by presburger+
  then have "configTOTAL_HEAP_SIZE - 32 \<le> pxEnd (prvHeapInit s) - heapBase s"
    unfolding prvHeapInit_inv(3) [OF assms(1)] by (simp add: configTOTAL_HEAP_SIZE_def)
  with assms(2) prvHeapInit_inv(1) [OF assms(1)] show ?thesis
    unfolding room_for_def room_def by fastforce
qed

interpretation frt4: allocator pvPortMalloc vPortFree mm_ok payload "2 ^ 64"
proof
  fix s :: mm_state and n :: nat
  assume ok: "mm_ok s" and n: "n < 2 ^ 64"
  show "\<exists>p s'. pvPortMalloc n s = Some (p, s') \<and> mm_ok s' \<and>
      (p = NULL \<and> payload s' = payload s \<or>
       p \<noteq> NULL \<and> payload s p = None \<and> (\<exists>k \<ge> n. payload s' = (payload s)(p \<mapsto> k)))"
  proof (cases "mm_fresh s")
    case True
    have "payload (prvHeapInit s) = payload s"
      using prvHeapInit_inv(2) [OF True] payload_fresh [OF True] by (simp add: payload_def fun_eq_iff)
    then show ?thesis
      using malloc_inv [OF prvHeapInit_inv(1) [OF True] n] pvPortMalloc_fresh [OF True] by (auto simp: mm_ok_def)
  next
    case False
    with ok obtain fl where "heap_inv s fl" by (auto simp: mm_ok_def heap_ok_def)
    from malloc_inv [OF this n] show ?thesis by (auto simp: mm_ok_def)
  qed
next
  fix s :: mm_state and p k
  assume ok: "mm_ok s" and p: "payload s p = Some k"
  then obtain fl where "heap_inv s fl" using payload_fresh by (auto simp: mm_ok_def heap_ok_def)
  moreover obtain a n where "p = a + 16" "alloc_of s a = Some n" using payload_Some [OF p] by blast
  ultimately show "\<exists>s'. vPortFree p s = Some s' \<and> mm_ok s' \<and> payload s' = (payload s)(p := None)"
    using vPortFree_live [of s fl a n] payload_upd(2) by (auto simp: mm_ok_def heap_ok_def)
next
  fix s p q j k
  assume ok: "mm_ok s" and pq: "payload s p = Some j" "payload s q = Some k" "p \<noteq> q"
  then obtain fl where inv: "heap_inv s fl" using payload_fresh by (auto simp: mm_ok_def heap_ok_def)
  obtain a n b m where "p = a + 16" "alloc_of s a = Some n" "j = n - 16" "q = b + 16" "alloc_of s b = Some m" "k = m - 16"
    using payload_Some [OF pq(1)] payload_Some [OF pq(2)] by metis
  with layout_al_al [OF heap_inv_layout [OF inv], of a n b m] pq(3) show "p + j \<le> q \<or> q + k \<le> p" by auto
qed (simp_all add: vPortFree_def payload_def)

section \<open>Statistics\<close>

lemma statsLoop_list:
  assumes "chain bl p fl e" "fl \<noteq> []" "e \<notin> addrs fl" "c + length fl < 2 ^ 64"
  shows "statsLoop bl e p c mx mn =
    Some (c + length fl, foldl max mx (map snd fl), foldl min mn (map snd fl))"
  using assms
proof (induction fl arbitrary: p c mx mn)
  case (Cons x fl)
  obtain a n where x: "x = (a, n)" by (cases x)
  then obtain r where r: "bl a = Some \<lparr>pxNextFreeBlock = r, xBlockSize = n\<rparr>" "p = a" "chain bl r fl e"
    using Cons.prems(1) by auto
  have mm: "(if n > mx then n else mx) = max mx n" "(if n < mn then n else mn) = min mn n" by auto
  show ?case
  proof (cases "fl = []")
    case True
    with r x Cons.prems(4) show ?thesis by (subst statsLoop.simps) (simp add: max_def min_def)
  next
    case False
    then have "r \<noteq> e" using r(3) Cons.prems(3) x by (cases fl) auto
    with False r x Cons.prems(3,4) Cons.IH [OF r(3) False, of "Suc c" "max mx n" "min mn n"] show ?thesis
      by (subst statsLoop.simps) (simp add: mm cong: if_cong split del: if_split)
  qed
qed simp

lemma length_le_sum: "(\<And>a n. (a, n) \<in> set fl \<Longrightarrow> (0::nat) < n) \<Longrightarrow> length fl \<le> sum_list (map snd fl)"
proof (induction fl)
  case (Cons x fl)
  obtain a n where x: "x = (a, n)" by (cases x)
  have "length fl \<le> sum_list (map snd fl)" by (rule Cons.IH) (use Cons.prems in auto)
  with x Cons.prems [of a n] show ?case by simp
qed simp

lemma free_list_short: "heap_inv s fl \<Longrightarrow> length fl < 2 ^ 64"
proof -
  assume inv: "heap_inv s fl"
  have "length fl \<le> sum_list (map snd fl)"
    using heap_inv_bounds(3) [OF inv] by (intro length_le_sum) fastforce
  then show ?thesis using layout_sum [OF heap_inv_layout [OF inv]] heap_inv_end [OF inv] by simp
qed

section \<open>Histories of the memory manager\<close>

text \<open>One call: a request of any size, or the release of a live pointer (or of \<open>NULL\<close>).\<close>

inductive mm_step :: "mm_state \<Rightarrow> mm_state \<Rightarrow> bool" where
  step_malloc: "n < 2 ^ 64 \<Longrightarrow> pvPortMalloc n s = Some (p, s') \<Longrightarrow> mm_step s s'"
| step_free: "p = NULL \<or> payload s p \<noteq> None \<Longrightarrow> vPortFree p s = Some s' \<Longrightarrow> mm_step s s'"

inductive_cases mm_stepE: "mm_step s s'"

lemma mm_step_ok: "mm_step s s' \<Longrightarrow> mm_ok s \<Longrightarrow> mm_ok s'"
proof (induction rule: mm_step.induct)
  case (step_malloc n s p s')
  then show ?case using frt4.malloc_result [of s n] by auto
next
  case (step_free p s s')
  then show ?case using frt4.free_live [of s p] by (auto simp: frt4.free_NULL)
qed

lemma mm_reach_ok: "mm_step\<^sup>*\<^sup>* s s' \<Longrightarrow> mm_ok s \<Longrightarrow> mm_ok s'"
  by (induction rule: rtranclp_induct) (auto intro: mm_step_ok)

lemma mm_ok_started: "mm_ok s \<Longrightarrow> pxEnd s \<noteq> NULL \<Longrightarrow> \<exists>fl. heap_inv s fl"
  by (auto simp: mm_ok_def heap_ok_def mm_fresh_def)

text \<open>Every byte of the heap is free or belongs to one live block and its header.\<close>

lemma payload_dom:
  assumes "heap_inv s fl"
  shows "dom (payload s) = (\<lambda>a. a + 16) ` dom (alloc_of s)"
    and "(\<Sum>p\<in>dom (payload s). the (payload s p) + 16) = (\<Sum>a\<in>dom (alloc_of s). the (alloc_of s a))"
proof -
  show d: "dom (payload s) = (\<lambda>a. a + 16) ` dom (alloc_of s)"
    using payload_Some [of s] by (fastforce simp: payload_def)
  have "the (payload s (a + 16)) + 16 = the (alloc_of s a)" if "a \<in> dom (alloc_of s)" for a
    using that layout_al_blk [OF heap_inv_layout [OF assms], of a] by (auto simp: payload_def blk_def)
  then show "(\<Sum>p\<in>dom (payload s). the (payload s p) + 16) = (\<Sum>a\<in>dom (alloc_of s). the (alloc_of s a))"
    unfolding d by (subst sum.reindex) (auto simp: inj_on_def)
qed

section \<open>Properties\<close>

text \<open>A kernel that has just called \<open>initMemoryManager\<close>, with the heap where \<open>kernel.c\<close> puts it.\<close>

definition boot_mm :: mm_state where
  "boot_mm = initMemoryManager 0x600000
     \<lparr>ucHeap = 0, xStart = 0x110000, blocks = Map.empty, pxEnd = NULL, xFreeBytesRemaining = 0,
      xMinimumEverFreeBytesRemaining = 0, xNumberOfSuccessfulAllocations = 0,
      xNumberOfSuccessfulFrees = 0, xBlockAllocatedBit = 0\<rparr>"

lemma boot_fresh: "mm_fresh boot_mm"
  by (simp add: boot_mm_def mm_fresh_def initMemoryManager_def)

text \<open>The first request succeeds on the boot heap, which serves as a concrete state in the witnesses below.\<close>

lemma boot_first_malloc:
  obtains s k where "pvPortMalloc 100 boot_mm = Some (0x600010, s)" "mm_ok s" "100 \<le> k"
    "payload s = [0x600010 \<mapsto> k]" "pxEnd s \<noteq> NULL"
proof -
  have b: "heapBase boot_mm = 0x600000" "pxEnd (prvHeapInit boot_mm) = 0x205FFFF0"
    using prvHeapInit_inv(3) [OF boot_fresh]
    by (simp_all add: heapBase_def boot_mm_def initMemoryManager_def configTOTAL_HEAP_SIZE_def)
  have inv: "heap_inv (prvHeapInit boot_mm) ([] @ (0x600000, 0x1FFFFFF0) # [])"
    using prvHeapInit_inv(1) [OF boot_fresh] by (simp add: b)
  have "adjustWantedSize 100 \<le> 0x1FFFFFF0" using adjustWantedSize_pos(3) [of 100] by simp
  from pvPortMalloc_take [OF inv _ _ _ this] obtain s sz fl where
    s: "pvPortMalloc 100 boot_mm = Some (0x600010, s)" "heap_inv s fl"
       "alloc_of s = (alloc_of (prvHeapInit boot_mm))(0x600000 \<mapsto> sz)" "adjustWantedSize 100 \<le> sz"
    by (auto simp: pvPortMalloc_fresh [OF boot_fresh])
  have "payload s = [0x600010 \<mapsto> sz - 16]"
    using s(3) prvHeapInit_inv(2) [OF boot_fresh] by (auto simp: payload_def fun_eq_iff)
  moreover have "100 \<le> sz - 16" using s(4) adjustWantedSize_pos(2) [of 100] by simp
  ultimately show ?thesis using s heap_inv_pos by (intro that [of s "sz - 16"]) (auto simp: mm_ok_def heap_ok_def)
qed

text \<open>C4: \<open>pvPortMalloc\<close> always returns and keeps the memory manager consistent. It returns
  \<open>NULL\<close> and leaves the live blocks alone, or it returns a new pointer to at least the requested
  number of bytes, none of which belongs to a live block.\<close>

theorem malloc_safe:
  assumes "mm_ok s" and "n < 2 ^ 64"
  shows "\<exists>p s'. pvPortMalloc n s = Some (p, s') \<and> mm_ok s' \<and>
    (p = NULL \<and> payload s' = payload s \<or>
     p \<noteq> NULL \<and> (\<exists>k \<ge> n. payload s' = (payload s)(p \<mapsto> k)) \<and>
     (\<forall>q j. payload s q = Some j \<longrightarrow> p + n \<le> q \<or> q + j \<le> p))"
proof (rule frt4.mallocE [OF assms])
  fix p s' k
  assume p: "pvPortMalloc n s = Some (p, s')" "mm_ok s'" "p \<noteq> NULL" "payload s p = None" "n \<le> k"
    "payload s' = (payload s)(p \<mapsto> k)"
  have "p + n \<le> q \<or> q + j \<le> p" if "payload s q = Some j" for q j
    using frt4.live_apart [OF p(2), of p k q j] p that by force
  with p show ?thesis by auto
qed auto

theorem malloc_safe_witness:
  "\<exists>p s'. pvPortMalloc 4096 boot_mm = Some (p, s') \<and> mm_ok s'"
  using malloc_safe [of boot_mm 4096] boot_fresh by (auto simp: mm_ok_def)

text \<open>C7: allocation is first fit. On a started heap with the free list \<open>fl\<close>, a request
  takes the first free block that holds the rounded size, wherever it is in the list, and it
  returns \<open>NULL\<close> exactly when no free block is large enough.\<close>

theorem malloc_first_fit:
  assumes "heap_inv s fl" and "0 < n" "n < 2 ^ 63"
  shows "\<exists>s'. pvPortMalloc n s =
    Some (case find (\<lambda>(a, k). adjustWantedSize n \<le> k) fl of None \<Rightarrow> NULL | Some (a, k) \<Rightarrow> a + 16, s')"
proof (cases "find (\<lambda>(a, k). adjustWantedSize n \<le> k) fl")
  case None
  then have "\<And>b k. (b, k) \<in> set fl \<Longrightarrow> k < adjustWantedSize n" by (fastforce simp: find_None_iff not_le)
  with pvPortMalloc_none [OF assms(1,2), of] assms None show ?thesis by simp
next
  case (Some x)
  obtain a k where x: "x = (a, k)" by (cases x)
  from Some obtain i where i: "i < length fl" "adjustWantedSize n \<le> k" "fl ! i = (a, k)"
    "\<And>j. j < i \<Longrightarrow> \<not> adjustWantedSize n \<le> snd (fl ! j)"
    unfolding find_Some_iff x by (auto simp: case_prod_beta) (metis snd_conv)
  have fl: "fl = take i fl @ (a, k) # drop (Suc i) fl" using id_take_nth_drop [OF i(1)] i(3) by simp
  have "\<And>b m. (b, m) \<in> set (take i fl) \<Longrightarrow> m < adjustWantedSize n"
    using i(1,4) by (fastforce simp: in_set_conv_nth not_le)
  with pvPortMalloc_take [of s "take i fl" a k "drop (Suc i) fl" n] assms i(2) fl Some x show ?thesis by auto
qed

theorem malloc_first_fit_witness:
  "\<exists>s'. pvPortMalloc 100 (prvHeapInit boot_mm) = Some (0x600010, s')"
proof -
  have b: "heapBase boot_mm = 0x600000" "pxEnd (prvHeapInit boot_mm) = 0x205FFFF0"
    using prvHeapInit_inv(3) [OF boot_fresh]
    by (simp_all add: heapBase_def boot_mm_def initMemoryManager_def configTOTAL_HEAP_SIZE_def)
  have "adjustWantedSize 100 \<le> 0x1FFFFFF0" using adjustWantedSize_pos(3) [of 100] by simp
  with malloc_first_fit [OF prvHeapInit_inv(1) [OF boot_fresh], of 100] show ?thesis by (simp add: b)
qed

text \<open>C5: releasing a live pointer with \<open>vPortFree\<close> returns, keeps the manager consistent,
  removes exactly that block, gives its bytes and its header back to the free count, counts one
  free, and a second release of the same pointer right after changes nothing.\<close>

theorem free_releases:
  assumes "mm_ok s" and "payload s p = Some k"
  shows "\<exists>s'. vPortFree p s = Some s' \<and> mm_ok s' \<and> payload s' = (payload s)(p := None) \<and>
    xPortGetFreeHeapSize s' = xPortGetFreeHeapSize s + k + 16 \<and>
    xNumberOfSuccessfulFrees s' = (xNumberOfSuccessfulFrees s + 1) mod 2 ^ 64 \<and>
    vPortFree p s' = Some s'"
proof -
  obtain fl where inv: "heap_inv s fl" using assms payload_fresh by (auto simp: mm_ok_def heap_ok_def)
  obtain a n where a: "p = a + 16" "alloc_of s a = Some n" "k = n - 16" using payload_Some [OF assms(2)] by blast
  have "16 < n" using layout_al_blk [OF heap_inv_layout [OF inv] a(2)] by (simp add: blk_def)
  with vPortFree_live [OF inv a(2)] a payload_upd(2) show ?thesis
    by (auto simp: mm_ok_def heap_ok_def xPortGetFreeHeapSize_def add64_def)
qed

theorem free_releases_witness:
  "\<exists>s s'. pvPortMalloc 100 boot_mm = Some (0x600010, s) \<and> vPortFree 0x600010 s = Some s' \<and>
     payload s' = Map.empty"
proof (rule boot_first_malloc)
  fix s k
  assume s: "pvPortMalloc 100 boot_mm = Some (0x600010, s)" "mm_ok s" "payload s = [0x600010 \<mapsto> k]"
  with free_releases [of s "0x600010" k] show ?thesis by auto
qed

text \<open>C6: over any history of requests and releases from boot, the free byte count and the live
  blocks with their 16-byte headers add up to the whole heap: nothing leaks and nothing is
  counted twice.\<close>

theorem heap_accounting:
  assumes "mm_fresh s0" and "mm_step\<^sup>*\<^sup>* s0 s" and "pxEnd s \<noteq> NULL"
  shows "xPortGetFreeHeapSize s + (\<Sum>p\<in>dom (payload s). the (payload s p) + 16) = pxEnd s - heapBase s"
proof -
  have "mm_ok s0" using assms(1) by (simp add: mm_ok_def)
  then obtain fl where inv: "heap_inv s fl"
    using mm_ok_started [OF mm_reach_ok [OF assms(2)] assms(3)] by blast
  show ?thesis
    using layout_sum [OF heap_inv_layout [OF inv]] payload_dom(2) [OF inv] heap_inv_free [OF inv]
    by (simp add: xPortGetFreeHeapSize_def)
qed

theorem heap_accounting_witness:
  "\<exists>s k. pvPortMalloc 100 boot_mm = Some (0x600010, s) \<and>
     xPortGetFreeHeapSize s + (k + 16) = pxEnd s - heapBase s"
proof (rule boot_first_malloc)
  fix s k
  assume s: "pvPortMalloc 100 boot_mm = Some (0x600010, s)" "payload s = [0x600010 \<mapsto> k]" "pxEnd s \<noteq> NULL"
  have "mm_step boot_mm s" by (rule step_malloc [OF _ s(1)]) simp
  with heap_accounting [OF boot_fresh, of s] s show ?thesis by auto
qed

text \<open>the statistics of a started heap with a non-empty free list: the number of free blocks,
  the largest and the smallest of them, and the counters.\<close>

theorem heap_stats:
  assumes "heap_inv s fl" and "fl \<noteq> []"
  shows "\<exists>st. vPortGetHeapStats s = Some st \<and> xNumberOfFreeBlocks st = length fl \<and>
    xAvailableHeapSpaceInBytes st = sum_list (map snd fl) \<and>
    xSizeOfLargestFreeBlockInBytes st = foldl max 0 (map snd fl) \<and>
    xSizeOfSmallestFreeBlockInBytes st = foldl min configTOTAL_HEAP_SIZE (map snd fl)"
proof -
  have e: "pxEnd s \<notin> addrs fl" using heap_inv_bounds(4) [OF assms(1)] by (fastforce simp: addrs_def)
  have "next_of fl (pxEnd s) \<noteq> NULL"
    using heap_inv_start(3) [OF assms(1)] assms(2) by (cases fl) (auto simp: next_of_def)
  moreover have "statsLoop (blocks s) (pxEnd s) (next_of fl (pxEnd s)) 0 0 configTOTAL_HEAP_SIZE =
      Some (length fl, foldl max 0 (map snd fl), foldl min configTOTAL_HEAP_SIZE (map snd fl))"
    using statsLoop_list [OF heap_inv_start(2) [OF assms(1)] assms(2) e, of 0] free_list_short [OF assms(1)] by simp
  ultimately show ?thesis
    using heap_inv_start(1) [OF assms(1)] heap_inv_free [OF assms(1)] by (simp add: vPortGetHeapStats_def)
qed

theorem heap_stats_witness:
  "\<exists>st. vPortGetHeapStats (prvHeapInit boot_mm) = Some st \<and> xNumberOfFreeBlocks st = 1"
  using heap_stats [OF prvHeapInit_inv(1) [OF boot_fresh]] by auto

text \<open>on a full heap \<open>vPortGetHeapStats\<close> does not return: its \<open>do ... while\<close> loop starts at
  the end marker itself and follows the marker's \<open>NULL\<close> link to address 0, where no block is.\<close>

theorem heap_stats_full:
  assumes "heap_inv s []" and "blocks s NULL = None"
  shows "vPortGetHeapStats s = None"
  using heap_inv_start(1) [OF assms(1)] heap_inv_last [OF assms(1)] heap_inv_pos [OF assms(1)] assms(2)
  by (simp add: vPortGetHeapStats_def next_of_def statsLoop.simps)

text \<open>A heap of 32 bytes with one allocated block and no free one.\<close>

definition full_mm :: mm_state where
  "full_mm = \<lparr>ucHeap = 0x600000, xStart = 0x110000,
     blocks = [0x110000 \<mapsto> \<lparr>pxNextFreeBlock = 0x600020, xBlockSize = 0\<rparr>,
               0x600000 \<mapsto> \<lparr>pxNextFreeBlock = NULL, xBlockSize = 32 OR top_bit\<rparr>,
               0x600020 \<mapsto> \<lparr>pxNextFreeBlock = NULL, xBlockSize = 0\<rparr>],
     pxEnd = 0x600020, xFreeBytesRemaining = 0, xMinimumEverFreeBytesRemaining = 0,
     xNumberOfSuccessfulAllocations = 1, xNumberOfSuccessfulFrees = 0, xBlockAllocatedBit = top_bit\<rparr>"

lemma full_mm_alloc: "alloc_of full_mm = [0x600000 \<mapsto> 32]"
proof
  fix x
  show "alloc_of full_mm x = [0x600000 \<mapsto> 32] x"
    using bit63_used [of 32] bit63_clear [of 32] by (simp add: alloc_of_def alloc_in_def full_mm_def)
qed

lemma full_mm_inv: "heap_inv full_mm []"
  using full_mm_alloc unfolding heap_inv_def layout_def blk_def
  by (auto simp: full_mm_def heapBase_def split: if_splits)

theorem heap_stats_full_witness: "vPortGetHeapStats full_mm = None"
  by (rule heap_stats_full [OF full_mm_inv]) (simp add: full_mm_def)

end
