(* ===== verification/Time.thy ===== *)
theory Time
  imports Bottler_Prelude
begin

text \<open>
  The timer and the real-time clock, \<open>src/Kernel/drivers/time.c\<close> and the clock access of
  \<open>src/Kernel/asm/libasm.asm\<close>. The clock chip is hardware: \<open>rtc i r\<close> is the byte that the
  \<open>i\<close>-th access reads from register \<open>r\<close>, for an arbitrary sequence of readings.
\<close>

section \<open>State and operations\<close>

record time_state =
  ticks :: u64
  rtc :: "nat \<Rightarrow> int \<Rightarrow> u8"
  rtc_reads :: nat

abbreviation (input) SECONDS :: int where "SECONDS \<equiv> 0"
abbreviation (input) MINUTES :: int where "MINUTES \<equiv> 2"
abbreviation (input) HOURS :: int where "HOURS \<equiv> 4"
abbreviation (input) DAY :: int where "DAY \<equiv> 7"
abbreviation (input) MONTH :: int where "MONTH \<equiv> 8"
abbreviation (input) YEAR :: int where "YEAR \<equiv> 9"

definition timer_handler :: "time_state \<Rightarrow> time_state" where
  "timer_handler t = t\<lparr>ticks := ticks t + 1\<rparr>"

definition ticks_elapsed :: "time_state \<Rightarrow> int" where
  "ticks_elapsed t = s32 (uint (ticks t))"

definition seconds_elapsed :: "time_state \<Rightarrow> int" where
  "seconds_elapsed t = s32 (uint (ticks t div 18))"

definition bcdToDecimal :: "u8 \<Rightarrow> int" where
  "bcdToDecimal b = uint (drop_bit 4 b * 10 + (b AND 15))"

definition getTimeGen :: "int \<Rightarrow> time_state \<Rightarrow> int \<times> time_state" where
  "getTimeGen option t = (bcdToDecimal (rtc t (rtc_reads t) option), t\<lparr>rtc_reads := rtc_reads t + 1\<rparr>)"

definition getTime :: "int \<Rightarrow> time_state \<Rightarrow> int \<times> time_state" where
  "getTime option t =
     (if option = SECONDS then getTimeGen SECONDS t
      else if option = MINUTES then getTimeGen MINUTES t
      else if option = HOURS then getTimeGen HOURS t
      else if option = DAY then getTimeGen DAY t
      else if option = MONTH then getTimeGen MONTH t
      else if option = YEAR then getTimeGen YEAR t
      else (- 1, t))"

definition getTimeFrom2000 :: int where
  "getTimeFrom2000 = 0 * 31557600 + 1 * 2629800 + 1 * 86400"

text \<open>The products are computed in \<open>int\<close> and only then widened to \<open>long\<close>.\<close>

definition getTimeOfDay :: "time_state \<Rightarrow> int \<times> time_state" where
  "getTimeOfDay t =
     (let (y, t) = getTimeGen YEAR t; years = s32 (y * 31557600);
          (mo, t) = getTimeGen MONTH t; months = s32 (mo * 2629800);
          (d, t) = getTimeGen DAY t; days = s32 (d * 86400);
          (h, t) = getTimeGen HOURS t; hours = s32 (h * 3600);
          (mi, t) = getTimeGen MINUTES t; minutes = s32 (mi * 60);
          (seconds, t) = getTimeGen SECONDS t
      in (years + months + days + hours + minutes + seconds - getTimeFrom2000, t))"

section \<open>Clock readings\<close>

text \<open>The byte a clock in BCD mode holds for a number below 100.\<close>

definition bcd :: "nat \<Rightarrow> u8" where
  "bcd n = of_nat (16 * (n div 10) + n mod 10)"

lemma bcdToDecimal_bcd:
  assumes "n < 100" shows "bcdToDecimal (bcd n) = int n"
proof -
  have "\<forall>n \<in> set [0..<100]. bcdToDecimal (bcd n) = int n" by code_simp
  with assms show ?thesis by simp
qed

text \<open>A clock that shows one date and time during the six accesses of a call.\<close>

definition shows_time :: "time_state \<Rightarrow> nat \<Rightarrow> nat \<Rightarrow> nat \<Rightarrow> nat \<Rightarrow> nat \<Rightarrow> nat \<Rightarrow> bool" where
  "shows_time t y mo d h mi sec \<longleftrightarrow>
     y < 100 \<and> mo < 100 \<and> d < 100 \<and> h < 100 \<and> mi < 100 \<and> sec < 100 \<and>
     rtc t (rtc_reads t) YEAR = bcd y \<and> rtc t (rtc_reads t + 1) MONTH = bcd mo \<and>
     rtc t (rtc_reads t + 2) DAY = bcd d \<and> rtc t (rtc_reads t + 3) HOURS = bcd h \<and>
     rtc t (rtc_reads t + 4) MINUTES = bcd mi \<and> rtc t (rtc_reads t + 5) SECONDS = bcd sec"

lemma getTimeOfDay_shown:
  assumes "shows_time t y mo d h mi sec" "y < 69"
  shows "fst (getTimeOfDay t) = int y * 31557600 + int mo * 2629800 + int d * 86400 +
     int h * 3600 + int mi * 60 + int sec - getTimeFrom2000"
    and "snd (getTimeOfDay t) = t\<lparr>rtc_reads := rtc_reads t + 6\<rparr>"
proof -
  have s: "rtc t (rtc_reads t + 2) DAY = bcd d" "rtc t (rtc_reads t + 3) HOURS = bcd h"
    "rtc t (rtc_reads t + 4) MINUTES = bcd mi" "rtc t (rtc_reads t + 5) SECONDS = bcd sec"
    "rtc t (rtc_reads t) YEAR = bcd y" "rtc t (rtc_reads t + 1) MONTH = bcd mo"
    "mo < 100" "d < 100" "h < 100" "mi < 100" "sec < 100"
    using assms(1) by (auto simp: shows_time_def)
  then show "fst (getTimeOfDay t) = int y * 31557600 + int mo * 2629800 + int d * 86400 +
     int h * 3600 + int mi * 60 + int sec - getTimeFrom2000"
    using assms(2) by (simp add: getTimeOfDay_def getTimeGen_def Let_def bcdToDecimal_bcd numeral_eq_Suc)
  show "snd (getTimeOfDay t) = t\<lparr>rtc_reads := rtc_reads t + 6\<rparr>"
    by (simp add: getTimeOfDay_def getTimeGen_def Let_def)
qed

section \<open>Properties\<close>

text \<open>within one day the clock value that \<open>sleep\<close> and \<open>checkSleeping\<close> compare advances by
  exactly the seconds that pass, up to the year 2068 (a year from 69 on overflows the \<open>int\<close>
  product).\<close>

theorem getTimeOfDay_same_day:
  assumes "shows_time t y mo d h mi sec" "shows_time t' y mo d h' mi' sec'" "y < 69"
  shows "fst (getTimeOfDay t') - fst (getTimeOfDay t) =
    (int h' * 3600 + int mi' * 60 + int sec') - (int h * 3600 + int mi * 60 + int sec)"
  using getTimeOfDay_shown(1) [OF assms(1,3)] getTimeOfDay_shown(1) [OF assms(2,3)] by simp

text \<open>A clock that shows the same registers at every access.\<close>

definition clock_at :: "nat \<Rightarrow> nat \<Rightarrow> nat \<Rightarrow> nat \<Rightarrow> nat \<Rightarrow> nat \<Rightarrow> time_state" where
  "clock_at y mo d h mi sec = \<lparr>ticks = 0,
     rtc = (\<lambda>i r. if r = YEAR then bcd y else if r = MONTH then bcd mo else if r = DAY then bcd d
                  else if r = HOURS then bcd h else if r = MINUTES then bcd mi else bcd sec),
     rtc_reads = 0\<rparr>"

theorem getTimeOfDay_same_day_witness:
  "fst (getTimeOfDay (clock_at 21 6 28 10 1 5)) - fst (getTimeOfDay (clock_at 21 6 28 10 0 58)) = 7"
  using getTimeOfDay_same_day [of "clock_at 21 6 28 10 0 58" 21 6 28 10 0 58 "clock_at 21 6 28 10 1 5" 10 1 5]
  by (simp add: shows_time_def clock_at_def)

text \<open>at the end of a month of 31 days the clock value goes backwards: a month counts for
  2629800 seconds, less than its 31 days, so one second after the last second of the month the
  value is 48599 lower, and a process that sleeps across it stays asleep 13.5 hours longer.\<close>

theorem getTimeOfDay_month_end:
  assumes "shows_time t y mo 31 23 59 59" "shows_time t' y (Suc mo) 1 0 0 0" "y < 69"
  shows "fst (getTimeOfDay t') = fst (getTimeOfDay t) - 48599"
  using getTimeOfDay_shown(1) [OF assms(1,3)] getTimeOfDay_shown(1) [OF assms(2,3)] by simp

theorem getTimeOfDay_month_end_witness:
  "fst (getTimeOfDay (clock_at 21 6 1 0 0 0)) < fst (getTimeOfDay (clock_at 21 5 31 23 59 59))"
  using getTimeOfDay_month_end [of "clock_at 21 5 31 23 59 59" 21 5 "clock_at 21 6 1 0 0 0"]
  by (simp add: shows_time_def clock_at_def)

end
