(* ===== verification/Scheduler.thy ===== *)
theory Scheduler
  imports MemFRT4_Ops Time
begin

text \<open>
  The scheduler, \<open>src/Kernel/utils/scheduler.c\<close>: definitions. \<open>processCDT\<close> and
  \<open>sleepCDT\<close> objects live in the typed heaps \<open>procs\<close> and \<open>sleeps\<close>, file descriptor
  pairs in \<open>fds\<close>, strings in the byte memory \<open>ram\<close>, and all of them are obtained from the
  memory manager \<open>mm\<close>. An object leaves its heap when it is freed, so that a use after free
  is the outcome \<open>None\<close>.

  Address 0 is mapped on this machine (the interrupt descriptor table is there) and the code
  does read through \<open>NULL\<close> pointers in a few places. The entry of a typed heap at \<open>NULL\<close>
  is what such a read finds; a write through \<open>NULL\<close> is the outcome \<open>None\<close>.

  \<open>cpu_rsp\<close> is the stack pointer at which the running process is interrupted, and
  \<open>forceTimer\<close> is the timer interrupt: the state after it is the state in which the chosen
  process runs. The value that follows a call of \<open>forceTimer\<close> is what the caller gets once
  it is scheduled again.
\<close>

section \<open>State\<close>

datatype states = READY | DEAD | BLOCKED | WAITING | BLOCKEDIO

record processCDT =
  next_p :: addr
  name :: addr
  pid :: int
  ppid :: int
  rsp :: addr
  rbp :: addr
  priority :: int
  executions :: int
  foreground :: int
  state :: states
  fd :: addr
  children :: int
  backWait :: int
  bPointer :: addr

record sleepCDT =
  sleep_pid :: int
  sleep_time :: int
  secs :: int
  next_s :: addr

text \<open>The frame that \<open>_initialize_stack_frame\<close> builds: where the process starts and its arguments.\<close>

record stack_frame =
  frame_ip :: addr
  frame_argc :: int
  frame_argv :: addr

record sched_state =
  mm :: mm_state
  ram :: mem
  tm :: time_state
  procs :: "addr \<rightharpoonup> processCDT"
  sleeps :: "addr \<rightharpoonup> sleepCDT"
  fds :: "addr \<rightharpoonup> int \<times> int"
  frames :: "addr \<rightharpoonup> stack_frame"
  firstBlockedIteration :: addr
  firstProcess :: addr
  lastProcess :: addr
  firstSleep :: addr
  currentProcess :: addr
  pids :: int
  update :: int
  idleFlag :: int
  cpu_rsp :: addr

abbreviation (input) MAX_PRIORITY :: int where "MAX_PRIORITY \<equiv> 40"
abbreviation (input) DEF_PRIORITY :: int where "DEF_PRIORITY \<equiv> 0"
abbreviation (input) IDLE_PID :: int where "IDLE_PID \<equiv> 1"
abbreviation (input) STACK_SIZE :: nat where "STACK_SIZE \<equiv> 1024 * 512"
abbreviation (input) MAX_NAME_SIZE :: nat where "MAX_NAME_SIZE \<equiv> 10"
abbreviation (input) MAX_ATTR_SIZE :: int where "MAX_ATTR_SIZE \<equiv> 6"
abbreviation (input) PROCESS_DATA_MAX_SIZE :: int where "PROCESS_DATA_MAX_SIZE \<equiv> 300"

text \<open>Writing a field of the process (the sleep entry) at an address.\<close>

definition modP :: "addr \<Rightarrow> (processCDT \<Rightarrow> processCDT) \<Rightarrow> sched_state \<Rightarrow> sched_state option" where
  "modP a f s =
     (if a = NULL then None
      else do { p \<leftarrow> procs s a; Some (s\<lparr>procs := (procs s)(a \<mapsto> f p)\<rparr>) })"

definition modSl :: "addr \<Rightarrow> (sleepCDT \<Rightarrow> sleepCDT) \<Rightarrow> sched_state \<Rightarrow> sched_state option" where
  "modSl a f s =
     (if a = NULL then None
      else do { p \<leftarrow> sleeps s a; Some (s\<lparr>sleeps := (sleeps s)(a \<mapsto> f p)\<rparr>) })"

definition malloc_s :: "nat \<Rightarrow> sched_state \<Rightarrow> (addr \<times> sched_state) option" where
  "malloc_s n s = do { (p, m) \<leftarrow> pvPortMalloc n (mm s); Some (p, s\<lparr>mm := m\<rparr>) }"

definition free_s :: "addr \<Rightarrow> sched_state \<Rightarrow> sched_state option" where
  "free_s p s = do { m \<leftarrow> vPortFree p (mm s); Some (s\<lparr>mm := m\<rparr>) }"

section \<open>The process list\<close>

text \<open>The loop of \<open>searchProcess\<close>; the result is the process and the one before it.\<close>

partial_function (option) searchLoop ::
    "(addr \<rightharpoonup> processCDT) \<Rightarrow> int \<Rightarrow> addr \<Rightarrow> addr \<Rightarrow> (addr \<times> addr) option" where
  "searchLoop ps pd previous cur =
     (if cur = NULL then Some (NULL, NULL)
      else do {
        p \<leftarrow> ps cur;
        if pid p = pd then Some (cur, previous) else searchLoop ps pd cur (next_p p)
      })"

definition searchProcess :: "int \<Rightarrow> addr \<Rightarrow> sched_state \<Rightarrow> (addr \<times> addr) option" where
  "searchProcess pd first s = searchLoop (procs s) pd NULL first"

definition removeProcess :: "addr \<Rightarrow> sched_state \<Rightarrow> sched_state option" where
  "removeProcess del s =
     do {
       d \<leftarrow> procs s del;
       (del, prev) \<leftarrow> searchProcess (pid d) (firstProcess s) s;
       d \<leftarrow> procs s del;
       if prev = NULL
       then Some (s\<lparr>firstProcess := next_p d,
                    lastProcess := (if lastProcess s = del then NULL else lastProcess s)\<rparr>)
       else do {
         s \<leftarrow> modP prev (next_p_update (\<lambda>_. next_p d)) s;
         Some (s\<lparr>lastProcess := (if lastProcess s = del then prev else lastProcess s)\<rparr>)
       }
     }"

text \<open>A foreground process that wakes up takes the foreground from its parent.\<close>

definition foreFromParent :: "addr \<Rightarrow> sched_state \<Rightarrow> sched_state option" where
  "foreFromParent parent s =
     do {
       q \<leftarrow> procs s parent;
       if foreground q \<noteq> 0 then modP parent (\<lambda>q. q\<lparr>backWait := 1, foreground := 0\<rparr>) s else Some s
     }"

definition unblock :: "int \<Rightarrow> sched_state \<Rightarrow> (int \<times> sched_state) option" where
  "unblock pd s =
     do {
       (del, _) \<leftarrow> searchProcess pd (firstProcess s) s;
       if del = NULL then Some (EXIT_FAILURE, s)
       else do {
         d \<leftarrow> procs s del;
         if state d = DEAD then Some (EXIT_FAILURE, s)
         else do {
           s \<leftarrow> modP del (state_update (\<lambda>_. READY)) s;
           (parent, _) \<leftarrow> searchProcess (ppid d) (firstProcess s) s;
           d \<leftarrow> procs s del;
           s \<leftarrow> (if foreground d \<noteq> 0 then foreFromParent parent s else Some s);
           Some (EXIT_SUCCESS, s)
         }
       }
     }"

text \<open>The parent of a foreground process takes the foreground back if it waits for it.\<close>

definition backToParent :: "addr \<Rightarrow> sched_state \<Rightarrow> sched_state option" where
  "backToParent parent s =
     do {
       q \<leftarrow> procs s parent;
       if backWait q \<noteq> 0 then modP parent (\<lambda>q. q\<lparr>backWait := 0, foreground := 1\<rparr>) s else Some s
     }"

text \<open>
  \<open>block\<close>, with the timer interrupt it ends with as an argument: \<open>nextProcess\<close> itself calls
  \<open>block\<close> on the idle process, and must not reach the interrupt there.
\<close>

definition blockWith :: "(sched_state \<Rightarrow> sched_state option) \<Rightarrow> int \<Rightarrow> sched_state \<Rightarrow> (int \<times> sched_state) option" where
  "blockWith ft pd s =
     do {
       (del, _) \<leftarrow> searchProcess pd (firstProcess s) s;
       if del = NULL then Some (EXIT_FAILURE, s)
       else do {
         d \<leftarrow> procs s del;
         if state d = DEAD then Some (EXIT_FAILURE, s)
         else do {
           s \<leftarrow> modP del (state_update (\<lambda>_. BLOCKED)) s;
           (parent, _) \<leftarrow> searchProcess (ppid d) (firstProcess s) s;
           d \<leftarrow> procs s del;
           s \<leftarrow> (if foreground d \<noteq> 0 then backToParent parent s else Some s);
           c \<leftarrow> procs s (currentProcess s);
           if pd = pid c
           then do {
             s \<leftarrow> modP (currentProcess s) (executions_update (\<lambda>_. 0)) s;
             s \<leftarrow> ft s;
             Some (EXIT_SUCCESS, s)
           }
           else Some (EXIT_SUCCESS, s)
         }
       }
     }"

text \<open>A point where the code must not be interrupted in the middle of its work.\<close>

definition no_switch :: "sched_state \<Rightarrow> sched_state option" where
  "no_switch s = None"

section \<open>Choosing the next process\<close>

text \<open>One iteration of the \<open>while\<close> loop of \<open>nextProcess\<close>.\<close>

definition nextStep :: "sched_state \<Rightarrow> sched_state option" where
  "nextStep s =
     (if currentProcess s = NULL then Some (s\<lparr>currentProcess := firstProcess s\<rparr>)
      else do {
        c \<leftarrow> procs s (currentProcess s);
        if currentProcess s = firstBlockedIteration s
        then do {
          (_, s) \<leftarrow> unblock IDLE_PID (s\<lparr>idleFlag := 1\<rparr>);
          c \<leftarrow> procs s (currentProcess s);
          Some (s\<lparr>currentProcess := next_p c\<rparr>)
        }
        else if state c = DEAD
        then do {
          let del = currentProcess s;
          s \<leftarrow> removeProcess del (s\<lparr>currentProcess := next_p c\<rparr>);
          s \<leftarrow> free_s del s;
          Some (s\<lparr>procs := (procs s)(del := None)\<rparr>)
        }
        else Some (s\<lparr>firstBlockedIteration :=
                       (if firstBlockedIteration s = NULL then currentProcess s else firstBlockedIteration s),
                     currentProcess := next_p c\<rparr>)
      })"

partial_function (option) nextLoop :: "sched_state \<Rightarrow> sched_state option" where
  "nextLoop s =
     (if currentProcess s = NULL then do { s \<leftarrow> nextStep s; nextLoop s }
      else do {
        c \<leftarrow> procs s (currentProcess s);
        if state c = READY then Some s else do { s \<leftarrow> nextStep s; nextLoop s }
      })"

text \<open>The code before the loop: save the stack pointer, and rotate when the quota is used up.\<close>

definition nextEnter :: "addr \<Rightarrow> sched_state \<Rightarrow> sched_state option" where
  "nextEnter currentRSP s =
     (if currentProcess s = NULL then Some s
      else do {
        s \<leftarrow> modP (currentProcess s) (rsp_update (\<lambda>_. currentRSP)) s;
        c \<leftarrow> procs s (currentProcess s);
        if state c = READY \<and> executions c = MAX_PRIORITY - priority c
        then do {
          s \<leftarrow> modP (currentProcess s) (executions_update (\<lambda>_. 0)) s;
          Some (s\<lparr>currentProcess := next_p c\<rparr>)
        }
        else Some s
      })"

definition nextProcess :: "addr \<Rightarrow> sched_state \<Rightarrow> (addr \<times> sched_state) option" where
  "nextProcess currentRSP s =
     do {
       s \<leftarrow> nextEnter currentRSP s;
       s \<leftarrow> nextLoop s;
       c \<leftarrow> procs s (currentProcess s);
       s \<leftarrow>
         (if pid c \<noteq> IDLE_PID \<and> idleFlag s \<noteq> 0
          then do { (_, s) \<leftarrow> blockWith no_switch IDLE_PID (s\<lparr>idleFlag := 0\<rparr>); Some s }
          else Some s);
       s \<leftarrow> modP (currentProcess s) (\<lambda>c. c\<lparr>executions := s8 (executions c + 1)\<rparr>)
         (s\<lparr>firstBlockedIteration := NULL\<rparr>);
       c \<leftarrow> procs s (currentProcess s);
       Some (rsp c, s)
     }"

section \<open>Sleeping processes and the timer interrupt\<close>

definition wakeUp :: "addr \<Rightarrow> addr \<Rightarrow> sched_state \<Rightarrow> sched_state option" where
  "wakeUp wake prev s =
     do {
       w \<leftarrow> sleeps s wake;
       s \<leftarrow>
         (if wake = firstSleep s then Some (s\<lparr>firstSleep := next_s w\<rparr>)
          else modSl prev (next_s_update (\<lambda>_. next_s w)) s);
       (_, s) \<leftarrow> unblock (sleep_pid w) s;
       s \<leftarrow> free_s wake s;
       Some (s\<lparr>sleeps := (sleeps s)(wake := None)\<rparr>)
     }"

partial_function (option) checkLoop :: "addr \<Rightarrow> addr \<Rightarrow> sched_state \<Rightarrow> sched_state option" where
  "checkLoop prev aux s =
     (if aux = NULL then Some s
      else do {
        let (now, t) = getTimeOfDay (tm s);
        let s = s\<lparr>tm := t\<rparr>;
        a \<leftarrow> sleeps s aux;
        if now \<ge> sleep_time a + secs a
        then do {
          s \<leftarrow> wakeUp aux prev s;
          p \<leftarrow> sleeps s prev;
          checkLoop prev (next_s p) s
        }
        else checkLoop aux (next_s a) s
      })"

definition checkSleeping :: "sched_state \<Rightarrow> sched_state option" where
  "checkSleeping s = checkLoop NULL (firstSleep s) s"

text \<open>\<open>_irq00Handler\<close>: \<open>int 20h\<close> enters it from \<open>forceTimer\<close>, the timer chip on every tick.\<close>

definition int_20 :: "sched_state \<Rightarrow> sched_state" where
  "int_20 s = s\<lparr>tm := timer_handler (tm s)\<rparr>"

definition forceTimer :: "sched_state \<Rightarrow> sched_state option" where
  "forceTimer s =
     do {
       s \<leftarrow> checkSleeping s;
       let s = int_20 s;
       (r, s) \<leftarrow> nextProcess (cpu_rsp s) s;
       Some (s\<lparr>cpu_rsp := r\<rparr>)
     }"

definition block :: "int \<Rightarrow> sched_state \<Rightarrow> (int \<times> sched_state) option" where
  "block = blockWith forceTimer"

definition sleep :: "int \<Rightarrow> sched_state \<Rightarrow> sched_state option" where
  "sleep sc s =
     (if currentProcess s = NULL then Some s
      else do {
        (proc, s) \<leftarrow> malloc_s 32 s;
        if proc = NULL then None
        else do {
          c \<leftarrow> procs s (currentProcess s);
          let (now, t) = getTimeOfDay (tm s);
          let s = s\<lparr>tm := t, sleeps := (sleeps s)(proc \<mapsto>
                     \<lparr>sleep_pid = pid c, sleep_time = now, secs = sc, next_s = firstSleep s\<rparr>),
                     firstSleep := proc\<rparr>;
          (_, s) \<leftarrow> block (pid c) s;
          Some s
        }
      })"

section \<open>Process states\<close>

partial_function (option) unblockIOLoop :: "addr \<Rightarrow> sched_state \<Rightarrow> sched_state option" where
  "unblockIOLoop aux s =
     (if aux = NULL then Some s
      else do {
        p \<leftarrow> procs s aux;
        s \<leftarrow> (if state p = BLOCKEDIO then modP aux (state_update (\<lambda>_. READY)) s else Some s);
        p \<leftarrow> procs s aux;
        unblockIOLoop (next_p p) s
      })"

definition unblockIO :: "sched_state \<Rightarrow> sched_state option" where
  "unblockIO s = unblockIOLoop (firstProcess s) s"

definition blockIO :: "sched_state \<Rightarrow> (int \<times> sched_state) option" where
  "blockIO s =
     (if currentProcess s = NULL then Some (EXIT_FAILURE, s)
      else do {
        c \<leftarrow> procs s (currentProcess s);
        if state c = DEAD then Some (EXIT_FAILURE, s)
        else do {
          s \<leftarrow> modP (currentProcess s) (\<lambda>c. c\<lparr>state := BLOCKEDIO, executions := 0\<rparr>) s;
          s \<leftarrow> forceTimer s;
          Some (EXIT_SUCCESS, s)
        }
      })"

text \<open>\<open>unblockFirst\<close> up to the timer interrupt; the result says whether it is reached.\<close>

definition unblockFirst_enter :: "int \<Rightarrow> sched_state \<Rightarrow> (bool \<times> sched_state) option" where
  "unblockFirst_enter pd s =
     do {
       (del, _) \<leftarrow> searchProcess pd (firstProcess s) s;
       if del = NULL then Some (False, s)
       else do {
         d \<leftarrow> procs s del;
         if state d = DEAD then Some (False, s)
         else do {
           s \<leftarrow> removeProcess del s;
           s \<leftarrow>
             (if currentProcess s \<noteq> NULL
              then do {
                s \<leftarrow> modP (currentProcess s) (\<lambda>c. c\<lparr>executions := s8 (MAX_PRIORITY - priority c)\<rparr>) s;
                c \<leftarrow> procs s (currentProcess s);
                s \<leftarrow> modP del (next_p_update (\<lambda>_. next_p c)) s;
                s \<leftarrow> modP (currentProcess s) (next_p_update (\<lambda>_. del)) s;
                Some (if currentProcess s = lastProcess s then s\<lparr>lastProcess := del\<rparr> else s)
              }
              else if firstProcess s = NULL
              then do {
                s \<leftarrow> modP del (next_p_update (\<lambda>_. NULL)) s;
                Some (s\<lparr>firstProcess := del, lastProcess := del\<rparr>)
              }
              else do {
                f \<leftarrow> procs s (firstProcess s);
                s \<leftarrow> modP del (next_p_update (\<lambda>_. next_p f)) s;
                Some (s\<lparr>firstProcess := del\<rparr>)
              });
           s \<leftarrow> modP del (state_update (\<lambda>_. READY)) s;
           d \<leftarrow> procs s del;
           (parent, _) \<leftarrow> searchProcess (ppid d) (firstProcess s) s;
           s \<leftarrow> (if foreground d \<noteq> 0 then foreFromParent parent s else Some s);
           Some (True, s)
         }
       }
     }"

definition unblockFirst :: "int \<Rightarrow> sched_state \<Rightarrow> (int \<times> sched_state) option" where
  "unblockFirst pd s =
     do {
       (found, s) \<leftarrow> unblockFirst_enter pd s;
       if found then do { s \<leftarrow> forceTimer s; Some (EXIT_SUCCESS, s) } else Some (EXIT_FAILURE, s)
     }"

text \<open>The parent of a killed process: one child less, ready again when it waited for the last one.\<close>

definition orphaned :: "int \<Rightarrow> processCDT \<Rightarrow> processCDT" where
  "orphaned fg q =
     (let q = q\<lparr>children := s32 (children q - 1)\<rparr>;
          q = (if children q = 0 \<and> state q = WAITING then q\<lparr>state := READY\<rparr> else q)
      in if backWait q \<noteq> 0 \<and> fg \<noteq> 0 then q\<lparr>backWait := 0, foreground := 1\<rparr> else q)"

text \<open>\<open>kill\<close> up to the timer interrupt; the result says whether the process was found.\<close>

definition kill_enter :: "int \<Rightarrow> sched_state \<Rightarrow> (bool \<times> sched_state) option" where
  "kill_enter pd s =
     do {
       (del, _) \<leftarrow> searchProcess pd (firstProcess s) s;
       if del = NULL then Some (False, s)
       else do {
         d \<leftarrow> procs s del;
         (parent, _) \<leftarrow> searchProcess (ppid d) (firstProcess s) s;
         s \<leftarrow>
           (if parent \<noteq> NULL
            then modP parent (orphaned (foreground d)) s
            else Some s);
         s \<leftarrow> free_s (fd d) s;
         s \<leftarrow> free_s (name d) s;
         s \<leftarrow> free_s (bPointer d) s;
         s \<leftarrow> modP del (state_update (\<lambda>_. DEAD)) (s\<lparr>fds := (fds s)(fd d := None)\<rparr>);
         Some (True, s)
       }
     }"

definition kill :: "int \<Rightarrow> sched_state \<Rightarrow> (int \<times> sched_state) option" where
  "kill pd s =
     do {
       (found, s) \<leftarrow> kill_enter pd s;
       if found
       then do {
         c \<leftarrow> procs s (currentProcess s);
         s \<leftarrow> (if pd = pid c then forceTimer s else Some s);
         Some (EXIT_SUCCESS, s)
       }
       else Some (EXIT_FAILURE, s)
     }"

definition exitProcess :: "sched_state \<Rightarrow> sched_state option" where
  "exitProcess s =
     do { c \<leftarrow> procs s (currentProcess s); (_, s) \<leftarrow> kill (pid c) s; Some s }"

definition nice :: "int \<Rightarrow> int \<Rightarrow> sched_state \<Rightarrow> (int \<times> sched_state) option" where
  "nice pd offset s =
     (if offset \<ge> 20 \<or> offset < - 20 then Some (EXIT_FAILURE, s)
      else do {
        (del, _) \<leftarrow> searchProcess pd (firstProcess s) s;
        if del = NULL then Some (EXIT_FAILURE, s)
        else do { s \<leftarrow> modP del (priority_update (\<lambda>_. s8 (offset + 20))) s; Some (EXIT_SUCCESS, s) }
      })"

definition wait :: "sched_state \<Rightarrow> sched_state option" where
  "wait s =
     (if currentProcess s = NULL then Some s
      else do {
        c \<leftarrow> procs s (currentProcess s);
        if children c \<noteq> 0
        then do { s \<leftarrow> modP (currentProcess s) (state_update (\<lambda>_. WAITING)) s; forceTimer s }
        else Some s
      })"

definition updateRSP :: "addr \<Rightarrow> sched_state \<Rightarrow> (int \<times> sched_state) option" where
  "updateRSP newRsp s =
     (if currentProcess s = NULL then Some (- 1, s)
      else do {
        s \<leftarrow> (if update s \<noteq> 0 then modP (currentProcess s) (rsp_update (\<lambda>_. newRsp)) s else Some s);
        Some (update s, s)
      })"

definition quitCPU :: "sched_state \<Rightarrow> (int \<times> sched_state) option" where
  "quitCPU s =
     (if currentProcess s = NULL then Some (EXIT_FAILURE, s)
      else do {
        c \<leftarrow> procs s (currentProcess s);
        if pid c = - 1 then Some (EXIT_FAILURE, s)
        else do {
          s \<leftarrow> modP (currentProcess s) (\<lambda>c. c\<lparr>executions := s8 (MAX_PRIORITY - priority c)\<rparr>) s;
          s \<leftarrow> forceTimer s;
          Some (EXIT_SUCCESS, s)
        }
      })"

section \<open>Queries\<close>

definition getPid :: "sched_state \<Rightarrow> int option" where
  "getPid s =
     (if currentProcess s = NULL then Some (- 1)
      else do { c \<leftarrow> procs s (currentProcess s); Some (pid c) })"

definition getFdOut :: "sched_state \<Rightarrow> int option" where
  "getFdOut s =
     (if currentProcess s = NULL then Some EXIT_FAILURE
      else do { c \<leftarrow> procs s (currentProcess s); (_, out) \<leftarrow> fds s (fd c); Some out })"

definition getFdIn :: "sched_state \<Rightarrow> int option" where
  "getFdIn s =
     (if currentProcess s = NULL then Some EXIT_FAILURE
      else do { c \<leftarrow> procs s (currentProcess s); (inp, _) \<leftarrow> fds s (fd c); Some inp })"

definition isForeground :: "sched_state \<Rightarrow> int option" where
  "isForeground s =
     (if currentProcess s = NULL then Some (- 1)
      else do { c \<leftarrow> procs s (currentProcess s); Some (foreground c) })"

definition state_code :: "states \<Rightarrow> int" where
  "state_code st = (case st of READY \<Rightarrow> 0 | DEAD \<Rightarrow> 1 | BLOCKED \<Rightarrow> 2 | WAITING \<Rightarrow> 3 | BLOCKEDIO \<Rightarrow> 4)"

definition getState :: "int \<Rightarrow> sched_state \<Rightarrow> int option" where
  "getState pd s =
     do {
       (aux, _) \<leftarrow> searchLoop (procs s) pd NULL (firstProcess s);
       if aux = NULL then Some (- 1) else do { p \<leftarrow> procs s aux; Some (state_code (state p)) }
     }"

section \<open>Creating processes\<close>

text \<open>A pointer in memory, eight bytes, least significant first.\<close>

definition rd64 :: "mem \<Rightarrow> addr \<Rightarrow> addr" where
  "rd64 m a = (\<Sum>i<8. unat (m (a + i)) * 256 ^ i)"

text \<open>The loop that copies \<open>argv[0]\<close> into the name buffer.\<close>

function copyName :: "addr \<Rightarrow> addr \<Rightarrow> nat \<Rightarrow> mem \<Rightarrow> nat \<times> mem" where
  "copyName arg aux j m =
     (if j < MAX_NAME_SIZE - 1 \<and> m (arg + j) \<noteq> 0
      then copyName arg aux (j + 1) (m(aux + j := m (arg + j)))
      else (j, m))"
  by pat_completeness auto
termination
  by (relation "measure (\<lambda>(_, _, j, _). MAX_NAME_SIZE - j)") auto

declare copyName.simps [simp del]

text \<open>The stack pointer below the five words, the fifteen registers and the two aligned FPU areas.\<close>

definition initialize_stack_frame :: "addr \<Rightarrow> addr" where
  "initialize_stack_frame rb =
     (let sp = rb - 5 * 8 - 15 * 8;
          sp = sp div 16 * 16 - 108;
          sp = sp div 16 * 16 - 512
      in sp - 8)"

text \<open>The new process: its structure, its stack, its name, and its place at the end of the list.\<close>

definition createProcess ::
    "addr \<Rightarrow> int \<Rightarrow> int \<Rightarrow> addr \<Rightarrow> addr \<Rightarrow> sched_state \<Rightarrow> (int \<times> sched_state) option" where
  "createProcess fn fg ac av fdp s =
     do {
       (process, s) \<leftarrow> malloc_s 72 s;
       (auxi, s) \<leftarrow> malloc_s STACK_SIZE s;
       let rb = auxi + 8 * STACK_SIZE;
       let prio = (if fg = 1 then DEF_PRIORITY else MAX_PRIORITY div 2);
       (aux, s) \<leftarrow> malloc_s 10 s;
       if aux = NULL \<or> process = NULL \<or> auxi = NULL then None
       else do {
         let (j, m) = copyName (rd64 (ram s) av) aux 0 (ram s);
         let s = s\<lparr>ram := m(aux + j := 0)\<rparr>;
         c \<leftarrow> procs s (currentProcess s);
         let sp = initialize_stack_frame rb;
         let s = s\<lparr>procs := (procs s)(process \<mapsto>
               \<lparr>next_p = NULL, name = aux, pid = pids s, ppid = pid c, rsp = sp, rbp = rb, priority = prio,
                executions = 0, foreground = fg, state = READY, fd = fdp, children = 0, backWait = 0,
                bPointer = auxi\<rparr>),
               pids := s32 (pids s + 1),
               frames := (frames s)(sp \<mapsto> \<lparr>frame_ip = fn, frame_argc = ac, frame_argv = av\<rparr>)\<rparr>;
         s \<leftarrow>
           (if firstProcess s = NULL then Some (s\<lparr>firstProcess := process\<rparr>)
            else modP (lastProcess s) (next_p_update (\<lambda>_. process)) s);
         p \<leftarrow> procs s process;
         Some (pid p, s\<lparr>lastProcess := process\<rparr>)
       }
     }"

text \<open>The running process has one more child, and gives the foreground to a foreground child.\<close>

definition adopt :: "int \<Rightarrow> processCDT \<Rightarrow> processCDT" where
  "adopt fg c =
     (let c = c\<lparr>children := s32 (children c + 1)\<rparr>
      in if foreground c \<noteq> 0 \<and> fg \<noteq> 0 then c\<lparr>foreground := 0, backWait := 1\<rparr> else c)"

definition enqueueProcess ::
    "addr \<Rightarrow> int \<Rightarrow> int \<Rightarrow> addr \<Rightarrow> addr \<Rightarrow> sched_state \<Rightarrow> (int \<times> sched_state) option" where
  "enqueueProcess fn fg ac av fdp s =
     do {
       (fdp, s) \<leftarrow>
         (if fdp = NULL
          then do {
            (aux, s) \<leftarrow> malloc_s 8 s;
            if aux = NULL then None else Some (aux, s\<lparr>fds := (fds s)(aux \<mapsto> (0, 1))\<rparr>)
          }
          else Some (fdp, s));
       s \<leftarrow> (if idleFlag s = 0 then do { (_, s) \<leftarrow> blockWith no_switch IDLE_PID s; Some s } else Some s);
       s \<leftarrow> (if currentProcess s \<noteq> NULL then modP (currentProcess s) (adopt fg) s else Some s);
       createProcess fn fg ac av fdp s
     }"

definition initScheduler :: "addr \<Rightarrow> addr \<Rightarrow> sched_state \<Rightarrow> sched_state option" where
  "initScheduler idle av s =
     do {
       (pd, s) \<leftarrow> enqueueProcess idle 0 1 av NULL s;
       (_, s) \<leftarrow> nice pd 19 s;
       Some s
     }"

end
