(* ===== verification/Scheduler_Inv.thy ===== *)
theory Scheduler_Inv
  imports Scheduler
begin

text \<open>
  The invariant of the scheduler: the process list, the sleep list and the memory their objects
  own, with the lemmas that say which updates keep it. The search loop is an interpretation of
  the linked-list search interface.
\<close>

section \<open>Searching\<close>

interpretation proc_search: linked_search
  "\<lambda>ps k a. map_option (\<lambda>p. pid p = k) (ps a)" "\<lambda>ps a. map_option next_p (ps a)" searchLoop
proof
  fix s :: "addr \<rightharpoonup> processCDT" and k prev cur
  show "searchLoop s k prev cur =
    (if cur = NULL then Some (NULL, NULL)
     else do {
       h \<leftarrow> map_option (\<lambda>p. pid p = k) (s cur);
       if h then Some (cur, prev)
       else do { n \<leftarrow> map_option next_p (s cur); searchLoop s k cur n }
     })"
    by (cases "s cur") (simp_all add: searchLoop.simps [of s k prev cur])
qed

section \<open>The invariant\<close>

abbreviation P :: "sched_state \<Rightarrow> addr \<Rightarrow> processCDT" where
  "P s a \<equiv> the (procs s a)"

abbreviation nxt :: "sched_state \<Rightarrow> addr \<rightharpoonup> addr" where
  "nxt s \<equiv> \<lambda>a. map_option next_p (procs s a)"

abbreviation nxt_sl :: "sched_state \<Rightarrow> addr \<rightharpoonup> addr" where
  "nxt_sl s \<equiv> \<lambda>a. map_option next_s (sleeps s a)"

text \<open>The process after (before) a position of the list, \<open>NULL\<close> at its end (start).\<close>

definition hd0 :: "addr list \<Rightarrow> addr" where
  "hd0 ps = (if ps = [] then NULL else hd ps)"

definition last0 :: "addr list \<Rightarrow> addr" where
  "last0 ps = (if ps = [] then NULL else last ps)"

lemma hd0_simps [simp]: "hd0 [] = NULL" "hd0 (a # as) = a"
  by (simp_all add: hd0_def)

lemma last0_simps [simp]: "last0 [] = NULL" "last0 [a] = a" "last0 (as @ b # bs) = last0 (b # bs)"
  by (simp_all add: last0_def)

definition pinv :: "int \<Rightarrow> processCDT \<Rightarrow> bool" where
  "pinv n p \<longleftrightarrow> 1 \<le> pid p \<and> pid p < n \<and> ppid p \<noteq> pid p \<and> 0 \<le> priority p \<and> priority p < 40 \<and>
     (pid p = IDLE_PID \<longrightarrow> state p \<noteq> DEAD \<and> foreground p = 0 \<and> backWait p = 0)"

definition owns :: "processCDT \<Rightarrow> addr list" where
  "owns p = (if state p = DEAD then [] else [name p, fd p, bPointer p])"

definition owned :: "sched_state \<Rightarrow> addr list \<Rightarrow> addr list \<Rightarrow> addr list" where
  "owned s ps ss = concat (map (\<lambda>a. a # owns (P s a)) ps) @ ss"

text \<open>The lists and their memory, and then also the idle process in its place.\<close>

definition list_inv :: "sched_state \<Rightarrow> addr list \<Rightarrow> addr list \<Rightarrow> bool" where
  "list_inv s ps ss \<longleftrightarrow>
     lpath (nxt s) (firstProcess s) ps NULL \<and> lastProcess s = last0 ps \<and>
     distinct (map (\<lambda>a. pid (P s a)) ps) \<and> (\<forall>a \<in> set ps. pinv (pids s) (P s a)) \<and>
     (\<exists>z. procs s NULL = Some z \<and> foreground z = 0 \<and> backWait z = 0) \<and>
     lpath (nxt_sl s) (firstSleep s) ss NULL \<and> (\<exists>z. sleeps s NULL = Some z \<and> next_s z = NULL) \<and>
     mm_ok (mm s) \<and> distinct (owned s ps ss) \<and> (\<forall>p \<in> set (owned s ps ss). payload (mm s) p \<noteq> None)"

definition base_inv :: "sched_state \<Rightarrow> addr list \<Rightarrow> addr list \<Rightarrow> bool" where
  "base_inv s ps ss \<longleftrightarrow> list_inv s ps ss \<and> (\<exists>i \<in> set ps. pid (P s i) = IDLE_PID)"

definition sched_inv :: "sched_state \<Rightarrow> addr list \<Rightarrow> addr list \<Rightarrow> bool" where
  "sched_inv s ps ss \<longleftrightarrow> base_inv s ps ss \<and> firstBlockedIteration s = NULL \<and>
     (currentProcess s = NULL \<or> currentProcess s \<in> set ps)"

lemma base_invD:
  assumes "base_inv s ps ss"
  shows base_path: "lpath (nxt s) (firstProcess s) ps NULL" and base_last: "lastProcess s = last0 ps"
    and base_pids: "distinct (map (\<lambda>a. pid (P s a)) ps)" and base_pinv: "\<And>a. a \<in> set ps \<Longrightarrow> pinv (pids s) (P s a)"
    and base_low: "\<exists>z. procs s NULL = Some z \<and> foreground z = 0 \<and> backWait z = 0"
    and base_sleeps: "lpath (nxt_sl s) (firstSleep s) ss NULL" "\<exists>z. sleeps s NULL = Some z \<and> next_s z = NULL"
    and base_mm: "mm_ok (mm s)" and base_owned: "distinct (owned s ps ss)"
    and base_live: "\<And>p. p \<in> set (owned s ps ss) \<Longrightarrow> payload (mm s) p \<noteq> None"
  using assms unfolding base_inv_def list_inv_def by blast+

lemma base_idleE:
  assumes "base_inv s ps ss"
  obtains i where "i \<in> set ps" "pid (P s i) = IDLE_PID"
  using assms unfolding base_inv_def list_inv_def by blast

lemma base_nonnull: "base_inv s ps ss \<Longrightarrow> NULL \<notin> set ps"
  using base_path lpath_nonnull by blast

lemma base_distinct: "base_inv s ps ss \<Longrightarrow> distinct ps"
  using base_path lpath_distinct by blast

lemma base_proc:
  assumes "base_inv s ps ss" "a \<in> set ps" shows "procs s a = Some (P s a)"
  using lpath_dom [OF base_path [OF assms(1)] assms(2)] by auto

lemma base_dom: "base_inv s ps ss \<Longrightarrow> a \<in> set ps \<Longrightarrow> \<exists>p. procs s a = Some p"
  using base_proc by blast

lemma lpath_hd0: "lpath n p ps NULL \<Longrightarrow> p = hd0 ps"
  by (cases ps) auto

lemma base_first: "base_inv s ps ss \<Longrightarrow> firstProcess s = hd0 ps"
  using base_path lpath_hd0 by blast

lemma base_next:
  assumes "base_inv s (xs @ a # ys) ss" shows "next_p (P s a) = hd0 ys"
  using base_path [OF assms] by (auto simp: lpath_append dest: lpath_hd0)

lemma pid_eq_iff:
  assumes "base_inv s ps ss" "a \<in> set ps" "b \<in> set ps"
  shows "pid (P s a) = pid (P s b) \<longleftrightarrow> a = b"
  using base_pids [OF assms(1)] assms(2,3) by (auto simp: distinct_map inj_on_def)

text \<open>What a search in the process list finds.\<close>

lemma search_found:
  assumes "base_inv s (xs @ a # ys) ss"
  shows "searchProcess (pid (P s a)) (firstProcess s) s = Some (a, last0 xs)"
proof -
  have "map_option (\<lambda>p. pid p = pid (P s a)) (procs s a) = Some True"
    using base_dom [OF assms, of a] by auto
  moreover have "map_option (\<lambda>p. pid p = pid (P s a)) (procs s b) = Some False" if "b \<in> set xs" for b
    using that base_dom [OF assms, of b] pid_eq_iff [OF assms, of b a] base_distinct [OF assms] by auto
  ultimately show ?thesis
    unfolding searchProcess_def using proc_search.loop_found [OF base_path [OF assms]]
    by (simp add: last0_def)
qed

lemma search_found':
  assumes "base_inv s ps ss" "a \<in> set ps" "pid (P s a) = k"
  obtains pr where "searchProcess k (firstProcess s) s = Some (a, pr)"
  using assms(2,3) search_found assms(1) by (metis split_list)

lemma search_absent:
  assumes "base_inv s ps ss" "\<And>a. a \<in> set ps \<Longrightarrow> pid (P s a) \<noteq> k"
  shows "searchProcess k (firstProcess s) s = Some (NULL, NULL)"
  unfolding searchProcess_def
  by (rule proc_search.loop_absent [OF base_path [OF assms(1)]])
    (use assms(2) base_proc [OF assms(1)] in auto)

lemma search_cases:
  assumes "base_inv s ps ss"
  obtains (absent) "\<And>a. a \<in> set ps \<Longrightarrow> pid (P s a) \<noteq> k" "searchProcess k (firstProcess s) s = Some (NULL, NULL)"
  | (found) xs a ys where "ps = xs @ a # ys" "pid (P s a) = k" "a \<noteq> NULL" "\<exists>p. procs s a = Some p"
      "searchProcess k (firstProcess s) s = Some (a, last0 xs)"
proof (cases "\<exists>a \<in> set ps. pid (P s a) = k")
  case True
  then obtain xs a ys where "ps = xs @ a # ys" "pid (P s a) = k" by (meson split_list)
  then show ?thesis
    using found search_found assms base_nonnull base_proc by (metis in_set_conv_decomp)
qed (use absent search_absent [OF assms] in blast)

section \<open>Updates that keep the invariant\<close>

text \<open>An update of a process that leaves its links, its identity and its memory alone.\<close>

definition mild :: "processCDT \<Rightarrow> processCDT \<Rightarrow> bool" where
  "mild p q \<longleftrightarrow> next_p q = next_p p \<and> pid q = pid p \<and> owns q = owns p \<and>
     (\<forall>n. pinv n p \<longrightarrow> pinv n q)"

lemma owned_cong: "(\<And>a. a \<in> set ps \<Longrightarrow> owns (P s a) = owns (P t a)) \<Longrightarrow> owned s ps ss = owned t ps ss"
  unfolding owned_def by (metis (no_types, lifting) map_cong)

lemma base_inv_mild:
  assumes b: "base_inv s ps ss"
    and m: "\<And>a. a \<in> set ps \<Longrightarrow> \<exists>q. procs t a = Some q \<and> mild (P s a) q"
    and low: "procs t NULL = procs s NULL"
    and eq: "firstProcess t = firstProcess s" "lastProcess t = lastProcess s" "pids t = pids s"
      "firstSleep t = firstSleep s" "sleeps t = sleeps s" "mm t = mm s"
  shows "base_inv t ps ss"
proof -
  have n: "nxt t a = nxt s a" if "a \<in> set ps" for a
    using m [OF that] base_dom [OF b that] by (auto simp: mild_def)
  have "lpath (nxt t) (firstProcess t) ps NULL"
    using base_path [OF b] n by (metis (no_types, lifting) eq(1) lpath_cong)
  moreover have pid: "\<And>a. a \<in> set ps \<Longrightarrow> pid (P t a) = pid (P s a)"
    using m by (fastforce simp: mild_def)
  have "map (\<lambda>a. pid (P t a)) ps = map (\<lambda>a. pid (P s a)) ps" using pid by (rule map_cong [OF refl])
  then have "distinct (map (\<lambda>a. pid (P t a)) ps)" using base_pids [OF b] by (simp only:)
  moreover have "owned t ps ss = owned s ps ss"
    by (rule owned_cong) (use m in \<open>fastforce simp: mild_def\<close>)
  moreover have "pinv (pids t) (P t a)" if "a \<in> set ps" for a
    using m [OF that] base_pinv [OF b that] eq(3) by (auto simp: mild_def)
  ultimately show ?thesis
    using b pid eq low unfolding base_inv_def list_inv_def by simp
qed

lemma mild_refl [simp]: "mild p p"
  by (simp add: mild_def)

lemma modP_ok:
  assumes b: "base_inv s ps ss" and a: "a \<in> set ps" and m: "mild (P s a) (f (P s a))"
  shows "modP a f s = Some (s\<lparr>procs := (procs s)(a \<mapsto> f (P s a))\<rparr>)"
    and "base_inv (s\<lparr>procs := (procs s)(a \<mapsto> f (P s a))\<rparr>) ps ss"
proof -
  have "a \<noteq> NULL" using base_nonnull [OF b] a by metis
  then show "modP a f s = Some (s\<lparr>procs := (procs s)(a \<mapsto> f (P s a))\<rparr>)"
    using base_dom [OF b a] by (auto simp: modP_def)
  show "base_inv (s\<lparr>procs := (procs s)(a \<mapsto> f (P s a))\<rparr>) ps ss"
    by (rule base_inv_mild [OF b]) (use m base_dom [OF b] \<open>a \<noteq> NULL\<close> in force)+
qed

lemma base_inv_vars [simp]:
  "base_inv (s\<lparr>currentProcess := c\<rparr>) ps ss = base_inv s ps ss"
  "base_inv (s\<lparr>firstBlockedIteration := c\<rparr>) ps ss = base_inv s ps ss"
  "base_inv (s\<lparr>idleFlag := i\<rparr>) ps ss = base_inv s ps ss"
  "base_inv (s\<lparr>cpu_rsp := r\<rparr>) ps ss = base_inv s ps ss"
  "base_inv (s\<lparr>tm := t\<rparr>) ps ss = base_inv s ps ss"
  "base_inv (s\<lparr>ram := m\<rparr>) ps ss = base_inv s ps ss"
  "base_inv (s\<lparr>fds := d\<rparr>) ps ss = base_inv s ps ss"
  "base_inv (s\<lparr>frames := f\<rparr>) ps ss = base_inv s ps ss"
  by (simp_all add: base_inv_def list_inv_def owned_def)

section \<open>Relinking the list\<close>

lemma distinct_concat_map:
  assumes "distinct ps"
  shows "distinct (concat (map f ps)) \<longleftrightarrow> (\<forall>a \<in> set ps. distinct (f a)) \<and>
    (\<forall>a \<in> set ps. \<forall>b \<in> set ps. a \<noteq> b \<longrightarrow> set (f a) \<inter> set (f b) = {})"
  using assms by (induction ps) (auto 4 4)

lemma distinct_owned:
  assumes "distinct ps"
  shows "distinct (owned s ps ss) \<longleftrightarrow> (\<forall>a \<in> set ps. distinct (a # owns (P s a))) \<and>
    (\<forall>a \<in> set ps. \<forall>b \<in> set ps. a \<noteq> b \<longrightarrow> set (a # owns (P s a)) \<inter> set (b # owns (P s b)) = {}) \<and>
    distinct ss \<and> (\<forall>a \<in> set ps. set (a # owns (P s a)) \<inter> set ss = {})"
  unfolding owned_def distinct_append distinct_concat_map [OF assms] by (auto 4 3)

lemma set_owned: "set (owned s ps ss) = (\<Union>a \<in> set ps. set (a # owns (P s a))) \<union> set ss"
  by (auto simp: owned_def)

text \<open>Two processes that differ in their links only.\<close>

definition core :: "processCDT \<Rightarrow> processCDT" where
  "core p = p\<lparr>next_p := NULL\<rparr>"

lemma core_eqD:
  assumes "core p = core q"
  shows "pid p = pid q" "ppid p = ppid q" "state p = state q" "owns p = owns q" "foreground p = foreground q"
    "backWait p = backWait q" "executions p = executions q" "priority p = priority q" "rsp p = rsp q"
    "children p = children q" "fd p = fd q" "name p = name q" "bPointer p = bPointer q" "rbp p = rbp q"
    "pinv n p = pinv n q"
  using assms by (cases p; cases q; simp add: core_def owns_def pinv_def)+

lemma base_inv_relink:
  assumes b: "base_inv s ps ss"
    and path: "lpath (nxt t) (firstProcess t) qs NULL" "lastProcess t = last0 qs"
    and sub: "set qs \<subseteq> set ps" "\<And>a. a \<in> set qs \<Longrightarrow> core (P t a) = core (P s a)"
    and idle: "\<exists>i \<in> set qs. pid (P s i) = IDLE_PID"
    and eq: "procs t NULL = procs s NULL" "pids t = pids s" "firstSleep t = firstSleep s" "sleeps t = sleeps s"
    and mm: "mm_ok (mm t)" "\<And>p. p \<in> set (owned s qs ss) \<Longrightarrow> payload (mm t) p \<noteq> None"
  shows "base_inv t qs ss"
proof -
  note c = core_eqD [OF sub(2)]
  have d: "distinct qs" using lpath_distinct [OF path(1)] .
  have own: "owned t qs ss = owned s qs ss" by (rule owned_cong) (rule c)
  have "inj_on (\<lambda>a. pid (P s a)) (set ps)" using base_pids [OF b] by (simp add: distinct_map)
  then have "inj_on (\<lambda>a. pid (P t a)) (set qs)"
    using sub(1) c(1) unfolding inj_on_def by (metis subsetD)
  with d have "distinct (map (\<lambda>a. pid (P t a)) qs)" by (simp add: distinct_map)
  moreover have "distinct (owned s qs ss)"
    using base_owned [OF b] sub(1) unfolding distinct_owned [OF d] distinct_owned [OF base_distinct [OF b]]
    by (meson subsetD)
  moreover have "pinv (pids t) (P t a)" if "a \<in> set qs" for a
    using that c(15) base_pinv [OF b] sub(1) eq(2) by auto
  moreover have "\<exists>i \<in> set qs. pid (P t i) = IDLE_PID" using idle c(1) by metis
  ultimately show ?thesis
    using path eq mm base_low [OF b] base_sleeps [OF b] own unfolding base_inv_def list_inv_def by simp
qed

text \<open>Unlinking one element.\<close>

lemma lpath_unlink:
  assumes "lpath n p (xs @ a # ys) NULL"
  shows "lpath (if xs = [] then n else n(last xs \<mapsto> hd0 ys)) (if xs = [] then hd0 ys else p) (xs @ ys) NULL"
proof (cases xs rule: rev_cases)
  case Nil
  with assms show ?thesis by (auto dest: lpath_hd0)
next
  case (snoc zs z)
  have "distinct (xs @ a # ys)" using lpath_distinct [OF assms] .
  with snoc have "z \<notin> set zs" "z \<notin> set ys" by auto
  with assms snoc show ?thesis by (auto simp: lpath_append dest: lpath_hd0)
qed

lemma last0_unlink:
  assumes "distinct (xs @ a # ys)"
  shows "(if last0 (xs @ a # ys) = a then last0 xs else last0 (xs @ a # ys)) = last0 (xs @ ys)"
proof (cases "ys = []")
  case False
  with assms have "last ys \<noteq> a" by (metis distinct.simps(2) distinct_append last_in_set)
  with False show ?thesis by (auto simp: last0_def)
qed simp

lemma removeProcess_spec:
  assumes b: "base_inv s (xs @ a # ys) ss"
  obtains t where "removeProcess a s = Some t" "lpath (nxt t) (firstProcess t) (xs @ ys) NULL"
    "lastProcess t = last0 (xs @ ys)" "\<And>c. core (P t c) = core (P s c)" "procs t NULL = procs s NULL"
    "t = s\<lparr>procs := procs t, firstProcess := firstProcess t, lastProcess := lastProcess t\<rparr>"
    "\<And>c. c \<notin> set xs \<Longrightarrow> procs t c = procs s c"
proof -
  have d: "distinct (xs @ a # ys)" using base_distinct [OF b] .
  obtain p where p: "procs s a = Some p" using base_dom [OF b, of a] by auto
  have nx: "next_p p = hd0 ys" using base_next [OF b] p by simp
  have se: "searchProcess (pid p) (firstProcess s) s = Some (a, last0 xs)" using search_found [OF b] p by simp
  have pa: "lpath (if xs = [] then nxt s else (nxt s)(last xs \<mapsto> hd0 ys))
      (if xs = [] then hd0 ys else firstProcess s) (xs @ ys) NULL" using lpath_unlink [OF base_path [OF b]] .
  note la = last0_unlink [OF d, folded base_last [OF b]]
  show ?thesis
  proof (cases xs rule: rev_cases)
    case Nil
    have run: "removeProcess a s = Some (s\<lparr>firstProcess := hd0 ys, lastProcess := last0 (xs @ ys)\<rparr>)"
      using p se nx la Nil by (auto simp: removeProcess_def)
    show ?thesis by (rule that [OF run]) (use pa Nil in auto)
  next
    case (snoc zs z)
    then obtain q where q: "procs s z = Some q" and z: "z \<noteq> NULL" using base_dom [OF b, of z] base_nonnull [OF b] by auto
    let ?t = "s\<lparr>procs := (procs s)(z \<mapsto> q\<lparr>next_p := hd0 ys\<rparr>), lastProcess := last0 (xs @ ys)\<rparr>"
    have run: "removeProcess a s = Some ?t"
      using p se nx la snoc z q by (auto simp: removeProcess_def modP_def)
    have "nxt ?t = (nxt s)(z \<mapsto> hd0 ys)" by auto
    then show ?thesis by (intro that [OF run]) (use pa snoc z q in \<open>auto simp: core_def\<close>)
  qed
qed

text \<open>Writes through \<open>modP\<close> create no process.\<close>

lemma modP_none: "modP a f s = Some t \<Longrightarrow> procs t c = None \<longleftrightarrow> procs s c = None"
  by (auto simp: modP_def bind_eq_Some_conv split: if_splits)

lemma modP_frame:
  assumes "modP a f s = Some t" shows "t = s\<lparr>procs := procs t\<rparr>"
proof -
  obtain p where "t = s\<lparr>procs := (procs s)(a \<mapsto> p)\<rparr>" using assms by (auto simp: modP_def bind_eq_Some_conv split: if_splits)
  then show ?thesis by simp
qed

lemma removeProcess_none:
  assumes r: "removeProcess a s = Some t" shows "procs t c = None \<longleftrightarrow> procs s c = None"
proof -
  obtain d where d: "procs s a = Some d" using r by (cases "procs s a") (simp_all add: removeProcess_def)
  obtain x where x: "searchProcess (pid d) (firstProcess s) s = Some x"
    using r d by (cases "searchProcess (pid d) (firstProcess s) s") (simp_all add: removeProcess_def)
  obtain e pr where ep: "x = (e, pr)" by (cases x)
  obtain f where f: "procs s e = Some f" using r d x ep by (cases "procs s e") (simp_all add: removeProcess_def)
  show ?thesis
  proof (cases "pr = NULL")
    case True
    with r d x ep f show ?thesis by (auto simp: removeProcess_def)
  next
    case False
    then obtain u where "modP pr (next_p_update (\<lambda>_. next_p f)) s = Some u"
      using r d x ep f by (cases "modP pr (next_p_update (\<lambda>_. next_p f)) s") (simp_all add: removeProcess_def)
    moreover from this have "procs t = procs u" using r d x ep f False by (auto simp: removeProcess_def)
    ultimately show ?thesis by (simp add: modP_none)
  qed
qed

end
