(* ===== verification/Scheduler_Next.thy ===== *)
theory Scheduler_Next
  imports Scheduler_Inv
begin

text \<open>
  \<open>nextProcess\<close> is correct: it returns, it picks the first ready process in round-robin order
  and the idle process when there is none, and it reaps exactly the dead processes it passes.
\<close>

section \<open>One iteration\<close>

text \<open>What \<open>nextProcess\<close> does not touch, and how the processes in \<open>A\<close> are kept. Only blocks that hold
  processes are freed.\<close>

definition mem_frame :: "sched_state \<Rightarrow> sched_state \<Rightarrow> bool" where
  "mem_frame s t \<longleftrightarrow> (\<forall>p. (procs s p = None \<longrightarrow> procs t p = None) \<and>
     (payload (mm t) p = payload (mm s) p \<or> procs s p \<noteq> None \<and> procs t p = None))"

lemma mem_frame_trans: "mem_frame s t \<Longrightarrow> mem_frame t u \<Longrightarrow> mem_frame s u"
  unfolding mem_frame_def by metis

lemma mem_frame_upd:
  assumes "procs s x \<noteq> None" shows "mem_frame (s\<lparr>procs := (procs s)(x \<mapsto> q)\<rparr>) t \<longleftrightarrow> mem_frame s t"
proof -
  have "((procs s)(x \<mapsto> q)) p = None \<longleftrightarrow> procs s p = None" for p using assms by auto
  then show ?thesis by (simp add: mem_frame_def del: fun_upd_apply not_None_eq)
qed

lemma mem_frame_upd2:
  assumes "mem_frame s t" "procs t x \<noteq> None"
  shows "mem_frame (s\<lparr>procs := (procs s)(x \<mapsto> p)\<rparr>) (t\<lparr>procs := (procs t)(x \<mapsto> q)\<rparr>)"
proof -
  have "mem_frame (s\<lparr>procs := (procs s)(x \<mapsto> p)\<rparr>) t" using assms mem_frame_upd [of s x p t] by (simp add: mem_frame_def) metis
  then show ?thesis using assms(2) by (auto simp: mem_frame_def)
qed

definition same :: "sched_state \<Rightarrow> sched_state \<Rightarrow> addr set \<Rightarrow> bool" where
  "same s t A \<longleftrightarrow> (\<forall>a \<in> A. core (P t a) = core (P s a)) \<and> ram t = ram s \<and> tm t = tm s \<and> fds t = fds s \<and>
     frames t = frames s \<and> sleeps t = sleeps s \<and> firstSleep t = firstSleep s \<and> pids t = pids s \<and>
     update t = update s \<and> cpu_rsp t = cpu_rsp s \<and> mem_frame s t"

lemma same_refl [simp]: "same s s A"
  by (simp add: same_def mem_frame_def)

lemma same_trans: "same s t A \<Longrightarrow> same t u B \<Longrightarrow> C \<subseteq> A \<Longrightarrow> C \<subseteq> B \<Longrightarrow> same s u C"
  unfolding same_def using mem_frame_trans [of s t u] by (metis subsetD)

lemma same_state: "same s t A \<Longrightarrow> a \<in> A \<Longrightarrow> state (P t a) = state (P s a)"
  unfolding same_def by (metis core_eqD(3))

lemma same_pid: "same s t A \<Longrightarrow> a \<in> A \<Longrightarrow> pid (P t a) = pid (P s a)"
  unfolding same_def by (metis core_eqD(1))

lemma nextStep_null: "currentProcess s = NULL \<Longrightarrow> nextStep s = Some (s\<lparr>currentProcess := firstProcess s\<rparr>)"
  by (simp add: nextStep_def)

lemma nextStep_blocked:
  assumes b: "base_inv s (xs @ a # ys) ss" and a: "currentProcess s = a" "a \<noteq> firstBlockedIteration s"
    "state (P s a) \<noteq> DEAD"
  shows "nextStep s = Some (s\<lparr>firstBlockedIteration := (if firstBlockedIteration s = NULL then a else firstBlockedIteration s),
    currentProcess := hd0 ys\<rparr>)"
proof -
  obtain p where p: "procs s a = Some p" using base_dom [OF b, of a] by auto
  moreover have "a \<noteq> NULL" using base_nonnull [OF b] by auto
  moreover have "next_p p = hd0 ys" using base_next [OF b] p by simp
  ultimately show ?thesis using a by (simp add: nextStep_def)
qed

lemma free_s_live:
  assumes "mm_ok (mm s)" "payload (mm s) a \<noteq> None"
  obtains m where "free_s a s = Some (s\<lparr>mm := m\<rparr>)" "mm_ok m" "payload m = (payload (mm s))(a := None)"
proof -
  obtain k where "payload (mm s) a = Some k" using assms(2) by blast
  from frt4.free_live [OF assms(1) this] that show ?thesis by (auto simp: free_s_def)
qed

lemma nextStep_dead:
  assumes b: "base_inv s (xs @ a # ys) ss" and a: "currentProcess s = a" "a \<noteq> firstBlockedIteration s"
    "state (P s a) = DEAD"
  shows "\<exists>t. nextStep s = Some t \<and> base_inv t (xs @ ys) ss \<and> currentProcess t = hd0 ys \<and>
    firstBlockedIteration t = firstBlockedIteration s \<and> idleFlag t = idleFlag s \<and> same s t (set (xs @ ys))"
proof -
  let ?s = "s\<lparr>currentProcess := hd0 ys\<rparr>"
  obtain p where p: "procs s a = Some p" using base_dom [OF b, of a] by auto
  have n: "a \<noteq> NULL" "next_p p = hd0 ys" "a \<notin> set (xs @ ys)"
    using base_nonnull [OF b] base_next [OF b] p base_distinct [OF b] by auto
  have b0: "base_inv ?s (xs @ a # ys) ss" using b by simp
  obtain t where t: "removeProcess a ?s = Some t" "lpath (nxt t) (firstProcess t) (xs @ ys) NULL"
    "lastProcess t = last0 (xs @ ys)" "\<And>c. core (P t c) = core (P ?s c)" "procs t NULL = procs ?s NULL"
    "t = ?s\<lparr>procs := procs t, firstProcess := firstProcess t, lastProcess := lastProcess t\<rparr>"
    by (rule removeProcess_spec [OF b0]) blast
  have mmt: "mm t = mm s" by (subst t(6)) simp
  have own: "a \<in> set (owned s (xs @ a # ys) ss)" by (simp add: set_owned)
  obtain m where m: "free_s a t = Some (t\<lparr>mm := m\<rparr>)" "mm_ok m" "payload m = (payload (mm s))(a := None)"
    using free_s_live [of t a] base_mm [OF b] base_live [OF b own] mmt by metis
  let ?t = "t\<lparr>mm := m, procs := (procs t)(a := None)\<rparr>"
  have run: "nextStep s = Some ?t" using a p n t(1) m(1) by (simp add: nextStep_def)
  have cor: "core (P ?t c) = core (P s c)" if "c \<in> set (xs @ ys)" for c using that n(3) t(4) [of c] by auto
  have dist: "p \<noteq> a \<and> p \<in> set (owned s (xs @ a # ys) ss)" if "p \<in> set (owned s (xs @ ys) ss)" for p
    using that base_owned [OF b] by (auto simp: owned_def)
  have "base_inv ?t (xs @ ys) ss"
  proof (rule base_inv_relink [OF b])
    show "lpath (nxt ?t) (firstProcess ?t) (xs @ ys) NULL"
      using t(2) n(3) by (subst lpath_cong [where n' = "nxt t"]) auto
    show "\<exists>i \<in> set (xs @ ys). pid (P s i) = IDLE_PID"
      using base_idleE [OF b] base_pinv [OF b, of a] a(3) by (auto simp: pinv_def)
    show "payload (mm ?t) p \<noteq> None" if "p \<in> set (owned s (xs @ ys) ss)" for p
      using dist [OF that] base_live [OF b] m(3) by simp
    show "pids ?t = pids s" "firstSleep ?t = firstSleep s" "sleeps ?t = sleeps s" by (subst t(6), simp)+
  qed (use t(3,5) m(2) cor n(1) in auto)
  moreover have "mem_frame s ?t"
    using m(3) p removeProcess_none [OF t(1)] by (auto simp: mem_frame_def)
  then have "same s ?t (set (xs @ ys))"
    unfolding same_def using cor by (intro conjI ballI) (simp, (subst t(6), simp)+)
  moreover have "currentProcess ?t = hd0 ys" "firstBlockedIteration ?t = firstBlockedIteration s" "idleFlag ?t = idleFlag s"
    by (subst t(6), simp)+
  ultimately show ?thesis using run by blast
qed

section \<open>Waking a process\<close>

text \<open>The fields that \<open>block\<close> and \<open>unblock\<close> may write.\<close>

definition wake_eq :: "processCDT \<Rightarrow> processCDT \<Rightarrow> bool" where
  "wake_eq p q \<longleftrightarrow> q = p\<lparr>foreground := foreground q, backWait := backWait q\<rparr>"

lemma wake_eq_refl [simp]: "wake_eq p p"
  by (simp add: wake_eq_def)

lemma mild_state: "st \<noteq> DEAD \<Longrightarrow> state p \<noteq> DEAD \<Longrightarrow> mild p (p\<lparr>state := st\<rparr>)"
  by (auto simp: mild_def owns_def pinv_def)

lemma wake_eqD:
  assumes "wake_eq p q"
  shows "pid q = pid p" "state q = state p" "ppid q = ppid p" "children q = children p" "executions q = executions p"
    "priority q = priority p" "rsp q = rsp p" "next_p q = next_p p" "owns q = owns p" "fd q = fd p"
  using assms unfolding wake_eq_def by (cases p; cases q; simp add: owns_def)+

text \<open>A foreground process that becomes ready takes the foreground from its parent.\<close>

lemma fore_from_parent:
  assumes b: "base_inv s ps ss"
  shows "\<exists>par x t. searchProcess k (firstProcess s) s = Some (par, x) \<and> foreFromParent par s = Some t \<and>
    base_inv t ps ss \<and> t = s\<lparr>procs := procs t\<rparr> \<and> (\<forall>c \<in> set ps. wake_eq (P s c) (P t c))"
proof (rule search_cases [OF b, of k])
  assume "searchProcess k (firstProcess s) s = Some (NULL, NULL)"
  then show ?thesis using base_low [OF b] b by (intro exI [of _ NULL] exI [of _ s]) (auto simp: foreFromParent_def)
next
  fix xs par ys
  assume par: "ps = xs @ par # ys" "searchProcess k (firstProcess s) s = Some (par, last0 xs)" "\<exists>p. procs s par = Some p"
  then obtain q where q: "procs s par = Some q" by blast
  have ip: "par \<in> set ps" using par(1) by simp
  show ?thesis
  proof (cases "foreground q = 0")
    case True
    with par(2) q b show ?thesis
      by (intro exI [of _ par] exI [of _ "last0 xs"] exI [of _ s]) (simp add: foreFromParent_def)
  next
    case False
    let ?f = "\<lambda>q :: processCDT. q\<lparr>backWait := 1, foreground := 0\<rparr>"
    have "pid q \<noteq> IDLE_PID" using False base_pinv [OF b ip] q by (auto simp: pinv_def)
    then have "mild (P s par) (?f (P s par))" using q by (simp add: mild_def owns_def pinv_def)
    note m = modP_ok [OF b ip, where f = ?f, OF this]
    with par(2) q False show ?thesis
      by (intro exI [of _ par] exI [of _ "last0 xs"] exI [of _ "s\<lparr>procs := (procs s)(par \<mapsto> ?f q)\<rparr>"])
        (auto simp: wake_eq_def foreFromParent_def)
  qed
qed

lemma unblock_found:
  assumes b: "base_inv s ps ss" and a: "a \<in> set ps" "pid (P s a) = k" "state (P s a) \<noteq> DEAD"
  shows "\<exists>t. unblock k s = Some (EXIT_SUCCESS, t) \<and> base_inv t ps ss \<and> t = s\<lparr>procs := procs t\<rparr> \<and>
    state (P t a) = READY \<and>
    (\<forall>c \<in> set ps. wake_eq (if c = a then (P s c)\<lparr>state := READY\<rparr> else P s c) (P t c)) \<and>
    (foreground (P s a) = 0 \<longrightarrow> procs t = (procs s)(a \<mapsto> (P s a)\<lparr>state := READY\<rparr>))"
proof -
  obtain p where p: "procs s a = Some p" using base_dom [OF b a(1)] by auto
  let ?s = "s\<lparr>procs := (procs s)(a \<mapsto> p\<lparr>state := READY\<rparr>)\<rparr>"
  have n: "a \<noteq> NULL" using base_nonnull [OF b] a(1) by metis
  have m: "modP a (state_update (\<lambda>_. READY)) s = Some ?s" "base_inv ?s ps ss"
    using modP_ok [OF b a(1), of "state_update (\<lambda>_. READY)"] mild_state [of READY "P s a"] a(3) p by auto
  obtain pr where pr: "searchProcess k (firstProcess s) s = Some (a, pr)" using search_found' [OF b a(1,2)] .
  obtain par x t where t: "searchProcess (ppid p) (firstProcess ?s) ?s = Some (par, x)" "foreFromParent par ?s = Some t"
    "base_inv t ps ss" "t = ?s\<lparr>procs := procs t\<rparr>" "\<forall>c \<in> set ps. wake_eq (P ?s c) (P t c)"
    using fore_from_parent [OF m(2), of "ppid p"] by blast
  define u where "u = (if foreground p = 0 then ?s else t)"
  have "unblock k s = Some (EXIT_SUCCESS, u)"
    using p n m(1) pr a(3) t(1,2) by (simp add: unblock_def u_def)
  moreover have u: "base_inv u ps ss" "u = s\<lparr>procs := procs u\<rparr>" "\<forall>c \<in> set ps. wake_eq (P ?s c) (P u c)"
    using m(2) t by (auto simp: u_def)
  moreover have "state (P u a) = READY" using wake_eqD(2) [OF u(3) [rule_format, OF a(1)]] by simp
  moreover have "wake_eq (if c = a then (P s c)\<lparr>state := READY\<rparr> else P s c) (P u c)" if "c \<in> set ps" for c
    using u(3) that p by (auto split: if_splits)
  ultimately show ?thesis using p by (auto simp: u_def)
qed

lemma unblock_fails:
  assumes b: "base_inv s ps ss" and "\<And>a. a \<in> set ps \<Longrightarrow> pid (P s a) = k \<Longrightarrow> state (P s a) = DEAD"
  shows "unblock k s = Some (EXIT_FAILURE, s)"
proof (rule search_cases [OF b, of k])
  fix xs a ys
  assume a: "ps = xs @ a # ys" "pid (P s a) = k" "a \<noteq> NULL" "\<exists>p. procs s a = Some p"
    "searchProcess k (firstProcess s) s = Some (a, last0 xs)"
  with assms(2) [of a] show ?thesis by (auto simp: unblock_def)
qed (simp add: unblock_def)

text \<open>Unblocking the idle process writes its state only.\<close>

lemma unblock_idle:
  assumes b: "base_inv s ps ss" and i: "i \<in> set ps" "pid (P s i) = IDLE_PID"
  shows "unblock IDLE_PID s = Some (EXIT_SUCCESS, s\<lparr>procs := (procs s)(i \<mapsto> (P s i)\<lparr>state := READY\<rparr>)\<rparr>)"
    and "base_inv (s\<lparr>procs := (procs s)(i \<mapsto> (P s i)\<lparr>state := READY\<rparr>)\<rparr>) ps ss"
proof -
  have "state (P s i) \<noteq> DEAD" "foreground (P s i) = 0" using base_pinv [OF b i(1)] i(2) by (auto simp: pinv_def)
  with unblock_found [OF b i this(1)] obtain t where
    t: "unblock IDLE_PID s = Some (EXIT_SUCCESS, t)" "base_inv t ps ss" "t = s\<lparr>procs := procs t\<rparr>"
      "procs t = (procs s)(i \<mapsto> (P s i)\<lparr>state := READY\<rparr>)" by blast
  then show "unblock IDLE_PID s = Some (EXIT_SUCCESS, s\<lparr>procs := (procs s)(i \<mapsto> (P s i)\<lparr>state := READY\<rparr>)\<rparr>)"
    "base_inv (s\<lparr>procs := (procs s)(i \<mapsto> (P s i)\<lparr>state := READY\<rparr>)\<rparr>) ps ss" by simp_all
qed

lemma nextStep_round:
  assumes b: "base_inv s (xs @ a # ys) ss" and a: "currentProcess s = a" "a = firstBlockedIteration s"
    and i: "i \<in> set (xs @ a # ys)" "pid (P s i) = IDLE_PID"
  defines "t \<equiv> s\<lparr>idleFlag := 1, procs := (procs s)(i \<mapsto> (P s i)\<lparr>state := READY\<rparr>), currentProcess := hd0 ys\<rparr>"
  shows "nextStep s = Some t" and "base_inv t (xs @ a # ys) ss"
proof -
  let ?s = "s\<lparr>idleFlag := 1\<rparr>"
  have b0: "base_inv ?s (xs @ a # ys) ss" and i0: "pid (P ?s i) = IDLE_PID" using b i(2) by simp_all
  note u = unblock_idle [OF b0 i(1) i0]
  show "base_inv t (xs @ a # ys) ss"
    using u(2) unfolding t_def by simp
  obtain p where p: "procs s a = Some p" using base_dom [OF b, of a] by auto
  have n: "a \<noteq> NULL" "next_p p = hd0 ys" using base_nonnull [OF b] base_next [OF b] p by auto
  then show "nextStep s = Some t"
    using a p u(1) by (auto simp: nextStep_def t_def)
qed

section \<open>The loop\<close>

lemma nextLoop_step:
  assumes "currentProcess s = NULL \<or> (\<exists>p. procs s (currentProcess s) = Some p \<and> state p \<noteq> READY)"
    and "nextStep s = Some t"
  shows "nextLoop s = nextLoop t"
  using assms by (subst nextLoop.simps) auto

lemma nextLoop_stop:
  assumes "procs s (currentProcess s) = Some p" "state p = READY" "currentProcess s \<noteq> NULL"
  shows "nextLoop s = Some s"
  using assms by (subst nextLoop.simps) simp

definition alive :: "sched_state \<Rightarrow> addr list \<Rightarrow> addr list" where
  "alive s = filter (\<lambda>a. state (P s a) \<noteq> DEAD)"

lemma alive_simps [simp]: "alive s [] = []" "alive s (xs @ ys) = alive s xs @ alive s ys"
  "alive s (a # xs) = (if state (P s a) \<noteq> DEAD then a # alive s xs else alive s xs)"
  by (simp_all add: alive_def)

lemma set_alive [simp]: "set (alive s xs) = {a \<in> set xs. state (P s a) \<noteq> DEAD}"
  by (simp add: alive_def)

lemma hd0_alive: "hd0 (alive s xs) = NULL \<or> hd0 (alive s xs) \<in> set xs"
  by (induction xs) auto

lemma alive_cong: "(\<And>a. a \<in> set xs \<Longrightarrow> state (P s a) = state (P t a)) \<Longrightarrow> alive s xs = alive t xs"
  unfolding alive_def by (rule filter_cong) simp_all

text \<open>A run over processes that are not ready: the dead ones go, the first blocked one is noted.\<close>

lemma nextLoop_run:
  assumes "base_inv s (xs @ zs @ ys) ss" "currentProcess s = hd0 (zs @ ys)"
    and "\<And>z. z \<in> set zs \<Longrightarrow> state (P s z) \<noteq> READY \<and> z \<noteq> firstBlockedIteration s"
  shows "\<exists>t. nextLoop s = nextLoop t \<and> base_inv t (xs @ alive s zs @ ys) ss \<and> currentProcess t = hd0 ys \<and>
    firstBlockedIteration t =
      (if firstBlockedIteration s = NULL then hd0 (alive s zs) else firstBlockedIteration s) \<and>
    idleFlag t = idleFlag s \<and> same s t (set (xs @ alive s zs @ ys))"
  using assms
proof (induction zs arbitrary: s xs)
  case Nil
  then show ?case by (intro exI [of _ s]) auto
next
  case (Cons z zs)
  then have b: "base_inv s (xs @ z # zs @ ys) ss" and cz: "currentProcess s = z" by simp_all
  obtain p where p: "procs s z = Some p" using base_dom [OF b, of z] by auto
  have z: "z \<noteq> NULL" "z \<notin> set zs" "z \<notin> set xs" "z \<notin> set ys"
    using base_nonnull [OF b] base_distinct [OF b] by auto
  have nr: "state (P s z) \<noteq> READY" "z \<noteq> firstBlockedIteration s" using Cons.prems(3) [of z] by auto
  show ?case
  proof (cases "state (P s z) = DEAD")
    case True
    from nextStep_dead [OF b cz nr(2) True] obtain t where
      t: "nextStep s = Some t" "base_inv t (xs @ zs @ ys) ss" "currentProcess t = hd0 (zs @ ys)"
        "firstBlockedIteration t = firstBlockedIteration s" "idleFlag t = idleFlag s" "same s t (set (xs @ zs @ ys))"
      by auto
    have st: "state (P t a) = state (P s a)" if "a \<in> set zs" for a using same_state [OF t(6)] that by simp
    obtain u where u: "nextLoop t = nextLoop u" "base_inv u (xs @ alive t zs @ ys) ss" "currentProcess u = hd0 ys"
      "firstBlockedIteration u = (if firstBlockedIteration t = NULL then hd0 (alive t zs) else firstBlockedIteration t)"
      "idleFlag u = idleFlag t" "same t u (set (xs @ alive t zs @ ys))"
      using Cons.IH [OF t(2,3)] Cons.prems(3) st t(4) by force
    have al: "alive t zs = alive s zs" using st by (intro alive_cong) simp
    have "nextLoop s = nextLoop u" using nextLoop_step [OF _ t(1)] p cz nr(1) u(1) by auto
    moreover have "same s u (set (xs @ alive s zs @ ys))"
      by (rule same_trans [OF t(6) u(6) [unfolded al]]) auto
    ultimately show ?thesis using u al t True by auto
  next
    case False
    let ?t = "s\<lparr>firstBlockedIteration := (if firstBlockedIteration s = NULL then z else firstBlockedIteration s),
      currentProcess := hd0 (zs @ ys)\<rparr>"
    have st: "nextStep s = Some ?t" using nextStep_blocked [OF b cz nr(2) False] .
    have nz: "state (P ?t z') \<noteq> READY \<and> z' \<noteq> firstBlockedIteration ?t" if "z' \<in> set zs" for z'
      using that z(2) Cons.prems(3) [of z'] by auto
    have bt: "base_inv ?t ((xs @ [z]) @ zs @ ys) ss" "currentProcess ?t = hd0 (zs @ ys)" using b by simp_all
    obtain u where u: "nextLoop ?t = nextLoop u" "base_inv u ((xs @ [z]) @ alive ?t zs @ ys) ss"
      "currentProcess u = hd0 ys"
      "firstBlockedIteration u = (if firstBlockedIteration ?t = NULL then hd0 (alive ?t zs) else firstBlockedIteration ?t)"
      "idleFlag u = idleFlag ?t" "same ?t u (set ((xs @ [z]) @ alive ?t zs @ ys))"
      using Cons.IH [OF bt nz] by blast
    have al: "alive ?t zs = alive s zs" by (intro alive_cong) simp
    have "nextLoop s = nextLoop u" using nextLoop_step [OF _ st] p cz nr(1) u(1) by auto
    moreover have "same s u (set (xs @ alive s (z # zs) @ ys))" using u(6) al False by (simp add: same_def mem_frame_def)
    ultimately show ?thesis using u al False z(1) by (intro exI [of _ u]) (auto split: if_splits)
  qed
qed

text \<open>The same run, ended by a ready process or by the end of the list.\<close>

lemma nextLoop_to:
  assumes b: "base_inv s (xs @ zs @ r # ys) ss" and c: "currentProcess s = hd0 (zs @ r # ys)"
    and z: "\<And>z. z \<in> set zs \<Longrightarrow> state (P s z) \<noteq> READY \<and> z \<noteq> firstBlockedIteration s"
    and r: "state (P s r) = READY"
  shows "\<exists>t. nextLoop s = Some t \<and> base_inv t (xs @ alive s zs @ r # ys) ss \<and> currentProcess t = r \<and>
    idleFlag t = idleFlag s \<and> same s t (set (xs @ alive s zs @ r # ys))"
proof -
  from nextLoop_run [OF b c z] obtain t where
    t: "nextLoop s = nextLoop t" "base_inv t (xs @ alive s zs @ r # ys) ss" "currentProcess t = r"
      "idleFlag t = idleFlag s" "same s t (set (xs @ alive s zs @ r # ys))" by auto
  obtain p where p: "procs t r = Some p" using base_dom [OF t(2), of r] by auto
  moreover have "r \<noteq> NULL" using base_nonnull [OF t(2)] by auto
  moreover have "state p = READY" using same_state [OF t(5), of r] p r by simp
  ultimately have "nextLoop t = Some t" using t(3) by (intro nextLoop_stop) auto
  with t show ?thesis by metis
qed

lemma nextLoop_wrap:
  assumes b: "base_inv s (xs @ zs) ss" and c: "currentProcess s = hd0 zs"
    and z: "\<And>z. z \<in> set zs \<Longrightarrow> state (P s z) \<noteq> READY \<and> z \<noteq> firstBlockedIteration s"
  shows "\<exists>t. nextLoop s = nextLoop t \<and> base_inv t (xs @ alive s zs) ss \<and> currentProcess t = hd0 (xs @ alive s zs) \<and>
    firstBlockedIteration t =
      (if firstBlockedIteration s = NULL then hd0 (alive s zs) else firstBlockedIteration s) \<and>
    idleFlag t = idleFlag s \<and> same s t (set (xs @ alive s zs))"
proof -
  have b': "base_inv s (xs @ zs @ []) ss" "currentProcess s = hd0 (zs @ [])" using b c by simp_all
  from nextLoop_run [OF b' z] obtain t where
    t: "nextLoop s = nextLoop t" "base_inv t (xs @ alive s zs) ss" "currentProcess t = NULL"
      "firstBlockedIteration t = (if firstBlockedIteration s = NULL then hd0 (alive s zs) else firstBlockedIteration s)"
      "idleFlag t = idleFlag s" "same s t (set (xs @ alive s zs))" by (auto simp del: set_alive)
  let ?t = "t\<lparr>currentProcess := firstProcess t\<rparr>"
  have "nextLoop t = nextLoop ?t" by (rule nextLoop_step) (use t(3) nextStep_null in auto)
  moreover have "same s ?t (set (xs @ alive s zs))" using t(6) by (simp add: same_def mem_frame_def del: set_alive)
  ultimately show ?thesis using t base_first [OF t(2)] by (intro exI [of _ ?t]) auto
qed

section \<open>Round robin\<close>

text \<open>The list from the current process on, then from its start.\<close>

definition rota :: "addr list \<Rightarrow> addr \<Rightarrow> addr list" where
  "rota ps c = (if c = NULL then ps else dropWhile (\<lambda>a. a \<noteq> c) ps @ takeWhile (\<lambda>a. a \<noteq> c) ps)"

lemma rota_split:
  assumes "distinct ps" "c = NULL \<or> c \<in> set ps"
  obtains xs zs where "ps = xs @ zs" "rota ps c = zs @ xs" "c = hd0 zs"
proof (cases "c = NULL")
  case True
  then show ?thesis using that [of ps "[]"] by (simp add: rota_def)
next
  case False
  with assms obtain xs ys where "ps = xs @ c # ys" by (meson split_list)
  moreover have "dropWhile (\<lambda>a. a \<noteq> c) (xs @ c # ys) = c # ys" "takeWhile (\<lambda>a. a \<noteq> c) (xs @ c # ys) = xs"
    using assms(1) calculation by (subst dropWhile_append2 takeWhile_append2; auto)+
  ultimately show ?thesis using False by (intro that [of xs "c # ys"]) (auto simp: rota_def)
qed

lemma nextLoop_ready:
  assumes b: "base_inv s (xs @ zs) ss" and c: "currentProcess s = hd0 zs" and f: "firstBlockedIteration s = NULL"
    and rot: "zs @ xs = bs @ r # cs" "\<And>z. z \<in> set bs \<Longrightarrow> state (P s z) \<noteq> READY" "state (P s r) = READY"
  shows "\<exists>t. nextLoop s = Some t \<and> base_inv t (filter (\<lambda>a. \<not> (a \<in> set bs \<and> state (P s a) = DEAD)) (xs @ zs)) ss \<and>
    currentProcess t = r \<and> idleFlag t = idleFlag s \<and>
    same s t (set (filter (\<lambda>a. \<not> (a \<in> set bs \<and> state (P s a) = DEAD)) (xs @ zs)))"
proof -
  have d: "distinct (xs @ zs)" and nn: "NULL \<notin> set (xs @ zs)" using base_distinct [OF b] base_nonnull [OF b] by auto
  have keep: "filter (\<lambda>a. \<not> (a \<in> set bs \<and> state (P s a) = DEAD)) us = us" if "set us \<inter> set bs = {}" for us
    using that by (auto simp: filter_id_conv)
  have drop: "filter (\<lambda>a. \<not> (a \<in> set bs \<and> state (P s a) = DEAD)) us = alive s us" if "set us \<subseteq> set bs" for us
    using that unfolding alive_def by (intro filter_cong) auto
  from rot(1) consider ys where "zs = bs @ r # ys" "cs = ys @ xs" | bs' where "bs = zs @ bs'" "xs = bs' @ r # cs"
    by (auto simp: append_eq_append_conv2 append_eq_Cons_conv Cons_eq_append_conv)
  then show ?thesis
  proof cases
    case 1
    have "base_inv s (xs @ bs @ r # ys) ss" "currentProcess s = hd0 (bs @ r # ys)" using b c 1 by simp_all
    from nextLoop_to [OF this _ rot(3)] rot(2) f nn 1 obtain t where
      t: "nextLoop s = Some t" "base_inv t (xs @ alive s bs @ r # ys) ss" "currentProcess t = r" "idleFlag t = idleFlag s"
        "same s t (set (xs @ alive s bs @ r # ys))" by (metis UnCI set_append)
    have eq: "filter (\<lambda>a. \<not> (a \<in> set bs \<and> state (P s a) = DEAD)) (xs @ zs) = xs @ alive s bs @ r # ys"
    proof -
      have "set xs \<inter> set bs = {}" "set ys \<inter> set bs = {}" "r \<notin> set bs" using d 1 by auto
      then show ?thesis using keep [of xs] keep [of ys] drop [of bs] 1 by simp
    qed
    show ?thesis unfolding eq using t by blast
  next
    case 2
    have z: "state (P s z) \<noteq> READY \<and> z \<noteq> firstBlockedIteration s" if "z \<in> set zs" for z
      using that rot(2) [of z] nn f 2 by (cases "z = NULL") auto
    from nextLoop_wrap [OF b c z] obtain u where
      u: "nextLoop s = nextLoop u" "base_inv u (xs @ alive s zs) ss" "currentProcess u = hd0 (xs @ alive s zs)"
        "firstBlockedIteration u = hd0 (alive s zs)" "idleFlag u = idleFlag s" "same s u (set (xs @ alive s zs))"
      using f by (auto simp del: set_alive)
    have st: "state (P u a) = state (P s a)" if "a \<in> set xs" for a using same_state [OF u(6)] that by simp
    have b2: "base_inv u ([] @ bs' @ r # cs @ alive s zs) ss" "currentProcess u = hd0 (bs' @ r # cs @ alive s zs)"
      using u(2,3) 2 by simp_all
    have "hd0 (alive s zs) \<notin> set bs'"
      using d nn 2 hd0_alive [of s zs] by auto
    then have z2: "state (P u z) \<noteq> READY \<and> z \<noteq> firstBlockedIteration u" if "z \<in> set bs'" for z
      using that rot(2) [of z] st [of z] u(4) 2 by auto
    have "state (P u r) = READY" using st [of r] rot(3) 2 by simp
    from nextLoop_to [OF b2 z2 this] obtain t where
      t: "nextLoop u = Some t" "base_inv t (alive u bs' @ r # cs @ alive s zs) ss" "currentProcess t = r"
        "idleFlag t = idleFlag u" "same u t (set (alive u bs' @ r # cs @ alive s zs))" by (auto simp del: set_alive)
    have al: "alive u bs' = alive s bs'" using st 2 by (intro alive_cong) auto
    have eq: "filter (\<lambda>a. \<not> (a \<in> set bs \<and> state (P s a) = DEAD)) (xs @ zs) = alive s bs' @ r # cs @ alive s zs"
    proof -
      have "set cs \<inter> set bs = {}" "r \<notin> set bs" using d 2 by auto
      then show ?thesis using keep [of cs] drop [of bs'] drop [of zs] 2 by simp
    qed
    have "same s t (set (alive s bs' @ r # cs @ alive s zs))"
      by (rule same_trans [OF u(6) t(5) [unfolded al]]) (use 2 in auto)
    then show ?thesis unfolding eq using u t al by auto
  qed
qed

text \<open>When nothing is ready, the walk comes back to the first blocked process.\<close>

lemma alive_id: "(\<And>a. a \<in> set xs \<Longrightarrow> state (P s a) \<noteq> DEAD) \<Longrightarrow> alive s xs = xs"
  by (simp add: alive_def filter_id_conv)

lemma nextLoop_reach_round:
  assumes b: "base_inv s (xs @ zs) ss" and c: "currentProcess s = hd0 zs" and f: "firstBlockedIteration s = NULL"
    and nr: "\<And>z. z \<in> set (xs @ zs) \<Longrightarrow> state (P s z) \<noteq> READY"
  shows "\<exists>t us f vs. nextLoop s = nextLoop t \<and> base_inv t (us @ f # vs) ss \<and> us @ f # vs = alive s (xs @ zs) \<and>
    currentProcess t = f \<and> firstBlockedIteration t = f \<and> same s t (set (us @ f # vs))"
proof -
  have d: "distinct (xs @ zs)" and nn: "NULL \<notin> set (xs @ zs)" using base_distinct [OF b] base_nonnull [OF b] by auto
  have z: "state (P s z) \<noteq> READY \<and> z \<noteq> firstBlockedIteration s" if "z \<in> set zs" for z
    using that nr [of z] nn f by (cases "z = NULL") auto
  from nextLoop_wrap [OF b c z] obtain u where
    u: "nextLoop s = nextLoop u" "base_inv u (xs @ alive s zs) ss" "currentProcess u = hd0 (xs @ alive s zs)"
      "firstBlockedIteration u = hd0 (alive s zs)" "same s u (set (xs @ alive s zs))"
    using f by (auto simp del: set_alive)
  have st: "state (P u a) = state (P s a)" if "a \<in> set xs" for a using same_state [OF u(5)] that by simp
  have al: "alive u xs = alive s xs" using st by (intro alive_cong) auto
  show ?thesis
  proof (cases "alive s zs")
    case Nil
    have z2: "state (P u z) \<noteq> READY \<and> z \<noteq> firstBlockedIteration u" if "z \<in> set xs" for z
      using that nr [of z] st [of z] nn u(4) Nil by (cases "z = NULL") auto
    have "base_inv u ([] @ xs) ss" "currentProcess u = hd0 xs" using u(2,3) Nil by simp_all
    from nextLoop_wrap [OF this z2] obtain t where
      t: "nextLoop u = nextLoop t" "base_inv t (alive s xs) ss" "currentProcess t = hd0 (alive s xs)"
        "firstBlockedIteration t = hd0 (alive s xs)" "same u t (set (alive s xs))"
      using u(4) Nil al by (auto simp del: set_alive)
    obtain f vs where fv: "alive s xs = f # vs" using base_idleE [OF t(2)] by (metis list.exhaust list.set_cases)
    have "same s t (set (alive s xs))" by (rule same_trans [OF u(5) t(5)]) auto
    with u(1) t fv Nil show ?thesis
      by (intro exI [of _ t] exI [of _ "[]"] exI [of _ f] exI [of _ vs]) auto
  next
    case (Cons f vs)
    then have fz: "f \<in> set zs" using set_alive [of s zs] by auto
    have z2: "state (P u z) \<noteq> READY \<and> z \<noteq> firstBlockedIteration u" if "z \<in> set xs" for z
      using that nr [of z] st [of z] u(4) Cons d fz by auto
    have "base_inv u ([] @ xs @ f # vs) ss" "currentProcess u = hd0 (xs @ f # vs)" using u(2,3) Cons by simp_all
    moreover have "f \<noteq> NULL" using fz nn by (cases "f = NULL") auto
    ultimately obtain t where
      t: "nextLoop u = nextLoop t" "base_inv t (alive s xs @ f # vs) ss" "currentProcess t = f"
        "firstBlockedIteration t = f" "same u t (set (alive s xs @ f # vs))"
      using nextLoop_run [of u "[]" xs "f # vs" ss] z2 u(4) Cons al by (auto simp del: set_alive)
    have "same s t (set (alive s xs @ f # vs))" by (rule same_trans [OF u(5) t(5)]) (use Cons in auto)
    with u(1) t Cons show ?thesis
      by (intro exI [of _ t] exI [of _ "alive s xs"] exI [of _ f] exI [of _ vs]) auto
  qed
qed

text \<open>There the idle process is made ready, and the walk ends at it.\<close>

lemma nextLoop_from_round:
  assumes b: "base_inv s (us @ f # vs) ss" and c: "currentProcess s = f" "firstBlockedIteration s = f"
    and nr: "\<And>z. z \<in> set (us @ f # vs) \<Longrightarrow> state (P s z) \<noteq> READY \<and> state (P s z) \<noteq> DEAD"
    and i: "i \<in> set (us @ f # vs)" "pid (P s i) = IDLE_PID"
  shows "\<exists>t. nextLoop s = Some t \<and> base_inv t (us @ f # vs) ss \<and> currentProcess t = i \<and> idleFlag t = 1 \<and>
    same (s\<lparr>procs := (procs s)(i \<mapsto> (P s i)\<lparr>state := READY\<rparr>)\<rparr>) t (set (us @ f # vs))"
proof -
  define t where "t = s\<lparr>idleFlag := 1, procs := (procs s)(i \<mapsto> (P s i)\<lparr>state := READY\<rparr>), currentProcess := hd0 vs\<rparr>"
  note r = nextStep_round [OF b c(1) c(2) [symmetric] i, folded t_def]
  have d: "distinct (us @ f # vs)" using base_distinct [OF b] .
  obtain p where "procs s f = Some p" using base_dom [OF b, of f] by auto
  with nr [of f] c(1) have l: "nextLoop s = nextLoop t" by (intro nextLoop_step [OF _ r(1)]) auto
  have st: "state (P t z) \<noteq> DEAD" "z \<noteq> i \<Longrightarrow> state (P t z) \<noteq> READY" if "z \<in> set (us @ f # vs)" for z
    using nr [OF that] by (auto simp: t_def)
  have ri: "state (P t i) = READY" and tc: "currentProcess t = hd0 vs" "firstBlockedIteration t = f" "idleFlag t = 1"
    using c by (simp_all add: t_def)
  have sm: "same (s\<lparr>procs := (procs s)(i \<mapsto> (P s i)\<lparr>state := READY\<rparr>)\<rparr>) t A" for A
    by (simp add: t_def same_def mem_frame_def)
  show ?thesis
  proof (cases "i \<in> set vs")
    case True
    then obtain v1 v2 where v: "vs = v1 @ i # v2" by (meson split_list)
    have "base_inv t ((us @ [f]) @ v1 @ i # v2) ss" "currentProcess t = hd0 (v1 @ i # v2)" using r(2) tc v by simp_all
    moreover have "state (P t z) \<noteq> READY \<and> z \<noteq> firstBlockedIteration t" if "z \<in> set v1" for z
      using that st(2) [of z] d v tc by auto
    ultimately obtain u where u: "nextLoop t = Some u" "base_inv u ((us @ [f]) @ alive t v1 @ i # v2) ss" "currentProcess u = i"
      "idleFlag u = idleFlag t" "same t u (set ((us @ [f]) @ alive t v1 @ i # v2))"
      using nextLoop_to [of t "us @ [f]" v1 i v2 ss] ri by blast
    have al: "alive t v1 = v1" by (rule alive_id) (use st(1) v in auto)
    have "same (s\<lparr>procs := (procs s)(i \<mapsto> (P s i)\<lparr>state := READY\<rparr>)\<rparr>) u (set (us @ f # vs))"
      by (rule same_trans [OF sm [of "set (us @ f # vs)"] u(5) [unfolded al]]) (use v in auto)
    with u l tc al v show ?thesis by auto
  next
    case False
    have z: "state (P t z) \<noteq> READY \<and> z \<noteq> firstBlockedIteration t" if "z \<in> set vs" for z
      using that st(2) [of z] d tc False by auto
    have al: "alive t vs = vs" by (rule alive_id) (use st(1) in auto)
    have "base_inv t ((us @ [f]) @ vs) ss" using r(2) by simp
    from nextLoop_wrap [OF this tc(1) z] d obtain w where
      w: "nextLoop t = nextLoop w" "base_inv w (us @ f # vs) ss" "currentProcess w = hd0 (us @ f # vs)"
        "firstBlockedIteration w = f" "idleFlag w = 1" "same t w (set (us @ f # vs))"
      using tc base_nonnull [OF b] unfolding al by auto
    obtain u1 u2 where v: "us @ [f] = u1 @ i # u2" using i(1) False by (metis Un_iff append.assoc append_Cons append_Nil set_append split_list)
    have L: "us @ f # vs = [] @ u1 @ i # u2 @ vs" using v by (metis append.assoc append_Cons append_Nil)
    have sw: "state (P w a) = state (P t a)" if "a \<in> set (us @ f # vs)" for a using same_state [OF w(6) that] .
    have "f \<notin> set u1" using v d by (cases u2 rule: rev_cases) auto
    then have z2: "state (P w z) \<noteq> READY \<and> z \<noteq> firstBlockedIteration w" if "z \<in> set u1" for z
      using that st(2) [of z] sw [of z] d w(4) unfolding L by auto
    have "base_inv w ([] @ u1 @ i # u2 @ vs) ss" "currentProcess w = hd0 (u1 @ i # u2 @ vs)"
      using w(2,3) unfolding L by simp_all
    moreover have "state (P w i) = READY" using sw [OF i(1)] ri by simp
    ultimately obtain u where u: "nextLoop w = Some u" "base_inv u ([] @ alive w u1 @ i # u2 @ vs) ss" "currentProcess u = i"
      "idleFlag u = idleFlag w" "same w u (set ([] @ alive w u1 @ i # u2 @ vs))"
      using nextLoop_to [of w "[]" u1 i "u2 @ vs" ss] z2 by blast
    have al2: "alive w u1 = u1" by (rule alive_id) (use st(1) sw in \<open>auto simp: L\<close>)
    have "same (s\<lparr>procs := (procs s)(i \<mapsto> (P s i)\<lparr>state := READY\<rparr>)\<rparr>) u (set (us @ f # vs))"
      by (rule same_trans [OF same_trans [OF sm w(6) subset_refl subset_refl] u(5) [unfolded al2]]) (simp_all only: L subset_refl)
    moreover have "base_inv u (us @ f # vs) ss" using u(2) unfolding al2 L .
    ultimately show ?thesis using u(1,3,4) l w(1,5) by simp
  qed
qed

lemma core_state: "core p = core q \<Longrightarrow> core (p\<lparr>state := st\<rparr>) = core (q\<lparr>state := st\<rparr>)"
  by (cases p; cases q) (simp add: core_def)

lemma nextLoop_idle:
  assumes b: "base_inv s (xs @ zs) ss" and c: "currentProcess s = hd0 zs" and f: "firstBlockedIteration s = NULL"
    and nr: "\<And>z. z \<in> set (xs @ zs) \<Longrightarrow> state (P s z) \<noteq> READY" and i: "i \<in> set (xs @ zs)" "pid (P s i) = IDLE_PID"
  shows "\<exists>t. nextLoop s = Some t \<and> base_inv t (alive s (xs @ zs)) ss \<and> currentProcess t = i \<and> idleFlag t = 1 \<and>
    same (s\<lparr>procs := (procs s)(i \<mapsto> (P s i)\<lparr>state := READY\<rparr>)\<rparr>) t (set (alive s (xs @ zs)))"
proof -
  from nextLoop_reach_round [OF b c f nr] obtain t us f vs where
    t: "nextLoop s = nextLoop t" "base_inv t (us @ f # vs) ss" "us @ f # vs = alive s (xs @ zs)"
      "currentProcess t = f" "firstBlockedIteration t = f" "same s t (set (us @ f # vs))" by blast
  have al: "a \<in> set (us @ f # vs) \<longleftrightarrow> a \<in> set (xs @ zs) \<and> state (P s a) \<noteq> DEAD" for a unfolding t(3) by auto
  have ii: "i \<in> set (us @ f # vs)" unfolding al using i base_pinv [OF b i(1)] by (auto simp: pinv_def)
  have "state (P t z) \<noteq> READY \<and> state (P t z) \<noteq> DEAD" if "z \<in> set (us @ f # vs)" for z
    using same_state [OF t(6) that] nr [of z] that unfolding al by auto
  moreover have "pid (P t i) = IDLE_PID" using same_pid [OF t(6) ii] i(2) by simp
  ultimately obtain u where u: "nextLoop t = Some u" "base_inv u (us @ f # vs) ss" "currentProcess u = i" "idleFlag u = 1"
    "same (t\<lparr>procs := (procs t)(i \<mapsto> (P t i)\<lparr>state := READY\<rparr>)\<rparr>) u (set (us @ f # vs))"
    using nextLoop_from_round [OF t(2,4,5) _ ii] by blast
  have "core ((P t i)\<lparr>state := READY\<rparr>) = core ((P s i)\<lparr>state := READY\<rparr>)"
    using t(6) ii by (intro core_state) (metis same_def)
  then have "same (s\<lparr>procs := (procs s)(i \<mapsto> (P s i)\<lparr>state := READY\<rparr>)\<rparr>)
      (t\<lparr>procs := (procs t)(i \<mapsto> (P t i)\<lparr>state := READY\<rparr>)\<rparr>) (set (us @ f # vs))"
    using t(6) mem_frame_upd2 [of s t i] base_dom [OF t(2) ii] by (auto simp: same_def)
  from same_trans [OF this u(5) subset_refl subset_refl] u(1-4) t(1) show ?thesis
    unfolding t(3) [symmetric] by auto
qed

section \<open>The specification of \<open>nextProcess\<close>\<close>

text \<open>The current process has used up its quota; the process at which the walk starts.\<close>

definition quota_over :: "sched_state \<Rightarrow> bool" where
  "quota_over s \<longleftrightarrow> currentProcess s \<noteq> NULL \<and> state (P s (currentProcess s)) = READY \<and>
     executions (P s (currentProcess s)) = MAX_PRIORITY - priority (P s (currentProcess s))"

definition startAt :: "sched_state \<Rightarrow> addr" where
  "startAt s = (if quota_over s then next_p (P s (currentProcess s)) else currentProcess s)"

definition idle_of :: "sched_state \<Rightarrow> addr list \<Rightarrow> addr" where
  "idle_of s ps = hd (filter (\<lambda>a. pid (P s a) = IDLE_PID) ps)"

definition pick :: "sched_state \<Rightarrow> addr list \<Rightarrow> addr" where
  "pick s ps = (case find (\<lambda>a. state (P s a) = READY) (rota ps (startAt s)) of
     Some a \<Rightarrow> a | None \<Rightarrow> idle_of s ps)"

definition survivors :: "sched_state \<Rightarrow> addr list \<Rightarrow> addr list" where
  "survivors s ps = filter (\<lambda>a. \<not> (state (P s a) = DEAD \<and>
     a \<in> set (takeWhile (\<lambda>a. state (P s a) \<noteq> READY) (rota ps (startAt s))))) ps"

text \<open>The fields of a process that the timer interrupt may write.\<close>

definition kept :: "processCDT \<Rightarrow> processCDT \<Rightarrow> bool" where
  "kept p q \<longleftrightarrow> q = p\<lparr>next_p := next_p q, rsp := rsp q, executions := executions q, state := state q\<rparr>"

lemma idle_of:
  assumes b: "base_inv s ps ss"
  shows idle_of_in: "idle_of s ps \<in> set ps" and idle_of_pid: "pid (P s (idle_of s ps)) = IDLE_PID"
    and idle_of_eq: "a \<in> set ps \<Longrightarrow> pid (P s a) = IDLE_PID \<Longrightarrow> a = idle_of s ps"
proof -
  obtain i where "i \<in> set ps" "pid (P s i) = IDLE_PID" using base_idleE [OF b] .
  then have "filter (\<lambda>a. pid (P s a) = IDLE_PID) ps \<noteq> []" by (auto simp: filter_empty_conv)
  then have "idle_of s ps \<in> set (filter (\<lambda>a. pid (P s a) = IDLE_PID) ps)" unfolding idle_of_def by (rule hd_in_set)
  then show i: "idle_of s ps \<in> set ps" "pid (P s (idle_of s ps)) = IDLE_PID" by auto
  show "a = idle_of s ps" if "a \<in> set ps" "pid (P s a) = IDLE_PID"
    using pid_eq_iff [OF b that(1) i(1)] that(2) i(2) by simp
qed

lemma nextEnter_spec:
  assumes b: "base_inv s ps ss" and c: "currentProcess s = NULL \<or> currentProcess s \<in> set ps"
  defines "c \<equiv> currentProcess s"
  shows "\<exists>t. nextEnter r s = Some t \<and> base_inv t ps ss \<and> currentProcess t = startAt s \<and>
    (startAt s = NULL \<or> startAt s \<in> set ps) \<and>
    t = s\<lparr>procs := procs t, currentProcess := startAt s\<rparr> \<and>
    procs t = (if c = NULL then procs s else (procs s)(c \<mapsto> (P s c)\<lparr>rsp := r,
       executions := if quota_over s then 0 else executions (P s c)\<rparr>))"
proof (cases "c = NULL")
  case True
  then show ?thesis using b by (intro exI [of _ s]) (simp add: nextEnter_def c_def startAt_def quota_over_def)
next
  case False
  with assms have ic: "c \<in> set ps" by simp
  obtain p where p: "procs s c = Some p" using base_dom [OF b ic] by auto
  have "mild (P s c) ((P s c)\<lparr>rsp := r\<rparr>)" by (simp add: mild_def owns_def pinv_def)
  note m = modP_ok [OF b ic, where f = "rsp_update (\<lambda>_. r)", OF this]
  let ?s = "s\<lparr>procs := (procs s)(c \<mapsto> p\<lparr>rsp := r\<rparr>)\<rparr>"
  obtain xs ys where ps: "ps = xs @ c # ys" using split_list [OF ic] by blast
  have nx: "next_p p = hd0 ys" using base_next [of s xs c ys ss] b ps p by simp
  then have "next_p p = NULL \<or> next_p p \<in> set ps" using ps by (cases ys) auto
  moreover have "mild (P ?s c) ((P ?s c)\<lparr>executions := 0\<rparr>)" by (simp add: mild_def owns_def pinv_def)
  note m2 = modP_ok [OF _ ic, where f = "executions_update (\<lambda>_. 0)" and s = ?s, OF _ this]
  ultimately show ?thesis
    using False p m m2 ic by (auto simp: nextEnter_def c_def startAt_def quota_over_def fun_upd_def)
qed

lemma block_idle:
  assumes b: "base_inv s ps ss" and i: "i \<in> set ps" "pid (P s i) = IDLE_PID"
    and c: "currentProcess s \<in> set ps" "currentProcess s \<noteq> i"
  shows "blockWith ft IDLE_PID s = Some (EXIT_SUCCESS, s\<lparr>procs := (procs s)(i \<mapsto> (P s i)\<lparr>state := BLOCKED\<rparr>)\<rparr>)"
    and "base_inv (s\<lparr>procs := (procs s)(i \<mapsto> (P s i)\<lparr>state := BLOCKED\<rparr>)\<rparr>) ps ss"
proof -
  have st: "state (P s i) \<noteq> DEAD" "foreground (P s i) = 0" using base_pinv [OF b i(1)] i(2) by (auto simp: pinv_def)
  then have "mild (P s i) ((P s i)\<lparr>state := BLOCKED\<rparr>)" by (intro mild_state) auto
  note m = modP_ok [OF b i(1), where f = "state_update (\<lambda>_. BLOCKED)", OF this]
  show b': "base_inv (s\<lparr>procs := (procs s)(i \<mapsto> (P s i)\<lparr>state := BLOCKED\<rparr>)\<rparr>) ps ss" by (rule m(2))
  obtain p q where p: "procs s i = Some p" "procs s (currentProcess s) = Some q" using base_dom [OF b] i c by metis
  have n: "i \<noteq> NULL" "pid q \<noteq> IDLE_PID" using base_nonnull [OF b] i c pid_eq_iff [OF b c(1) i(1)] p by (metis, auto)
  obtain pr where "searchProcess IDLE_PID (firstProcess s) s = Some (i, pr)" using search_found' [OF b i] .
  moreover obtain x where "searchProcess (ppid p) (firstProcess s) (s\<lparr>procs := (procs s)(i \<mapsto> (P s i)\<lparr>state := BLOCKED\<rparr>)\<rparr>) = Some x"
    using search_cases [OF b', of "ppid p"] by (metis (no_types, lifting) sched_state.ext_inject sched_state.surjective sched_state.update_convs(4))
  ultimately show "blockWith ft IDLE_PID s = Some (EXIT_SUCCESS, s\<lparr>procs := (procs s)(i \<mapsto> (P s i)\<lparr>state := BLOCKED\<rparr>)\<rparr>)"
    using p n st c m(1) by (cases x) (simp add: blockWith_def)
qed

text \<open>The loop, from the state in which it is entered.\<close>

lemma find_takeWhile:
  "find Q xs = None \<Longrightarrow> takeWhile (\<lambda>a. \<not> Q a) xs = xs"
  "find Q xs = Some x \<Longrightarrow> \<exists>cs. xs = takeWhile (\<lambda>a. \<not> Q a) xs @ x # cs \<and> Q x"
  by (induction xs) (auto split: if_splits)

lemma set_rota: "distinct ps \<Longrightarrow> c = NULL \<or> c \<in> set ps \<Longrightarrow> set (rota ps c) = set ps"
  by (rule rota_split) auto

lemma nextLoop_spec:
  assumes b: "base_inv s ps ss" and f: "firstBlockedIteration s = NULL"
    and c: "currentProcess s = NULL \<or> currentProcess s \<in> set ps"
  defines "Q \<equiv> \<lambda>a. state (P s a) = READY"
  defines "rot \<equiv> rota ps (currentProcess s)"
  defines "x \<equiv> (case find Q rot of Some a \<Rightarrow> a | None \<Rightarrow> idle_of s ps)"
  defines "qs \<equiv> filter (\<lambda>a. \<not> (state (P s a) = DEAD \<and> a \<in> set (takeWhile (\<lambda>a. \<not> Q a) rot))) ps"
  shows "\<exists>t. nextLoop s = Some t \<and> base_inv t qs ss \<and> currentProcess t = x \<and> x \<in> set qs \<and>
    idleFlag t = (if find Q rot = None then 1 else idleFlag s) \<and>
    same (if find Q rot = None then s\<lparr>procs := (procs s)(x \<mapsto> (P s x)\<lparr>state := READY\<rparr>)\<rparr> else s) t (set qs) \<and>
    state (P t x) = READY"
proof -
  obtain xs zs where xz: "ps = xs @ zs" "rot = zs @ xs" "currentProcess s = hd0 zs"
    using rota_split [OF base_distinct [OF b] c] unfolding rot_def by metis
  show ?thesis
  proof (cases "find Q rot")
    case None
    then have nr: "state (P s z) \<noteq> READY" if "z \<in> set (xs @ zs)" for z
      using that xz(2) by (auto simp: find_None_iff Q_def)
    have x: "x = idle_of s ps" by (simp add: x_def None)
    note i = idle_of [OF b, folded x]
    have tw: "takeWhile (\<lambda>a. \<not> Q a) rot = rot" using None by (rule find_takeWhile)
    have qs: "qs = alive s ps" unfolding qs_def tw alive_def using xz by (intro filter_cong) auto
    have "state (P s x) \<noteq> DEAD" using base_pinv [OF b i(1)] i(2) by (auto simp: pinv_def)
    then have xq: "x \<in> set (alive s ps)" using i(1) by simp
    from nextLoop_idle [OF b [unfolded xz(1)] xz(3) f nr i(1,2) [unfolded xz(1)]] obtain t where
      t: "nextLoop s = Some t" "base_inv t (alive s ps) ss" "currentProcess t = x" "idleFlag t = 1"
        "same (s\<lparr>procs := (procs s)(x \<mapsto> (P s x)\<lparr>state := READY\<rparr>)\<rparr>) t (set (alive s ps))"
      unfolding xz(1) by blast
    from same_state [OF t(5) xq] have "state (P t x) = READY" by simp
    with t xq None qs show ?thesis by simp
  next
    case (Some y)
    then have x: "x = y" by (simp add: x_def)
    obtain cs where r: "rot = takeWhile (\<lambda>a. \<not> Q a) rot @ x # cs" "Q x" using find_takeWhile(2) [OF Some] x by blast
    define bs where "bs = takeWhile (\<lambda>a. \<not> Q a) rot"
    have bs: "zs @ xs = bs @ x # cs" using r(1) xz(2) by (simp add: bs_def)
    have nr: "state (P s z) \<noteq> READY" if "z \<in> set bs" for z
      using set_takeWhileD [OF that [unfolded bs_def]] by (simp add: Q_def)
    have rx: "state (P s x) = READY" using r(2) by (simp add: Q_def)
    have qs: "qs = filter (\<lambda>a. \<not> (a \<in> set bs \<and> state (P s a) = DEAD)) (xs @ zs)"
      unfolding qs_def bs_def xz(1) by (intro filter_cong) auto
    have "set zs \<union> set xs = set bs \<union> insert x (set cs)" using arg_cong [OF bs, of set] by simp
    then have xq: "x \<in> set qs" unfolding qs using rx by auto
    from nextLoop_ready [OF b [unfolded xz(1)] xz(3) f bs nr rx] obtain t where
      t: "nextLoop s = Some t" "base_inv t qs ss" "currentProcess t = x" "idleFlag t = idleFlag s" "same s t (set qs)"
      unfolding qs by blast
    from same_state [OF t(5) xq] rx have "state (P t x) = READY" by simp
    with t xq Some show ?thesis by simp
  qed
qed

lemma kept_iff:
  "kept p q \<longleftrightarrow> name q = name p \<and> pid q = pid p \<and> ppid q = ppid p \<and> rbp q = rbp p \<and> priority q = priority p \<and>
     foreground q = foreground p \<and> fd q = fd p \<and> children q = children p \<and> backWait q = backWait p \<and> bPointer q = bPointer p"
  by (cases p; cases q) (auto simp: kept_def)

lemma kept_core:
  assumes "core q = core (if B then p\<lparr>state := READY\<rparr> else p)"
  shows "kept p q" "rsp q = rsp p" "executions q = executions p" "state q = (if B then READY else state p)" "pid q = pid p"
  using core_eqD [OF assms] by (auto simp: kept_iff)

lemma kept_trans: "kept p q \<Longrightarrow> kept q r \<Longrightarrow> kept p r"
  by (simp add: kept_iff)

lemma nextProcess_spec:
  assumes inv: "sched_inv s ps ss"
  defines "x \<equiv> pick s ps" and "qs \<equiv> survivors s ps" and "c \<equiv> currentProcess s"
  shows "\<exists>t. nextProcess r s = Some (rsp (P t x), t) \<and> sched_inv t qs ss \<and> currentProcess t = x \<and> x \<in> set qs \<and>
    state (P t x) = READY \<and>
    (\<forall>a \<in> set qs. kept (P s a) (P t a) \<and> (pid (P s a) \<noteq> IDLE_PID \<longrightarrow> state (P t a) = state (P s a)) \<and>
       rsp (P t a) = (if a = c then r else rsp (P s a)) \<and>
       executions (P t a) =
         (let e = (if a = c \<and> quota_over s then 0 else executions (P s a)) in if a = x then s8 (e + 1) else e)) \<and>
    ram t = ram s \<and> tm t = tm s \<and> fds t = fds s \<and> frames t = frames s \<and> sleeps t = sleeps s \<and>
    firstSleep t = firstSleep s \<and> pids t = pids s \<and> update t = update s \<and> mem_frame s t \<and>
    (idleFlag t = 0 \<longrightarrow> pid (P t x) \<noteq> IDLE_PID \<or> idleFlag s = 0)"
proof -
  have b: "base_inv s ps ss" and f: "firstBlockedIteration s = NULL" and ic: "c = NULL \<or> c \<in> set ps"
    using inv by (auto simp: sched_inv_def c_def)
  from nextEnter_spec [OF b ic [unfolded c_def], of r, folded c_def] obtain u where
    u: "nextEnter r s = Some u" "base_inv u ps ss" "currentProcess u = startAt s" "startAt s = NULL \<or> startAt s \<in> set ps"
      "u = s\<lparr>procs := procs u, currentProcess := startAt s\<rparr>"
      "procs u = (if c = NULL then procs s else (procs s)(c \<mapsto> (P s c)\<lparr>rsp := r,
         executions := if quota_over s then 0 else executions (P s c)\<rparr>))" by blast
  have uf: "firstBlockedIteration u = NULL" "idleFlag u = idleFlag s" using f by (subst u(5), simp)+
  have ust: "state (P u a) = state (P s a)" "pid (P u a) = pid (P s a)" for a by (auto simp: u(6))
  have id: "idle_of u ps = idle_of s ps" by (simp add: idle_of_def ust)
  have ue: "rsp (P u a) = (if a = c then r else rsp (P s a))"
    "executions (P u a) = (if a = c \<and> quota_over s then 0 else executions (P s a))" "kept (P s a) (P u a)" if "a \<in> set ps" for a
    using that base_nonnull [OF b] by (auto simp: u(6) kept_def)
  let ?none = "find (\<lambda>a. state (P s a) = READY) (rota ps (startAt s)) = None"
  have fe: "find (\<lambda>a. state (P u a) = READY) (rota ps (currentProcess u)) =
      find (\<lambda>a. state (P s a) = READY) (rota ps (startAt s))" by (simp add: ust u(3))
  have xe: "(case find (\<lambda>a. state (P s a) = READY) (rota ps (startAt s)) of Some a \<Rightarrow> a | None \<Rightarrow> idle_of u ps) = x"
    unfolding id by (simp add: x_def pick_def)
  have qe: "filter (\<lambda>a. \<not> (state (P u a) = DEAD \<and> a \<in> set (takeWhile (\<lambda>a. state (P u a) \<noteq> READY)
      (rota ps (currentProcess u))))) ps = qs" by (simp add: qs_def survivors_def ust u(3))
  from nextLoop_spec [OF u(2) uf(1) u(4) [folded u(3)], unfolded fe xe qe uf(2)] obtain v where
    v: "nextLoop u = Some v" "base_inv v qs ss" "currentProcess v = x" "x \<in> set qs" "idleFlag v = (if ?none then 1 else idleFlag s)"
      "same (if ?none then u\<lparr>procs := (procs u)(x \<mapsto> (P u x)\<lparr>state := READY\<rparr>)\<rparr> else u) v (set qs)" "state (P v x) = READY"
    by blast
  define i where "i = idle_of v qs"
  note i = idle_of [OF v(2), folded i_def]
  let ?blk = "pid (P v x) \<noteq> IDLE_PID \<and> idleFlag v \<noteq> 0"
  define w where "w = (if ?blk then v\<lparr>idleFlag := 0, procs := (procs v)(i \<mapsto> (P v i)\<lparr>state := BLOCKED\<rparr>)\<rparr> else v)"
  have bw: "base_inv w qs ss" and runw: "(if ?blk then do { (_, s) \<leftarrow> blockWith no_switch IDLE_PID (v\<lparr>idleFlag := 0\<rparr>); Some s } else Some v) = Some w"
  proof -
    have "x \<noteq> i" if "?blk" using that i(2) by auto
    then have "blockWith no_switch IDLE_PID (v\<lparr>idleFlag := 0\<rparr>) =
        Some (EXIT_SUCCESS, v\<lparr>idleFlag := 0, procs := (procs v)(i \<mapsto> (P v i)\<lparr>state := BLOCKED\<rparr>)\<rparr>)"
      "base_inv (v\<lparr>idleFlag := 0, procs := (procs v)(i \<mapsto> (P v i)\<lparr>state := BLOCKED\<rparr>)\<rparr>) qs ss" if "?blk"
      using that block_idle(1) [of "v\<lparr>idleFlag := 0\<rparr>" qs ss i no_switch] block_idle(2) [of "v\<lparr>idleFlag := 0\<rparr>" qs ss i]
        v(2-4) i(1,2) by simp_all
    then show "base_inv w qs ss" "(if ?blk then do { (_, s) \<leftarrow> blockWith no_switch IDLE_PID (v\<lparr>idleFlag := 0\<rparr>); Some s } else Some v) = Some w"
      using v(2) by (auto simp: w_def)
  qed
  let ?w = "w\<lparr>firstBlockedIteration := NULL\<rparr>"
  let ?f = "\<lambda>c. c\<lparr>executions := s8 (executions c + 1)\<rparr>"
  have cw: "currentProcess w = x" using v(3) by (simp add: w_def)
  have "mild (P ?w x) (?f (P ?w x))" by (simp add: mild_def owns_def pinv_def)
  note mx = modP_ok [where f = ?f, OF _ v(4) this]
  define t where "t = ?w\<lparr>procs := (procs w)(x \<mapsto> ?f (P w x))\<rparr>"
  have mt: "modP x ?f ?w = Some t" "base_inv t qs ss" using mx bw by (simp_all add: t_def)
  obtain px where px: "procs v x = Some px" using base_dom [OF v(2,4)] by blast
  have run: "nextProcess r s = Some (rsp (P t x), t)"
    using u(1) v(1,3) px runw mt(1) cw by (simp add: nextProcess_def t_def)
  have cv: "core (P v a) = core (if ?none \<and> a = x then (P u a)\<lparr>state := READY\<rparr> else P u a)" if "a \<in> set qs" for a
    using v(6) that by (auto simp: same_def split: if_splits)
  have ps: "a \<in> set ps" if "a \<in> set qs" for a using that by (auto simp: qs_def survivors_def)
  have xi: "pid (P u x) = IDLE_PID" if "?none"
    using that idle_of_pid [OF b] by (simp add: x_def pick_def ust)
  have tw: "P t a = (if a = x then ?f (P w a) else P w a)" for a by (simp add: t_def)
  have wv: "P w a = (if ?blk \<and> a = i then (P v a)\<lparr>state := BLOCKED\<rparr> else P v a)" for a by (auto simp: w_def)
  have each: "kept (P s a) (P t a) \<and> (pid (P s a) \<noteq> IDLE_PID \<longrightarrow> state (P t a) = state (P s a)) \<and>
       rsp (P t a) = (if a = c then r else rsp (P s a)) \<and>
       executions (P t a) =
         (let e = (if a = c \<and> quota_over s then 0 else executions (P s a)) in if a = x then s8 (e + 1) else e)"
    if "a \<in> set qs" for a
  proof -
    note e = kept_core [OF cv [OF that]] and eu = ue [OF ps [OF that]]
    have "kept (P v a) (P t a)" unfolding tw wv by (simp add: kept_iff)
    with e(1) eu(3) have "kept (P s a) (P t a)" using kept_trans by blast
    moreover have "state (P t a) = state (P s a)" if "pid (P s a) \<noteq> IDLE_PID"
    proof -
      have "a \<noteq> i" using that i(2) e(5) ust(2) [of a] by auto
      moreover have "\<not> (?none \<and> a = x)" using xi that ust(2) [of a] by auto
      ultimately show ?thesis using e(4) ust(1) [of a] unfolding tw wv by auto
    qed
    moreover have "rsp (P t a) = rsp (P v a)" "executions (P t a) = (if a = x then s8 (executions (P v a) + 1) else executions (P v a))"
      unfolding tw wv by simp_all
    ultimately show ?thesis unfolding Let_def using eu(1,2) e(2,3) by (cases "a = x"; cases "a = c"; simp)
  qed
  have fr: "ram v = ram s" "tm v = tm s" "fds v = fds s" "frames v = frames s" "sleeps v = sleeps s"
    "firstSleep v = firstSleep s" "pids v = pids s" "update v = update s" "cpu_rsp v = cpu_rsp s"
  proof -
    have "ram u = ram s" "tm u = tm s" "fds u = fds s" "frames u = frames s" "sleeps u = sleeps s"
      "firstSleep u = firstSleep s" "pids u = pids s" "update u = update s" "cpu_rsp u = cpu_rsp s"
      by (subst u(5), simp)+
    then show "ram v = ram s" "tm v = tm s" "fds v = fds s" "frames v = frames s" "sleeps v = sleeps s"
      "firstSleep v = firstSleep s" "pids v = pids s" "update v = update s" "cpu_rsp v = cpu_rsp s"
      using v(6) by (auto simp: same_def split: if_splits)
  qed
  have "mem_frame s t"
  proof -
    have su: "procs u p = None" if "procs s p = None" for p
      using that base_dom [OF b, of c] ic by (auto simp: u(6))
    have mu: "mm u = mm s" by (subst u(5)) simp
    have ux: "\<exists>q. procs u x = Some q" using base_dom [OF u(2) ps [OF v(4)]] .
    have "mem_frame (if ?none then u\<lparr>procs := (procs u)(x \<mapsto> (P u x)\<lparr>state := READY\<rparr>)\<rparr> else u) v"
      using v(6) by (simp add: same_def)
    then have "mem_frame u v" using ux mem_frame_upd [of u x] by (cases ?none) auto
    moreover have "mem_frame s u" using su mu by (simp add: mem_frame_def)
    moreover have "mem_frame v t" using px base_dom [OF v(2) i(1)] by (auto simp: mem_frame_def t_def w_def)
    ultimately show ?thesis using mem_frame_trans by blast
  qed
  moreover have "ram t = ram s" "tm t = tm s" "fds t = fds s" "frames t = frames s" "sleeps t = sleeps s"
    "firstSleep t = firstSleep s" "pids t = pids s" "update t = update s" using fr by (simp_all add: t_def w_def)
  moreover have "sched_inv t qs ss" "currentProcess t = x"
    using mt(2) cw v(4) by (simp_all add: sched_inv_def t_def)
  moreover have "state (P t x) = READY"
    using v(7) i(2) unfolding tw wv by auto
  moreover have "pid (P t x) \<noteq> IDLE_PID \<or> idleFlag s = 0" if "idleFlag t = 0"
    using that v(5) unfolding tw wv by (auto simp: t_def w_def split: if_splits)
  ultimately show ?thesis using run v(4) each by blast
qed

end
