(* ===== verification/Scheduler_Timer.thy ===== *)
theory Scheduler_Timer
  imports Scheduler_Next
begin

text \<open>
  The timer interrupt: waking the processes whose sleep is over, counting the tick, choosing the
  next process. It always returns and keeps the invariant.
\<close>

section \<open>Sleeping processes\<close>

text \<open>What waking processes may do to a process, and what it may write.\<close>

definition woken :: "processCDT \<Rightarrow> processCDT \<Rightarrow> bool" where
  "woken p q \<longleftrightarrow> q = p\<lparr>state := state q, foreground := foreground q, backWait := backWait q\<rparr> \<and>
     (state q = state p \<or> state p \<noteq> DEAD \<and> state q = READY)"

lemma woken_refl [simp]: "woken p p"
  by (simp add: woken_def)

lemma woken_owns: "woken p q \<Longrightarrow> owns q = owns p"
  unfolding woken_def owns_def by (cases p; cases q) auto

lemma woken_trans: "woken p q \<Longrightarrow> woken q r \<Longrightarrow> woken p r"
  unfolding woken_def by (cases p; cases q; cases r) auto

text \<open>Only blocks that hold processes and entries of the sleep list are freed, together with the object.\<close>

definition others_kept :: "sched_state \<Rightarrow> sched_state \<Rightarrow> bool" where
  "others_kept s t \<longleftrightarrow> (\<forall>p. (procs s p = None \<longrightarrow> procs t p = None) \<and> (sleeps s p = None \<longrightarrow> sleeps t p = None) \<and>
     (payload (mm t) p = payload (mm s) p \<or> procs s p \<noteq> None \<and> procs t p = None \<or> sleeps s p \<noteq> None \<and> sleeps t p = None))"

lemma others_kept_refl [simp]: "others_kept s s"
  by (simp add: others_kept_def)

lemma others_kept_trans: "others_kept s t \<Longrightarrow> others_kept t u \<Longrightarrow> others_kept s u"
  unfolding others_kept_def by metis

text \<open>Objects live in allocated blocks, at most one in each.\<close>

definition tidy :: "sched_state \<Rightarrow> bool" where
  "tidy s \<longleftrightarrow> (\<forall>p. p \<noteq> NULL \<longrightarrow> (payload (mm s) p = None \<longrightarrow> procs s p = None \<and> sleeps s p = None) \<and>
     (procs s p = None \<or> sleeps s p = None))"

lemma tidy_kept: "tidy s \<Longrightarrow> others_kept s t \<Longrightarrow> tidy t"
  unfolding tidy_def others_kept_def by metis

lemma tidy_grow:
  assumes "tidy s" "\<And>p. procs t p = None \<longleftrightarrow> procs s p = None" "\<And>p. sleeps t p = None \<longleftrightarrow> sleeps s p = None"
    and "\<And>p. payload (mm s) p \<noteq> None \<Longrightarrow> payload (mm t) p \<noteq> None"
  shows "tidy t"
  using assms unfolding tidy_def by metis

lemma others_kept_procs:
  assumes "\<And>p. procs t p = None \<longleftrightarrow> procs s p = None" "sleeps t = sleeps s" "mm t = mm s" shows "others_kept s t"
  using assms by (simp add: others_kept_def)

definition wakes :: "sched_state \<Rightarrow> sched_state \<Rightarrow> addr list \<Rightarrow> bool" where
  "wakes s t ps \<longleftrightarrow> (\<forall>a \<in> set ps. woken (P s a) (P t a)) \<and>
     t = s\<lparr>procs := procs t, sleeps := sleeps t, firstSleep := firstSleep t, mm := mm t, tm := tm t\<rparr> \<and> others_kept s t"

lemma wakes_refl [simp]: "wakes s s ps"
  by (simp add: wakes_def)

lemma wakes_trans:
  assumes "wakes s t ps" "wakes t u ps" shows "wakes s u ps"
proof -
  have "u = t\<lparr>procs := procs u, sleeps := sleeps u, firstSleep := firstSleep u, mm := mm u, tm := tm u\<rparr>"
    using assms(2) by (simp add: wakes_def)
  moreover have "t = s\<lparr>procs := procs t, sleeps := sleeps t, firstSleep := firstSleep t, mm := mm t, tm := tm t\<rparr>"
    using assms(1) by (simp add: wakes_def)
  ultimately have "u = s\<lparr>procs := procs u, sleeps := sleeps u, firstSleep := firstSleep u, mm := mm u, tm := tm u\<rparr>"
    by (cases s; cases t; cases u) simp
  then show ?thesis using assms woken_trans others_kept_trans [of s t u] unfolding wakes_def by blast
qed

lemma wakesD:
  assumes "wakes s t ps"
  shows "currentProcess t = currentProcess s" "firstBlockedIteration t = firstBlockedIteration s" "idleFlag t = idleFlag s"
    "cpu_rsp t = cpu_rsp s" "pids t = pids s" "firstProcess t = firstProcess s" "ram t = ram s" "fds t = fds s"
    "frames t = frames s" "lastProcess t = lastProcess s" "update t = update s"
  using assms unfolding wakes_def by (cases s; cases t; simp)+

text \<open>The identifiers in the sleep list: only these processes can be woken by the timer.\<close>

definition sleepers :: "sched_state \<Rightarrow> int set" where
  "sleepers s = {sleep_pid x | e x. sleeps s e = Some x \<and> e \<noteq> NULL}"

lemma sleepersI: "sleeps s e = Some x \<Longrightarrow> e \<noteq> NULL \<Longrightarrow> sleep_pid x \<in> sleepers s"
  unfolding sleepers_def by blast

lemma sleepersE:
  assumes "k \<in> sleepers s" obtains e x where "sleeps s e = Some x" "e \<noteq> NULL" "k = sleep_pid x"
  using assms unfolding sleepers_def by blast

definition slept :: "sched_state \<Rightarrow> sched_state \<Rightarrow> addr list \<Rightarrow> bool" where
  "slept s t ps \<longleftrightarrow> sleepers t \<subseteq> sleepers s \<and>
     (\<forall>a \<in> set ps. state (P t a) = state (P s a) \<or> pid (P s a) \<in> sleepers s)"

lemma slept_refl [simp]: "slept s s ps"
  by (simp add: slept_def)

lemma slept_trans:
  assumes "slept s t ps" "slept t u ps" "wakes s t ps" shows "slept s u ps"
proof -
  have "pid (P t a) = pid (P s a)" if "a \<in> set ps" for a
    using assms(3) that unfolding wakes_def woken_def by (cases "P s a"; cases "P t a") auto
  then show ?thesis using assms(1,2) unfolding slept_def by (metis subset_trans subsetD)
qed

text \<open>Unblocking any process identifier, found or not.\<close>

lemma foreFromParent_none:
  assumes "foreFromParent a s = Some t" shows "procs t c = None \<longleftrightarrow> procs s c = None"
  using assms by (cases "procs s a") (auto simp: foreFromParent_def modP_none split: if_splits)

lemma unblock_none:
  assumes "unblock k s = Some (r, t)" shows "procs t c = None \<longleftrightarrow> procs s c = None"
  using assms
  by (auto simp: unblock_def modP_none foreFromParent_none split: Option.bind_split_asm if_splits prod.splits)

lemma unblock_spec:
  assumes b: "base_inv s ps ss"
  shows "\<exists>r t. unblock k s = Some (r, t) \<and> base_inv t ps ss \<and> wakes s t ps \<and> t = s\<lparr>procs := procs t\<rparr> \<and>
    (\<forall>a \<in> set ps. pid (P s a) = k \<longrightarrow> state (P s a) \<noteq> DEAD \<longrightarrow> state (P t a) = READY) \<and>
    (\<forall>a \<in> set ps. pid (P s a) \<noteq> k \<longrightarrow> state (P t a) = state (P s a))"
proof (cases "\<exists>a \<in> set ps. pid (P s a) = k \<and> state (P s a) \<noteq> DEAD")
  case True
  then obtain a where a: "a \<in> set ps" "pid (P s a) = k" "state (P s a) \<noteq> DEAD" by blast
  from unblock_found [OF b a] obtain t where
    t: "unblock k s = Some (EXIT_SUCCESS, t)" "base_inv t ps ss" "t = s\<lparr>procs := procs t\<rparr>" "state (P t a) = READY"
      "\<forall>c \<in> set ps. wake_eq (if c = a then (P s c)\<lparr>state := READY\<rparr> else P s c) (P t c)" by blast
  have "woken (P s c) (P t c)" if "c \<in> set ps" for c
    using t(5) [rule_format, OF that] a(3) unfolding wake_eq_def woken_def
    by (cases "P s c"; cases "P t c") (auto split: if_splits)
  moreover have "t = s\<lparr>procs := procs t, sleeps := sleeps t, firstSleep := firstSleep t, mm := mm t, tm := tm t\<rparr>"
    using t(3) by (cases s; cases t) simp
  moreover have "c = a" if "c \<in> set ps" "pid (P s c) = k" for c
    using pid_eq_iff [OF b that(1) a(1)] that(2) a(2) by simp
  moreover have "others_kept s t"
    by (rule others_kept_procs [OF unblock_none [OF t(1)]]) (subst t(3), simp)+
  moreover have "state (P t c) = state (P s c)" if "c \<in> set ps" "pid (P s c) \<noteq> k" for c
    using wake_eqD(2) [OF t(5) [rule_format, OF that(1)]] that(2) a(2) by (auto split: if_splits)
  ultimately show ?thesis using t unfolding wakes_def by blast
next
  case False
  then have "unblock k s = Some (EXIT_FAILURE, s)" by (intro unblock_fails [OF b]) blast
  with b False show ?thesis by auto
qed

lemma base_inv_sleeps:
  assumes b: "base_inv s ps ss"
    and "lpath (nxt_sl t) (firstSleep t) us NULL" "\<exists>z. sleeps t NULL = Some z \<and> next_s z = NULL"
    and "procs t = procs s" "firstProcess t = firstProcess s" "lastProcess t = lastProcess s" "pids t = pids s"
    and "mm_ok (mm t)" "distinct (owned s ps us)" "\<And>p. p \<in> set (owned s ps us) \<Longrightarrow> payload (mm t) p \<noteq> None"
  shows "base_inv t ps us"
proof -
  have "owned t ps us = owned s ps us" using assms(4) by (intro owned_cong) simp
  with assms show ?thesis unfolding base_inv_def list_inv_def by simp
qed

lemma owned_cons: "set (owned s ps (xs @ w # ys)) = insert w (set (owned s ps (xs @ ys)))"
  "distinct (owned s ps (xs @ w # ys)) \<longleftrightarrow> w \<notin> set (owned s ps (xs @ ys)) \<and> distinct (owned s ps (xs @ ys))"
  by (auto simp: owned_def)

lemma wakeUp_spec:
  assumes b: "base_inv s ps (xs @ w # ys)"
  shows "\<exists>t. wakeUp w (last0 xs) s = Some t \<and> base_inv t ps (xs @ ys) \<and> wakes s t ps \<and> slept s t ps \<and> sleeps t w = None \<and>
    (\<forall>a. a \<noteq> w \<longrightarrow> a \<notin> set xs \<longrightarrow> sleeps t a = sleeps s a) \<and>
    (\<forall>a \<in> set ps. pid (P s a) = sleep_pid (the (sleeps s w)) \<longrightarrow> state (P s a) \<noteq> DEAD \<longrightarrow> state (P t a) = READY) \<and>
    (xs \<noteq> [] \<longrightarrow> (\<exists>z. sleeps t (last0 xs) = Some z \<and> next_s z = hd0 ys))"
proof -
  note path = base_sleeps(1) [OF b]
  have d: "distinct (xs @ w # ys)" using lpath_distinct [OF path] .
  have nn: "NULL \<notin> set (xs @ w # ys)" using lpath_nonnull [OF path] .
  obtain e where e: "sleeps s w = Some e" "next_s e = hd0 ys"
    using path by (auto simp: lpath_append dest: lpath_hd0)
  have fs: "w = firstSleep s \<longleftrightarrow> xs = []" using lpath_hd0 [OF path] d by (cases xs) auto
  note un = lpath_unlink [OF path]
  define u where "u = (if xs = [] then s\<lparr>firstSleep := hd0 ys\<rparr>
    else s\<lparr>sleeps := (sleeps s)(last xs \<mapsto> (the (sleeps s (last xs)))\<lparr>next_s := hd0 ys\<rparr>)\<rparr>)"
  have lx: "last0 xs = last xs" "last xs \<in> set xs" "last xs \<noteq> NULL" "last xs \<noteq> w" if "xs \<noteq> []"
  proof -
    have l: "last xs \<in> set xs" using that by simp
    show "last0 xs = last xs" "last xs \<in> set xs" "last xs \<noteq> NULL" "last xs \<noteq> w"
      using that l nn d by (simp add: last0_def, simp, metis Un_iff set_append, auto)
  qed
  have step: "(if w = firstSleep s then Some (s\<lparr>firstSleep := next_s e\<rparr>)
      else modSl (last0 xs) (next_s_update (\<lambda>_. next_s e)) s) = Some u"
  proof (cases "xs = []")
    case False
    then have "\<exists>z. sleeps s (last xs) = Some z" using lpath_dom [OF path, of "last xs"] lx(2) by auto
    with False e fs lx show ?thesis by (auto simp: u_def modSl_def)
  qed (use e fs in \<open>simp add: u_def\<close>)
  have "nxt_sl u = (if xs = [] then nxt_sl s else (nxt_sl s)(last xs \<mapsto> hd0 ys))" by (auto simp: u_def)
  then have pu: "lpath (nxt_sl u) (firstSleep u) (xs @ ys) NULL" using un by (simp add: u_def split: if_splits)
  have pu2: "procs u = procs s" "firstProcess u = firstProcess s" "lastProcess u = lastProcess s" "pids u = pids s" "mm u = mm s"
    "sleeps u NULL = sleeps s NULL" "sleeps u w = sleeps s w" using lx by (auto simp: u_def)
  have bu: "base_inv u ps (xs @ ys)"
    by (rule base_inv_sleeps [OF b pu])
      (use base_sleeps(2) [OF b] base_owned [OF b] base_live [OF b] base_mm [OF b] pu2 in \<open>auto simp: owned_cons\<close>)
  obtain r v where v: "unblock (sleep_pid e) u = Some (r, v)" "base_inv v ps (xs @ ys)" "wakes u v ps" "v = u\<lparr>procs := procs v\<rparr>"
    "\<forall>a \<in> set ps. pid (P u a) = sleep_pid e \<longrightarrow> state (P u a) \<noteq> DEAD \<longrightarrow> state (P v a) = READY"
    "\<forall>a \<in> set ps. pid (P u a) \<noteq> sleep_pid e \<longrightarrow> state (P v a) = state (P u a)"
    using unblock_spec [OF bu, of "sleep_pid e"] by blast
  have mv: "mm v = mm s" "sleeps v = sleeps u" using pu2(5) by (subst v(4), simp)+
  obtain m where m: "free_s w v = Some (v\<lparr>mm := m\<rparr>)" "mm_ok m" "payload m = (payload (mm s))(w := None)"
    using free_s_live [of v w] base_mm [OF b] base_live [OF b, of w] mv(1) by (auto simp: owned_cons)
  define t where "t = v\<lparr>mm := m, sleeps := (sleeps v)(w := None)\<rparr>"
  have run: "wakeUp w (last0 xs) s = Some t"
    using e step v(1) m(1) by (simp add: wakeUp_def t_def)
  have "w \<notin> set (xs @ ys)" using d by auto
  have pt: "lpath (nxt_sl t) (firstSleep t) (xs @ ys) NULL"
    using base_sleeps(1) [OF v(2)] d by (subst lpath_cong [where n' = "nxt_sl v"]) (auto simp: t_def)
  have "owned v ps (xs @ ys) = owned s ps (xs @ ys)"
    by (rule owned_cong) (use v(3) pu2(1) in \<open>auto simp: wakes_def woken_owns\<close>)
  then have ow: "p \<noteq> w \<and> payload (mm s) p \<noteq> None" if "p \<in> set (owned v ps (xs @ ys))" for p
    using that base_owned [OF b] base_live [OF b, of p] by (auto simp: owned_cons)
  have bt: "base_inv t ps (xs @ ys)"
    by (rule base_inv_sleeps [OF v(2) pt])
      (use base_sleeps(2) [OF v(2)] base_owned [OF v(2)] ow m(2,3) nn in \<open>auto simp: t_def\<close>)
  have wt: "wakes s t ps"
  proof -
    have "sleeps s (last xs) \<noteq> None" if "xs \<noteq> []" using lpath_dom [OF path, of "last xs"] lx(2) [OF that] by auto
    then have "others_kept s u" by (auto simp: u_def others_kept_def)
    then have "wakes s u ps" by (auto simp: u_def wakes_def)
    moreover have "others_kept v t" using m(3) mv pu2(7) e(1) by (auto simp: t_def others_kept_def)
    then have "wakes v t ps" by (auto simp: t_def wakes_def)
    ultimately show ?thesis using v(3) wakes_trans by blast
  qed
  have "slept s t ps"
  proof -
    have ex: "\<exists>y. sleeps s a = Some y \<and> sleep_pid y = sleep_pid x" if "sleeps t a = Some x" for a x
    proof (cases "xs \<noteq> [] \<and> a = last xs")
      case True
      then obtain y where "sleeps s a = Some y" using lpath_dom [OF path, of "last xs"] lx(2) by auto
      with that True mv(2) lx(4) show ?thesis by (auto simp: t_def u_def)
    qed (use that mv(2) in \<open>auto simp: t_def u_def split: if_splits\<close>)
    have "k \<in> sleepers s" if "k \<in> sleepers t" for k
      using that
    proof (rule sleepersE)
      fix a x
      assume a: "sleeps t a = Some x" "a \<noteq> NULL" "k = sleep_pid x"
      obtain y where y: "sleeps s a = Some y" "sleep_pid y = sleep_pid x" using ex [OF a(1)] by blast
      show ?thesis using sleepersI [OF y(1) a(2)] y(2) a(3) by simp
    qed
    then have "sleepers t \<subseteq> sleepers s" by blast
    moreover have "w \<noteq> NULL" using nn by auto
    then have "sleep_pid e \<in> sleepers s" by (rule sleepersI [OF e(1)])
    ultimately show ?thesis using v(6) pu2(1) unfolding slept_def by (auto simp: t_def)
  qed
  moreover have "\<exists>z. sleeps t (last0 xs) = Some z \<and> next_s z = hd0 ys" if "xs \<noteq> []"
    using that lx [OF that] mv(2) by (simp add: t_def u_def)
  moreover have "sleeps t a = sleeps s a" if "a \<noteq> w" "a \<notin> set xs" for a
    using that lx mv(2) by (auto simp: t_def u_def)
  moreover have "state (P t a) = READY" if "a \<in> set ps" "pid (P s a) = sleep_pid (the (sleeps s w))" "state (P s a) \<noteq> DEAD" for a
    using that v(5) pu2(1) e(1) by (simp add: t_def)
  ultimately show ?thesis using run bt wt by (auto simp: t_def)
qed

section \<open>Checking the sleep list\<close>

lemma checkLoop_spec:
  assumes "base_inv s ps (xs @ zs)"
  shows "\<exists>t us. checkLoop (last0 xs) (hd0 zs) s = Some t \<and> base_inv t ps (xs @ us) \<and> wakes s t ps \<and> slept s t ps \<and>
    set us \<subseteq> set zs"
  using assms
proof (induction zs arbitrary: xs s)
  case Nil
  then show ?case by (intro exI [of _ s] exI [of _ "[]"]) (simp add: checkLoop.simps)
next
  case (Cons z zs)
  define s1 where "s1 = s\<lparr>tm := snd (getTimeOfDay (tm s))\<rparr>"
  have b1: "base_inv s1 ps (xs @ z # zs)" using Cons.prems by (simp add: s1_def)
  have w1: "wakes s s1 ps" by (auto simp: wakes_def s1_def others_kept_def)
  have sl1: "slept s s1 ps" by (simp add: slept_def sleepers_def s1_def)
  note path = base_sleeps(1) [OF b1]
  obtain e where e: "sleeps s1 z = Some e" "next_s e = hd0 zs" using path by (auto simp: lpath_append dest: lpath_hd0)
  have z: "z \<noteq> NULL" using lpath_nonnull [OF path] by auto
  have unf: "checkLoop (last0 xs) z s = (if fst (getTimeOfDay (tm s)) \<ge> sleep_time e + secs e
     then do { s \<leftarrow> wakeUp z (last0 xs) s1; p \<leftarrow> sleeps s (last0 xs); checkLoop (last0 xs) (next_s p) s }
     else checkLoop z (hd0 zs) s1)"
    using z e by (subst checkLoop.simps) (simp add: s1_def case_prod_beta Let_def)
  show ?case
  proof (cases "fst (getTimeOfDay (tm s)) \<ge> sleep_time e + secs e")
    case False
    have "base_inv s1 ps ((xs @ [z]) @ zs)" using b1 by simp
    from Cons.IH [OF this] obtain t us where "checkLoop z (hd0 zs) s1 = Some t" "base_inv t ps ((xs @ [z]) @ us)"
      "wakes s1 t ps" "slept s1 t ps" "set us \<subseteq> set zs" by auto
    with False unf wakes_trans [OF w1] slept_trans [OF sl1 _ w1] show ?thesis by (intro exI [of _ t] exI [of _ "z # us"]) auto
  next
    case due: True
    from wakeUp_spec [OF b1] obtain u where u: "wakeUp z (last0 xs) s1 = Some u" "base_inv u ps (xs @ zs)" "wakes s1 u ps" "slept s1 u ps"
      "xs \<noteq> [] \<longrightarrow> (\<exists>q. sleeps u (last0 xs) = Some q \<and> next_s q = hd0 zs)" by blast
    note ws = wakes_trans [OF w1 u(3)] slept_trans [OF sl1 u(4) w1]
    show ?thesis
    proof (cases "xs = []")
      case True
      obtain q where "sleeps u NULL = Some q" "next_s q = NULL" using base_sleeps(2) [OF u(2)] by blast
      then have "checkLoop (last0 xs) z s = Some u"
        using unf u(1) due True by (simp add: checkLoop.simps [of NULL NULL u])
      with u ws show ?thesis by (intro exI [of _ u] exI [of _ zs]) auto
    next
      case False
      then obtain q where q: "sleeps u (last0 xs) = Some q" "next_s q = hd0 zs" using u(5) by blast
      obtain t us where t: "checkLoop (last0 xs) (hd0 zs) u = Some t" "base_inv t ps (xs @ us)" "wakes u t ps" "slept u t ps" "set us \<subseteq> set zs"
        using Cons.IH [OF u(2)] by blast
      then have "checkLoop (last0 xs) z s = Some t" using unf u(1) due q by simp
      with t wakes_trans [OF ws(1) t(3)] slept_trans [OF ws(2) t(4) ws(1)] show ?thesis by (intro exI [of _ t] exI [of _ us]) auto
    qed
  qed
qed

lemma checkSleeping_spec:
  assumes "sched_inv s ps ss"
  shows "\<exists>t us. checkSleeping s = Some t \<and> sched_inv t ps us \<and> wakes s t ps \<and> slept s t ps \<and> set us \<subseteq> set ss"
proof -
  have b: "base_inv s ps ([] @ ss)" using assms by (simp add: sched_inv_def)
  moreover have "firstSleep s = hd0 ss" using lpath_hd0 [OF base_sleeps(1) [OF b]] by simp
  ultimately obtain t us where "checkSleeping s = Some t" "base_inv t ps us" "wakes s t ps" "slept s t ps" "set us \<subseteq> set ss"
    using checkLoop_spec [OF b] by (auto simp: checkSleeping_def)
  with assms wakesD [of s t ps] show ?thesis by (auto simp: sched_inv_def)
qed

section \<open>The interrupt\<close>

lemma int_20_simps [simp]:
  "procs (int_20 s) = procs s" "currentProcess (int_20 s) = currentProcess s" "cpu_rsp (int_20 s) = cpu_rsp s"
  "sched_inv (int_20 s) ps ss = sched_inv s ps ss" "pick (int_20 s) ps = pick s ps"
  "survivors (int_20 s) ps = survivors s ps" "quota_over (int_20 s) = quota_over s" "idleFlag (int_20 s) = idleFlag s"
  by (simp_all add: int_20_def sched_inv_def pick_def survivors_def startAt_def quota_over_def idle_of_def split: option.split)

lemma forceTimer_spec:
  assumes inv: "sched_inv s ps ss"
  shows "\<exists>u us t. checkSleeping s = Some u \<and> sched_inv u ps us \<and> set us \<subseteq> set ss \<and> wakes s u ps \<and> slept s u ps \<and>
    forceTimer s = Some t \<and> others_kept s t \<and> ram t = ram s \<and> sleepers t \<subseteq> sleepers s \<and> sched_inv t (survivors u ps) us \<and> currentProcess t = pick u ps \<and>
    pick u ps \<in> set (survivors u ps) \<and> state (P t (pick u ps)) = READY \<and> cpu_rsp t = rsp (P t (pick u ps)) \<and>
    (\<forall>a \<in> set (survivors u ps). kept (P u a) (P t a) \<and> (pid (P u a) \<noteq> IDLE_PID \<longrightarrow> state (P t a) = state (P u a)) \<and>
       rsp (P t a) = (if a = currentProcess s then cpu_rsp s else rsp (P u a)))"
proof -
  from checkSleeping_spec [OF inv] obtain u us where
    u: "checkSleeping s = Some u" "sched_inv u ps us" "wakes s u ps" "set us \<subseteq> set ss" "slept s u ps" by blast
  note w = wakesD [OF u(3)]
  have "sched_inv (int_20 u) ps us" using u(2) by simp
  from nextProcess_spec [OF this, of "cpu_rsp u"] obtain t where
    t: "nextProcess (cpu_rsp u) (int_20 u) = Some (rsp (P t (pick u ps)), t)" "sched_inv t (survivors u ps) us"
      "currentProcess t = pick u ps" "pick u ps \<in> set (survivors u ps)" "state (P t (pick u ps)) = READY"
      "\<forall>a \<in> set (survivors u ps). kept (P u a) (P t a) \<and> (pid (P u a) \<noteq> IDLE_PID \<longrightarrow> state (P t a) = state (P u a)) \<and>
         rsp (P t a) = (if a = currentProcess u then cpu_rsp u else rsp (P u a))"
      "sleeps t = sleeps (int_20 u)" "mem_frame (int_20 u) t" "ram t = ram (int_20 u)"
    by auto
  have "others_kept u t" using t(7,8) unfolding others_kept_def mem_frame_def int_20_def by simp metis
  moreover have "others_kept s u" using u(3) by (simp add: wakes_def)
  ultimately have "others_kept s t" using others_kept_trans by blast
  then have ok: "others_kept s (t\<lparr>cpu_rsp := r\<rparr>)" for r by (simp add: others_kept_def)
  have ra: "ram t = ram s" "sleepers t \<subseteq> sleepers s"
    using t(7,9) w(7) u(5) by (simp_all add: int_20_def slept_def sleepers_def)
  have sl: "sleepers (t\<lparr>cpu_rsp := r\<rparr>) = sleepers t" for r by (simp add: sleepers_def)
  have run: "forceTimer s = Some (t\<lparr>cpu_rsp := rsp (P t (pick u ps))\<rparr>)"
    using u(1) t(1) by (simp add: forceTimer_def)
  moreover have "sched_inv (t\<lparr>cpu_rsp := r\<rparr>) qs us = sched_inv t qs us" for r qs by (simp add: sched_inv_def)
  ultimately show ?thesis using u t w(1,4) ok ra sl by (intro exI [of _ u] exI [of _ us] exI [of _ "t\<lparr>cpu_rsp := rsp (P t (pick u ps))\<rparr>"]) auto
qed

lemma survivors_subset: "set (survivors s ps) \<subseteq> set ps"
  by (auto simp: survivors_def)

text \<open>A state in which a ready process of the list runs.\<close>

definition runs :: "sched_state \<Rightarrow> addr list \<Rightarrow> addr list \<Rightarrow> bool" where
  "runs s ps ss \<longleftrightarrow> sched_inv s ps ss \<and> currentProcess s \<in> set ps \<and> state (P s (currentProcess s)) = READY"

lemma forceTimer_total:
  assumes "sched_inv s ps ss"
  shows "\<exists>t qs us. forceTimer s = Some t \<and> runs t qs us \<and> others_kept s t \<and> set qs \<subseteq> set ps \<and> set us \<subseteq> set ss"
  unfolding runs_def using forceTimer_spec [OF assms] survivors_subset by metis

end
