(* ===== verification/Scheduler_Ops.thy ===== *)
theory Scheduler_Ops
  imports Scheduler_Timer
begin

text \<open>
  The operations of the scheduler on a consistent state: what each of them does, and that each
  of them returns and keeps the invariant.
\<close>

section \<open>Blocking\<close>

lemma mild_exec: "mild p (p\<lparr>executions := e\<rparr>)"
  by (simp add: mild_def owns_def pinv_def)

lemma mild_fg: "pid p \<noteq> IDLE_PID \<Longrightarrow> mild p (p\<lparr>foreground := f, backWait := w\<rparr>)"
  by (simp add: mild_def owns_def pinv_def)

text \<open>The parent takes the foreground back when a foreground child stops.\<close>

lemma back_to_parent:
  assumes b: "base_inv s ps ss"
  shows "\<exists>par x t. searchProcess k (firstProcess s) s = Some (par, x) \<and>
    backToParent par s = Some t \<and>
    base_inv t ps ss \<and> t = s\<lparr>procs := procs t\<rparr> \<and> (\<forall>c \<in> set ps. wake_eq (P s c) (P t c))"
proof (rule search_cases [OF b, of k])
  assume "searchProcess k (firstProcess s) s = Some (NULL, NULL)"
  then show ?thesis using base_low [OF b] b by (intro exI [of _ NULL] exI [of _ s]) (auto simp: backToParent_def)
next
  fix xs par ys
  assume par: "ps = xs @ par # ys" "searchProcess k (firstProcess s) s = Some (par, last0 xs)" "\<exists>p. procs s par = Some p"
  then obtain q where q: "procs s par = Some q" by blast
  have ip: "par \<in> set ps" using par(1) by simp
  show ?thesis
  proof (cases "backWait q = 0")
    case True
    with par(2) q b show ?thesis by (intro exI [of _ par] exI [of _ "last0 xs"] exI [of _ s]) (simp add: backToParent_def)
  next
    case False
    let ?f = "\<lambda>q :: processCDT. q\<lparr>backWait := 0, foreground := 1\<rparr>"
    have "pid q \<noteq> IDLE_PID" using False base_pinv [OF b ip] q by (auto simp: pinv_def)
    then have "mild (P s par) (?f (P s par))" using q by (simp add: mild_def owns_def pinv_def)
    note m = modP_ok [OF b ip, where f = ?f, OF this]
    with par(2) q False show ?thesis
      by (intro exI [of _ par] exI [of _ "last0 xs"] exI [of _ "s\<lparr>procs := (procs s)(par \<mapsto> ?f q)\<rparr>"]) (auto simp: wake_eq_def backToParent_def)
  qed
qed

lemma backToParent_none:
  assumes "backToParent a s = Some t" shows "procs t c = None \<longleftrightarrow> procs s c = None"
  using assms by (cases "procs s a") (auto simp: backToParent_def modP_none split: if_splits)

lemma blockWith_found:
  assumes b: "base_inv s ps ss" and c: "currentProcess s \<in> set ps"
    and a: "a \<in> set ps" "pid (P s a) = k" "state (P s a) \<noteq> DEAD"
  shows "\<exists>t. base_inv t ps ss \<and> t = s\<lparr>procs := procs t\<rparr> \<and> state (P t a) = BLOCKED \<and>
    (\<forall>c \<in> set ps. wake_eq (if c = a then (P s c)\<lparr>state := BLOCKED\<rparr> else P s c) (P t c)) \<and>
    blockWith ft k s = (if a = currentProcess s
      then do { u \<leftarrow> ft (t\<lparr>procs := (procs t)(a \<mapsto> (P t a)\<lparr>executions := 0\<rparr>)\<rparr>); Some (EXIT_SUCCESS, u) }
      else Some (EXIT_SUCCESS, t)) \<and> (\<forall>c. procs t c = None \<longleftrightarrow> procs s c = None)"
proof -
  obtain p where p: "procs s a = Some p" using base_dom [OF b a(1)] by auto
  let ?s = "s\<lparr>procs := (procs s)(a \<mapsto> p\<lparr>state := BLOCKED\<rparr>)\<rparr>"
  have n: "a \<noteq> NULL" using base_nonnull [OF b] a(1) by metis
  have m: "modP a (state_update (\<lambda>_. BLOCKED)) s = Some ?s" "base_inv ?s ps ss"
    using modP_ok [OF b a(1), of "state_update (\<lambda>_. BLOCKED)"] mild_state [of BLOCKED "P s a"] a(3) p by auto
  obtain pr where pr: "searchProcess k (firstProcess s) s = Some (a, pr)" using search_found' [OF b a(1,2)] .
  obtain par x t where t: "searchProcess (ppid p) (firstProcess ?s) ?s = Some (par, x)"
    "backToParent par ?s = Some t"
    "base_inv t ps ss" "t = ?s\<lparr>procs := procs t\<rparr>" "\<forall>c \<in> set ps. wake_eq (P ?s c) (P t c)"
    using back_to_parent [OF m(2), of "ppid p"] by blast
  define u where "u = (if foreground p = 0 then ?s else t)"
  have parstep: "(if foreground p \<noteq> 0 then backToParent par ?s else Some ?s) = Some u"
    using t(2) by (simp add: u_def)
  have u: "base_inv u ps ss" "u = s\<lparr>procs := procs u\<rparr>" "\<forall>c \<in> set ps. wake_eq (P ?s c) (P u c)"
    using m(2) t by (auto simp: u_def)
  have cu: "currentProcess u = currentProcess s" by (subst u(2)) simp
  obtain q where q: "procs u (currentProcess s) = Some q" using base_dom [OF u(1) c] by blast
  have pk: "pid q = k \<longleftrightarrow> a = currentProcess s"
  proof -
    have "wake_eq (P ?s (currentProcess s)) q" using u(3) c q by auto
    from wake_eqD(1) [OF this] have "pid q = pid (P s (currentProcess s))" using p by (auto split: if_splits)
    then show ?thesis using pid_eq_iff [OF b c a(1)] a(2) by auto
  qed
  have nc: "currentProcess s \<noteq> NULL" using base_nonnull [OF b] c by metis
  have run: "blockWith ft k s = (if a = currentProcess s
      then do { v \<leftarrow> ft (u\<lparr>procs := (procs u)(a \<mapsto> (P u a)\<lparr>executions := 0\<rparr>)\<rparr>); Some (EXIT_SUCCESS, v) }
      else Some (EXIT_SUCCESS, u))"
  proof -
    have "blockWith ft k s = do {
        c \<leftarrow> procs u (currentProcess u);
        if k = pid c then do { v \<leftarrow> modP (currentProcess u) (executions_update (\<lambda>_. 0)) u; v \<leftarrow> ft v; Some (EXIT_SUCCESS, v) }
        else Some (EXIT_SUCCESS, u) }"
      using p n m(1) pr a(3) t(1) parstep by (simp add: blockWith_def split del: if_split)
    then show ?thesis using cu q pk nc by (auto simp: modP_def)
  qed
  have "wake_eq (if c = a then (P s c)\<lparr>state := BLOCKED\<rparr> else P s c) (P u c)" if "c \<in> set ps" for c
    using u(3) that p by (auto split: if_splits)
  moreover have "state (P u a) = BLOCKED" using wake_eqD(2) [OF calculation [OF a(1)]] by simp
  moreover have "procs u c = None \<longleftrightarrow> procs s c = None" for c
    using backToParent_none [OF t(2), of c] p by (auto simp: u_def)
  ultimately show ?thesis using u(1,2) run by blast
qed

lemma blockWith_fails:
  assumes b: "base_inv s ps ss" and "\<And>a. a \<in> set ps \<Longrightarrow> pid (P s a) = k \<Longrightarrow> state (P s a) = DEAD"
  shows "blockWith ft k s = Some (EXIT_FAILURE, s)"
proof (rule search_cases [OF b, of k])
  fix xs a ys
  assume a: "ps = xs @ a # ys" "pid (P s a) = k" "a \<noteq> NULL" "\<exists>p. procs s a = Some p"
    "searchProcess k (firstProcess s) s = Some (a, last0 xs)"
  with assms(2) [of a] show ?thesis by (auto simp: blockWith_def)
qed (simp add: blockWith_def)

lemma sched_base: "sched_inv s ps ss \<Longrightarrow> base_inv s ps ss"
  by (simp add: sched_inv_def)

lemma sched_procs:
  assumes "sched_inv s ps ss" "base_inv t ps ss" "t = s\<lparr>procs := procs t\<rparr>"
  shows "sched_inv t ps ss"
proof -
  have "currentProcess t = currentProcess s" "firstBlockedIteration t = firstBlockedIteration s"
    by (subst assms(3), simp)+
  with assms(1,2) show ?thesis by (simp add: sched_inv_def)
qed

lemma runsD:
  assumes "runs s ps ss"
  shows runs_inv: "sched_inv s ps ss" and runs_in: "currentProcess s \<in> set ps"
    and runs_ready: "state (P s (currentProcess s)) = READY" and runs_nonnull: "currentProcess s \<noteq> NULL"
  using assms base_nonnull [OF sched_base] unfolding runs_def by metis+

lemma block_ok:
  assumes r: "runs s ps ss"
  shows "\<exists>r t qs us. block k s = Some (r, t) \<and> runs t qs us \<and> set qs \<subseteq> set ps"
proof (cases "\<exists>a \<in> set ps. pid (P s a) = k \<and> state (P s a) \<noteq> DEAD")
  case True
  note inv = runs_inv [OF r] and c = runs_in [OF r]
  obtain a where a: "a \<in> set ps" "pid (P s a) = k" "state (P s a) \<noteq> DEAD" using True by blast
  from blockWith_found [OF sched_base [OF inv] c a, of forceTimer] obtain t where
    t: "base_inv t ps ss" "t = s\<lparr>procs := procs t\<rparr>"
      "\<forall>c \<in> set ps. wake_eq (if c = a then (P s c)\<lparr>state := BLOCKED\<rparr> else P s c) (P t c)"
      "block k s = (if a = currentProcess s
        then do { u \<leftarrow> forceTimer (t\<lparr>procs := (procs t)(a \<mapsto> (P t a)\<lparr>executions := 0\<rparr>)\<rparr>); Some (EXIT_SUCCESS, u) }
        else Some (EXIT_SUCCESS, t))" unfolding block_def by blast
  let ?t = "t\<lparr>procs := (procs t)(a \<mapsto> (P t a)\<lparr>executions := 0\<rparr>)\<rparr>"
  have it: "sched_inv t ps ss" using sched_procs [OF inv t(1,2)] .
  have ct: "currentProcess t = currentProcess s" by (subst t(2)) simp
  show ?thesis
  proof (cases "a = currentProcess s")
    case True
    have "base_inv ?t ps ss" using modP_ok(2) [OF t(1) a(1), where f = "executions_update (\<lambda>_. 0)"] mild_exec by auto
    then have "sched_inv ?t ps ss" by (intro sched_procs [OF it]) auto
    from forceTimer_total [OF this] t(4) True show ?thesis by fastforce
  next
    case False
    then have "runs t ps ss"
      using it c ct wake_eqD(2) [OF t(3) [rule_format, OF c]] runs_ready [OF r] by (auto simp: runs_def)
    with t(4) False show ?thesis by auto
  qed
next
  case False
  then have "block k s = Some (EXIT_FAILURE, s)"
    unfolding block_def by (intro blockWith_fails [OF sched_base [OF runs_inv [OF r]]]) blast
  with r show ?thesis by auto
qed

text \<open>
  A process other than idle and not in the sleep list that blocks itself: another process runs,
  it waits with its stack pointer saved.
\<close>

lemma block_self:
  assumes r: "runs s ps ss" and c: "c = currentProcess s" "pid (P s c) = k" "k \<noteq> IDLE_PID" "k \<notin> sleepers s"
  shows "\<exists>t qs us. block k s = Some (EXIT_SUCCESS, t) \<and> runs t qs us \<and> set qs \<subseteq> set ps \<and> others_kept s t \<and> ram t = ram s \<and>
    sleepers t \<subseteq> sleepers s \<and> c \<in> set qs \<and> currentProcess t \<noteq> c \<and> pid (P t c) = k \<and> rsp (P t c) = cpu_rsp s \<and>
    state (P t c) = BLOCKED \<and>
    (\<forall>x \<in> set ps. x \<noteq> c \<longrightarrow> pid (P s x) \<notin> sleepers s \<longrightarrow> pid (P s x) \<noteq> IDLE_PID \<longrightarrow> state (P s x) \<noteq> DEAD \<longrightarrow>
       x \<in> set qs \<and> pid (P t x) = pid (P s x) \<and> state (P t x) = state (P s x))"
proof -
  note inv = runs_inv [OF r] and ic = runs_in [OF r, folded c(1)]
  have sc: "state (P s c) \<noteq> DEAD" using runs_ready [OF r] c(1) by simp
  from blockWith_found [OF sched_base [OF inv] runs_in [OF r] ic c(2) sc, of forceTimer] obtain v where
    v: "base_inv v ps ss" "v = s\<lparr>procs := procs v\<rparr>" "state (P v c) = BLOCKED"
      "\<forall>x \<in> set ps. wake_eq (if x = c then (P s x)\<lparr>state := BLOCKED\<rparr> else P s x) (P v x)"
      "block k s = (if c = currentProcess s
        then do { u \<leftarrow> forceTimer (v\<lparr>procs := (procs v)(c \<mapsto> (P v c)\<lparr>executions := 0\<rparr>)\<rparr>); Some (EXIT_SUCCESS, u) }
        else Some (EXIT_SUCCESS, v))" "\<forall>x. procs v x = None \<longleftrightarrow> procs s x = None" unfolding block_def by blast
  define w where "w = v\<lparr>procs := (procs v)(c \<mapsto> (P v c)\<lparr>executions := 0\<rparr>)\<rparr>"
  have "base_inv w ps ss"
    using modP_ok(2) [OF v(1) ic, where f = "executions_update (\<lambda>_. 0)"] mild_exec by (auto simp: w_def)
  then have iw: "sched_inv w ps ss" by (intro sched_procs [OF sched_procs [OF inv v(1,2)]]) (simp_all add: w_def)
  have eq: "sleeps w = sleeps s" "mm w = mm s" "ram w = ram s" "cpu_rsp w = cpu_rsp s" "currentProcess w = c"
    using c(1) unfolding w_def by (simp, subst v(2), simp)+
  have sw: "sleepers w = sleepers s" by (simp add: sleepers_def eq)
  have wx: "pid (P w x) = pid (P s x)" "state (P w x) = (if x = c then BLOCKED else state (P s x))" if "x \<in> set ps" for x
    using wake_eqD(1,2) [OF v(4) [rule_format, OF that]] by (auto simp: w_def split: if_splits)
  obtain pc where "procs s c = Some pc" using base_dom [OF sched_base [OF inv] ic] by blast
  then have "procs w x = None \<longleftrightarrow> procs s x = None" for x using v(6) by (auto simp: w_def)
  then have kw: "others_kept s w" by (rule others_kept_procs) (simp_all add: eq)
  from forceTimer_spec [OF iw] obtain u us t where
    u: "wakes w u ps" "slept w u ps" "forceTimer w = Some t" "others_kept w t" "ram t = ram w" "sleepers t \<subseteq> sleepers w"
      "sched_inv t (survivors u ps) us" "currentProcess t = pick u ps" "pick u ps \<in> set (survivors u ps)" "state (P t (pick u ps)) = READY"
      "\<forall>a \<in> set (survivors u ps). kept (P u a) (P t a) \<and> (pid (P u a) \<noteq> IDLE_PID \<longrightarrow> state (P t a) = state (P u a)) \<and>
         rsp (P t a) = (if a = currentProcess w then cpu_rsp w else rsp (P u a))" by blast
  have pu: "pid (P u x) = pid (P s x)" if "x \<in> set ps" for x
    using u(1) that wx(1) [OF that] unfolding wakes_def woken_def by (cases "P w x"; cases "P u x") auto
  have su: "state (P u x) = (if x = c then BLOCKED else state (P s x))" if "x \<in> set ps" "pid (P s x) \<notin> sleepers s" for x
    using u(2) that wx [OF that(1)] unfolding slept_def sw by auto
  have keep: "x \<in> set (survivors u ps)" "pid (P t x) = pid (P s x)" "state (P t x) = (if x = c then BLOCKED else state (P s x))"
    if "x \<in> set ps" "pid (P s x) \<notin> sleepers s" "pid (P s x) \<noteq> IDLE_PID" "state (P s x) \<noteq> DEAD" for x
  proof -
    show s: "x \<in> set (survivors u ps)" using that su [OF that(1,2)] by (auto simp: survivors_def)
    show "pid (P t x) = pid (P s x)" "state (P t x) = (if x = c then BLOCKED else state (P s x))"
      using u(11) s that(3) pu [OF that(1)] su [OF that(1,2)] by (auto simp: kept_iff)
  qed
  note kc = keep [OF ic _ _ sc, unfolded c(2), OF c(4,3)]
  have "rsp (P t c) = cpu_rsp s" using u(11) kc(1) eq by auto
  moreover have "runs t (survivors u ps) us" using u(7-10) by (simp add: runs_def)
  moreover have "block k s = Some (EXIT_SUCCESS, t)" using v(5) u(3) c(1) by (simp add: w_def)
  moreover have "others_kept s t" using others_kept_trans [OF kw u(4)] .
  moreover have "currentProcess t \<noteq> c" using u(8,10) kc(3) by auto
  ultimately show ?thesis using u(5,6) eq sw kc keep survivors_subset
    by (intro exI [of _ t] exI [of _ "survivors u ps"] exI [of _ us]) auto
qed

lemma unblock_ok:
  assumes r: "runs s ps ss"
  shows "\<exists>r t. unblock k s = Some (r, t) \<and> runs t ps ss"
proof -
  from unblock_spec [OF sched_base [OF runs_inv [OF r]], of k] obtain x t where
    t: "unblock k s = Some (x, t)" "base_inv t ps ss" "wakes s t ps" by blast
  note w = wakesD [OF t(3)]
  have "woken (P s (currentProcess s)) (P t (currentProcess s))" using t(3) runs_in [OF r] by (auto simp: wakes_def)
  then have "state (P t (currentProcess s)) = READY" using runs_ready [OF r] by (auto simp: woken_def)
  with t r w show ?thesis by (auto simp: runs_def sched_inv_def)
qed

section \<open>Killing\<close>

lemma owns_dead [simp]: "owns (p\<lparr>state := DEAD\<rparr>) = []"
  by (simp add: owns_def)

lemma mild_orphaned: "mild q (orphaned fg q)"
  by (auto simp: orphaned_def mild_def owns_def pinv_def Let_def)

lemma orphaned_keeps: "next_p (orphaned fg q) = next_p q" "pid (orphaned fg q) = pid q" "owns (orphaned fg q) = owns q"
  "name (orphaned fg q) = name q" "fd (orphaned fg q) = fd q" "bPointer (orphaned fg q) = bPointer q"
  "state (orphaned fg q) = DEAD \<longleftrightarrow> state q = DEAD"
  by (auto simp: orphaned_def owns_def Let_def)

lemma distinct_owned_sub:
  assumes d: "distinct ps" and ow: "distinct (owned s ps ss)"
    and t: "\<And>c. c \<in> set ps \<Longrightarrow> owns (P t c) = owns (P s c) \<or> owns (P t c) = []"
  shows "distinct (owned t ps ss)"
proof -
  note o = ow [unfolded distinct_owned [OF d]]
  have sub: "set (c # owns (P t c)) \<subseteq> set (c # owns (P s c))" if "c \<in> set ps" for c using t [OF that] by auto
  have "distinct (c # owns (P t c))" if "c \<in> set ps" for c using t [OF that] o that by auto
  moreover have "set (c # owns (P t c)) \<inter> set (e # owns (P t e)) = {}" if "c \<in> set ps" "e \<in> set ps" "c \<noteq> e" for c e
    using sub [OF that(1)] sub [OF that(2)] o that by blast
  moreover have "set (c # owns (P t c)) \<inter> set ss = {}" if "c \<in> set ps" for c using sub [OF that] o that by blast
  ultimately show ?thesis unfolding distinct_owned [OF d] using o by blast
qed

lemma base_inv_dead:
  assumes b: "base_inv s ps ss" and a: "a \<in> set ps" "pid (P s a) \<noteq> IDLE_PID" "state (P s a) \<noteq> DEAD"
    and m: "mm_ok m" "payload m = payload (mm s) |` (- set (owns (P s a)))"
  shows "base_inv (s\<lparr>procs := (procs s)(a \<mapsto> (P s a)\<lparr>state := DEAD\<rparr>), mm := m\<rparr>) ps ss"
proof -
  define t where "t = s\<lparr>procs := (procs s)(a \<mapsto> (P s a)\<lparr>state := DEAD\<rparr>), mm := m\<rparr>"
  have d: "distinct ps" using base_distinct [OF b] .
  note ow = base_owned [OF b, unfolded distinct_owned [OF d]]
  have ot: "owns (P t c) = (if c = a then [] else owns (P s c))" for c by (simp add: t_def)
  have nx: "nxt t = nxt s" using base_dom [OF b a(1)] by (auto simp: t_def)
  have pi: "pid (P t c) = pid (P s c)" for c by (simp add: t_def)
  have eq: "firstProcess t = firstProcess s" "lastProcess t = lastProcess s" "pids t = pids s" "firstSleep t = firstSleep s"
    "sleeps t = sleeps s" "mm t = m" by (simp_all add: t_def)
  have "distinct (owned t ps ss)"
    by (rule distinct_owned_sub [OF d base_owned [OF b]]) (simp add: ot)
  moreover have "payload m p \<noteq> None" if p: "p \<in> set (owned t ps ss)" for p
  proof -
    have "p \<in> set (owned s ps ss)" using p unfolding set_owned by (auto simp: ot split: if_splits)
    moreover have "p \<notin> set (owns (P s a))"
    proof
      assume pa: "p \<in> set (owns (P s a))"
      from p consider c where "c \<in> set ps" "p \<in> set (c # owns (P t c))" | "p \<in> set ss" unfolding set_owned by blast
      then show False
      proof cases
        case 1
        then have "c \<noteq> a \<Longrightarrow> p \<in> set (c # owns (P s c))" "c = a \<Longrightarrow> p = a" by (simp_all add: ot)
        with ow 1(1) a(1) pa show False by (cases "c = a") fastforce+
      qed (use ow a(1) pa in fastforce)
    qed
    ultimately show ?thesis using base_live [OF b] m(2) by (simp add: restrict_map_def)
  qed
  moreover have "pinv (pids s) (P t c)" if "c \<in> set ps" for c
    using base_pinv [OF b that] a(2) by (auto simp: pinv_def t_def)
  moreover have "procs t NULL = procs s NULL" using base_nonnull [OF b] a(1) by (auto simp: t_def)
  ultimately show ?thesis
    using b m(1) unfolding base_inv_def list_inv_def nx t_def [symmetric] by (simp add: pi eq)
qed

lemma free_three:
  assumes "mm_ok (mm s)" "distinct [p, q, r]" "\<And>x. x \<in> set [p, q, r] \<Longrightarrow> payload (mm s) x \<noteq> None"
  obtains m u v where "mm_ok m" "payload m = payload (mm s) |` (- set [p, q, r])"
    "free_s p s = Some u" "free_s q u = Some v" "free_s r v = Some (s\<lparr>mm := m\<rparr>)"
proof -
  from frt4.frees_live [OF assms] obtain m where
    m: "frees vPortFree [p, q, r] (mm s) = Some m" "mm_ok m" "payload m = payload (mm s) |` (- set [p, q, r])" by blast
  then obtain m1 m2 where "vPortFree p (mm s) = Some m1" "vPortFree q m1 = Some m2" "vPortFree r m2 = Some m"
    by (auto simp: bind_eq_Some_conv)
  then show ?thesis using that [OF m(2,3), of "s\<lparr>mm := m1\<rparr>" "s\<lparr>mm := m2\<rparr>"] by (simp add: free_s_def)
qed

text \<open>Killing a process that is alive, up to the timer interrupt.\<close>

lemma kill_enter_found:
  assumes b: "base_inv s ps ss" and a: "a \<in> set ps" "pid (P s a) = k" "k \<noteq> IDLE_PID" "state (P s a) \<noteq> DEAD"
  shows "\<exists>t. kill_enter k s = Some (True, t) \<and> base_inv t ps ss \<and>
    t = s\<lparr>procs := procs t, mm := mm t, fds := (fds s)(fd (P s a) := None)\<rparr> \<and>
    payload (mm t) = payload (mm s) |` (- set (owns (P s a))) \<and>
    (\<forall>c \<in> set ps. P t c = (if c = a then (P s a)\<lparr>state := DEAD\<rparr>
       else if pid (P s c) = ppid (P s a) then orphaned (foreground (P s a)) (P s c) else P s c))"
proof -
  obtain p where p: "procs s a = Some p" using base_dom [OF b a(1)] by auto
  have n: "a \<noteq> NULL" using base_nonnull [OF b] a(1) by metis
  obtain pr where pr: "searchProcess k (firstProcess s) s = Some (a, pr)" using search_found' [OF b a(1,2)] .
  obtain par x u where u: "searchProcess (ppid p) (firstProcess s) s = Some (par, x)"
    "(if par \<noteq> NULL then modP par (orphaned (foreground p)) s else Some s) = Some u"
    "base_inv u ps ss" "u = s\<lparr>procs := procs u\<rparr>"
    "\<forall>c \<in> set ps. P u c = (if pid (P s c) = ppid p then orphaned (foreground p) (P s c) else P s c)"
  proof (rule search_cases [OF b, of "ppid p"])
    assume "\<And>c. c \<in> set ps \<Longrightarrow> pid (P s c) \<noteq> ppid p" "searchProcess (ppid p) (firstProcess s) s = Some (NULL, NULL)"
    then show ?thesis using b by (intro that [of NULL NULL s]) auto
  next
    fix xs par ys
    assume par: "ps = xs @ par # ys" "pid (P s par) = ppid p" "par \<noteq> NULL" "searchProcess (ppid p) (firstProcess s) s = Some (par, last0 xs)"
    have ip: "par \<in> set ps" using par(1) by simp
    note m = modP_ok [OF b ip, where f = "orphaned (foreground p)", OF mild_orphaned]
    have "c = par" if "c \<in> set ps" "pid (P s c) = ppid p" for c using pid_eq_iff [OF b that(1) ip] that(2) par(2) by simp
    then have only: "pid (P s c) = ppid p \<longleftrightarrow> c = par" if "c \<in> set ps" for c using that par(2) by blast
    show ?thesis
    proof (rule that [OF par(4)])
      show "(if par \<noteq> NULL then modP par (orphaned (foreground p)) s else Some s) =
          Some (s\<lparr>procs := (procs s)(par \<mapsto> orphaned (foreground p) (P s par))\<rparr>)" using m(1) par(3) by simp
    qed (use m(2) only in simp_all)
  qed
  have mu: "mm u = mm s" "fds u = fds s" by (subst u(4), simp)+
  have ua: "P u a = p" using u(5) a(1,2) p base_pinv [OF b a(1)] by (auto simp: pinv_def)
  have "set (a # owns (P s a)) \<subseteq> set (owned s ps ss)" using a(1) unfolding set_owned by blast
  then have "set (a # owns p) \<subseteq> set (owned s ps ss)" using p by simp
  moreover have "distinct (a # owns p)" using base_owned [OF b] a(1) p unfolding distinct_owned [OF base_distinct [OF b]] by auto
  ultimately have "distinct [fd p, name p, bPointer p]" "\<And>x. x \<in> set [fd p, name p, bPointer p] \<Longrightarrow> payload (mm u) x \<noteq> None"
    using base_live [OF b] a(4) p mu by (auto simp: owns_def)
  from free_three [OF base_mm [OF u(3)] this] obtain m v w where
    m: "mm_ok m" "payload m = payload (mm u) |` (- set [fd p, name p, bPointer p])"
      "free_s (fd p) u = Some v" "free_s (name p) v = Some w" "free_s (bPointer p) w = Some (u\<lparr>mm := m\<rparr>)"
    by blast
  have ow: "set [fd p, name p, bPointer p] = set (owns p)" using a(4) p by (auto simp: owns_def)
  let ?t = "u\<lparr>procs := (procs u)(a \<mapsto> (P u a)\<lparr>state := DEAD\<rparr>), mm := m\<rparr>"
  have bt: "base_inv ?t ps ss"
    by (rule base_inv_dead [OF u(3) a(1)]) (use ua a p m ow in auto)
  have "procs u a = Some p" using ua base_dom [OF u(3) a(1)] by auto
  then have "kill_enter k s = Some (True, ?t\<lparr>fds := (fds s)(fd p := None)\<rparr>)"
    using p n pr u(1,2) mu m(3-5) by (simp add: kill_enter_def modP_def)
  then show ?thesis
    using bt p ua u(5) m(2) ow mu by (intro exI [of _ "?t\<lparr>fds := (fds s)(fd p := None)\<rparr>"]) (subst u(4), auto)
qed

lemma sched_frame:
  assumes "sched_inv s ps ss" "base_inv t ps ss" "currentProcess t = currentProcess s" "firstBlockedIteration t = firstBlockedIteration s"
  shows "sched_inv t ps ss"
  using assms by (simp add: sched_inv_def)

lemma kill_ok:
  assumes r: "runs s ps ss" and k: "k \<noteq> IDLE_PID"
    and live: "\<And>a. a \<in> set ps \<Longrightarrow> pid (P s a) = k \<Longrightarrow> state (P s a) \<noteq> DEAD"
  shows "\<exists>r t qs us. kill k s = Some (r, t) \<and> runs t qs us \<and> set qs \<subseteq> set ps"
proof (cases "\<exists>a \<in> set ps. pid (P s a) = k")
  case True
  note inv = runs_inv [OF r] and c = runs_in [OF r]
  obtain a where a: "a \<in> set ps" "pid (P s a) = k" using True by blast
  from kill_enter_found [OF sched_base [OF inv] a k live [OF a]] obtain t where
    t: "kill_enter k s = Some (True, t)" "base_inv t ps ss" "t = s\<lparr>procs := procs t, mm := mm t, fds := (fds s)(fd (P s a) := None)\<rparr>"
      "\<forall>c \<in> set ps. P t c = (if c = a then (P s a)\<lparr>state := DEAD\<rparr>
         else if pid (P s c) = ppid (P s a) then orphaned (foreground (P s a)) (P s c) else P s c)" by blast
  have cur: "currentProcess t = currentProcess s" "firstBlockedIteration t = firstBlockedIteration s" by (subst t(3), simp)+
  have it: "sched_inv t ps ss" using sched_frame [OF inv t(2) cur] .
  obtain q where q: "procs t (currentProcess s) = Some q" using base_dom [OF t(2) c] by blast
  show ?thesis
  proof (cases "k = pid q")
    case True
    with forceTimer_total [OF it] t(1) q cur show ?thesis by (fastforce simp: kill_def)
  next
    case False
    have "currentProcess s \<noteq> a" using False q t(4) c a by auto
    then have "state q = READY" using t(4) [rule_format, OF c] q runs_ready [OF r] by (auto simp: orphaned_def Let_def)
    with False t(1) q it cur c show ?thesis by (auto simp: kill_def runs_def)
  qed
next
  case False
  then have "searchProcess k (firstProcess s) s = Some (NULL, NULL)"
    using search_absent [OF sched_base [OF runs_inv [OF r]]] by blast
  then have "kill k s = Some (EXIT_FAILURE, s)" by (simp add: kill_def kill_enter_def)
  with r show ?thesis by auto
qed

text \<open>Another process than the running one.\<close>

lemma kill_other:
  assumes "runs s ps ss" and "a \<in> set ps" "pid (P s a) = k" "k \<noteq> IDLE_PID" "state (P s a) \<noteq> DEAD" "a \<noteq> currentProcess s"
  shows "\<exists>t. kill k s = Some (EXIT_SUCCESS, t) \<and> runs t ps ss \<and> state (P t a) = DEAD \<and>
    currentProcess t = currentProcess s \<and> sleeps t = sleeps s \<and>
    payload (mm t) = payload (mm s) |` (- {name (P s a), fd (P s a), bPointer (P s a)}) \<and>
    (\<forall>c \<in> set ps. pid (P t c) = pid (P s c) \<and>
       (c \<noteq> a \<longrightarrow> P t c = (if pid (P s c) = ppid (P s a) then orphaned (foreground (P s a)) (P s c) else P s c)))"
proof -
  note b = sched_base [OF runs_inv [OF assms(1)]] and c = runs_in [OF assms(1)]
  from kill_enter_found [OF b assms(2-5)] obtain t where
    t: "kill_enter k s = Some (True, t)" "base_inv t ps ss"
      "t = s\<lparr>procs := procs t, mm := mm t, fds := (fds s)(fd (P s a) := None)\<rparr>"
      "payload (mm t) = payload (mm s) |` (- set (owns (P s a)))"
      "\<forall>c \<in> set ps. P t c = (if c = a then (P s a)\<lparr>state := DEAD\<rparr>
         else if pid (P s c) = ppid (P s a) then orphaned (foreground (P s a)) (P s c) else P s c)" by blast
  have cur: "currentProcess t = currentProcess s" "firstBlockedIteration t = firstBlockedIteration s" "sleeps t = sleeps s"
    by (subst t(3), simp)+
  have st: "state (P t (currentProcess s)) = READY" "pid (P t (currentProcess s)) = pid (P s (currentProcess s))"
    using t(5) c assms(6) runs_ready [OF assms(1)] orphaned_keeps(2) by (auto simp: orphaned_def Let_def)
  have "pid (P s (currentProcess s)) \<noteq> k" using pid_eq_iff [OF b c assms(2)] assms(3,6) by auto
  moreover obtain q where "procs t (currentProcess s) = Some q" using base_dom [OF t(2) c] by blast
  ultimately have "kill k s = Some (EXIT_SUCCESS, t)" using t(1) cur st by (auto simp: kill_def)
  moreover have "runs t ps ss" using sched_frame [OF runs_inv [OF assms(1)] t(2) cur(1,2)] st c cur by (simp add: runs_def)
  moreover have "set (owns (P s a)) = {name (P s a), fd (P s a), bPointer (P s a)}" using assms(5) by (simp add: owns_def)
  moreover have "pid (P t c) = pid (P s c)" if "c \<in> set ps" for c using t(5) that by (auto simp: orphaned_keeps)
  ultimately show ?thesis using t cur assms(2) by (intro exI [of _ t]) auto
qed

section \<open>Priorities, waiting, giving up the processor\<close>

lemma modP_sched:
  assumes inv: "sched_inv s ps ss" and a: "a \<in> set ps" and m: "mild (P s a) (f (P s a))"
  obtains t where "modP a f s = Some t" "sched_inv t ps ss" "t = s\<lparr>procs := (procs s)(a \<mapsto> f (P s a))\<rparr>"
  using modP_ok [OF sched_base [OF inv] a, where f = f, OF m] sched_procs [OF inv] that by simp

lemma nice_found:
  assumes inv: "sched_inv s ps ss" and a: "a \<in> set ps" "pid (P s a) = k" and o: "- 20 \<le> offset" "offset < 20"
  shows "nice k offset s = Some (EXIT_SUCCESS, s\<lparr>procs := (procs s)(a \<mapsto> (P s a)\<lparr>priority := offset + 20\<rparr>)\<rparr>)"
    and "sched_inv (s\<lparr>procs := (procs s)(a \<mapsto> (P s a)\<lparr>priority := offset + 20\<rparr>)\<rparr>) ps ss"
proof -
  have m: "mild (P s a) ((P s a)\<lparr>priority := offset + 20\<rparr>)" using o by (auto simp: mild_def owns_def pinv_def)
  have n: "a \<noteq> NULL" using base_nonnull [OF sched_base [OF inv]] a(1) by metis
  obtain pr where "searchProcess k (firstProcess s) s = Some (a, pr)" using search_found' [OF sched_base [OF inv] a] .
  moreover have "modP a (priority_update (\<lambda>_. offset + 20)) s = Some (s\<lparr>procs := (procs s)(a \<mapsto> (P s a)\<lparr>priority := offset + 20\<rparr>)\<rparr>)"
    and inv': "sched_inv (s\<lparr>procs := (procs s)(a \<mapsto> (P s a)\<lparr>priority := offset + 20\<rparr>)\<rparr>) ps ss"
    using modP_sched [OF inv a(1), where f = "priority_update (\<lambda>_. offset + 20)", OF m] by metis+
  ultimately show "nice k offset s = Some (EXIT_SUCCESS, s\<lparr>procs := (procs s)(a \<mapsto> (P s a)\<lparr>priority := offset + 20\<rparr>)\<rparr>)"
    using n o by (simp add: nice_def)
  show "sched_inv (s\<lparr>procs := (procs s)(a \<mapsto> (P s a)\<lparr>priority := offset + 20\<rparr>)\<rparr>) ps ss" by (rule inv')
qed

lemma nice_ok:
  assumes r: "runs s ps ss"
  shows "\<exists>r t. nice k offset s = Some (r, t) \<and> runs t ps ss"
proof (cases "offset \<ge> 20 \<or> offset < - 20")
  case False
  show ?thesis
  proof (cases "\<exists>a \<in> set ps. pid (P s a) = k")
    case True
    then obtain a where "a \<in> set ps" "pid (P s a) = k" by blast
    from nice_found [OF runs_inv [OF r] this] False r show ?thesis by (auto simp: runs_def)
  next
    case absent: False
    then have "searchProcess k (firstProcess s) s = Some (NULL, NULL)"
      using search_absent [OF sched_base [OF runs_inv [OF r]]] by blast
    with False r show ?thesis by (simp add: nice_def)
  qed
qed (use r in \<open>auto simp: nice_def\<close>)

text \<open>The operations that change the running process and end with the timer interrupt.\<close>

lemma current_then_timer:
  assumes r: "runs s ps ss" and m: "mild (P s (currentProcess s)) (f (P s (currentProcess s)))"
  shows "\<exists>t qs us. do { s \<leftarrow> modP (currentProcess s) f s; forceTimer s } = Some t \<and> runs t qs us \<and> set qs \<subseteq> set ps"
proof -
  obtain u where u: "modP (currentProcess s) f s = Some u" "sched_inv u ps ss"
    using modP_sched [OF runs_inv [OF r] runs_in [OF r], where f = f, OF m] by blast
  from forceTimer_total [OF u(2)] u(1) show ?thesis by auto
qed

lemma runs_current: "runs s ps ss \<Longrightarrow> \<exists>p. procs s (currentProcess s) = Some p \<and> state p = READY"
  using base_dom [OF sched_base [OF runs_inv] runs_in] runs_ready by fastforce

lemma wait_ok:
  assumes r: "runs s ps ss"
  shows "\<exists>t qs us. wait s = Some t \<and> runs t qs us \<and> set qs \<subseteq> set ps"
proof -
  obtain p where p: "procs s (currentProcess s) = Some p" "state p = READY" using runs_current [OF r] by blast
  from current_then_timer [OF r, where f = "state_update (\<lambda>_. WAITING)"] mild_state [of WAITING p]
  show ?thesis using runs_nonnull [OF r] p r by (cases "children p = 0") (auto simp: wait_def)
qed

lemma blockIO_ok:
  assumes r: "runs s ps ss"
  shows "\<exists>t qs us. blockIO s = Some (EXIT_SUCCESS, t) \<and> runs t qs us \<and> set qs \<subseteq> set ps"
proof -
  obtain p where p: "procs s (currentProcess s) = Some p" "state p = READY" using runs_current [OF r] by blast
  then have "mild (P s (currentProcess s)) ((P s (currentProcess s))\<lparr>state := BLOCKEDIO, executions := 0\<rparr>)"
    by (auto simp: mild_def owns_def pinv_def)
  from current_then_timer [OF r, where f = "\<lambda>c. c\<lparr>state := BLOCKEDIO, executions := 0\<rparr>", OF this]
  show ?thesis using runs_nonnull [OF r] p by (auto simp: blockIO_def bind_eq_Some_conv)
qed

lemma quitCPU_ok:
  assumes r: "runs s ps ss"
  shows "\<exists>r t qs us. quitCPU s = Some (r, t) \<and> runs t qs us \<and> set qs \<subseteq> set ps"
proof -
  obtain p where p: "procs s (currentProcess s) = Some p" using runs_current [OF r] by blast
  from current_then_timer [OF r, where f = "\<lambda>c. c\<lparr>executions := s8 (MAX_PRIORITY - priority c)\<rparr>", OF mild_exec]
  show ?thesis using runs_nonnull [OF r] p r by (cases "pid p = - 1") (auto simp: quitCPU_def bind_eq_Some_conv)
qed

section \<open>Input and output\<close>

lemma unblockIOLoop_spec:
  assumes "base_inv s (xs @ zs) ss"
  shows "\<exists>t. unblockIOLoop (hd0 zs) s = Some t \<and> base_inv t (xs @ zs) ss \<and> t = s\<lparr>procs := procs t\<rparr> \<and>
    (\<forall>a \<in> set xs. procs t a = procs s a) \<and>
    (\<forall>a \<in> set zs. P t a = (if state (P s a) = BLOCKEDIO then (P s a)\<lparr>state := READY\<rparr> else P s a))"
  using assms
proof (induction zs arbitrary: xs s)
  case Nil
  then show ?case by (intro exI [of _ s]) (simp add: unblockIOLoop.simps)
next
  case (Cons z zs)
  have z: "z \<noteq> NULL" "z \<notin> set xs" "z \<notin> set zs"
    using base_nonnull [OF Cons.prems] base_distinct [OF Cons.prems] by auto
  obtain p where p: "procs s z = Some p" using base_dom [OF Cons.prems, of z] by auto
  have nx: "next_p p = hd0 zs" using base_next [OF Cons.prems] p by simp
  define q where "q = (if state p = BLOCKEDIO then p\<lparr>state := READY\<rparr> else p)"
  define u where "u = s\<lparr>procs := (procs s)(z \<mapsto> q)\<rparr>"
  have "mild (P s z) q" using p mild_state [of READY p] by (auto simp: q_def)
  then have bu: "base_inv u ((xs @ [z]) @ zs) ss"
    using modP_ok(2) [OF Cons.prems, of z "\<lambda>_. q"] by (simp add: u_def)
  have "next_p q = hd0 zs" using nx by (simp add: q_def)
  then have st: "unblockIOLoop z s = unblockIOLoop (hd0 zs) u"
    using z(1) p by (subst unblockIOLoop.simps) (auto simp: u_def q_def modP_def fun_upd_idem)
  from Cons.IH [OF bu] obtain t where t: "unblockIOLoop (hd0 zs) u = Some t" "base_inv t ((xs @ [z]) @ zs) ss"
    "t = u\<lparr>procs := procs t\<rparr>" "\<forall>a \<in> set (xs @ [z]). procs t a = procs u a"
    "\<forall>a \<in> set zs. P t a = (if state (P u a) = BLOCKEDIO then (P u a)\<lparr>state := READY\<rparr> else P u a)" by blast
  have "t = s\<lparr>procs := procs t\<rparr>" by (subst t(3)) (simp add: u_def)
  moreover have "P t a = (if state (P s a) = BLOCKEDIO then (P s a)\<lparr>state := READY\<rparr> else P s a)" if "a \<in> set zs" for a
    using t(5) that z(3) by (auto simp: u_def)
  ultimately show ?case using st t(1,2,4) z(2) p by (intro exI [of _ t]) (auto simp: u_def q_def)
qed

lemma unblockIO_spec:
  assumes b: "base_inv s ps ss"
  shows "\<exists>t. unblockIO s = Some t \<and> base_inv t ps ss \<and> t = s\<lparr>procs := procs t\<rparr> \<and>
    (\<forall>a \<in> set ps. P t a = (if state (P s a) = BLOCKEDIO then (P s a)\<lparr>state := READY\<rparr> else P s a))"
  using unblockIOLoop_spec [of s "[]" ps ss] b base_first [OF b] by (auto simp: unblockIO_def)

lemma unblockIO_ok:
  assumes r: "runs s ps ss"
  shows "\<exists>t. unblockIO s = Some t \<and> runs t ps ss"
proof -
  from unblockIO_spec [OF sched_base [OF runs_inv [OF r]]] obtain t where
    t: "unblockIO s = Some t" "base_inv t ps ss" "t = s\<lparr>procs := procs t\<rparr>"
      "\<forall>a \<in> set ps. P t a = (if state (P s a) = BLOCKEDIO then (P s a)\<lparr>state := READY\<rparr> else P s a)" by blast
  have "currentProcess t = currentProcess s" by (subst t(3)) simp
  with sched_procs [OF runs_inv [OF r] t(2,3)] t(1,4) runs_in [OF r] runs_ready [OF r] show ?thesis
    by (auto simp: runs_def)
qed

end
