(* ===== verification/Scheduler_Links.thy ===== *)
theory Scheduler_Links
  imports Scheduler_Ops
begin

text \<open>
  The operations that change the lists of the scheduler: \<open>unblockFirst\<close> moves a process behind
  the running one and hands the processor to it, \<open>enqueueProcess\<close> appends a process, \<open>sleep\<close>
  pushes an entry on the sleep list. Booting the kernel establishes the invariant.
\<close>

section \<open>Handing the processor over\<close>

lemma lpath_insert_after:
  assumes "lpath n p (us @ c # vs) NULL" "a \<noteq> NULL" "a \<notin> set (us @ c # vs)"
  shows "lpath (n(a \<mapsto> hd0 vs, c \<mapsto> a)) p (us @ c # a # vs) NULL"
proof -
  have "distinct (us @ c # vs)" using lpath_distinct [OF assms(1)] .
  then have "c \<notin> set us" "c \<notin> set vs" by auto
  moreover have "a \<notin> set us" "a \<noteq> c" "a \<notin> set vs" using assms(3) by auto
  ultimately show ?thesis using assms(1,2) by (auto simp: lpath_append dest: lpath_hd0)
qed

lemma unblockFirst_enter_found:
  assumes b: "base_inv s ps ss" and c: "c = currentProcess s" "c \<in> set ps"
    and a: "a \<in> set ps" "a \<noteq> c" "pid (P s a) = k" "state (P s a) \<noteq> DEAD"
  shows "\<exists>t us vs. unblockFirst_enter k s = Some (True, t) \<and> base_inv t (us @ c # a # vs) ss \<and>
    set (us @ c # a # vs) = set ps \<and> t = s\<lparr>procs := procs t, firstProcess := firstProcess t, lastProcess := lastProcess t\<rparr> \<and>
    state (P t a) = READY \<and> state (P t c) = state (P s c) \<and> executions (P t c) = MAX_PRIORITY - priority (P t c) \<and>
    (\<forall>x \<in> set ps. x \<noteq> a \<longrightarrow> state (P t x) = state (P s x)) \<and> (\<forall>x \<in> set ps. pid (P t x) = pid (P s x)) \<and>
    (\<forall>x. procs t x = None \<longleftrightarrow> procs s x = None)"
proof -
  obtain xs ys where ps: "ps = xs @ a # ys" using split_list [OF a(1)] by blast
  have d: "distinct ps" using base_distinct [OF b] .
  have ic: "c \<in> set (xs @ ys)" using c(2) a(2) ps by auto
  then obtain us vs where uv: "xs @ ys = us @ c # vs" by (meson split_list)
  have nn: "a \<noteq> NULL" "c \<noteq> NULL" using base_nonnull [OF b] a(1) c(2) by metis+
  obtain pa where pa: "procs s a = Some pa" using base_dom [OF b a(1)] by blast
  obtain pr where pr: "searchProcess k (firstProcess s) s = Some (a, pr)" using search_found' [OF b a(1,3)] .
  obtain t1 where t1: "removeProcess a s = Some t1" "lpath (nxt t1) (firstProcess t1) (xs @ ys) NULL"
    "lastProcess t1 = last0 (xs @ ys)" "\<And>x. core (P t1 x) = core (P s x)" "procs t1 NULL = procs s NULL"
    "t1 = s\<lparr>procs := procs t1, firstProcess := firstProcess t1, lastProcess := lastProcess t1\<rparr>"
    "\<And>x. x \<notin> set xs \<Longrightarrow> procs t1 x = procs s x"
    by (rule removeProcess_spec [OF b [unfolded ps]]) blast
  have cur1: "currentProcess t1 = c" by (subst t1(6)) (simp add: c)
  obtain pc where pc: "procs t1 c = Some pc" using lpath_dom [OF t1(2) ic] by auto
  have nc: "next_p pc = hd0 vs" using t1(2) pc unfolding uv by (auto simp: lpath_append dest: lpath_hd0)
  have pa1: "procs t1 a = Some pa" using t1(7) [of a] pa d ps by auto
  define e where "e = s8 (MAX_PRIORITY - priority pc)"
  define la where "la = (if c = lastProcess t1 then a else lastProcess t1)"
  define s2 where "s2 = t1\<lparr>procs := (procs t1)(c \<mapsto> pc\<lparr>executions := e, next_p := a\<rparr>,
     a \<mapsto> pa\<lparr>next_p := hd0 vs, state := READY\<rparr>), lastProcess := la\<rparr>"
  have cc: "core pc = core (P s c)" using t1(4) [of c] pc by simp
  have pc4: "0 \<le> priority pc" "priority pc < 40"
    using base_pinv [OF b c(2)] core_eqD(8) [OF cc] by (auto simp: pinv_def)
  then have e: "e = MAX_PRIORITY - priority pc" by (simp add: e_def)
  let ?s1 = "s\<lparr>procs := (procs s)(c \<mapsto> (P s c)\<lparr>executions := e\<rparr>, a \<mapsto> pa\<lparr>state := READY\<rparr>)\<rparr>"
  have b1: "base_inv ?s1 ps ss"
  proof (rule base_inv_mild [OF b])
    show "\<exists>q. procs ?s1 x = Some q \<and> mild (P s x) q" if "x \<in> set ps" for x
      using base_dom [OF b that] pa a(2,4) mild_exec [of "P s c" e] mild_state [of READY pa]
      by (cases "x = a"; cases "x = c") auto
  qed (use nn in auto)
  have sets: "set us \<union> insert c (set vs) = set xs \<union> set ys" using arg_cong [OF uv, of set] by simp
  have "distinct (xs @ ys)" "a \<notin> set (xs @ ys)" using d ps by auto
  then have dd: "distinct (us @ c # vs)" "a \<notin> set (us @ c # vs)" unfolding uv by blast+
  have b2: "base_inv s2 (us @ c # a # vs) ss"
  proof (rule base_inv_relink [OF b1])
    have "nxt s2 = (nxt t1)(a \<mapsto> hd0 vs, c \<mapsto> a)" using a(2) by (auto simp: s2_def fun_eq_iff)
    moreover have "lpath (nxt t1) (firstProcess t1) (us @ c # vs) NULL" using t1(2) uv by simp
    ultimately show "lpath (nxt s2) (firstProcess s2) (us @ c # a # vs) NULL"
      using lpath_insert_after [of "nxt t1" "firstProcess t1" us c vs a] nn dd(2) by (simp add: s2_def)
    show "lastProcess s2 = last0 (us @ c # a # vs)"
      using t1(3) dd(1) unfolding uv by (cases vs rule: rev_cases) (auto simp: s2_def la_def last0_def)
    show "set (us @ c # a # vs) \<subseteq> set ps" using sets ps by auto
    have "core (pc\<lparr>executions := e, next_p := a\<rparr>) = core ((P s c)\<lparr>executions := e\<rparr>)"
      using cc by (cases pc; cases "P s c") (simp add: core_def)
    then show "core (P s2 x) = core (P ?s1 x)" for x
      using t1(4) [of x] pa a(2) by (auto simp: s2_def core_def)
    have eq: "set (us @ c # a # vs) = set ps" using sets ps by auto
    show "\<exists>i \<in> set (us @ c # a # vs). pid (P ?s1 i) = IDLE_PID" unfolding eq using base_idleE [OF b1] by blast
    have "pids t1 = pids s" "firstSleep t1 = firstSleep s" "sleeps t1 = sleeps s" "mm t1 = mm s" by (subst t1(6), simp)+
    then show "pids s2 = pids ?s1" "firstSleep s2 = firstSleep ?s1" "sleeps s2 = sleeps ?s1" "mm_ok (mm s2)"
      and mm: "\<And>y. y \<in> set (owned ?s1 (us @ c # a # vs) ss) \<Longrightarrow> payload (mm s2) y \<noteq> None"
      using base_mm [OF b] base_live [OF b1] unfolding set_owned eq by (simp_all add: s2_def)
    show "procs s2 NULL = procs ?s1 NULL" using nn t1(5) by (simp add: s2_def)
  qed
  obtain par x t where t: "searchProcess (ppid pa) (firstProcess s2) s2 = Some (par, x)" "foreFromParent par s2 = Some t"
    "base_inv t (us @ c # a # vs) ss" "t = s2\<lparr>procs := procs t\<rparr>" "\<forall>x \<in> set (us @ c # a # vs). wake_eq (P s2 x) (P t x)"
    using fore_from_parent [OF b2, of "ppid pa"] by blast
  define v where "v = (if foreground pa = 0 then s2 else t)"
  have rn: "modP c (\<lambda>c. c\<lparr>executions := s8 (MAX_PRIORITY - priority c)\<rparr>) t1 = Some (t1\<lparr>procs := (procs t1)(c \<mapsto> pc\<lparr>executions := e\<rparr>)\<rparr>)"
    using nn pc by (simp add: modP_def e_def)
  have ma: "modP a (next_p_update (\<lambda>_. hd0 vs)) (t1\<lparr>procs := (procs t1)(c \<mapsto> pc\<lparr>executions := e\<rparr>)\<rparr>) =
      Some (t1\<lparr>procs := (procs t1)(c \<mapsto> pc\<lparr>executions := e\<rparr>, a \<mapsto> pa\<lparr>next_p := hd0 vs\<rparr>)\<rparr>)"
    using nn pa1 a(2) by (simp add: modP_def)
  have mc: "modP c (next_p_update (\<lambda>_. a)) (t1\<lparr>procs := (procs t1)(c \<mapsto> pc\<lparr>executions := e\<rparr>, a \<mapsto> pa\<lparr>next_p := hd0 vs\<rparr>)\<rparr>) =
      Some (t1\<lparr>procs := (procs t1)(c \<mapsto> pc\<lparr>executions := e, next_p := a\<rparr>, a \<mapsto> pa\<lparr>next_p := hd0 vs\<rparr>)\<rparr>)"
    using nn a(2) by (simp add: modP_def fun_upd_twist)
  let ?t2 = "t1\<lparr>procs := (procs t1)(c \<mapsto> pc\<lparr>executions := e, next_p := a\<rparr>, a \<mapsto> pa\<lparr>next_p := hd0 vs\<rparr>)\<rparr>"
  have mr: "modP a (state_update (\<lambda>_. READY)) (if c = lastProcess t1 then ?t2\<lparr>lastProcess := a\<rparr> else ?t2) = Some s2"
    using nn by (simp add: modP_def s2_def la_def)
  have ps2: "procs s2 a = Some (pa\<lparr>next_p := hd0 vs, state := READY\<rparr>)" by (simp add: s2_def)
  have fin: "(if foreground pa \<noteq> 0 then foreFromParent par s2 else Some s2) = Some v" using t(2) by (simp add: v_def)
  have run: "unblockFirst_enter k s = Some (True, v)"
    using pr nn pa a(2,4) t1(1) cur1 rn ma mc mr nc ps2 fin t(1)
    by (simp add: unblockFirst_enter_def split del: if_split)
  have vv: "base_inv v (us @ c # a # vs) ss" "v = s2\<lparr>procs := procs v\<rparr>" "\<forall>x \<in> set (us @ c # a # vs). wake_eq (P s2 x) (P v x)"
    using b2 t(3-5) by (auto simp: v_def)
  note w = wake_eqD [OF vv(3) [rule_format]]
  have "state (P v x) = state (P s x)" if "x \<in> set ps" "x \<noteq> a" for x
  proof -
    have "x \<in> set (us @ c # a # vs)" using that sets ps by auto
    then show ?thesis using w(2) [of x] that(2) core_eqD(3) [OF t1(4), of x] pc by (cases "x = c") (auto simp: s2_def)
  qed
  moreover have "pid (P v x) = pid (P s x)" if "x \<in> set ps" for x
  proof -
    have "x \<in> set (us @ c # a # vs)" using that sets ps by auto
    then show ?thesis using w(1) [of x] core_eqD(1) [OF t1(4), of x] pc pa by (cases "x = c"; cases "x = a") (auto simp: s2_def)
  qed
  moreover have "state (P v a) = READY" using w(2) [of a] by (simp add: s2_def)
  moreover have "executions (P v c) = MAX_PRIORITY - priority (P v c)"
    using w(5,6) [of c] a(2) e by (simp add: s2_def)
  moreover have "v = s\<lparr>procs := procs v, firstProcess := firstProcess v, lastProcess := lastProcess v\<rparr>"
    using vv(2) t1(6) by (cases s; cases t1; cases v) (simp add: s2_def)
  moreover have "set (us @ c # a # vs) = set ps" using sets ps by auto
  moreover have "procs v x = None \<longleftrightarrow> procs s x = None" for x
    using removeProcess_none [OF t1(1), of x] foreFromParent_none [OF t(2), of x] pc pa1 by (auto simp: v_def s2_def)
  ultimately show ?thesis using run vv(1) c(2) a(2) by (intro exI [of _ v] exI [of _ us] exI [of _ vs]) auto
qed

text \<open>The woken process runs next.\<close>

lemma unblockFirst_handoff:
  assumes inv: "sched_inv s ps ss" and c: "c = currentProcess s" "c \<in> set ps" "state (P s c) = READY"
    and a: "a \<in> set ps" "a \<noteq> c" "pid (P s a) = k" "state (P s a) \<noteq> DEAD"
  shows "\<exists>t qs us. unblockFirst k s = Some (EXIT_SUCCESS, t) \<and> runs t qs us \<and> set qs = set ps \<and> currentProcess t = a \<and>
    rsp (P t c) = cpu_rsp s \<and> (\<forall>x \<in> set ps. state (P s x) = READY \<longrightarrow> pid (P s x) \<noteq> IDLE_PID \<longrightarrow> state (P t x) = READY) \<and>
    others_kept s t \<and> ram t = ram s \<and> sleepers t \<subseteq> sleepers s \<and> (\<forall>x \<in> set ps. pid (P t x) = pid (P s x)) \<and>
    (\<forall>x \<in> set ps. x \<noteq> a \<longrightarrow> pid (P s x) \<notin> sleepers s \<longrightarrow> pid (P s x) \<noteq> IDLE_PID \<longrightarrow> state (P t x) = state (P s x))"
proof -
  from unblockFirst_enter_found [OF sched_base [OF inv] c(1,2) a] obtain v us vs where
    v: "unblockFirst_enter k s = Some (True, v)" "base_inv v (us @ c # a # vs) ss" "set (us @ c # a # vs) = set ps"
      "v = s\<lparr>procs := procs v, firstProcess := firstProcess v, lastProcess := lastProcess v\<rparr>" "state (P v a) = READY"
      "state (P v c) = state (P s c)" "executions (P v c) = MAX_PRIORITY - priority (P v c)"
      "\<forall>x \<in> set ps. x \<noteq> a \<longrightarrow> state (P v x) = state (P s x)" "\<forall>x \<in> set ps. pid (P v x) = pid (P s x)"
      "\<forall>x. procs v x = None \<longleftrightarrow> procs s x = None" by blast
  let ?qs = "us @ c # a # vs"
  have cur: "currentProcess v = c" "firstBlockedIteration v = firstBlockedIteration s" "cpu_rsp v = cpu_rsp s"
    using c(1) by (subst v(4), simp)+
  have iv: "sched_inv v ?qs ss" using v(2) inv cur by (simp add: sched_inv_def)
  from forceTimer_spec [OF iv] obtain u ws t where
    fr: "slept v u ?qs" "others_kept v t" "ram t = ram v" "sleepers t \<subseteq> sleepers v" and
    u: "sched_inv u ?qs ws" "wakes v u ?qs" "forceTimer v = Some t" "sched_inv t (survivors u ?qs) ws"
      "currentProcess t = pick u ?qs" "state (P t (pick u ?qs)) = READY"
      "\<forall>x \<in> set (survivors u ?qs). kept (P u x) (P t x) \<and> (pid (P u x) \<noteq> IDLE_PID \<longrightarrow> state (P t x) = state (P u x)) \<and>
         rsp (P t x) = (if x = currentProcess v then cpu_rsp v else rsp (P u x))" by blast
  have wk: "woken (P v x) (P u x)" if "x \<in> set ?qs" for x using u(2) that unfolding wakes_def by blast
  have wf: "next_p (P u x) = next_p (P v x)" "executions (P u x) = executions (P v x)" "priority (P u x) = priority (P v x)"
    "pid (P u x) = pid (P v x)" "state (P v x) = READY \<longrightarrow> state (P u x) = READY" if "x \<in> set ?qs" for x
    using wk [OF that] unfolding woken_def by (cases "P v x"; cases "P u x"; auto)+
  have cn: "c \<noteq> NULL" using base_nonnull [OF sched_base [OF inv]] c(2) by metis
  have cu: "currentProcess u = c" using wakesD(1) [OF u(2)] cur(1) by simp
  have qo: "quota_over u" using wf [of c] v(6,7) c(3) cu cn by (simp add: quota_over_def)
  have nx: "next_p (P u c) = a" using base_next [of u us c "a # vs" ws] sched_base [OF u(1)] by simp
  have sa: "startAt u = a" using qo nx cu by (simp add: startAt_def)
  have dq: "distinct ?qs" using base_distinct [OF v(2)] .
  have an: "a \<noteq> NULL" using base_nonnull [OF v(2)] by auto
  obtain xs zs where xz: "?qs = xs @ zs" "rota ?qs a = zs @ xs" "a = hd0 zs" using rota_split [OF dq, of a] by auto
  then obtain zs' where zs: "zs = a # zs'" using an by (cases zs) auto
  have ra: "state (P u a) = READY" using wf(5) [of a] v(5) by simp
  have pk: "pick u ?qs = a" using ra xz(2) zs by (simp add: pick_def sa)
  have sv: "survivors u ?qs = ?qs" using ra xz(2) zs by (simp add: survivors_def sa)
  have run: "unblockFirst k s = Some (EXIT_SUCCESS, t)" using v(1) u(3) by (simp add: unblockFirst_def)
  have "rsp (P t c) = cpu_rsp s" using u(7) sv cur by simp
  moreover have "state (P t x) = READY" if "x \<in> set ps" "state (P s x) = READY" "pid (P u x) \<noteq> IDLE_PID" for x
  proof -
    have ix: "x \<in> set ?qs" using that(1) v(3) by blast
    have "state (P v x) = READY" using v(5,8) that by (cases "x = a") auto
    then show ?thesis using wf(5) [OF ix] u(7) sv ix that(3) by auto
  qed
  moreover have "pid (P u x) = pid (P s x)" if "x \<in> set ps" for x
    using that wf(4) [of x] v(3,9) by auto
  moreover have "runs t ?qs ws" using u(4-6) pk sv by (simp add: runs_def)
  moreover have e: "sleeps v = sleeps s" "mm v = mm s" "ram v = ram s" by (subst v(4), simp)+
  moreover have "others_kept s t"
    using others_kept_trans [OF others_kept_procs fr(2)] v(10) e by blast
  moreover have sl: "sleepers v = sleepers s" by (simp add: sleepers_def e)
  moreover have pt: "pid (P t x) = pid (P s x)" if "x \<in> set ps" for x
    using that wf(4) [of x] v(3,9) u(7) sv by (auto simp: kept_iff)
  moreover have "state (P t x) = state (P s x)" if "x \<in> set ps" "x \<noteq> a" "pid (P s x) \<notin> sleepers s" "pid (P s x) \<noteq> IDLE_PID" for x
  proof -
    have ix: "x \<in> set ?qs" using that(1) v(3) by blast
    have "state (P u x) = state (P v x)" using fr(1) ix that(3) v(9) that(1) unfolding slept_def sl by auto
    then show ?thesis using u(7) sv ix that(2,4) wf(4) [OF ix] v(8,9) that(1) by auto
  qed
  ultimately show ?thesis using run u(5) pk v(3) fr(3,4) by (intro exI [of _ t] exI [of _ ?qs] exI [of _ ws]) auto
qed

end
