(* ===== verification/Scheduler_Create.thy ===== *)
theory Scheduler_Create
  imports Scheduler_Links
begin

text \<open>
  Creating processes: \<open>enqueueProcess\<close> appends a ready process with its own memory, and booting
  the kernel (\<open>initScheduler\<close>, then the first user process) establishes the invariant.
\<close>

section \<open>Obtaining memory\<close>

lemma malloc_s_room:
  assumes "mm_ok (mm s)" "room_for (n # ns) (mm s)" "0 < n" "n < top_bit"
  obtains p m where "malloc_s n s = Some (p, s\<lparr>mm := m\<rparr>)" "mm_ok m" "p \<noteq> NULL" "payload (mm s) p = None"
    "payload m p \<noteq> None" "\<And>q. payload (mm s) q \<noteq> None \<Longrightarrow> payload m q \<noteq> None" "room_for ns m"
proof -
  obtain p m where m: "pvPortMalloc n (mm s) = Some (p, m)" "p \<noteq> NULL" "room_for ns m"
    using room_malloc [OF assms(2-4)] .
  have "n < 2 ^ 64" using assms(4) by simp
  from frt4.malloc_result [OF assms(1) this] m(1,2) obtain k where
    k: "mm_ok m" "payload (mm s) p = None" "payload m = (payload (mm s))(p \<mapsto> k)" by auto
  show ?thesis by (rule that [of p m]) (use m k in \<open>auto simp: malloc_s_def\<close>)
qed

text \<open>The memory manager has the memory: every allocation of a sequence gives a block.\<close>

fun allocs :: "nat list \<Rightarrow> mm_state \<Rightarrow> bool" where
  "allocs [] m = True"
| "allocs (n # ns) m = (case pvPortMalloc n m of None \<Rightarrow> False | Some (p, m') \<Rightarrow> p \<noteq> NULL \<and> allocs ns m')"

lemma room_for_prefix: "room_for (ns @ ms) m \<Longrightarrow> room_for ns m"
proof -
  have "sum_list (map adjustWantedSize ns) + 33 \<le> sum_list (map adjustWantedSize (ns @ ms)) + 33" by simp
  then show "room_for (ns @ ms) m \<Longrightarrow> room_for ns m" unfolding room_for_def room_def by (meson order_trans)
qed

lemma room_allocs: "room_for ns m \<Longrightarrow> \<forall>n \<in> set ns. 0 < n \<and> n < top_bit \<Longrightarrow> allocs ns m"
proof (induction ns arbitrary: m)
  case (Cons n ns)
  then obtain p m' where "pvPortMalloc n m = Some (p, m')" "p \<noteq> NULL" "room_for ns m'" by (auto elim: room_malloc)
  with Cons show ?case by simp
qed simp

lemma malloc_s_allocs:
  assumes "mm_ok (mm s)" "allocs (n # ns) (mm s)" "0 < n" "n < top_bit"
  obtains p m where "malloc_s n s = Some (p, s\<lparr>mm := m\<rparr>)" "mm_ok m" "p \<noteq> NULL" "payload (mm s) p = None"
    "payload m p \<noteq> None" "\<And>q. payload (mm s) q \<noteq> None \<Longrightarrow> payload m q \<noteq> None" "allocs ns m"
    "\<And>ms. room_for (n # ms) (mm s) \<Longrightarrow> room_for ms m"
proof -
  obtain p m where m: "pvPortMalloc n (mm s) = Some (p, m)" "p \<noteq> NULL" "allocs ns m"
    using assms(2) by (auto split: option.splits)
  have "n < 2 ^ 64" using assms(4) by simp
  from frt4.malloc_result [OF assms(1) this] m(1,2) obtain k where
    k: "mm_ok m" "payload (mm s) p = None" "payload m = (payload (mm s))(p \<mapsto> k)" by auto
  have "room_for ms m" if "room_for (n # ms) (mm s)" for ms using room_malloc [OF that assms(3,4)] m(1) by auto
  with m k show ?thesis by (intro that [of p m]) (auto simp: malloc_s_def)
qed

lemma list_inv_mm:
  assumes "list_inv s ps ss" "mm_ok m" "\<And>q. payload (mm s) q \<noteq> None \<Longrightarrow> payload m q \<noteq> None"
  shows "list_inv (s\<lparr>mm := m\<rparr>) ps ss"
  using assms unfolding list_inv_def owned_def by simp

lemma list_inv_vars [simp]:
  "list_inv (s\<lparr>fds := d\<rparr>) ps ss = list_inv s ps ss" "list_inv (s\<lparr>ram := m\<rparr>) ps ss = list_inv s ps ss"
  "list_inv (s\<lparr>frames := f\<rparr>) ps ss = list_inv s ps ss"
  by (simp_all add: list_inv_def owned_def)

section \<open>Appending a process\<close>

lemma lpath_append_last:
  assumes "lpath n p ps NULL" "a \<noteq> NULL" "a \<notin> set ps" "m a = Some NULL"
    and "\<And>x. x \<in> set ps \<Longrightarrow> m x = (if x = last ps then Some a else n x)"
  shows "lpath m (if ps = [] then a else p) (ps @ [a]) NULL"
proof (cases ps rule: rev_cases)
  case Nil
  then show ?thesis using assms by simp
next
  case (snoc xs z)
  have "distinct ps" using lpath_distinct [OF assms(1)] .
  then have "lpath m p xs z" using assms(1,5) snoc by (subst lpath_cong [of _ _ n]) (auto simp: lpath_snoc)
  then show ?thesis using assms snoc by (auto simp: lpath_append lpath_snoc)
qed

lemma list_inv_append:
  assumes l: "list_inv s ps ss" and a: "a \<noteq> NULL" "a \<notin> set ps"
    and q: "next_p q = NULL" "pid q = pids s" "pinv (pids s + 1) q" "0 < pids s" "pids s < 2147483647"
    and own: "distinct (a # owns q)" "set (a # owns q) \<inter> set (owned s ps ss) = {}"
      "\<And>x. x \<in> set (a # owns q) \<Longrightarrow> payload (mm s) x \<noteq> None"
  defines "u \<equiv> s\<lparr>procs := (procs s)(a \<mapsto> q), pids := s32 (pids s + 1)\<rparr>"
  shows "\<exists>t. (if firstProcess u = NULL then Some (u\<lparr>firstProcess := a\<rparr>)
      else modP (lastProcess u) (next_p_update (\<lambda>_. a)) u) = Some t \<and>
    list_inv (t\<lparr>lastProcess := a\<rparr>) (ps @ [a]) ss \<and> procs t a = Some q \<and>
    t = u\<lparr>procs := procs t, firstProcess := firstProcess t\<rparr> \<and> (\<forall>x \<in> set ps. core (P t x) = core (P s x)) \<and>
    procs t NULL = procs s NULL \<and> (\<forall>x. procs t x = None \<longleftrightarrow> x \<noteq> a \<and> procs s x = None)"
proof -
  have path: "lpath (nxt s) (firstProcess s) ps NULL" and last: "lastProcess s = last0 ps" using l by (auto simp: list_inv_def)
  have nn: "NULL \<notin> set ps" and d: "distinct ps" using lpath_nonnull [OF path] lpath_distinct [OF path] .
  have first: "firstProcess s = NULL \<longleftrightarrow> ps = []" using lpath_hd0 [OF path] nn by (cases ps) auto
  define z where "z = last ps"
  have z: "z \<in> set ps" "z \<noteq> NULL" "z \<noteq> a" if "ps \<noteq> []"
    using that last_in_set [OF that] nn a(2) unfolding z_def by metis+
  have dom: "\<exists>p. procs s x = Some p" if "x \<in> set ps" for x using lpath_dom [OF path that] by auto
  define t where "t = (if ps = [] then u\<lparr>firstProcess := a\<rparr>
    else u\<lparr>procs := (procs u)(z \<mapsto> (P s z)\<lparr>next_p := a\<rparr>)\<rparr>)"
  have run: "(if firstProcess u = NULL then Some (u\<lparr>firstProcess := a\<rparr>)
      else modP (lastProcess u) (next_p_update (\<lambda>_. a)) u) = Some t"
  proof (cases "ps = []")
    case False
    then obtain p where "procs s z = Some p" using dom z(1) by blast
    with False first last z show ?thesis by (auto simp: u_def t_def modP_def last0_def z_def)
  qed (use first in \<open>simp add: u_def t_def\<close>)
  have pt: "procs t x = (if x = a then Some q else if ps \<noteq> [] \<and> x = z then Some ((P s z)\<lparr>next_p := a\<rparr>) else procs s x)" for x
    using z by (auto simp: t_def u_def)
  have cor: "core (P t x) = core (P s x)" if "x \<in> set ps" for x using that a(2) by (auto simp: pt core_def)
  note ce = core_eqD [OF cor]
  have lp: "lpath (nxt t) (if ps = [] then a else firstProcess s) (ps @ [a]) NULL"
    by (rule lpath_append_last [OF path a]) (use a(2) q(1) in \<open>auto simp: pt z_def\<close>)
  have ff: "firstProcess t = (if ps = [] then a else firstProcess s)" by (simp add: t_def u_def)
  define C where "C = concat (map (\<lambda>x. x # owns (P s x)) ps)"
  have os: "owned s ps ss = C @ ss" by (simp add: owned_def C_def)
  have mp: "map (\<lambda>x. x # owns (P t x)) ps = map (\<lambda>x. x # owns (P s x)) ps" using ce(4) by simp
  have ta: "P t a = q" by (simp add: pt)
  have oa: "owned t (ps @ [a]) ss = C @ (a # owns q) @ ss"
    unfolding owned_def map_append concat_append mp C_def by (simp add: ta)
  have "distinct (C @ ss)" and live: "\<And>x. x \<in> set (C @ ss) \<Longrightarrow> payload (mm s) x \<noteq> None"
    using l unfolding list_inv_def os by blast+
  then have do: "distinct (owned t (ps @ [a]) ss)" using own(1,2) unfolding oa os by auto
  have live': "payload (mm s) x \<noteq> None" if "x \<in> set (owned t (ps @ [a]) ss)" for x
    using that live [of x] own(3) [of x] unfolding oa by auto
  have pids: "pids t = pids s + 1" using q(4,5) by (simp add: t_def u_def)
  have pinv: "\<forall>x \<in> set ps. pinv (pids s) (P s x)" using l by (simp add: list_inv_def)
  have pi: "pinv (pids t) (P t x)" if "x \<in> set (ps @ [a])" for x
    using that pinv ce(15) [of x "pids t"] q(3) unfolding pids by (cases "x = a") (auto simp: pt pinv_def)
  have "pids s \<notin> (\<lambda>x. pid (P s x)) ` set ps" using pinv by (auto simp: pinv_def)
  moreover have mq: "map (\<lambda>x. pid (P t x)) ps = map (\<lambda>x. pid (P s x)) ps" using ce(1) by simp
  moreover have "distinct (map (\<lambda>x. pid (P s x)) ps)" using l by (simp add: list_inv_def)
  ultimately have dp: "distinct (map (\<lambda>x. pid (P t x)) (ps @ [a]))"
    unfolding map_append mq using q(2) ta by simp
  have eq: "firstSleep t = firstSleep s" "sleeps t = sleeps s" "mm t = mm s" by (simp_all add: t_def u_def)
  have n0: "procs t NULL = procs s NULL" using a(1) z(2) by (auto simp: pt)
  have "list_inv (t\<lparr>lastProcess := a\<rparr>) (ps @ [a]) ss"
    using l lp ff dp do pi live' n0 eq unfolding list_inv_def by (simp add: owned_def)
  moreover have "t = u\<lparr>procs := procs t, firstProcess := firstProcess t\<rparr>" by (simp add: t_def)
  moreover have "procs t x = None \<longleftrightarrow> x \<noteq> a \<and> procs s x = None" for x using dom z(1) by (auto simp: pt)
  ultimately show ?thesis using run cor pt [of a] n0 by (intro exI [of _ t]) auto
qed

section \<open>createProcess and enqueueProcess\<close>

lemma createProcess_spec:
  assumes l: "list_inv s ps ss" and c: "procs s (currentProcess s) = Some c0" "pid c0 \<noteq> pids s"
    and n: "0 < pids s" "pids s < 2147483647" and fg: "pids s = IDLE_PID \<Longrightarrow> fg = 0"
    and room: "allocs [72, STACK_SIZE, 10] (mm s)"
    and f: "payload (mm s) fdp \<noteq> None" "fdp \<notin> set (owned s ps ss)"
  shows "\<exists>t a. createProcess fn fg ac av fdp s = Some (pids s, t) \<and> list_inv t (ps @ [a]) ss \<and> a \<notin> set ps \<and>
    currentProcess t = currentProcess s \<and> firstBlockedIteration t = firstBlockedIteration s \<and> idleFlag t = idleFlag s \<and>
    pids t = pids s + 1 \<and> fds t = fds s \<and> procs t NULL = procs s NULL \<and> (\<forall>ns. room_for (72 # STACK_SIZE # 10 # ns) (mm s) \<longrightarrow> room_for ns (mm t)) \<and>
    (\<forall>x \<in> set ps. core (P t x) = core (P s x)) \<and> (tidy s \<longrightarrow> tidy t) \<and> sleepers t = sleepers s \<and>
    state (P t a) = READY \<and> executions (P t a) = 0 \<and>
    pid (P t a) = pids s \<and> ppid (P t a) = pid c0 \<and> foreground (P t a) = fg \<and>
    fd (P t a) = fdp \<and> priority (P t a) = (if fg = 1 then 0 else 20) \<and>
    rbp (P t a) = bPointer (P t a) + 8 * STACK_SIZE \<and> rsp (P t a) = initialize_stack_frame (rbp (P t a)) \<and>
    frames t (rsp (P t a)) = Some \<lparr>frame_ip = fn, frame_argc = ac, frame_argv = av\<rparr>"
proof -
  have ok: "mm_ok (mm s)" and dis: "distinct (owned s ps ss)" and live: "\<And>x. x \<in> set (owned s ps ss) \<Longrightarrow> payload (mm s) x \<noteq> None"
    using l by (auto simp: list_inv_def)
  obtain a m1 where a: "malloc_s 72 s = Some (a, s\<lparr>mm := m1\<rparr>)" "mm_ok m1" "a \<noteq> NULL" "payload (mm s) a = None"
    "payload m1 a \<noteq> None" "\<And>q. payload (mm s) q \<noteq> None \<Longrightarrow> payload m1 q \<noteq> None" "allocs [STACK_SIZE, 10] m1"
    and a': "\<And>ms. room_for (72 # ms) (mm s) \<Longrightarrow> room_for ms m1"
    by (rule malloc_s_allocs [OF ok room]) auto
  let ?s1 = "s\<lparr>mm := m1\<rparr>"
  obtain st m2 where b: "malloc_s STACK_SIZE ?s1 = Some (st, ?s1\<lparr>mm := m2\<rparr>)" "mm_ok m2" "st \<noteq> NULL" "payload m1 st = None"
    "payload m2 st \<noteq> None" "\<And>q. payload m1 q \<noteq> None \<Longrightarrow> payload m2 q \<noteq> None" "allocs [10] m2"
    and b': "\<And>ms. room_for (STACK_SIZE # ms) m1 \<Longrightarrow> room_for ms m2"
    using malloc_s_allocs [of ?s1 STACK_SIZE "[10]"] a(2,7) by auto
  let ?s2 = "s\<lparr>mm := m2\<rparr>"
  obtain nm m3 where d: "malloc_s 10 ?s2 = Some (nm, ?s2\<lparr>mm := m3\<rparr>)" "mm_ok m3" "nm \<noteq> NULL" "payload m2 nm = None"
    "payload m3 nm \<noteq> None" "\<And>q. payload m2 q \<noteq> None \<Longrightarrow> payload m3 q \<noteq> None" "\<And>ms. room_for (10 # ms) m2 \<Longrightarrow> room_for ms m3"
    using malloc_s_allocs [of ?s2 10 "[]"] b(2,7) by auto
  have rm: "room_for ms m3" if "room_for (72 # STACK_SIZE # 10 # ms) (mm s)" for ms using d(7) [OF b' [OF a' [OF that]]] .
  obtain j rm where cn: "copyName (rd64 (ram s) av) nm 0 (ram s) = (j, rm)" by fastforce
  define sp where "sp = initialize_stack_frame (st + 8 * STACK_SIZE)"
  define q where "q = \<lparr>next_p = NULL, name = nm, pid = pids s, ppid = pid c0, rsp = sp, rbp = st + 8 * STACK_SIZE,
     priority = (if fg = 1 then 0 else 20), executions = 0, foreground = fg, state = READY, fd = fdp, children = 0, backWait = 0,
     bPointer = st\<rparr>"
  define s3 where "s3 = s\<lparr>mm := m3, ram := rm(nm + j := 0),
     frames := (frames s)(sp \<mapsto> \<lparr>frame_ip = fn, frame_argc = ac, frame_argv = av\<rparr>)\<rparr>"
  have grow: "payload m3 x \<noteq> None" if "payload (mm s) x \<noteq> None" for x using that a(6) b(6) d(6) by simp
  have l3: "list_inv s3 ps ss"
    using list_inv_mm [OF l d(2) grow] by (simp add: s3_def)
  have so: "owned s3 ps ss = owned s ps ss" by (simp add: owned_def s3_def)
  have new: "a \<notin> set (owned s ps ss)" "st \<notin> set (owned s ps ss)" "nm \<notin> set (owned s ps ss)"
    using live a(4,6) b(4,6) d(4) by metis+
  have "a \<noteq> nm" "a \<noteq> fdp" "a \<noteq> st" "nm \<noteq> fdp" "nm \<noteq> st" "fdp \<noteq> st"
    using f(1) a(4,5,6) b(4,5,6) d(4) by metis+
  then have "distinct [a, nm, fdp, st]" by auto
  then have own: "distinct (a # owns q)" "set (a # owns q) \<inter> set (owned s3 ps ss) = {}"
    using new f(2) unfolding so by (auto simp: owns_def q_def)
  have lv: "payload (mm s3) x \<noteq> None" if "x \<in> set (a # owns q)" for x
    using that b(6) [OF a(5)] d(6) [OF b(5)] d(5) d(6) [OF b(6) [OF a(5)]] grow [OF f(1)]
    by (auto simp: owns_def q_def s3_def)
  have pq: "pinv (pids s3 + 1) q" using n c(2) fg by (auto simp: pinv_def q_def s3_def)
  have nps: "a \<notin> set ps" using new(1) by (auto simp: set_owned)
  have qf: "next_p q = NULL" "pid q = pids s3" "0 < pids s3" "pids s3 < 2147483647" using n by (simp_all add: q_def s3_def)
  define u3 where "u3 = s3\<lparr>procs := (procs s3)(a \<mapsto> q), pids := s32 (pids s3 + 1)\<rparr>"
  from list_inv_append [OF l3 a(3) nps qf(1,2) pq qf(3,4) own lv, folded u3_def] obtain t where
    t: "(if firstProcess u3 = NULL then Some (u3\<lparr>firstProcess := a\<rparr>)
         else modP (lastProcess u3) (next_p_update (\<lambda>_. a)) u3) = Some t"
      "list_inv (t\<lparr>lastProcess := a\<rparr>) (ps @ [a]) ss" "procs t a = Some q"
      "t = u3\<lparr>procs := procs t, firstProcess := firstProcess t\<rparr>"
      "\<forall>x \<in> set ps. core (P t x) = core (P s3 x)" "procs t NULL = procs s3 NULL"
      "\<forall>x. procs t x = None \<longleftrightarrow> x \<noteq> a \<and> procs s3 x = None"
    by blast
  have t4: "t = s\<lparr>mm := m3, ram := rm(nm + j := 0),
     frames := (frames s)(sp \<mapsto> \<lparr>frame_ip = fn, frame_argc = ac, frame_argv = av\<rparr>),
     procs := procs t, pids := s32 (pids s + 1), firstProcess := firstProcess t\<rparr>"
    by (subst t(4)) (simp add: s3_def u3_def)
  have u3: "u3 = s\<lparr>mm := m3, ram := rm(nm + j := 0), procs := (procs s)(a \<mapsto> q), pids := s32 (pids s + 1),
     frames := (frames s)(sp \<mapsto> \<lparr>frame_ip = fn, frame_argc = ac, frame_argv = av\<rparr>)\<rparr>"
    by (cases s) (simp add: u3_def s3_def)
  have run: "createProcess fn fg ac av fdp s = Some (pids s, t\<lparr>lastProcess := a\<rparr>)"
    using a(1,3) b(1,3) d(1,3) cn c(1) t(1) [unfolded u3] t(3)
    by (simp add: createProcess_def Let_def q_def sp_def split: if_splits)
  have tf: "currentProcess t = currentProcess s" "firstBlockedIteration t = firstBlockedIteration s" "idleFlag t = idleFlag s"
    "pids t = pids s + 1" "fds t = fds s" "mm t = m3" "frames t sp = Some \<lparr>frame_ip = fn, frame_argc = ac, frame_argv = av\<rparr>"
    using n by (subst t4, simp)+
  have sl: "sleeps t = sleeps s" "procs s3 = procs s" by (subst t4, simp, simp add: s3_def)
  have "payload m3 a \<noteq> None" using d(6) [OF b(6) [OF a(5)]] .
  then have td: "tidy (t\<lparr>lastProcess := a\<rparr>)" if "tidy s"
    using that t(7) sl tf(6) grow a(3,4) unfolding tidy_def by (simp del: not_None_eq) metis
  have ss: "sleepers (t\<lparr>lastProcess := a\<rparr>) = sleepers s" by (simp add: sleepers_def sl)
  show ?thesis
    using run t(2,3,5,6) nps tf rm td ss by (intro exI [of _ "t\<lparr>lastProcess := a\<rparr>"] exI [of _ a]) (auto simp: q_def s3_def sp_def)
qed

lemma mild_adopt: "mild p (adopt fg p)"
  by (auto simp: mild_def adopt_def owns_def pinv_def Let_def)

text \<open>The running process may create another one: the idle process does not, and there are free identifiers.\<close>

definition can_fork :: "sched_state \<Rightarrow> addr list \<Rightarrow> addr list \<Rightarrow> bool" where
  "can_fork s ps ss \<longleftrightarrow> runs s ps ss \<and>
     (idleFlag s = 0 \<longrightarrow> pid (P s (currentProcess s)) \<noteq> IDLE_PID) \<and> pids s < 2147483647"

text \<open>With descriptors of its own or with those that the caller gives it.\<close>

lemma enqueueProcess_alloc:
  assumes cf: "can_fork s ps ss" and own: "fdp = NULL \<Longrightarrow> allocs [8, 72, STACK_SIZE, 10] (mm s)"
    and given: "fdp \<noteq> NULL \<Longrightarrow> payload (mm s) fdp \<noteq> None \<and> fdp \<notin> set (owned s ps ss) \<and> allocs [72, STACK_SIZE, 10] (mm s)"
  shows "\<exists>t a. enqueueProcess fn fg ac av fdp s = Some (pids s, t) \<and> runs t (ps @ [a]) ss \<and> a \<notin> set ps \<and>
    currentProcess t = currentProcess s \<and> (\<forall>ns. fdp = NULL \<longrightarrow> room_for (8 # 72 # STACK_SIZE # 10 # ns) (mm s) \<longrightarrow> room_for ns (mm t)) \<and>
    state (P t a) = READY \<and> pid (P t a) = pids s \<and> ppid (P t a) = pid (P s (currentProcess s)) \<and> foreground (P t a) = fg \<and>
    fds t (fd (P t a)) = (if fdp = NULL then Some (0, 1) else fds s fdp) \<and> (fdp \<noteq> NULL \<longrightarrow> fd (P t a) = fdp) \<and> priority (P t a) = (if fg = 1 then 0 else 20) \<and>
    children (P t (currentProcess s)) = s32 (children (P s (currentProcess s)) + 1) \<and>
    rbp (P t a) = bPointer (P t a) + 8 * STACK_SIZE \<and> rsp (P t a) = initialize_stack_frame (rbp (P t a)) \<and>
    payload (mm t) (bPointer (P t a)) \<noteq> None \<and> (tidy s \<longrightarrow> tidy t) \<and> sleepers t = sleepers s \<and>
    executions (P t a) = 0 \<and>
    (\<forall>x \<in> set ps. pid (P t x) = pid (P s x) \<and> executions (P t x) = executions (P s x) \<and> (pid (P s x) \<noteq> IDLE_PID \<longrightarrow> state (P t x) = state (P s x))) \<and>
    frames t (rsp (P t a)) = Some \<lparr>frame_ip = fn, frame_argc = ac, frame_argv = av\<rparr>"
proof -
  define c where "c = currentProcess s"
  have inv: "sched_inv s ps ss" and ic: "c \<in> set ps" and nid: "idleFlag s = 0 \<Longrightarrow> pid (P s c) \<noteq> IDLE_PID" and np: "pids s < 2147483647"
    and rc: "state (P s c) = READY"
    using cf by (auto simp: can_fork_def runs_def c_def)
  have b: "base_inv s ps ss" using sched_base [OF inv] .
  have cn: "c \<noteq> NULL" using base_nonnull [OF b] ic by metis
  let ?first = "if fdp = NULL
     then do { (aux, s) \<leftarrow> malloc_s 8 s; if aux = NULL then None else Some (aux, s\<lparr>fds := (fds s)(aux \<mapsto> (0, 1))\<rparr>) }
     else Some (fdp, s)"
  obtain f m D where f: "?first = Some (f, s\<lparr>mm := m, fds := D\<rparr>)" "mm_ok m" "f \<noteq> NULL" "f \<notin> set (owned s ps ss)"
    "payload m f \<noteq> None" "\<And>q. payload (mm s) q \<noteq> None \<Longrightarrow> payload m q \<noteq> None" "allocs [72, STACK_SIZE, 10] m"
    "D f = (if fdp = NULL then Some (0, 1) else fds s fdp)" "fdp \<noteq> NULL \<Longrightarrow> f = fdp"
    "\<And>ns. fdp = NULL \<Longrightarrow> room_for (8 # ns) (mm s) \<Longrightarrow> room_for ns m"
  proof (cases "fdp = NULL")
    case True
    show ?thesis
    proof (rule malloc_s_allocs [OF base_mm [OF b] own [OF True]])
      fix f m
      assume f: "malloc_s 8 s = Some (f, s\<lparr>mm := m\<rparr>)" "mm_ok m" "f \<noteq> NULL" "payload (mm s) f = None" "payload m f \<noteq> None"
        "\<And>q. payload (mm s) q \<noteq> None \<Longrightarrow> payload m q \<noteq> None" "allocs [72, STACK_SIZE, 10] m"
        "\<And>ns. room_for (8 # ns) (mm s) \<Longrightarrow> room_for ns m"
      moreover have "f \<notin> set (owned s ps ss)" using base_live [OF b, of f] f(4) by auto
      ultimately show ?thesis using True by (intro that [of f "(fds s)(f \<mapsto> (0, 1))" m]) auto
    qed auto
  next
    case False
    then show ?thesis using given base_mm [OF b] by (intro that [of fdp "fds s" "mm s"]) auto
  qed
  define s1 where "s1 = s\<lparr>mm := m, fds := D\<rparr>"
  have b1: "base_inv s1 ps ss" using b f(2,6) unfolding base_inv_def s1_def by (auto intro: list_inv_mm)
  define i where "i = idle_of s1 ps"
  note ii = idle_of [OF b1, folded i_def]
  define s2 where "s2 = (if idleFlag s = 0 then s1\<lparr>procs := (procs s1)(i \<mapsto> (P s1 i)\<lparr>state := BLOCKED\<rparr>)\<rparr> else s1)"
  have "c \<noteq> i" if "idleFlag s = 0" using nid [OF that] ii(2) by (auto simp: s1_def)
  then have st2: "(if idleFlag s1 = 0 then do { (_, s) \<leftarrow> blockWith no_switch IDLE_PID s1; Some s } else Some s1) = Some s2"
    and b2: "base_inv s2 ps ss"
    using block_idle [OF b1 ii(1,2)] ic b1 by (auto simp: s2_def s1_def c_def)
  have c2: "currentProcess s2 = c" by (simp add: s2_def s1_def c_def)
  have pc2: "pid (P s2 c) = pid (P s c)" "children (P s2 c) = children (P s c)" "state (P s2 c) = READY"
    using \<open>idleFlag s = 0 \<Longrightarrow> c \<noteq> i\<close> rc by (auto simp: s2_def s1_def)
  note m3 = modP_ok [OF b2 ic, where f = "adopt fg", OF mild_adopt]
  define s3 where "s3 = s2\<lparr>procs := (procs s2)(c \<mapsto> adopt fg (P s2 c))\<rparr>"
  have b3: "base_inv s3 ps ss" and l3: "list_inv s3 ps ss" using m3(2) by (simp_all add: s3_def base_inv_def)
  have s3: "currentProcess s3 = c" "pids s3 = pids s" "mm s3 = m" "fds s3 = D" "firstBlockedIteration s3 = firstBlockedIteration s"
    by (simp_all add: s3_def s2_def s1_def c_def)
  have ad: "pid (adopt fg p) = pid p" "children (adopt fg p) = s32 (children p + 1)" "state (adopt fg p) = state p" "executions (adopt fg p) = executions p" for p
    by (simp_all add: adopt_def Let_def)
  have pp: "1 \<le> pid (P s c)" "pid (P s c) < pids s" using base_pinv [OF b ic] by (auto simp: pinv_def)
  have ow: "f \<notin> set (owned s3 ps ss)"
  proof -
    have "owns (P s3 x) = owns (P s x)" if "x \<in> set ps" for x
      using base_pinv [OF b ii(1)] ii(2) by (auto simp: s3_def s2_def s1_def owns_def adopt_def Let_def pinv_def)
    then have "owned s3 ps ss = owned s ps ss" by (rule owned_cong)
    then show ?thesis using f(4) by simp
  qed
  obtain t a where t: "createProcess fn fg ac av f s3 = Some (pids s3, t)" "list_inv t (ps @ [a]) ss" "a \<notin> set ps"
    "currentProcess t = c" "firstBlockedIteration t = firstBlockedIteration s3" "pids t = pids s3 + 1" "fds t = fds s3" "\<forall>ns. room_for (72 # STACK_SIZE # 10 # ns) (mm s3) \<longrightarrow> room_for ns (mm t)"
    "\<forall>x \<in> set ps. core (P t x) = core (P s3 x)" "state (P t a) = READY" "pid (P t a) = pids s3" "ppid (P t a) = pid (P s3 c)"
    "foreground (P t a) = fg" "fd (P t a) = f" "priority (P t a) = (if fg = 1 then 0 else 20)"
    "rbp (P t a) = bPointer (P t a) + 8 * STACK_SIZE" "rsp (P t a) = initialize_stack_frame (rbp (P t a))"
    "frames t (rsp (P t a)) = Some \<lparr>frame_ip = fn, frame_argc = ac, frame_argv = av\<rparr>" "tidy s3 \<longrightarrow> tidy t" "sleepers t = sleepers s3" "executions (P t a) = 0"
    using createProcess_spec [OF l3, of "P s3 c" fg f fn ac av] base_proc [OF b3 ic] ow f(5,7) np pp ad pc2(1)
    unfolding s3(1-3) by (auto simp: s3_def)
  have run: "enqueueProcess fn fg ac av fdp s = Some (pids s, t)"
    unfolding enqueueProcess_def f(1) using st2 m3(1) c2 cn t(1) s3(2) by (simp add: s1_def [symmetric] s3_def [symmetric])
  have "\<exists>i \<in> set ps. pid (P s3 i) = IDLE_PID" using b3 by (simp add: base_inv_def)
  then have "\<exists>i \<in> set (ps @ [a]). pid (P t i) = IDLE_PID" using core_eqD(1) [OF t(9) [rule_format]] by auto
  then have it: "sched_inv t (ps @ [a]) ss" using t(2,4,5) s3(5) inv ic by (auto simp: sched_inv_def base_inv_def)
  have "bPointer (P t a) \<in> set (owned t (ps @ [a]) ss)" using t(10) by (simp add: owned_def owns_def)
  then have "payload (mm t) (bPointer (P t a)) \<noteq> None" using t(2) unfolding list_inv_def by blast
  moreover have "children (P t c) = s32 (children (P s c) + 1)"
    using core_eqD(10) [OF t(9) [rule_format, OF ic]] ad(2) pc2(2) by (simp add: s3_def)
  moreover have "runs t (ps @ [a]) ss"
    using it t(4) ic core_eqD(3) [OF t(9) [rule_format, OF ic]] ad(3) pc2(3) by (simp add: runs_def s3_def)
  moreover have "pid (P s3 c) = pid (P s c)" using ad(1) pc2(1) by (simp add: s3_def)
  moreover have sl: "sleeps s3 = sleeps s" by (simp add: s3_def s2_def s1_def)
  have "procs s3 x = None \<longleftrightarrow> procs s x = None" for x
    using base_dom [OF b ic] base_dom [OF b1 ii(1)] by (auto simp: s3_def s2_def s1_def)
  then have "tidy s3" if "tidy s" by (rule tidy_grow [OF that]) (use f(6) sl s3(3) in simp_all)
  moreover have "sleepers s3 = sleepers s" by (simp add: sleepers_def sl)
  moreover have "pid (P t x) = pid (P s x)" "executions (P t x) = executions (P s x)"
      "pid (P s x) \<noteq> IDLE_PID \<Longrightarrow> state (P t x) = state (P s x)" if "x \<in> set ps" for x
    using core_eqD(1,3,7) [OF t(9) [rule_format, OF that]] ad(1,3,4) ii(2) by (auto simp: s3_def s2_def s1_def split: if_splits)
  moreover have "fds t (fd (P t a)) = (if fdp = NULL then Some (0, 1) else fds s fdp)" "fdp \<noteq> NULL \<longrightarrow> fd (P t a) = fdp"
    using t(7,14) f(8,9) s3(4) by auto
  moreover have "room_for ns (mm t)" if "fdp = NULL" "room_for (8 # 72 # STACK_SIZE # 10 # ns) (mm s)" for ns
    using t(8) f(10) [OF that] s3(3) by simp
  ultimately show ?thesis using run t(1,3,4,10-13,15-21) s3(2) c_def by (intro exI [of _ t] exI [of _ a]) auto
qed

lemma enqueueProcess_spec:
  assumes cf: "can_fork s ps ss" and room: "room_for (8 # 72 # STACK_SIZE # 10 # ns) (mm s)"
  shows "\<exists>t a. enqueueProcess fn fg ac av NULL s = Some (pids s, t) \<and> runs t (ps @ [a]) ss \<and> a \<notin> set ps \<and>
    currentProcess t = currentProcess s \<and> room_for ns (mm t) \<and>
    state (P t a) = READY \<and> pid (P t a) = pids s \<and> ppid (P t a) = pid (P s (currentProcess s)) \<and> foreground (P t a) = fg \<and>
    fds t (fd (P t a)) = Some (0, 1) \<and> priority (P t a) = (if fg = 1 then 0 else 20) \<and>
    children (P t (currentProcess s)) = s32 (children (P s (currentProcess s)) + 1) \<and>
    rbp (P t a) = bPointer (P t a) + 8 * STACK_SIZE \<and> rsp (P t a) = initialize_stack_frame (rbp (P t a)) \<and>
    payload (mm t) (bPointer (P t a)) \<noteq> None \<and> (tidy s \<longrightarrow> tidy t) \<and> sleepers t = sleepers s \<and>
    executions (P t a) = 0 \<and>
    (\<forall>x \<in> set ps. pid (P t x) = pid (P s x) \<and> executions (P t x) = executions (P s x) \<and> (pid (P s x) \<noteq> IDLE_PID \<longrightarrow> state (P t x) = state (P s x))) \<and>
    frames t (rsp (P t a)) = Some \<lparr>frame_ip = fn, frame_argc = ac, frame_argv = av\<rparr>"
proof -
  have al: "allocs [8, 72, STACK_SIZE, 10] (mm s)"
    by (rule room_allocs [OF room_for_prefix [of _ ns]]) (use room in simp_all)
  show ?thesis
    by (rule ex_forward [OF enqueueProcess_alloc [where fdp = NULL and fn = fn and fg = fg and ac = ac and av = av, OF cf]], rule al, simp, erule ex_forward) (use room in \<open>clarsimp split del: if_split\<close>)
qed

section \<open>Sleeping\<close>

lemma sleep_ok:
  assumes r: "runs s ps ss" and room: "allocs [32] (mm s)"
  shows "\<exists>t qs us. sleep n s = Some t \<and> runs t qs us \<and> set qs \<subseteq> set ps"
proof -
  note inv = runs_inv [OF r]
  have b: "base_inv s ps ss" using sched_base [OF inv] .
  obtain p where p: "procs s (currentProcess s) = Some p" "state p = READY" using runs_current [OF r] by blast
  obtain e m where e: "malloc_s 32 s = Some (e, s\<lparr>mm := m\<rparr>)" "mm_ok m" "e \<noteq> NULL" "payload (mm s) e = None"
    "payload m e \<noteq> None" "\<And>q. payload (mm s) q \<noteq> None \<Longrightarrow> payload m q \<noteq> None"
    by (rule malloc_s_allocs [OF base_mm [OF b] room]) auto
  define w where "w = \<lparr>sleep_pid = pid p, sleep_time = fst (getTimeOfDay (tm s)), secs = n, next_s = firstSleep s\<rparr>"
  define u where "u = s\<lparr>mm := m, tm := snd (getTimeOfDay (tm s)), sleeps := (sleeps s)(e \<mapsto> w), firstSleep := e\<rparr>"
  have new: "e \<notin> set (owned s ps ss)" using base_live [OF b, of e] e(4) by auto
  have es: "e \<notin> set ss" using new by (simp add: owned_def)
  have "lpath (nxt_sl u) (firstSleep s) ss NULL"
    using base_sleeps(1) [OF b] es by (subst lpath_cong [where n' = "nxt_sl s"]) (auto simp: u_def)
  then have lp: "lpath (nxt_sl u) (firstSleep u) (e # ss) NULL" using e(3) by (auto simp: u_def w_def)
  have "base_inv u ps (e # ss)"
  proof (rule base_inv_sleeps [OF b lp])
    show "\<exists>z. sleeps u NULL = Some z \<and> next_s z = NULL" using base_sleeps(2) [OF b] e(3) by (simp add: u_def)
    show "distinct (owned s ps (e # ss))" using new base_owned [OF b] by (auto simp: owned_def)
    show "payload (mm u) q \<noteq> None" if "q \<in> set (owned s ps (e # ss))" for q
      using that base_live [OF b, of q] e(5,6) by (auto simp: owned_def u_def)
  qed (use e(2) in \<open>simp_all add: u_def\<close>)
  then have ru: "runs u ps (e # ss)" using r by (simp add: runs_def sched_inv_def u_def)
  from block_ok [OF ru, of "pid p"] obtain x t qs us where
    t: "block (pid p) u = Some (x, t)" "runs t qs us" "set qs \<subseteq> set ps" by blast
  have "sleep n s = Some t"
    using runs_nonnull [OF r] e(1,3) p(1) t(1) by (simp add: sleep_def u_def w_def case_prod_beta Let_def)
  with t show ?thesis by blast
qed

section \<open>Calls that return had the memory\<close>

text \<open>Without memory \<open>sleep\<close> and \<open>enqueueProcess\<close> write through \<open>NULL\<close>, which is the outcome \<open>None\<close>.\<close>

lemma sleep_allocs: "sleep n s = Some t \<Longrightarrow> currentProcess s \<noteq> NULL \<Longrightarrow> allocs [32] (mm s)"
  by (auto simp: sleep_def malloc_s_def bind_eq_Some_conv split: if_splits option.splits)

lemma createProcess_allocs: "createProcess fn fg ac av f s = Some x \<Longrightarrow> allocs [72, STACK_SIZE, 10] (mm s)"
  by (auto simp: createProcess_def malloc_s_def bind_eq_Some_conv Let_def split: if_splits option.splits)

lemma modP_mm: "modP a f s = Some t \<Longrightarrow> mm t = mm s"
  by (subst modP_frame) auto

lemma no_switch_mm:
  assumes "blockWith no_switch k s = Some (r, t)" shows "mm t = mm s"
  using assms
  by (auto simp: blockWith_def backToParent_def no_switch_def bind_eq_Some_conv modP_mm dest!: modP_mm split: if_splits prod.splits)

lemma enqueue_allocs:
  assumes "enqueueProcess fn fg ac av fdp s = Some x"
  shows "allocs (if fdp = NULL then [8, 72, STACK_SIZE, 10] else [72, STACK_SIZE, 10]) (mm s)"
proof -
  obtain f u v w where u: "(if fdp = NULL
       then do { (aux, s) \<leftarrow> malloc_s 8 s; if aux = NULL then None else Some (aux, s\<lparr>fds := (fds s)(aux \<mapsto> (0, 1))\<rparr>) }
       else Some (fdp, s)) = Some (f, u)"
    and v: "(if idleFlag u = 0 then do { (_, s) \<leftarrow> blockWith no_switch IDLE_PID u; Some s } else Some u) = Some v"
    and w: "(if currentProcess v \<noteq> NULL then modP (currentProcess v) (adopt fg) v else Some v) = Some w"
    and c: "createProcess fn fg ac av f w = Some x"
    using assms unfolding enqueueProcess_def by (auto simp: bind_eq_Some_conv split: prod.splits)
  have "mm v = mm u" "mm w = mm v"
    using v w by (auto simp: bind_eq_Some_conv no_switch_mm modP_mm split: if_splits prod.splits)
  with createProcess_allocs [OF c] have "allocs [72, STACK_SIZE, 10] (mm u)" by simp
  with u show ?thesis by (auto simp: malloc_s_def bind_eq_Some_conv split: if_splits)
qed

section \<open>Boot\<close>

text \<open>
  The scheduler's variables at boot: no process, an empty sleep list. The two entries at
  \<open>NULL\<close> stand for the interrupt descriptor table: the code reads zeros where the fields
  \<open>foreground\<close>, \<open>backWait\<close> and the \<open>next\<close> of a sleep entry would be, and the low half of a
  gate (never 1 or 2) for \<open>pid\<close>.
\<close>

definition boot_state :: "sched_state \<Rightarrow> bool" where
  "boot_state s \<longleftrightarrow> mm_fresh (mm s) \<and> firstProcess s = NULL \<and> lastProcess s = NULL \<and> firstSleep s = NULL \<and>
     currentProcess s = NULL \<and> firstBlockedIteration s = NULL \<and> pids s = IDLE_PID \<and> idleFlag s = 2 \<and>
     (\<exists>z. procs s NULL = Some z \<and> foreground z = 0 \<and> backWait z = 0 \<and> pid z \<noteq> 1 \<and> pid z \<noteq> 2) \<and>
     (\<exists>z. sleeps s NULL = Some z \<and> next_s z = NULL) \<and>
     (\<forall>p. p \<noteq> NULL \<longrightarrow> procs s p = None \<and> sleeps s p = None)"

lemma enqueue_boot:
  assumes l: "list_inv s ps []" and c: "currentProcess s = NULL" "idleFlag s \<noteq> 0" "procs s NULL = Some z" "pid z \<noteq> pids s"
    and n: "0 < pids s" "pids s < 2147483647" "pids s = IDLE_PID \<Longrightarrow> fg = 0"
    and m: "pvPortMalloc 8 (mm s) = pvPortMalloc 8 m0" "payload m0 = payload (mm s)" "mm_ok m0" "room_for (8 # 72 # STACK_SIZE # 10 # ns) m0"
  shows "\<exists>t a. enqueueProcess fn fg ac av NULL s = Some (pids s, t) \<and> list_inv t (ps @ [a]) [] \<and> a \<notin> set ps \<and>
    currentProcess t = NULL \<and> firstBlockedIteration t = firstBlockedIteration s \<and> idleFlag t = idleFlag s \<and> pids t = pids s + 1 \<and>
    procs t NULL = procs s NULL \<and> room_for ns (mm t) \<and> (\<forall>x \<in> set ps. core (P t x) = core (P s x)) \<and>
    (tidy s \<longrightarrow> tidy t) \<and> sleepers t = sleepers s \<and>
    state (P t a) = READY \<and> executions (P t a) = 0 \<and> pid (P t a) = pids s \<and> foreground (P t a) = fg \<and>
    frames t (rsp (P t a)) = Some \<lparr>frame_ip = fn, frame_argc = ac, frame_argv = av\<rparr>"
proof -
  let ?s = "s\<lparr>mm := m0\<rparr>"
  obtain f m where f: "malloc_s 8 ?s = Some (f, ?s\<lparr>mm := m\<rparr>)" "mm_ok m" "f \<noteq> NULL" "payload (mm ?s) f = None"
    "payload m f \<noteq> None" "\<And>q. payload (mm ?s) q \<noteq> None \<Longrightarrow> payload m q \<noteq> None" "room_for (72 # STACK_SIZE # 10 # ns) m"
    using malloc_s_room [of ?s 8 "72 # STACK_SIZE # 10 # ns"] m(3,4) by auto
  define s1 where "s1 = s\<lparr>mm := m, fds := (fds s)(f \<mapsto> (0, 1))\<rparr>"
  have e: "malloc_s 8 s = Some (f, s\<lparr>mm := m\<rparr>)" using f(1) m(1) by (auto simp: malloc_s_def bind_eq_Some_conv)
  have l1: "list_inv s1 ps []" using list_inv_mm [OF l f(2)] f(6) m(2) by (simp add: s1_def)
  have "owned s1 ps [] = owned s ps []" by (simp add: owned_def s1_def)
  moreover have "f \<notin> set (owned s ps [])" using l f(4) m(2) unfolding list_inv_def by auto
  ultimately have "f \<notin> set (owned s1 ps [])" by simp
  moreover have al: "allocs [72, STACK_SIZE, 10] m"
    using room_allocs [of "[72, STACK_SIZE, 10]" m] room_for_prefix [of "[72, STACK_SIZE, 10]" ns m] f(7) by simp
  ultimately obtain t a where t: "createProcess fn fg ac av f s1 = Some (pids s, t)" "list_inv t (ps @ [a]) []" "a \<notin> set ps"
    "currentProcess t = NULL" "firstBlockedIteration t = firstBlockedIteration s" "idleFlag t = idleFlag s" "pids t = pids s + 1"
    "procs t NULL = procs s NULL" "room_for ns (mm t)" "\<forall>x \<in> set ps. core (P t x) = core (P s x)"
    "tidy s1 \<longrightarrow> tidy t" "sleepers t = sleepers s1"
    "state (P t a) = READY" "executions (P t a) = 0" "pid (P t a) = pids s" "foreground (P t a) = fg"
    "frames t (rsp (P t a)) = Some \<lparr>frame_ip = fn, frame_argc = ac, frame_argv = av\<rparr>"
    using createProcess_spec [OF l1, of z fg f fn ac av] c n f(5,7) al by (auto simp: s1_def)
  have "tidy s1" if "tidy s" by (rule tidy_grow [OF that]) (use f(6) m(2) in \<open>simp_all add: s1_def\<close>)
  moreover have "sleepers s1 = sleepers s" by (simp add: sleepers_def s1_def)
  moreover have "enqueueProcess fn fg ac av NULL s = Some (pids s, t)"
    using e f(3) c t(1) by (simp add: enqueueProcess_def s1_def)
  ultimately show ?thesis using t by (intro exI [of _ t] exI [of _ a]) simp
qed

lemma boot_room: "mm_fresh m \<Longrightarrow> room_for [8, 72, STACK_SIZE, 10, 8, 72, STACK_SIZE, 10, 8, 72, STACK_SIZE, 10] (prvHeapInit m)"
proof (rule room_fresh)
  have "adjustWantedSize 8 = 24" "adjustWantedSize 72 = 88" "adjustWantedSize 524288 = 524304"
    "adjustWantedSize 10 = 32"
    by (simp_all add: adjustWantedSize_def and_mask7 Let_def)
  then show "sum_list (map adjustWantedSize [8, 72, STACK_SIZE, 10, 8, 72, STACK_SIZE, 10, 8, 72, STACK_SIZE, 10]) + 33 \<le> configTOTAL_HEAP_SIZE - 32"
    by (simp add: configTOTAL_HEAP_SIZE_def)
qed

text \<open>\<open>main\<close> of \<open>kernel.c\<close> up to the first interrupt: the idle process and the first user process.\<close>

lemma boot_spec:
  assumes bs: "boot_state s"
  shows "\<exists>u t i a. initScheduler idle av s = Some u \<and> enqueueProcess code 1 1 av2 NULL u = Some (2, t) \<and>
    sched_inv t [i, a] [] \<and> i \<noteq> a \<and> currentProcess t = NULL \<and> idleFlag t = 2 \<and> pids t = 3 \<and>
    pid (P t i) = IDLE_PID \<and> priority (P t i) = 39 \<and> state (P t i) = READY \<and>
    executions (P t i) = 0 \<and> executions (P t a) = 0 \<and> pid (P t a) = 2 \<and> state (P t a) = READY \<and> foreground (P t a) = 1 \<and>
    frames t (rsp (P t a)) = Some \<lparr>frame_ip = code, frame_argc = 1, frame_argv = av2\<rparr> \<and> room_for [8, 72, STACK_SIZE, 10] (mm t) \<and>
    tidy t \<and> sleepers t = {}"
proof -
  obtain z where z: "procs s NULL = Some z" "pid z \<noteq> 1" "pid z \<noteq> 2" using bs by (auto simp: boot_state_def)
  have fr: "mm_fresh (mm s)" using bs by (simp add: boot_state_def)
  have l0: "list_inv s [] []" using bs unfolding boot_state_def list_inv_def by (auto simp: owned_def mm_ok_def)
  have ok: "mm_ok (prvHeapInit (mm s))" using prvHeapInit_inv(1) [OF fr] by (auto simp: mm_ok_def heap_ok_def)
  have pl: "payload (prvHeapInit (mm s)) = payload (mm s)"
    using prvHeapInit_inv(2) [OF fr] payload_fresh [OF fr] by (simp add: payload_def fun_eq_iff)
  have b0: "currentProcess s = NULL" "idleFlag s \<noteq> 0" "idleFlag s = 2" "pids s = 1" "firstBlockedIteration s = NULL"
    using bs by (auto simp: boot_state_def)
  from enqueue_boot [OF l0 b0(1,2) z(1), of 0 "prvHeapInit (mm s)" "[8, 72, STACK_SIZE, 10, 8, 72, STACK_SIZE, 10]" idle 1 av]
  obtain u i where u: "enqueueProcess idle 0 1 av NULL s = Some (1, u)" "list_inv u [i] []" "currentProcess u = NULL"
    "firstBlockedIteration u = NULL" "idleFlag u = 2" "pids u = 2" "procs u NULL = Some z" "room_for [8, 72, STACK_SIZE, 10, 8, 72, STACK_SIZE, 10] (mm u)"
    "state (P u i) = READY" "pid (P u i) = 1" "foreground (P u i) = 0" "executions (P u i) = 0"
    "tidy s \<longrightarrow> tidy u" "sleepers u = sleepers s"
    using z b0 ok pl boot_room [OF fr] pvPortMalloc_fresh [OF fr] by auto
  have bu: "base_inv u [i] []" using u(2,10) by (simp add: base_inv_def)
  have su: "sched_inv u [i] []" using bu u(3,4) by (simp add: sched_inv_def)
  define v where "v = u\<lparr>procs := (procs u)(i \<mapsto> (P u i)\<lparr>priority := 39\<rparr>)\<rparr>"
  have v: "nice 1 19 u = Some (EXIT_SUCCESS, v)" "sched_inv v [i] []"
    using nice_found [OF su, of i 1 19] u(10) by (simp_all add: v_def)
  have inn: "i \<noteq> NULL" using base_nonnull [OF bu] by auto
  have vf: "currentProcess v = NULL" "idleFlag v = 2" "procs v NULL = Some z" "pids v = 2" "mm v = mm u" "firstBlockedIteration v = NULL"
    using u inn by (simp_all add: v_def)
  have "tidy s" "sleepers s = {}" using bs by (auto simp: boot_state_def tidy_def sleepers_def)
  moreover have "procs v p = None \<longleftrightarrow> procs u p = None" for p using base_dom [OF bu, of i] by (auto simp: v_def)
  then have "tidy v" if "tidy u" by (rule tidy_grow [OF that]) (simp_all add: v_def)
  moreover have "sleepers v = sleepers u" by (simp add: v_def sleepers_def)
  ultimately have tv: "tidy v" "sleepers v = {}" using u(13,14) by auto
  have vi: "priority (P v i) = 39" "state (P v i) = READY" "pid (P v i) = 1" "executions (P v i) = 0" using u by (simp_all add: v_def)
  have lv: "list_inv v [i] []" using v(2) by (simp add: sched_inv_def base_inv_def)
  from enqueue_boot [OF lv vf(1) _ vf(3), of 1 "mm v" "[8, 72, STACK_SIZE, 10]" code 1 av2]
  obtain t a where t: "enqueueProcess code 1 1 av2 NULL v = Some (2, t)" "list_inv t ([i] @ [a]) []" "a \<notin> set [i]" "currentProcess t = NULL"
    "firstBlockedIteration t = NULL" "idleFlag t = 2" "pids t = 3" "room_for [8, 72, STACK_SIZE, 10] (mm t)" "core (P t i) = core (P v i)"
    "state (P t a) = READY" "pid (P t a) = 2" "foreground (P t a) = 1" "executions (P t a) = 0" "tidy v \<longrightarrow> tidy t" "sleepers t = sleepers v"
    "frames t (rsp (P t a)) = Some \<lparr>frame_ip = code, frame_argc = 1, frame_argv = av2\<rparr>"
    using z vf u(8) base_mm [OF sched_base [OF v(2)]] by auto
  note ci = core_eqD [OF t(9)]
  have "sched_inv t [i, a] []" using t(2,4,5) ci(1) vi(3) by (simp add: sched_inv_def base_inv_def)
  moreover have "initScheduler idle av s = Some v" using u(1) v(1) by (simp add: initScheduler_def)
  ultimately show ?thesis using t vi ci tv by (intro exI [of _ v] exI [of _ t] exI [of _ i] exI [of _ a]) auto
qed

end
