(* ===== verification/Scheduler_Props.thy ===== *)
theory Scheduler_Props
  imports Scheduler_Create
begin

text \<open>
  The properties of the scheduler: booting, the timer interrupt, every operation, and all the
  states that a running system can reach.
\<close>

section \<open>Booting\<close>

text \<open>\<open>main\<close> of \<open>kernel.c\<close>, as far as the memory manager and the scheduler are concerned.\<close>

definition kernel_boot :: "addr \<Rightarrow> addr \<Rightarrow> addr \<Rightarrow> sched_state \<Rightarrow> sched_state option" where
  "kernel_boot idle idle_argv argv s =
     do {
       let s = s\<lparr>mm := initMemoryManager 0x600000 (mm s)\<rparr>;
       s \<leftarrow> initScheduler idle idle_argv s;
       (_, s) \<leftarrow> enqueueProcess 0x400000 1 1 argv NULL s;
       forceTimer s
     }"

text \<open>The kernel's variables as the loader leaves them.\<close>

definition boot_ready :: "sched_state \<Rightarrow> bool" where
  "boot_ready s \<longleftrightarrow> boot_state (s\<lparr>mm := initMemoryManager 0x600000 (mm s)\<rparr>)"

lemma kernel_boot_spec:
  assumes "boot_ready s"
  shows "\<exists>t i a ss. kernel_boot idle av av2 s = Some t \<and> runs t [i, a] ss \<and> currentProcess t = i \<and>
    pid (P t i) = IDLE_PID \<and> pid (P t a) = 2 \<and> state (P t a) = READY \<and> foreground (P t a) = 1"
proof -
  let ?s = "s\<lparr>mm := initMemoryManager 0x600000 (mm s)\<rparr>"
  from boot_spec [OF assms [unfolded boot_ready_def], of idle av "0x400000" av2] obtain u v i a where
    v: "initScheduler idle av ?s = Some u" "enqueueProcess 0x400000 1 1 av2 NULL u = Some (2, v)"
      "sched_inv v [i, a] []" "currentProcess v = NULL" "pid (P v i) = IDLE_PID" "state (P v i) = READY"
      "pid (P v a) = 2" "state (P v a) = READY" "foreground (P v a) = 1" by blast
  from forceTimer_spec [OF v(3)] obtain w us t where
    w: "checkSleeping v = Some w" "set us \<subseteq> set []" "forceTimer v = Some t" "sched_inv t (survivors w [i, a]) us"
      "currentProcess t = pick w [i, a]" "pick w [i, a] \<in> set (survivors w [i, a])" "state (P t (pick w [i, a])) = READY"
      "\<forall>x \<in> set (survivors w [i, a]). kept (P w x) (P t x) \<and> (pid (P w x) \<noteq> IDLE_PID \<longrightarrow> state (P t x) = state (P w x))" by blast
  have "firstSleep v = NULL" using lpath_hd0 [OF base_sleeps(1) [OF sched_base [OF v(3)]]] by simp
  then have wv: "w = v" using w(1) by (simp add: checkSleeping_def checkLoop.simps)
  have st: "startAt v = NULL" using v(4) by (simp add: startAt_def quota_over_def)
  have pk: "pick v [i, a] = i" "survivors v [i, a] = [i, a]"
    using v(6,8) by (simp_all add: pick_def survivors_def st rota_def)
  have "kernel_boot idle av av2 s = Some t" using v(1,2) w(3) by (simp add: kernel_boot_def)
  moreover have "runs t [i, a] us" using w(4-7) wv pk by (simp add: runs_def)
  moreover have "pid (P t x) = pid (P v x)" "foreground (P t x) = foreground (P v x)" if "x \<in> {i, a}" for x
    using w(8) that wv pk by (auto simp: kept_iff)
  moreover have "state (P t a) = READY" using w(8) wv pk v(7,8) by auto
  ultimately show ?thesis using w(5) wv pk v by (intro exI [of _ t] exI [of _ i] exI [of _ a] exI [of _ us]) auto
qed

text \<open>A concrete kernel before \<open>main\<close>: empty lists, and the low half of a gate where \<open>NULL\<close> points.\<close>

definition kernel0 :: sched_state where
  "kernel0 = \<lparr>mm = boot_mm, ram = (\<lambda>_. 0), tm = \<lparr>ticks = 0, rtc = (\<lambda>_ _. 0), rtc_reads = 0\<rparr>,
     procs = [NULL \<mapsto> \<lparr>next_p = 0, name = 0, pid = 0x80000, ppid = 0, rsp = 0, rbp = 0, priority = 0, executions = 0,
       foreground = 0, state = READY, fd = 0, children = 0, backWait = 0, bPointer = 0\<rparr>],
     sleeps = [NULL \<mapsto> \<lparr>sleep_pid = 0, sleep_time = 0, secs = 0, next_s = NULL\<rparr>],
     fds = Map.empty, frames = Map.empty, firstBlockedIteration = NULL, firstProcess = NULL, lastProcess = NULL,
     firstSleep = NULL, currentProcess = NULL, pids = 1, update = 1, idleFlag = 2, cpu_rsp = 0x10F000\<rparr>"

lemma kernel0_boot: "boot_state kernel0" "boot_ready kernel0"
  using boot_fresh by (auto simp: boot_ready_def boot_state_def kernel0_def boot_mm_def initMemoryManager_def mm_fresh_def)

text \<open>The state of the witnesses: the booted kernel running its first user process.\<close>

definition sample :: "sched_state \<Rightarrow> addr \<Rightarrow> addr \<Rightarrow> bool" where
  "sample s i a \<longleftrightarrow> (\<exists>u t. initScheduler 0x100000 0 kernel0 = Some u \<and>
     enqueueProcess 0x400000 1 1 0 NULL u = Some (2, t) \<and> s = t\<lparr>currentProcess := a\<rparr>) \<and>
     runs s [i, a] [] \<and> i \<noteq> a \<and> pid (P s i) = IDLE_PID \<and> pid (P s a) = 2 \<and> state (P s i) = READY \<and>
     executions (P s i) = 0 \<and> executions (P s a) = 0 \<and>
     tidy s \<and> sleepers s = {} \<and> idleFlag s = 2 \<and> pids s = 3 \<and> currentProcess s = a \<and> room_for [8, 72, STACK_SIZE, 10] (mm s)"

lemma sample: obtains s i a where "sample s i a"
proof -
  from boot_spec [OF kernel0_boot(1), of "0x100000" 0 "0x400000" 0] obtain u t i a where
    t: "initScheduler 0x100000 0 kernel0 = Some u" "enqueueProcess 0x400000 1 1 0 NULL u = Some (2, t)"
      "sched_inv t [i, a] []" "i \<noteq> a" "idleFlag t = 2" "pids t = 3" "pid (P t i) = IDLE_PID" "state (P t i) = READY"
      "pid (P t a) = 2" "state (P t a) = READY" "executions (P t i) = 0" "executions (P t a) = 0" "tidy t" "sleepers t = {}" "room_for [8, 72, STACK_SIZE, 10] (mm t)" by blast
  then have "sample (t\<lparr>currentProcess := a\<rparr>) i a" by (auto simp: sample_def runs_def sched_inv_def tidy_def sleepers_def)
  then show ?thesis by (rule that)
qed

lemma sampleD:
  assumes "sample s i a"
  shows sample_runs: "runs s [i, a] []" and sample_inv: "sched_inv s [i, a] []"
    and sample_fork: "can_fork s [i, a] []" and sample_room: "room_for [8, 72, STACK_SIZE, 10] (mm s)"
  using assms by (auto simp: sample_def can_fork_def runs_inv)

section \<open>Histories of the scheduler\<close>

lemma getState_found:
  assumes b: "base_inv s ps ss" and a: "a \<in> set ps" "pid (P s a) = k"
  shows "getState k s = Some (state_code (state (P s a)))"
proof -
  obtain pr where "searchProcess k (firstProcess s) s = Some (a, pr)" using search_found' [OF b a] .
  with base_dom [OF b a(1)] base_nonnull [OF b] a(1) show ?thesis
    by (auto simp: getState_def searchProcess_def)
qed

text \<open>
  The blocks that the scheduler holds: its objects, the memory of its live processes and the
  entries of the sleep list. Every other block belongs to a process or to another part of the
  kernel (semaphores, pipes, listings), which obtain and return memory by themselves.
\<close>

definition held :: "sched_state \<Rightarrow> addr \<Rightarrow> bool" where
  "held s p \<longleftrightarrow> (\<exists>a q. a \<noteq> NULL \<and> procs s a = Some q \<and> p \<in> set (a # owns q)) \<or> sleeps s p \<noteq> None"

text \<open>
  One step of the running system. The process runs (its stack pointer, the clock, the bytes of
  memory and the descriptor pairs change), the timer ticks, a block of memory is obtained or given
  back, by whomever, or an operation of the scheduler is called.

  The relation is that of a system that keeps four rules, which the code relies on and does not
  check: nobody kills the idle process or a process that is dead already; nobody hands the
  processor to the running process itself; only allocated blocks that the scheduler does not hold
  are freed, or passed as the descriptors of a new process; and the idle process, which only halts,
  creates no process, nor does anybody when the identifiers are used up. A call that finds no
  memory writes through \<open>NULL\<close>; its outcome is \<open>None\<close>, so that it is no step either.
\<close>

inductive sched_step :: "sched_state \<Rightarrow> sched_state \<Rightarrow> bool" where
  step_run: "sched_step s (s\<lparr>cpu_rsp := r, tm := t, ram := m, fds := d\<rparr>)"
| step_tick: "forceTimer s = Some t \<Longrightarrow> sched_step s t"
| step_malloc: "n < 2 ^ 64 \<Longrightarrow> malloc_s n s = Some (p, t) \<Longrightarrow> sched_step s t"
| step_free: "p = NULL \<or> payload (mm s) p \<noteq> None \<and> \<not> held s p \<Longrightarrow> free_s p s = Some t \<Longrightarrow> sched_step s t"
| step_block: "block k s = Some (r, t) \<Longrightarrow> sched_step s t"
| step_unblock: "unblock k s = Some (r, t) \<Longrightarrow> sched_step s t"
| step_kill: "k \<noteq> IDLE_PID \<Longrightarrow> getState k s \<noteq> Some (state_code DEAD) \<Longrightarrow> kill k s = Some (r, t) \<Longrightarrow> sched_step s t"
| step_nice: "nice k n s = Some (r, t) \<Longrightarrow> sched_step s t"
| step_wait: "wait s = Some t \<Longrightarrow> sched_step s t"
| step_blockIO: "blockIO s = Some (r, t) \<Longrightarrow> sched_step s t"
| step_unblockIO: "unblockIO s = Some t \<Longrightarrow> sched_step s t"
| step_quitCPU: "quitCPU s = Some (r, t) \<Longrightarrow> sched_step s t"
| step_unblockFirst: "getPid s \<noteq> Some k \<Longrightarrow> unblockFirst k s = Some (r, t) \<Longrightarrow> sched_step s t"
| step_sleep: "sleep n s = Some t \<Longrightarrow> sched_step s t"
| step_enqueue: "idleFlag s = 0 \<longrightarrow> getPid s \<noteq> Some IDLE_PID \<Longrightarrow> pids s < 2147483647 \<Longrightarrow>
    fdp = NULL \<or> payload (mm s) fdp \<noteq> None \<and> \<not> held s fdp \<Longrightarrow>
    enqueueProcess fn fg ac av fdp s = Some (r, t) \<Longrightarrow> sched_step s t"

inductive_cases sched_stepE: "sched_step s t"

abbreviation good :: "sched_state \<Rightarrow> bool" where
  "good s \<equiv> \<exists>ps ss. runs s ps ss"

lemma getPid_runs: "runs s ps ss \<Longrightarrow> getPid s = Some (pid (P s (currentProcess s)))"
  using runs_current [of s ps ss] by (auto simp: getPid_def runs_nonnull)

lemma unblockFirst_absent:
  assumes b: "base_inv s ps ss" and n: "\<And>a. a \<in> set ps \<Longrightarrow> pid (P s a) = k \<Longrightarrow> state (P s a) = DEAD"
  shows "unblockFirst k s = Some (EXIT_FAILURE, s)"
proof (rule search_cases [OF b, of k])
  fix xs a ys
  assume a: "ps = xs @ a # ys" "pid (P s a) = k" "a \<noteq> NULL" "\<exists>p. procs s a = Some p"
    "searchProcess k (firstProcess s) s = Some (a, last0 xs)"
  with n [of a] show ?thesis by (auto simp: unblockFirst_def unblockFirst_enter_def)
qed (simp add: unblockFirst_def unblockFirst_enter_def)

lemma unblockFirst_ok:
  assumes r: "runs s ps ss" and k: "getPid s \<noteq> Some k"
  shows "\<exists>r t. unblockFirst k s = Some (r, t) \<and> good t"
proof (cases "\<exists>a \<in> set ps. pid (P s a) = k \<and> state (P s a) \<noteq> DEAD")
  case True
  then obtain a where a: "a \<in> set ps" "pid (P s a) = k" "state (P s a) \<noteq> DEAD" by blast
  have "a \<noteq> currentProcess s" using getPid_runs [OF r] k a(2) by auto
  from unblockFirst_handoff [OF runs_inv [OF r] refl runs_in [OF r] runs_ready [OF r] a(1) this a(2,3)]
  show ?thesis by blast
next
  case False
  with unblockFirst_absent [OF sched_base [OF runs_inv [OF r]], of k] r show ?thesis by blast
qed

lemma runs_vars [simp]:
  "runs (s\<lparr>cpu_rsp := r, tm := t, ram := m\<rparr>) ps ss = runs s ps ss"
  "runs (s\<lparr>cpu_rsp := r, tm := t, ram := m, fds := d\<rparr>) ps ss = runs s ps ss"
  by (simp_all add: runs_def sched_inv_def)

lemma owned_held:
  assumes b: "base_inv s ps ss" and p: "p \<in> set (owned s ps ss)" shows "held s p"
proof -
  consider a where "a \<in> set ps" "p \<in> set (a # owns (P s a))" | "p \<in> set ss" using p unfolding set_owned by blast
  then show ?thesis
  proof cases
    case 1
    moreover obtain q where "procs s a = Some q" using base_dom [OF b 1(1)] by blast
    moreover have "a \<noteq> NULL" using base_nonnull [OF b] 1(1) by metis
    ultimately show ?thesis unfolding held_def by (metis option.sel)
  next
    case 2
    then show ?thesis using lpath_dom [OF base_sleeps(1) [OF b]] by (auto simp: held_def)
  qed
qed

text \<open>The scheduler is not disturbed by an allocation, nor by a free of a block that it does not hold.\<close>

lemma runs_mem:
  assumes "runs s ps ss" "mm_ok m" "\<And>p. p \<in> set (owned s ps ss) \<Longrightarrow> payload m p \<noteq> None"
  shows "runs (s\<lparr>mm := m\<rparr>) ps ss"
  using assms unfolding runs_def sched_inv_def base_inv_def list_inv_def by (simp add: owned_def)

lemma malloc_good:
  assumes r: "runs s ps ss" and m: "malloc_s n s = Some (p, t)" "n < 2 ^ 64"
  shows "runs t ps ss"
proof -
  note b = sched_base [OF runs_inv [OF r]]
  obtain m' where m': "pvPortMalloc n (mm s) = Some (p, m')" "t = s\<lparr>mm := m'\<rparr>" using m(1) by (auto simp: malloc_s_def bind_eq_Some_conv)
  from frt4.malloc_result [OF base_mm [OF b] m(2)] m'(1) have "mm_ok m'" "\<And>q. payload (mm s) q \<noteq> None \<Longrightarrow> payload m' q \<noteq> None" by auto
  then show ?thesis unfolding m'(2) by (intro runs_mem [OF r]) (use base_live [OF b] in auto)
qed

lemma free_good:
  assumes r: "runs s ps ss" and p: "p = NULL \<or> payload (mm s) p \<noteq> None \<and> \<not> held s p" and f: "free_s p s = Some t"
  shows "runs t ps ss"
proof -
  note b = sched_base [OF runs_inv [OF r]]
  obtain m where m: "vPortFree p (mm s) = Some m" "t = s\<lparr>mm := m\<rparr>" using f by (auto simp: free_s_def bind_eq_Some_conv)
  show ?thesis
  proof (cases "p = NULL")
    case True
    then have "m = mm s" using m(1) frt4.free_NULL [OF base_mm [OF b]] by simp
    then have "t = s" using m(2) by (cases s) simp
    with r show ?thesis by simp
  next
    case False
    then have q: "payload (mm s) p \<noteq> None" "p \<notin> set (owned s ps ss)" using p owned_held [OF b] by blast+
    from q(1) frt4.free_live [OF base_mm [OF b]] m(1) have "mm_ok m" "payload m = (payload (mm s))(p := None)" by fastforce+
    then show ?thesis unfolding m(2) by (intro runs_mem [OF r]) (use base_live [OF b] q(2) in auto)
  qed
qed

text \<open>Every operation returns when a process runs, and a process runs when it has returned.\<close>

lemma sched_step_good:
  assumes "sched_step s t" "good s" shows "good t"
proof -
  obtain ps ss where r: "runs s ps ss" using assms(2) by blast
  from assms(1) show ?thesis
  proof cases
    case (step_run r' t' m d)
    then show ?thesis using r by auto
  next
    case (step_malloc n p)
    then show ?thesis using malloc_good [OF r] by blast
  next
    case (step_free p)
    then show ?thesis using free_good [OF r] by blast
  next
    case step_tick
    then show ?thesis using forceTimer_total [OF runs_inv [OF r]] by auto
  next
    case (step_block k x)
    then show ?thesis using block_ok [OF r, of k] by auto
  next
    case (step_unblock k x)
    then show ?thesis using unblock_ok [OF r, of k] by auto
  next
    case (step_kill k x)
    then have "state (P s a) \<noteq> DEAD" if "a \<in> set ps" "pid (P s a) = k" for a
      using getState_found [OF sched_base [OF runs_inv [OF r]] that] by auto
    then show ?thesis using kill_ok [OF r step_kill(1)] step_kill(3) by auto
  next
    case (step_nice k n x)
    then show ?thesis using nice_ok [OF r, of k n] by auto
  next
    case step_wait
    then show ?thesis using wait_ok [OF r] by auto
  next
    case (step_blockIO x)
    then show ?thesis using blockIO_ok [OF r] by auto
  next
    case step_unblockIO
    then show ?thesis using unblockIO_ok [OF r] by auto
  next
    case (step_quitCPU x)
    then show ?thesis using quitCPU_ok [OF r] by auto
  next
    case (step_unblockFirst k x)
    then show ?thesis using unblockFirst_ok [OF r, of k] by auto
  next
    case (step_sleep n)
    from sleep_ok [OF r sleep_allocs [OF this runs_nonnull [OF r]], of n] step_sleep show ?thesis by auto
  next
    case (step_enqueue fdp fn fg ac av x)
    then have cf: "can_fork s ps ss" using r getPid_runs [OF r] by (auto simp: can_fork_def)
    have "payload (mm s) fdp \<noteq> None \<and> fdp \<notin> set (owned s ps ss)" if "fdp \<noteq> NULL"
      using that step_enqueue(3) owned_held [OF sched_base [OF runs_inv [OF r]]] by blast
    moreover have "fdp = NULL \<Longrightarrow> allocs [8, 72, STACK_SIZE, 10] (mm s)" "fdp \<noteq> NULL \<Longrightarrow> allocs [72, STACK_SIZE, 10] (mm s)"
      using enqueue_allocs [OF step_enqueue(4)] by (simp_all only: if_True if_False simp_thms)
    ultimately have "\<exists>u b. enqueueProcess fn fg ac av fdp s = Some (pids s, u) \<and> runs u (ps @ [b]) ss"
      using enqueueProcess_alloc [OF cf, of fdp fn fg ac av] by blast
    with step_enqueue(4) show ?thesis by auto
  qed
qed

text \<open>
  What the rules guard against. A hand-over to the running process takes it out of the list
  and makes it its own successor.
\<close>

lemma search_total:
  assumes "lpath (nxt s) p zs NULL"
  shows "\<exists>a pr. searchLoop (procs s) k prev p = Some (a, pr) \<and> (a = NULL \<or> a \<in> set zs)"
  using assms
proof (induction zs arbitrary: p prev)
  case (Cons z zs)
  then obtain q where q: "p = z" "z \<noteq> NULL" "procs s z = Some q" "lpath (nxt s) (next_p q) zs NULL" by auto
  from Cons.IH [OF q(4), of z] q show ?case by (subst searchLoop.simps) auto
qed (simp add: searchLoop.simps)

lemma handover_to_self:
  assumes r: "runs s ps ss" and k: "getPid s = Some k"
  defines "c \<equiv> currentProcess s"
  shows "\<exists>t. unblockFirst_enter k s = Some (True, t) \<and> currentProcess t = c \<and> next_p (P t c) = c"
proof -
  note b = sched_base [OF runs_inv [OF r]]
  obtain p where p: "procs s c = Some p" "state p = READY" using runs_current [OF r] by (auto simp: c_def)
  have c: "c \<noteq> NULL" "pid (P s c) = k" using runs_nonnull [OF r] getPid_runs [OF r] k by (simp_all add: c_def)
  obtain xs ys where ps: "ps = xs @ c # ys" using split_list [OF runs_in [OF r]] by (auto simp: c_def)
  note b' = b [unfolded ps]
  have nc: "c \<notin> set (xs @ ys)" using base_distinct [OF b'] by auto
  obtain t1 where t1: "removeProcess c s = Some t1" "lpath (nxt t1) (firstProcess t1) (xs @ ys) NULL" "procs t1 NULL = procs s NULL"
    "t1 = s\<lparr>procs := procs t1, firstProcess := firstProcess t1, lastProcess := lastProcess t1\<rparr>" "procs t1 c = procs s c"
    by (rule removeProcess_spec [OF b']) (use nc in auto)
  define q where "q = p\<lparr>executions := s8 (MAX_PRIORITY - priority p), next_p := c, state := READY\<rparr>"
  define v where "v = (if c = lastProcess t1 then t1\<lparr>procs := (procs t1)(c \<mapsto> q), lastProcess := c\<rparr> else t1\<lparr>procs := (procs t1)(c \<mapsto> q)\<rparr>)"
  have v: "procs v = (procs t1)(c \<mapsto> q)" "firstProcess v = firstProcess t1" "currentProcess v = currentProcess t1" by (simp_all add: v_def)
  have cur: "currentProcess t1 = c" by (subst t1(4)) (simp add: c_def)
  have "lpath (nxt v) (firstProcess v) (xs @ ys) NULL"
    using t1(2) nc by (subst lpath_cong [where n' = "nxt t1"]) (auto simp: v)
  then obtain par x where par: "searchProcess (ppid q) (firstProcess v) v = Some (par, x)" "par = NULL \<or> par \<in> set (xs @ ys)"
    "\<exists>z. procs v par = Some z \<and> (par = NULL \<longrightarrow> foreground z = 0)"
    using search_total [of v "firstProcess v" "xs @ ys" "ppid q" NULL] lpath_dom [of "nxt v" "firstProcess v" "xs @ ys" NULL]
      base_low [OF b] t1(3) c(1) unfolding searchProcess_def by (fastforce simp: v)
  have enter: "unblockFirst_enter k s = do {
      s \<leftarrow> (if foreground q \<noteq> 0 then foreFromParent par v else Some v);
      Some (True, s) }"
    using search_found [OF b'] c p t1(1,5) cur par(1)
    by (cases "c = lastProcess t1"; cases "foreground p = 0") (simp_all add: unblockFirst_enter_def modP_def v_def q_def)
  obtain z where z: "procs v par = Some z" "par = NULL \<Longrightarrow> foreground z = 0" using par(3) by blast
  have pc: "par \<noteq> c" using par(2) nc c(1) by metis
  have "\<exists>t. (if foreground q \<noteq> 0 then foreFromParent par v else Some v) = Some t \<and> currentProcess t = c \<and> procs t c = Some q"
    using z pc cur by (auto simp: foreFromParent_def modP_def v)
  then show ?thesis using enter by (auto simp: q_def)
qed

text \<open>A second kill of a process takes another child from its parent.\<close>

lemma kill_again:
  assumes r: "runs s ps ss" and a: "a \<in> set ps" "pid (P s a) = k" "state (P s a) = DEAD"
    and par: "b \<in> set ps" "pid (P s b) = ppid (P s a)" and e: "kill_enter k s = Some (f, t)"
  shows "children (P t b) = s32 (children (P s b) - 1)"
proof -
  note i = sched_base [OF runs_inv [OF r]]
  obtain pr where pr: "searchProcess k (firstProcess s) s = Some (a, pr)" using search_found' [OF i a(1,2)] .
  obtain p where p: "procs s a = Some p" using base_dom [OF i a(1)] by blast
  obtain pr' where pr': "searchProcess (ppid p) (firstProcess s) s = Some (b, pr')" using search_found' [OF i par] p by auto
  have n: "a \<noteq> NULL" "b \<noteq> NULL" using base_nonnull [OF i] a(1) par(1) by metis+
  have "b \<noteq> a" using par(2) base_pinv [OF i a(1)] by (auto simp: pinv_def)
  moreover have "free_s x u = Some v \<Longrightarrow> procs v = procs u" for x u v by (auto simp: free_s_def bind_eq_Some_conv)
  ultimately show ?thesis
    using e pr p pr' n base_proc [OF i par(1)] by (auto simp: kill_enter_def modP_def bind_eq_Some_conv orphaned_def Let_def)
qed

lemma sched_reach_good: "sched_step\<^sup>*\<^sup>* s t \<Longrightarrow> good s \<Longrightarrow> good t"
  by (induction rule: rtranclp_induct) (auto intro: sched_step_good)

section \<open>Properties\<close>

text \<open>C14: booting returns: the idle process and the first user process are in the list with distinct
  identifiers, the idle process has been chosen first, and the user process is ready and in the
  foreground.\<close>

theorem kernel_boots:
  assumes "boot_ready s"
  shows "\<exists>t i a ss. kernel_boot idle av av2 s = Some t \<and> runs t [i, a] ss \<and> currentProcess t = i \<and>
    pid (P t i) = IDLE_PID \<and> pid (P t a) = 2 \<and> state (P t a) = READY \<and> foreground (P t a) = 1"
  by (rule kernel_boot_spec [OF assms])

theorem kernel_boots_witness:
  "\<exists>t i a ss. kernel_boot 0x100000 0 0 kernel0 = Some t \<and> runs t [i, a] ss"
  using kernel_boots [OF kernel0_boot(2), of "0x100000" 0 0] by blast

text \<open>C2: \<open>nextProcess\<close> always returns. It chooses the first ready process in the rotation of the list
  that starts at the running process, or behind it when its quota is used up, and the idle
  process when none is ready; it frees the dead processes that it passes and no other; it saves
  the stack pointer of the interrupted process, returns the saved one of the chosen process,
  counts the slice, and leaves the states of the processes other than idle alone.\<close>

theorem next_process_round_robin:
  assumes "sched_inv s ps ss"
  shows "\<exists>t. nextProcess r s = Some (rsp (P t (pick s ps)), t) \<and> sched_inv t (survivors s ps) ss \<and>
    currentProcess t = pick s ps \<and> pick s ps \<in> set (survivors s ps) \<and> state (P t (pick s ps)) = READY \<and>
    (\<forall>a \<in> set (survivors s ps). (pid (P s a) \<noteq> IDLE_PID \<longrightarrow> state (P t a) = state (P s a)) \<and>
       rsp (P t a) = (if a = currentProcess s then r else rsp (P s a)) \<and>
       executions (P t a) =
         (let e = (if a = currentProcess s \<and> quota_over s then 0 else executions (P s a))
          in if a = pick s ps then s8 (e + 1) else e))"
  using nextProcess_spec [OF assms, of r] by blast

theorem next_process_round_robin_witness:
  "\<exists>s i a t. sample s i a \<and> nextProcess 0x200000 s = Some (0x200000, t) \<and> currentProcess t = a"
proof (rule sample)
  fix s i a
  assume s: "sample s i a"
  have r: "runs s [i, a] []" and c: "currentProcess s = a" "executions (P s a) = 0" "i \<noteq> a" using s by (auto simp: sample_def)
  have "priority (P s a) < 40" using base_pinv [OF sched_base [OF runs_inv [OF r]], of a] by (simp add: pinv_def)
  then have "startAt s = a" using c by (simp add: startAt_def quota_over_def)
  then have "pick s [i, a] = a" using runs_ready [OF r] runs_nonnull [OF r] c by (simp add: pick_def rota_def)
  with next_process_round_robin [OF runs_inv [OF r], of "0x200000"] s c show ?thesis by force
qed

text \<open>The timer interrupt always returns. It first wakes sleeping processes (states change only to
  ready), then chooses a process; the interrupted process gets its stack pointer saved, every
  other process keeps its own, and the chosen one continues with the stack pointer saved for it.\<close>

theorem timer_interrupt:
  assumes "sched_inv s ps ss"
  shows "\<exists>u us t. checkSleeping s = Some u \<and> wakes s u ps \<and> set us \<subseteq> set ss \<and>
    forceTimer s = Some t \<and> sched_inv t (survivors u ps) us \<and> currentProcess t = pick u ps \<and>
    state (P t (pick u ps)) = READY \<and> cpu_rsp t = rsp (P t (pick u ps)) \<and>
    (\<forall>a \<in> set (survivors u ps). rsp (P t a) = (if a = currentProcess s then cpu_rsp s else rsp (P u a)))"
  using forceTimer_spec [OF assms] by blast

theorem timer_interrupt_witness:
  "\<exists>s i a t. sample s i a \<and> forceTimer s = Some t \<and> state (P t (currentProcess t)) = READY"
proof (rule sample)
  fix s i a
  assume s: "sample s i a"
  with timer_interrupt [OF sample_inv [OF s]] show ?thesis by metis
qed

text \<open>C1: in every state that a booted system reaches by steps of \<open>sched_step\<close>, the lists and the memory
  of the scheduler are consistent, a ready process of the list runs, and the next timer interrupt
  returns. The steps are: running, ticks, allocations and frees by anybody, and every operation of
  the scheduler (block, unblock, kill, nice, wait, input and output, yield, hand-over, sleep, creating
  processes with or without descriptors of their own). They leave out what the code relies on
  and does not check: killing the idle process or killing a process a second time, handing the
  processor to the running process, freeing or passing on a block that the scheduler holds or
  that is not allocated, creating processes from the idle process or without identifiers left, and
  calls that run out of memory. For the first two, \<open>kill_again\<close> and \<open>handover_to_self\<close> show
  what goes wrong without them.\<close>

theorem scheduler_reachable:
  assumes "boot_ready s0" and "kernel_boot idle av av2 s0 = Some s1" and "sched_step\<^sup>*\<^sup>* s1 s"
  shows "(\<exists>ps ss. runs s ps ss) \<and> (\<exists>t. forceTimer s = Some t)"
proof -
  have "good s1" using kernel_boot_spec [OF assms(1), of idle av av2] assms(2) by auto
  then obtain ps ss where "runs s ps ss" using sched_reach_good [OF assms(3)] by blast
  then show ?thesis using forceTimer_total [OF runs_inv] by blast
qed

theorem scheduler_reachable_witness:
  "\<exists>s1 s2 s3 s4 s5 r p q ps ss. kernel_boot 0x100000 0 0 kernel0 = Some s1 \<and> forceTimer s1 = Some s2 \<and>
     nice 2 5 s2 = Some (r, s3) \<and> malloc_s 100 s3 = Some (p, s4) \<and> quitCPU s4 = Some (q, s5) \<and> runs s5 ps ss"
proof -
  from kernel_boot_spec [OF kernel0_boot(2), of "0x100000" 0 0] obtain s1 i a ss where
    s1: "kernel_boot 0x100000 0 0 kernel0 = Some s1" "runs s1 [i, a] ss" by blast
  obtain s2 ps2 ss2 where s2: "forceTimer s1 = Some s2" "runs s2 ps2 ss2" using forceTimer_total [OF runs_inv [OF s1(2)]] by blast
  obtain r s3 where s3: "nice 2 5 s2 = Some (r, s3)" "runs s3 ps2 ss2" using nice_ok [OF s2(2)] by blast
  obtain p s4 where s4: "malloc_s 100 s3 = Some (p, s4)"
    using frt4.malloc_result [OF base_mm [OF sched_base [OF runs_inv [OF s3(2)]]], of 100] by (auto simp: malloc_s_def)
  then have "runs s4 ps2 ss2" using malloc_good [OF s3(2)] by simp
  then obtain q s5 where s5: "quitCPU s4 = Some (q, s5)" using quitCPU_ok by blast
  have "sched_step\<^sup>*\<^sup>* s1 s5"
    using step_tick [OF s2(1)] step_nice [OF s3(1)] step_malloc [OF _ s4] step_quitCPU [OF s5] by (auto intro: converse_rtranclp_into_rtranclp)
  from scheduler_reachable [OF kernel0_boot(2) s1(1) this] s1(1) s2(1) s3(1) s4 s5 show ?thesis by blast
qed

text \<open>C12: creating a process from a running one, with the memory for it available: the new process is
  appended to the list, ready, with a fresh identifier, the standard file descriptors, the
  default priority of its kind, its own name, descriptors and stack block, and a frame that
  starts the function with its arguments. Its creator has one more child. The stack base is eight
  times the block size above the block.\<close>

theorem enqueue_process:
  assumes "can_fork s ps ss" and "room_for [8, 72, STACK_SIZE, 10] (mm s)"
  shows "\<exists>t a. enqueueProcess fn fg ac av NULL s = Some (pids s, t) \<and> runs t (ps @ [a]) ss \<and> a \<notin> set ps \<and>
    currentProcess t = currentProcess s \<and>
    state (P t a) = READY \<and> pid (P t a) = pids s \<and> ppid (P t a) = pid (P s (currentProcess s)) \<and> foreground (P t a) = fg \<and>
    fds t (fd (P t a)) = Some (0, 1) \<and> priority (P t a) = (if fg = 1 then 0 else 20) \<and>
    children (P t (currentProcess s)) = s32 (children (P s (currentProcess s)) + 1) \<and>
    rbp (P t a) = bPointer (P t a) + 8 * STACK_SIZE \<and> rsp (P t a) = initialize_stack_frame (rbp (P t a)) \<and>
    payload (mm t) (bPointer (P t a)) \<noteq> None \<and>
    frames t (rsp (P t a)) = Some \<lparr>frame_ip = fn, frame_argc = ac, frame_argv = av\<rparr>"
  using enqueueProcess_spec [OF assms] by blast

theorem enqueue_process_witness:
  "\<exists>s i a t b. sample s i a \<and> enqueueProcess 0x401000 0 1 0 NULL s = Some (3, t) \<and> runs t [i, a, b] []"
proof (rule sample)
  fix s i a
  assume s: "sample s i a"
  then have "pids s = 3" by (simp add: sample_def)
  with enqueue_process [OF sample_fork [OF s] sample_room [OF s], of "0x401000" 0 1 0] obtain t b where
    "enqueueProcess 0x401000 0 1 0 NULL s = Some (3, t)" "runs t [i, a, b] []" by auto
  with s show ?thesis by blast
qed

text \<open>C13: killing a live process other than the running one and the idle one succeeds, marks it dead,
  frees exactly its name, descriptors and stack, takes one child from its parent, makes a parent
  that waits for its last child ready, and changes no other process.\<close>

theorem kill_process:
  assumes "runs s ps ss" and "a \<in> set ps" "pid (P s a) = k" "k \<noteq> IDLE_PID" "state (P s a) \<noteq> DEAD" "a \<noteq> currentProcess s"
  shows "\<exists>t. kill k s = Some (EXIT_SUCCESS, t) \<and> runs t ps ss \<and> state (P t a) = DEAD \<and>
    payload (mm t) = payload (mm s) |` (- {name (P s a), fd (P s a), bPointer (P s a)}) \<and>
    (\<forall>c \<in> set ps. c \<noteq> a \<longrightarrow> P t c = (if pid (P s c) = ppid (P s a) then orphaned (foreground (P s a)) (P s c) else P s c))"
  using kill_other [OF assms] by blast

theorem kill_process_witness:
  "\<exists>s t b u ps. enqueueProcess 0x401000 0 1 0 NULL s = Some (3, t) \<and> runs t (ps @ [b]) [] \<and>
     kill 3 t = Some (EXIT_SUCCESS, u) \<and> state (P u b) = DEAD"
proof (rule sample)
  fix s i a
  assume s: "sample s i a"
  from enqueueProcess_spec [OF sample_fork [OF s], of "[]" "0x401000" 0 1 0] sample_room [OF s] obtain t b where
    t: "enqueueProcess 0x401000 0 1 0 NULL s = Some (pids s, t)" "runs t ([i, a] @ [b]) []" "currentProcess t = currentProcess s"
      "state (P t b) = READY" "pid (P t b) = pids s" "b \<notin> set [i, a]" by auto
  have p: "pids s = 3" "currentProcess s = a" using s by (auto simp: sample_def)
  from kill_process [OF t(2), of b 3] t p obtain u where "kill 3 t = Some (EXIT_SUCCESS, u)" "state (P u b) = DEAD" by auto
  with t(1,2) p show ?thesis by metis
qed

text \<open>\<open>unblockFirst\<close> hands the processor over: the named process runs when it returns, the caller
  stays ready with its stack pointer saved, and no process is lost.\<close>

theorem unblock_first_handoff:
  assumes "runs s ps ss" and "a \<in> set ps" "a \<noteq> currentProcess s" "pid (P s a) = k" "state (P s a) \<noteq> DEAD"
  shows "\<exists>t qs us. unblockFirst k s = Some (EXIT_SUCCESS, t) \<and> runs t qs us \<and> set qs = set ps \<and> currentProcess t = a \<and>
    rsp (P t (currentProcess s)) = cpu_rsp s \<and>
    (\<forall>x \<in> set ps. state (P s x) = READY \<longrightarrow> pid (P s x) \<noteq> IDLE_PID \<longrightarrow> state (P t x) = READY)"
  using unblockFirst_handoff [OF runs_inv [OF assms(1)] refl runs_in [OF assms(1)] runs_ready [OF assms(1)] assms(2-5)] by blast

theorem unblock_first_handoff_witness:
  "\<exists>s i a t. sample s i a \<and> unblockFirst 1 s = Some (EXIT_SUCCESS, t) \<and> currentProcess t = i"
proof (rule sample)
  fix s i a
  assume s: "sample s i a"
  then have "currentProcess s = a" "i \<noteq> a" "pid (P s i) = 1" "state (P s i) \<noteq> DEAD" by (auto simp: sample_def)
  with unblock_first_handoff [OF sample_runs [OF s], of i 1] s show ?thesis by auto
qed

text \<open>a keyboard interrupt wakes every process that waits for input or output, and only these.\<close>

theorem io_wakes_all:
  assumes "runs s ps ss"
  shows "\<exists>t. unblockIO s = Some t \<and> runs t ps ss \<and>
    (\<forall>a \<in> set ps. P t a = (if state (P s a) = BLOCKEDIO then (P s a)\<lparr>state := READY\<rparr> else P s a))"
  using unblockIO_ok [OF assms] unblockIO_spec [OF sched_base [OF runs_inv [OF assms]]] by auto

theorem io_wakes_all_witness:
  "\<exists>s i a t u qs us. sample s i a \<and> blockIO s = Some (EXIT_SUCCESS, t) \<and> unblockIO t = Some u \<and> runs u qs us"
proof (rule sample)
  fix s i a
  assume s: "sample s i a"
  obtain t qs us where t: "blockIO s = Some (EXIT_SUCCESS, t)" "runs t qs us" using blockIO_ok [OF sample_runs [OF s]] by blast
  from io_wakes_all [OF t(2)] s t(1) show ?thesis by blast
qed

text \<open>a ready process that is over its quota is not preempted: the comparison with the quota is an
  equality, so a process that used its last slice to \<open>wait\<close>, or whose priority changed, keeps the
  processor when it runs again.\<close>

theorem over_quota_keeps_running:
  assumes "runs s ps ss" and "executions (P s (currentProcess s)) > MAX_PRIORITY - priority (P s (currentProcess s))"
    and "firstSleep s = NULL"
  shows "\<exists>t. forceTimer s = Some t \<and> currentProcess t = currentProcess s"
proof -
  note inv = runs_inv [OF assms(1)]
  from forceTimer_spec [OF inv] obtain u us t where
    u: "checkSleeping s = Some u" "forceTimer s = Some t" "currentProcess t = pick u ps" by blast
  have us: "u = s" using u(1) assms(3) by (simp add: checkSleeping_def checkLoop.simps)
  have "startAt s = currentProcess s" using assms(2) by (simp add: startAt_def quota_over_def)
  moreover obtain xs zs where "ps = xs @ zs" "rota ps (currentProcess s) = zs @ xs" "currentProcess s = hd0 zs"
    using rota_split [OF base_distinct [OF sched_base [OF inv]], of "currentProcess s"] runs_in [OF assms(1)] by blast
  ultimately have "pick s ps = currentProcess s"
    using runs_ready [OF assms(1)] runs_nonnull [OF assms(1)] by (cases zs) (auto simp: pick_def)
  with u us show ?thesis by auto
qed

theorem over_quota_keeps_running_witness:
  "\<exists>s i a t u. sample s i a \<and> t = s\<lparr>procs := (procs s)(a \<mapsto> (P s a)\<lparr>executions := 41\<rparr>)\<rparr> \<and>
     forceTimer t = Some u \<and> currentProcess u = a"
proof (rule sample)
  fix s i a
  assume s: "sample s i a"
  note r = sample_runs [OF s]
  have c: "currentProcess s = a" using s by (simp add: sample_def)
  define t where "t = s\<lparr>procs := (procs s)(a \<mapsto> (P s a)\<lparr>executions := 41\<rparr>)\<rparr>"
  have b: "base_inv t [i, a] []"
    using modP_ok(2) [OF sched_base [OF runs_inv [OF r]], of a "executions_update (\<lambda>_. 41)"] mild_exec by (simp add: t_def)
  have "firstSleep t = NULL" using lpath_hd0 [OF base_sleeps(1) [OF b]] by simp
  moreover have "runs t [i, a] []" using b r runs_ready [OF r] c by (simp add: runs_def sched_inv_def t_def)
  moreover have "0 \<le> priority (P s a)" using base_pinv [OF sched_base [OF runs_inv [OF r]], of a] by (simp add: pinv_def)
  then have "executions (P t a) > MAX_PRIORITY - priority (P t a)" by (simp add: t_def)
  moreover have "currentProcess t = a" using c by (simp add: t_def)
  ultimately show ?thesis using over_quota_keeps_running [of t "[i, a]" "[]"] s t_def by metis
qed

end
