(* ===== verification/Keyboard.thy ===== *)
theory Keyboard
  imports Scheduler_Props
begin

text \<open>
  The keyboard driver, \<open>src/Kernel/drivers/keyboard.c\<close>: the scan code tables of the two layouts
  (the second one is the build with \<open>SPANISH\<close>), the modifier flags and the buffer of
  \<open>SIZE\<close> = 1 characters with its two pointers, which are offsets here. An
  access outside an array is the outcome \<open>None\<close>. The driver is shown to implement a mailbox
  for one character behind a decoder of scan codes.
\<close>

section \<open>Tables\<close>

definition kbd :: "u8 list" where
  "kbd = [
     0, 27, 49, 50, 51, 52, 53, 54, 55, 56, 57, 48, 45, 61, 8, 9, 113, 119, 101, 114,
     116, 121, 117, 105, 111, 112, 91, 93, 10, 0, 97, 115, 100, 102, 103, 104, 106, 107, 108, 59,
     39, 96, 0, 92, 122, 120, 99, 118, 98, 110, 109, 44, 46, 47, 0, 42, 0, 32, 0, 0,
     0, 0, 0, 0, 0, 0, 0, 0, 0, 0, 0, 0, 0, 0, 45, 0, 0, 0, 43, 0,
     0, 0, 0, 0, 0, 0, 0, 0, 0, 0] @ replicate 160 0"

definition kbd_sh :: "u8 list" where
  "kbd_sh = [
     0, 27, 33, 34, 35, 0, 37, 38, 47, 40, 41, 61, 63, 96, 8, 9, 81, 87, 69, 82,
     84, 89, 85, 73, 79, 80, 123, 125, 10, 0, 65, 83, 68, 70, 71, 72, 74, 75, 76, 58,
     39, 62, 0, 124, 90, 88, 67, 86, 66, 78, 77, 59, 58, 95, 0, 42, 0, 32, 0, 0,
     0, 0, 0, 0, 0, 0, 0, 0, 0, 0, 0, 0, 0, 0, 45, 0, 0, 0, 43, 0,
     0, 0, 0, 0, 0, 0, 62, 0, 0, 0] @ replicate 160 0"

definition kbd_es :: "u8 list" where
  "kbd_es = [
     0, 124, 49, 50, 51, 52, 53, 54, 55, 56, 57, 48, 39, 168, 8, 9, 113, 119, 101, 114,
     116, 121, 117, 105, 111, 112, 96, 43, 10, 0, 97, 115, 100, 102, 103, 104, 106, 107, 108, 164,
     123, 125, 0, 60, 122, 120, 99, 118, 98, 110, 109, 44, 46, 45, 0, 42, 0, 32, 0, 0,
     0, 0, 0, 0, 0, 0, 0, 0, 0, 0, 0, 0, 0, 0, 45, 0, 0, 0, 43, 0,
     0, 0, 0, 0, 0, 0, 0, 0, 0, 0] @ replicate 160 0"

definition kbd_sh_es :: "u8 list" where
  "kbd_sh_es = [
     0, 167, 21, 34, 35, 36, 37, 38, 47, 40, 41, 61, 63, 173, 8, 9, 81, 87, 69, 82,
     84, 89, 85, 73, 79, 80, 0, 42, 10, 0, 65, 83, 68, 70, 71, 72, 74, 75, 76, 165,
     91, 93, 0, 62, 90, 88, 67, 86, 66, 78, 77, 59, 58, 95, 0, 42, 0, 32, 0, 0,
     0, 0, 0, 0, 0, 0, 0, 0, 0, 0, 0, 0, 0, 0, 45, 0, 0, 0, 43, 0,
     0, 0, 0, 0, 0, 0, 62, 0, 0, 0] @ replicate 160 0"

text \<open>The tables that \<open>kbd\<close> and \<open>kbd_sh\<close> name in a build.\<close>

record layout =
  lower :: "u8 list"
  upper :: "u8 list"

definition layout_of :: "bool \<Rightarrow> layout" where
  "layout_of SPANISH = (if SPANISH then \<lparr>lower = kbd_es, upper = kbd_sh_es\<rparr> else \<lparr>lower = kbd, upper = kbd_sh\<rparr>)"

section \<open>State and operations\<close>

abbreviation (input) SIZE :: int where "SIZE \<equiv> 1"

record keyboard =
  kbuffer :: "u8 list"
  current :: int
  last_k :: int
  flagChangeAlt :: int
  flagChangeF1 :: int
  flag :: u8

definition keyboard0 :: keyboard where
  "keyboard0 = \<lparr>kbuffer = [0], current = 0, last_k = 0, flagChangeAlt = 1, flagChangeF1 = 1, flag = 1\<rparr>"

definition store :: "int \<Rightarrow> u8 \<Rightarrow> u8 list \<Rightarrow> u8 list option" where
  "store i c b = (if 0 \<le> i \<and> i < int (length b) then Some (b[nat i := c]) else None)"

definition fetch :: "int \<Rightarrow> u8 list \<Rightarrow> u8 option" where
  "fetch i b = (if 0 \<le> i \<and> i < int (length b) then Some (b ! nat i) else None)"

definition saveChar :: "u8 \<Rightarrow> keyboard \<Rightarrow> keyboard option" where
  "saveChar c k =
     do {
       b \<leftarrow> store (last_k k) c (kbuffer k);
       let k = k\<lparr>kbuffer := b, last_k := last_k k + 1\<rparr>;
       Some (if last_k k = SIZE then k\<lparr>last_k := 0\<rparr> else k)
     }"

definition testKeyboardInterrupt :: "layout \<Rightarrow> u8 \<Rightarrow> keyboard \<Rightarrow> keyboard option" where
  "testKeyboardInterrupt L c k =
     (if c = 0x2A \<or> c = 0x36 then Some (k\<lparr>flag := 0\<rparr>)
      else if c = 0xAA \<or> c = 0xB6 then Some (k\<lparr>flag := 1\<rparr>)
      else
        let k =
          (if c = 0x3A then k\<lparr>flag := NOT (flag k OR 0xFE)\<rparr>
           else if c = 0x38 then k\<lparr>flagChangeAlt := 0\<rparr>
           else if c = 0x3B then k\<lparr>flagChangeF1 := 0\<rparr>
           else k)
        in
          if flagChangeAlt k = 0 \<and> flagChangeF1 k = 0 then saveChar (- 1) (k\<lparr>flagChangeAlt := 1, flagChangeF1 := 1\<rparr>)
          else if c = 0xB8 then Some (k\<lparr>flagChangeAlt := 1\<rparr>)
          else if c = 0xBB then Some (k\<lparr>flagChangeF1 := 1\<rparr>)
          else do {
            d \<leftarrow> fetch (uint c) (if flag k = 0 then upper L else lower L);
            if d \<noteq> 0 then saveChar d k else Some k
          })"

definition getKeyFromBuffer :: "keyboard \<Rightarrow> (u8 \<times> keyboard) option" where
  "getKeyFromBuffer k =
     do {
       let k = (if current k = SIZE then k\<lparr>current := 0\<rparr> else k);
       aux \<leftarrow> fetch (current k) (kbuffer k);
       b \<leftarrow> store (current k) 0 (kbuffer k);
       Some (aux, k\<lparr>kbuffer := b, current := current k + 1\<rparr>)
     }"

text \<open>The interrupt handler; \<open>c\<close> is the scan code that \<open>getCharInterrupt\<close> reads from the port.\<close>

definition keyboard_handler :: "layout \<Rightarrow> u8 \<Rightarrow> keyboard \<Rightarrow> sched_state \<Rightarrow> (keyboard \<times> sched_state) option" where
  "keyboard_handler L c k s =
     do { s \<leftarrow> unblockIO s; k \<leftarrow> testKeyboardInterrupt L c k; Some (k, s) }"

section \<open>Invariant\<close>

definition kb_inv :: "keyboard \<Rightarrow> bool" where
  "kb_inv k \<longleftrightarrow> length (kbuffer k) = 1 \<and> (current k = 0 \<or> current k = 1) \<and> last_k k = 0 \<and>
     (flag k = 0 \<or> flag k = 1) \<and> (flagChangeAlt k = 0 \<or> flagChangeAlt k = 1) \<and> (flagChangeF1 k = 0 \<or> flagChangeF1 k = 1) \<and>
     (flagChangeAlt k = 1 \<or> flagChangeF1 k = 1)"

lemma kb_inv0: "kb_inv keyboard0"
  by (simp add: kb_inv_def keyboard0_def)

lemma length_kbd [simp]: "length kbd = 250" "length kbd_sh = 250" "length kbd_es = 250" "length kbd_sh_es = 250"
  by (simp_all add: kbd_def kbd_sh_def kbd_es_def kbd_sh_es_def)

lemma length_layout [simp]: "length (lower (layout_of b)) = 250" "length (upper (layout_of b)) = 250"
  by (simp_all add: layout_of_def)

section \<open>The decoder and the mailbox\<close>

text \<open>
  The decoder keeps which of shift (or caps lock), alt and F1 are on. A scan code changes them and
  may produce a character: alt and F1 together the end-of-file character, any other key
  what the table says.
\<close>

record mods =
  shift :: bool
  alt :: bool
  f1 :: bool

definition lookup :: "layout \<Rightarrow> bool \<Rightarrow> u8 \<Rightarrow> u8 option" where
  "lookup L sh c = (let d = (if sh then upper L else lower L) ! unat c in if d = 0 then None else Some d)"

definition press :: "u8 \<Rightarrow> mods \<Rightarrow> mods" where
  "press c q =
     (if c \<in> {0x2A, 0x36} then q\<lparr>shift := True\<rparr>
      else if c \<in> {0xAA, 0xB6} then q\<lparr>shift := False\<rparr>
      else if c = 0x3A then q\<lparr>shift := \<not> shift q\<rparr>
      else if c = 0x38 then q\<lparr>alt := True\<rparr>
      else if c = 0x3B then q\<lparr>f1 := True\<rparr>
      else if c = 0xB8 then q\<lparr>alt := False\<rparr>
      else if c = 0xBB then q\<lparr>f1 := False\<rparr>
      else q)"

definition decode :: "layout \<Rightarrow> u8 \<Rightarrow> mods \<Rightarrow> u8 option \<times> mods" where
  "decode L c q =
     (let q = press c q in
      if alt q \<and> f1 q then (Some (- 1), q\<lparr>alt := False, f1 := False\<rparr>)
      else if c \<in> {0x2A, 0x36, 0xAA, 0xB6, 0xB8, 0xBB} then (None, q)
      else (lookup L (shift q) c, q))"

text \<open>Scan codes that arrive and reads, in any order, and what the reads return.\<close>

datatype kevent = Scan u8 | Read

fun kb_run :: "layout \<Rightarrow> kevent list \<Rightarrow> keyboard \<Rightarrow> (u8 list \<times> keyboard) option" where
  "kb_run L [] k = Some ([], k)"
| "kb_run L (Scan c # es) k = do { k \<leftarrow> testKeyboardInterrupt L c k; kb_run L es k }"
| "kb_run L (Read # es) k = do { (x, k) \<leftarrow> getKeyFromBuffer k; (xs, k) \<leftarrow> kb_run L es k; Some (x # xs, k) }"

fun mailbox :: "layout \<Rightarrow> kevent list \<Rightarrow> mods \<Rightarrow> u8 \<Rightarrow> u8 list" where
  "mailbox L [] q b = []"
| "mailbox L (Scan c # es) q b = (let (d, q) = decode L c q in mailbox L es q (case d of None \<Rightarrow> b | Some x \<Rightarrow> x))"
| "mailbox L (Read # es) q b = b # mailbox L es q 0"

definition kb_mods :: "keyboard \<Rightarrow> mods" where
  "kb_mods k = \<lparr>shift = (flag k = 0), alt = (flagChangeAlt k = 0), f1 = (flagChangeF1 k = 0)\<rparr>"

text \<open>The keyboard as its modifiers, its one character and the read pointer.\<close>

definition kb_of :: "mods \<Rightarrow> u8 \<Rightarrow> int \<Rightarrow> keyboard" where
  "kb_of q x cur = \<lparr>kbuffer = [x], current = cur, last_k = 0, flagChangeAlt = (if alt q then 0 else 1),
     flagChangeF1 = (if f1 q then 0 else 1), flag = (if shift q then 0 else 1)\<rparr>"

lemma kb_ofE:
  assumes "kb_inv k"
  obtains q x where "k = kb_of q x (current k)" "kb_mods k = q" "kbuffer k ! 0 = x" "\<not> (alt q \<and> f1 q)"
proof -
  obtain x where "kbuffer k = [x]" using assms by (auto simp: kb_inv_def length_Suc_conv)
  with assms have "k = kb_of (kb_mods k) x (current k)"
    by (cases k) (auto simp: kb_of_def kb_mods_def kb_inv_def)
  with assms \<open>kbuffer k = [x]\<close> show thesis by (intro that [of "kb_mods k" x]) (auto simp: kb_mods_def kb_inv_def)
qed

lemma kb_of_inv: "\<not> (alt q \<and> f1 q) \<Longrightarrow> cur = 0 \<or> cur = 1 \<Longrightarrow> kb_inv (kb_of q x cur)"
  by (auto simp: kb_inv_def kb_of_def)

lemma kb_of_fields [simp]: "kb_mods (kb_of q x cur) = q" "kbuffer (kb_of q x cur) = [x]" "current (kb_of q x cur) = cur"
  by (simp_all add: kb_of_def kb_mods_def)

lemma saveChar_of [simp]: "saveChar c (kb_of q x cur) = Some (kb_of q c cur)"
  by (simp add: kb_of_def saveChar_def store_def)

lemma kb_of_upd [simp]:
  "(kb_of q x cur)\<lparr>flag := 0\<rparr> = kb_of (q\<lparr>shift := True\<rparr>) x cur" "(kb_of q x cur)\<lparr>flag := 1\<rparr> = kb_of (q\<lparr>shift := False\<rparr>) x cur"
  "(kb_of q x cur)\<lparr>flagChangeAlt := 0\<rparr> = kb_of (q\<lparr>alt := True\<rparr>) x cur" "(kb_of q x cur)\<lparr>flagChangeAlt := 1\<rparr> = kb_of (q\<lparr>alt := False\<rparr>) x cur"
  "(kb_of q x cur)\<lparr>flagChangeF1 := 0\<rparr> = kb_of (q\<lparr>f1 := True\<rparr>) x cur" "(kb_of q x cur)\<lparr>flagChangeF1 := 1\<rparr> = kb_of (q\<lparr>f1 := False\<rparr>) x cur"
  "(kb_of q x cur)\<lparr>flag := NOT (flag (kb_of q x cur) OR 0xFE)\<rparr> = kb_of (q\<lparr>shift := \<not> shift q\<rparr>) x cur"
  by (simp_all add: kb_of_def)

lemma kb_of_tests [simp]: "flagChangeAlt (kb_of q x cur) = 0 \<longleftrightarrow> alt q" "flagChangeF1 (kb_of q x cur) = 0 \<longleftrightarrow> f1 q"
  "flag (kb_of q x cur) = 0 \<longleftrightarrow> shift q"
  by (simp_all add: kb_of_def)

lemma press_code:
  assumes "\<not> (alt q \<and> f1 q)" "unat c < 250"
  shows "testKeyboardInterrupt (layout_of b) c (kb_of q x cur) =
    (let (d, q) = decode (layout_of b) c q in Some (kb_of q (case d of None \<Rightarrow> x | Some y \<Rightarrow> y) cur))"
proof -
  let ?L = "layout_of b"
  have "uint c = int (unat c)" by simp
  then have f: "fetch (uint c) (upper ?L) = Some (upper ?L ! unat c)" "fetch (uint c) (lower ?L) = Some (lower ?L ! unat c)"
    using assms(2) by (simp_all add: fetch_def del: of_nat_unat)
  have l: "fetch (uint c) (if shift r then upper ?L else lower ?L) = Some ((if shift r then upper ?L else lower ?L) ! unat c)" for r
    using f by simp
  show ?thesis
  proof (cases "c \<in> {0x2A, 0x36, 0xAA, 0xB6}")
    case True
    then show ?thesis using assms(1) by (auto simp: testKeyboardInterrupt_def decode_def press_def)
  next
    case False
    have p: "(if c = 0x3A then (kb_of q x cur)\<lparr>flag := NOT (flag (kb_of q x cur) OR 0xFE)\<rparr>
         else if c = 0x38 then (kb_of q x cur)\<lparr>flagChangeAlt := 0\<rparr>
         else if c = 0x3B then (kb_of q x cur)\<lparr>flagChangeF1 := 0\<rparr> else kb_of q x cur) =
       kb_of (if c = 0xB8 \<or> c = 0xBB then q else press c q) x cur"
      using False kb_of_upd(7) [of q x cur] by (simp add: press_def)
    show ?thesis
      unfolding testKeyboardInterrupt_def p using False assms(1)
      by (auto simp: decode_def lookup_def l press_def Let_def)
  qed
qed

lemma getKey_of: "cur = 0 \<or> cur = 1 \<Longrightarrow> getKeyFromBuffer (kb_of q x cur) = Some (x, kb_of q 0 1)"
  by (auto simp: getKeyFromBuffer_def fetch_def store_def kb_of_def)

lemma decode_mods: "\<not> (alt q \<and> f1 q) \<Longrightarrow> decode L c q = (d, r) \<Longrightarrow> \<not> (alt r \<and> f1 r)"
  by (auto simp: decode_def Let_def split: if_splits)

lemma kb_run_mailbox:
  assumes "\<not> (alt q \<and> f1 q)" "cur = 0 \<or> cur = 1" "\<And>c. Scan c \<in> set es \<Longrightarrow> unat c < 250"
  shows "\<exists>k. kb_run (layout_of b) es (kb_of q x cur) = Some (mailbox (layout_of b) es q x, k) \<and> kb_inv k"
  using assms
proof (induction es arbitrary: q x cur)
  case Nil
  then show ?case by (simp add: kb_of_inv)
next
  case (Cons e es)
  show ?case
  proof (cases e)
    case (Scan c)
    obtain d r where d: "decode (layout_of b) c q = (d, r)" by force
    from Cons.IH [OF decode_mods [OF Cons.prems(1) d] Cons.prems(2)] Cons.prems Scan d press_code [of q c b x cur] show ?thesis
      by auto
  next
    case Read
    with Cons.IH [of q 1 0] Cons.prems getKey_of [OF Cons.prems(2)] show ?thesis by auto
  qed
qed

section \<open>Properties\<close>

text \<open>C19: for any sequence of scan codes below 250 and reads, in both layouts, the driver stays in its
  invariant, no access leaves an array, and the reads return what a mailbox for one character
  behind the decoder returns: the last character decoded since the last read, or 0.\<close>

theorem keyboard_mailbox:
  assumes "kb_inv k" and "\<And>c. Scan c \<in> set es \<Longrightarrow> unat c < 250"
  shows "\<exists>k'. kb_run (layout_of b) es k = Some (mailbox (layout_of b) es (kb_mods k) (kbuffer k ! 0), k') \<and> kb_inv k'"
proof (rule kb_ofE [OF assms(1)])
  fix q x assume k: "k = kb_of q x (current k)" "kb_mods k = q" "kbuffer k ! 0 = x" "\<not> (alt q \<and> f1 q)"
  have "current k = 0 \<or> current k = 1" using assms(1) by (simp add: kb_inv_def)
  with kb_run_mailbox [OF k(4) _ assms(2), of "current k" es b x] k(1-3) show ?thesis by simp
qed

text \<open>With the left shift key: an upper-case letter, and a key whose character is overwritten.\<close>

theorem keyboard_mailbox_witness:
  "\<exists>k'. kb_run (layout_of False) [Scan 0x2A, Scan 0x1E, Read, Scan 0xAA, Scan 0x1E, Scan 0x30, Read, Read] keyboard0 =
     Some ([65, 98, 0], k') \<and> kb_inv k'"
proof -
  let ?es = "[Scan 0x2A, Scan 0x1E, Read, Scan 0xAA, Scan 0x1E, Scan 0x30, Read, Read]"
  have "kbd_sh ! 30 = 65" "kbd ! 30 = 97" "kbd ! 48 = 98" by (simp_all add: kbd_def kbd_sh_def)
  then have "mailbox (layout_of False) ?es (kb_mods keyboard0) (kbuffer keyboard0 ! 0) = [65, 98, 0]"
    by (simp add: kb_mods_def keyboard0_def decode_def press_def lookup_def layout_of_def)
  moreover have "unat c < 250" if "Scan c \<in> set ?es" for c using that by auto
  ultimately show ?thesis using keyboard_mailbox [OF kb_inv0, of ?es False] by metis
qed

text \<open>the tables have 250 entries and the code is an unsigned byte: a code of 250 or more (250 is
  the keyboard's acknowledge code) makes the driver read outside the table.\<close>

theorem keyboard_table_overrun:
  assumes "kb_inv k" and "250 \<le> unat c"
  shows "testKeyboardInterrupt (layout_of b) c k = None"
proof (rule kb_ofE [OF assms(1)])
  fix q x assume k: "k = kb_of q x (current k)" "\<not> (alt q \<and> f1 q)"
  have "c \<notin> {0x2A, 0x36, 0xAA, 0xB6, 0x3A, 0x38, 0x3B, 0xB8, 0xBB}" using assms(2) by auto
  moreover have "uint c = int (unat c)" by simp
  then have "fetch (uint c) t = None" if "length t = 250" for t using assms(2) that by (simp add: fetch_def del: of_nat_unat)
  ultimately have "testKeyboardInterrupt (layout_of b) c (kb_of q x (current k)) = None"
    using k(2) by (auto simp: testKeyboardInterrupt_def Let_def)
  with k(1) show ?thesis by simp
qed

theorem keyboard_table_overrun_witness: "testKeyboardInterrupt (layout_of False) 0xFA keyboard0 = None"
  by (rule keyboard_table_overrun [OF kb_inv0]) simp

text \<open>the keyboard interrupt wakes every process that waits for input and, for a scan code below
  250, leaves the decoded character for the next read.\<close>

theorem keyboard_interrupt:
  assumes "runs s ps ss" and "kb_inv k" and "unat c < 250"
  shows "\<exists>k' t. keyboard_handler (layout_of b) c k s = Some (k', t) \<and> kb_inv k' \<and> runs t ps ss \<and>
    (\<forall>a \<in> set ps. state (P t a) = (if state (P s a) = BLOCKEDIO then READY else state (P s a))) \<and>
    (\<forall>d q. decode (layout_of b) c (kb_mods k) = (Some d, q) \<longrightarrow> (\<exists>k''. getKeyFromBuffer k' = Some (d, k'')))"
proof (rule kb_ofE [OF assms(2)])
  fix q x assume k: "k = kb_of q x (current k)" "kb_mods k = q" "\<not> (alt q \<and> f1 q)"
  have cur: "current k = 0 \<or> current k = 1" using assms(2) by (simp add: kb_inv_def)
  obtain d r where d: "decode (layout_of b) c q = (d, r)" by force
  let ?k = "kb_of r (case d of None \<Rightarrow> x | Some y \<Rightarrow> y) (current k)"
  have run: "testKeyboardInterrupt (layout_of b) c k = Some ?k"
    using press_code [OF k(3) assms(3), of b x "current k"] d k(1) by simp
  have inv: "kb_inv ?k" using decode_mods [OF k(3) d] cur by (rule kb_of_inv)
  obtain t where t: "unblockIO s = Some t" "runs t ps ss"
    "\<forall>a \<in> set ps. P t a = (if state (P s a) = BLOCKEDIO then (P s a)\<lparr>state := READY\<rparr> else P s a)"
    using unblockIO_ok [OF assms(1)] unblockIO_spec [OF sched_base [OF runs_inv [OF assms(1)]]] by auto
  have "\<exists>k''. getKeyFromBuffer ?k = Some (e, k'')" if "d = Some e" for e
    using getKey_of [OF cur] that by simp
  with run inv t d k(2) show ?thesis by (auto simp: keyboard_handler_def)
qed

theorem keyboard_interrupt_witness:
  "\<exists>s i a k' t. sample s i a \<and> keyboard_handler (layout_of False) 0x1E keyboard0 s = Some (k', t) \<and>
     (\<exists>k''. getKeyFromBuffer k' = Some (97, k''))"
proof (rule sample)
  fix s i a
  assume s: "sample s i a"
  have "kbd ! 30 = 97" by (simp add: kbd_def)
  then have "decode (layout_of False) 0x1E (kb_mods keyboard0) = (Some 97, kb_mods keyboard0)"
    by (simp add: kb_mods_def keyboard0_def decode_def press_def lookup_def layout_of_def)
  with keyboard_interrupt [OF sample_runs [OF s] kb_inv0, of "0x1E" False] s show ?thesis by auto
qed

end
