(* ===== verification/Sem.thy ===== *)
theory Sem
  imports KLib Scheduler_Props
begin

text \<open>
  Semaphores, \<open>src/Kernel/utils/sem.c\<close>: definitions. The objects of \<open>sem_t\<close>, \<open>node_t\<close> and
  \<open>pid_t\<close> live in typed heaps beside those of the scheduler, whose state is \<open>sch\<close>.

  A process that blocks in \<open>semWait\<close> or hands the processor over in \<open>semPost\<close> goes on with the
  rest of the function when it is scheduled again. What is left to do is its continuation,
  kept in \<open>conts\<close> under its identifier, and \<open>resume\<close> runs the continuation of the running process.
  Taking a lock that is taken spins, which is the outcome \<open>None\<close>.
\<close>

section \<open>State\<close>

record pid_t =
  pid_n :: int
  next_n :: addr

record sem_t =
  sem_value :: u32
  sem_name :: addr
  entering :: addr
  sem_last :: addr

record sem_node =
  node_sem :: addr
  node_next :: addr

datatype cont = AfterBlock addr | AfterUnblock addr

record sem_state =
  sch :: sched_state
  sems :: "addr \<rightharpoonup> sem_t"
  semNodes :: "addr \<rightharpoonup> sem_node"
  waiters :: "addr \<rightharpoonup> pid_t"
  firstSem :: addr
  semCounter :: int
  semLock :: int
  conts :: "int \<rightharpoonup> cont"

abbreviation (input) MAX_NAME :: nat where "MAX_NAME \<equiv> 100"
abbreviation (input) SEM_DATA_MAX_SIZE :: int where "SEM_DATA_MAX_SIZE \<equiv> 100"
abbreviation (input) MIN_SIZE :: int where "MIN_SIZE \<equiv> 32"

definition malloc_m :: "nat \<Rightarrow> sem_state \<Rightarrow> (addr \<times> sem_state) option" where
  "malloc_m n s = do { (p, c) \<leftarrow> malloc_s n (sch s); Some (p, s\<lparr>sch := c\<rparr>) }"

definition free_m :: "addr \<Rightarrow> sem_state \<Rightarrow> sem_state option" where
  "free_m p s = do { c \<leftarrow> free_s p (sch s); Some (s\<lparr>sch := c\<rparr>) }"

definition modSem :: "addr \<Rightarrow> (sem_t \<Rightarrow> sem_t) \<Rightarrow> sem_state \<Rightarrow> sem_state option" where
  "modSem a f s =
     (if a = NULL then None else do { x \<leftarrow> sems s a; Some (s\<lparr>sems := (sems s)(a \<mapsto> f x)\<rparr>) })"

definition modWaiter :: "addr \<Rightarrow> (pid_t \<Rightarrow> pid_t) \<Rightarrow> sem_state \<Rightarrow> sem_state option" where
  "modWaiter a f s =
     (if a = NULL then None else do { x \<leftarrow> waiters s a; Some (s\<lparr>waiters := (waiters s)(a \<mapsto> f x)\<rparr>) })"

definition enter_region :: "sem_state \<Rightarrow> sem_state option" where
  "enter_region s = (if semLock s = 0 then Some (s\<lparr>semLock := 1\<rparr>) else None)"

definition leave_region :: "sem_state \<Rightarrow> sem_state" where
  "leave_region s = s\<lparr>semLock := 0\<rparr>"

section \<open>Opening and closing\<close>

partial_function (option) searchSemLoop :: "addr \<Rightarrow> sem_state \<Rightarrow> addr \<Rightarrow> addr option" where
  "searchSemLoop nm s aux =
     (if aux = NULL then Some NULL
      else do {
        n \<leftarrow> semNodes s aux;
        x \<leftarrow> sems s (node_sem n);
        r \<leftarrow> strcmp (ram (sch s)) nm (sem_name x);
        if r = 0 then Some aux else searchSemLoop nm s (node_next n)
      })"

definition searchSem :: "addr \<Rightarrow> sem_state \<Rightarrow> addr option" where
  "searchSem nm s = searchSemLoop nm s (firstSem s)"

definition semOpen :: "addr \<Rightarrow> u32 \<Rightarrow> sem_state \<Rightarrow> (addr \<times> sem_state) option" where
  "semOpen nm v s =
     do {
       s \<leftarrow> enter_region s;
       aux \<leftarrow> searchSem nm s;
       if aux \<noteq> NULL then do { n \<leftarrow> semNodes s aux; Some (node_sem n, leave_region s) }
       else do {
         (sem, s) \<leftarrow> malloc_m 32 s;
         (node, s) \<leftarrow> malloc_m 16 s;
         (buf, s) \<leftarrow> malloc_m MAX_NAME s;
         if sem = NULL \<or> node = NULL \<or> buf = NULL then None
         else do {
           (_, m) \<leftarrow> strcpy buf nm (ram (sch s));
           Some (sem, leave_region (s\<lparr>sch := (sch s)\<lparr>ram := m\<rparr>,
             semNodes := (semNodes s)(node \<mapsto> \<lparr>node_sem = sem, node_next = firstSem s\<rparr>),
             firstSem := node,
             sems := (sems s)(sem \<mapsto> \<lparr>sem_value = v, sem_name = buf, entering = NULL, sem_last = NULL\<rparr>),
             semCounter := s8 (semCounter s + 1)\<rparr>))
         }
       }
     }"

text \<open>The loop of \<open>semClose\<close> that unlinks the node of a semaphore behind the first one.\<close>

partial_function (option) unlinkSem :: "addr \<Rightarrow> addr \<Rightarrow> sem_state \<Rightarrow> (addr \<times> sem_state) option" where
  "unlinkSem sem aux s =
     (if aux = NULL then Some (NULL, s)
      else do {
        n \<leftarrow> semNodes s aux;
        if node_next n \<noteq> NULL
        then do {
          d \<leftarrow> semNodes s (node_next n);
          if node_sem d = sem
          then Some (node_next n, s\<lparr>semNodes := (semNodes s)(aux \<mapsto> n\<lparr>node_next := node_next d\<rparr>)\<rparr>)
          else unlinkSem sem (node_next n) s
        }
        else unlinkSem sem (node_next n) s
      })"

partial_function (option) freeWaiters :: "addr \<Rightarrow> sem_state \<Rightarrow> sem_state option" where
  "freeWaiters pd s =
     (if pd = NULL then Some s
      else do {
        w \<leftarrow> waiters s pd;
        s \<leftarrow> free_m pd s;
        freeWaiters (next_n w) (s\<lparr>waiters := (waiters s)(pd := None)\<rparr>)
      })"

definition semClose :: "addr \<Rightarrow> sem_state \<Rightarrow> (int \<times> sem_state) option" where
  "semClose sem s =
     (if sem = NULL then Some (EXIT_FAILURE, s)
      else do {
        s \<leftarrow> enter_region s;
        f \<leftarrow> semNodes s (firstSem s);
        (del, s) \<leftarrow>
          (if node_sem f = sem then Some (firstSem s, s\<lparr>firstSem := node_next f\<rparr>)
           else unlinkSem sem (firstSem s) s);
        if del = NULL then Some (EXIT_FAILURE, leave_region s)
        else do {
          x \<leftarrow> sems s sem;
          s \<leftarrow> freeWaiters (entering x) s;
          s \<leftarrow> free_m (sem_name x) s;
          s \<leftarrow> free_m sem s;
          s \<leftarrow> free_m del s;
          Some (EXIT_SUCCESS, leave_region (s\<lparr>sems := (sems s)(sem := None),
            semNodes := (semNodes s)(del := None), semCounter := s8 (semCounter s - 1)\<rparr>))
        }
      })"

section \<open>Waiting and posting\<close>

text \<open>The end of \<open>semWait\<close>, behind the call of \<open>block\<close>.\<close>

definition finishWait :: "addr \<Rightarrow> sem_state \<Rightarrow> sem_state option" where
  "finishWait sem s =
     do {
       s \<leftarrow> enter_region s;
       s \<leftarrow> modSem sem (\<lambda>x. x\<lparr>sem_value := sem_value x - 1\<rparr>) s;
       Some (leave_region s)
     }"

text \<open>The waiting process at the end of the queue of a semaphore.\<close>

definition enqueueWaiter :: "addr \<Rightarrow> addr \<Rightarrow> sem_state \<Rightarrow> sem_state option" where
  "enqueueWaiter sem cur s =
     do {
       x \<leftarrow> sems s sem;
       s \<leftarrow> (if entering x = NULL then modSem sem (entering_update (\<lambda>_. cur)) s else Some s);
       s \<leftarrow> (if sem_last x \<noteq> NULL then modWaiter (sem_last x) (next_n_update (\<lambda>_. cur)) s else Some s);
       modSem sem (sem_last_update (\<lambda>_. cur)) s
     }"

definition semWait :: "addr \<Rightarrow> sem_state \<Rightarrow> sem_state option" where
  "semWait sem s =
     do {
       s \<leftarrow> enter_region s;
       x \<leftarrow> sems s sem;
       if sem_value x > 0
       then do {
         s \<leftarrow> modSem sem (\<lambda>x. x\<lparr>sem_value := sem_value x - 1\<rparr>) s;
         Some (leave_region s)
       }
       else do {
         let s = leave_region s;
         (cur, s) \<leftarrow> malloc_m 16 s;
         if cur = NULL then None
         else do {
           k \<leftarrow> getPid (sch s);
           s \<leftarrow> enqueueWaiter sem cur (s\<lparr>waiters := (waiters s)(cur \<mapsto> \<lparr>pid_n = k, next_n = NULL\<rparr>)\<rparr>);
           (r, c) \<leftarrow> block k (sch s);
           if r = EXIT_FAILURE then finishWait sem (s\<lparr>sch := c\<rparr>)
           else Some (s\<lparr>sch := c, conts := (conts s)(k \<mapsto> AfterBlock sem)\<rparr>)
         }
       }
     }"

text \<open>The end of \<open>semPost\<close>, behind the call of \<open>unblockFirst\<close>.\<close>

definition finishPost :: "addr \<Rightarrow> sem_state \<Rightarrow> sem_state option" where
  "finishPost aux s =
     do {
       s \<leftarrow> free_m aux s;
       s \<leftarrow> enter_region (s\<lparr>waiters := (waiters s)(aux := None)\<rparr>);
       Some (leave_region s)
     }"

definition semPost :: "addr \<Rightarrow> sem_state \<Rightarrow> sem_state option" where
  "semPost sem s =
     do {
       s \<leftarrow> enter_region s;
       s \<leftarrow> modSem sem (\<lambda>x. x\<lparr>sem_value := sem_value x + 1\<rparr>) s;
       x \<leftarrow> sems s sem;
       if entering x \<noteq> NULL
       then do {
         let aux = entering x;
         w \<leftarrow> waiters s aux;
         s \<leftarrow> modSem sem (entering_update (\<lambda>_. next_n w)) s;
         s \<leftarrow> (if next_n w = NULL then modSem sem (sem_last_update (\<lambda>_. NULL)) s else Some s);
         let s = leave_region s;
         k \<leftarrow> getPid (sch s);
         (r, c) \<leftarrow> unblockFirst (pid_n w) (sch s);
         if r = EXIT_FAILURE then finishPost aux (s\<lparr>sch := c\<rparr>)
         else Some (s\<lparr>sch := c, conts := (conts s)(k \<mapsto> AfterUnblock aux)\<rparr>)
       }
       else Some (leave_region s)
     }"

text \<open>The running process goes on where it stopped in the kernel.\<close>

definition resume :: "sem_state \<Rightarrow> sem_state option" where
  "resume s =
     do {
       k \<leftarrow> getPid (sch s);
       let t = s\<lparr>conts := (conts s)(k := None)\<rparr>;
       case conts s k of
         None \<Rightarrow> Some s
       | Some (AfterBlock sem) \<Rightarrow> finishWait sem t
       | Some (AfterUnblock aux) \<Rightarrow> finishPost aux t
     }"

end
