(* ===== verification/Semaphore_Spec.thy ===== *)
theory Semaphore_Spec
  imports Bottler_Prelude
begin

text \<open>
  The interface of a semaphore to its clients, on the paths that do not block: \<open>val s a\<close> is the
  value of the semaphore at \<open>a\<close> when nobody waits for it, and \<open>upd a v s\<close> sets it.
\<close>

locale semaphore =
  fixes wait :: "addr \<Rightarrow> 's \<Rightarrow> 's option"
    and post :: "addr \<Rightarrow> 's \<Rightarrow> 's option"
    and val :: "'s \<Rightarrow> addr \<Rightarrow> u32 option"
    and upd :: "addr \<Rightarrow> u32 \<Rightarrow> 's \<Rightarrow> 's"
  assumes wait_pos: "val s a = Some v \<Longrightarrow> 0 < v \<Longrightarrow> wait a s = Some (upd a (v - 1) s)"
    and post_idle: "val s a = Some v \<Longrightarrow> post a s = Some (upd a (v + 1) s)"
    and val_upd: "val s a = Some v \<Longrightarrow> val (upd a w s) b = (if b = a then Some w else val s b)"
    and upd_upd: "val s a = Some v \<Longrightarrow> upd a x (upd a w s) = upd a x s"
    and upd_val: "val s a = Some v \<Longrightarrow> upd a v s = s"
begin

text \<open>A post after a wait gives the state back.\<close>

lemma wait_post:
  assumes "val s a = Some v" "0 < v" shows "do { s \<leftarrow> wait a s; post a s } = Some s"
  using assms by (simp add: wait_pos post_idle [of _ _ "v - 1"] val_upd upd_upd upd_val)

text \<open>A wait after a post does, too, unless the value wraps around.\<close>

lemma post_wait:
  assumes "val s a = Some v" "v \<noteq> - 1" shows "do { s \<leftarrow> post a s; wait a s } = Some s"
proof -
  have "v + 1 \<noteq> 0" using assms(2) by (metis add_eq_0_iff2)
  then have "0 < v + 1" by (simp add: word_gt_0)
  then show ?thesis using assms by (simp add: post_idle wait_pos [of _ _ "v + 1"] val_upd upd_upd upd_val)
qed

text \<open>A section guarded by a semaphore of value 1 runs with the value 0 and gives the unit back.\<close>

lemma guarded:
  assumes "val s a = Some 1" "f (upd a 0 s) = Some (upd a 0 t)" "val t a = Some 1"
  shows "do { s \<leftarrow> wait a s; s \<leftarrow> f s; post a s } = Some t"
proof -
  have "val (upd a 0 t) a = Some 0" using val_upd [OF assms(3)] by simp
  from post_idle [OF this] have "post a (upd a 0 t) = Some t" using upd_upd [OF assms(3)] upd_val [OF assms(3)] by simp
  with wait_pos [OF assms(1)] assms(2) show ?thesis by simp
qed

end

end
