(* ===== verification/Sem_Props.thy ===== *)
theory Sem_Props
  imports Sem Semaphore_Spec
begin

text \<open>
  Semaphores: what each operation does to the value and to the queue of waiting processes, and
  the abstract semaphore (a value and a queue of process identifiers) that they implement.
\<close>

section \<open>Representation\<close>

abbreviation nxt_w :: "sem_state \<Rightarrow> addr \<rightharpoonup> addr" where
  "nxt_w s \<equiv> \<lambda>a. map_option next_n (waiters s a)"

text \<open>A block of memory that does not belong to the scheduler.\<close>

definition foreign :: "sched_state \<Rightarrow> addr \<Rightarrow> bool" where
  "foreign c p \<longleftrightarrow> procs c p = None \<and> sleeps c p = None \<and> payload (mm c) p \<noteq> None"

lemma foreign_kept: "foreign c p \<Longrightarrow> others_kept c d \<Longrightarrow> foreign d p"
  unfolding foreign_def others_kept_def by metis

lemma foreign_new:
  assumes "tidy c" "p \<noteq> NULL" "payload (mm c) p = None" "payload m p \<noteq> None" shows "foreign (c\<lparr>mm := m\<rparr>) p"
  using assms by (simp add: foreign_def tidy_def)

text \<open>The semaphore at an address: its value and the nodes of its queue, in order.\<close>

definition sem_at :: "sem_state \<Rightarrow> addr \<Rightarrow> u32 \<Rightarrow> addr list \<Rightarrow> bool" where
  "sem_at s sem v ws \<longleftrightarrow> sem \<noteq> NULL \<and>
     (\<exists>x. sems s sem = Some x \<and> sem_value x = v \<and> lpath (nxt_w s) (entering x) ws NULL \<and> sem_last x = last0 ws) \<and>
     (\<forall>w \<in> set ws. foreign (sch s) w)"

lemma sem_atE:
  assumes "sem_at s sem v ws"
  obtains x where "sem \<noteq> NULL" "sems s sem = Some x" "sem_value x = v" "lpath (nxt_w s) (entering x) ws NULL" "sem_last x = last0 ws"
    "\<And>w. w \<in> set ws \<Longrightarrow> foreign (sch s) w"
  using assms unfolding sem_at_def by blast

definition squeue :: "sem_state \<Rightarrow> addr list \<Rightarrow> int list" where
  "squeue s ws = map (\<lambda>w. pid_n (the (waiters s w))) ws"

text \<open>A semaphore is not disturbed by what leaves it, its queue and its memory alone.\<close>

lemma sem_at_frame:
  assumes "sem_at s sem v ws" "sems t sem = sems s sem" "\<And>w. w \<in> set ws \<Longrightarrow> waiters t w = waiters s w"
    and "\<And>w. w \<in> set ws \<Longrightarrow> foreign (sch s) w \<Longrightarrow> foreign (sch t) w"
  shows "sem_at t sem v ws" "squeue t ws = squeue s ws"
proof -
  obtain x where x: "sem \<noteq> NULL" "sems s sem = Some x" "sem_value x = v" "lpath (nxt_w s) (entering x) ws NULL" "sem_last x = last0 ws"
    "\<And>w. w \<in> set ws \<Longrightarrow> foreign (sch s) w" by (rule sem_atE [OF assms(1)]) blast
  have "lpath (nxt_w t) (entering x) ws NULL" using x(4) assms(3) by (subst lpath_cong [where n' = "nxt_w s"]) auto
  with x assms(2,4) show "sem_at t sem v ws" by (auto simp: sem_at_def)
  show "squeue t ws = squeue s ws" using assms(3) by (simp add: squeue_def)
qed

text \<open>The system is at rest: a process runs, the lock is free, memory objects are in order.\<close>

definition ready :: "sem_state \<Rightarrow> addr list \<Rightarrow> addr list \<Rightarrow> bool" where
  "ready s ps ss \<longleftrightarrow> runs (sch s) ps ss \<and> tidy (sch s) \<and> semLock s = 0"

lemma unlocked [simp]: "semLock s = 0 \<Longrightarrow> s\<lparr>semLock := 0\<rparr> = s"
  by (cases s) simp

lemma runs_mm:
  assumes "runs c ps ss" "mm_ok m" "\<And>q. payload (mm c) q \<noteq> None \<Longrightarrow> payload m q \<noteq> None"
  shows "runs (c\<lparr>mm := m\<rparr>) ps ss"
  using assms list_inv_mm [of c ps ss m] by (simp add: runs_def sched_inv_def base_inv_def)

section \<open>Waiting\<close>

lemma semWait_free:
  assumes "sem_at s sem v ws" "0 < v" "semLock s = 0"
  shows "\<exists>x. sems s sem = Some x \<and> semWait sem s = Some (s\<lparr>sems := (sems s)(sem \<mapsto> x\<lparr>sem_value := v - 1\<rparr>)\<rparr>)"
proof -
  obtain x where x: "sem \<noteq> NULL" "sems s sem = Some x" "sem_value x = v" by (rule sem_atE [OF assms(1)])
  with assms(2,3) show ?thesis
    by (simp add: semWait_def enter_region_def leave_region_def modSem_def)
qed

lemma enqueueWaiter_spec:
  assumes x: "sem \<noteq> NULL" "sems s sem = Some x" "lpath (nxt_w s) (entering x) ws NULL" "sem_last x = last0 ws"
    and c: "cur \<noteq> NULL" "cur \<notin> set ws"
  fixes k :: int
  defines "s1 \<equiv> s\<lparr>waiters := (waiters s)(cur \<mapsto> \<lparr>pid_n = k, next_n = NULL\<rparr>)\<rparr>"
  shows "\<exists>y wt. enqueueWaiter sem cur s1 = Some (s\<lparr>sems := (sems s)(sem \<mapsto> y), waiters := wt\<rparr>) \<and>
    sem_value y = sem_value x \<and> sem_name y = sem_name x \<and>
    lpath (\<lambda>a. map_option next_n (wt a)) (entering y) (ws @ [cur]) NULL \<and> sem_last y = cur \<and>
    map (\<lambda>w. pid_n (the (wt w))) (ws @ [cur]) = squeue s ws @ [k] \<and>
    (\<forall>w. w \<notin> set ws \<longrightarrow> w \<noteq> cur \<longrightarrow> wt w = waiters s w)"
proof -
  define z where "z = last ws"
  define wt where "wt = (if ws = [] then waiters s1 else (waiters s1)(z \<mapsto> (the (waiters s z))\<lparr>next_n := cur\<rparr>))"
  define y where "y = x\<lparr>entering := (if ws = [] then cur else entering x), sem_last := cur\<rparr>"
  have nn: "NULL \<notin> set ws" and d: "distinct ws" using lpath_nonnull [OF x(3)] lpath_distinct [OF x(3)] .
  have e0: "entering x = NULL \<longleftrightarrow> ws = []" using lpath_hd0 [OF x(3)] nn by (cases ws) auto
  have z: "z \<in> set ws" "z \<noteq> NULL" "z \<noteq> cur" if "ws \<noteq> []"
    using that last_in_set [OF that] nn c(2) unfolding z_def by metis+
  have dom: "\<exists>q. waiters s w = Some q" if "w \<in> set ws" for w using lpath_dom [OF x(3) that] by auto
  have l0: "last0 ws = (if ws = [] then NULL else z)" by (simp add: last0_def z_def)
  have run: "enqueueWaiter sem cur s1 = Some (s\<lparr>sems := (sems s)(sem \<mapsto> y), waiters := wt\<rparr>)"
  proof (cases "ws = []")
    case True
    then show ?thesis using x e0 l0 by (simp add: enqueueWaiter_def modSem_def s1_def y_def wt_def)
  next
    case False
    then obtain q where "waiters s z = Some q" using dom z(1) by blast
    then show ?thesis using False x e0 l0 z
      by (simp add: enqueueWaiter_def modSem_def modWaiter_def s1_def y_def wt_def)
  qed
  have wz: "wt w = (if w = cur then Some \<lparr>pid_n = k, next_n = NULL\<rparr>
      else if ws \<noteq> [] \<and> w = z then Some ((the (waiters s z))\<lparr>next_n := cur\<rparr>) else waiters s w)" for w
    using z by (auto simp: wt_def s1_def)
  have "lpath (\<lambda>a. map_option next_n (wt a)) (if ws = [] then cur else entering x) (ws @ [cur]) NULL"
    by (rule lpath_append_last [OF x(3) c]) (use c(2) in \<open>auto simp: wz z_def\<close>)
  then have "lpath (\<lambda>a. map_option next_n (wt a)) (entering y) (ws @ [cur]) NULL" by (simp add: y_def)
  moreover have "map (\<lambda>w. pid_n (the (wt w))) (ws @ [cur]) = squeue s ws @ [k]"
    using c(2) by (auto simp: wz squeue_def)
  moreover have "wt w = waiters s w" if "w \<notin> set ws" "w \<noteq> cur" for w using that z by (auto simp: wz)
  moreover have "sem_value y = sem_value x" "sem_last y = cur" "sem_name y = sem_name x" by (simp_all add: y_def)
  ultimately show ?thesis using run by (intro exI [of _ y] exI [of _ wt]) auto
qed

text \<open>What an operation on a semaphore leaves alone: the other semaphores, their queues, and foreign memory.\<close>

definition others_alone :: "addr \<Rightarrow> addr list \<Rightarrow> sem_state \<Rightarrow> sem_state \<Rightarrow> bool" where
  "others_alone sem ws s t \<longleftrightarrow> (\<forall>x. x \<noteq> sem \<longrightarrow> sems t x = sems s x) \<and> semNodes t = semNodes s \<and> firstSem t = firstSem s \<and>
     semCounter t = semCounter s \<and> (\<forall>w. w \<notin> set ws \<longrightarrow> foreign (sch s) w \<longrightarrow> waiters t w = waiters s w) \<and>
     (\<forall>p. p \<notin> set ws \<longrightarrow> foreign (sch s) p \<longrightarrow> foreign (sch t) p) \<and> ram (sch t) = ram (sch s)"

lemma semWait_block:
  assumes at: "sem_at s sem 0 ws" and rd: "ready s ps ss" and room: "room_for (16 # ns) (mm (sch s))"
    and k: "getPid (sch s) = Some k" "k \<noteq> IDLE_PID" "k \<notin> sleepers (sch s)"
  defines "c \<equiv> currentProcess (sch s)"
  shows "\<exists>t cur qs us. semWait sem s = Some t \<and> sem_at t sem 0 (ws @ [cur]) \<and> squeue t (ws @ [cur]) = squeue s ws @ [k] \<and>
    ready t qs us \<and> set qs \<subseteq> set ps \<and> others_alone sem ws s t \<and> sleepers (sch t) \<subseteq> sleepers (sch s) \<and>
    c \<in> set qs \<and> currentProcess (sch t) \<noteq> c \<and> pid (P (sch t) c) = k \<and> state (P (sch t) c) = BLOCKED \<and>
    rsp (P (sch t) c) = cpu_rsp (sch s) \<and> conts t = (conts s)(k \<mapsto> AfterBlock sem) \<and>
    (\<exists>m p. malloc_s 16 (sch s) = Some (p, (sch s)\<lparr>mm := m\<rparr>) \<and> runs ((sch s)\<lparr>mm := m\<rparr>) ps ss \<and>
       block k ((sch s)\<lparr>mm := m\<rparr>) = Some (EXIT_SUCCESS, sch t))"
proof -
  have r: "runs (sch s) ps ss" and td: "tidy (sch s)" and l0: "semLock s = 0" using rd by (auto simp: ready_def)
  obtain x where x: "sem \<noteq> NULL" "sems s sem = Some x" "sem_value x = 0" "lpath (nxt_w s) (entering x) ws NULL" "sem_last x = last0 ws"
    "\<And>w. w \<in> set ws \<Longrightarrow> foreign (sch s) w" by (rule sem_atE [OF at]) blast
  have mmok: "mm_ok (mm (sch s))" using base_mm [OF sched_base [OF runs_inv [OF r]]] .
  obtain cur m where m: "malloc_s 16 (sch s) = Some (cur, (sch s)\<lparr>mm := m\<rparr>)" "mm_ok m" "cur \<noteq> NULL" "payload (mm (sch s)) cur = None"
    "payload m cur \<noteq> None" "\<And>q. payload (mm (sch s)) q \<noteq> None \<Longrightarrow> payload m q \<noteq> None"
    by (rule malloc_s_room [OF mmok room]) auto
  define c1 where "c1 = (sch s)\<lparr>mm := m\<rparr>"
  have fc: "foreign c1 cur" using foreign_new [OF td m(3,4,5)] by (simp add: c1_def)
  have fo: "foreign c1 p" if "foreign (sch s) p" for p using that m(6) by (simp add: foreign_def c1_def del: not_None_eq)
  have r1: "runs c1 ps ss" using runs_mm [OF r m(2,6)] by (simp add: c1_def)
  have td1: "tidy c1" by (rule tidy_grow [OF td]) (use m(6) in \<open>simp_all add: c1_def\<close>)
  have nw: "cur \<notin> set ws" using x(6) [of cur] m(4) by (auto simp: foreign_def)
  define s1 where "s1 = s\<lparr>sch := c1\<rparr>"
  have "sems s1 sem = Some x" "lpath (nxt_w s1) (entering x) ws NULL" using x by (simp_all add: s1_def)
  from enqueueWaiter_spec [OF x(1) this x(5) m(3) nw, of k] obtain y wt where
    y: "enqueueWaiter sem cur (s1\<lparr>waiters := (waiters s1)(cur \<mapsto> \<lparr>pid_n = k, next_n = NULL\<rparr>)\<rparr>) = Some (s1\<lparr>sems := (sems s1)(sem \<mapsto> y), waiters := wt\<rparr>)"
      "sem_value y = sem_value x" "lpath (\<lambda>a. map_option next_n (wt a)) (entering y) (ws @ [cur]) NULL" "sem_last y = cur"
      "map (\<lambda>w. pid_n (the (wt w))) (ws @ [cur]) = squeue s1 ws @ [k]" "\<forall>w. w \<notin> set ws \<longrightarrow> w \<noteq> cur \<longrightarrow> wt w = waiters s1 w" by blast
  have "getPid c1 = getPid (sch s)" by (simp add: getPid_def c1_def)
  then have k1: "getPid c1 = Some k" using k(1) by simp
  have cp: "currentProcess c1 = c" "pid (P c1 c) = k" using getPid_runs [OF r1] k1 by (simp_all add: c1_def c_def)
  have ks: "k \<notin> sleepers c1" using k(3) by (simp add: sleepers_def c1_def)
  from block_self [OF r1 cp(1) [symmetric] cp(2) k(2) ks] obtain d qs us where
    d: "block k c1 = Some (EXIT_SUCCESS, d)" "runs d qs us" "set qs \<subseteq> set ps" "others_kept c1 d" "ram d = ram c1" "sleepers d \<subseteq> sleepers c1"
      "c \<in> set qs" "currentProcess d \<noteq> c" "pid (P d c) = k" "rsp (P d c) = cpu_rsp c1" "state (P d c) = BLOCKED" by blast
  define t where "t = s\<lparr>sch := d, sems := (sems s)(sem \<mapsto> y), waiters := wt, conts := (conts s)(k \<mapsto> AfterBlock sem)\<rparr>"
  have run: "semWait sem s = Some t"
    using x(1-3) l0 m(1,3) k1 y(1) d(1)
    by (simp add: semWait_def enter_region_def leave_region_def malloc_m_def c1_def s1_def t_def)
  have fd: "foreign d p" if "foreign c1 p" for p using foreign_kept [OF that d(4)] .
  have "sem_at t sem 0 (ws @ [cur])"
    using x(1,3,6) y(2-4) fc fo fd by (auto simp: sem_at_def t_def)
  moreover have "squeue t (ws @ [cur]) = squeue s ws @ [k]" using y(5) by (simp add: squeue_def t_def s1_def)
  moreover have "ready t qs us" using d(2) tidy_kept [OF td1 d(4)] l0 by (simp add: ready_def t_def)
  moreover have "waiters t w = waiters s w" if "w \<notin> set ws" "foreign (sch s) w" for w
  proof -
    have "w \<noteq> cur" using that(2) m(4) by (auto simp: foreign_def)
    then show ?thesis using that(1) y(6) by (simp add: t_def s1_def)
  qed
  then have "others_alone sem ws s t"
    using fo fd d(5) by (simp add: others_alone_def t_def c1_def)
  moreover have "sleepers (sch t) \<subseteq> sleepers (sch s)" using d(6) by (simp add: t_def c1_def sleepers_def)
  moreover have "\<exists>m p. malloc_s 16 (sch s) = Some (p, (sch s)\<lparr>mm := m\<rparr>) \<and> runs ((sch s)\<lparr>mm := m\<rparr>) ps ss \<and>
      block k ((sch s)\<lparr>mm := m\<rparr>) = Some (EXIT_SUCCESS, sch t)"
    using m(1) r1 d(1) by (auto simp: c1_def t_def)
  ultimately show ?thesis using run d(3,7-11)
    by (intro exI [of _ t] exI [of _ cur] exI [of _ qs] exI [of _ us]) (simp add: t_def c1_def)
qed

section \<open>Posting\<close>

lemma semPost_free:
  assumes "sem_at s sem v []" "semLock s = 0"
  shows "\<exists>x. sems s sem = Some x \<and> semPost sem s = Some (s\<lparr>sems := (sems s)(sem \<mapsto> x\<lparr>sem_value := v + 1\<rparr>)\<rparr>)"
proof -
  obtain x where x: "sem \<noteq> NULL" "sems s sem = Some x" "sem_value x = v" "lpath (nxt_w s) (entering x) [] NULL"
    by (rule sem_atE [OF assms(1)])
  with assms(2) show ?thesis
    by (simp add: semPost_def enter_region_def leave_region_def modSem_def)
qed

text \<open>With a waiting process, \<open>semPost\<close> takes it from the queue and hands the processor over to it.\<close>

lemma semPost_handoff:
  assumes at: "sem_at s sem v (w # ws)" and rd: "ready s ps ss"
    and k: "getPid (sch s) = Some k"
    and a: "a \<in> set ps" "a \<noteq> currentProcess (sch s)" "pid (P (sch s) a) = pid_n (the (waiters s w))" "state (P (sch s) a) \<noteq> DEAD"
  defines "c \<equiv> currentProcess (sch s)"
  shows "\<exists>t qs us. semPost sem s = Some t \<and> sem_at t sem (v + 1) ws \<and> squeue t ws = squeue s ws \<and>
    ready t qs us \<and> set qs = set ps \<and> others_alone sem (w # ws) s t \<and> sleepers (sch t) \<subseteq> sleepers (sch s) \<and>
    currentProcess (sch t) = a \<and> (\<forall>x \<in> set ps. pid (P (sch t) x) = pid (P (sch s) x)) \<and>
    rsp (P (sch t) c) = cpu_rsp (sch s) \<and> foreign (sch t) w \<and> waiters t = waiters s \<and>
    conts t = (conts s)(k \<mapsto> AfterUnblock w)"
proof -
  have r: "runs (sch s) ps ss" and td: "tidy (sch s)" and l0: "semLock s = 0" using rd by (auto simp: ready_def)
  obtain x where x: "sem \<noteq> NULL" "sems s sem = Some x" "sem_value x = v" "lpath (nxt_w s) (entering x) (w # ws) NULL" "sem_last x = last0 (w # ws)"
    "\<And>u. u \<in> set (w # ws) \<Longrightarrow> foreign (sch s) u" by (rule sem_atE [OF at]) blast
  obtain q where q: "waiters s w = Some q" "lpath (nxt_w s) (next_n q) ws NULL" and ew: "entering x = w" "w \<noteq> NULL" using x(4) by auto
  have nq: "next_n q = NULL \<longleftrightarrow> ws = []" using lpath_hd0 [OF q(2)] lpath_nonnull [OF q(2)] by (cases ws) auto
  define y where "y = x\<lparr>sem_value := v + 1, entering := next_n q, sem_last := (if ws = [] then NULL else sem_last x)\<rparr>"
  have la: "sem_last y = last0 ws" using x(5) by (cases ws rule: rev_cases) (auto simp: y_def last0_def)
  have pq: "pid_n q = pid (P (sch s) a)" using a(3) q(1) by simp
  from unblockFirst_handoff [OF runs_inv [OF r] refl runs_in [OF r] runs_ready [OF r] a(1,2) pq [symmetric] a(4)] obtain d qs us where
    d: "unblockFirst (pid_n q) (sch s) = Some (EXIT_SUCCESS, d)" "runs d qs us" "set qs = set ps" "currentProcess d = a"
      "rsp (P d c) = cpu_rsp (sch s)" "others_kept (sch s) d" "ram d = ram (sch s)" "sleepers d \<subseteq> sleepers (sch s)"
      "\<forall>x \<in> set ps. pid (P d x) = pid (P (sch s) x)" unfolding c_def by blast
  define t where "t = s\<lparr>sch := d, sems := (sems s)(sem \<mapsto> y), conts := (conts s)(k \<mapsto> AfterUnblock w)\<rparr>"
  have run: "semPost sem s = Some t"
    using x(1-3) l0 ew q(1) nq k d(1)
    by (simp add: semPost_def enter_region_def leave_region_def modSem_def t_def y_def)
  have fd: "foreign d p" if "foreign (sch s) p" for p using foreign_kept [OF that d(6)] .
  have "sem_at t sem (v + 1) ws" using x(1,6) q(2) la fd by (auto simp: sem_at_def t_def y_def)
  moreover have "squeue t ws = squeue s ws" by (simp add: squeue_def t_def)
  moreover have "ready t qs us" using d(2) tidy_kept [OF td d(6)] l0 by (simp add: ready_def t_def)
  moreover have "others_alone sem (w # ws) s t" using fd d(7) by (simp add: others_alone_def t_def)
  moreover have "foreign (sch t) w" using fd x(6) by (simp add: t_def)
  ultimately show ?thesis using run d(3-5,8,9)
    by (intro exI [of _ t] exI [of _ qs] exI [of _ us]) (simp add: t_def)
qed

section \<open>Going on\<close>

lemma finishWait_spec:
  assumes "sem_at s sem v ws" "semLock s = 0"
  shows "\<exists>x. sems s sem = Some x \<and> finishWait sem s = Some (s\<lparr>sems := (sems s)(sem \<mapsto> x\<lparr>sem_value := v - 1\<rparr>)\<rparr>)"
proof -
  obtain x where x: "sem \<noteq> NULL" "sems s sem = Some x" "sem_value x = v" by (rule sem_atE [OF assms(1)])
  with assms(2) show ?thesis by (simp add: finishWait_def enter_region_def leave_region_def modSem_def)
qed

lemma sem_at_value:
  assumes "sem_at s sem v ws" "sems s sem = Some x"
  shows "sem_at (s\<lparr>sems := (sems s)(sem \<mapsto> x\<lparr>sem_value := v'\<rparr>)\<rparr>) sem v' ws"
    and "squeue (s\<lparr>sems := (sems s)(sem \<mapsto> x\<lparr>sem_value := v'\<rparr>)\<rparr>) ws = squeue s ws"
  using assms by (auto simp: sem_at_def squeue_def)

lemma finishPost_spec:
  assumes f: "foreign (sch s) w" and rd: "ready s ps ss" and w: "w \<notin> set (owned (sch s) ps ss)"
  shows "\<exists>t. finishPost w s = Some t \<and> ready t ps ss \<and> waiters t = (waiters s)(w := None) \<and> sems t = sems s \<and>
    payload (mm (sch t)) = (payload (mm (sch s)))(w := None) \<and> conts t = conts s \<and>
    currentProcess (sch t) = currentProcess (sch s)"
proof -
  have r: "runs (sch s) ps ss" and td: "tidy (sch s)" and l0: "semLock s = 0" using rd by (auto simp: ready_def)
  note b = sched_base [OF runs_inv [OF r]]
  obtain m where m: "free_s w (sch s) = Some ((sch s)\<lparr>mm := m\<rparr>)" "mm_ok m" "payload m = (payload (mm (sch s)))(w := None)"
    using free_s_live [OF base_mm [OF b], of w] f by (auto simp: foreign_def)
  define t where "t = s\<lparr>sch := (sch s)\<lparr>mm := m\<rparr>, waiters := (waiters s)(w := None)\<rparr>"
  have run: "finishPost w s = Some t"
    using m(1) l0 by (simp add: finishPost_def free_m_def enter_region_def leave_region_def t_def)
  have "list_inv ((sch s)\<lparr>mm := m\<rparr>) ps ss"
    using b w m(2,3) unfolding base_inv_def list_inv_def owned_def by auto
  then have "runs ((sch s)\<lparr>mm := m\<rparr>) ps ss" using r by (simp add: runs_def sched_inv_def base_inv_def)
  moreover have "tidy ((sch s)\<lparr>mm := m\<rparr>)" using td f m(3) unfolding tidy_def foreign_def by simp
  ultimately have "ready t ps ss" using l0 by (simp add: ready_def t_def)
  with run show ?thesis by (intro exI [of _ t]) (simp add: t_def m(3))
qed

section \<open>The interface\<close>

definition semVal :: "sem_state \<Rightarrow> addr \<Rightarrow> u32 option" where
  "semVal s a = (case sems s a of
     Some x \<Rightarrow> if a \<noteq> NULL \<and> entering x = NULL \<and> sem_last x = NULL \<and> semLock s = 0 then Some (sem_value x) else None
   | None \<Rightarrow> None)"

definition semUpd :: "addr \<Rightarrow> u32 \<Rightarrow> sem_state \<Rightarrow> sem_state" where
  "semUpd a v s = (case sems s a of Some x \<Rightarrow> s\<lparr>sems := (sems s)(a \<mapsto> x\<lparr>sem_value := v\<rparr>)\<rparr> | None \<Rightarrow> s)"

lemma semVal_at: "semVal s a = Some v \<longleftrightarrow> sem_at s a v [] \<and> semLock s = 0"
  by (auto simp: semVal_def sem_at_def split: option.splits if_splits)

lemma semUpd_simps [simp]:
  "sch (semUpd a v s) = sch s" "conts (semUpd a v s) = conts s" "waiters (semUpd a v s) = waiters s"
  "semLock (semUpd a v s) = semLock s" "semNodes (semUpd a v s) = semNodes s" "firstSem (semUpd a v s) = firstSem s"
  by (simp_all add: semUpd_def split: option.split)

interpretation ksem: semaphore semWait semPost semVal semUpd
proof
  fix s :: sem_state and a v w b x
  assume v: "semVal s a = Some v"
  then obtain y where y: "sems s a = Some y" "sem_value y = v" "a \<noteq> NULL" by (auto simp: semVal_at sem_at_def)
  have at: "sem_at s a v []" "semLock s = 0" using v by (simp_all add: semVal_at)
  show "semWait a s = Some (semUpd a (v - 1) s)" if "0 < v"
    using semWait_free [OF at(1) that at(2)] y by (auto simp: semUpd_def)
  show "semPost a s = Some (semUpd a (v + 1) s)" using semPost_free [OF at] y by (auto simp: semUpd_def)
  show "semVal (semUpd a w s) b = (if b = a then Some w else semVal s b)"
    using v y by (auto simp: semVal_def semUpd_def split: option.splits if_splits)
  show "semUpd a x (semUpd a w s) = semUpd a x s" using y by (simp add: semUpd_def)
  show "semUpd a v s = s" using y by (cases s; cases y) (auto simp: semUpd_def fun_upd_idem)
qed

section \<open>Finding a semaphore by name\<close>

abbreviation nxt_n :: "sem_state \<Rightarrow> addr \<rightharpoonup> addr" where
  "nxt_n s \<equiv> \<lambda>a. map_option node_next (semNodes s a)"

definition node_named :: "sem_state \<Rightarrow> addr \<Rightarrow> u8 list \<Rightarrow> bool" where
  "node_named s n str \<longleftrightarrow> (\<exists>nd x. semNodes s n = Some nd \<and> sems s (node_sem nd) = Some x \<and> cstr (ram (sch s)) (sem_name x) str)"

lemma searchSemLoop_spec:
  assumes "lpath (nxt_n s) cur ns NULL" "cstr (ram (sch s)) nm key" "\<And>n. n \<in> set ns \<Longrightarrow> node_named s n (name_of n)"
  shows "searchSemLoop nm s cur = Some (case find (\<lambda>n. name_of n = key) ns of None \<Rightarrow> NULL | Some n \<Rightarrow> n)"
  using assms
proof (induction ns arbitrary: cur)
  case Nil
  then show ?case by (simp add: searchSemLoop.simps)
next
  case (Cons n ns)
  have n: "cur = n" "n \<noteq> NULL" using Cons.prems(1) by auto
  obtain nd x where nx: "semNodes s n = Some nd" "sems s (node_sem nd) = Some x" "cstr (ram (sch s)) (sem_name x) (name_of n)"
    using Cons.prems(3) [of n] by (auto simp: node_named_def)
  obtain r where r: "strcmp (ram (sch s)) nm (sem_name x) = Some r" "r = 0 \<longleftrightarrow> key = name_of n"
    using strcmp_result [OF Cons.prems(2) nx(3)] by blast
  have "lpath (nxt_n s) (node_next nd) ns NULL" using Cons.prems(1) nx(1) by auto
  from Cons.IH [OF this Cons.prems(2)] Cons.prems(3) n nx r show ?case
    by (subst searchSemLoop.simps) auto
qed

section \<open>Properties\<close>

text \<open>The abstract semaphore: a value and the identifiers of the waiting processes, in order.\<close>

definition aWait :: "int \<Rightarrow> u32 \<times> int list \<Rightarrow> u32 \<times> int list" where
  "aWait k = (\<lambda>(v, q). if v > 0 then (v - 1, q) else (v, q @ [k]))"

definition aPost :: "u32 \<times> int list \<Rightarrow> u32 \<times> int list" where
  "aPost = (\<lambda>(v, q). (v + 1, tl q))"

definition sem_abs :: "sem_state \<Rightarrow> addr \<Rightarrow> u32 \<times> int list \<Rightarrow> bool" where
  "sem_abs s sem a \<longleftrightarrow> (\<exists>ws. sem_at s sem (fst a) ws \<and> squeue s ws = snd a)"

lemma ready_sems [simp]: "ready (s\<lparr>sems := f\<rparr>) ps ss = ready s ps ss"
  by (simp add: ready_def)

text \<open>C8: \<open>semWait\<close> implements the abstract wait: with a positive value it takes one and goes on,
  with value 0 it appends the caller to the queue and another process runs; it always returns.\<close>

theorem sem_wait_refines:
  assumes "sem_abs s sem a" and "ready s ps ss" and "room_for [16] (mm (sch s))"
    and "getPid (sch s) = Some k" "k \<noteq> IDLE_PID" "k \<notin> sleepers (sch s)"
  shows "\<exists>t qs us. semWait sem s = Some t \<and> sem_abs t sem (aWait k a) \<and> ready t qs us \<and>
    (fst a = 0 \<longrightarrow> currentProcess (sch t) \<noteq> currentProcess (sch s) \<and>
       state (P (sch t) (currentProcess (sch s))) = BLOCKED \<and> conts t k = Some (AfterBlock sem))"
proof -
  obtain v q where a: "a = (v, q)" by (cases a)
  obtain ws where at: "sem_at s sem v ws" "squeue s ws = q" using assms(1) a by (auto simp: sem_abs_def)
  have l0: "semLock s = 0" using assms(2) by (simp add: ready_def)
  show ?thesis
  proof (cases "v = 0")
    case True
    from semWait_block [OF at(1) [unfolded True] assms(2-6)] at(2) a True show ?thesis
      unfolding aWait_def sem_abs_def by fastforce
  next
    case False
    then have v: "0 < v" by (simp add: word_gt_0)
    from semWait_free [OF at(1) v l0] obtain x where
      x: "sems s sem = Some x" "semWait sem s = Some (s\<lparr>sems := (sems s)(sem \<mapsto> x\<lparr>sem_value := v - 1\<rparr>)\<rparr>)" by blast
    have "sem_abs (s\<lparr>sems := (sems s)(sem \<mapsto> x\<lparr>sem_value := v - 1\<rparr>)\<rparr>) sem (aWait k a)"
      using sem_at_value [OF at(1) x(1), of "v - 1"] at(2) a v by (auto simp: aWait_def sem_abs_def)
    then show ?thesis using x(2) assms(2) False a
      by (intro exI [of _ "s\<lparr>sems := (sems s)(sem \<mapsto> x\<lparr>sem_value := v - 1\<rparr>)\<rparr>"] exI [of _ ps] exI [of _ ss]) simp
  qed
qed

text \<open>A concrete system for the witnesses: the booted kernel with one semaphore at address 8.\<close>

definition sem_sample :: "sem_state \<Rightarrow> u32 \<Rightarrow> addr \<Rightarrow> addr \<Rightarrow> bool" where
  "sem_sample s v i a \<longleftrightarrow> (\<exists>c. sample c i a \<and> s = \<lparr>sch = c,
     sems = [8 \<mapsto> \<lparr>sem_value = v, sem_name = 0, entering = NULL, sem_last = NULL\<rparr>],
     semNodes = Map.empty, waiters = Map.empty, firstSem = NULL, semCounter = 0, semLock = 0, conts = Map.empty\<rparr>)"

lemma sem_sample_ex: obtains s i a where "sem_sample s v i a"
proof (rule sample)
  fix c i a
  assume "sample c i a"
  then show ?thesis using that unfolding sem_sample_def by blast
qed

lemma room_for_less:
  assumes "room_for ns m" "sum_list (map adjustWantedSize ms) \<le> sum_list (map adjustWantedSize ns)" shows "room_for ms m"
  using assms unfolding room_for_def room_def by (meson add_le_mono1 le_trans)

lemma sem_sampleD:
  assumes "sem_sample s v i a"
  shows "sem_at s 8 v []" "ready s [i, a] []" "room_for [16, 16] (mm (sch s))" "getPid (sch s) = Some 2" "sleepers (sch s) = {}"
    "squeue s [] = []" "pid (P (sch s) i) = IDLE_PID" "pid (P (sch s) a) = 2" "i \<noteq> a" "currentProcess (sch s) = a" "conts s = Map.empty"
proof -
  obtain c where c: "sample c i a" and s: "sch s = c" "sems s = [8 \<mapsto> \<lparr>sem_value = v, sem_name = 0, entering = NULL, sem_last = NULL\<rparr>]"
    "semLock s = 0" "conts s = Map.empty" using assms by (auto simp: sem_sample_def)
  note r = sample_runs [OF c]
  show "sem_at s 8 v []" "ready s [i, a] []" "sleepers (sch s) = {}" "squeue s [] = []" "pid (P (sch s) i) = IDLE_PID"
    "pid (P (sch s) a) = 2" "i \<noteq> a" "currentProcess (sch s) = a" "conts s = Map.empty"
    using c s r by (auto simp: sem_at_def ready_def squeue_def sample_def)
  show "getPid (sch s) = Some 2" using getPid_runs [OF r] c s by (simp add: sample_def)
  have "adjustWantedSize 16 = 32" "adjustWantedSize 524288 = 524304"
    by (simp_all add: adjustWantedSize_def and_mask7 Let_def)
  then show "room_for [16, 16] (mm (sch s))" unfolding s(1) by (intro room_for_less [OF sample_room [OF c]]) simp
qed

lemma sem_sample_room: "sem_sample s v i a \<Longrightarrow> room_for [16] (mm (sch s))"
  by (rule room_for_less [OF sem_sampleD(3)]) auto

theorem sem_wait_refines_witness:
  "\<exists>s i a t. sem_sample s 0 i a \<and> semWait 8 s = Some t \<and> sem_abs t 8 (0, [2])"
proof (rule sem_sample_ex [of 0])
  fix s i a
  assume s: "sem_sample s 0 i a"
  note d = sem_sampleD [OF s]
  have "sem_abs s 8 (0, [])" using d(1,6) by (auto simp: sem_abs_def)
  from sem_wait_refines [OF this d(2) sem_sample_room [OF s] d(4)] d(5) s show ?thesis by (auto simp: aWait_def)
qed

text \<open>C9: \<open>semPost\<close> implements the abstract post: it adds one to the value, and if processes wait, it
  takes the one that has waited longest from the queue and that process runs next.\<close>

theorem sem_post_refines:
  assumes "sem_abs s sem (v, q)" and "ready s ps ss" and "getPid (sch s) = Some k"
    and "q \<noteq> [] \<longrightarrow> a \<in> set ps \<and> a \<noteq> currentProcess (sch s) \<and> pid (P (sch s) a) = hd q \<and> state (P (sch s) a) \<noteq> DEAD"
  shows "\<exists>t qs us. semPost sem s = Some t \<and> sem_abs t sem (aPost (v, q)) \<and> ready t qs us \<and> set qs = set ps \<and>
    currentProcess (sch t) = (if q = [] then currentProcess (sch s) else a)"
proof -
  obtain ws where at: "sem_at s sem v ws" "squeue s ws = q" using assms(1) by (auto simp: sem_abs_def)
  have l0: "semLock s = 0" using assms(2) by (simp add: ready_def)
  show ?thesis
  proof (cases ws)
    case Nil
    then have q: "q = []" using at(2) by (simp add: squeue_def)
    from semPost_free [OF at(1) [unfolded Nil] l0] obtain x where
      x: "sems s sem = Some x" "semPost sem s = Some (s\<lparr>sems := (sems s)(sem \<mapsto> x\<lparr>sem_value := v + 1\<rparr>)\<rparr>)" by blast
    have "sem_abs (s\<lparr>sems := (sems s)(sem \<mapsto> x\<lparr>sem_value := v + 1\<rparr>)\<rparr>) sem (aPost (v, q))"
      using sem_at_value [OF at(1) x(1), of "v + 1"] at(2) q by (auto simp: aPost_def sem_abs_def)
    then show ?thesis using x(2) assms(2) q
      by (intro exI [of _ "s\<lparr>sems := (sems s)(sem \<mapsto> x\<lparr>sem_value := v + 1\<rparr>)\<rparr>"] exI [of _ ps] exI [of _ ss]) simp
  next
    case (Cons w us)
    then have q: "q \<noteq> []" "hd q = pid_n (the (waiters s w))" "squeue s us = tl q" using at(2) by (auto simp: squeue_def)
    from semPost_handoff [OF at(1) [unfolded Cons] assms(2,3), of a] assms(4) q show ?thesis
      unfolding aPost_def sem_abs_def by fastforce
  qed
qed

theorem sem_post_refines_witness:
  "\<exists>s i a t. sem_sample s 3 i a \<and> semPost 8 s = Some t \<and> sem_abs t 8 (4, [])"
proof (rule sem_sample_ex [of 3])
  fix s i a
  assume s: "sem_sample s 3 i a"
  note d = sem_sampleD [OF s]
  have "sem_abs s 8 (3, [])" using d(1,6) by (auto simp: sem_abs_def)
  from sem_post_refines [OF this d(2,4)] s show ?thesis by (auto simp: aPost_def)
qed

text \<open>C10: the hand-over is complete. When a process posts while others wait, the one that has waited
  longest runs, goes on behind its \<open>block\<close>, and then the value is what it was before the post and
  the queue has lost its head: no unit is lost and none is created.\<close>

theorem sem_handover:
  assumes "sem_abs s sem (v, p # q)" and "ready s ps ss" and "getPid (sch s) = Some k"
    and "a \<in> set ps" "a \<noteq> currentProcess (sch s)" "pid (P (sch s) a) = p" "state (P (sch s) a) \<noteq> DEAD"
    and "conts s p = Some (AfterBlock sem)"
  shows "\<exists>t u. semPost sem s = Some t \<and> resume t = Some u \<and> sem_abs u sem (v, q) \<and>
    getPid (sch u) = Some p \<and> conts u p = None"
proof -
  obtain w ws where at: "sem_at s sem v (w # ws)" "pid_n (the (waiters s w)) = p" "squeue s ws = q"
    using assms(1) by (auto simp: sem_abs_def squeue_def)
  have pa: "pid (P (sch s) a) = pid_n (the (waiters s w))" using assms(6) at(2) by simp
  from semPost_handoff [OF at(1) assms(2-5) pa assms(7)] obtain t qs us where
    t: "semPost sem s = Some t" "sem_at t sem (v + 1) ws" "squeue t ws = squeue s ws" "ready t qs us"
      "currentProcess (sch t) = a" "\<forall>x \<in> set ps. pid (P (sch t) x) = pid (P (sch s) x)" "conts t = (conts s)(k \<mapsto> AfterUnblock w)"
    by blast
  have r: "runs (sch t) qs us" and l0: "semLock t = 0" using t(4) by (auto simp: ready_def)
  have gp: "getPid (sch t) = Some p" using getPid_runs [OF r] t(5,6) assms(4,6) by simp
  have "k \<noteq> p"
  proof -
    have rs: "runs (sch s) ps ss" using assms(2) by (simp add: ready_def)
    have "k = pid (P (sch s) (currentProcess (sch s)))" using getPid_runs [OF rs] assms(3) by simp
    then show ?thesis using pid_eq_iff [OF sched_base [OF runs_inv [OF rs]] runs_in [OF rs] assms(4)] assms(5,6) by auto
  qed
  then have ct: "conts t p = Some (AfterBlock sem)" using t(7) assms(8) by simp
  let ?t = "t\<lparr>conts := (conts t)(p := None)\<rparr>"
  have at': "sem_at ?t sem (v + 1) ws" "squeue ?t ws = q" using t(2,3) at(3) by (auto simp: sem_at_def squeue_def)
  from finishWait_spec [OF at'(1)] l0 obtain x where
    x: "sems ?t sem = Some x" "finishWait sem ?t = Some (?t\<lparr>sems := (sems ?t)(sem \<mapsto> x\<lparr>sem_value := v\<rparr>)\<rparr>)" by auto
  have "resume t = Some (?t\<lparr>sems := (sems ?t)(sem \<mapsto> x\<lparr>sem_value := v\<rparr>)\<rparr>)" using gp ct x(2) by (simp add: resume_def)
  moreover have "sem_abs (?t\<lparr>sems := (sems ?t)(sem \<mapsto> x\<lparr>sem_value := v\<rparr>)\<rparr>) sem (v, q)"
    using sem_at_value [OF at'(1) x(1), of v] at'(2) unfolding sem_abs_def by auto
  ultimately show ?thesis using t(1) gp by auto
qed

text \<open>A system in which process 2 waits for the semaphore at address 8 and the idle process runs.\<close>

lemma waiting_sample:
  obtains s t i a qs us where "sem_sample s 0 i a" "semWait 8 s = Some t" "sem_abs t 8 (0, [2])" "ready t qs us" "a \<in> set qs"
    "a \<noteq> currentProcess (sch t)" "pid (P (sch t) a) = 2" "state (P (sch t) a) \<noteq> DEAD" "conts t 2 = Some (AfterBlock 8)"
proof (rule sem_sample_ex [of 0])
  fix s i a
  assume s: "sem_sample s 0 i a"
  note d = sem_sampleD [OF s]
  from semWait_block [OF d(1,2) sem_sample_room [OF s] d(4)] d(5,6,10,11) obtain t cur qs us where
    "semWait 8 s = Some t" "sem_at t 8 0 [cur]" "squeue t [cur] = [2]" "ready t qs us" "a \<in> set qs" "currentProcess (sch t) \<noteq> a"
    "pid (P (sch t) a) = 2" "state (P (sch t) a) = BLOCKED" "conts t = [2 \<mapsto> AfterBlock 8]" by auto
  then show ?thesis using s by (intro that [of s i a t qs us]) (auto simp: sem_abs_def)
qed

theorem sem_handover_witness:
  "\<exists>s t u. semWait 8 s = Some t \<and> semPost 8 t = Some u \<and> (\<exists>v. resume u = Some v \<and> sem_abs v 8 (0, []) \<and> getPid (sch v) = Some 2)"
proof (rule waiting_sample)
  fix s t i a qs us
  assume t: "semWait 8 s = Some t" "sem_abs t 8 (0, [2])" "ready t qs us" "a \<in> set qs"
    "a \<noteq> currentProcess (sch t)" "pid (P (sch t) a) = 2" "state (P (sch t) a) \<noteq> DEAD" "conts t 2 = Some (AfterBlock 8)"
  obtain k where "getPid (sch t) = Some k" using getPid_runs t(3) by (auto simp: ready_def)
  from sem_handover [OF t(2,3) this t(4-8)] t(1) show ?thesis by blast
qed

text \<open>opening a semaphore by the name of one that exists returns that one and changes nothing, the
  value given included; names are compared in the order of the list.\<close>

theorem sem_open_existing:
  assumes "lpath (nxt_n s) (firstSem s) ns NULL" and "\<forall>n \<in> set ns. node_named s n (name_of n)"
    and "cstr (ram (sch s)) nm key" and "find (\<lambda>n. name_of n = key) ns = Some n" and "semLock s = 0"
  shows "\<exists>nd. semNodes s n = Some nd \<and> semOpen nm v s = Some (node_sem nd, s)"
proof -
  have n: "n \<in> set ns" using assms(4) by (metis (lifting) find_Some_iff nth_mem)
  obtain nd where nd: "semNodes s n = Some nd" using assms(2) n by (auto simp: node_named_def)
  have n0: "n \<noteq> NULL" using lpath_nonnull [OF assms(1)] n by metis
  let ?s = "s\<lparr>semLock := 1\<rparr>"
  have "searchSem nm ?s = Some n"
    using searchSemLoop_spec [of ?s "firstSem s" ns nm key name_of] assms(1-4) by (auto simp: searchSem_def node_named_def)
  then show ?thesis using nd n0 assms(5) by (simp add: semOpen_def enter_region_def leave_region_def)
qed

theorem sem_open_existing_witness:
  "\<exists>s c. semOpen 100 7 s = Some (8, s) \<and> sem_value (the (sems s 8)) = 3 \<and> sch s = c"
proof -
  define s where "s = \<lparr>sch = kernel0\<lparr>ram := (\<lambda>_. 0)(100 := 65, 200 := 65)\<rparr>,
     sems = [8 \<mapsto> \<lparr>sem_value = 3, sem_name = 200, entering = NULL, sem_last = NULL\<rparr>],
     semNodes = [16 \<mapsto> \<lparr>node_sem = 8, node_next = NULL\<rparr>], waiters = Map.empty, firstSem = 16, semCounter = 1, semLock = 0, conts = Map.empty\<rparr>"
  have c: "cstr (ram (sch s)) 100 [65]" "cstr (ram (sch s)) 200 [65]" by (simp_all add: s_def cstr_def bytes_def)
  then have "\<forall>n \<in> set [16]. node_named s n [65]" by (auto simp: node_named_def s_def)
  from sem_open_existing [of s "[16]" "\<lambda>_. [65]" 100 "[65]" 16 7, OF _ this c(1)] show ?thesis by (auto simp: s_def)
qed

end
