(* ===== verification/Pipe.thy ===== *)
theory Pipe
  imports Sem_Props
begin

text \<open>
  Pipes, \<open>src/Kernel/utils/pipe.c\<close>: definitions. \<open>pipe_t\<close> and \<open>node_t\<close> objects live in typed
  heaps beside those of the semaphores (\<open>sm\<close>); the bytes of the ring buffers are in the byte memory.

  \<open>writePipe\<close>, \<open>readPipe\<close> and \<open>closePipe\<close> call \<open>semWait\<close> and \<open>semPost\<close> and may lose the processor in
  each of them. Each is a sequence of actions: the actions of a process that is
  switched out in the middle are kept in \<open>rest\<close> under its identifier, and \<open>goOn\<close> runs them when
  the process runs again. \<open>ret\<close> holds the character that \<open>readPipe\<close> returns to a process.
\<close>

section \<open>State\<close>

record pipe_t =
  fd0 :: int
  fd1 :: int
  pbuffer :: addr
  currentR :: int
  currentW :: int
  pname :: addr
  psem :: addr
  fullSem :: addr

record pipe_node =
  node_pipe :: addr
  pnext :: addr

datatype action = WaitSem addr | WaitFull addr | PostSem addr | PostFull addr | Put addr u8 | Get addr | Unlink addr addr

record pipe_state =
  sm :: sem_state
  pipeObjs :: "addr \<rightharpoonup> pipe_t"
  pipeNodes :: "addr \<rightharpoonup> pipe_node"
  firstPipe :: addr
  fdIndex :: int
  rest :: "int \<rightharpoonup> action list"
  ret :: "int \<rightharpoonup> u8"

abbreviation (input) PIPE_MAX_SIZE :: int where "PIPE_MAX_SIZE \<equiv> 1024"

abbreviation pram :: "pipe_state \<Rightarrow> mem" where
  "pram s \<equiv> ram (sch (sm s))"

definition set_ram :: "mem \<Rightarrow> pipe_state \<Rightarrow> pipe_state" where
  "set_ram m s = s\<lparr>sm := (sm s)\<lparr>sch := (sch (sm s))\<lparr>ram := m\<rparr>\<rparr>\<rparr>"

definition malloc_p :: "nat \<Rightarrow> pipe_state \<Rightarrow> (addr \<times> pipe_state) option" where
  "malloc_p n s = do { (p, c) \<leftarrow> malloc_m n (sm s); Some (p, s\<lparr>sm := c\<rparr>) }"

definition free_p :: "addr \<Rightarrow> pipe_state \<Rightarrow> pipe_state option" where
  "free_p p s = do { c \<leftarrow> free_m p (sm s); Some (s\<lparr>sm := c\<rparr>) }"

section \<open>Opening a pipe\<close>

text \<open>\<open>litSem\<close> and \<open>litFull\<close> are the addresses of the literals \<open>SEM_NAME\<close> and \<open>FULL_SEM_NAME\<close>.\<close>

definition openPipe :: "addr \<Rightarrow> addr \<Rightarrow> addr \<Rightarrow> pipe_state \<Rightarrow> (int \<times> (int \<times> int) option \<times> pipe_state) option" where
  "openPipe litSem litFull nm s =
     do {
       (pipe, s) \<leftarrow> malloc_p 48 s;
       (nameBuf, s) \<leftarrow> malloc_p MAX_NAME s;
       (buf, s) \<leftarrow> malloc_p 1024 s;
       if pipe = NULL \<or> nameBuf = NULL then None
       else do {
         (_, m) \<leftarrow> strcpy nameBuf nm (pram s);
         let s = set_ram m s;
         (sem, c) \<leftarrow> semOpen litSem 1 (sm s);
         if sem = NULL then Some (EXIT_FAILURE, None, s\<lparr>sm := c\<rparr>)
         else do {
           (full, c) \<leftarrow> semOpen litFull 0 c;
           if full = NULL then Some (EXIT_FAILURE, None, s\<lparr>sm := c\<rparr>)
           else do {
             (node, s) \<leftarrow> malloc_p 16 (s\<lparr>sm := c\<rparr>);
             if node = NULL then None
             else let f0 = fdIndex s; f1 = s32 (fdIndex s + 1) in
               Some (EXIT_SUCCESS, Some (f0, f1),
                 s\<lparr>pipeObjs := (pipeObjs s)(pipe \<mapsto> \<lparr>fd0 = f0, fd1 = f1, pbuffer = buf, currentR = 0, currentW = 0,
                      pname = nameBuf, psem = sem, fullSem = full\<rparr>),
                   pipeNodes := (pipeNodes s)(node \<mapsto> \<lparr>node_pipe = pipe, pnext = firstPipe s\<rparr>),
                   firstPipe := node, fdIndex := s32 (fdIndex s + 2)\<rparr>)
           }
         }
       }
     }"

section \<open>Searching\<close>

text \<open>The three searches differ in the descriptors they compare.\<close>

partial_function (option) pipeLoop :: "(pipe_t \<Rightarrow> bool) \<Rightarrow> pipe_state \<Rightarrow> addr \<Rightarrow> addr \<Rightarrow> (addr \<times> addr) option" where
  "pipeLoop hit s previous cur =
     (if cur = NULL then Some (NULL, NULL)
      else do {
        n \<leftarrow> pipeNodes s cur;
        p \<leftarrow> pipeObjs s (node_pipe n);
        if hit p then Some (cur, previous) else pipeLoop hit s cur (pnext n)
      })"

definition searchPipe :: "int \<Rightarrow> pipe_state \<Rightarrow> (addr \<times> addr) option" where
  "searchPipe fdn s = pipeLoop (\<lambda>p. fd0 p = fdn \<or> fd1 p = fdn) s NULL (firstPipe s)"

definition searchWPipe :: "int \<Rightarrow> pipe_state \<Rightarrow> (addr \<times> addr) option" where
  "searchWPipe fdn s = pipeLoop (\<lambda>p. fd1 p = fdn) s NULL (firstPipe s)"

definition searchRPipe :: "int \<Rightarrow> pipe_state \<Rightarrow> (addr \<times> addr) option" where
  "searchRPipe fdn s = pipeLoop (\<lambda>p. fd0 p = fdn) s NULL (firstPipe s)"

section \<open>Actions\<close>

definition onSem :: "(addr \<Rightarrow> sem_state \<Rightarrow> sem_state option) \<Rightarrow> (pipe_t \<Rightarrow> addr) \<Rightarrow> addr \<Rightarrow> pipe_state \<Rightarrow> pipe_state option" where
  "onSem f sel node s =
     do {
       n \<leftarrow> pipeNodes s node;
       p \<leftarrow> pipeObjs s (node_pipe n);
       c \<leftarrow> f (sel p) (sm s);
       Some (s\<lparr>sm := c\<rparr>)
     }"

text \<open>\<open>buffer[currentW++ % PIPE_MAX_SIZE] = c\<close>\<close>

definition putChar_p :: "addr \<Rightarrow> u8 \<Rightarrow> pipe_state \<Rightarrow> pipe_state option" where
  "putChar_p node c s =
     do {
       n \<leftarrow> pipeNodes s node;
       p \<leftarrow> pipeObjs s (node_pipe n);
       let i = currentW p smod PIPE_MAX_SIZE;
       Some (set_ram ((pram s)(idx (pbuffer p) i := c))
         (s\<lparr>pipeObjs := (pipeObjs s)(node_pipe n \<mapsto> p\<lparr>currentW := s32 (currentW p + 1)\<rparr>)\<rparr>))
     }"

definition getChar_p :: "addr \<Rightarrow> int \<Rightarrow> pipe_state \<Rightarrow> pipe_state option" where
  "getChar_p node k s =
     do {
       n \<leftarrow> pipeNodes s node;
       p \<leftarrow> pipeObjs s (node_pipe n);
       let i = currentR p smod PIPE_MAX_SIZE;
       Some (s\<lparr>ret := (ret s)(k \<mapsto> pram s (idx (pbuffer p) i)),
         pipeObjs := (pipeObjs s)(node_pipe n \<mapsto> p\<lparr>currentR := s32 (currentR p + 1)\<rparr>)\<rparr>)
     }"

text \<open>
  The end of \<open>closePipe\<close>. \<open>pipe->fd\<close> is the first member, so freeing it frees the pipe; the fields
  of the pipe are read after that (the free does not write them), and the pipe is freed again.
\<close>

definition unlinkPipe :: "addr \<Rightarrow> addr \<Rightarrow> pipe_state \<Rightarrow> pipe_state option" where
  "unlinkPipe del prev s =
     do {
       d \<leftarrow> pipeNodes s del;
       p \<leftarrow> pipeObjs s (node_pipe d);
       s \<leftarrow>
         (if prev \<noteq> NULL
          then do { q \<leftarrow> pipeNodes s prev; Some (s\<lparr>pipeNodes := (pipeNodes s)(prev \<mapsto> q\<lparr>pnext := pnext d\<rparr>)\<rparr>) }
          else Some (s\<lparr>firstPipe := pnext d\<rparr>));
       (_, c) \<leftarrow> semClose (psem p) (sm s);
       (_, c) \<leftarrow> semClose (fullSem p) c;
       s \<leftarrow> free_p (node_pipe d) (s\<lparr>sm := c\<rparr>);
       s \<leftarrow> free_p (pname p) s;
       s \<leftarrow> free_p (pbuffer p) s;
       s \<leftarrow> free_p (node_pipe d) s;
       s \<leftarrow> free_p del s;
       Some (s\<lparr>pipeObjs := (pipeObjs s)(node_pipe d := None), pipeNodes := (pipeNodes s)(del := None)\<rparr>)
     }"

fun act :: "int \<Rightarrow> action \<Rightarrow> pipe_state \<Rightarrow> pipe_state option" where
  "act k (WaitSem n) s = onSem semWait psem n s"
| "act k (WaitFull n) s = onSem semWait fullSem n s"
| "act k (PostSem n) s = onSem semPost psem n s"
| "act k (PostFull n) s = onSem semPost fullSem n s"
| "act k (Put n c) s = putChar_p n c s"
| "act k (Get n) s = getChar_p n k s"
| "act k (Unlink d p) s = unlinkPipe d p s"

text \<open>The actions of process \<open>k\<close>, until one of them gives the processor away.\<close>

fun runActs :: "int \<Rightarrow> action list \<Rightarrow> pipe_state \<Rightarrow> pipe_state option" where
  "runActs k [] s = Some s"
| "runActs k (a # as) s =
     do {
       s \<leftarrow> act k a s;
       if conts (sm s) k \<noteq> None then Some (s\<lparr>rest := (rest s)(k \<mapsto> as)\<rparr>) else runActs k as s
     }"

section \<open>Operations\<close>

definition writePipe :: "int \<Rightarrow> u8 \<Rightarrow> pipe_state \<Rightarrow> pipe_state option" where
  "writePipe fdn c s =
     do {
       (node, _) \<leftarrow> searchWPipe fdn s;
       k \<leftarrow> getPid (sch (sm s));
       runActs k [WaitSem node, Put node c, PostSem node, PostFull node] s
     }"

definition readPipe :: "int \<Rightarrow> pipe_state \<Rightarrow> pipe_state option" where
  "readPipe fdn s =
     do {
       (node, _) \<leftarrow> searchRPipe fdn s;
       k \<leftarrow> getPid (sch (sm s));
       runActs k [WaitFull node, WaitSem node, Get node, PostSem node] s
     }"

definition closePipe :: "int \<Rightarrow> pipe_state \<Rightarrow> pipe_state option" where
  "closePipe fdn s =
     do {
       (del, prev) \<leftarrow> searchPipe fdn s;
       if del = NULL then Some s
       else do {
         k \<leftarrow> getPid (sch (sm s));
         runActs k [WaitSem del, Unlink del prev] s
       }
     }"

text \<open>The running process goes on in the semaphore operation, then in the pipe operation.\<close>

definition goOn :: "pipe_state \<Rightarrow> pipe_state option" where
  "goOn s =
     do {
       k \<leftarrow> getPid (sch (sm s));
       c \<leftarrow> resume (sm s);
       let s = s\<lparr>sm := c\<rparr>;
       case rest s k of
         None \<Rightarrow> Some s
       | Some as \<Rightarrow> runActs k as (s\<lparr>rest := (rest s)(k := None)\<rparr>)
     }"

end
