(* ===== verification/Pipe_Props.thy ===== *)
theory Pipe_Props
  imports Pipe
begin

text \<open>
  Pipes implement a queue of bytes: writing appends a byte, reading takes the first one, and a
  pipe holds up to 1024 bytes.
\<close>

section \<open>Finding a pipe\<close>

abbreviation nxt_p :: "pipe_state \<Rightarrow> addr \<rightharpoonup> addr" where
  "nxt_p s \<equiv> \<lambda>a. map_option pnext (pipeNodes s a)"

definition pipeHit :: "pipe_state \<Rightarrow> (pipe_t \<Rightarrow> bool) \<Rightarrow> addr \<Rightarrow> bool option" where
  "pipeHit s hit a = do { n \<leftarrow> pipeNodes s a; p \<leftarrow> pipeObjs s (node_pipe n); Some (hit p) }"

interpretation pipe_search: linked_search pipeHit nxt_p "\<lambda>s hit. pipeLoop hit s"
proof
  fix s hit prev cur
  show "pipeLoop hit s prev cur =
    (if cur = NULL then Some (NULL, NULL)
     else do {
       h \<leftarrow> pipeHit s hit cur;
       if h then Some (cur, prev) else do { n \<leftarrow> nxt_p s cur; pipeLoop hit s cur n }
     })"
    by (cases "pipeNodes s cur"; cases "pipeObjs s (node_pipe (the (pipeNodes s cur)))")
      (simp_all add: pipeHit_def pipeLoop.simps [of hit s prev cur])
qed

text \<open>The first node of the list whose pipe is hit.\<close>

definition found :: "pipe_state \<Rightarrow> (pipe_t \<Rightarrow> bool) \<Rightarrow> addr \<Rightarrow> bool" where
  "found s hit node \<longleftrightarrow> (\<exists>xs ys. lpath (nxt_p s) (firstPipe s) (xs @ node # ys) NULL \<and>
     pipeHit s hit node = Some True \<and> (\<forall>b \<in> set xs. pipeHit s hit b = Some False))"

lemma found_loop: "found s hit node \<Longrightarrow> \<exists>pr. pipeLoop hit s NULL (firstPipe s) = Some (node, pr)"
  unfolding found_def using pipe_search.loop_found by metis

lemma found_cong:
  assumes "found s hit node" "pipeNodes t = pipeNodes s" "firstPipe t = firstPipe s"
    "\<And>a p. pipeObjs s a = Some p \<Longrightarrow> \<exists>q. pipeObjs t a = Some q \<and> hit q = hit p"
  shows "found t hit node"
proof -
  have h: "pipeHit t hit a = Some h" if hit: "pipeHit s hit a = Some h" for a h
  proof -
    obtain n p where np: "pipeNodes s a = Some n" "pipeObjs s (node_pipe n) = Some p" "hit p = h"
      using hit by (auto simp: pipeHit_def bind_eq_Some_conv)
    obtain q where "pipeObjs t (node_pipe n) = Some q" "hit q = hit p" using assms(4) [OF np(2)] by blast
    with np show ?thesis by (simp add: pipeHit_def assms(2))
  qed
  with assms show ?thesis unfolding found_def by metis
qed

section \<open>The ring buffer\<close>

text \<open>The bytes that are written and not yet read, at their places in the ring.\<close>

definition ring :: "mem \<Rightarrow> addr \<Rightarrow> nat \<Rightarrow> u8 list \<Rightarrow> bool" where
  "ring m b r q \<longleftrightarrow> length q \<le> 1024 \<and> (\<forall>i < length q. m (b + (r + i) mod 1024) = q ! i)"

lemma ring_put:
  assumes "ring m b r q" "length q < 1024"
  shows "ring (m(b + (r + length q) mod 1024 := c)) b r (q @ [c])"
proof -
  have "(r + i) mod 1024 \<noteq> (r + length q) mod 1024" if "i < length q" for i
  proof
    assume "(r + i) mod 1024 = (r + length q) mod 1024"
    then have "1024 dvd (r + length q) - (r + i)" using that mod_eq_dvd_iff_nat [of "r + i" "r + length q" 1024] by simp
    then show False using that assms(2) by (auto dest: dvd_imp_le)
  qed
  then show ?thesis using assms by (auto simp: ring_def nth_append less_Suc_eq)
qed

lemma ring_get:
  assumes "ring m b r (c # q)" shows "m (b + r mod 1024) = c" "ring m b (Suc r) q"
proof -
  have a: "m (b + (r + i) mod 1024) = (c # q) ! i" if "i < Suc (length q)" for i using assms that by (simp add: ring_def)
  show "m (b + r mod 1024) = c" using a [of 0] by simp
  show "ring m b (Suc r) q" using a [of "Suc _"] assms by (simp add: ring_def)
qed

section \<open>A pipe at rest\<close>

definition pipe_obj :: "pipe_state \<Rightarrow> addr \<Rightarrow> pipe_t \<Rightarrow> nat \<Rightarrow> nat \<Rightarrow> bool" where
  "pipe_obj s node p r n \<longleftrightarrow> (\<exists>nd. pipeNodes s node = Some nd \<and> pipeObjs s (node_pipe nd) = Some p) \<and>
     semVal (sm s) (psem p) = Some 1 \<and> semVal (sm s) (fullSem p) = Some (of_nat n) \<and> psem p \<noteq> fullSem p \<and>
     currentR p = int r \<and> currentW p = int (r + n)"

definition pipe_ring :: "pipe_state \<Rightarrow> addr \<Rightarrow> addr \<Rightarrow> u8 list \<Rightarrow> nat \<Rightarrow> bool" where
  "pipe_ring s node b q r \<longleftrightarrow> (\<exists>p. pipe_obj s node p r (length q) \<and> pbuffer p = b \<and> ring (pram s) b r q)"

definition pipe_at :: "pipe_state \<Rightarrow> addr \<Rightarrow> u8 list \<Rightarrow> nat \<Rightarrow> bool" where
  "pipe_at s node q r \<longleftrightarrow> (\<exists>b. pipe_ring s node b q r)"

definition calm :: "pipe_state \<Rightarrow> int \<Rightarrow> bool" where
  "calm s k \<longleftrightarrow> getPid (sch (sm s)) = Some k \<and> conts (sm s) k = None"

lemma nonneg_smod: "0 \<le> i \<Longrightarrow> i smod (1024 :: int) = i mod 1024"
  by (cases "i = 0") (simp_all add: signed_modulo_int_def signed_divide_int_def minus_div_mult_eq_mod)

lemma idx_ring: "idx b (int n smod 1024) = b + n mod 1024"
proof -
  have "int n smod 1024 = int (n mod 1024)" by (simp add: nonneg_smod zmod_int)
  then show ?thesis by simp
qed

lemma s32_small: "0 \<le> x \<Longrightarrow> x < 2147483648 \<Longrightarrow> s32 x = x"
  by simp

text \<open>What the operations keep of the other parts of the state.\<close>

definition pipe_kept :: "pipe_state \<Rightarrow> pipe_state \<Rightarrow> bool" where
  "pipe_kept s t \<longleftrightarrow> pipeNodes t = pipeNodes s \<and> firstPipe t = firstPipe s \<and> rest t = rest s \<and>
     (\<exists>m. sch (sm t) = (sch (sm s))\<lparr>ram := m\<rparr>) \<and> conts (sm t) = conts (sm s) \<and>
     (\<forall>a p. pipeObjs s a = Some p \<longrightarrow> (\<exists>q. pipeObjs t a = Some q \<and> fd0 q = fd0 p \<and> fd1 q = fd1 p))"

lemma pipe_kept_found:
  assumes "pipe_kept s t" "found s (\<lambda>p. fd0 p = d) n"  shows "found t (\<lambda>p. fd0 p = d) n"
  by (rule found_cong [OF assms(2)]) (use assms(1) in \<open>simp_all add: pipe_kept_def, metis\<close>)

lemma pipe_kept_found':
  assumes "pipe_kept s t" "found s (\<lambda>p. fd1 p = d) n"  shows "found t (\<lambda>p. fd1 p = d) n"
  by (rule found_cong [OF assms(2)]) (use assms(1) in \<open>simp_all add: pipe_kept_def, metis\<close>)

lemma pipe_kept_trans: "pipe_kept s t \<Longrightarrow> pipe_kept t u \<Longrightarrow> pipe_kept s u"
proof -
  assume st: "pipe_kept s t" and tu: "pipe_kept t u"
  then obtain m m' where "sch (sm t) = (sch (sm s))\<lparr>ram := m\<rparr>" "sch (sm u) = (sch (sm t))\<lparr>ram := m'\<rparr>"
    by (auto simp: pipe_kept_def)
  then have "\<exists>m. sch (sm u) = (sch (sm s))\<lparr>ram := m\<rparr>" by (intro exI [of _ m']) simp
  moreover have "\<exists>q. pipeObjs u a = Some q \<and> fd0 q = fd0 p \<and> fd1 q = fd1 p" if "pipeObjs s a = Some p" for a p
    using st tu that unfolding pipe_kept_def by metis
  ultimately show ?thesis using st tu by (simp add: pipe_kept_def)
qed

lemma getPid_ram [simp]: "getPid (c\<lparr>ram := m\<rparr>) = getPid c"
  by (simp add: getPid_def)

lemma pipe_kept_calm: "pipe_kept s t \<Longrightarrow> calm s k \<Longrightarrow> calm t k"
  by (auto simp: pipe_kept_def calm_def)

lemma pipe_kept_refl [simp]: "pipe_kept s s"
  by (auto simp: pipe_kept_def intro: exI [of _ "pram s"])

lemma semVal_sch [simp]: "semVal (c\<lparr>sch := d\<rparr>) a = semVal c a"
  by (simp add: semVal_def cong: option.case_cong)

lemma semUpd_sch: "semUpd a v (c\<lparr>sch := d\<rparr>) = (semUpd a v c)\<lparr>sch := d\<rparr>"
  by (simp add: semUpd_def split: option.split)

text \<open>One call of each operation that does not have to wait.\<close>

lemma writePipe_obj:
  assumes at: "pipe_obj s node p r l" and f: "found s (\<lambda>p. fd1 p = d) node" and k: "calm s k" and len: "r + l < 2147483647"
  shows "\<exists>t p'. writePipe d c s = Some t \<and> pipe_obj t node p' r (Suc l) \<and> pbuffer p' = pbuffer p \<and>
    pram t = (pram s)(pbuffer p + (r + l) mod 1024 := c) \<and> pipe_kept s t \<and> ret t = ret s"
proof -
  obtain n where p: "pipeNodes s node = Some n" "pipeObjs s (node_pipe n) = Some p" "semVal (sm s) (psem p) = Some 1"
    "semVal (sm s) (fullSem p) = Some (of_nat l)" "psem p \<noteq> fullSem p" "currentR p = int r" "currentW p = int (r + l)"
    using at by (auto simp: pipe_obj_def)
  obtain pr where sw: "searchWPipe d s = Some (node, pr)" using found_loop [OF f] by (auto simp: searchWPipe_def)
  have gk: "getPid (sch (sm s)) = Some k" "conts (sm s) k = None" using k by (simp_all add: calm_def)
  define m where "m = (pram s)(pbuffer p + (r + l) mod 1024 := c)"
  define p' where "p' = p\<lparr>currentW := int (r + l) + 1\<rparr>"
  define c1 where "c1 = semUpd (psem p) 0 (sm s)"
  define c2 where "c2 = (sm s)\<lparr>sch := (sch (sm s))\<lparr>ram := m\<rparr>\<rparr>"
  define c3 where "c3 = semUpd (fullSem p) (of_nat l + 1) c2"
  have w1: "semWait (psem p) (sm s) = Some c1" using ksem.wait_pos [OF p(3)] by (simp add: c1_def)
  have c12: "c1\<lparr>sch := (sch (sm s))\<lparr>ram := m\<rparr>\<rparr> = semUpd (psem p) 0 c2" by (simp add: c1_def c2_def semUpd_sch)
  have v2: "semVal c2 (psem p) = Some 1" "semVal c2 (fullSem p) = Some (of_nat l)" using p(3,4) by (simp_all add: c2_def)
  have "semVal (semUpd (psem p) 0 c2) (psem p) = Some 0" using ksem.val_upd [OF v2(1)] by simp
  from ksem.post_idle [OF this] have w2: "semPost (psem p) (semUpd (psem p) 0 c2) = Some c2"
    using ksem.upd_upd [OF v2(1)] ksem.upd_val [OF v2(1)] by simp
  have w3: "semPost (fullSem p) c2 = Some c3" using ksem.post_idle [OF v2(2)] by (simp add: c3_def)
  define t where "t = s\<lparr>sm := c3, pipeObjs := (pipeObjs s)(node_pipe n \<mapsto> p')\<rparr>"
  have sz: "s32 (int (r + l) + 1) = int (r + l) + 1" using len by (intro s32_small) auto
  have run: "writePipe d c s = Some t"
    using sw gk p(1,2,7) w1 w2 w3 sz c12
    by (simp add: writePipe_def onSem_def putChar_p_def idx_ring [of _ "r + l", simplified] set_ram_def m_def [symmetric] t_def p'_def c1_def c2_def c3_def)
  have v3: "semVal c3 (psem p) = Some 1" "semVal c3 (fullSem p) = Some (of_nat l + 1)"
    using ksem.val_upd [OF v2(2)] v2(1) p(5) by (simp_all add: c3_def)
  have "pipe_obj t node p' r (Suc l)" using p v3 by (simp add: pipe_obj_def t_def p'_def add.commute)
  moreover have "pipe_kept s t" using p(2) by (auto simp: pipe_kept_def t_def p'_def c3_def c2_def)
  ultimately show ?thesis using run by (intro exI [of _ t] exI [of _ p']) (simp add: t_def p'_def c3_def c2_def m_def)
qed

lemma readPipe_obj:
  assumes at: "pipe_obj s node p r (Suc l)" and f: "found s (\<lambda>p. fd0 p = d) node" and k: "calm s k"
    and r: "r < 2147483647" "Suc l < 2 ^ 32"
  shows "\<exists>t p'. readPipe d s = Some t \<and> pipe_obj t node p' (Suc r) l \<and> pbuffer p' = pbuffer p \<and> pram t = pram s \<and>
    pipe_kept s t \<and> ret t = (ret s)(k \<mapsto> pram s (pbuffer p + r mod 1024))"
proof -
  obtain n where p: "pipeNodes s node = Some n" "pipeObjs s (node_pipe n) = Some p" "semVal (sm s) (psem p) = Some 1"
    "semVal (sm s) (fullSem p) = Some (of_nat (Suc l))" "psem p \<noteq> fullSem p" "currentR p = int r" "currentW p = int (Suc r + l)"
    using at by (auto simp: pipe_obj_def)
  obtain pr where sw: "searchRPipe d s = Some (node, pr)" using found_loop [OF f] by (auto simp: searchRPipe_def)
  have gk: "getPid (sch (sm s)) = Some k" "conts (sm s) k = None" using k by (simp_all add: calm_def)
  have "(of_nat (Suc l) :: u32) \<noteq> 0" unfolding word_of_nat_eq_0_iff using r(2) by (auto dest: dvd_imp_le)
  then have nz: "(1 :: u32) + of_nat l \<noteq> 0" by simp
  define p' where "p' = p\<lparr>currentR := int r + 1\<rparr>"
  define c1 where "c1 = semUpd (fullSem p) (of_nat l) (sm s)"
  have w1: "semWait (fullSem p) (sm s) = Some c1" using ksem.wait_pos [OF p(4)] nz by (simp add: c1_def word_gt_0)
  have v1: "semVal c1 (psem p) = Some 1" "semVal c1 (fullSem p) = Some (of_nat l)"
    using ksem.val_upd [OF p(4)] p(3,5) by (simp_all add: c1_def)
  have w2: "semWait (psem p) c1 = Some (semUpd (psem p) 0 c1)" using ksem.wait_pos [OF v1(1)] by simp
  have "semVal (semUpd (psem p) 0 c1) (psem p) = Some 0" using ksem.val_upd [OF v1(1)] by simp
  from ksem.post_idle [OF this] have w3: "semPost (psem p) (semUpd (psem p) 0 c1) = Some c1"
    using ksem.upd_upd [OF v1(1)] ksem.upd_val [OF v1(1)] by simp
  define t where "t = s\<lparr>sm := c1, pipeObjs := (pipeObjs s)(node_pipe n \<mapsto> p'), ret := (ret s)(k \<mapsto> pram s (pbuffer p + r mod 1024))\<rparr>"
  have sz: "s32 (int r + 1) = int r + 1" using r by (intro s32_small) auto
  have gc: "conts c1 k = None" using gk(2) by (simp add: c1_def)
  have run: "readPipe d s = Some t"
    using sw gk p(1,2,6) w1 w2 w3 sz gc
    by (simp add: readPipe_def onSem_def getChar_p_def idx_ring t_def p'_def c1_def)
  have "pipe_obj t node p' (Suc r) l" using p v1 by (simp add: pipe_obj_def t_def p'_def)
  moreover have "pipe_kept s t" using p(2) by (auto simp: pipe_kept_def t_def p'_def c1_def intro: exI [of _ "pram s"])
  ultimately show ?thesis using run by (intro exI [of _ t] exI [of _ p']) (simp add: t_def p'_def c1_def)
qed

lemma writePipe_spec:
  assumes "pipe_ring s node b q r" "found s (\<lambda>p. fd1 p = d) node" "calm s k" "length q < 1024" "r + length q < 2147483647"
  shows "\<exists>t. writePipe d c s = Some t \<and> pipe_ring t node b (q @ [c]) r \<and> pipe_kept s t \<and> ret t = ret s \<and>
    (\<forall>x. x < b \<or> b + 1024 \<le> x \<longrightarrow> pram t x = pram s x)"
proof -
  obtain p where p: "pipe_obj s node p r (length q)" "pbuffer p = b" "ring (pram s) b r q" using assms(1) by (auto simp: pipe_ring_def)
  from writePipe_obj [OF p(1) assms(2,3,5), of c] obtain t p' where
    t: "writePipe d c s = Some t" "pipe_obj t node p' r (Suc (length q))" "pbuffer p' = pbuffer p"
      "pram t = (pram s)(pbuffer p + (r + length q) mod 1024 := c)" "pipe_kept s t" "ret t = ret s" by blast
  from t(2-4) p(2) ring_put [OF p(3) assms(4), of c] have "pipe_ring t node b (q @ [c]) r"
    unfolding pipe_ring_def by (intro exI [of _ p']) simp
  moreover have "pram t x = pram s x" if "x < b \<or> b + 1024 \<le> x" for x
  proof -
    have "(r + length q) mod 1024 < 1024" by simp
    then have "x \<noteq> b + (r + length q) mod 1024" using that by linarith
    then show ?thesis using t(4) p(2) by simp
  qed
  ultimately show ?thesis using t by blast
qed

lemma readPipe_spec:
  assumes "pipe_ring s node b (c # q) r" "found s (\<lambda>p. fd0 p = d) node" "calm s k" "r < 2147483647"
  shows "\<exists>t. readPipe d s = Some t \<and> pipe_ring t node b q (Suc r) \<and> pipe_kept s t \<and> ret t = (ret s)(k \<mapsto> c) \<and> pram t = pram s"
proof -
  obtain p where p: "pipe_obj s node p r (Suc (length q))" "pbuffer p = b" "ring (pram s) b r (c # q)"
    using assms(1) by (auto simp: pipe_ring_def)
  have "Suc (length q) < 2 ^ 32" using p(3) by (simp add: ring_def)
  from readPipe_obj [OF p(1) assms(2-4) this] obtain t p' where
    t: "readPipe d s = Some t" "pipe_obj t node p' (Suc r) (length q)" "pbuffer p' = pbuffer p" "pram t = pram s" "pipe_kept s t"
      "ret t = (ret s)(k \<mapsto> pram s (pbuffer p + r mod 1024))" by blast
  from t(2-4) p(2) ring_get(2) [OF p(3)] have "pipe_ring t node b q (Suc r)" unfolding pipe_ring_def by (intro exI [of _ p']) simp
  with t p(2) ring_get(1) [OF p(3)] show ?thesis by auto
qed

section \<open>Sequences of operations\<close>

primrec writeAll :: "int \<Rightarrow> u8 list \<Rightarrow> pipe_state \<Rightarrow> pipe_state option" where
  "writeAll d [] s = Some s"
| "writeAll d (c # cs) s = do { s \<leftarrow> writePipe d c s; writeAll d cs s }"

text \<open>What a process reads in a number of calls.\<close>

primrec readAll :: "int \<Rightarrow> nat \<Rightarrow> pipe_state \<Rightarrow> (u8 list \<times> pipe_state) option" where
  "readAll d 0 s = Some ([], s)"
| "readAll d (Suc n) s =
     do {
       s \<leftarrow> readPipe d s;
       k \<leftarrow> getPid (sch (sm s));
       c \<leftarrow> ret s k;
       (cs, s) \<leftarrow> readAll d n s;
       Some (c # cs, s)
     }"

lemma writeAll_spec:
  assumes "pipe_ring s node b q r" "found s (\<lambda>p. fd1 p = d) node" "calm s k" "length q + length cs \<le> 1024" "r + length q + length cs < 2147483647"
  shows "\<exists>t. writeAll d cs s = Some t \<and> pipe_ring t node b (q @ cs) r \<and> pipe_kept s t"
  using assms
proof (induction cs arbitrary: s q)
  case Nil
  then show ?case by auto
next
  case (Cons c cs)
  obtain t where t: "writePipe d c s = Some t" "pipe_ring t node b (q @ [c]) r" "pipe_kept s t"
    using writePipe_spec [OF Cons.prems(1-3), of c] Cons.prems(4,5) by auto
  have "calm t k" using t(3) Cons.prems(3) by (rule pipe_kept_calm)
  from Cons.IH [OF t(2) pipe_kept_found' [OF t(3) Cons.prems(2)] this] Cons.prems(4,5) obtain u where
    "writeAll d cs t = Some u" "pipe_ring u node b (q @ c # cs) r" "pipe_kept t u" by auto
  with t pipe_kept_trans show ?case by auto
qed

lemma readAll_spec:
  assumes "pipe_ring s node b (cs @ q) r" "found s (\<lambda>p. fd0 p = d) node" "calm s k" "r + length cs < 2147483647"
  shows "\<exists>t. readAll d (length cs) s = Some (cs, t) \<and> pipe_ring t node b q (r + length cs) \<and> pipe_kept s t"
  using assms
proof (induction cs arbitrary: s r)
  case Nil
  then show ?case by auto
next
  case (Cons c cs)
  obtain t where t: "readPipe d s = Some t" "pipe_ring t node b (cs @ q) (Suc r)" "pipe_kept s t" "ret t = (ret s)(k \<mapsto> c)"
    using readPipe_spec [of s node b c "cs @ q" r d k] Cons.prems by auto
  have ck: "calm t k" using t(3) Cons.prems(3) by (rule pipe_kept_calm)
  from Cons.IH [OF t(2) pipe_kept_found [OF t(3) Cons.prems(2)] ck] Cons.prems(4) obtain u where
    "readAll d (length cs) t = Some (cs, u)" "pipe_ring u node b q (Suc r + length cs)" "pipe_kept t u" by auto
  with t ck pipe_kept_trans show ?case by (auto simp: calm_def)
qed

section \<open>Properties\<close>

text \<open>C11: a pipe is a queue. Bytes written to a pipe, up to its capacity of 1024, are read back in the
  same order, behind the bytes that were in it before, and all these calls return.\<close>

theorem pipe_fifo:
  assumes "pipe_at s node q r" and "found s (\<lambda>p. fd1 p = dw) node" "found s (\<lambda>p. fd0 p = dr) node" and "calm s k"
    and "length q + length cs \<le> 1024" "r + length q + length cs < 2147483647"
  shows "\<exists>t u. writeAll dw cs s = Some t \<and> readAll dr (length q + length cs) t = Some (q @ cs, u) \<and>
    pipe_at u node [] (r + length q + length cs)"
proof -
  obtain b where b: "pipe_ring s node b q r" using assms(1) by (auto simp: pipe_at_def)
  from writeAll_spec [OF b assms(2,4-6)] obtain t where
    t: "writeAll dw cs s = Some t" "pipe_ring t node b (q @ cs) r" "pipe_kept s t" by blast
  have "calm t k" using t(3) assms(4) by (rule pipe_kept_calm)
  from readAll_spec [of t node b "q @ cs" "[]" r dr k] t(2) pipe_kept_found [OF t(3) assms(3)] this assms(6) t(1) show ?thesis
    by (auto simp: add.assoc pipe_at_def)
qed

text \<open>A concrete system with an empty pipe, descriptors 2 (read) and 3 (write).\<close>

definition pipe0 :: pipe_state where
  "pipe0 = \<lparr>sm = \<lparr>sch = kernel0\<lparr>currentProcess := 64, procs := (procs kernel0)(64 \<mapsto> (the (procs kernel0 NULL))\<lparr>pid := 2\<rparr>)\<rparr>,
       sems = [8 \<mapsto> \<lparr>sem_value = 1, sem_name = 0, entering = NULL, sem_last = NULL\<rparr>,
               9 \<mapsto> \<lparr>sem_value = 0, sem_name = 0, entering = NULL, sem_last = NULL\<rparr>],
       semNodes = Map.empty, waiters = Map.empty, firstSem = NULL, semCounter = 0, semLock = 0, conts = Map.empty\<rparr>,
     pipeObjs = [16 \<mapsto> \<lparr>fd0 = 2, fd1 = 3, pbuffer = 4096, currentR = 0, currentW = 0, pname = 0, psem = 8, fullSem = 9\<rparr>],
     pipeNodes = [32 \<mapsto> \<lparr>node_pipe = 16, pnext = NULL\<rparr>], firstPipe = 32, fdIndex = 4, rest = Map.empty, ret = Map.empty\<rparr>"

lemma pipe0: "pipe_at pipe0 32 [] 0" "calm pipe0 2" "found pipe0 (\<lambda>p. fd1 p = 3) 32" "found pipe0 (\<lambda>p. fd0 p = 2) 32"
proof -
  show "pipe_at pipe0 32 [] 0" "calm pipe0 2"
    by (simp_all add: pipe_at_def pipe_ring_def pipe_obj_def pipe0_def semVal_def ring_def calm_def getPid_def)
  have "lpath (nxt_p pipe0) (firstPipe pipe0) ([] @ 32 # []) NULL" by (simp add: pipe0_def)
  moreover have "pipeHit pipe0 (\<lambda>p. fd1 p = 3) 32 = Some True" "pipeHit pipe0 (\<lambda>p. fd0 p = 2) 32 = Some True"
    by (simp_all add: pipeHit_def pipe0_def)
  ultimately show "found pipe0 (\<lambda>p. fd1 p = 3) 32" "found pipe0 (\<lambda>p. fd0 p = 2) 32" unfolding found_def by fastforce+
qed

theorem pipe_fifo_witness:
  "\<exists>t u. writeAll 3 [104, 111, 108, 97] pipe0 = Some t \<and> readAll 2 4 t = Some ([104, 111, 108, 97], u)"
proof -
  have "length ([] :: u8 list) + length [104 :: u8, 111, 108, 97] = 4" by simp
  with pipe_fifo [OF pipe0(1,3,4,2), of "[104, 111, 108, 97]"] show ?thesis
    by (simp only: append_Nil) (simp del: readAll.simps writeAll.simps, blast)
qed

text \<open>C16: nothing stops a writer at the capacity of the pipe: with 1024 unread bytes, the next byte
  written takes the place of the oldest unread one, and the next read returns it instead.\<close>

theorem pipe_overrun:
  assumes "pipe_at s node q r" "length q = 1024" and "found s (\<lambda>p. fd1 p = dw) node" "found s (\<lambda>p. fd0 p = dr) node"
    and "calm s k" and "r + 1024 < 2147483647"
  shows "\<exists>t u. writePipe dw c s = Some t \<and> readPipe dr t = Some u \<and> ret u k = Some c"
proof -
  obtain p where p: "pipe_obj s node p r 1024" using assms(1,2) by (auto simp: pipe_at_def pipe_ring_def)
  from writePipe_obj [OF p assms(3,5,6), of c] obtain t p' where
    t: "writePipe dw c s = Some t" "pipe_obj t node p' r (Suc 1024)" "pbuffer p' = pbuffer p"
      "pram t = (pram s)(pbuffer p + (r + 1024) mod 1024 := c)" "pipe_kept s t" by blast
  have "calm t k" using t(5) assms(5) by (rule pipe_kept_calm)
  from readPipe_obj [OF t(2) pipe_kept_found [OF t(5) assms(4)] this] assms(6) t(1,3,4) show ?thesis by auto
qed

theorem pipe_overrun_witness:
  "\<exists>s t u. writeAll 3 (replicate 1024 65) pipe0 = Some s \<and> writePipe 3 66 s = Some t \<and> readPipe 2 t = Some u \<and> ret u 2 = Some 66"
proof -
  obtain b where b: "pipe_ring pipe0 32 b [] 0" using pipe0(1) by (auto simp: pipe_at_def)
  from writeAll_spec [OF b pipe0(3,2), of "replicate 1024 65"] obtain s where
    s: "writeAll 3 (replicate 1024 65) pipe0 = Some s" "pipe_at s 32 (replicate 1024 65) 0" "pipe_kept pipe0 s" by (auto simp: pipe_at_def)
  have "calm s 2" using s(3) pipe0(2) by (rule pipe_kept_calm)
  from pipe_overrun [OF s(2) _ pipe_kept_found' [OF s(3) pipe0(3)] pipe_kept_found [OF s(3) pipe0(4)] this] s(1) show ?thesis by auto
qed

end
