(* ===== verification/Listing.thy ===== *)
theory Listing
  imports Pipe_Props
begin

text \<open>
  The functions of the kernel that build a text for the user: \<open>dumpMM\<close> (memManagerFRT4.c),
  \<open>processes\<close> (scheduler.c), \<open>getSems\<close> (sem.c) and \<open>pipes\<close> (pipe.c). They write into byte
  memory at pointers that advance by C \<open>char\<close> counts. \<open>rodata\<close> gives the addresses of the string
  literals, and \<open>buf\<close> is the address of the local array \<open>buffer\<close>.
\<close>

section \<open>Definitions\<close>

record rodata =
  lit_ps :: addr
  lit_F :: addr
  lit_B :: addr
  lit_Block :: addr
  lit_Killed :: addr
  lit_Ready :: addr
  lit_sem :: addr
  lit_space :: addr
  lit_pipe :: addr
  lit_free :: addr
  lit_total :: addr
  lit_mallocs :: addr
  lit_frees :: addr

abbreviation (input) MAX_NAME_SIZE :: nat where "MAX_NAME_SIZE \<equiv> 10"
abbreviation (input) MAX_ATTR_SIZE :: int where "MAX_ATTR_SIZE \<equiv> 6"
abbreviation (input) MAX_PIDS_SIZE :: int where "MAX_PIDS_SIZE \<equiv> 50"
abbreviation (input) PROCESS_DATA_MAX_SIZE :: int where "PROCESS_DATA_MAX_SIZE \<equiv> 300"
abbreviation (input) PIPE_DATA_MAX_SIZE :: int where "PIPE_DATA_MAX_SIZE \<equiv> 100"
abbreviation (input) DUMP_MAX_SIZE :: nat where "DUMP_MAX_SIZE \<equiv> 100"

text \<open>An \<open>int\<close> that is passed as a \<open>size_t\<close>.\<close>

definition size_of_int :: "int \<Rightarrow> nat" where
  "size_of_int n = nat (n mod 2 ^ 64)"

subsection \<open>The heap\<close>

text \<open>\<open>ans += strcpy(ans, itoa(v, buffer, 10, 20))\<close> and the same for a literal.\<close>

definition addNum :: "addr \<Rightarrow> nat \<Rightarrow> addr \<Rightarrow> mem \<Rightarrow> (addr \<times> mem) option" where
  "addNum buf v ans m =
     do { let (b, m) = itoa (s32 (int v)) buf 10 20 m; (n, m) \<leftarrow> strcpy ans b m; Some (idx ans n, m) }"

definition addLit :: "addr \<Rightarrow> addr \<Rightarrow> mem \<Rightarrow> (addr \<times> mem) option" where
  "addLit l ans m = do { (n, m) \<leftarrow> strcpy ans l m; Some (idx ans n, m) }"

definition dumpMM :: "rodata \<Rightarrow> addr \<Rightarrow> sched_state \<Rightarrow> (addr \<times> sched_state) option" where
  "dumpMM R buf s =
     do {
       (ret, s) \<leftarrow> malloc_s DUMP_MAX_SIZE s;
       (heapStats, s) \<leftarrow> malloc_s 56 s;
       if ret = NULL \<or> heapStats = NULL then None
       else do {
         st \<leftarrow> vPortGetHeapStats (mm s);
         let m = wr (ram s) buf (replicate 20 0);
         (ans, m) \<leftarrow> addLit (lit_free R) ret m;
         (ans, m) \<leftarrow> addNum buf (xAvailableHeapSpaceInBytes st) ans m;
         (ans, m) \<leftarrow> addLit (lit_total R) ans m;
         (ans, m) \<leftarrow> addNum buf configTOTAL_HEAP_SIZE ans m;
         (ans, m) \<leftarrow> addLit (lit_mallocs R) ans m;
         (ans, m) \<leftarrow> addNum buf (xSuccessfulAllocations st) ans m;
         (ans, m) \<leftarrow> addLit (lit_frees R) ans m;
         (ans, m) \<leftarrow> addNum buf (xSuccessfulFrees st) ans m;
         s \<leftarrow> free_s heapStats (s\<lparr>ram := m\<rparr>);
         Some (ret, s)
       }
     }"

subsection \<open>Processes\<close>

definition getGenProcessData :: "addr \<Rightarrow> int \<Rightarrow> int \<Rightarrow> addr \<Rightarrow> bool \<Rightarrow> mem \<Rightarrow> (addr \<times> int \<times> mem) option" where
  "getGenProcessData out written toAdd inp isLast m =
     do {
       (c, m) \<leftarrow> strcpy out inp m;
       let copied = s8 c;
       let out = idx out copied;
       let (n, m) = addSpaces out (s8 (toAdd - copied)) m;
       let out = idx out n;
       let written = s8 (written + toAdd);
       if \<not> isLast
       then let (n, m) = addSpaces out 2 m in Some (idx out n, s8 (written + 2), m)
       else Some (out, written, m)
     }"

text \<open>The column of the name: one iteration, and the loop.\<close>

fun nameStep :: "addr \<Rightarrow> nat \<Rightarrow> bool \<times> addr \<times> mem \<Rightarrow> bool \<times> addr \<times> mem" where
  "nameStep nm j (flag, out, m) =
     (if \<not> flag \<and> m (nm + j) = 0 then (True, out, m)
      else if flag then let (n, m) = addSpaces out 1 m in (flag, idx out n, m)
      else (flag, out + 1, m(out := m (nm + j))))"

definition nameColumn :: "addr \<Rightarrow> addr \<Rightarrow> mem \<Rightarrow> addr \<times> mem" where
  "nameColumn nm out m = snd (fold (nameStep nm) [0..<MAX_NAME_SIZE] (False, out, m))"

definition getProcessData :: "rodata \<Rightarrow> addr \<Rightarrow> addr \<Rightarrow> addr \<Rightarrow> sched_state \<Rightarrow> (int \<times> sched_state) option" where
  "getProcessData R buf out proc s =
     (if proc = NULL then Some (EXIT_FAILURE, s)
      else do {
        p \<leftarrow> procs s proc;
        let (out, m) = nameColumn (name p) out (ram s);
        let written = s8 (0 + int MAX_NAME_SIZE);
        let (n, m) = addSpaces out 2 m;
        let out = idx out n;
        let written = s8 (written + 2);
        let (b, m) = itoa (pid p) buf 10 10 m;
        (out, written, m) \<leftarrow> getGenProcessData out written MAX_ATTR_SIZE b False m;
        let (b, m) = itoa (priority p) buf 10 2 m;
        (out, written, m) \<leftarrow> getGenProcessData out written MAX_ATTR_SIZE b False m;
        let (b, m) = itoa (s32 (int (rsp p))) buf 16 10 m;
        (out, written, m) \<leftarrow> getGenProcessData out written (int MAX_NAME_SIZE) b False m;
        let (b, m) = itoa (s32 (int (rbp p))) buf 16 10 m;
        (out, written, m) \<leftarrow> getGenProcessData out written (int MAX_NAME_SIZE) b False m;
        (out, written, m) \<leftarrow> getGenProcessData out written MAX_ATTR_SIZE (if foreground p = 1 then lit_F R else lit_B R) False m;
        (out, written, m) \<leftarrow> getGenProcessData out written MAX_ATTR_SIZE
          (if state p = BLOCKED then lit_Block R else if state p = DEAD then lit_Killed R else lit_Ready R) True m;
        Some (written, s\<lparr>ram := m\<rparr>)
      })"

partial_function (option) processesLoop :: "rodata \<Rightarrow> addr \<Rightarrow> addr \<Rightarrow> addr \<Rightarrow> sched_state \<Rightarrow> (addr option \<times> sched_state) option" where
  "processesLoop R buf ans aux s =
     (if aux = NULL then Some (Some ans, s)
      else do {
        (writtenChars, s) \<leftarrow> getProcessData R buf ans aux s;
        if writtenChars = EXIT_FAILURE then Some (None, s)
        else do {
          let ans = idx ans (writtenChars - 1);
          let s = s\<lparr>ram := (ram s)(ans := 10)\<rparr>;
          p \<leftarrow> procs s aux;
          processesLoop R buf (ans + 1) (next_p p) s
        }
      })"

definition processes :: "rodata \<Rightarrow> addr \<Rightarrow> sched_state \<Rightarrow> (addr \<times> sched_state) option" where
  "processes R buf s =
     do {
       (ret, s) \<leftarrow> malloc_s (size_of_int (s32 (pids s * PROCESS_DATA_MAX_SIZE))) s;
       if ret = NULL then None
       else do {
         (n, m) \<leftarrow> strcpy ret (lit_ps R) (ram s);
         (r, s) \<leftarrow> processesLoop R buf (idx ret n) (firstProcess s) (s\<lparr>ram := m\<rparr>);
         case r of
           None \<Rightarrow> Some (NULL, s)
         | Some ans \<Rightarrow> Some (ret, s\<lparr>ram := (ram s)(ans - 1 := 0)\<rparr>)
       }
     }"

subsection \<open>Semaphores\<close>

definition sm_ram :: "mem \<Rightarrow> sem_state \<Rightarrow> sem_state" where
  "sm_ram m s = s\<lparr>sch := (sch s)\<lparr>ram := m\<rparr>\<rparr>"

text \<open>The loop over the waiting processes; \<open>addSpaces\<close> is called with the start of the number.\<close>

partial_function (option) waitersLoop :: "addr \<Rightarrow> (addr \<rightharpoonup> pid_t) \<Rightarrow> addr \<Rightarrow> int \<Rightarrow> addr \<Rightarrow> mem \<Rightarrow> (int \<times> mem) option" where
  "waitersLoop buf W out written aux_pid m =
     (if aux_pid = NULL then Some (written, m)
      else do {
        w \<leftarrow> W aux_pid;
        let (b, m) = itoa (pid_n w) buf 10 10 m;
        (c, m) \<leftarrow> strcpy out b m;
        let copied = s8 c;
        let (n, m) = addSpaces out 1 m;
        let copied = s8 (copied + n);
        waitersLoop buf W (idx out copied) (s8 (written + copied)) (next_n w) m
      })"

definition getSemaphoresData :: "addr \<Rightarrow> addr \<Rightarrow> addr \<Rightarrow> sem_state \<Rightarrow> (int \<times> sem_state) option" where
  "getSemaphoresData buf out node s =
     (if node = NULL then Some (EXIT_FAILURE, s)
      else do {
        n \<leftarrow> semNodes s node;
        x \<leftarrow> sems s (node_sem n);
        let (out, m) = nameColumn (sem_name x) out (ram (sch s));
        let written = s8 (0 + int MAX_NAME_SIZE);
        let (k, m) = addSpaces out 2 m;
        let out = idx out k;
        let written = s8 (written + 2);
        let (b, m) = itoa (sint (sem_value x)) buf 10 2 m;
        (c, m) \<leftarrow> strcpy out b m;
        let copied = s8 c;
        let out = idx out copied;
        let (k, m) = addSpaces out (s8 (MAX_ATTR_SIZE - copied)) m;
        let out = idx out k;
        let written = s8 (written + MAX_ATTR_SIZE);
        let (k, m) = addSpaces out 2 m;
        let out = idx out k;
        let written = s8 (written + 2);
        (written, m) \<leftarrow> waitersLoop buf (waiters s) out written (entering x) m;
        Some (written, sm_ram m s)
      })"

partial_function (option) enteringLoop :: "rodata \<Rightarrow> addr \<Rightarrow> (addr \<rightharpoonup> pid_t) \<Rightarrow> addr \<Rightarrow> addr \<Rightarrow> mem \<Rightarrow> mem option" where
  "enteringLoop R buf W ans aux m =
     (if aux = NULL then Some m
      else do {
        w \<leftarrow> W aux;
        let (b, m) = itoa (pid_n w) buf 10 3 m;
        (_, m) \<leftarrow> strcpy ans b m;
        (_, m) \<leftarrow> (if next_n w \<noteq> NULL then strcpy ans (lit_space R) m else Some (0, m));
        enteringLoop R buf W ans (next_n w) m
      })"

definition getEntering :: "rodata \<Rightarrow> addr \<Rightarrow> addr \<Rightarrow> sem_state \<Rightarrow> (addr \<times> sem_state) option" where
  "getEntering R buf sem s =
     do {
       (ans, s) \<leftarrow> malloc_m 8 s;
       x \<leftarrow> sems s sem;
       if ans = NULL \<and> entering x \<noteq> NULL then None
       else do {
         m \<leftarrow> enteringLoop R buf (waiters s) ans (entering x) (ram (sch s));
         Some (ans, sm_ram m s)
       }
     }"

partial_function (option) semsLoop :: "addr \<Rightarrow> addr \<Rightarrow> addr \<Rightarrow> sem_state \<Rightarrow> (addr option \<times> sem_state) option" where
  "semsLoop buf ans aux s =
     (if aux = NULL then Some (Some ans, s)
      else do {
        (writtenChars, s) \<leftarrow> getSemaphoresData buf ans aux s;
        if writtenChars = EXIT_FAILURE then Some (None, s)
        else do {
          let ans = idx ans (writtenChars - 1);
          let s = sm_ram ((ram (sch s))(ans := 10)) s;
          n \<leftarrow> semNodes s aux;
          semsLoop buf (ans + 1) (node_next n) s
        }
      })"

definition getSems :: "rodata \<Rightarrow> addr \<Rightarrow> sem_state \<Rightarrow> (addr \<times> sem_state) option" where
  "getSems R buf s =
     do {
       (ret, s) \<leftarrow> malloc_m (size_of_int (MIN_SIZE + semCounter s * SEM_DATA_MAX_SIZE)) s;
       if ret = NULL then None
       else do {
         (n, m) \<leftarrow> strcpy ret (lit_sem R) (ram (sch s));
         (r, s) \<leftarrow> semsLoop buf (idx ret n) (firstSem s) (sm_ram m s);
         case r of
           None \<Rightarrow> Some (NULL, s)
         | Some ans \<Rightarrow> Some (ret, sm_ram ((ram (sch s))(ans - 1 := 0)) s)
       }
     }"

subsection \<open>Pipes\<close>

definition getGenPipeData :: "addr \<Rightarrow> int \<Rightarrow> int \<Rightarrow> addr \<Rightarrow> bool \<Rightarrow> mem \<Rightarrow> (addr \<times> int \<times> mem) option" where
  "getGenPipeData out written toAdd inp isLast m =
     do {
       (c, m) \<leftarrow> strcpy out inp m;
       let copied = s8 c;
       let out = idx out copied;
       let (n, m) = addSpaces out (s8 (toAdd - copied)) m;
       let out = idx out n;
       let written = s8 (written + toAdd);
       if \<not> isLast
       then let (n, m) = addSpaces out 2 m in Some (idx out n, s8 (written + 2), m)
       else Some (out, written, m)
     }"

text \<open>\<open>buf\<close> is the array of \<open>getPipeData\<close>, \<open>bufe\<close> that of \<open>getEntering\<close>.\<close>

definition getPipeData :: "rodata \<Rightarrow> addr \<Rightarrow> addr \<Rightarrow> addr \<Rightarrow> addr \<Rightarrow> pipe_state \<Rightarrow> (int \<times> pipe_state) option" where
  "getPipeData R buf bufe out node s =
     (if node = NULL then Some (EXIT_FAILURE, s)
      else do {
        n \<leftarrow> pipeNodes s node;
        p \<leftarrow> pipeObjs s (node_pipe n);
        let (out, m) = nameColumn (pname p) out (pram s);
        let written = s8 (0 + int MAX_NAME_SIZE);
        let (k, m) = addSpaces out 2 m;
        let out = idx out k;
        let written = s8 (written + 2);
        let (b, m) = itoa (fd0 p) buf 10 2 m;
        (out, written, m) \<leftarrow> getGenPipeData out written MAX_ATTR_SIZE b False m;
        let (b, m) = itoa (fd1 p) buf 16 10 m;
        (out, written, m) \<leftarrow> getGenPipeData out written MAX_ATTR_SIZE b False m;
        (aux, c) \<leftarrow> getEntering R bufe (psem p) (sm (set_ram m s));
        let s = s\<lparr>sm := c\<rparr>;
        if aux = NULL then None
        else do {
          (out, written, m) \<leftarrow> getGenPipeData out written MAX_PIDS_SIZE aux True (pram s);
          s \<leftarrow> free_p aux (set_ram m s);
          Some (written, s)
        }
      })"

partial_function (option) pipesLoop :: "rodata \<Rightarrow> addr \<Rightarrow> addr \<Rightarrow> addr \<Rightarrow> addr \<Rightarrow> pipe_state \<Rightarrow> (addr option \<times> pipe_state) option" where
  "pipesLoop R buf bufe ans aux s =
     (if aux = NULL then Some (Some ans, s)
      else do {
        (writtenChars, s) \<leftarrow> getPipeData R buf bufe ans aux s;
        if writtenChars = EXIT_FAILURE then Some (None, s)
        else do {
          let ans = idx ans (writtenChars - 1);
          let s = set_ram ((pram s)(ans := 10)) s;
          n \<leftarrow> pipeNodes s aux;
          pipesLoop R buf bufe (ans + 1) (pnext n) s
        }
      })"

definition pipes :: "rodata \<Rightarrow> addr \<Rightarrow> addr \<Rightarrow> pipe_state \<Rightarrow> (addr \<times> pipe_state) option" where
  "pipes R buf bufe s =
     do {
       (ret, s) \<leftarrow> malloc_p (size_of_int (s32 (fdIndex s sdiv 2 * PIPE_DATA_MAX_SIZE))) s;
       if ret = NULL then None
       else do {
         (n, m) \<leftarrow> strcpy ret (lit_pipe R) (pram s);
         (r, s) \<leftarrow> pipesLoop R buf bufe (idx ret n) (firstPipe s) (set_ram m s);
         case r of
           None \<Rightarrow> Some (NULL, s)
         | Some ans \<Rightarrow> Some (ret, set_ram ((pram s)(ans - 1 := 0)) s)
       }
     }"

section \<open>Where the text of a process goes\<close>

definition keeps :: "addr set \<Rightarrow> mem \<Rightarrow> mem \<Rightarrow> bool" where
  "keeps Z m m' \<longleftrightarrow> (\<forall>x. x \<notin> Z \<longrightarrow> m' x = m x)"

lemma keeps_refl [simp]: "keeps Z m m"
  by (simp add: keeps_def)

lemma keeps_trans: "keeps Z m m' \<Longrightarrow> keeps Z m' m'' \<Longrightarrow> keeps Z m m''"
  by (simp add: keeps_def)

lemma keeps_mono: "keeps Y m m' \<Longrightarrow> Y \<subseteq> Z \<Longrightarrow> keeps Z m m'"
  unfolding keeps_def by blast

lemma keeps_wr: "{p..<p + length bs} \<subseteq> Z \<Longrightarrow> keeps Z m (wr m p bs)"
  by (auto simp: keeps_def wr_def subset_eq)

lemma keeps_upd: "p \<in> Z \<Longrightarrow> keeps Z m (m(p := v))"
  by (auto simp: keeps_def)

lemma keeps_cstr: "keeps Z m m' \<Longrightarrow> cstr m p t \<Longrightarrow> {p..p + length t} \<inter> Z = {} \<Longrightarrow> cstr m' p t"
proof -
  assume k: "keeps Z m m'" and c: "cstr m p t" and z: "{p..p + length t} \<inter> Z = {}"
  have "m' (p + i) = m (p + i)" if "i \<le> length t" for i
    using k z that by (auto simp: keeps_def disjoint_iff)
  with c show ?thesis using cstr_cong [of t m' p m p] by blast
qed

text \<open>A column: the pointer and the count advance by the width whatever the text is.\<close>

lemma gen_data:
  assumes c: "cstr m inp t" and d: "{out..out + length t} \<inter> {inp..inp + length t} = {}" and t: "length t \<le> 20"
    and k: "0 \<le> k" "k \<le> 50" "0 \<le> w" "w \<le> 70" and Z: "{out..<out + max (length t + 1) (nat k + 2)} \<subseteq> Z"
  shows "\<exists>m'. getGenProcessData out w k inp l m = Some (out + nat k + (if l then 0 else 2), w + k + (if l then 0 else 2), m') \<and> keeps Z m m'"
proof -
  define m1 where "m1 = wr m out (t @ [0])"
  define m2 where "m2 = wr m1 (out + length t) (replicate (nat (k - int (length t))) 32)"
  have "out \<le> inp \<or> inp + length t < out" using d by auto
  then have st: "strcpy out inp m = Some (int (length t), m1)" using strcpy_wr [OF c] t by (simp add: m1_def)
  have i: "idx (out + length t) (k - int (length t)) = out + nat k" using k(1) by (simp add: idx_def nat_eq_iff)
  have i2: "idx (out + nat k) 2 = out + nat k + 2" using k(1) by (simp add: idx_def)
  have "keeps Z m m1" unfolding m1_def by (intro keeps_wr order_trans [OF _ Z]) auto
  moreover have "keeps Z m1 m2" unfolding m2_def using k(1) by (intro keeps_wr order_trans [OF _ Z]) auto
  moreover have "keeps Z m2 (wr m2 (out + nat k) (replicate 2 32))" by (intro keeps_wr order_trans [OF _ Z]) auto
  ultimately have kk: "keeps Z m m2" "keeps Z m (wr m2 (out + nat k) (replicate 2 32))" by (blast intro: keeps_trans)+
  have "getGenProcessData out w k inp l m =
      Some (if l then (out + nat k, w + k, m2) else (out + nat k + 2, w + k + 2, wr m2 (out + nat k) (replicate 2 32)))"
    using st t k i i2 unfolding getGenProcessData_def by (simp add: addSpaces_wr m2_def Let_def)
  with kk show ?thesis by auto
qed

lemma nameStep_keeps:
  assumes "fold (nameStep nm) [0..<n] (False, out, m) = (f, o', m')"
  shows "keeps {out..<out + n} m m' \<and> o' = out + (if f then n - 1 else n) \<and> (f \<longrightarrow> 0 < n)"
  using assms
proof (induction n arbitrary: f o' m')
  case 0
  then show ?case by simp
next
  case (Suc n)
  obtain g o1 m1 where r: "fold (nameStep nm) [0..<n] (False, out, m) = (g, o1, m1)" by (metis prod_cases3)
  note IH = Suc.IH [OF r]
  have w: "addSpaces o1 1 m1 = (1, m1(o1 := 32))" by (simp add: addSpaces_wr)
  have i: "idx o1 1 = Suc o1" by (simp add: idx_def)
  have st: "(f, o', m') = (if \<not> g \<and> m1 (nm + n) = 0 then (True, o1, m1)
      else if g then (g, Suc o1, m1(o1 := 32)) else (g, Suc o1, m1(o1 := m1 (nm + n))))"
    using Suc.prems r by (simp add: w i split: if_splits)
  have k: "keeps {out..<out + Suc n} m m1" using IH by (auto intro: keeps_mono)
  have u: "keeps {out..<out + Suc n} m (m1(o1 := v))" for v
    using IH by (intro keeps_trans [OF k] keeps_upd) auto
  show ?case using st IH k u by (auto simp: fun_upd_def split: if_splits)
qed

lemma nameColumn_keeps:
  obtains o' m' where "nameColumn nm out m = (o', m')" "keeps {out..<out + 10} m m'" "out + 9 \<le> o'" "o' \<le> out + 10"
proof -
  obtain f o1 m1 where r: "fold (nameStep nm) [0..<10] (False, out, m) = (f, o1, m1)" by (metis prod_cases3)
  from nameStep_keeps [OF r] have "keeps {out..<out + 10} m m1" "out + 9 \<le> o1" "o1 \<le> out + 10" by auto
  moreover have "nameColumn nm out m = (o1, m1)" using r by (simp add: nameColumn_def)
  ultimately show thesis using that by blast
qed

text \<open>A number without a sign that has at most nine digits fits with its terminator in \<open>char buffer[10]\<close>.\<close>

lemma short_number:
  assumes "2 \<le> b" "0 \<le> v" "nat v < nat b ^ 9" shows "length (itoa_text v b l) \<le> 9"
proof -
  have "length (lsd (nat b) (nat v)) \<le> 9" by (rule length_lsd) (use assms in auto)
  then show ?thesis using assms(2) by (auto simp: itoa_text_def Let_def)
qed

text \<open>A column with a number: \<open>itoa\<close> into the local array, then the column.\<close>

lemma itoa_data:
  assumes b: "2 \<le> base" "base \<le> 32" and v: "- 2147483648 < v" "v < 2147483648" and short: "length (itoa_text v base l) \<le> 9"
    and k: "0 \<le> k" "k \<le> 50" "0 \<le> w" "w \<le> 70"
    and Z: "{out..<out + max 13 (nat k + 2)} \<subseteq> Z" "{buf..<buf + 10} \<subseteq> Z" "{out..<out + 13} \<inter> {buf..<buf + 10} = {}"
  shows "\<exists>m'. (let (b, m) = itoa v buf base l m in getGenProcessData out w k b False m) =
    Some (out + nat k + 2, w + k + 2, m') \<and> keeps Z m m'"
proof -
  let ?t = "itoa_text v base l"
  have run: "itoa v buf base l m = (buf, wr m buf (?t @ [0]))" using itoa_wr [OF b v] .
  note len = short
  have nb: "2 \<le> nat base" "nat base \<le> 32" using b by auto
  have "0 \<notin> set (lsd (nat base) (nat \<bar>v\<bar>))" using lsd_digits [of "nat base" 0 "nat \<bar>v\<bar>"] nb by auto
  then have "0 \<notin> set ?t" by (auto simp: itoa_text_def Let_def byte_def dest: in_set_takeD)
  then have c: "cstr (wr m buf (?t @ [0])) buf ?t" by (rule cstr_wr)
  have k1: "keeps Z m (wr m buf (?t @ [0]))" using Z(2) len by (intro keeps_wr) auto
  have dj: "{out..out + length ?t} \<inter> {buf..buf + length ?t} = {}"
  proof -
    have "{out..out + length ?t} \<subseteq> {out..<out + 13}" "{buf..buf + length ?t} \<subseteq> {buf..<buf + 10}" using len by auto
    then show ?thesis using Z(3) by blast
  qed
  have "{out..<out + max (length ?t + 1) (nat k + 2)} \<subseteq> {out..<out + max 13 (nat k + 2)}" using len by auto
  then have "{out..<out + max (length ?t + 1) (nat k + 2)} \<subseteq> Z" using Z(1) by blast
  from gen_data [OF c dj _ k this, of False] len run keeps_trans [OF k1] show ?thesis by auto
qed

text \<open>The string literals, and that a region holds none of them.\<close>

definition lit_ok :: "addr set \<Rightarrow> mem \<Rightarrow> addr \<Rightarrow> nat \<Rightarrow> bool" where
  "lit_ok Z m l k \<longleftrightarrow> (\<exists>t. cstr m l t \<and> length t \<le> k \<and> {l..l + length t} \<inter> Z = {})"

definition rodata_ok :: "rodata \<Rightarrow> addr set \<Rightarrow> mem \<Rightarrow> bool" where
  "rodata_ok R Z m \<longleftrightarrow> lit_ok Z m (lit_ps R) 100 \<and> lit_ok Z m (lit_F R) 6 \<and> lit_ok Z m (lit_B R) 6 \<and>
     lit_ok Z m (lit_Block R) 6 \<and> lit_ok Z m (lit_Killed R) 6 \<and> lit_ok Z m (lit_Ready R) 6"

lemma lit_keeps: "lit_ok Z m l k \<Longrightarrow> keeps Z m m' \<Longrightarrow> lit_ok Z m' l k"
  unfolding lit_ok_def using keeps_cstr by fast

lemma rodata_keeps: "rodata_ok R Z m \<Longrightarrow> keeps Z m m' \<Longrightarrow> rodata_ok R Z m'"
  unfolding rodata_ok_def using lit_keeps by blast

text \<open>A column with a literal.\<close>

lemma lit_data:
  assumes "lit_ok Z m l 6" "{out..<out + 8} \<subseteq> Z" and "0 \<le> w" "w \<le> 70"
  shows "\<exists>m'. getGenProcessData out w 6 l b m = Some (out + 6 + (if b then 0 else 2), w + 6 + (if b then 0 else 2), m') \<and> keeps Z m m'"
proof -
  obtain t where t: "cstr m l t" "length t \<le> 6" "{l..l + length t} \<inter> Z = {}" using assms(1) by (auto simp: lit_ok_def)
  have "{out..out + length t} \<subseteq> Z" by (rule order_trans [OF _ assms(2)]) (use t(2) in auto)
  then have d: "{out..out + length t} \<inter> {l..l + length t} = {}" using t(3) by blast
  have "{out..<out + max (length t + 1) (nat 6 + 2)} \<subseteq> Z" by (rule order_trans [OF _ assms(2)]) (use t(2) in auto)
  from gen_data [OF t(1) d _ _ _ assms(3,4) this, of b] t(2) show ?thesis by simp
qed

text \<open>The line of a process: 66 bytes, in a place of 80 bytes.\<close>

definition fits_int :: "processCDT \<Rightarrow> bool" where
  "fits_int p \<longleftrightarrow> 0 \<le> pid p \<and> pid p < 10 ^ 9 \<and> 0 \<le> priority p \<and> priority p < 10 ^ 9 \<and> rsp p < 2 ^ 31 \<and> rbp p < 2 ^ 31"

lemma process_line:
  assumes p: "procs s a = Some p" "a \<noteq> NULL" "fits_int p"
    and Z: "{out..<out + 80} \<subseteq> Z" "{buf..<buf + 10} \<subseteq> Z" "{out..<out + 80} \<inter> {buf..<buf + 10} = {}" and R: "rodata_ok R Z (ram s)"
  shows "\<exists>m'. getProcessData R buf out a s = Some (66, s\<lparr>ram := m'\<rparr>) \<and> keeps Z (ram s) m'"
proof -
  obtain o1 m1 where n: "nameColumn (name p) out (ram s) = (o1, m1)" "keeps {out..<out + 10} (ram s) m1" "out + 9 \<le> o1" "o1 \<le> out + 10"
    by (rule nameColumn_keeps)
  have sub: "{x..<x + k} \<subseteq> Z" if "out \<le> x" "x + k \<le> out + 80" for x k by (rule order_trans [OF _ Z(1)]) (use that in auto)
  have dj: "{x..<x + 13} \<inter> {buf..<buf + 10} = {}" if "out \<le> x" "x \<le> out + 67" for x
  proof -
    have "{x..<x + 13} \<subseteq> {out..<out + 80}" using that by auto
    then show ?thesis using Z(3) by blast
  qed
  note num = itoa_data [where Z = Z and buf = buf, OF _ _ _ _ _ _ _ _ _ sub Z(2) dj]
  define m2 where "m2 = wr m1 o1 (replicate 2 32)"
  have k2: "keeps Z (ram s) m2"
    unfolding m2_def using n by (intro keeps_trans [OF keeps_mono [OF n(2) sub]] keeps_wr sub) auto
  have s2: "addSpaces o1 2 m1 = (2, m2)" "idx o1 2 = o1 + 2" by (simp_all add: addSpaces_wr m2_def idx_def)
  have s32_of: "s32 (int x) = int x" if "x < 2 ^ 31" for x using that by simp
  have f: "length (itoa_text (pid p) 10 10) \<le> 9" "length (itoa_text (priority p) 10 2) \<le> 9"
    "length (itoa_text (int (rsp p)) 16 10) \<le> 9" "length (itoa_text (int (rbp p)) 16 10) \<le> 9"
    using p(3) by (intro short_number; simp add: fits_int_def nat_less_iff)+
  have r32: "int (rsp p) < 2147483648" "int (rbp p) < 2147483648" "s32 (int (rsp p)) = int (rsp p)" "s32 (int (rbp p)) = int (rbp p)"
    using p(3) s32_of by (simp_all add: fits_int_def)
  obtain m3 where m3: "(let (b, m) = itoa (pid p) buf 10 10 m2 in getGenProcessData (o1 + 2) 12 6 b False m) = Some (o1 + 10, 20, m3)" "keeps Z m2 m3"
    using num [of 10 "pid p" 10 6 12 "o1 + 2" m2] p(3) n f(1) by (auto simp: fits_int_def)
  obtain m4 where m4: "(let (b, m) = itoa (priority p) buf 10 2 m3 in getGenProcessData (o1 + 10) 20 6 b False m) = Some (o1 + 18, 28, m4)" "keeps Z m3 m4"
    using num [of 10 "priority p" 2 6 20 "o1 + 10" m3] p(3) n f(2) by (auto simp: fits_int_def)
  obtain m5 where m5: "(let (b, m) = itoa (s32 (int (rsp p))) buf 16 10 m4 in getGenProcessData (o1 + 18) 28 10 b False m) = Some (o1 + 30, 40, m5)" "keeps Z m4 m5"
    using num [of 16 "int (rsp p)" 10 10 28 "o1 + 18" m4] r32 n f(3) by auto
  obtain m6 where m6: "(let (b, m) = itoa (s32 (int (rbp p))) buf 16 10 m5 in getGenProcessData (o1 + 30) 40 10 b False m) = Some (o1 + 42, 52, m6)" "keeps Z m5 m6"
    using num [of 16 "int (rbp p)" 10 10 40 "o1 + 30" m5] r32 n f(4) by auto
  have k6: "keeps Z (ram s) m6" using k2 m3(2) m4(2) m5(2) m6(2) by (blast intro: keeps_trans)
  let ?f = "if foreground p = 1 then lit_F R else lit_B R"
  let ?g = "if state p = BLOCKED then lit_Block R else if state p = DEAD then lit_Killed R else lit_Ready R"
  have lit: "lit_ok Z m ?f 6" "lit_ok Z m ?g 6" if "keeps Z (ram s) m" for m
    using rodata_keeps [OF R that] by (auto simp: rodata_ok_def)
  obtain m7 where m7: "getGenProcessData (o1 + 42) 52 6 ?f False m6 = Some (o1 + 50, 60, m7)" "keeps Z m6 m7"
    using lit_data [OF lit(1) [OF k6] sub [of "o1 + 42" 8], of 52 False] n by (auto simp: add.commute)
  have k7: "keeps Z (ram s) m7" using k6 m7(2) by (blast intro: keeps_trans)
  obtain m8 where m8: "getGenProcessData (o1 + 50) 60 6 ?g True m7 = Some (o1 + 56, 66, m8)" "keeps Z m7 m8"
    using lit_data [OF lit(2) [OF k7] sub [of "o1 + 50" 8], of 60 True] n by (auto simp: add.commute)
  have "getProcessData R buf out a s = Some (66, s\<lparr>ram := m8\<rparr>)"
    unfolding getProcessData_def using p(1,2) n(1) s2 m3(1) m4(1) m5(1) m6(1) m7(1) m8(1) by (simp add: split_beta)
  with k7 m8(2) show ?thesis by (blast intro: keeps_trans)
qed

lemma processesLoop_lines:
  assumes "lpath (nxt s) a zs NULL" and "\<And>z. z \<in> set zs \<Longrightarrow> fits_int (P s z)"
    and "{ans..<ans + 66 * length zs + 14} \<subseteq> Z" "{buf..<buf + 10} \<subseteq> Z" "{ans..<ans + 66 * length zs + 14} \<inter> {buf..<buf + 10} = {}"
    and "rodata_ok R Z (ram s)"
  shows "\<exists>m'. processesLoop R buf ans a s = Some (Some (ans + 66 * length zs), s\<lparr>ram := m'\<rparr>) \<and> keeps Z (ram s) m'"
  using assms
proof (induction zs arbitrary: a ans s)
  case Nil
  then show ?case by (simp add: processesLoop.simps exI [of _ "ram s"])
next
  case (Cons z zs)
  obtain p where p: "a = z" "z \<noteq> NULL" "procs s z = Some p" "lpath (nxt s) (next_p p) zs NULL" using Cons.prems(1) by auto
  have fit: "fits_int p" using Cons.prems(2) [of z] p(3) by simp
  have sub: "{x..<y} \<subseteq> {ans..<ans + 66 * length (z # zs) + 14}" if "ans \<le> x" "y \<le> ans + 66 * length (z # zs) + 14" for x y
    using that by auto
  have sz: "{x..<y} \<subseteq> Z" "{x..<y} \<inter> {buf..<buf + 10} = {}" if "ans \<le> x" "y \<le> ans + 66 * length (z # zs) + 14" for x y
    using sub [OF that] Cons.prems(3,5) by blast+
  obtain m1 where m1: "getProcessData R buf ans z s = Some (66, s\<lparr>ram := m1\<rparr>)" "keeps Z (ram s) m1"
    using process_line [OF p(3,2) fit sz(1) Cons.prems(4) sz(2) Cons.prems(6), of ans] by auto
  let ?m = "m1(ans + 65 := 10)"
  have k: "keeps Z (ram s) ?m"
    using sz(1) [of "ans + 65" "ans + 66"] by (intro keeps_trans [OF m1(2)] keeps_upd) auto
  have path: "lpath (nxt (s\<lparr>ram := ?m\<rparr>)) (next_p p) zs NULL" using p(4) by simp
  have fits: "fits_int (P (s\<lparr>ram := ?m\<rparr>) x)" if "x \<in> set zs" for x using Cons.prems(2) [of x] that by simp
  have rest: "{ans + 66..<ans + 66 + 66 * length zs + 14} \<subseteq> Z" "{ans + 66..<ans + 66 + 66 * length zs + 14} \<inter> {buf..<buf + 10} = {}"
    using sz [of "ans + 66" "ans + 66 + 66 * length zs + 14"] by simp_all
  have "rodata_ok R Z (ram (s\<lparr>ram := ?m\<rparr>))" using rodata_keeps [OF Cons.prems(6) k] by simp
  from Cons.IH [OF path fits rest(1) Cons.prems(4) rest(2) this] obtain m' where
    m': "processesLoop R buf (ans + 66) (next_p p) (s\<lparr>ram := ?m\<rparr>) = Some (Some (ans + 66 + 66 * length zs), s\<lparr>ram := m'\<rparr>)" "keeps Z ?m m'"
    by (auto simp: fun_upd_def)
  have "idx ans 65 = ans + 65" by (simp add: idx_def)
  then have "processesLoop R buf ans a s = processesLoop R buf (ans + 66) (next_p p) (s\<lparr>ram := ?m\<rparr>)"
    using p(1-3) m1(1) by (subst processesLoop.simps) (simp add: add.commute)
  with m' keeps_trans [OF k] show ?case by auto
qed

lemma length_ps:
  assumes "base_inv s ps ss" shows "int (length ps) < pids s" "0 < length ps"
proof -
  have "set (map (\<lambda>a. pid (P s a)) ps) \<subseteq> {1..<pids s}" using base_pinv [OF assms] by (auto simp: pinv_def)
  from card_mono [OF _ this] have "length ps \<le> nat (pids s - 1)" using distinct_card [OF base_pids [OF assms]] by simp
  moreover obtain i where "i \<in> set ps" "pinv (pids s) (P s i)" using assms base_pinv [OF assms] by (auto simp: base_inv_def)
  ultimately show "int (length ps) < pids s" "0 < length ps" by (auto simp: pinv_def)
qed

section \<open>Properties\<close>

text \<open>C21: the listing of the processes returns and stays in its memory: with a block for it (300 bytes
  per process identifier), every byte that \<open>processes\<close> changes lies in that block or in the ten bytes
  of the local \<open>char buffer[10]\<close> of \<open>getProcessData\<close>, whatever the names, priorities and states of the
  processes are, with up to seven million identifiers given out and stacks below 2 GiB.\<close>

theorem processes_in_bounds:
  assumes b: "base_inv s ps ss" and "pids s \<le> 7000000" and "\<And>a. a \<in> set ps \<Longrightarrow> rsp (P s a) < 2 ^ 31 \<and> rbp (P s a) < 2 ^ 31"
    and m: "malloc_s (300 * nat (pids s)) s = Some (bp, t)" "bp \<noteq> NULL"
    and R: "rodata_ok R ({bp..<bp + 300 * nat (pids s)} \<union> {buf..<buf + 10}) (ram s)"
    and d: "{bp..<bp + 300 * nat (pids s)} \<inter> {buf..<buf + 10} = {}"
  shows "\<exists>m. processes R buf s = Some (bp, t\<lparr>ram := m\<rparr>) \<and>
    (\<forall>x. x \<notin> {bp..<bp + 300 * nat (pids s)} \<union> {buf..<buf + 10} \<longrightarrow> m x = ram s x)"
proof -
  let ?B = "{bp..<bp + 300 * nat (pids s)}"
  let ?Z = "?B \<union> {buf..<buf + 10}"
  have n: "int (length ps) < pids s" "0 < length ps" using length_ps [OF b] .
  have sz: "size_of_int (s32 (pids s * 300)) = 300 * nat (pids s)" using assms(2) n by (simp add: size_of_int_def nat_mult_distrib)
  have t: "ram t = ram s" "procs t = procs s" "firstProcess t = firstProcess s" using m(1) by (auto simp: malloc_s_def bind_eq_Some_conv)
  obtain h where h: "cstr (ram s) (lit_ps R) h" "length h \<le> 100" "{lit_ps R..lit_ps R + length h} \<inter> ?Z = {}"
    using R by (auto simp: rodata_ok_def lit_ok_def)
  have room: "length h + 66 * length ps + 14 \<le> 300 * nat (pids s)" using h(2) n by linarith
  have "{bp..bp + length h} \<subseteq> ?B" using room by auto
  then have "{bp..bp + length h} \<inter> {lit_ps R..lit_ps R + length h} = {}" using h(3) by blast
  then have "bp \<le> lit_ps R \<or> lit_ps R + length h < bp" by auto
  then have st: "strcpy bp (lit_ps R) (ram s) = Some (int (length h), wr (ram s) bp (h @ [0]))"
    using strcpy_wr [OF h(1)] h(2) by simp
  have k1: "keeps ?Z (ram s) (wr (ram s) bp (h @ [0]))" using room by (intro keeps_wr) auto
  define u where "u = t\<lparr>ram := wr (ram s) bp (h @ [0])\<rparr>"
  have fit: "fits_int (P u z)" if "z \<in> set ps" for z
    using base_pinv [OF b that] assms(2,3) that t by (force simp: u_def pinv_def fits_int_def)
  have path: "lpath (nxt u) (firstProcess u) ps NULL" using base_path [OF b] t by (simp add: u_def)
  have sub: "{bp + length h..<bp + length h + 66 * length ps + 14} \<subseteq> ?B" using room by auto
  have Z: "{bp + length h..<bp + length h + 66 * length ps + 14} \<subseteq> ?Z" "{buf..<buf + 10} \<subseteq> ?Z"
    "{bp + length h..<bp + length h + 66 * length ps + 14} \<inter> {buf..<buf + 10} = {}" using sub d by blast+
  from processesLoop_lines [OF path fit Z, of R] rodata_keeps [OF R k1] obtain m' where
    m': "processesLoop R buf (bp + length h) (firstProcess u) u = Some (Some (bp + length h + 66 * length ps), u\<lparr>ram := m'\<rparr>)"
      "keeps ?Z (ram u) m'" by (auto simp: u_def)
  let ?m = "m'(bp + length h + 66 * length ps - 1 := 0)"
  obtain k where "length ps = Suc k" using n(2) by (cases ps) auto
  then have "bp + length h + 66 * length ps - 1 \<in> ?B" using room by simp
  then have k3: "keeps ?Z m' ?m" by (intro keeps_upd) blast
  have k2: "keeps ?Z (wr (ram s) bp (h @ [0])) m'" using m'(2) by (simp add: u_def)
  have k: "keeps ?Z (ram s) ?m" by (rule keeps_trans [OF keeps_trans [OF k1 k2] k3])
  have "processes R buf s = Some (bp, t\<lparr>ram := ?m\<rparr>)"
    using m st m'(1) t by (simp add: processes_def sz u_def)
  with k show ?thesis by (auto simp: keeps_def)
qed

theorem processes_in_bounds_witness:
  "\<exists>s i a bp R buf t m. processes R buf s = Some (bp, t\<lparr>ram := m\<rparr>) \<and> base_inv s [i, a] [] \<and>
     (\<forall>x. x \<notin> {bp..<bp + 900} \<union> {buf..<buf + 10} \<longrightarrow> m x = ram s x)"
proof (rule sample)
  fix s i a
  assume s: "sample s i a"
  define u where "u = s\<lparr>procs := \<lambda>x. if x = NULL then procs s x else map_option (\<lambda>p. p\<lparr>rsp := 0, rbp := 0\<rparr>) (procs s x), ram := (\<lambda>_. 0)\<rparr>"
  have b: "base_inv s [i, a] []" using sched_base [OF sample_inv [OF s]] .
  have nz: "z \<noteq> NULL" "procs s z \<noteq> None" if "z \<in> set [i, a]" for z
    using base_dom [OF b that] base_nonnull [OF b] that by (metis, metis option.distinct(1))
  have "\<exists>q. procs u z = Some q \<and> mild (P s z) q" if "z \<in> set [i, a]" for z
  proof -
    have "mild p (p\<lparr>rsp := 0, rbp := 0\<rparr>)" for p by (simp add: mild_def owns_def pinv_def)
    with nz [OF that] show ?thesis by (auto simp: u_def)
  qed
  then have bu: "base_inv u [i, a] []" by (intro base_inv_mild [OF b]) (auto simp: u_def)
  have r: "rsp (P u z) < 2 ^ 31 \<and> rbp (P u z) < 2 ^ 31" if "z \<in> set [i, a]" for z
    using nz [OF that] by (auto simp: u_def)
  have pu: "pids u = 3" "mm u = mm s" using s by (auto simp: u_def sample_def)
  have "room_for [900] (mm u)" unfolding pu(2) by (rule room_for_less [OF sample_room [OF s]]) (simp add: adjustWantedSize_def and_mask7 Let_def)
  then obtain bp m where m: "pvPortMalloc 900 (mm u) = Some (bp, m)" "bp \<noteq> NULL" by (rule room_malloc) auto
  define R where "R = (let l = bp + 5000 in \<lparr>lit_ps = l, lit_F = l, lit_B = l, lit_Block = l, lit_Killed = l, lit_Ready = l,
    lit_sem = l, lit_space = l, lit_pipe = l, lit_free = l, lit_total = l, lit_mallocs = l, lit_frees = l\<rparr>)"
  have R: "rodata_ok R ({bp..<bp + 900} \<union> {bp + 4000..<bp + 4000 + 10}) (ram u)"
    by (auto simp: rodata_ok_def lit_ok_def R_def Let_def u_def intro!: exI [of _ "[]"])
  have "malloc_s (300 * nat (pids u)) u = Some (bp, u\<lparr>mm := m\<rparr>)" using m pu by (simp add: malloc_s_def)
  from processes_in_bounds [OF bu _ r this m(2), of R "bp + 4000"] R pu obtain mr where
    "processes R (bp + 4000) u = Some (bp, u\<lparr>mm := m\<rparr>\<lparr>ram := mr\<rparr>)"
    "\<forall>x. x \<notin> {bp..<bp + 900} \<union> {bp + 4000..<bp + 4000 + 10} \<longrightarrow> mr x = ram u x" by auto
  with bu show ?thesis by blast
qed

end
