(* ===== verification/Syscalls.thy ===== *)
theory Syscalls
  imports Video Keyboard Listing
begin

text \<open>
  The system calls: \<open>write\<close> and \<open>read\<close> (\<open>src/Kernel/interruptions/systemCalls.c\<close>), the dispatcher
  (\<open>systemCallsDispatcher.c\<close>) and the interrupt dispatcher (\<open>irqDispatcher.c\<close>), over the state of the
  whole kernel. Interrupt gates keep interrupts off while the kernel runs, so a system call is
  interrupted only where it gives the processor away itself.

  \<open>rax\<close> holds the value that a system call returns to a process. A process that gives the
  processor away in the middle of \<open>write\<close> or \<open>read\<close> has a continuation in \<open>kconts\<close>, behind the one
  that the pipe operation or the semaphore operation has left; \<open>kresume\<close> runs it when the process runs again.
\<close>

section \<open>State\<close>

datatype kcont = WriteNext int addr int nat | PipeChar int addr nat int | KbdAgain addr nat int

record kernel_state =
  pp :: pipe_state
  kb :: keyboard
  conX :: int
  conY :: int
  kconts :: "int \<rightharpoonup> kcont"
  rax :: "int \<rightharpoonup> u64"

text \<open>The addresses of literals and of local arrays of the functions that build texts.\<close>

record env =
  lits :: rodata
  litSem :: addr
  litFull :: addr
  numBuf :: addr
  pidBuf :: addr

abbreviation ksch :: "kernel_state \<Rightarrow> sched_state" where
  "ksch s \<equiv> sch (sm (pp s))"

abbreviation kram :: "kernel_state \<Rightarrow> mem" where
  "kram s \<equiv> pram (pp s)"

definition set_sch :: "sched_state \<Rightarrow> kernel_state \<Rightarrow> kernel_state" where
  "set_sch c s = s\<lparr>pp := (pp s)\<lparr>sm := (sm (pp s))\<lparr>sch := c\<rparr>\<rparr>\<rparr>"

definition set_sm :: "sem_state \<Rightarrow> kernel_state \<Rightarrow> kernel_state" where
  "set_sm c s = s\<lparr>pp := (pp s)\<lparr>sm := c\<rparr>\<rparr>"

definition set_kram :: "mem \<Rightarrow> kernel_state \<Rightarrow> kernel_state" where
  "set_kram m s = s\<lparr>pp := set_ram m (pp s)\<rparr>"

definition returns :: "int \<Rightarrow> int \<Rightarrow> kernel_state \<Rightarrow> kernel_state" where
  "returns k v s = s\<lparr>rax := (rax s)(k \<mapsto> of_int v)\<rparr>"

abbreviation (input) STDIN :: int where "STDIN \<equiv> 0"
abbreviation (input) STDOUT :: int where "STDOUT \<equiv> 1"
abbreviation (input) STDOUT_COLOR :: int where "STDOUT_COLOR \<equiv> 15"

section \<open>write\<close>

text \<open>Whether process \<open>k\<close> has given the processor away inside a pipe operation.\<close>

definition suspended :: "int \<Rightarrow> kernel_state \<Rightarrow> bool" where
  "suspended k s \<longleftrightarrow> conts (sm (pp s)) k \<noteq> None"

partial_function (option) writeLoop :: "int \<Rightarrow> int \<Rightarrow> addr \<Rightarrow> int \<Rightarrow> nat \<Rightarrow> kernel_state \<Rightarrow> kernel_state option" where
  "writeLoop k fdn buf i len s =
     (if kram s (idx buf i) \<noteq> 0 \<and> i \<le> int len
      then do {
        p \<leftarrow> writePipe fdn (kram s (idx buf i)) (pp s);
        let s = s\<lparr>pp := p\<rparr>;
        if suspended k s then Some (s\<lparr>kconts := (kconts s)(k \<mapsto> WriteNext fdn buf (i + 1) len)\<rparr>)
        else writeLoop k fdn buf (i + 1) len s
      }
      else Some (returns k i s))"

text \<open>The console driver works on the memory of the kernel and its cursor.\<close>

definition on_console :: "(console \<Rightarrow> 'a \<times> console) \<Rightarrow> kernel_state \<Rightarrow> 'a \<times> kernel_state" where
  "on_console f s =
     (let (r, c) = f \<lparr>cmem = kram s, currentX = conX s, currentY = conY s\<rparr>
      in (r, (set_kram (cmem c) s)\<lparr>conX := currentX c, conY := currentY c\<rparr>))"

definition sys_write :: "addr \<Rightarrow> nat \<Rightarrow> kernel_state \<Rightarrow> kernel_state option" where
  "sys_write buffer len s =
     do {
       k \<leftarrow> getPid (ksch s);
       fdn \<leftarrow> getFdOut (ksch s);
       if fdn \<noteq> STDOUT then writeLoop k fdn buffer 0 len s
       else let (n, s) = on_console (printStringLen STDOUT_COLOR buffer (s32 (int len))) s in Some (returns k n s)
     }"

section \<open>read\<close>

text \<open>Behind a read of a character from a pipe: the character is stored and may end the call.\<close>

partial_function (option) readPipeLoop :: "int \<Rightarrow> int \<Rightarrow> addr \<Rightarrow> nat \<Rightarrow> int \<Rightarrow> kernel_state \<Rightarrow> kernel_state option" where
  "readPipeLoop k fdn buf len readBytes s =
     (if len > 0
      then do {
        p \<leftarrow> readPipe fdn (pp s);
        let s = s\<lparr>pp := p\<rparr>;
        if suspended k s then Some (s\<lparr>kconts := (kconts s)(k \<mapsto> PipeChar fdn buf (len - 1) readBytes)\<rparr>)
        else do {
          c \<leftarrow> ret (pp s) k;
          let s = set_kram ((kram s)(buf := c)) s;
          if c = 0 then Some (returns k readBytes s)
          else if c = - 1 then Some (returns k (readBytes + 1) s)
          else readPipeLoop k fdn (buf + 1) (len - 1) (readBytes + 1) s
        }
      }
      else Some (returns k readBytes s))"

text \<open>
  The loop over the keyboard. Without a character the pointer, the length and the count go one step
  back, and the process blocks; when it goes on, it looks at the byte before the place it
  waits for.
\<close>

partial_function (option) readKbdLoop :: "int \<Rightarrow> addr \<Rightarrow> nat \<Rightarrow> int \<Rightarrow> kernel_state \<Rightarrow> kernel_state option" where
  "readKbdLoop k buf len readBytes s =
     (if len > 0
      then do {
        (c, b) \<leftarrow> getKeyFromBuffer (kb s);
        let s = (set_kram ((kram s)(buf := c)) s)\<lparr>kb := b\<rparr>;
        if c = 0
        then do {
          (r, d) \<leftarrow> blockIO (ksch s);
          let s = set_sch d s;
          if r = EXIT_FAILURE
          then if kram s (buf - 1) = - 1 then Some (returns k readBytes s) else readKbdLoop k buf len readBytes s
          else Some (s\<lparr>kconts := (kconts s)(k \<mapsto> KbdAgain buf len readBytes)\<rparr>)
        }
        else if c = - 1 then Some (returns k (readBytes + 1) s)
        else readKbdLoop k (buf + 1) (len - 1) (readBytes + 1) s
      }
      else Some (returns k readBytes s))"

definition sys_read :: "addr \<Rightarrow> nat \<Rightarrow> kernel_state \<Rightarrow> kernel_state option" where
  "sys_read buffer len s =
     do {
       k \<leftarrow> getPid (ksch s);
       fdn \<leftarrow> getFdIn (ksch s);
       if fdn = STDIN
       then do {
         fg \<leftarrow> isForeground (ksch s);
         if fg = 0 then Some (returns k 0 s) else readKbdLoop k buffer len 0 s
       }
       else readPipeLoop k fdn buffer len 0 s
     }"

section \<open>Going on\<close>

text \<open>The running process goes on in the kernel where it gave the processor away.\<close>

definition kresume :: "kernel_state \<Rightarrow> kernel_state option" where
  "kresume s =
     do {
       k \<leftarrow> getPid (ksch s);
       p \<leftarrow> goOn (pp s);
       let s = s\<lparr>pp := p\<rparr>;
       if suspended k s then Some s
       else
         let t = s\<lparr>kconts := (kconts s)(k := None)\<rparr> in
         case kconts s k of
           None \<Rightarrow> Some s
         | Some (WriteNext fdn buf i len) \<Rightarrow> writeLoop k fdn buf i len t
         | Some (PipeChar fdn buf len n) \<Rightarrow>
             do {
               c \<leftarrow> ret (pp t) k;
               let t = set_kram ((kram t)(buf := c)) t;
               if c = 0 then Some (returns k n t)
               else if c = - 1 then Some (returns k (n + 1) t)
               else readPipeLoop k fdn (buf + 1) len (n + 1) t
             }
         | Some (KbdAgain buf len n) \<Rightarrow>
             if kram t (buf - 1) = - 1 then Some (returns k n t) else readKbdLoop k buf len n t
     }"

section \<open>The dispatcher\<close>

text \<open>Calls into the scheduler, the semaphores and the pipes: with a result, and without one.\<close>

definition sch_call :: "int \<Rightarrow> (sched_state \<Rightarrow> (int \<times> sched_state) option) \<Rightarrow> kernel_state \<Rightarrow> kernel_state option" where
  "sch_call k f s = do { (r, c) \<leftarrow> f (ksch s); Some (returns k r (set_sch c s)) }"

definition sch_do :: "int \<Rightarrow> (sched_state \<Rightarrow> sched_state option) \<Rightarrow> kernel_state \<Rightarrow> kernel_state option" where
  "sch_do k f s = do { c \<leftarrow> f (ksch s); Some (returns k 1 (set_sch c s)) }"

definition sem_do :: "int \<Rightarrow> (sem_state \<Rightarrow> sem_state option) \<Rightarrow> kernel_state \<Rightarrow> kernel_state option" where
  "sem_do k f s = do { c \<leftarrow> f (sm (pp s)); Some (returns k 1 (set_sm c s)) }"

definition ptr_call :: "int \<Rightarrow> (sched_state \<Rightarrow> (addr \<times> sched_state) option) \<Rightarrow> kernel_state \<Rightarrow> kernel_state option" where
  "ptr_call k f s = do { (p, c) \<leftarrow> f (ksch s); Some (returns k (int p) (set_sch c s)) }"

abbreviation (input) i32 :: "nat \<Rightarrow> int" where "i32 r \<equiv> s32 (int r)"
abbreviation (input) c8 :: "nat \<Rightarrow> int" where "c8 r \<equiv> s8 (int r)"

definition systemCallsDispatcher ::
    "env \<Rightarrow> nat \<Rightarrow> nat \<Rightarrow> nat \<Rightarrow> nat \<Rightarrow> nat \<Rightarrow> nat \<Rightarrow> kernel_state \<Rightarrow> kernel_state option" where
  "systemCallsDispatcher E rdi rsi rdx rcx r8 r9 s =
     do {
       k \<leftarrow> getPid (ksch s);
       if rdi = 0 then sys_write rdx rcx s
       else if rdi = 1 then sys_read rdx rcx s
       else if rdi = 2 then let (v, t) = getTime (c8 rsi) (tm (ksch s)) in Some (returns k v (set_sch ((ksch s)\<lparr>tm := t\<rparr>) s))
       else if rdi = 3 then sch_call k (enqueueProcess rsi (c8 rdx) (i32 rcx) r8 r9) s
       else if rdi = 4 then sch_do k exitProcess s
       else if rdi = 5 then ptr_call k (dumpMM (lits E) (numBuf E)) s
       else if rdi = 6 then ptr_call k (processes (lits E) (numBuf E)) s
       else if rdi = 7 then do { (p, c) \<leftarrow> getSems (lits E) (numBuf E) (sm (pp s)); Some (returns k (int p) (set_sm c s)) }
       else if rdi = 8 then ptr_call k (malloc_s rsi) s
       else if rdi = 9 then sch_do k (free_s rsi) s
       else if rdi = 10 then do {
         (r, f, p) \<leftarrow> openPipe (litSem E) (litFull E) rdx (pp s);
         let s = s\<lparr>pp := p\<rparr>;
         let s = (case f of None \<Rightarrow> s | Some fd2 \<Rightarrow> set_sch ((ksch s)\<lparr>fds := (fds (ksch s))(rsi \<mapsto> fd2)\<rparr>) s);
         Some (returns k r s)
       }
       else if rdi = 11 then sch_call k (nice (i32 rsi) (c8 rdx)) s
       else if rdi = 12 then sch_do k (sleep (i32 rsi)) s
       else if rdi = 13 then sem_do k (semWait rsi) s
       else if rdi = 14 then sem_do k (semPost rsi) s
       else if rdi = 15 then do { (p, c) \<leftarrow> semOpen rsi (of_nat rdx) (sm (pp s)); Some (returns k (int p) (set_sm c s)) }
       else if rdi = 16 then sch_do k (\<lambda>c. map_option snd (kill (i32 rsi) c)) s
       else if rdi = 17 then Some (returns k k s)
       else if rdi = 18 then do { (r, c) \<leftarrow> semClose rsi (sm (pp s)); Some (returns k r (set_sm c s)) }
       else if rdi = 19 then sch_call k (block (i32 rsi)) s
       else if rdi = 20 then sch_call k (unblock (i32 rsi)) s
       else if rdi = 21 then sch_do k wait s
       else if rdi = 22 then do { (a, p) \<leftarrow> pipes (lits E) (numBuf E) (pidBuf E) (pp s); Some (returns k (int a) (s\<lparr>pp := p\<rparr>)) }
       else if rdi = 23 then sch_call k quitCPU s
       else if rdi = 24 then do { p \<leftarrow> closePipe (i32 rsi) (pp s); Some (returns k 1 (s\<lparr>pp := p\<rparr>)) }
       else Some (returns k (- 1) s)
     }"

section \<open>Interrupts\<close>

definition int_21 :: "layout \<Rightarrow> u8 \<Rightarrow> kernel_state \<Rightarrow> kernel_state option" where
  "int_21 L c s = do { (b, d) \<leftarrow> keyboard_handler L c (kb s) (ksch s); Some ((set_sch d s)\<lparr>kb := b\<rparr>) }"

definition irqDispatcher :: "layout \<Rightarrow> u8 \<Rightarrow> nat \<Rightarrow> kernel_state \<Rightarrow> kernel_state option" where
  "irqDispatcher L c irq s =
     (if irq = 0 then Some (set_sch (int_20 (ksch s)) s)
      else if irq = 1 then int_21 L c s
      else Some s)"

end
