(* ===== verification/Scheduler_Live.thy ===== *)
theory Scheduler_Live
  imports Scheduler_Props
begin

text \<open>
  Fairness of the round robin: while no process is created or ends, every ready process runs
  after a bounded number of ticks.
\<close>

section \<open>The distance to a process\<close>

lemma rota_at:
  assumes "distinct (as @ y # bs)" "y \<noteq> NULL" shows "rota (as @ y # bs) y = y # bs @ as"
proof -
  have "y \<notin> set as" using assms(1) by auto
  then have "takeWhile (\<lambda>a. a \<noteq> y) (as @ y # bs) = as" "dropWhile (\<lambda>a. a \<noteq> y) (as @ y # bs) = y # bs"
    by (auto simp: takeWhile_append dropWhile_append)
  with assms(2) show ?thesis by (simp add: rota_def)
qed

lemma rota_hd0:
  assumes "distinct (xs @ c # ys)" "NULL \<notin> set (xs @ c # ys)" shows "rota (xs @ c # ys) (hd0 ys) = ys @ xs @ [c]"
proof (cases ys)
  case (Cons y zs)
  then show ?thesis using rota_at [of "xs @ [c]" y zs] assms by auto
qed (simp add: rota_def)

text \<open>How many processes are before \<open>x\<close> in the rotation that starts at \<open>c\<close>.\<close>

definition dist :: "addr list \<Rightarrow> addr \<Rightarrow> addr \<Rightarrow> nat" where
  "dist ps c x = length (takeWhile (\<lambda>a. a \<noteq> x) (rota ps c))"

lemma dist_next:
  assumes d: "distinct (xs @ c # ys)" "NULL \<notin> set (xs @ c # ys)" and y: "ys @ xs = us @ y # vs" and x: "x \<in> set (y # vs)"
  shows "dist (xs @ c # ys) y x < dist (xs @ c # ys) c x"
proof -
  have yn: "y \<in> set (xs @ c # ys)" using arg_cong [OF y, of set] by auto
  then have y0: "y \<noteq> NULL" and c0: "c \<noteq> NULL" using d(2) by (metis, auto)
  have dy: "distinct (us @ y # vs)" "c \<notin> set (us @ y # vs)" using d(1) unfolding y [symmetric] by auto
  have nu: "y \<notin> set us" "y \<notin> set vs" using dy(1) by auto
  have ry: "rota (xs @ c # ys) y = y # vs @ c # us"
  proof -
    have "y \<in> set ys \<or> y \<in> set xs" using yn dy(2) by auto
    then show ?thesis
    proof
      assume "y \<in> set ys"
      then obtain a b where ab: "ys = a @ y # b" by (meson split_list)
      then have "us @ y # vs = a @ y # b @ xs" using y by simp
      then have "us = a" "vs = b @ xs" using append_Cons_eq_iff [OF nu, of a "b @ xs"] by blast+
      with rota_at [of "xs @ c # a" y b] d(1) y0 ab show ?thesis by simp
    next
      assume "y \<in> set xs"
      then obtain a b where ab: "xs = a @ y # b" by (meson split_list)
      then have "us @ y # vs = (ys @ a) @ y # b" using y by simp
      then have "us = ys @ a" "vs = b" using append_Cons_eq_iff [OF nu, of "ys @ a" b] by blast+
      with rota_at [of a y "b @ c # ys"] d(1) y0 ab show ?thesis by simp
    qed
  qed
  have rc: "rota (xs @ c # ys) c = c # us @ y # vs" using rota_at [OF d(1) c0] y by simp
  have "x \<notin> set (c # us)" using x dy by auto
  then have "takeWhile (\<lambda>a. a \<noteq> x) ((c # us) @ y # vs) = (c # us) @ takeWhile (\<lambda>a. a \<noteq> x) (y # vs)"
    by (intro takeWhile_append2) auto
  moreover have "takeWhile (\<lambda>a. a \<noteq> x) ((y # vs) @ c # us) = takeWhile (\<lambda>a. a \<noteq> x) (y # vs)"
    using x by (intro takeWhile_append1 [of x]) auto
  ultimately show ?thesis by (simp add: dist_def ry rc)
qed

section \<open>A fair state\<close>

text \<open>
  No dead process is left in the list, and no process is over its quota: the running one may
  have used it up, the others have some of it left.
\<close>

definition fair :: "sched_state \<Rightarrow> addr list \<Rightarrow> addr list \<Rightarrow> bool" where
  "fair s ps ss \<longleftrightarrow> runs s ps ss \<and> (\<forall>a \<in> set ps. state (P s a) \<noteq> DEAD \<and> 0 \<le> executions (P s a) \<and>
     executions (P s a) < MAX_PRIORITY - priority (P s a) + (if a = currentProcess s then 1 else 0))"

text \<open>The number of ticks that \<open>x\<close> still waits, at most.\<close>

definition waitTicks :: "addr list \<Rightarrow> addr \<Rightarrow> sched_state \<Rightarrow> nat" where
  "waitTicks ps x s = 40 * dist ps (currentProcess s) x + nat (40 - executions (P s (currentProcess s)))"

lemma find_ready:
  assumes "x \<in> set zs" "Q x"
  obtains us y vs where "zs = us @ y # vs" "find Q zs = Some y" "x \<in> set (y # vs)" "Q y"
  using assms
proof (induction zs arbitrary: thesis)
  case (Cons z zs)
  show ?case
  proof (cases "Q z")
    case True
    then show ?thesis using Cons.prems(1) [of "[]" z zs] Cons.prems(2) by simp
  next
    case False
    then have "x \<in> set zs" using Cons.prems(2,3) by auto
    then obtain us y vs where "zs = us @ y # vs" "find Q zs = Some y" "x \<in> set (y # vs)" "Q y"
      using Cons.IH Cons.prems(3) by blast
    then show ?thesis using Cons.prems(1) [of "z # us" y vs] False by simp
  qed
qed simp

lemma find_append_some: "find Q xs = Some y \<Longrightarrow> find Q (xs @ ys) = Some y"
  by (induction xs) auto

text \<open>With quota left the process goes on; with the quota used up the next ready process is closer to \<open>x\<close>.\<close>

lemma pick_closer:
  assumes b: "base_inv u ps us" and c: "c = currentProcess u" "c \<in> set ps" "state (P u c) = READY"
    and x: "x \<in> set ps" "state (P u x) = READY" "x \<noteq> c"
  shows "if quota_over u then dist ps (pick u ps) x < dist ps c x else pick u ps = c"
proof -
  obtain xs ys where ps: "ps = xs @ c # ys" using split_list [OF c(2)] by blast
  have d: "distinct (xs @ c # ys)" "NULL \<notin> set (xs @ c # ys)" using base_distinct [OF b] base_nonnull [OF b] ps by simp_all
  have c0: "c \<noteq> NULL" using d(2) by auto
  show ?thesis
  proof (cases "quota_over u")
    case True
    have "next_p (P u c) = hd0 ys" using base_next b ps by simp
    then have ro: "rota ps (startAt u) = (ys @ xs) @ [c]" using True c(1) rota_hd0 [OF d] ps by (simp add: startAt_def)
    have "x \<in> set (ys @ xs)" using x(1,3) ps by auto
    from find_ready [of x "ys @ xs" "\<lambda>a. state (P u a) = READY", OF this x(2)] obtain us y vs where
      y: "ys @ xs = us @ y # vs" "find (\<lambda>a. state (P u a) = READY) (ys @ xs) = Some y" "x \<in> set (y # vs)" by metis
    have "pick u ps = y" using find_append_some [OF y(2), of "[c]"] by (simp add: pick_def ro)
    then show ?thesis using True dist_next [OF d y(1,3)] ps by simp
  next
    case False
    then have "startAt u = c" using c(1) by (simp add: startAt_def)
    then have "rota ps (startAt u) = c # ys @ xs" using rota_at [OF d(1) c0] ps by simp
    with c(3) False show ?thesis by (simp add: pick_def)
  qed
qed

text \<open>
  What the timer leaves alone: the bytes of memory, the descriptors, the blocks that the scheduler
  does not hold, and who is who in the list.
\<close>

definition undisturbed :: "sched_state \<Rightarrow> sched_state \<Rightarrow> addr list \<Rightarrow> bool" where
  "undisturbed s t ps \<longleftrightarrow> others_kept s t \<and> ram t = ram s \<and> fds t = fds s \<and> sleepers t \<subseteq> sleepers s \<and>
     (\<forall>a \<in> set ps. pid (P t a) = pid (P s a) \<and> fd (P t a) = fd (P s a))"

lemma undisturbed_refl [simp]: "undisturbed s s ps"
  by (simp add: undisturbed_def)

lemma undisturbed_trans: "undisturbed s t ps \<Longrightarrow> undisturbed t u ps \<Longrightarrow> undisturbed s u ps"
  unfolding undisturbed_def using others_kept_trans by (metis subset_trans)

lemma forceTimer_exec:
  assumes inv: "sched_inv s ps ss"
  shows "\<exists>u us t. sched_inv u ps us \<and> wakes s u ps \<and> slept s u ps \<and> forceTimer s = Some t \<and> sched_inv t (survivors u ps) us \<and>
    others_kept s t \<and> ram t = ram s \<and> fds t = fds s \<and> sleepers t \<subseteq> sleepers s \<and>
    currentProcess t = pick u ps \<and> pick u ps \<in> set (survivors u ps) \<and> state (P t (pick u ps)) = READY \<and>
    (\<forall>a \<in> set (survivors u ps). kept (P u a) (P t a) \<and> (pid (P u a) \<noteq> IDLE_PID \<longrightarrow> state (P t a) = state (P u a)) \<and>
       executions (P t a) = (let e = (if a = currentProcess s \<and> quota_over u then 0 else executions (P u a))
         in if a = pick u ps then s8 (e + 1) else e))"
proof -
  from forceTimer_spec [OF inv] obtain u us t' where
    u: "checkSleeping s = Some u" "sched_inv u ps us" "wakes s u ps" "slept s u ps" "forceTimer s = Some t'"
      "others_kept s t'" "ram t' = ram s" "sleepers t' \<subseteq> sleepers s" by blast
  note w = wakesD [OF u(3)]
  have "sched_inv (int_20 u) ps us" using u(2) by simp
  from nextProcess_spec [OF this, of "cpu_rsp u"] obtain t where
    t: "nextProcess (cpu_rsp u) (int_20 u) = Some (rsp (P t (pick u ps)), t)" "sched_inv t (survivors u ps) us"
      "currentProcess t = pick u ps" "pick u ps \<in> set (survivors u ps)" "state (P t (pick u ps)) = READY" "fds t = fds (int_20 u)"
      "\<forall>a \<in> set (survivors u ps). kept (P u a) (P t a) \<and> (pid (P u a) \<noteq> IDLE_PID \<longrightarrow> state (P t a) = state (P u a)) \<and>
         executions (P t a) = (let e = (if a = currentProcess u \<and> quota_over u then 0 else executions (P u a))
           in if a = pick u ps then s8 (e + 1) else e)"
    by (auto simp: Let_def)
  have run: "forceTimer s = Some (t\<lparr>cpu_rsp := rsp (P t (pick u ps))\<rparr>)" using u(1) t(1) by (simp add: forceTimer_def)
  then have t': "t' = t\<lparr>cpu_rsp := rsp (P t (pick u ps))\<rparr>" using u(5) by simp
  moreover have "sched_inv (t\<lparr>cpu_rsp := r\<rparr>) qs us = sched_inv t qs us" for r qs by (simp add: sched_inv_def)
  moreover have "fds t' = fds s" using t(6) w(8) t' by (simp add: int_20_def)
  ultimately show ?thesis
    using u t(2-5,7) w(1) by (intro exI [of _ u] exI [of _ us] exI [of _ t']) auto
qed

text \<open>The timer interrupt makes a fair state of one in which the running process may have stopped.\<close>

lemma fair_force:
  assumes inv: "sched_inv s ps ss" and c: "c = currentProcess s" "c \<in> set ps"
    and fa: "\<And>a. a \<in> set ps \<Longrightarrow> state (P s a) \<noteq> DEAD \<and> 0 \<le> executions (P s a) \<and>
      executions (P s a) < MAX_PRIORITY - priority (P s a) + (if a = c \<and> state (P s a) = READY then 1 else 0)"
  shows "\<exists>u us t. sched_inv u ps us \<and> wakes s u ps \<and> slept s u ps \<and> forceTimer s = Some t \<and> fair t ps us \<and> undisturbed s t ps \<and>
    currentProcess t = pick u ps \<and>
    (\<forall>a \<in> set ps. (pid (P s a) \<noteq> IDLE_PID \<longrightarrow> state (P t a) = state (P u a)) \<and>
       executions (P t a) = (let e = (if a = c \<and> quota_over u then 0 else executions (P s a)) in if a = pick u ps then s8 (e + 1) else e))"
proof -
  have b: "base_inv s ps ss" using sched_base [OF inv] .
  have c0: "c \<noteq> NULL" using base_nonnull [OF b] c(2) by metis
  from forceTimer_exec [OF inv, folded c(1)] obtain u us t where
    u: "sched_inv u ps us" "wakes s u ps" "slept s u ps" "forceTimer s = Some t" "sched_inv t (survivors u ps) us"
      "currentProcess t = pick u ps" "pick u ps \<in> set (survivors u ps)" "state (P t (pick u ps)) = READY"
      "\<forall>a \<in> set (survivors u ps). kept (P u a) (P t a) \<and> (pid (P u a) \<noteq> IDLE_PID \<longrightarrow> state (P t a) = state (P u a)) \<and>
         executions (P t a) = (let e = (if a = c \<and> quota_over u then 0 else executions (P u a)) in if a = pick u ps then s8 (e + 1) else e)"
    and un: "others_kept s t" "ram t = ram s" "fds t = fds s" "sleepers t \<subseteq> sleepers s"
    by blast
  have wk: "executions (P u a) = executions (P s a)" "priority (P u a) = priority (P s a)" "pid (P u a) = pid (P s a)" "fd (P u a) = fd (P s a)"
    "state (P u a) = state (P s a) \<or> state (P u a) = READY" "state (P u a) \<noteq> DEAD"
    if "a \<in> set ps" for a
  proof -
    have "woken (P s a) (P u a)" using u(2) that unfolding wakes_def by blast
    with fa [OF that] show "executions (P u a) = executions (P s a)" "priority (P u a) = priority (P s a)" "pid (P u a) = pid (P s a)"
      "fd (P u a) = fd (P s a)" "state (P u a) = state (P s a) \<or> state (P u a) = READY" "state (P u a) \<noteq> DEAD"
      unfolding woken_def by (cases "P s a"; cases "P u a"; auto)+
  qed
  have sv: "survivors u ps = ps" using wk(6) by (auto simp: survivors_def intro!: filter_True)
  have cu: "currentProcess u = c" using wakesD(1) [OF u(2)] c(1) by simp
  define y where "y = pick u ps"
  have iy: "y \<in> set ps" and ty: "currentProcess t = y" using u(6,7) sv by (simp_all add: y_def)
  have kp: "priority (P t a) = priority (P s a)" "pid (P t a) = pid (P s a)" "fd (P t a) = fd (P s a)"
    "pid (P s a) \<noteq> IDLE_PID \<Longrightarrow> state (P t a) = state (P u a)"
    "executions (P t a) = (let e = (if a = c \<and> quota_over u then 0 else executions (P s a)) in if a = y then s8 (e + 1) else e)"
    if "a \<in> set ps" for a
    using u(9) [unfolded sv, rule_format, OF that] wk [OF that] by (auto simp: kept_iff y_def)
  have qo: "quota_over u \<Longrightarrow> executions (P s c) = MAX_PRIORITY - priority (P s c)"
    "state (P s c) = READY \<Longrightarrow> \<not> quota_over u \<Longrightarrow> executions (P s c) \<noteq> MAX_PRIORITY - priority (P s c)"
    using c0 wk [OF c(2)] by (auto simp: quota_over_def cu)
  have pr: "0 \<le> priority (P s a)" "priority (P s a) < 40" if "a \<in> set ps" for a using base_pinv [OF b that] by (simp_all add: pinv_def)
  have ex: "0 \<le> executions (P t a) \<and> executions (P t a) < MAX_PRIORITY - priority (P t a) + (if a = y then 1 else 0)" if "a \<in> set ps" for a
  proof -
    define e where "e = (if a = c \<and> quota_over u then 0 else executions (P s a))"
    have e: "0 \<le> e" "e < MAX_PRIORITY - priority (P s a)"
      using fa [OF that] pr [OF that] qo by (auto simp: e_def split: if_splits)
    then have "s8 (e + 1) = e + 1" using pr [OF that] by (intro s8_id) auto
    with e kp [OF that] show ?thesis by (auto simp: e_def [symmetric])
  qed
  have "state (P t a) \<noteq> DEAD" if "a \<in> set ps" for a
    using kp(4) [OF that] wk(6) [OF that] base_pinv [OF sched_base [OF u(5)], of a] kp(2) [OF that] that sv
    by (cases "pid (P s a) = IDLE_PID") (auto simp: pinv_def)
  then have "fair t ps us" using ex u(5,8) sv iy ty by (simp add: fair_def runs_def y_def)
  moreover have "undisturbed s t ps" using un kp(2,3) by (simp add: undisturbed_def)
  ultimately show ?thesis using u(1-4,6) kp(4,5) unfolding y_def by blast
qed

lemma fairD: "fair s ps ss \<Longrightarrow> a \<in> set ps \<Longrightarrow> state (P s a) \<noteq> DEAD \<and> 0 \<le> executions (P s a) \<and>
    executions (P s a) < MAX_PRIORITY - priority (P s a) + (if a = currentProcess s \<and> state (P s a) = READY then 1 else 0)"
  by (auto simp: fair_def dest: runs_ready)

lemma fair_tick:
  assumes f: "fair s ps ss" and x: "x \<in> set ps" "state (P s x) = READY" "pid (P s x) \<noteq> IDLE_PID" "x \<noteq> currentProcess s"
  shows "\<exists>t us. forceTimer s = Some t \<and> fair t ps us \<and> undisturbed s t ps \<and> state (P t x) = READY \<and> pid (P t x) \<noteq> IDLE_PID \<and>
    waitTicks ps x t < waitTicks ps x s"
proof -
  define c where "c = currentProcess s"
  have r: "runs s ps ss" using f by (simp add: fair_def)
  have ic: "c \<in> set ps" using runs_in [OF r] by (simp add: c_def)
  note fa = fairD [OF f, folded c_def]
  from fair_force [OF runs_inv [OF r] c_def ic fa] obtain u us t where
    u: "sched_inv u ps us" "wakes s u ps" "forceTimer s = Some t" "fair t ps us" "undisturbed s t ps" "currentProcess t = pick u ps"
      "\<forall>a \<in> set ps. (pid (P s a) \<noteq> IDLE_PID \<longrightarrow> state (P t a) = state (P u a)) \<and>
         executions (P t a) = (let e = (if a = c \<and> quota_over u then 0 else executions (P s a)) in if a = pick u ps then s8 (e + 1) else e)"
    by blast
  have "woken (P s a) (P u a)" if "a \<in> {c, x}" for a using u(2) that ic x(1) unfolding wakes_def by blast
  then have wk: "executions (P u c) = executions (P s c)" "priority (P u c) = priority (P s c)" "state (P u c) = READY" "state (P u x) = READY"
    using runs_ready [OF r] x(2) unfolding woken_def c_def [symmetric]
    by (cases "P s c"; cases "P u c"; cases "P s x"; cases "P u x"; force)+
  have cu: "currentProcess u = c" using wakesD(1) [OF u(2)] by (simp add: c_def)
  define y where "y = pick u ps"
  have ty: "currentProcess t = y" and iy: "y \<in> set ps" using u(4,6) by (auto simp: y_def fair_def dest: runs_in)
  have qo: "quota_over u \<longleftrightarrow> executions (P s c) = MAX_PRIORITY - priority (P s c)"
    using wk runs_nonnull [OF r] by (simp add: quota_over_def cu c_def [symmetric])
  have pr: "0 \<le> priority (P s a)" "priority (P s a) < 40" if "a \<in> set ps" for a
    using base_pinv [OF sched_base [OF runs_inv [OF r]] that] by (simp_all add: pinv_def)
  have clo: "if quota_over u then dist ps y x < dist ps c x else y = c"
    using pick_closer [OF sched_base [OF u(1)] cu [symmetric] ic wk(3) x(1) wk(4)] x(4) unfolding y_def c_def by blast
  have kp: "executions (P t a) = (let e = (if a = c \<and> quota_over u then 0 else executions (P s a)) in if a = y then s8 (e + 1) else e)"
    if "a \<in> set ps" for a using u(7) that by (simp add: y_def)
  have dec: "waitTicks ps x t < waitTicks ps x s"
  proof (cases "quota_over u")
    case True
    then have dl: "dist ps y x + 1 \<le> dist ps c x" using clo by simp
    have "executions (P t y) \<noteq> 0" using kp [OF iy] fa [OF iy] pr [OF iy] True
      by (cases "y = c") (auto simp: Let_def s8_id)
    moreover have "0 \<le> executions (P t y)" using fairD [OF u(4) iy] by simp
    ultimately have "nat (40 - executions (P t y)) < 40" by linarith
    with dl show ?thesis by (simp add: waitTicks_def ty c_def)
  next
    case False
    then have yc: "y = c" using clo by simp
    have "executions (P t c) = executions (P s c) + 1" using kp [OF ic] fa [OF ic] pr [OF ic] False yc qo
      by (auto simp: Let_def s8_id split: if_splits)
    moreover have "executions (P s c) < 40" using fa [OF ic] pr [OF ic] False qo by (auto split: if_splits)
    ultimately show ?thesis using yc by (simp add: waitTicks_def ty c_def [symmetric])
  qed
  have "state (P t x) = READY" "pid (P t x) \<noteq> IDLE_PID" using u(5,7) x(1,3) wk(4) by (auto simp: undisturbed_def)
  with u(3-5) dec show ?thesis by blast
qed

section \<open>Every ready process runs\<close>

primrec timerTicks :: "nat \<Rightarrow> sched_state \<Rightarrow> sched_state option" where
  "timerTicks 0 s = Some s"
| "timerTicks (Suc n) s = do { s \<leftarrow> forceTimer s; timerTicks n s }"

lemma fair_runs:
  assumes "fair s ps ss" "x \<in> set ps" "state (P s x) = READY" "pid (P s x) \<noteq> IDLE_PID"
  shows "\<exists>n t us. n \<le> waitTicks ps x s \<and> timerTicks n s = Some t \<and> fair t ps us \<and> currentProcess t = x \<and> undisturbed s t ps"
  using assms
proof (induction "waitTicks ps x s" arbitrary: s ss rule: less_induct)
  case less
  show ?case
  proof (cases "x = currentProcess s")
    case True
    then show ?thesis using less.prems(1) by (intro exI [of _ 0] exI [of _ s]) auto
  next
    case False
    from fair_tick [OF less.prems False] obtain t us where
      t: "forceTimer s = Some t" "fair t ps us" "undisturbed s t ps" "state (P t x) = READY" "pid (P t x) \<noteq> IDLE_PID"
        "waitTicks ps x t < waitTicks ps x s" by blast
    from less.hyps [OF t(6,2) less.prems(2) t(4,5)] obtain n v vs where
      "n \<le> waitTicks ps x t" "timerTicks n t = Some v" "fair v ps vs" "currentProcess v = x" "undisturbed t v ps" by blast
    with t undisturbed_trans [OF t(3)] show ?thesis by (intro exI [of _ "Suc n"] exI [of _ v] exI [of _ vs]) auto
  qed
qed

section \<open>Blocking and waking in a fair state\<close>

lemma fair_mem:
  assumes "fair s ps ss" "runs (s\<lparr>mm := m\<rparr>) ps ss" shows "fair (s\<lparr>mm := m\<rparr>) ps ss"
  using assms by (simp add: fair_def)

lemma fair_block:
  assumes f: "fair s ps ss" and c: "c = currentProcess s" "pid (P s c) = k" "k \<noteq> IDLE_PID" "k \<notin> sleepers s"
  shows "\<exists>t us. block k s = Some (EXIT_SUCCESS, t) \<and> fair t ps us \<and> undisturbed s t ps \<and>
    currentProcess t \<noteq> c \<and> state (P t c) = BLOCKED"
proof -
  have r: "runs s ps ss" using f by (simp add: fair_def)
  note inv = runs_inv [OF r] and ic = runs_in [OF r, folded c(1)]
  have sc: "state (P s c) \<noteq> DEAD" using runs_ready [OF r] c(1) by simp
  from blockWith_found [OF sched_base [OF inv] runs_in [OF r] ic c(2) sc, of forceTimer] obtain v where
    v: "base_inv v ps ss" "v = s\<lparr>procs := procs v\<rparr>" "state (P v c) = BLOCKED"
      "\<forall>x \<in> set ps. wake_eq (if x = c then (P s x)\<lparr>state := BLOCKED\<rparr> else P s x) (P v x)"
      "block k s = (if c = currentProcess s
        then do { u \<leftarrow> forceTimer (v\<lparr>procs := (procs v)(c \<mapsto> (P v c)\<lparr>executions := 0\<rparr>)\<rparr>); Some (EXIT_SUCCESS, u) }
        else Some (EXIT_SUCCESS, v))" "\<forall>x. procs v x = None \<longleftrightarrow> procs s x = None" unfolding block_def by blast
  define w where "w = v\<lparr>procs := (procs v)(c \<mapsto> (P v c)\<lparr>executions := 0\<rparr>)\<rparr>"
  have "base_inv w ps ss"
    using modP_ok(2) [OF v(1) ic, where f = "executions_update (\<lambda>_. 0)"] mild_exec by (auto simp: w_def)
  then have iw: "sched_inv w ps ss" by (intro sched_procs [OF sched_procs [OF inv v(1,2)]]) (simp_all add: w_def)
  have eq: "sleeps w = sleeps s" "mm w = mm s" "ram w = ram s" "fds w = fds s" "c = currentProcess w"
    using c(1) unfolding w_def by (simp, subst v(2), simp)+
  have sw: "sleepers w = sleepers s" by (simp add: sleepers_def eq(1))
  have wx: "pid (P w x) = pid (P s x)" "fd (P w x) = fd (P s x)" "priority (P w x) = priority (P s x)"
    "state (P w x) = (if x = c then BLOCKED else state (P s x))" "executions (P w x) = (if x = c then 0 else executions (P s x))"
    if "x \<in> set ps" for x
  proof -
    have "wake_eq (if x = c then (P s x)\<lparr>state := BLOCKED\<rparr> else P s x) (P v x)" using v(4) that by blast
    then show "pid (P w x) = pid (P s x)" "fd (P w x) = fd (P s x)" "priority (P w x) = priority (P s x)"
      "state (P w x) = (if x = c then BLOCKED else state (P s x))" "executions (P w x) = (if x = c then 0 else executions (P s x))"
      unfolding wake_eq_def w_def by (cases "P s x"; cases "P v x"; auto split: if_splits)+
  qed
  obtain pc where "procs s c = Some pc" using base_dom [OF sched_base [OF inv] ic] by blast
  then have "procs w x = None \<longleftrightarrow> procs s x = None" for x using v(6) by (auto simp: w_def)
  then have kw: "others_kept s w" by (rule others_kept_procs) (simp_all add: eq)
  have uw: "undisturbed s w ps" using kw eq sw wx(1,2) by (simp add: undisturbed_def)
  have fa: "state (P w a) \<noteq> DEAD \<and> 0 \<le> executions (P w a) \<and>
      executions (P w a) < MAX_PRIORITY - priority (P w a) + (if a = c \<and> state (P w a) = READY then 1 else 0)" if "a \<in> set ps" for a
    using fairD [OF f that] wx [OF that] base_pinv [OF sched_base [OF inv] that] c(1) by (auto simp: pinv_def)
  from fair_force [OF iw eq(5) ic fa] obtain u us t where
    t: "slept w u ps" "forceTimer w = Some t" "fair t ps us" "undisturbed w t ps"
      "\<forall>a \<in> set ps. pid (P w a) \<noteq> IDLE_PID \<longrightarrow> state (P t a) = state (P u a)" by blast
  have "state (P u c) = BLOCKED" using t(1) ic wx [OF ic] c(2,4) unfolding slept_def sw by auto
  then have bc: "state (P t c) = BLOCKED" using t(5) ic wx(1) [OF ic] c(2,3) by simp
  moreover have "currentProcess t \<noteq> c" using runs_ready [of t ps us] t(3) bc by (auto simp: fair_def)
  moreover have "block k s = Some (EXIT_SUCCESS, t)" using v(5) t(2) c(1) by (simp add: w_def)
  ultimately show ?thesis using t(3) undisturbed_trans [OF uw t(4)] by blast
qed

lemma fair_unblock:
  assumes f: "fair s ps ss" and a: "a \<in> set ps" "pid (P s a) = k"
  shows "\<exists>t. unblock k s = Some (EXIT_SUCCESS, t) \<and> fair t ps ss \<and> undisturbed s t ps \<and> state (P t a) = READY"
proof -
  have r: "runs s ps ss" using f by (simp add: fair_def)
  note b = sched_base [OF runs_inv [OF r]]
  have live: "state (P s a) \<noteq> DEAD" using fairD [OF f a(1)] by simp
  from unblock_found [OF b a live] obtain t where
    t: "unblock k s = Some (EXIT_SUCCESS, t)" "base_inv t ps ss" "t = s\<lparr>procs := procs t\<rparr>" "state (P t a) = READY"
      "\<forall>c \<in> set ps. wake_eq (if c = a then (P s c)\<lparr>state := READY\<rparr> else P s c) (P t c)" by blast
  have px: "pid (P t x) = pid (P s x)" "fd (P t x) = fd (P s x)" "priority (P t x) = priority (P s x)"
    "executions (P t x) = executions (P s x)" "state (P t x) = (if x = a then READY else state (P s x))" if "x \<in> set ps" for x
  proof -
    have "wake_eq (if x = a then (P s x)\<lparr>state := READY\<rparr> else P s x) (P t x)" using t(5) that by blast
    then show "pid (P t x) = pid (P s x)" "fd (P t x) = fd (P s x)" "priority (P t x) = priority (P s x)"
      "executions (P t x) = executions (P s x)" "state (P t x) = (if x = a then READY else state (P s x))"
      unfolding wake_eq_def by (cases "P s x"; cases "P t x"; auto split: if_splits)+
  qed
  have eq: "sleeps t = sleeps s" "mm t = mm s" "ram t = ram s" "fds t = fds s" "currentProcess t = currentProcess s"
    by (subst t(3), simp)+
  have "others_kept s t" by (rule others_kept_procs [OF unblock_none [OF t(1)]]) (simp_all add: eq)
  then have "undisturbed s t ps" using px eq by (simp add: undisturbed_def sleepers_def)
  moreover have "sched_inv t ps ss" using sched_procs [OF runs_inv [OF r] t(2,3)] .
  then have "fair t ps ss" using f px eq(5) runs_in [OF r] by (auto simp: fair_def runs_def)
  ultimately show ?thesis using t(1,4) by blast
qed

section \<open>The property\<close>

lemma takeWhile_short: "x \<in> set zs \<Longrightarrow> length (takeWhile (\<lambda>a. a \<noteq> x) zs) < length zs"
  by (induction zs) auto

lemma waitTicks_bound:
  assumes "fair s ps ss" "x \<in> set ps" shows "waitTicks ps x s \<le> 40 * length ps"
proof -
  have r: "runs s ps ss" using assms(1) by (simp add: fair_def)
  obtain xs ys where ps: "ps = xs @ currentProcess s # ys" using split_list [OF runs_in [OF r]] by blast
  have "distinct ps" using base_distinct [OF sched_base [OF runs_inv [OF r]]] .
  then have ro: "rota ps (currentProcess s) = currentProcess s # ys @ xs"
    using rota_at [of xs "currentProcess s" ys] runs_nonnull [OF r] ps by simp
  have "x \<in> set (rota ps (currentProcess s))" using assms(2) unfolding ro by (auto simp: ps)
  then have "dist ps (currentProcess s) x < length (rota ps (currentProcess s))"
    unfolding dist_def by (rule takeWhile_short)
  moreover have "length (rota ps (currentProcess s)) = length ps" unfolding ro by (simp add: ps)
  moreover have "0 \<le> executions (P s (currentProcess s))" using assms(1) runs_in [OF r] by (auto simp: fair_def)
  ultimately show ?thesis by (simp add: waitTicks_def)
qed

text \<open>C3: the round robin is fair. While no dead process is in the list and no process is over its
  quota, every ready process runs after at most 40 ticks for each process in the list.\<close>

theorem round_robin_fair:
  assumes "fair s ps ss" and "x \<in> set ps" "state (P s x) = READY" "pid (P s x) \<noteq> IDLE_PID"
  shows "\<exists>n t. n \<le> 40 * length ps \<and> timerTicks n s = Some t \<and> currentProcess t = x"
  using fair_runs [OF assms] waitTicks_bound [OF assms(1,2)] le_trans by blast

theorem round_robin_fair_witness:
  "\<exists>s i a n t. sample s i a \<and> n \<le> 80 \<and> timerTicks n (s\<lparr>currentProcess := i\<rparr>) = Some t \<and> currentProcess t = a"
proof (rule sample)
  fix s i a
  assume s: "sample s i a"
  let ?s = "s\<lparr>currentProcess := i\<rparr>"
  note r = sample_runs [OF s]
  have p: "i \<noteq> a" "pid (P s a) = 2" "state (P s i) = READY" "currentProcess s = a" "executions (P s i) = 0" "executions (P s a) = 0"
    using s by (auto simp: sample_def)
  have "priority (P s x) < 40" "priority (P s x) < 41" if "x \<in> set [i, a]" for x
    using base_pinv [OF sched_base [OF runs_inv [OF r]] that] by (simp_all add: pinv_def)
  moreover have "runs ?s [i, a] []" using r p by (simp add: runs_def sched_inv_def)
  ultimately have "fair ?s [i, a] []" using p runs_ready [OF r] by (simp add: fair_def)
  from round_robin_fair [OF this, of a] p runs_ready [OF r] obtain n t where
    "n \<le> 80" "timerTicks n ?s = Some t" "currentProcess t = a" by auto
  with s show ?thesis by blast
qed

end
