(* ===== verification/Sem_Live.thy ===== *)
theory Sem_Live
  imports Sem_Props Scheduler_Live
begin

text \<open>
  Semaphores and scheduling together: each operation on a semaphore acts on the scheduler by its
  steps, and what happens when a process that waits for a semaphore is unblocked by somebody else.
\<close>

section \<open>The operations as steps of the scheduler\<close>

lemma sch_modSem: "modSem a f s = Some t \<Longrightarrow> sch t = sch s"
  by (auto simp: modSem_def bind_eq_Some_conv split: if_splits)

lemma sch_modWaiter: "modWaiter a f s = Some t \<Longrightarrow> sch t = sch s"
  by (auto simp: modWaiter_def bind_eq_Some_conv split: if_splits)

lemma sch_enqueueWaiter: "enqueueWaiter sem cur s = Some t \<Longrightarrow> sch t = sch s"
  by (auto simp: enqueueWaiter_def bind_eq_Some_conv split: if_splits dest!: sch_modSem sch_modWaiter)

lemma sch_enter: "enter_region s = Some t \<Longrightarrow> sch t = sch s"
  by (auto simp: enter_region_def split: if_splits)

lemma sch_leave [simp]: "sch (leave_region s) = sch s"
  by (simp add: leave_region_def)

lemma sch_finishWait: "finishWait sem s = Some t \<Longrightarrow> sch t = sch s"
  by (auto simp: finishWait_def bind_eq_Some_conv dest!: sch_enter sch_modSem)

text \<open>Waiting obtains a block for the node of the queue and blocks the caller.\<close>

lemma semWait_steps:
  assumes "semWait sem s = Some t" shows "sched_step\<^sup>*\<^sup>* (sch s) (sch t)"
proof -
  obtain s1 x where s1: "enter_region s = Some s1" "sems s1 sem = Some x" using assms by (auto simp: semWait_def bind_eq_Some_conv)
  have e1: "sch s1 = sch s" using sch_enter [OF s1(1)] .
  show ?thesis
  proof (cases "sem_value x > 0")
    case True
    with assms s1 have "sch t = sch s1" by (auto simp: semWait_def bind_eq_Some_conv dest!: sch_modSem)
    then show ?thesis by (simp add: e1)
  next
    case False
    then obtain cur s2 s3 k r c where w: "malloc_m 16 (leave_region s1) = Some (cur, s2)"
      "enqueueWaiter sem cur (s2\<lparr>waiters := (waiters s2)(cur \<mapsto> \<lparr>pid_n = k, next_n = NULL\<rparr>)\<rparr>) = Some s3"
      "block k (sch s3) = Some (r, c)" "r = EXIT_FAILURE \<and> finishWait sem (s3\<lparr>sch := c\<rparr>) = Some t \<or> sch t = c"
      using assms s1 by (auto simp: semWait_def bind_eq_Some_conv Let_def split: if_splits)
    have c: "sch t = c" using w(4) sch_finishWait by fastforce
    obtain p where m: "malloc_s 16 (sch s) = Some (p, sch s2)" using w(1) e1 by (auto simp: malloc_m_def bind_eq_Some_conv)
    have "sch s3 = sch s2" using sch_enqueueWaiter [OF w(2)] by simp
    with step_malloc [OF _ m] step_block [OF w(3)] show ?thesis unfolding c by auto
  qed
qed

text \<open>Behind a post the node of the woken process is given back.\<close>

lemma finishPost_step:
  assumes "finishPost w s = Some t" and "payload (mm (sch s)) w \<noteq> None" "\<not> held (sch s) w"
  shows "sched_step (sch s) (sch t)"
  using assms
proof -
  obtain c where c: "free_s w (sch s) = Some c" "sch t = c"
    using assms(1) by (auto simp: finishPost_def free_m_def bind_eq_Some_conv dest!: sch_enter)
  show ?thesis unfolding c(2) by (rule step_free [OF _ c(1)]) (use assms(2,3) in blast)
qed

section \<open>Unblocking a process that waits\<close>

primrec semWaits :: "nat \<Rightarrow> addr \<Rightarrow> sem_state \<Rightarrow> sem_state option" where
  "semWaits 0 sem s = Some s"
| "semWaits (Suc n) sem s = do { s \<leftarrow> semWaits n sem s; semWait sem s }"

text \<open>As many waits as the value counts go on without blocking.\<close>

lemma semWaits_free:
  assumes "sem_at s sem v ws" "semLock s = 0" "n \<le> unat v"
  shows "\<exists>t. semWaits n sem s = Some t \<and> sem_at t sem (v - of_nat n) ws \<and> squeue t ws = squeue s ws \<and> semLock t = 0 \<and> sch t = sch s"
  using assms(3)
proof (induction n)
  case 0
  then show ?case using assms by simp
next
  case (Suc n)
  then obtain t where t: "semWaits n sem s = Some t" "sem_at t sem (v - of_nat n) ws" "squeue t ws = squeue s ws" "semLock t = 0" "sch t = sch s"
    by auto
  have "unat v < 2 ^ 32" using unsigned_less [where 'a = nat, of v] by simp
  then have "unat (of_nat n :: u32) = n" using Suc.prems by (simp add: unat_of_nat take_bit_nat_eq_self)
  then have "of_nat n \<noteq> v" using Suc.prems by auto
  then have "0 < v - of_nat n" by (simp add: word_gt_0)
  from semWait_free [OF t(2) this t(4)] obtain x where
    x: "sems t sem = Some x" "semWait sem t = Some (t\<lparr>sems := (sems t)(sem \<mapsto> x\<lparr>sem_value := v - of_nat n - 1\<rparr>)\<rparr>)" by blast
  from sem_at_value [OF t(2) x(1), of "v - of_nat n - 1"] t x(2) show ?case by (auto simp: algebra_simps)
qed

text \<open>C15: a process that waits for a semaphore of value 0 and is unblocked by another process, not by a
  post, runs after at most 40 ticks for each process (in a fair state, as in C3). It then takes a
  unit that is not there, because \<open>semWait\<close> does not look at the value again behind \<open>block\<close>: the
  value becomes \<open>2\<^sup>32 - 1\<close>, the process is still in the queue, and the next \<open>2\<^sup>32 - 1\<close> waits
  go on without a post.\<close>

theorem sem_unblocked_waiter:
  assumes "sem_abs s sem (0, q)" and "ready s ps ss" "fair (sch s) ps ss" and "room_for [16] (mm (sch s))"
    and "getPid (sch s) = Some k" "k \<noteq> IDLE_PID" "k \<notin> sleepers (sch s)"
  shows "\<exists>t c n d u. semWait sem s = Some t \<and> getPid (sch t) \<noteq> Some k \<and>
    unblock k (sch t) = Some (EXIT_SUCCESS, c) \<and> n \<le> 40 * length ps \<and> timerTicks n c = Some d \<and> getPid d = Some k \<and>
    resume (t\<lparr>sch := d\<rparr>) = Some u \<and> sem_abs u sem (2 ^ 32 - 1, q @ [k]) \<and>
    (\<forall>j < 2 ^ 32. \<exists>w. semWaits j sem u = Some w \<and> sem_abs w sem (2 ^ 32 - 1 - of_nat j, q @ [k]) \<and> sch w = d)"
proof -
  define c where "c = currentProcess (sch s)"
  obtain ws where at: "sem_at s sem 0 ws" "squeue s ws = q" using assms(1) by (auto simp: sem_abs_def)
  have r: "runs (sch s) ps ss" and ic: "c \<in> set ps" using assms(2) runs_in by (auto simp: ready_def c_def)
  have pc: "pid (P (sch s) c) = k" using getPid_runs [OF r] assms(5) by (simp add: c_def)
  from semWait_block [OF at(1) assms(2,4-7)] obtain t cur qs us m where
    t: "semWait sem s = Some t" "sem_at t sem 0 (ws @ [cur])" "squeue t (ws @ [cur]) = q @ [k]" "ready t qs us"
      "conts t = (conts s)(k \<mapsto> AfterBlock sem)" "runs ((sch s)\<lparr>mm := m\<rparr>) ps ss"
      "block k ((sch s)\<lparr>mm := m\<rparr>) = Some (EXIT_SUCCESS, sch t)"
    unfolding at(2) by blast
  have f1: "fair ((sch s)\<lparr>mm := m\<rparr>) ps ss" using fair_mem [OF assms(3) t(6)] .
  have "k \<notin> sleepers ((sch s)\<lparr>mm := m\<rparr>)" using assms(7) by (simp add: sleepers_def)
  from fair_block [OF f1 _ _ assms(6) this, of c] t(7) pc obtain us' where
    b: "fair (sch t) ps us'" "undisturbed ((sch s)\<lparr>mm := m\<rparr>) (sch t) ps" "currentProcess (sch t) \<noteq> c" by (auto simp: c_def)
  have rt: "runs (sch t) ps us'" using b(1) by (simp add: fair_def)
  have pt: "pid (P (sch t) c) = k" using b(2) ic pc by (simp add: undisturbed_def)
  have "getPid (sch t) \<noteq> Some k"
    using getPid_runs [OF rt] pid_eq_iff [OF sched_base [OF runs_inv [OF rt]] runs_in [OF rt] ic] b(3) pt by auto
  moreover from fair_unblock [OF b(1) ic pt] obtain e where
    e: "unblock k (sch t) = Some (EXIT_SUCCESS, e)" "fair e ps us'" "undisturbed (sch t) e ps" "state (P e c) = READY" by blast
  have "pid (P e c) \<noteq> IDLE_PID" using e(3) ic pt assms(6) by (simp add: undisturbed_def)
  from fair_runs [OF e(2) ic e(4) this] obtain n d vs where
    d: "n \<le> waitTicks ps c e" "timerTicks n e = Some d" "fair d ps vs" "currentProcess d = c" "undisturbed e d ps" by blast
  have n: "n \<le> 40 * length ps" using d(1) waitTicks_bound [OF e(2) ic] by simp
  have rd: "runs d ps vs" using d(3) by (simp add: fair_def)
  have un: "undisturbed (sch t) d ps" using undisturbed_trans [OF e(3) d(5)] .
  have gd: "getPid d = Some k" using getPid_runs [OF rd] d(4) un ic pt by (simp add: undisturbed_def)
  define v where "v = t\<lparr>sch := d, conts := (conts t)(k := None)\<rparr>"
  have fo: "foreign (sch v) w" if "foreign (sch t) w" for w
    using foreign_kept [OF that, of d] un by (simp add: v_def undisturbed_def)
  have av: "sem_at v sem 0 (ws @ [cur])" "squeue v (ws @ [cur]) = q @ [k]"
    using sem_at_frame [OF t(2), of v] fo t(3) by (auto simp: v_def)
  have lv: "semLock v = 0" using t(4) by (simp add: v_def ready_def)
  from finishWait_spec [OF av(1) lv] obtain x where
    x: "sems v sem = Some x" "finishWait sem v = Some (v\<lparr>sems := (sems v)(sem \<mapsto> x\<lparr>sem_value := - 1\<rparr>)\<rparr>)" by auto
  define u where "u = v\<lparr>sems := (sems v)(sem \<mapsto> x\<lparr>sem_value := - 1\<rparr>)\<rparr>"
  have au: "sem_at u sem (- 1) (ws @ [cur])" "squeue u (ws @ [cur]) = q @ [k]" "semLock u = 0" "sch u = d"
    using sem_at_value [OF av(1) x(1), of "- 1"] av(2) lv by (simp_all add: u_def v_def)
  have m1: "(- 1 :: u32) = 2 ^ 32 - 1" by simp
  have "resume (t\<lparr>sch := d\<rparr>) = Some u" using gd t(5) x(2) by (simp add: resume_def u_def v_def)
  moreover have "sem_abs u sem (2 ^ 32 - 1, q @ [k])" using au(1,2) unfolding m1 sem_abs_def fst_conv snd_conv by blast
  moreover have "\<exists>w. semWaits j sem u = Some w \<and> sem_abs w sem (2 ^ 32 - 1 - of_nat j, q @ [k]) \<and> sch w = d" if "j < 2 ^ 32" for j
  proof -
    have "(- 1 :: u32) = 4294967295" by simp
    then have "unat (- 1 :: u32) = 4294967295" by (simp only:) simp
    then have "j \<le> unat (- 1 :: u32)" using that by simp
    from semWaits_free [OF au(1,3) this] au(2,4) show ?thesis unfolding m1 sem_abs_def by fastforce
  qed
  ultimately show ?thesis using t(1) e(1) n d(2) gd by blast
qed

lemma sem_sample_fair:
  assumes "sem_sample s v i a" shows "fair (sch s) [i, a] []"
proof -
  obtain c where c: "sample c i a" "sch s = c" using assms by (auto simp: sem_sample_def)
  note r = sample_runs [OF c(1)]
  have "priority (P c x) < 40" "priority (P c x) < 41" if "x \<in> set [i, a]" for x
    using base_pinv [OF sched_base [OF runs_inv [OF r]] that] by (simp_all add: pinv_def)
  with c r runs_ready [OF r] show ?thesis by (auto simp: fair_def sample_def)
qed

theorem sem_unblocked_waiter_witness:
  "\<exists>s i a t c n d u. sem_sample s 0 i a \<and> semWait 8 s = Some t \<and> unblock 2 (sch t) = Some (EXIT_SUCCESS, c) \<and>
     n \<le> 80 \<and> timerTicks n c = Some d \<and> resume (t\<lparr>sch := d\<rparr>) = Some u \<and> sem_abs u 8 (2 ^ 32 - 1, [2])"
proof (rule sem_sample_ex [of 0])
  fix s i a
  assume s: "sem_sample s 0 i a"
  note d = sem_sampleD [OF s]
  have "sem_abs s 8 (0, [])" using d(1,6) by (auto simp: sem_abs_def)
  from sem_unblocked_waiter [OF this d(2) sem_sample_fair [OF s] sem_sample_room [OF s] d(4)] d(5)
  obtain t c n e u where "semWait 8 s = Some t" "unblock 2 (sch t) = Some (EXIT_SUCCESS, c)" "n \<le> 80" "timerTicks n c = Some e"
    "resume (t\<lparr>sch := e\<rparr>) = Some u" "sem_abs u 8 (2 ^ 32 - 1, [2])" by auto
  with s show ?thesis by blast
qed

end
