(* ===== verification/Syscall_Props.thy ===== *)
theory Syscall_Props
  imports Syscalls Sem_Live
begin

text \<open>
  System calls across components: bytes that one process writes to a pipe by a system call are read by
  another process, after the timer has switched to it, text written to the terminal reaches the screen, and a process that reads from the keyboard
  sleeps until a key is pressed.
\<close>

section \<open>Frame lemmas\<close>

lemma getFd_ram [simp]: "getFdIn (c\<lparr>ram := m\<rparr>) = getFdIn c" "getFdOut (c\<lparr>ram := m\<rparr>) = getFdOut c"
  by (simp_all add: getFdIn_def getFdOut_def)

lemma pram_set_ram [simp]: "pram (set_ram m s) = m"
  by (simp add: set_ram_def)

lemma sch_set_ram [simp]: "sch (sm (set_ram m s)) = (sch (sm s))\<lparr>ram := m\<rparr>"
  by (simp add: set_ram_def)

lemma pipe_kept_ram: "pipe_kept s t \<Longrightarrow> pipe_kept s (set_ram m t)"
  by (auto simp: pipe_kept_def set_ram_def intro: exI [of _ m])

lemma semVal_ram: "semVal (c\<lparr>sch := d\<rparr>) a = semVal c a"
  by simp

lemma pipe_ring_ram:
  assumes "pipe_ring s node b q r" "\<And>x. b \<le> x \<Longrightarrow> x < b + 1024 \<Longrightarrow> m x = pram s x"
  shows "pipe_ring (set_ram m s) node b q r"
proof -
  have "ring m b r q" if "ring (pram s) b r q"
    using that assms(2) by (auto simp: ring_def)
  with assms(1) show ?thesis by (auto simp: pipe_ring_def pipe_obj_def set_ram_def)
qed

lemma ret_set_ram [simp]: "ret (set_ram m s) = ret s"
  by (simp add: set_ram_def)

lemma kstate_simps [simp]: "kram (returns k v s) = kram s" "pp (returns k v s) = pp s" "pp (set_kram m s) = set_ram m (pp s)"
  "rax (returns k v s) = (rax s)(k \<mapsto> of_int v)" "kconts (returns k v s) = kconts s" "kb (returns k v s) = kb s"
  "kconts (set_kram m s) = kconts s" "kb (set_kram m s) = kb s" "rax (set_kram m s) = rax s"
  by (simp_all add: returns_def set_kram_def)

section \<open>Pipes\<close>

lemma writeLoop_pipe:
  assumes "cstr (kram s) (idx buf i) t" "pipe_ring (pp s) node b q r" "found (pp s) (\<lambda>p. fd1 p = d) node" "calm (pp s) k"
    and "length q + length t \<le> 1024" "r + length q + length t < 2147483647" "0 \<le> i" "i + int (length t) \<le> int len + 1"
    and "idx buf i + length t < b \<or> b + 1024 \<le> idx buf i"
  shows "\<exists>p. writeLoop k d buf i len s = Some (returns k (i + int (length t)) (s\<lparr>pp := p\<rparr>)) \<and>
    pipe_ring p node b (q @ t) r \<and> pipe_kept (pp s) p \<and> (\<forall>x. x < b \<or> b + 1024 \<le> x \<longrightarrow> pram p x = kram s x)"
  using assms
proof (induction t arbitrary: i q s)
  case Nil
  then show ?case by (intro exI [of _ "pp s"]) (simp add: writeLoop.simps)
next
  case (Cons c t)
  have c: "kram s (idx buf i) = c" "c \<noteq> 0" using Cons.prems(1) by auto
  obtain p where p: "writePipe d c (pp s) = Some p" "pipe_ring p node b (q @ [c]) r" "pipe_kept (pp s) p"
    "\<And>x. x < b \<or> b + 1024 \<le> x \<Longrightarrow> pram p x = kram s x"
    using writePipe_spec [OF Cons.prems(2-4), of c] Cons.prems(5,6) by auto
  let ?s = "s\<lparr>pp := p\<rparr>"
  have i: "idx buf (i + 1) = Suc (idx buf i)" using Cons.prems(7) by (simp add: idx_def)
  have "cstr (kram s) (Suc (idx buf i)) t" using Cons.prems(1) by simp
  moreover have "p' + length t < b \<or> b + 1024 \<le> p' \<Longrightarrow> cstr (kram s) p' t = cstr (pram p) p' t" for p'
    using p(4) by (intro cstr_cong) auto
  ultimately have cs: "cstr (kram ?s) (idx buf (i + 1)) t" using Cons.prems(9) by (auto simp: i)
  have ck: "calm p k" using p(3) Cons.prems(4) by (rule pipe_kept_calm)
  then have step: "writeLoop k d buf i len s = writeLoop k d buf (i + 1) len ?s"
    using c p(1) Cons.prems(8) by (subst writeLoop.simps) (simp add: suspended_def calm_def)
  have ck': "calm (pp ?s) k" using ck by simp
  have f: "found (pp ?s) (\<lambda>p. fd1 p = d) node" using pipe_kept_found' [OF p(3) Cons.prems(3)] by simp
  obtain p' where p': "writeLoop k d buf (i + 1) len ?s = Some (returns k (i + 1 + int (length t)) (?s\<lparr>pp := p'\<rparr>))"
    "pipe_ring p' node b (q @ c # t) r" "pipe_kept p p'" "\<forall>x. x < b \<or> b + 1024 \<le> x \<longrightarrow> pram p' x = pram p x"
    using Cons.IH [OF cs _ f ck', of "q @ [c]"] p(2) Cons.prems(5-9) by (auto simp: i)
  from p' p(4) pipe_kept_trans [OF p(3) p'(3)] show ?case unfolding step by (intro exI [of _ p']) (simp add: add.assoc)
qed

lemma readPipeLoop_pipe:
  assumes "pipe_ring (pp s) node b (t @ q) r" "found (pp s) (\<lambda>p. fd0 p = d) node" "calm (pp s) k"
    and "r + length t < 2147483647" "0 \<notin> set t" "- 1 \<notin> set t" "dst + length t \<le> b \<or> b + 1024 \<le> dst"
  shows "\<exists>p. readPipeLoop k d dst (length t) n s = Some (returns k (n + int (length t)) (s\<lparr>pp := p\<rparr>)) \<and>
    pipe_ring p node b q (r + length t) \<and> pipe_kept (pp s) p \<and> pram p = wr (kram s) dst t"
  using assms
proof (induction t arbitrary: s r dst n)
  case Nil
  then show ?case by (intro exI [of _ "pp s"]) (simp add: readPipeLoop.simps)
next
  case (Cons c t)
  obtain p where p: "readPipe d (pp s) = Some p" "pipe_ring p node b (t @ q) (Suc r)" "pipe_kept (pp s) p"
    "ret p = (ret (pp s))(k \<mapsto> c)" "pram p = kram s"
    using readPipe_spec [of "pp s" node b c "t @ q" r d k] Cons.prems by auto
  have c: "c \<noteq> 0" "c \<noteq> - 1" using Cons.prems(5,6) by auto
  let ?p = "set_ram ((kram s)(dst := c)) p"
  let ?s = "s\<lparr>pp := ?p\<rparr>"
  have kept: "pipe_kept (pp s) ?p" using p(3) by (rule pipe_kept_ram)
  have ring: "pipe_ring (pp ?s) node b (t @ q) (Suc r)"
    using pipe_ring_ram [OF p(2), of "(kram s)(dst := c)"] p(5) Cons.prems(7) by auto
  have ck: "calm p k" "calm (pp ?s) k" using pipe_kept_calm [OF p(3)] pipe_kept_calm [OF kept] Cons.prems(3) by auto
  have f: "found (pp ?s) (\<lambda>p. fd0 p = d) node" using pipe_kept_found [OF kept Cons.prems(2)] by simp
  have "readPipeLoop k d dst (length (c # t)) n s = readPipeLoop k d (Suc dst) (length t) (n + 1) ?s"
    using p(1,4,5) ck(1) c by (subst readPipeLoop.simps) (simp add: suspended_def calm_def set_kram_def Let_def)
  moreover obtain p' where "readPipeLoop k d (Suc dst) (length t) (n + 1) ?s = Some (returns k (n + 1 + int (length t)) (?s\<lparr>pp := p'\<rparr>))"
    "pipe_ring p' node b q (Suc r + length t)" "pipe_kept ?p p'" "pram p' = wr ((kram s)(dst := c)) (Suc dst) t"
    using Cons.IH [OF ring f ck(2), of "Suc dst" "n + 1"] Cons.prems(4-7) by (auto simp: fun_upd_def)
  ultimately show ?case using pipe_kept_trans [OF kept] by (intro exI [of _ p']) (simp add: wr_Cons add.assoc)
qed

section \<open>The terminal\<close>

lemma sys_write_console:
  assumes k: "getPid (ksch s) = Some k" "getFdOut (ksch s) = Some STDOUT"
    and c: "cstr (kram s) p t" "p + length t < video \<or> video + 4000 \<le> p" "plain t"
    and at: "0 \<le> conX s" "conX s < 80" "0 \<le> conY s" "conY s < 25" and len: "length t \<le> len" "len < 2 ^ 31"
  shows "\<exists>u. sys_write p len s = Some u \<and> rax u k = Some (of_nat (length t)) \<and>
    (rows (kram u), nat (conX u), nat (conY u)) = fold tchar t (rows (kram s), nat (conX s), nat (conY s)) \<and>
    0 \<le> conX u \<and> conX u < 80 \<and> 0 \<le> conY u \<and> conY u < 25 \<and> (\<forall>x. off_screen x \<longrightarrow> kram u x = kram s x)"
proof -
  let ?c = "\<lparr>cmem = kram s, currentX = conX s, currentY = conY s\<rparr>"
  have tk: "take (nat (int len + 1)) t = t" using len by simp
  have "on_screen ?c" "cstr (cmem ?c) p t" using at c by (simp_all add: on_screen_def)
  from printLoop_term [OF this(2) c(2) this(1) c(3), of 0 15 "int len"] obtain c' where
    c': "printStringLen 15 p (int len) ?c = (int (length t), c')" "on_screen c'"
      "term_of_console c' = fold tchar t (term_of_console ?c)" "\<forall>a. off_screen a \<longrightarrow> cmem c' a = kram s a"
    by (auto simp: tk printStringLen_def prints_def)
  define u where "u = returns k (int (length t)) ((set_kram (cmem c') s)\<lparr>conX := currentX c', conY := currentY c'\<rparr>)"
  have "sys_write p len s = Some u"
    using k c'(1) len by (simp add: sys_write_def on_console_def u_def)
  moreover have "kram u = cmem c'" "conX u = currentX c'" "conY u = currentY c'" "rax u k = Some (of_nat (length t))"
    by (simp_all add: u_def returns_def set_kram_def)
  ultimately show ?thesis using c'(2-4) by (auto simp: on_screen_def term_of_console_def)
qed

section \<open>The keyboard\<close>

text \<open>The running process blocks for input: it stays in the list, and another process runs.\<close>

lemma blockIO_self:
  assumes r: "runs s ps ss" and c: "c = currentProcess s" "pid (P s c) \<noteq> IDLE_PID" "pid (P s c) \<notin> sleepers s"
  shows "\<exists>t qs us. blockIO s = Some (EXIT_SUCCESS, t) \<and> runs t qs us \<and> ram t = ram s \<and> c \<in> set qs \<and> currentProcess t \<noteq> c \<and>
    pid (P t c) = pid (P s c) \<and> state (P t c) = BLOCKEDIO"
proof -
  note inv = runs_inv [OF r] and ic = runs_in [OF r, folded c(1)]
  obtain p where p: "procs s c = Some p" "state p = READY" using runs_current [OF r] c(1) by blast
  let ?f = "\<lambda>c. c\<lparr>state := BLOCKEDIO, executions := 0\<rparr>"
  have "mild (P s c) (?f (P s c))" using p by (auto simp: mild_def owns_def pinv_def)
  then obtain w where w: "modP c ?f s = Some w" "sched_inv w ps ss" "w = s\<lparr>procs := (procs s)(c \<mapsto> ?f (P s c))\<rparr>"
    using modP_sched [OF inv ic, where f = ?f] by blast
  from forceTimer_spec [OF w(2)] obtain u us t where
    u: "wakes w u ps" "slept w u ps" "forceTimer w = Some t" "ram t = ram w" "sched_inv t (survivors u ps) us"
      "currentProcess t = pick u ps" "pick u ps \<in> set (survivors u ps)" "state (P t (pick u ps)) = READY"
      "\<forall>a \<in> set (survivors u ps). kept (P u a) (P t a) \<and> (pid (P u a) \<noteq> IDLE_PID \<longrightarrow> state (P t a) = state (P u a))" by blast
  have sw: "sleepers w = sleepers s" by (simp add: sleepers_def w(3))
  have wc: "pid (P w c) = pid (P s c)" "state (P w c) = BLOCKEDIO" using w(3) by simp_all
  have uc: "pid (P u c) = pid (P s c)"
    using u(1) ic wc(1) unfolding wakes_def woken_def by (cases "P w c"; cases "P u c") auto
  have us: "state (P u c) = BLOCKEDIO" using u(2) ic wc c(3) unfolding slept_def sw by auto
  then have "c \<in> set (survivors u ps)" using ic by (simp add: survivors_def)
  then have t: "c \<in> set (survivors u ps)" "pid (P t c) = pid (P s c)" "state (P t c) = BLOCKEDIO"
    using u(9) uc us c(2) by (auto simp: kept_iff)
  then have "currentProcess t \<noteq> c" using u(6,8) by auto
  moreover have "runs t (survivors u ps) us" using u(5-8) by (simp add: runs_def)
  moreover have "blockIO s = Some (EXIT_SUCCESS, t)"
    using runs_nonnull [OF r] p w(1) u(3) by (simp add: blockIO_def c(1))
  ultimately show ?thesis using t u(4) w(3) by auto
qed

lemma set_sch_simps [simp]: "ksch (set_sch c s) = c" "kb (set_sch c s) = kb s" "kconts (set_sch c s) = kconts s"
  "rax (set_sch c s) = rax s" "rest (pp (set_sch c s)) = rest (pp s)" "conts (sm (pp (set_sch c s))) = conts (sm (pp s))"
  by (simp_all add: set_sch_def)

lemma ksch_kram [simp]: "ksch (set_kram m s) = (ksch s)\<lparr>ram := m\<rparr>"
  by (simp add: set_kram_def set_ram_def)

lemma runs_ram [simp]: "runs (s\<lparr>ram := m\<rparr>) ps ss = runs s ps ss"
  by (simp add: runs_def sched_inv_def)

lemma goOn_none: "getPid (sch (sm p)) = Some k \<Longrightarrow> conts (sm p) k = None \<Longrightarrow> rest p k = None \<Longrightarrow> goOn p = Some p"
  by (cases p) (simp add: goOn_def resume_def)

section \<open>Properties\<close>

text \<open>A pipe is not disturbed by a switch to another process.\<close>

lemma set_sch_pp: "pp (set_sch c s) = (pp s)\<lparr>sm := (sm (pp s))\<lparr>sch := c\<rparr>\<rparr>"
  by (simp add: set_sch_def)

lemma pipe_ring_sch: "ram c = pram p \<Longrightarrow> pipe_ring p node b q r \<Longrightarrow> pipe_ring (p\<lparr>sm := (sm p)\<lparr>sch := c\<rparr>\<rparr>) node b q r"
  by (simp add: pipe_ring_def pipe_obj_def)

lemma found_sch: "found p hit node \<Longrightarrow> found (p\<lparr>sm := (sm p)\<lparr>sch := c\<rparr>\<rparr>) hit node"
  by (erule found_cong) auto

lemma fair_ram: "fair (c\<lparr>ram := m\<rparr>) ps ss = fair c ps ss"
  by (simp add: fair_def runs_def sched_inv_def)

lemma getFdIn_running: "currentProcess c = x \<Longrightarrow> x \<noteq> NULL \<Longrightarrow> procs c x = Some p \<Longrightarrow> fds c (fd p) = Some (d, e) \<Longrightarrow> getFdIn c = Some d"
  by (simp add: getFdIn_def)

text \<open>C17: what one process writes to a pipe with the system call, another process reads with the
  system call: process \<open>k\<close> writes a text into an empty pipe with room for it, timer ticks go by until
  process \<open>j\<close> runs, which is ready (at most 40 ticks for each process in the list, in a fair state
  as in C3), and \<open>j\<close> reads. Both calls return the number of bytes, each to its own
  process, and the bytes are the same, whatever the length limit of \<open>write\<close> beyond them.\<close>

theorem sys_pipe_roundtrip:
  assumes "calm (pp s) k" and fair: "fair (ksch s) ps ss"
    and x: "x \<in> set ps" "pid (P (ksch s) x) = j" "state (P (ksch s) x) = READY" "j \<noteq> IDLE_PID" "j \<noteq> k" "conts (sm (pp s)) j = None"
    and fd: "getFdOut (ksch s) = Some dw" "dw \<noteq> STDOUT" "fds (ksch s) (fd (P (ksch s) x)) = Some (dr, e)" "dr \<noteq> STDIN"
    and f: "found (pp s) (\<lambda>p. fd1 p = dw) node" "found (pp s) (\<lambda>p. fd0 p = dr) node" and ring: "pipe_ring (pp s) node b [] r"
    and t: "cstr (kram s) src t" "- 1 \<notin> set t" "length t \<le> 1024" "r + length t < 2147483647" "length t \<le> len"
    and apart: "src + length t < b \<or> b + 1024 \<le> src" "dst + length t \<le> b \<or> b + 1024 \<le> dst"
  shows "\<exists>u n c v. systemCallsDispatcher E 0 fd1a src len r8 r9 s = Some u \<and>
    n \<le> 40 * length ps \<and> timerTicks n (ksch u) = Some c \<and> getPid c = Some j \<and>
    systemCallsDispatcher E 1 fd2a dst (length t) r8' r9' (set_sch c u) = Some v \<and>
    rax v k = Some (of_nat (length t)) \<and> rax v j = Some (of_nat (length t)) \<and> bytes (kram v) dst (length t) = t"
proof -
  have pid: "getPid (ksch s) = Some k" using assms(1) by (simp add: calm_def)
  obtain p where p: "writeLoop k dw src 0 len s = Some (returns k (int (length t)) (s\<lparr>pp := p\<rparr>))"
    "pipe_ring p node b t r" "pipe_kept (pp s) p"
    using writeLoop_pipe [of s src 0 t node b "[]" r dw k len] assms by (auto simp: idx_def)
  define u where "u = returns k (int (length t)) (s\<lparr>pp := p\<rparr>)"
  have pu: "pp u = p" "rax u k = Some (of_nat (length t))" by (simp_all add: u_def)
  obtain m where m: "ksch u = (ksch s)\<lparr>ram := m\<rparr>" using p(3) by (auto simp: pipe_kept_def pu)
  have w: "systemCallsDispatcher E 0 fd1a src len r8 r9 s = Some u"
    using p(1) fd(1,2) pid by (simp add: systemCallsDispatcher_def sys_write_def u_def)
  have fu: "fair (ksch u) ps ss" using fair by (simp add: m fair_ram)
  have xu: "state (P (ksch u) x) = READY" "pid (P (ksch u) x) \<noteq> IDLE_PID" using x(2-4) by (simp_all add: m)
  from fair_runs [OF fu x(1) xu] obtain n c us where
    c: "n \<le> waitTicks ps x (ksch u)" "timerTicks n (ksch u) = Some c" "fair c ps us" "currentProcess c = x" "undisturbed (ksch u) c ps" by blast
  have n: "n \<le> 40 * length ps" using c(1) waitTicks_bound [OF fu x(1)] by simp
  have rc: "runs c ps us" using c(3) by (simp add: fair_def)
  have un: "pid (P c x) = j" "fd (P c x) = fd (P (ksch s) x)" "fds c = fds (ksch s)" "ram c = pram p"
    using c(5) x(1,2) by (simp_all add: undisturbed_def m pu(1) [symmetric])
  have gj: "getPid c = Some j" using getPid_runs [OF rc] c(4) un(1) by simp
  obtain q where "procs c x = Some q" using runs_current [OF rc] c(4) by blast
  then have fi: "getFdIn c = Some dr" using getFdIn_running [OF c(4)] runs_nonnull [OF rc] c(4) un(2,3) fd(3) by auto
  define s' where "s' = set_sch c u"
  have ps': "pp s' = p\<lparr>sm := (sm p)\<lparr>sch := c\<rparr>\<rparr>" "ksch s' = c" by (simp_all add: s'_def set_sch_pp pu(1))
  have "conts (sm p) j = None" using p(3) x(6) by (simp add: pipe_kept_def)
  then have cj: "calm (pp s') j" using gj by (simp add: calm_def ps')
  have ring': "pipe_ring (pp s') node b (t @ []) r" using pipe_ring_sch [OF un(4) p(2)] by (simp add: ps')
  have found': "found (pp s') (\<lambda>p. fd0 p = dr) node" using found_sch [OF pipe_kept_found [OF p(3) f(2)]] by (simp add: ps')
  have "0 \<notin> set t" using t(1) by (simp add: cstr_def)
  from readPipeLoop_pipe [OF ring' found' cj t(4) this t(2) apart(2), of 0] obtain q where
    q: "readPipeLoop j dr dst (length t) 0 s' = Some (returns j (int (length t)) (s'\<lparr>pp := q\<rparr>))" "pram q = wr (kram s') dst t" by auto
  have "systemCallsDispatcher E 1 fd2a dst (length t) r8' r9' s' = Some (returns j (int (length t)) (s'\<lparr>pp := q\<rparr>))"
    using q(1) fd(4) gj fi by (simp add: systemCallsDispatcher_def sys_read_def ps'(2))
  with w n c(2) gj q(2) pu(2) x(5) show ?thesis unfolding s'_def
    by (intro exI [of _ u] exI [of _ n] exI [of _ c] exI [of _ "returns j (int (length t)) ((set_sch c u)\<lparr>pp := q\<rparr>)"]) simp
qed

definition kernel_pipe :: kernel_state where
  "kernel_pipe = \<lparr>pp = pipe0\<lparr>sm := (sm pipe0)\<lparr>sch := (sch (sm pipe0))\<lparr>fds := (\<lambda>_. Some (2, 3)), ram := wr (\<lambda>_. 0) 16 [104, 111, 108, 97]\<rparr>\<rparr>\<rparr>,
     kb = keyboard0, conX = 0, conY = 0, kconts = Map.empty, rax = Map.empty\<rparr>"

lemma kernel_pipe: "calm (pp kernel_pipe) 2" "getFdOut (ksch kernel_pipe) = Some 3" "getFdIn (ksch kernel_pipe) = Some 2"
  "found (pp kernel_pipe) (\<lambda>p. fd1 p = 3) 32" "found (pp kernel_pipe) (\<lambda>p. fd0 p = 2) 32" "pipe_ring (pp kernel_pipe) 32 4096 [] 0"
  "cstr (kram kernel_pipe) 16 [104, 111, 108, 97]"
proof -
  show "calm (pp kernel_pipe) 2" by (simp add: calm_def kernel_pipe_def pipe0_def getPid_def)
  show "getFdOut (ksch kernel_pipe) = Some 3" "getFdIn (ksch kernel_pipe) = Some 2"
    by (simp_all add: kernel_pipe_def pipe0_def getFdOut_def getFdIn_def)
  show "found (pp kernel_pipe) (\<lambda>p. fd1 p = 3) 32" "found (pp kernel_pipe) (\<lambda>p. fd0 p = 2) 32"
    by (rule found_cong [OF pipe0(3)], simp_all add: kernel_pipe_def) (rule found_cong [OF pipe0(4)], simp_all add: kernel_pipe_def)
  show "pipe_ring (pp kernel_pipe) 32 4096 [] 0"
    by (simp add: pipe_ring_def pipe_obj_def kernel_pipe_def pipe0_def semVal_def ring_def)
  show "cstr (kram kernel_pipe) 16 [104, 111, 108, 97]" by (simp add: kernel_pipe_def wr_def)
qed

text \<open>The witness: process 2 runs and process 3 is ready; both have the ends of one pipe.\<close>

lemma two_processes:
  obtains s i a b where "fair s [i, a, b] []" "currentProcess s = a" "pid (P s a) = 2" "pid (P s b) = 3" "state (P s b) = READY"
proof (rule sample)
  fix s i a
  assume s: "sample s i a"
  then have p: "pids s = 3" "currentProcess s = a" "pid (P s a) = 2" "executions (P s i) = 0" "executions (P s a) = 0" "pid (P s i) = IDLE_PID" "i \<noteq> a"
    "state (P s a) = READY" using runs_ready [OF sample_runs [OF s]] by (auto simp: sample_def)
  from enqueueProcess_spec [OF sample_fork [OF s], of "[]" "0x401000" 0 1 0] sample_room [OF s] obtain t b where
    t: "runs t ([i, a] @ [b]) []" "currentProcess t = currentProcess s" "state (P t b) = READY" "pid (P t b) = pids s" "executions (P t b) = 0"
      "\<forall>x \<in> set [i, a]. pid (P t x) = pid (P s x) \<and> executions (P t x) = executions (P s x) \<and> (pid (P s x) \<noteq> IDLE_PID \<longrightarrow> state (P t x) = state (P s x))"
    by auto
  have pi: "pinv (pids t) (P t x)" if "x \<in> set [i, a, b]" for x using base_pinv [OF sched_base [OF runs_inv [OF t(1)]]] that by simp
  have "state (P t x) \<noteq> DEAD \<and> executions (P t x) = 0 \<and> priority (P t x) < 40" if "x \<in> set [i, a, b]" for x
    using that pi [OF that] t(3,5,6) p by (auto simp: pinv_def)
  then have "fair t [i, a, b] []" using t(1) unfolding fair_def by force
  then show thesis using t(2-4,6) p by (intro that [of t i a b]) auto
qed

theorem sys_pipe_roundtrip_witness:
  "\<exists>E z u n c v. systemCallsDispatcher E 0 1 16 100 0 0 z = Some u \<and> timerTicks n (ksch u) = Some c \<and> getPid c = Some 3 \<and>
     systemCallsDispatcher E 1 0 64 4 0 0 (set_sch c u) = Some v \<and> rax v 2 = Some 4 \<and> rax v 3 = Some 4 \<and> bytes (kram v) 64 4 = [104, 111, 108, 97]"
proof (rule two_processes)
  fix s i a b
  assume s: "fair s [i, a, b] []" "currentProcess s = a" "pid (P s a) = 2" "pid (P s b) = 3" "state (P s b) = READY"
  let ?t = "[104, 111, 108, 97] :: u8 list"
  define z where "z = set_sch (s\<lparr>fds := (\<lambda>_. Some (2, 3)), ram := kram kernel_pipe\<rparr>) kernel_pipe"
  have r: "runs s [i, a, b] []" using s(1) by (simp add: fair_def)
  obtain q where q: "procs s a = Some q" "pid q = 2" "a \<noteq> NULL" using runs_current [OF r] runs_nonnull [OF r] s(2,3) by auto
  have kz: "ksch z = s\<lparr>fds := (\<lambda>_. Some (2, 3)), ram := kram kernel_pipe\<rparr>" by (simp add: z_def)
  have c: "conts (sm (pp z)) = Map.empty" by (simp add: z_def set_sch_pp kernel_pipe_def pipe0_def)
  have cz: "calm (pp z) 2" "getFdOut (ksch z) = Some 3" using q s(2) c by (simp_all add: calm_def kz getPid_def getFdOut_def)
  have fz: "fair (ksch z) [i, a, b] []" using s(1) by (simp add: kz fair_def runs_def sched_inv_def)
  have pz: "found (pp z) (\<lambda>p. fd1 p = 3) 32" "found (pp z) (\<lambda>p. fd0 p = 2) 32" "pipe_ring (pp z) 32 4096 [] 0" "cstr (kram z) 16 ?t"
    using found_sch [OF kernel_pipe(4)] found_sch [OF kernel_pipe(5)] pipe_ring_sch [OF _ kernel_pipe(6)] kernel_pipe(7)
    by (simp_all add: z_def set_sch_pp)
  have x: "b \<in> set [i, a, b]" "pid (P (ksch z) b) = 3" "state (P (ksch z) b) = READY" "conts (sm (pp z)) 3 = None"
    "fds (ksch z) (fd (P (ksch z) b)) = Some (2, 3)" using s(4,5) c by (simp_all add: kz)
  have "\<exists>u n c v. systemCallsDispatcher undefined 0 1 16 100 0 0 z = Some u \<and>
      n \<le> 40 * length [i, a, b] \<and> timerTicks n (ksch u) = Some c \<and> getPid c = Some 3 \<and>
      systemCallsDispatcher undefined 1 0 64 (length ?t) 0 0 (set_sch c u) = Some v \<and>
      rax v 2 = Some (of_nat (length ?t)) \<and> rax v 3 = Some (of_nat (length ?t)) \<and> bytes (kram v) 64 (length ?t) = ?t"
    by (rule sys_pipe_roundtrip [OF cz(1) fz x(1-3) _ _ x(4) cz(2) _ x(5) _ pz]) auto
  moreover have "length ?t = 4" by simp
  ultimately show ?thesis by (simp only: of_nat_numeral) blast
qed

text \<open>the \<open>write\<close> system call of a process whose output is the terminal prints the string as the
  abstract terminal does, returns its length, and changes no memory but the screen's.\<close>

theorem sys_write_terminal:
  assumes "getPid (ksch s) = Some k" "getFdOut (ksch s) = Some STDOUT"
    and "cstr (kram s) p t" "p + length t < video \<or> video + 4000 \<le> p" "plain t"
    and "0 \<le> conX s" "conX s < 80" "0 \<le> conY s" "conY s < 25" and "length t \<le> len" "len < 2 ^ 31"
  shows "\<exists>u. systemCallsDispatcher E 0 fda p len r8 r9 s = Some u \<and> rax u k = Some (of_nat (length t)) \<and>
    (rows (kram u), nat (conX u), nat (conY u)) = fold tchar t (rows (kram s), nat (conX s), nat (conY s)) \<and>
    (\<forall>x. off_screen x \<longrightarrow> kram u x = kram s x)"
proof -
  have "systemCallsDispatcher E 0 fda p len r8 r9 s = sys_write p len s" using assms(1) by (simp add: systemCallsDispatcher_def)
  with sys_write_console [OF assms] show ?thesis by metis
qed

theorem sys_write_terminal_witness:
  "\<exists>E s u. getFdOut (ksch s) = Some STDOUT \<and> systemCallsDispatcher E 0 1 16 100 0 0 s = Some u \<and> rax u 2 = Some 4 \<and>
     (rows (kram u), nat (conX u), nat (conY u)) = fold tchar [104, 111, 108, 97] (rows (kram s), nat (conX s), nat (conY s))"
proof -
  define z where "z = set_sch ((ksch kernel_pipe)\<lparr>fds := (\<lambda>_. Some (0, 1))\<rparr>) kernel_pipe"
  have z: "getFdOut (ksch z) = Some 1" "getPid (ksch z) = Some 2" "0 \<le> conX z" "conX z < 80" "0 \<le> conY z" "conY z < 25"
    by (simp_all add: z_def kernel_pipe_def pipe0_def getFdOut_def getPid_def set_sch_def)
  have t: "cstr (kram z) 16 [104, 111, 108, 97]" "plain [104, 111, 108, 97]" using kernel_pipe(7) by (simp_all add: z_def plain_def)
  have "\<exists>u. systemCallsDispatcher undefined 0 1 16 100 0 0 z = Some u \<and> rax u 2 = Some (of_nat (length [104 :: u8, 111, 108, 97])) \<and>
    (rows (kram u), nat (conX u), nat (conY u)) = fold tchar [104, 111, 108, 97] (rows (kram z), nat (conX z), nat (conY z)) \<and>
    (\<forall>x. off_screen x \<longrightarrow> kram u x = kram z x)"
    by (rule sys_write_terminal [OF z(2,1) t(1) _ t(2) z(3-6)]) auto
  then obtain u where "systemCallsDispatcher undefined 0 1 16 100 0 0 z = Some u" "rax u 2 = Some 4"
    "(rows (kram u), nat (conX u), nat (conY u)) = fold tchar [104, 111, 108, 97] (rows (kram z), nat (conX z), nat (conY z))" by auto
  with z(1) show ?thesis by (intro exI conjI)
qed

text \<open>C18: a process that reads from the keyboard while no key was pressed sleeps and another process runs;
  the keyboard interrupt of a key that has a character makes it ready again; and when it runs
  after that, with the mailbox as the interrupt left it, the system call stores the character and
  returns 1 (unless the byte before its buffer happens to be 255).\<close>

theorem sys_read_waits_for_key:
  assumes r: "runs (ksch s) ps ss" and k: "getPid (ksch s) = Some k" "k \<noteq> IDLE_PID" "k \<notin> sleepers (ksch s)"
    and fd: "getFdIn (ksch s) = Some STDIN" "isForeground (ksch s) = Some fg" "fg \<noteq> 0" and b: "kb_inv (kb s)" "kbuffer (kb s) ! 0 = 0"
    and code: "unat c < 250" "decode (layout_of L) c (kb_mods (kb s)) = (Some d, q)" "d \<noteq> 0" "d \<noteq> - 1"
  defines "a \<equiv> currentProcess (ksch s)"
  shows "\<exists>t u qs us ws. systemCallsDispatcher E 1 0 buf 1 r8 r9 s = Some t \<and> runs (ksch t) qs us \<and> a \<in> set qs \<and>
    currentProcess (ksch t) \<noteq> a \<and> state (P (ksch t) a) = BLOCKEDIO \<and>
    irqDispatcher (layout_of L) c 1 t = Some u \<and> runs (ksch u) qs ws \<and> state (P (ksch u) a) = READY \<and>
    (\<forall>v. getPid (ksch v) = Some k \<longrightarrow> kb v = kb u \<longrightarrow> kconts v k = kconts u k \<longrightarrow> conts (sm (pp v)) k = None \<longrightarrow> rest (pp v) k = None \<longrightarrow>
       kram v (buf - 1) \<noteq> - 1 \<longrightarrow> (\<exists>w. kresume v = Some w \<and> kram w buf = d \<and> rax w k = Some 1))"
proof -
  obtain k0 where g: "getKeyFromBuffer (kb s) = Some (0, k0)" "kb_inv k0" "kb_mods k0 = kb_mods (kb s)"
  proof (rule kb_ofE [OF b(1)])
    fix q x assume e: "kb s = kb_of q x (current (kb s))" "kb_mods (kb s) = q" "kbuffer (kb s) ! 0 = x" "\<not> (alt q \<and> f1 q)"
    have "current (kb s) = 0 \<or> current (kb s) = 1" using b(1) by (simp add: kb_inv_def)
    from getKey_of [OF this, of q x] e b(2) show thesis by (intro that [of "kb_of q 0 1"]) (simp_all add: kb_of_inv)
  qed
  let ?s = "(set_kram ((kram s)(buf := 0)) s)\<lparr>kb := k0\<rparr>"
  have a: "a \<noteq> NULL" "pid (P (ksch s) a) = k" using runs_nonnull [OF r] k(1) runs_current [OF r] by (auto simp: getPid_def a_def)
  have "runs (ksch ?s) ps ss" using r by simp
  from blockIO_self [OF this, of a] a(2) k(2,3) obtain e qs us where
    e: "blockIO (ksch ?s) = Some (EXIT_SUCCESS, e)" "runs e qs us" "a \<in> set qs" "currentProcess e \<noteq> a" "state (P e a) = BLOCKEDIO"
    by (auto simp: a_def sleepers_def)
  define t where "t = (set_sch e ?s)\<lparr>kconts := (kconts s)(k \<mapsto> KbdAgain buf 1 0)\<rparr>"
  have read: "systemCallsDispatcher E 1 0 buf 1 r8 r9 s = Some t"
    using k(1) fd g(1) e(1) by (simp add: systemCallsDispatcher_def sys_read_def readKbdLoop.simps [of k buf "Suc 0"] t_def)
  have ts: "ksch t = e" "kb t = k0" "kconts t k = Some (KbdAgain buf 1 0)" by (simp_all add: t_def)
  obtain k1 f where h: "keyboard_handler (layout_of L) c k0 e = Some (k1, f)" "kb_inv k1" "runs f qs us" "kbuffer k1 ! 0 = d"
    "\<forall>x \<in> set qs. state (P f x) = (if state (P e x) = BLOCKEDIO then READY else state (P e x))"
  proof (rule kb_ofE [OF g(2)])
    fix q' x assume m: "k0 = kb_of q' x (current k0)" "kb_mods k0 = q'" "\<not> (alt q' \<and> f1 q')"
    have cur: "current k0 = 0 \<or> current k0 = 1" using g(2) by (simp add: kb_inv_def)
    have dc: "decode (layout_of L) c q' = (Some d, q)" using code(2) g(3) m(2) by simp
    have run: "testKeyboardInterrupt (layout_of L) c k0 = Some (kb_of q d (current k0))"
      using press_code [OF m(3) code(1), of L x "current k0"] dc m(1) by simp
    obtain f where "unblockIO e = Some f" "runs f qs us"
      "\<forall>x \<in> set qs. P f x = (if state (P e x) = BLOCKEDIO then (P e x)\<lparr>state := READY\<rparr> else P e x)"
      using unblockIO_ok [OF e(2)] unblockIO_spec [OF sched_base [OF runs_inv [OF e(2)]]] by auto
    with run kb_of_inv [OF decode_mods [OF m(3) dc] cur] show thesis
      by (intro that [of "kb_of q d (current k0)" f]) (auto simp: keyboard_handler_def)
  qed
  define u where "u = (set_sch f t)\<lparr>kb := k1\<rparr>"
  have irq: "irqDispatcher (layout_of L) c 1 t = Some u" using h(1) ts by (simp add: irqDispatcher_def int_21_def u_def)
  have us: "ksch u = f" "kb u = k1" "kconts u k = Some (KbdAgain buf 1 0)" using ts by (simp_all add: u_def)
  have "\<exists>w. kresume v = Some w \<and> kram w buf = d \<and> rax w k = Some 1"
    if v: "getPid (ksch v) = Some k" "kb v = k1" "kconts v k = Some (KbdAgain buf 1 0)" "conts (sm (pp v)) k = None" "rest (pp v) k = None"
      "kram v (buf - 1) \<noteq> - 1" for v
  proof -
    obtain k2 where k2: "getKeyFromBuffer k1 = Some (d, k2)"
    proof (rule kb_ofE [OF h(2)])
      fix q' x assume m: "k1 = kb_of q' x (current k1)" "kbuffer k1 ! 0 = x"
      have "current k1 = 0 \<or> current k1 = 1" using h(2) by (simp add: kb_inv_def)
      from getKey_of [OF this, of q' x] m h(4) that show thesis by metis
    qed
    have go: "goOn (pp v) = Some (pp v)" using v(1,4,5) by (rule goOn_none)
    let ?t = "v\<lparr>kconts := (kconts v)(k := None)\<rparr>"
    have "kresume v = readKbdLoop k buf 1 0 ?t"
      using v go by (simp add: kresume_def suspended_def)
    also have "\<dots> = Some (returns k 1 ((set_kram ((kram v)(buf := d)) ?t)\<lparr>kb := k2\<rparr>))"
      using k2 v(2) code(3,4) by (simp add: readKbdLoop.simps)
    finally show ?thesis by simp
  qed
  with read irq e h ts us show ?thesis by (intro exI [of _ t] exI [of _ u] exI [of _ qs] exI [of _ us]) auto
qed

theorem sys_read_waits_for_key_witness:
  "\<exists>E s t u a. systemCallsDispatcher E 1 0 64 1 0 0 s = Some t \<and> state (P (ksch t) a) = BLOCKEDIO \<and>
     irqDispatcher (layout_of False) 0x1E 1 t = Some u \<and> state (P (ksch u) a) = READY"
proof (rule sample)
  fix s i a
  assume sam: "sample s i a"
  note r = sample_runs [OF sam]
  have s: "currentProcess s = a" "pid (P s a) = 2" "sleepers s = {}" "state (P s a) = READY"
    using sam by (auto simp: sample_def runs_def)
  have "mild (P s a) ((P s a)\<lparr>foreground := 1\<rparr>)" using s(2) by (simp add: mild_def owns_def pinv_def)
  then obtain w where w: "sched_inv w [i, a] []" "w = s\<lparr>procs := (procs s)(a \<mapsto> (P s a)\<lparr>foreground := 1\<rparr>)\<rparr>"
    using modP_sched [OF runs_inv [OF r], of a "foreground_update (\<lambda>_. 1)"] by auto
  define x where "x = w\<lparr>fds := (\<lambda>_. Some (0, 1))\<rparr>"
  define z where "z = \<lparr>pp = pipe0\<lparr>sm := (sm pipe0)\<lparr>sch := x\<rparr>\<rparr>, kb = keyboard0, conX = 0, conY = 0, kconts = Map.empty, rax = Map.empty\<rparr>"
  have rx: "runs (ksch z) [i, a] []" using w s(1,4) by (simp add: z_def x_def runs_def sched_inv_def)
  have an: "a \<noteq> NULL" using runs_nonnull [OF r] s(1) by simp
  have k: "getPid (ksch z) = Some 2" "2 \<notin> sleepers (ksch z)" "getFdIn (ksch z) = Some 0" "isForeground (ksch z) = Some 1"
    using an s by (simp_all add: z_def x_def w(2) getPid_def getFdIn_def isForeground_def sleepers_def)
  have "kbd ! 30 = 97" by (simp add: kbd_def)
  then have d: "decode (layout_of False) 0x1E (kb_mods (kb z)) = (Some 97, kb_mods keyboard0)"
    by (simp add: z_def kb_mods_def keyboard0_def decode_def press_def lookup_def layout_of_def)
  have b: "kb_inv (kb z)" "kbuffer (kb z) ! 0 = 0" using kb_inv0 by (simp_all add: z_def keyboard0_def)
  from sys_read_waits_for_key [OF rx k(1) _ k(2-4) _ b _ d, of undefined 64 0 0] obtain t u where
    "systemCallsDispatcher undefined 1 0 64 1 0 0 z = Some t" "state (P (ksch t) (currentProcess (ksch z))) = BLOCKEDIO"
    "irqDispatcher (layout_of False) 0x1E 1 t = Some u" "state (P (ksch u) (currentProcess (ksch z))) = READY" by auto
  then show ?thesis by blast
qed

end
