(* ===== verification/Boot.thy ===== *)
theory Boot
  imports Syscalls
begin

text \<open>
  The image of the system and the tables of the processor: the module packer that builds the image
  (\<open>src/Toolchain/ModulePacker/main.c\<close>), the loader that reads it (\<open>src/Kernel/moduleLoader.c\<close>,
  \<open>src/Kernel/kernel.c\<close>), the interrupt descriptor table (\<open>src/Kernel/interruptions/idtLoader.c\<close>) and
  the exception handlers (\<open>src/Kernel/interruptions/exceptions.c\<close>).

  The packer's files are byte lists, by name. What it packs, the loader puts back, module by module.
\<close>

section \<open>The module packer\<close>

text \<open>The bytes of a 32-bit integer, least significant first, as \<open>fwrite\<close> writes them.\<close>

definition le32 :: "u32 \<Rightarrow> u8 list" where
  "le32 w = map (\<lambda>i. ucast (drop_bit (8 * i) w)) [0..<4]"

abbreviation (input) BUFFER_SIZE :: nat where "BUFFER_SIZE \<equiv> 128"

text \<open>One \<open>fread\<close> of a full buffer leaves the end-of-file flag clear; a short one sets it.\<close>

function write_file :: "u8 list \<Rightarrow> u8 list \<Rightarrow> u8 list" where
  "write_file target source =
     (if length source < BUFFER_SIZE then target @ source
      else write_file (target @ take BUFFER_SIZE source) (drop BUFFER_SIZE source))"
  by pat_completeness auto
termination
  by (relation "measure (\<lambda>(t, s). length s)") auto

declare write_file.simps [simp del]

definition write_size :: "u8 list \<Rightarrow> u8 list \<Rightarrow> u8 list" where
  "write_size target file = target @ le32 (of_nat (length file))"

text \<open>A file system maps names to contents; opening and measuring a file that is not there fails.\<close>

type_synonym files = "string \<Rightarrow> u8 list option"

definition checkFiles :: "files \<Rightarrow> string list \<Rightarrow> bool" where
  "checkFiles fs fileArray \<longleftrightarrow> list_all (\<lambda>f. fs f \<noteq> None) fileArray"

fun packLoop :: "files \<Rightarrow> string list \<Rightarrow> u8 list \<Rightarrow> u8 list option" where
  "packLoop fs [] target = Some target"
| "packLoop fs (f # others) target =
     do { source \<leftarrow> fs f; packLoop fs others (write_file (write_size target source) source) }"

definition buildImage :: "files \<Rightarrow> string list \<Rightarrow> u8 list option" where
  "buildImage fs fileArray =
     (case fileArray of
        [] \<Rightarrow> None
      | kern # modules \<Rightarrow> do {
          source \<leftarrow> fs kern;
          let target = write_file [] source;
          packLoop fs modules (target @ le32 (of_nat (length modules)))
        })"

definition packer_main :: "files \<Rightarrow> string list \<Rightarrow> u8 list option" where
  "packer_main fs fileArray = (if checkFiles fs fileArray then buildImage fs fileArray else None)"

section \<open>The module loader\<close>

definition readUint32 :: "mem \<Rightarrow> addr \<Rightarrow> u32 \<times> addr" where
  "readUint32 m a =
     (ucast (m a) OR push_bit 8 (ucast (m (a + 1))) OR push_bit 16 (ucast (m (a + 2))) OR push_bit 24 (ucast (m (a + 3))), a + 4)"

definition loadModule :: "addr \<Rightarrow> addr \<Rightarrow> mem \<Rightarrow> addr \<times> mem" where
  "loadModule module target m =
     (let (moduleSize, module) = readUint32 m module;
          (_, m) = memcpy target module (unat moduleSize) m
      in (module + unat moduleSize, m))"

text \<open>The loop runs \<open>moduleCount\<close> times; reading behind the end of the address array is \<open>None\<close>.\<close>

fun loadLoop :: "nat \<Rightarrow> addr \<Rightarrow> addr list \<Rightarrow> mem \<Rightarrow> mem option" where
  "loadLoop 0 currentModule targets m = Some m"
| "loadLoop (Suc n) currentModule [] m = None"
| "loadLoop (Suc n) currentModule (t # targets) m =
     (let (currentModule, m) = loadModule currentModule t m in loadLoop n currentModule targets m)"

definition loadModules :: "addr \<Rightarrow> addr list \<Rightarrow> mem \<Rightarrow> mem option" where
  "loadModules payloadStart targetModuleAddress m =
     (let (moduleCount, currentModule) = readUint32 m payloadStart
      in loadLoop (unat moduleCount) currentModule targetModuleAddress m)"

definition clearBSS :: "addr \<Rightarrow> nat \<Rightarrow> mem \<Rightarrow> mem" where
  "clearBSS bssAddress bssSize m = snd (memset bssAddress 0 bssSize m)"

abbreviation (input) PageSize :: nat where "PageSize \<equiv> 0x1000"

definition getStackBase :: "addr \<Rightarrow> addr" where
  "getStackBase endOfKernel = endOfKernel + PageSize * 8 - 8"

text \<open>The arguments are the addresses that the linker script gives.\<close>

definition initializeKernelBinary :: "addr \<Rightarrow> addr \<Rightarrow> addr \<Rightarrow> mem \<Rightarrow> (addr \<times> mem) option" where
  "initializeKernelBinary endOfKernelBinary bss endOfKernel m =
     do {
       m \<leftarrow> loadModules endOfKernelBinary [0x400000, 0x500000] m;
       let m = clearBSS bss (endOfKernel - bss) m;
       Some (getStackBase endOfKernel, m)
     }"

section \<open>The interrupt descriptor table\<close>

record DESCR_INT =
  offset_l :: u16
  selector :: u16
  cero :: u8
  access :: u8
  offset_m :: u16
  offset_h :: u32
  other_cero :: u32

record idt_state =
  idt :: "nat \<Rightarrow> DESCR_INT"
  picMaster :: u8
  picSlave :: u8

abbreviation (input) ACS_INT :: u8 where "ACS_INT \<equiv> 0x8E"

definition setup_IDT_entry :: "nat \<Rightarrow> u64 \<Rightarrow> idt_state \<Rightarrow> idt_state" where
  "setup_IDT_entry index offset s = s\<lparr>idt := (idt s)(index :=
     \<lparr>offset_l = ucast (offset AND 0xFFFF), selector = 0x08, cero = 0, access = ACS_INT,
      offset_m = ucast (drop_bit 16 offset AND 0xFFFF), offset_h = ucast (drop_bit 32 offset AND 0xFFFFFFFF), other_cero = 0\<rparr>)\<rparr>"

text \<open>The handlers' addresses are those the linker gives.\<close>

record handlers =
  irq00Handler :: u64
  irq01Handler :: u64
  exception0Handler :: u64
  exception6Handler :: u64
  systemCallsHandler :: u64

definition load_idt :: "handlers \<Rightarrow> idt_state \<Rightarrow> idt_state" where
  "load_idt H s =
     (let s = setup_IDT_entry 0x20 (irq00Handler H) s;
          s = setup_IDT_entry 0x21 (irq01Handler H) s;
          s = setup_IDT_entry 0x00 (exception0Handler H) s;
          s = setup_IDT_entry 0x06 (exception6Handler H) s;
          s = setup_IDT_entry 0x80 (systemCallsHandler H) s
      in s\<lparr>picMaster := 0xFC, picSlave := 0xFF\<rparr>)"

text \<open>Where the processor jumps on an interrupt: the offset it puts together from the entry.\<close>

definition gate_target :: "DESCR_INT \<Rightarrow> u64" where
  "gate_target d = ucast (offset_l d) OR push_bit 16 (ucast (offset_m d)) OR push_bit 32 (ucast (offset_h d))"

section \<open>Exceptions\<close>

record exc_state =
  ripValue :: addr
  rspValue :: addr
  stackFrame :: addr

text \<open>The addresses of the literals of \<open>exceptions.c\<close>; \<open>regsNames\<close> is an array of pointers.\<close>

record exc_lits =
  regsNames :: "addr list"
  lit_0x :: addr
  lit_dash :: addr
  lit_rip :: addr
  lit_oldrsp :: addr
  lit_zero :: addr
  lit_opcode :: addr

abbreviation (input) print15 :: "addr \<Rightarrow> int \<Rightarrow> console \<Rightarrow> console" where
  "print15 p n c \<equiv> snd (printStringLen 15 p n c)"

definition printHex :: "addr \<Rightarrow> addr \<Rightarrow> console \<Rightarrow> console" where
  "printHex buffer v c =
     (let (b, m) = itoa (s32 (int v)) buffer 16 20 (cmem c) in print15 b 20 (c\<lparr>cmem := m\<rparr>))"

definition printReg :: "exc_lits \<Rightarrow> addr \<Rightarrow> addr \<Rightarrow> nat \<Rightarrow> console \<Rightarrow> console" where
  "printReg X buffer regs i c =
     (let c = (if i mod 5 = 0 then new_line c else c);
          c = print15 (regsNames X ! i) 6 c;
          c = print15 (lit_0x X) 3 c;
          c = printHex buffer (rd64 (cmem c) (regs + 8 * (14 - i))) c
      in print15 (lit_dash X) 4 c)"

definition printRegs :: "exc_lits \<Rightarrow> addr \<Rightarrow> exc_state \<Rightarrow> console \<Rightarrow> console" where
  "printRegs X buffer e c =
     (let c = new_line (fold (printReg X buffer (stackFrame e)) [0..<15] c);
          c = print15 (lit_rip X) 6 c;
          c = new_line (printHex buffer (rd64 (cmem c) (ripValue e)) c);
          c = print15 (lit_oldrsp X) 10 c
      in new_line (printHex buffer (rd64 (cmem c) (rspValue e)) c))"

abbreviation (input) WAITSECONDS :: int where "WAITSECONDS \<equiv> 5"

text \<open>The busy wait reads the clock until it shows the time.\<close>

partial_function (option) waitUntil :: "int \<Rightarrow> time_state \<Rightarrow> time_state option" where
  "waitUntil limit t =
     (let (now, t) = getTimeOfDay t in if now < limit then waitUntil limit t else Some t)"

definition on_screen_do :: "(console \<Rightarrow> console) \<Rightarrow> kernel_state \<Rightarrow> kernel_state" where
  "on_screen_do f s = snd (on_console (\<lambda>c. ((), f c)) s)"

definition startOver :: "kernel_state \<Rightarrow> kernel_state option" where
  "startOver s =
     do {
       let (initialTime, t) = getTimeOfDay (tm (ksch s));
       t \<leftarrow> waitUntil (initialTime + WAITSECONDS) t;
       let s = on_screen_do clear (set_sch ((ksch s)\<lparr>tm := t\<rparr>) s);
       c \<leftarrow> exitProcess (ksch s);
       c \<leftarrow> forceTimer c;
       Some (set_sch c s)
     }"

definition genericException :: "exc_lits \<Rightarrow> addr \<Rightarrow> exc_state \<Rightarrow> addr \<Rightarrow> int \<Rightarrow> kernel_state \<Rightarrow> kernel_state option" where
  "genericException X buffer e string len s =
     startOver (on_screen_do (\<lambda>c. printRegs X buffer e (print15 string len (clear c))) s)"

definition zero_division :: "exc_lits \<Rightarrow> addr \<Rightarrow> exc_state \<Rightarrow> kernel_state \<Rightarrow> kernel_state option" where
  "zero_division X buffer e = genericException X buffer e (lit_zero X) 50"

definition invalid_opcode :: "exc_lits \<Rightarrow> addr \<Rightarrow> exc_state \<Rightarrow> kernel_state \<Rightarrow> kernel_state option" where
  "invalid_opcode X buffer e = genericException X buffer e (lit_opcode X) 51"

abbreviation (input) ZERO_EXCEPTION_ID :: int where "ZERO_EXCEPTION_ID \<equiv> 0"
abbreviation (input) INVALID_OPCODE_ID :: int where "INVALID_OPCODE_ID \<equiv> 6"

definition exceptionDispatcher ::
    "exc_lits \<Rightarrow> addr \<Rightarrow> int \<Rightarrow> addr \<Rightarrow> addr \<Rightarrow> addr \<Rightarrow> kernel_state \<Rightarrow> (exc_state \<times> kernel_state) option" where
  "exceptionDispatcher X buffer exception rp sp frame s =
     (let e = \<lparr>ripValue = rp, rspValue = sp, stackFrame = frame\<rparr> in
      if exception = ZERO_EXCEPTION_ID
      then do { s \<leftarrow> zero_division X buffer e s; Some (e, s) }
      else if exception = INVALID_OPCODE_ID
      then do { s \<leftarrow> invalid_opcode X buffer e s; Some (e, s) }
      else Some (e, s))"

section \<open>The image\<close>

lemma write_file_append: "write_file target source = target @ source"
proof (induction target source rule: write_file.induct)
  case (1 target source)
  then show ?case by (subst write_file.simps) simp
qed

lemma length_le32 [simp]: "length (le32 w) = 4"
  by (simp add: le32_def)

lemma read_le32:
  assumes "bytes m a 4 = le32 w" shows "readUint32 m a = (w, a + 4)"
proof -
  have b: "m (a + i) = ucast (drop_bit (8 * i) w)" if "i < 4" for i
  proof -
    have "m (a + i) = bytes m a 4 ! i" using that by simp
    also have "\<dots> = ucast (drop_bit (8 * i) w)" unfolding assms using that by (simp add: le32_def)
    finally show ?thesis .
  qed
  have m: "m a = ucast w" "m (a + 1) = ucast (drop_bit 8 w)" "m (a + 2) = ucast (drop_bit 16 w)" "m (a + 3) = ucast (drop_bit 24 w)"
    using b [of 0] b [of 1] b [of 2] b [of 3] by simp_all
  have "ucast (m a) OR push_bit 8 (ucast (m (a + 1))) OR push_bit 16 (ucast (m (a + 2))) OR push_bit 24 (ucast (m (a + 3))) = w"
  proof (rule bit_word_eqI)
    fix n assume "n < LENGTH(32)"
    then show "bit (ucast (m a) OR push_bit 8 (ucast (m (a + 1))) OR push_bit 16 (ucast (m (a + 2))) OR push_bit 24 (ucast (m (a + 3))) :: u32) n = bit w n"
      unfolding m by (cases "n < 8"; cases "n < 16"; cases "n < 24"; auto simp: bit_simps)
  qed
  then show ?thesis by (simp add: readUint32_def)
qed

text \<open>What the packer writes behind the kernel.\<close>

definition packed :: "u8 list list \<Rightarrow> u8 list" where
  "packed ms = concat (map (\<lambda>f. le32 (of_nat (length f)) @ f) ms)"

lemma packLoop_packed:
  "list_all2 (\<lambda>n f. fs n = Some f) ns ms \<Longrightarrow> packLoop fs ns target = Some (target @ packed ms)"
proof (induction ns ms arbitrary: target rule: list_all2_induct)
  case Nil
  then show ?case by (simp add: packed_def)
next
  case (Cons n ns f ms)
  then show ?case by (simp add: write_file_append write_size_def packed_def)
qed

lemma bytes_split: "bytes m a (length (xs @ ys)) = xs @ ys \<longleftrightarrow> bytes m a (length xs) = xs \<and> bytes m (a + length xs) (length ys) = ys"
  by (simp add: bytes_append)

text \<open>The places of the modules overlap neither each other nor the packed modules.\<close>

definition clear_of :: "addr \<Rightarrow> u8 list list \<Rightarrow> addr list \<Rightarrow> bool" where
  "clear_of a ms ts \<longleftrightarrow> length ms \<le> length ts \<and> (\<forall>f \<in> set ms. length f < 2 ^ 32) \<and>
     (\<forall>i < length ms. {ts ! i..<ts ! i + length (ms ! i)} \<inter> {a..<a + length (packed ms)} = {}) \<and>
     (\<forall>i < length ms. \<forall>j < i. {ts ! i..<ts ! i + length (ms ! i)} \<inter> {ts ! j..<ts ! j + length (ms ! j)} = {})"

lemma loadLoop_packed:
  assumes "bytes m a (length (packed ms)) = packed ms" "clear_of a ms ts"
  shows "\<exists>m'. loadLoop (length ms) a ts m = Some m' \<and> (\<forall>i < length ms. bytes m' (ts ! i) (length (ms ! i)) = ms ! i) \<and>
    (\<forall>x. (\<forall>i < length ms. x \<notin> {ts ! i..<ts ! i + length (ms ! i)}) \<longrightarrow> m' x = m x)"
  using assms
proof (induction ms arbitrary: a ts m)
  case Nil
  then show ?case by simp
next
  case (Cons f ms)
  obtain t us where ts: "ts = t # us" using Cons.prems(2) by (cases ts) (auto simp: clear_of_def)
  have pk: "packed (f # ms) = le32 (of_nat (length f)) @ f @ packed ms" by (simp add: packed_def)
  then have b: "bytes m a 4 = le32 (of_nat (length f))" "bytes m (a + 4) (length f) = f"
    "bytes m (a + 4 + length f) (length (packed ms)) = packed ms"
    using Cons.prems(1) bytes_split [of m a "le32 (of_nat (length f))" "f @ packed ms"] bytes_split [of m "a + 4" f "packed ms"] by simp_all
  have lf: "length f < 2 ^ 32" using Cons.prems(2) by (auto simp: clear_of_def)
  have u: "unat (of_nat (length f) :: u32) = length f" using lf by (simp add: unat_of_nat take_bit_nat_eq_self)
  have c0: "{t..<t + length f} \<inter> {a..<a + (4 + length f + length (packed ms))} = {}"
    using Cons.prems(2) unfolding clear_of_def ts pk by (auto dest: spec [of _ 0])
  have "t \<le> a + 4 \<or> a + 4 + length f \<le> t"
  proof (cases "f = []")
    case False
    then have "t \<in> {t..<t + length f}" by simp
    then have "t \<notin> {a..<a + (4 + length f + length (packed ms))}" using c0 by blast
    then show ?thesis by auto
  qed auto
  then have cp: "memcpy t (a + 4) (length f) m = (t, wr m t f)" using memcpy_wr [of t "a + 4" "length f" m] b(2) by auto
  let ?m = "wr m t f"
  have step: "loadLoop (length (f # ms)) a ts m = loadLoop (length ms) (a + 4 + length f) us ?m"
    by (simp add: ts loadModule_def read_le32 [OF b(1)] u cp)
  have "bytes ?m (a + 4 + length f) (length (packed ms)) = bytes m (a + 4 + length f) (length (packed ms))"
  proof (rule bytes_cong)
    fix i assume "i < length (packed ms)"
    then have "a + 4 + length f + i \<in> {a..<a + (4 + length f + length (packed ms))}" by simp
    then have "a + 4 + length f + i \<notin> {t..<t + length f}" using c0 by blast
    then show "?m (a + 4 + length f + i) = m (a + 4 + length f + i)" by (auto simp: wr_def)
  qed
  then have pm: "bytes ?m (a + 4 + length f) (length (packed ms)) = packed ms" using b(3) by simp
  have sub: "{a + 4 + length f..<a + 4 + length f + length (packed ms)} \<subseteq> {a..<a + length (packed (f # ms))}" by (auto simp: pk)
  have "clear_of (a + 4 + length f) ms us"
    unfolding clear_of_def
  proof (intro conjI allI impI)
    show "length ms \<le> length us" "\<forall>f \<in> set ms. length f < 2 ^ 32" using Cons.prems(2) by (auto simp: clear_of_def ts)
    fix i assume i: "i < length ms"
    have "{ts ! Suc i..<ts ! Suc i + length ((f # ms) ! Suc i)} \<inter> {a..<a + length (packed (f # ms))} = {}"
      using Cons.prems(2) i unfolding clear_of_def by (metis Suc_less_eq length_Cons)
    with sub show "{us ! i..<us ! i + length (ms ! i)} \<inter> {a + 4 + length f..<a + 4 + length f + length (packed ms)} = {}"
      by (auto simp: ts)
    fix j assume j: "j < i"
    have "{ts ! Suc i..<ts ! Suc i + length ((f # ms) ! Suc i)} \<inter> {ts ! Suc j..<ts ! Suc j + length ((f # ms) ! Suc j)} = {}"
      using Cons.prems(2) i j unfolding clear_of_def by (metis Suc_less_eq length_Cons)
    then show "{us ! i..<us ! i + length (ms ! i)} \<inter> {us ! j..<us ! j + length (ms ! j)} = {}" by (simp add: ts)
  qed
  from Cons.IH [OF pm this] obtain m' where m': "loadLoop (length ms) (a + 4 + length f) us ?m = Some m'"
    "\<forall>i < length ms. bytes m' (us ! i) (length (ms ! i)) = ms ! i"
    "\<forall>x. (\<forall>i < length ms. x \<notin> {us ! i..<us ! i + length (ms ! i)}) \<longrightarrow> m' x = ?m x" by blast
  have first: "bytes m' t (length f) = f"
  proof -
    have "m' (t + k) = ?m (t + k)" if "k < length f" for k
    proof -
      have "t + k \<notin> {us ! i..<us ! i + length (ms ! i)}" if i: "i < length ms" for i
      proof -
        have "{ts ! Suc i..<ts ! Suc i + length ((f # ms) ! Suc i)} \<inter> {ts ! 0..<ts ! 0 + length ((f # ms) ! 0)} = {}"
          using Cons.prems(2) i unfolding clear_of_def by (metis Suc_less_eq length_Cons zero_less_Suc)
        moreover have "t + k \<in> {ts ! 0..<ts ! 0 + length ((f # ms) ! 0)}" using \<open>k < length f\<close> by (simp add: ts)
        ultimately show ?thesis by (auto simp: ts disjoint_iff)
      qed
      with m'(3) show ?thesis by blast
    qed
    then have "bytes m' t (length f) = bytes ?m t (length f)" by (intro bytes_cong) simp
    then show ?thesis by simp
  qed
  have "bytes m' (ts ! i) (length ((f # ms) ! i)) = (f # ms) ! i" if "i < length (f # ms)" for i
    using that first m'(2) by (cases i) (auto simp: ts)
  moreover have "m' x = m x" if x: "\<forall>i < length (f # ms). x \<notin> {ts ! i..<ts ! i + length ((f # ms) ! i)}" for x
  proof -
    have "x \<notin> {us ! i..<us ! i + length (ms ! i)}" if "i < length ms" for i using x [rule_format, of "Suc i"] that by (simp add: ts)
    then have "m' x = ?m x" using m'(3) by blast
    moreover have "x \<notin> {t..<t + length f}" using x [rule_format, of 0] by (simp add: ts)
    ultimately show ?thesis by (auto simp: wr_def)
  qed
  ultimately show ?case using step m'(1) by auto
qed

section \<open>Properties\<close>

text \<open>C22: the loader inverts the packer. The packer makes an image of a kernel and any files;
  wherever the image is in memory, \<open>loadModules\<close>, started behind the kernel, returns and puts each file
  unchanged at its address, when the places of the modules overlap neither each other nor the image.\<close>

theorem packed_image_loads:
  assumes "fs kname = Some kern" and "list_all2 (\<lambda>n f. fs n = Some f) ns ms" and "length ms < 2 ^ 32"
  shows "\<exists>image. packer_main fs (kname # ns) = Some image \<and>
    (\<forall>m b ts. bytes m b (length image) = image \<longrightarrow> clear_of (b + length kern + 4) ms ts \<longrightarrow>
       (\<exists>m'. loadModules (b + length kern) ts m = Some m' \<and> (\<forall>i < length ms. bytes m' (ts ! i) (length (ms ! i)) = ms ! i)))"
proof (rule exI [of _ "kern @ le32 (of_nat (length ms)) @ packed ms"], intro conjI allI impI)
  let ?image = "kern @ le32 (of_nat (length ms)) @ packed ms"
  have "list_all (\<lambda>f. fs f \<noteq> None) ns" "length ns = length ms"
    using assms(2) by (auto simp: list_all_length list_all2_conv_all_nth)
  with packLoop_packed [OF assms(2)] assms(1) show "packer_main fs (kname # ns) = Some ?image"
    by (simp add: packer_main_def checkFiles_def buildImage_def write_file_append)
  fix m b ts assume image: "bytes m b (length ?image) = ?image" and c: "clear_of (b + length kern + 4) ms ts"
  have pm: "bytes m (b + length kern) 4 = le32 (of_nat (length ms))" "bytes m (b + length kern + 4) (length (packed ms)) = packed ms"
    using image bytes_split [of m b kern "le32 (of_nat (length ms)) @ packed ms"]
      bytes_split [of m "b + length kern" "le32 (of_nat (length ms))" "packed ms"] by simp_all
  have "unat (of_nat (length ms) :: u32) = length ms" using assms(3) by (simp add: unat_of_nat take_bit_nat_eq_self)
  with loadLoop_packed [OF pm(2) c] show "\<exists>m'. loadModules (b + length kern) ts m = Some m' \<and> (\<forall>i < length ms. bytes m' (ts ! i) (length (ms ! i)) = ms ! i)"
    by (auto simp: loadModules_def read_le32 [OF pm(1)])
qed

theorem packed_image_loads_witness:
  "\<exists>image m'. packer_main [''kernel'' \<mapsto> [1, 2, 3], ''code'' \<mapsto> [4, 5], ''data'' \<mapsto> [6]] [''kernel'', ''code'', ''data''] = Some image \<and>
     loadModules 103 [0x400000, 0x500000] (wr (\<lambda>_. 0) 100 image) = Some m' \<and> bytes m' 0x400000 2 = [4, 5] \<and> bytes m' 0x500000 1 = [6]"
proof -
  define fs :: files where "fs = [''kernel'' \<mapsto> [1, 2, 3], ''code'' \<mapsto> [4, 5], ''data'' \<mapsto> [6]]"
  define ms :: "u8 list list" where "ms = [[4, 5], [6]]"
  let ?ts = "[0x400000, 0x500000] :: addr list"
  have f: "fs ''kernel'' = Some [1, 2, 3]" "list_all2 (\<lambda>n f. fs n = Some f) [''code'', ''data''] ms" "length ms < 2 ^ 32"
    by (simp_all add: fs_def ms_def)
  from packed_image_loads [OF f] obtain image where image: "packer_main fs [''kernel'', ''code'', ''data''] = Some image"
    and loads: "\<And>m b ts. bytes m b (length image) = image \<Longrightarrow> clear_of (b + length [1 :: u8, 2, 3] + 4) ms ts \<Longrightarrow>
       (\<exists>m'. loadModules (b + length [1 :: u8, 2, 3]) ts m = Some m' \<and> (\<forall>i < length ms. bytes m' (ts ! i) (length (ms ! i)) = ms ! i))"
    by blast
  have c: "clear_of (100 + length [1 :: u8, 2, 3] + 4) ms ?ts"
    unfolding clear_of_def by (auto simp: packed_def ms_def less_Suc_eq)
  have "bytes (wr (\<lambda>_. 0) 100 image) 100 (length image) = image" by simp
  from loads [OF this c] obtain m' where l: "loadModules 103 ?ts (wr (\<lambda>_. 0) 100 image) = Some m'"
    "\<forall>i < length ms. bytes m' (?ts ! i) (length (ms ! i)) = ms ! i" by auto
  have "loadModules 103 ?ts (wr (\<lambda>_. 0) 100 image) = Some m'"
    "bytes m' (?ts ! 0) (length (ms ! 0)) = ms ! 0" "bytes m' (?ts ! 1) (length (ms ! 1)) = ms ! 1"
    using l(1) l(2) [rule_format, of 0] l(2) [rule_format, of 1] by (simp_all add: ms_def)
  with image show ?thesis unfolding fs_def ms_def by (intro exI [of _ image] exI [of _ m']) (simp add: numeral_2_eq_2)
qed

text \<open>after \<open>load_idt\<close>, the processor finds in the entries of the timer, the keyboard, the two exceptions
  and the system calls an interrupt gate to the right handler, for handlers anywhere in the 64-bit
  address space; every other entry is as it was, and only the timer and the keyboard are unmasked.\<close>

theorem idt_gates:
  "gate_target (idt (load_idt H s) 0x20) = irq00Handler H \<and> gate_target (idt (load_idt H s) 0x21) = irq01Handler H \<and>
   gate_target (idt (load_idt H s) 0) = exception0Handler H \<and> gate_target (idt (load_idt H s) 6) = exception6Handler H \<and>
   gate_target (idt (load_idt H s) 0x80) = systemCallsHandler H \<and>
   (\<forall>i. if i \<in> {0x20, 0x21, 0, 6, 0x80} then access (idt (load_idt H s) i) = ACS_INT \<and> selector (idt (load_idt H s) i) = 8
        else idt (load_idt H s) i = idt s i) \<and>
   (\<forall>i. bit (picMaster (load_idt H s)) i = (2 \<le> i \<and> i < 8)) \<and> (\<forall>i. bit (picSlave (load_idt H s)) i = (i < 8))"
proof -
  have t: "ucast (ucast (w AND 0xFFFF) :: u16) OR push_bit 16 (ucast (ucast (drop_bit 16 w AND 0xFFFF) :: u16)) OR
      push_bit 32 (ucast (ucast (drop_bit 32 w AND 0xFFFFFFFF) :: u32)) = w" for w :: u64
  proof -
    have k: "x AND 0xFFFF = take_bit 16 x" "x AND 0xFFFFFFFF = take_bit 32 x" for x :: u64
      by (simp_all add: take_bit_eq_mask mask_eq_exp_minus_1)
    show ?thesis unfolding k
    proof (rule bit_word_eqI)
      fix n assume "n < LENGTH(64)"
      then show "bit (ucast (ucast (take_bit 16 w) :: u16) OR push_bit 16 (ucast (ucast (take_bit 16 (drop_bit 16 w)) :: u16)) OR
          push_bit 32 (ucast (ucast (take_bit 32 (drop_bit 32 w)) :: u32)) :: u64) n = bit w n"
        by (cases "n < 16"; cases "n < 32"; auto simp: bit_simps)
    qed
  qed
  have m: "bit (0xFC :: u8) i \<longleftrightarrow> 2 \<le> i \<and> i < 8" "bit (0xFF :: u8) i \<longleftrightarrow> i < 8" for i
  proof -
    have "i \<in> {0, 1, 2, 3, 4, 5, 6, 7} \<or> 8 \<le> i" by auto
    then show "bit (0xFC :: u8) i \<longleftrightarrow> 2 \<le> i \<and> i < 8" "bit (0xFF :: u8) i \<longleftrightarrow> i < 8"
      using bit_imp_le_length [of "0xFC :: u8" i] bit_imp_le_length [of "0xFF :: u8" i] by (auto simp: bit_simps)
  qed
  show ?thesis using t m by (auto simp: load_idt_def setup_IDT_entry_def gate_target_def Let_def)
qed

end
