(* ===== verification/Buddy.thy ===== *)
theory Buddy
  imports KLib Allocator
begin

text \<open>
  The buddy memory manager of the build with \<open>BUDDY\<close>, \<open>src/Kernel/utils/memManagerBuddy.c\<close>: definitions.
  The heap is \<open>2 ^ 17\<close> pages of 4096 bytes. \<open>tree\<close> is an array with one byte per node of a complete
  binary tree; an access outside the array is the outcome \<open>None\<close>. \<open>pvPortMalloc\<close> and
  \<open>vPortFree\<close> carry the suffix \<open>_b\<close>.
\<close>

section \<open>State\<close>

abbreviation (input) NODE_UNUSED :: u8 where "NODE_UNUSED \<equiv> 0"
abbreviation (input) NODE_USED :: u8 where "NODE_USED \<equiv> 1"
abbreviation (input) NODE_SPLIT :: u8 where "NODE_SPLIT \<equiv> 2"
abbreviation (input) NODE_FULL :: u8 where "NODE_FULL \<equiv> 3"
abbreviation (input) LEVEL :: int where "LEVEL \<equiv> 17"
abbreviation (input) TREE_SIZE :: int where "TREE_SIZE \<equiv> 262143"
abbreviation (input) PAGE_SIZE :: int where "PAGE_SIZE \<equiv> 0x1000"

record buddy_state =
  level :: int
  tree :: "int \<Rightarrow> u8"
  heapAddress :: int

definition rdT :: "int \<Rightarrow> buddy_state \<Rightarrow> u8 option" where
  "rdT i s = (if 0 \<le> i \<and> i < TREE_SIZE then Some (tree s i) else None)"

definition wrT :: "int \<Rightarrow> u8 \<Rightarrow> buddy_state \<Rightarrow> buddy_state option" where
  "wrT i v s = (if 0 \<le> i \<and> i < TREE_SIZE then Some (s\<lparr>tree := (tree s)(i := v)\<rparr>) else None)"

definition initMemoryManager_b :: "addr \<Rightarrow> buddy_state \<Rightarrow> buddy_state" where
  "initMemoryManager_b managedMemSize s =
     \<lparr>level = LEVEL, tree = (\<lambda>i. if 0 \<le> i \<and> i < TREE_SIZE then NODE_UNUSED else tree s i), heapAddress = s32 (int managedMemSize)\<rparr>"

section \<open>Powers of two\<close>

definition is_pow_of_2 :: "u32 \<Rightarrow> bool" where
  "is_pow_of_2 x \<longleftrightarrow> x AND (x - 1) = 0"

definition next_pow_of_2 :: "u32 \<Rightarrow> u32" where
  "next_pow_of_2 x =
     (if is_pow_of_2 x then x
      else
        let x = x OR drop_bit 1 x;
            x = x OR drop_bit 2 x;
            x = x OR drop_bit 4 x;
            x = x OR drop_bit 8 x;
            x = x OR drop_bit 16 x
        in x + 1)"

section \<open>Allocation\<close>

definition index_offset :: "int \<Rightarrow> int \<Rightarrow> int \<Rightarrow> buddy_state \<Rightarrow> int" where
  "index_offset index lv max_level s =
     s32 ((index + 1 - 2 ^ nat lv) * 2 ^ nat (max_level - lv) * PAGE_SIZE + heapAddress s)"

partial_function (option) mark_parent :: "int \<Rightarrow> buddy_state \<Rightarrow> buddy_state option" where
  "mark_parent index s =
     (let buddy = index - 1 + (index AND 1) * 2 in
      if buddy > 0
      then do {
        b \<leftarrow> rdT buddy s;
        if b = NODE_USED \<or> b = NODE_FULL
        then let index = (index + 1) sdiv 2 - 1 in do { s \<leftarrow> wrT index NODE_FULL s; mark_parent index s }
        else Some s
      }
      else Some s)"

text \<open>The \<open>while (cont)\<close> loop: up to the first ancestor that is a left child, and to its sibling.\<close>

function climbLoop :: "int \<Rightarrow> int \<Rightarrow> int \<Rightarrow> (int \<times> int \<times> int) option" where
  "climbLoop index lv len =
     (let lv = lv - 1; len = len * 2; index' = (index + 1) sdiv 2 - 1 in
      if index' < 0 then None
      else if index' AND 1 \<noteq> 0 then Some (index' + 1, lv, len)
      else climbLoop index' lv len)"
  by pat_completeness auto
termination
proof (relation "measure (\<lambda>(i, l, n). nat i)", goal_cases)
  case (2 index lv len lv' len' index')
  then have "0 \<le> (index + 1) sdiv 2 - 1" by simp
  then have "1 \<le> (index + 1) sdiv 2" by simp
  moreover have "(index + 1) sdiv 2 \<le> 0" if "index + 1 \<le> 0"
    using that by (auto simp: signed_divide_int_def sgn_if)
  ultimately have "0 < index + 1" by linarith
  then have "(index + 1) sdiv 2 = (index + 1) div 2" by (simp add: signed_divide_int_def)
  with 2 \<open>0 < index + 1\<close> show ?case by auto
qed simp

declare climbLoop.simps [simp del]

definition nextNode :: "int \<Rightarrow> int \<Rightarrow> int \<Rightarrow> (int \<times> int \<times> int) option" where
  "nextNode index lv len = (if index AND 1 \<noteq> 0 then Some (index + 1, lv, len) else climbLoop index lv len)"

partial_function (option) allocLoop :: "int \<Rightarrow> int \<Rightarrow> int \<Rightarrow> int \<Rightarrow> buddy_state \<Rightarrow> (int \<times> buddy_state) option" where
  "allocLoop sz index lv len s =
     (if index \<ge> 0
      then do {
        n \<leftarrow> rdT index s;
        if sz = len \<and> n = NODE_UNUSED
        then do {
          s \<leftarrow> wrT index NODE_USED s;
          s \<leftarrow> mark_parent index s;
          Some (index_offset index lv (level s) s, s)
        }
        else if sz = len \<or> n = NODE_USED \<or> n = NODE_FULL
        then case nextNode index lv len of
            None \<Rightarrow> Some (0, s)
          | Some (i, l, k) \<Rightarrow> allocLoop sz i l k s
        else do {
          s \<leftarrow>
            (if n = NODE_UNUSED
             then do {
               s \<leftarrow> wrT index NODE_SPLIT s;
               s \<leftarrow> wrT (index * 2 + 1) NODE_UNUSED s;
               wrT (index * 2 + 2) NODE_UNUSED s
             }
             else Some s);
          allocLoop sz (index * 2 + 1) (lv + 1) (len sdiv 2) s
        }
      }
      else Some (0, s))"

definition buddy_alloc :: "int \<Rightarrow> buddy_state \<Rightarrow> (int \<times> buddy_state) option" where
  "buddy_alloc b s =
     (let n = (if b smod PAGE_SIZE \<noteq> 0 then b sdiv PAGE_SIZE + 1 else b sdiv PAGE_SIZE);
          sz = (if n = 0 then 1 else sint (next_pow_of_2 (word_of_int n)));
          len = 2 ^ nat (level s)
      in if sz > len then Some (0, s) else allocLoop sz 0 0 len s)"

definition pvPortMalloc_b :: "nat \<Rightarrow> buddy_state \<Rightarrow> (addr \<times> buddy_state) option" where
  "pvPortMalloc_b sz s = do { (p, s) \<leftarrow> buddy_alloc (s32 (int sz)) s; Some (nat (p mod 2 ^ 64), s) }"

section \<open>Release\<close>

partial_function (option) unfull :: "int \<Rightarrow> buddy_state \<Rightarrow> buddy_state option" where
  "unfull index s =
     (if index \<ge> 0
      then do {
        n \<leftarrow> rdT index s;
        if n = NODE_FULL then do { s \<leftarrow> wrT index NODE_SPLIT s; unfull ((index + 1) sdiv 2 - 1) s } else Some s
      }
      else Some s)"

partial_function (option) combine :: "int \<Rightarrow> buddy_state \<Rightarrow> buddy_state option" where
  "combine index s =
     (let buddy = index - 1 + (index AND 1) * 2 in
      do {
        stop \<leftarrow> (if buddy < 0 then Some True else do { b \<leftarrow> rdT buddy s; Some (b \<noteq> NODE_UNUSED) });
        if stop then do { s \<leftarrow> wrT index NODE_UNUSED s; unfull ((index + 1) sdiv 2 - 1) s }
        else combine ((index + 1) sdiv 2 - 1) s
      })"

partial_function (option) freeLoop :: "int \<Rightarrow> int \<Rightarrow> int \<Rightarrow> int \<Rightarrow> buddy_state \<Rightarrow> (int \<times> buddy_state) option" where
  "freeLoop offset left len index s =
     do {
       n \<leftarrow> rdT index s;
       if n = NODE_USED
       then if offset \<noteq> left then Some (- 1, s) else do { s \<leftarrow> combine index s; Some (0, s) }
       else if n = NODE_UNUSED then Some (- 1, s)
       else
         let len = len sdiv 2 in
         if offset < left + len then freeLoop offset left len (index * 2 + 1) s
         else freeLoop offset (left + len) len (index * 2 + 2) s
     }"

definition buddy_free :: "addr \<Rightarrow> buddy_state \<Rightarrow> (int \<times> buddy_state) option" where
  "buddy_free pointer s =
     (let offset = s32 (int pointer); offset = s32 (offset - heapAddress s) sdiv PAGE_SIZE in
      if offset \<ge> 2 ^ nat (level s) then Some (- 1, s)
      else freeLoop offset 0 (2 ^ nat (level s)) 0 s)"

definition vPortFree_b :: "addr \<Rightarrow> buddy_state \<Rightarrow> buddy_state option" where
  "vPortFree_b pointer s = map_option snd (buddy_free pointer s)"

section \<open>Statistics\<close>

definition getSize :: "int \<Rightarrow> int \<Rightarrow> u64" where
  "getSize lv max_level = of_int (s32 (2 ^ nat (max_level - lv) * PAGE_SIZE))"

partial_function (option) buddy_dumpMM :: "int \<Rightarrow> int \<Rightarrow> buddy_state \<Rightarrow> u64 \<times> u64 \<Rightarrow> (u64 \<times> u64) option" where
  "buddy_dumpMM index lv s acc =
     do {
       n \<leftarrow> rdT index s;
       if n = NODE_UNUSED then Some (fst acc + getSize lv (level s), snd acc)
       else if n = NODE_USED then Some (fst acc + getSize lv (level s), snd acc + getSize lv (level s))
       else do {
         acc \<leftarrow> buddy_dumpMM (index * 2 + 1) (lv + 1) s acc;
         buddy_dumpMM (index * 2 + 2) (lv + 1) s acc
       }
     }"

text \<open>\<open>litFreeMem\<close> and \<open>litTotalMem\<close> are the addresses of the literals, \<open>buffer\<close> that of the local array.\<close>

definition dumpMM_b :: "addr \<Rightarrow> addr \<Rightarrow> addr \<Rightarrow> mem \<Rightarrow> buddy_state \<Rightarrow> (addr \<times> mem \<times> buddy_state) option" where
  "dumpMM_b litFreeMem litTotalMem buffer m s =
     do {
       (sz, used) \<leftarrow> buddy_dumpMM 0 0 s (0, 0);
       (txt, s) \<leftarrow> pvPortMalloc_b 100 s;
       if txt = NULL then None
       else do {
         let m = wr m buffer (replicate 20 0);
         (n, m) \<leftarrow> strcpy txt litFreeMem m;
         let ans = idx txt n;
         let (b, m) = itoa (s32 (uint (sz - used))) buffer 10 20 m;
         (n, m) \<leftarrow> strcpy ans b m;
         let ans = idx ans n;
         (n, m) \<leftarrow> strcpy ans litTotalMem m;
         let ans = idx ans n;
         let (b, m) = itoa (s32 (uint sz)) buffer 10 20 m;
         (n, m) \<leftarrow> strcpy ans b m;
         Some (txt, m, s)
       }
     }"

end
