(* ===== verification/Buddy_Tree.thy ===== *)
theory Buddy_Tree
  imports Bottler_Prelude
begin

text \<open>
  What the buddy allocator does, on a tree: a part of the heap of \<open>2 ^ h\<close> pages is unused, used as one
  block, or split in two halves. \<open>claim\<close> and \<open>give\<close> are the operations, \<open>blocks\<close> the used
  blocks by their first page. The second part is about powers of two as 32-bit words.
\<close>

section \<open>Trees\<close>

datatype bt = Unused | Used | Split bt bt

fun full :: "bt \<Rightarrow> bool" where
  "full Unused = False"
| "full Used = True"
| "full (Split l r) = (full l \<and> full r)"

text \<open>Of the height and without a pair of unused halves.\<close>

fun shape :: "nat \<Rightarrow> bt \<Rightarrow> bool" where
  "shape h Unused = True"
| "shape h Used = True"
| "shape 0 (Split l r) = False"
| "shape (Suc h) (Split l r) = (shape h l \<and> shape h r \<and> (l \<noteq> Unused \<or> r \<noteq> Unused))"

fun claim :: "nat \<Rightarrow> nat \<Rightarrow> bt \<Rightarrow> (bt \<times> nat) option" where
  "claim k 0 Unused = (if k = 0 then Some (Used, 0) else None)"
| "claim k (Suc h) Unused =
     (if k = Suc h then Some (Used, 0) else map_option (\<lambda>(l, i). (Split l Unused, i)) (claim k h Unused))"
| "claim k h Used = None"
| "claim k 0 (Split l r) = None"
| "claim k (Suc h) (Split l r) =
     (if k = Suc h then None
      else case claim k h l of
          Some (l', i) \<Rightarrow> Some (Split l' r, i)
        | None \<Rightarrow> map_option (\<lambda>(r', i). (Split l r', i + 2 ^ h)) (claim k h r))"

definition join :: "bt \<Rightarrow> bt \<Rightarrow> bt" where
  "join l r = (if l = Unused \<and> r = Unused then Unused else Split l r)"

fun give :: "nat \<Rightarrow> nat \<Rightarrow> bt \<Rightarrow> bt option" where
  "give i h Unused = None"
| "give i h Used = (if i = 0 then Some Unused else None)"
| "give i 0 (Split l r) = None"
| "give i (Suc h) (Split l r) =
     (if i < 2 ^ h then map_option (\<lambda>l. join l r) (give i h l)
      else map_option (\<lambda>r. join l r) (give (i - 2 ^ h) h r))"

fun blocks :: "nat \<Rightarrow> nat \<Rightarrow> bt \<Rightarrow> nat \<rightharpoonup> nat" where
  "blocks a h Unused = Map.empty"
| "blocks a h Used = [a \<mapsto> 2 ^ h]"
| "blocks a 0 (Split l r) = Map.empty"
| "blocks a (Suc h) (Split l r) = blocks a h l ++ blocks (a + 2 ^ h) h r"

section \<open>Blocks\<close>

lemma blocks_range:
  "blocks a h t p = Some n \<Longrightarrow> a \<le> p \<and> p + n \<le> a + 2 ^ h \<and> 0 < n"
  by (induction a h t rule: blocks.induct) (fastforce split: if_splits simp: map_add_Some_iff)+

lemma blocks_out [simp]: "p < a \<Longrightarrow> blocks a h t p = None" "a + 2 ^ h \<le> p \<Longrightarrow> blocks a h t p = None"
  using blocks_range [of a h t p] by (cases "blocks a h t p"; force)+

lemma blocks_half:
  "blocks a (Suc h) (Split l r) p = (if p < a + 2 ^ h then blocks a h l p else blocks (a + 2 ^ h) h r p)"
  by (cases "blocks (a + 2 ^ h) h r p") (auto simp: map_add_def)

lemma blocks_upd_left:
  "p < a + 2 ^ h \<Longrightarrow> blocks a h l' = (blocks a h l)(p := v) \<Longrightarrow>
    blocks a (Suc h) (Split l' r) = (blocks a (Suc h) (Split l r))(p := v)"
  by (rule ext) (auto simp: blocks_half simp del: blocks.simps)

lemma blocks_upd_right:
  "a + 2 ^ h \<le> p \<Longrightarrow> blocks (a + 2 ^ h) h r' = (blocks (a + 2 ^ h) h r)(p := v) \<Longrightarrow>
    blocks a (Suc h) (Split l r') = (blocks a (Suc h) (Split l r))(p := v)"
  by (rule ext) (auto simp: blocks_half simp del: blocks.simps)

lemma blocks_apart:
  "blocks a h t p = Some m \<Longrightarrow> blocks a h t q = Some n \<Longrightarrow> p \<noteq> q \<Longrightarrow> p + m \<le> q \<or> q + n \<le> p"
proof (induction a h t arbitrary: p q m n rule: blocks.induct)
  case (4 a h l r)
  have lo: "p + m \<le> a + 2 ^ h" if "blocks a h l p = Some m" for p m using blocks_range [OF that] by simp
  show ?case using 4 lo [of p m] lo [of q n] by (fastforce simp: blocks_half simp del: blocks.simps split: if_splits)
qed (auto split: if_splits)

lemma blocks_join: "blocks a (Suc h) (join l r) = blocks a (Suc h) (Split l r)"
  by (auto simp: join_def)

lemma shape_join: "shape h l \<Longrightarrow> shape h r \<Longrightarrow> shape (Suc h) (join l r)"
  by (auto simp: join_def)

lemma shape_used: "shape h t \<Longrightarrow> t \<noteq> Unused \<Longrightarrow> \<exists>p n. blocks a h t p = Some n"
proof (induction h t arbitrary: a rule: shape.induct)
  case (4 h l r)
  then consider "l \<noteq> Unused" | "r \<noteq> Unused" by auto
  then show ?case
  proof cases
    case 1
    with 4 obtain p n where "blocks a h l p = Some n" by fastforce
    then have "blocks a (Suc h) (Split l r) p = Some n"
      using blocks_range [of a h l p n] by (auto simp: blocks_half simp del: blocks.simps)
    then show ?thesis by blast
  next
    case 2
    with 4 obtain p n where "blocks (a + 2 ^ h) h r p = Some n" by fastforce
    then have "blocks a (Suc h) (Split l r) p = Some n"
      using blocks_range [of "a + 2 ^ h" h r p n] by (auto simp: blocks_half simp del: blocks.simps)
    then show ?thesis by blast
  qed
qed auto

section \<open>Operations\<close>

lemma add_pow_less: "i + 2 ^ k \<le> n \<Longrightarrow> i < (n::nat)"
  using zero_less_power [of "2::nat" k] by linarith

lemma claim_full [simp]: "full t \<Longrightarrow> claim k h t = None"
  by (induction k h t rule: claim.induct) auto

lemma claim_used: "claim k h t = Some (t', i) \<Longrightarrow> t' \<noteq> Unused"
  by (induction k h t rule: claim.induct) (auto split: option.splits if_splits)

lemma claim_unused: "k \<le> h \<Longrightarrow> claim k h Unused \<noteq> None"
  by (induction h) (auto simp: le_Suc_eq)

lemma claim_shape: "claim k h t = Some (t', i) \<Longrightarrow> shape h t \<Longrightarrow> shape h t'"
proof (induction k h t arbitrary: t' i rule: claim.induct)
  case (2 k h)
  then show ?case using claim_used [of k h Unused] by (fastforce split: if_splits)
next
  case (5 k h l r)
  then show ?case using claim_used [of k h l] claim_used [of k h r] by (fastforce split: if_splits option.splits)
qed (auto split: if_splits)

lemma claim_blocks:
  "claim k h t = Some (t', i) \<Longrightarrow> i + 2 ^ k \<le> 2 ^ h \<and> 2 ^ k dvd i \<and> blocks a h t (a + i) = None \<and>
    blocks a h t' = (blocks a h t)(a + i \<mapsto> 2 ^ k)"
proof (induction k h t arbitrary: t' i a rule: claim.induct)
  case (2 k h)
  show ?case
  proof (cases "k = Suc h")
    case False
    with 2 obtain l where l: "t' = Split l Unused" "claim k h Unused = Some (l, i)" by auto
    have "blocks a (Suc h) (Split l Unused) = (blocks a (Suc h) (Split Unused Unused))(a + i \<mapsto> 2 ^ k)"
      using 2(1) [OF False l(2), of a] by (intro blocks_upd_left) (auto dest: add_pow_less)
    with 2(1) [OF False l(2), of a] show ?thesis by (simp add: l(1))
  qed (use 2 in auto)
next
  case (5 k h l r)
  have k: "k \<noteq> Suc h" using 5(3) by (auto split: if_splits)
  show ?case
  proof (cases "claim k h l")
    case None
    with 5(3) k obtain r' j where r: "claim k h r = Some (r', j)" "t' = Split l r'" "i = j + 2 ^ h" by auto
    note ih = 5(2) [OF k None r(1), of "a + 2 ^ h"]
    have "(2::nat) ^ k \<le> 2 ^ h" using ih by (blast intro: add_leD2)
    then have "k \<le> h" by (rule power_le_imp_le_exp [rotated]) simp
    then have "2 ^ k dvd (2 ^ h :: nat)" by (simp add: le_imp_power_dvd)
    moreover have "blocks a (Suc h) (Split l r') = (blocks a (Suc h) (Split l r))(a + 2 ^ h + j \<mapsto> 2 ^ k)"
      using ih by (intro blocks_upd_right) auto
    moreover have "blocks a (Suc h) (Split l r) (a + 2 ^ h + j) = None"
      using ih by (simp add: blocks_half del: blocks.simps)
    moreover have i: "a + i = a + 2 ^ h + j" using r by simp
    ultimately show ?thesis using ih r(3) unfolding r(2) i by (simp del: blocks.simps fun_upd_apply)
  next
    case (Some z)
    with 5(3) k obtain l' where l: "claim k h l = Some (l', i)" "t' = Split l' r" by (cases z) auto
    note ih = 5(1) [OF k l(1), of a]
    have lt: "a + i < a + 2 ^ h" using ih by (auto dest: add_pow_less)
    then have "blocks a (Suc h) (Split l' r) = (blocks a (Suc h) (Split l r))(a + i \<mapsto> 2 ^ k)"
      using ih by (intro blocks_upd_left) auto
    moreover have "blocks a (Suc h) (Split l r) (a + i) = None"
      using ih lt by (simp add: blocks_half del: blocks.simps)
    ultimately show ?thesis using ih lt unfolding l(2) by (simp del: blocks.simps fun_upd_apply)
  qed
qed (auto split: if_splits)

text \<open>A request fails only when every aligned run of its size meets a used block.\<close>

lemma claim_complete:
  assumes "claim k h t = None" "shape h t" "k \<le> h" "a \<le> c" "c + 2 ^ k \<le> a + 2 ^ h" "2 ^ k dvd c" "2 ^ h dvd a"
  shows "\<exists>p n. blocks a h t p = Some n \<and> p < c + 2 ^ k \<and> c < p + n"
  using assms
proof (induction h t arbitrary: a rule: shape.induct)
  case (2 h)
  then have "c < a + 2 ^ h" "a < c + 2 ^ k" using zero_less_power [of "2::nat" k] by linarith+
  then show ?case by auto
next
  case (4 h l r)
  show ?case
  proof (cases "k = Suc h")
    case True
    then have c: "c = a" using 4 by simp
    obtain p n where p: "blocks a (Suc h) (Split l r) p = Some n"
      using shape_used [OF 4(4), of a] by blast
    from blocks_range [OF p] show ?thesis using p c True by (intro exI [of _ p] exI [of _ n]) auto
  next
    case False
    then have k: "k \<le> h" using 4 by simp
    have n: "claim k h l = None" "claim k h r = None" using 4(3) False by (auto split: option.splits)
    have d: "2 ^ h dvd a" using 4(9) by (meson dvd_trans le_imp_power_dvd le_add2 le_SucI order_refl)
    have dk: "2 ^ k dvd a + 2 ^ h" using d k by (meson dvd_add dvd_trans le_imp_power_dvd dvd_refl)
    consider "c < a + 2 ^ h" | "a + 2 ^ h \<le> c" by linarith
    then show ?thesis
    proof cases
      case 1
      have "c + 2 ^ k \<le> a + 2 ^ h"
      proof -
        from 4(8) dk obtain x y where xy: "c = 2 ^ k * x" "a + 2 ^ h = 2 ^ k * y" by (auto elim!: dvdE)
        then have "x < y" using 1 by simp
        then have "2 ^ k * (x + 1) \<le> 2 ^ k * y" by (intro mult_le_mono) auto
        then show ?thesis using xy by simp
      qed
      then obtain p n where p: "blocks a h l p = Some n" "p < c + 2 ^ k" "c < p + n"
        using 4(1) [OF n(1) _ k 4(6) _ 4(8) d] 4(4) unfolding shape.simps by blast
      then show ?thesis using blocks_range [OF p(1)]
        by (intro exI [of _ p] exI [of _ n]) (auto simp: blocks_half simp del: blocks.simps)
    next
      case 2
      have "c + 2 ^ k \<le> a + 2 ^ h + 2 ^ h" "2 ^ h dvd a + 2 ^ h" using 4(7) d by auto
      from 4(2) [OF n(2) _ k 2 this(1) 4(8) this(2)]
      obtain p n where p: "blocks (a + 2 ^ h) h r p = Some n" "p < c + 2 ^ k" "c < p + n"
        using 4(4) unfolding shape.simps by blast
      then show ?thesis using blocks_range [OF p(1)]
        by (intro exI [of _ p] exI [of _ n]) (auto simp: blocks_half simp del: blocks.simps)
    qed
  qed
qed (use claim_unused in auto)

lemma give_blocks:
  "blocks a h t p = Some n \<Longrightarrow> shape h t \<Longrightarrow>
    \<exists>t'. give (p - a) h t = Some t' \<and> shape h t' \<and> blocks a h t' = (blocks a h t)(p := None)"
proof (induction a h t arbitrary: p n rule: blocks.induct)
  case (4 a h l r)
  show ?case
  proof (cases "p < a + 2 ^ h")
    case True
    then have p: "blocks a h l p = Some n" using 4(3) by (simp add: blocks_half del: blocks.simps)
    obtain l' where l: "give (p - a) h l = Some l'" "shape h l'" "blocks a h l' = (blocks a h l)(p := None)"
      using 4(1) [OF p] 4(4) unfolding shape.simps by blast
    have "blocks a (Suc h) (join l' r) = (blocks a (Suc h) (Split l r))(p := None)"
      using blocks_upd_left [OF True l(3)] by (simp add: blocks_join del: blocks.simps)
    with l True blocks_range [OF p] 4(4) shape_join [of h l' r] show ?thesis by auto
  next
    case False
    then have p: "blocks (a + 2 ^ h) h r p = Some n" using 4(3) by (simp add: blocks_half del: blocks.simps)
    obtain r' where r: "give (p - (a + 2 ^ h)) h r = Some r'" "shape h r'"
      "blocks (a + 2 ^ h) h r' = (blocks (a + 2 ^ h) h r)(p := None)"
      using 4(2) [OF p] 4(4) unfolding shape.simps by blast
    have "blocks a (Suc h) (join l r') = (blocks a (Suc h) (Split l r))(p := None)"
      using blocks_upd_right [OF _ r(3), of l] False by (simp add: blocks_join del: blocks.simps)
    with r False blocks_range [OF p] 4(4) shape_join [of h l r'] show ?thesis by auto
  qed
qed (auto split: if_splits)

lemma give_only: "give i h t = Some t' \<Longrightarrow> blocks a h t (a + i) \<noteq> None"
proof (induction i h t arbitrary: t' a rule: give.induct)
  case (4 i h l r)
  show ?case
  proof (cases "i < 2 ^ h")
    case True
    then obtain l' where "give i h l = Some l'" using 4(3) by auto
    from 4(1) [OF True this, of a] show ?thesis using True by (simp add: blocks_half del: blocks.simps)
  next
    case False
    then obtain r' where "give (i - 2 ^ h) h r = Some r'" using 4(3) by auto
    note b = 4(2) [OF False this, of "a + 2 ^ h"]
    have e: "a + 2 ^ h + (i - 2 ^ h) = a + i" using False by simp
    show ?thesis using b False unfolding e by (simp add: blocks_half del: blocks.simps)
  qed
qed (auto split: if_splits)

end
