(* ===== verification/Buddy_Rep.thy ===== *)
theory Buddy_Rep
  imports Buddy Buddy_Tree
begin

text \<open>
  The array of \<open>memManagerBuddy.c\<close> represents a tree of \<open>Buddy_Tree\<close>: node \<open>x\<close>, counted from 1,
  has the children \<open>2 * x\<close> and \<open>2 * x + 1\<close>. \<open>rep\<close> says that the subtree at a node is a given
  tree, \<open>around\<close> that the rest of the array represents a context. The loops of the code are
  shown to do what the operations on trees do.
\<close>

unbundle bit_operations_syntax

section \<open>Nodes\<close>

definition st :: "buddy_state \<Rightarrow> nat \<Rightarrow> u8" where
  "st s x = tree s (int x - 1)"

definition put :: "nat \<Rightarrow> u8 \<Rightarrow> buddy_state \<Rightarrow> buddy_state" where
  "put x v s = s\<lparr>tree := (tree s)(int x - 1 := v)\<rparr>"

definition same_heap :: "buddy_state \<Rightarrow> buddy_state \<Rightarrow> bool" where
  "same_heap s s' \<longleftrightarrow> level s' = level s \<and> heapAddress s' = heapAddress s"

definition place :: "nat \<Rightarrow> nat \<Rightarrow> bool" where
  "place x h \<longleftrightarrow> (\<exists>l. l + h = 17 \<and> 2 ^ l \<le> x \<and> x < 2 ^ Suc l)"

lemma st_put [simp]: "st (put x v s) y = (if y = x then v else st s y)"
  by (auto simp: st_def put_def)

lemma same_heap_put [simp]: "same_heap s (put x v s)"
  by (simp add: same_heap_def put_def)

lemma same_heap_refl [simp]: "same_heap s s"
  by (simp add: same_heap_def)

lemma same_heap_trans [trans]: "same_heap s s' \<Longrightarrow> same_heap s' s'' \<Longrightarrow> same_heap s s''"
  by (simp add: same_heap_def)

lemma place_pos: "place x h \<Longrightarrow> 0 < x"
  by (cases x) (auto simp: place_def)

lemma place_range: "place x h \<Longrightarrow> x < 2 ^ 18"
proof -
  assume "place x h"
  then obtain l where "l + h = 17" "x < 2 ^ Suc l" by (auto simp: place_def)
  with power_increasing [of "Suc l" 18 "2::nat"] show ?thesis by simp
qed

lemma rd_node [simp]: "place x h \<Longrightarrow> rdT (int x - 1) s = Some (st s x)"
  using place_pos [of x h] place_range [of x h] by (auto simp: rdT_def st_def)

lemma wr_node [simp]: "place x h \<Longrightarrow> wrT (int x - 1) v s = Some (put x v s)"
  using place_pos [of x h] place_range [of x h] by (auto simp: wrT_def put_def)

lemma place_root: "place 1 17"
  by (simp add: place_def)

lemma place_children: "place x (Suc h) \<Longrightarrow> place (2 * x) h" "place x (Suc h) \<Longrightarrow> place (2 * x + 1) h"
proof -
  assume "place x (Suc h)"
  then obtain l where "l + Suc h = 17" "2 ^ l \<le> x" "x < 2 ^ Suc l" by (auto simp: place_def)
  then show "place (2 * x) h" "place (2 * x + 1) h" by (auto simp: place_def intro!: exI [of _ "Suc l"])
qed

lemma place_parent: "place x h \<Longrightarrow> x \<noteq> 1 \<Longrightarrow> place (x div 2) (Suc h)"
proof -
  assume "place x h" and x: "x \<noteq> 1"
  then obtain l where l: "l + h = 17" "2 ^ l \<le> x" "x < 2 ^ Suc l" by (auto simp: place_def)
  then obtain m where "l = Suc m" using x by (cases l) auto
  with l show ?thesis by (auto simp: place_def intro!: exI [of _ m])
qed

lemma place_sibling: "place x h \<Longrightarrow> x \<noteq> 1 \<Longrightarrow> even x \<Longrightarrow> place (x + 1) h"
  "place x h \<Longrightarrow> x \<noteq> 1 \<Longrightarrow> odd x \<Longrightarrow> place (x - 1) h"
  using place_parent [of x h] place_children [of "x div 2" h] by (auto elim: evenE oddE)

text \<open>The arithmetic of the code on indices, which count from 0.\<close>

lemma index_parent: "(int x - 1 + 1) sdiv 2 - 1 = int (x div 2) - 1"
  by (simp add: signed_divide_int_def sgn_if zdiv_int)

lemma index_children: "(int x - 1) * 2 + 1 = int (2 * x) - 1" "(int x - 1) * 2 + 2 = int (2 * x + 1) - 1"
  by simp_all

lemma index_odd: "(int x - 1) AND 1 = (if even x then 1 else 0)"
  by (simp add: and_one_eq mod_2_eq_odd)

lemma index_buddy: "int x - 1 - 1 + ((int x - 1) AND 1) * 2 = (if even x then int (x + 1) - 1 else int x - 2)"
  by (simp add: index_odd)

section \<open>Representation\<close>

fun rep :: "bt \<Rightarrow> nat \<Rightarrow> nat \<Rightarrow> buddy_state \<Rightarrow> bool" where
  "rep Unused x h s = (st s x = NODE_UNUSED)"
| "rep Used x h s = (st s x = NODE_USED)"
| "rep (Split l r) x 0 s = False"
| "rep (Split l r) x (Suc h) s =
     (st s x = (if full l \<and> full r then NODE_FULL else NODE_SPLIT) \<and> rep l (2 * x) h s \<and> rep r (2 * x + 1) h s)"

text \<open>The way from a subtree up to the root, with the trees beside it.\<close>

datatype step = InL bt | InR bt

fun fill :: "step list \<Rightarrow> bt \<Rightarrow> bt" where
  "fill [] t = t"
| "fill (InL r # c) t = fill c (Split t r)"
| "fill (InR l # c) t = fill c (Split l t)"

fun fill_join :: "step list \<Rightarrow> bt \<Rightarrow> bt" where
  "fill_join [] t = t"
| "fill_join (InL r # c) t = fill_join c (join t r)"
| "fill_join (InR l # c) t = fill_join c (join l t)"

text \<open>\<open>f\<close> says whether the subtree at \<open>x\<close> counts as full.\<close>

fun around :: "step list \<Rightarrow> nat \<Rightarrow> nat \<Rightarrow> bool \<Rightarrow> buddy_state \<Rightarrow> bool" where
  "around [] x h f s = (x = 1 \<and> h = 17)"
| "around (InL r # c) x h f s =
     (even x \<and> x \<noteq> 0 \<and> rep r (x + 1) h s \<and> st s (x div 2) = (if f \<and> full r then NODE_FULL else NODE_SPLIT) \<and>
      around c (x div 2) (Suc h) (f \<and> full r) s)"
| "around (InR l # c) x h f s =
     (odd x \<and> x \<noteq> 1 \<and> rep l (x - 1) h s \<and> st s (x div 2) = (if f \<and> full l then NODE_FULL else NODE_SPLIT) \<and>
      around c (x div 2) (Suc h) (f \<and> full l) s)"

lemma fill_join_not_unused: "t \<noteq> Unused \<Longrightarrow> fill_join c t = fill c t"
  by (induction c t rule: fill_join.induct) (auto simp: join_def)

lemma around_place: "around c x h f s \<Longrightarrow> place x h"
proof (induction c x h f s rule: around.induct)
  case (2 r c x h f s)
  then have "place (x div 2) (Suc h)" by simp
  from place_children(1) [OF this] show ?case using 2 by auto
next
  case (3 l c x h f s)
  then have "place (x div 2) (Suc h)" by simp
  from place_children(2) [OF this] show ?case using 3 by simp
qed (use place_root in simp)

lemma rep_ge: "(\<And>y. x \<le> y \<Longrightarrow> st s' y = st s y) \<Longrightarrow> rep t x h s' = rep t x h s"
  by (induction t x h s rule: rep.induct) auto

text \<open>A context and a subtree in it make up the whole tree.\<close>

lemma rep_fill: "rep t x h s \<Longrightarrow> around c x h (full t) s \<Longrightarrow> rep (fill c t) 1 17 s"
proof (induction c t arbitrary: x h rule: fill.induct)
  case (2 r c t)
  then have "rep (Split t r) (x div 2) (Suc h) s" by auto
  from 2(1) [OF this] 2(3) show ?case by simp
next
  case (3 l c t)
  have "rep (Split l t) (x div 2) (Suc h) s" using 3(2,3) by (auto simp: conj_commute)
  from 3(1) [OF this] 3(3) show ?case by (simp add: conj_commute)
qed simp

text \<open>Changes below \<open>x\<close> do not matter for what is around it.\<close>

definition below :: "nat \<Rightarrow> nat \<Rightarrow> bool" where
  "below x y \<longleftrightarrow> (\<exists>d. y div 2 ^ d = x)"

lemma below_children: "below (2 * x) y \<Longrightarrow> below x y" "below (2 * x + 1) y \<Longrightarrow> below x y"
proof -
  have "below x y" if "y div 2 ^ d div 2 = x" for d
    unfolding below_def by (rule exI [of _ "Suc d"]) (use that in \<open>simp only: power_Suc2 div_mult2_eq\<close>)
  then show "below (2 * x) y \<Longrightarrow> below x y" "below (2 * x + 1) y \<Longrightarrow> below x y"
    unfolding below_def by (metis nonzero_mult_div_cancel_left zero_neq_numeral, metis Suc_eq_plus1 even_Suc_div_two even_mult_iff dvd_refl nonzero_mult_div_cancel_left zero_neq_numeral)
qed

lemma below_up: "below x y \<Longrightarrow> below (x div 2) y"
  using below_children [of "x div 2" y] by (cases "even x") (auto elim: evenE oddE)

lemma below_self [simp]: "below x x"
  unfolding below_def by (rule exI [of _ 0]) simp

lemma below_ge: "below x y \<Longrightarrow> x \<le> y"
  unfolding below_def by auto

lemma below_siblings:
  assumes "below (2 * p) y" "below (2 * p + 1) y" "p \<noteq> 0"
  shows False
proof -
  obtain d e where d: "y div 2 ^ d = 2 * p" and e: "y div 2 ^ e = 2 * p + 1" using assms by (auto simp: below_def)
  have up: "b \<le> a div 2" if "y div 2 ^ m = a" "y div 2 ^ n = b" "m < n" for a b m n
  proof -
    obtain j where "n = m + 1 + j" using \<open>m < n\<close> less_imp_Suc_add by fastforce
    then have "b = a div 2 div 2 ^ j" using that(1,2) by (simp only: power_add power_one_right div_mult2_eq)
    then show ?thesis by simp
  qed
  consider "d = e" | "d < e" | "e < d" by linarith
  then show False
  proof cases
    case 2
    show ?thesis using up [OF d e 2] assms(3) by simp
  next
    case 3
    show ?thesis using up [OF e d 3] assms(3) by simp
  qed (use d e in simp)
qed

lemma rep_put: "\<not> below x y \<Longrightarrow> rep t x h (put y v s) = rep t x h s"
proof (induction t x h s rule: rep.induct)
  case (4 l r x h s)
  then show ?case using below_children [of x y] by auto
qed auto

lemma around_put: "below x y \<Longrightarrow> x \<noteq> 0 \<Longrightarrow> around c x h f (put y v s) = around c x h f s"
proof (induction c x h f s rule: around.induct)
  case (2 r c x h f s)
  show ?case
  proof (cases "even x")
    case True
    then obtain p where p: "x = 2 * p" by blast
    have "\<not> below (x + 1) y" using below_siblings [of p y] 2 p by auto
    then show ?thesis using 2 p below_up [of x y] below_ge [of x y] by (auto simp: rep_put)
  qed simp
next
  case (3 l c x h f s)
  show ?case
  proof (cases "odd x \<and> x \<noteq> 1")
    case True
    then obtain p where p: "x = 2 * p + 1" "p \<noteq> 0" by (auto elim: oddE)
    have "\<not> below (x - 1) y" using below_siblings [of p y] 3 p by auto
    then show ?thesis using 3 p below_up [of x y] below_ge [of x y] by (auto simp: rep_put)
  qed auto
qed simp

end
