(* ===== verification/Buddy_Loops.thy ===== *)
theory Buddy_Loops
  imports Buddy_Rep
begin

text \<open>
  The loops of \<open>memManagerBuddy.c\<close> on an array that represents a tree: \<open>_mark_parent\<close>,
  \<open>_combine\<close>, the search of \<open>buddy_alloc\<close> and the descent of \<open>buddy_free\<close>.
\<close>

unbundle bit_operations_syntax

lemma status:
  "rep t x h s \<Longrightarrow> st s x = NODE_USED \<or> st s x = NODE_FULL \<longleftrightarrow> full t"
  "rep t x h s \<Longrightarrow> st s x = NODE_UNUSED \<longleftrightarrow> t = Unused"
  "rep t x h s \<Longrightarrow> st s x = NODE_USED \<longleftrightarrow> t = Used"
  by (cases t; cases h; auto)+

section \<open>Upwards\<close>

text \<open>The state \<open>s'\<close> differs from \<open>s\<close> in the ancestors of \<open>x\<close> only.\<close>

definition above :: "nat \<Rightarrow> buddy_state \<Rightarrow> buddy_state \<Rightarrow> bool" where
  "above x s s' \<longleftrightarrow> same_heap s s' \<and> (\<forall>y. x div 2 < y \<longrightarrow> st s' y = st s y)"

lemma aboveI_put:
  assumes "above (x div 2) (put (x div 2) v s) s'" "0 < x div 2"
  shows "above x s s'"
  using assms unfolding above_def by (auto simp: same_heap_def put_def [of _ _ s]) (simp add: put_def [symmetric])

lemma above_rep: "above x s s' \<Longrightarrow> x div 2 < z \<Longrightarrow> rep t z h s' = rep t z h s"
  by (rule rep_ge) (auto simp: above_def)

lemma above_refl [simp]: "above x s s"
  by (simp add: above_def)

lemma mark_parent_step:
  "mark_parent (int x - 1) s =
     (let b = (if even x then x + 1 else x - 1) in
      if 1 < b then do {
        v \<leftarrow> rdT (int b - 1) s;
        if v = NODE_USED \<or> v = NODE_FULL
        then do { s \<leftarrow> wrT (int (x div 2) - 1) NODE_FULL s; mark_parent (int (x div 2) - 1) s }
        else Some s
      }
      else Some s)" if "0 < x"
  unfolding mark_parent.simps [of "int x - 1"] index_buddy index_parent Let_def
  using that by (auto simp: of_nat_diff)

lemma mark_parent_rep:
  "around c x h False s \<Longrightarrow> \<exists>s'. mark_parent (int x - 1) s = Some s' \<and> around c x h True s' \<and> above x s s'"
proof (induction c arbitrary: x h s)
  case Nil
  then show ?case using mark_parent_step [of x s] by (auto simp: Let_def)
next
  case (Cons d c)
  have pl: "place x h" using around_place [OF Cons.prems] .
  define b where "b = (if even x then x + 1 else x - 1)"
  obtain q where q: "d = (if even x then InL q else InR q)" "rep q b h s" "x \<noteq> 1" "0 < x"
    "st s (x div 2) = NODE_SPLIT" "around c (x div 2) (Suc h) False s"
    using Cons.prems by (cases d) (auto simp: b_def split: if_splits)
  have p: "0 < x div 2" "x div 2 < x" "x div 2 < b" "1 < b" using q(3,4) by (auto simp: b_def elim!: evenE oddE)
  have pb: "place b h" using place_sibling [OF pl q(3)] by (auto simp: b_def)
  have pp: "place (x div 2) (Suc h)" using place_parent [OF pl q(3)] .
  note step = mark_parent_step [OF q(4), of s, folded b_def]
  show ?case
  proof (cases "full q")
    case True
    let ?s = "put (x div 2) NODE_FULL s"
    have "around c (x div 2) (Suc h) False ?s" using q(6) p(1) by (simp add: around_put)
    from Cons.IH [OF this] obtain s' where s': "mark_parent (int (x div 2) - 1) ?s = Some s'"
      "around c (x div 2) (Suc h) True s'" "above (x div 2) ?s s'" by blast
    have a: "above x s s'" using aboveI_put [OF s'(3) p(1)] .
    have "st s' (x div 2) = NODE_FULL" using s'(3) p(1) by (auto simp: above_def)
    moreover have "rep q b h s'" using above_rep [OF a p(3)] q(2) by simp
    ultimately have "around (d # c) x h True s'" using s'(2) q True by (auto simp: b_def)
    moreover have "mark_parent (int x - 1) s = Some s'"
      using step status(1) [OF q(2)] True p(4) pb pp s'(1) by (simp add: Let_def)
    ultimately show ?thesis using a by blast
  next
    case False
    then have "mark_parent (int x - 1) s = Some s" using step status(1) [OF q(2)] p(4) pb by (simp add: Let_def)
    moreover have "around (d # c) x h True s" using q False by (auto simp: b_def)
    ultimately show ?thesis by auto
  qed
qed

lemma unfull_rep:
  "around c x h f s \<Longrightarrow> \<exists>s'. unfull (int (x div 2) - 1) s = Some s' \<and> around c x h False s' \<and> above x s s'"
proof (induction c arbitrary: x h f s)
  case Nil
  then show ?case by (auto simp: unfull.simps)
next
  case (Cons d c)
  have pl: "place x h" using around_place [OF Cons.prems] .
  define b where "b = (if even x then x + 1 else x - 1)"
  obtain q where q: "d = (if even x then InL q else InR q)" "rep q b h s" "x \<noteq> 1" "0 < x"
    "st s (x div 2) = (if f \<and> full q then NODE_FULL else NODE_SPLIT)" "around c (x div 2) (Suc h) (f \<and> full q) s"
    using Cons.prems by (cases d) (auto simp: b_def split: if_splits)
  have p: "0 < x div 2" "x div 2 < x" "x div 2 < b" using q(3,4) by (auto simp: b_def elim!: evenE oddE)
  have pp: "place (x div 2) (Suc h)" using place_parent [OF pl q(3)] .
  have step: "unfull (int (x div 2) - 1) s =
      (if st s (x div 2) = NODE_FULL then unfull (int (x div 2 div 2) - 1) (put (x div 2) NODE_SPLIT s) else Some s)"
    unfolding unfull.simps [of "int (x div 2) - 1"] index_parent using p(1) pp by simp
  show ?case
  proof (cases "f \<and> full q")
    case True
    let ?s = "put (x div 2) NODE_SPLIT s"
    have "around c (x div 2) (Suc h) True ?s" using q(6) p(1) True by (simp add: around_put)
    from Cons.IH [OF this] obtain s' where s': "unfull (int (x div 2 div 2) - 1) ?s = Some s'"
      "around c (x div 2) (Suc h) False s'" "above (x div 2) ?s s'" by blast
    have a: "above x s s'" using aboveI_put [OF s'(3) p(1)] .
    have "st s' (x div 2) = NODE_SPLIT" using s'(3) p(1) by (auto simp: above_def)
    moreover have "rep q b h s'" using above_rep [OF a p(3)] q(2) by simp
    ultimately have "around (d # c) x h False s'" using s'(2) q True by (auto simp: b_def)
    with a s'(1) step q(5) True show ?thesis by auto
  next
    case False
    then have "unfull (int (x div 2) - 1) s = Some s" "around (d # c) x h False s" using step q by (auto simp: b_def)
    then show ?thesis by auto
  qed
qed

lemma combine_rep:
  "around c x h f s \<Longrightarrow> \<exists>s'. combine (int x - 1) s = Some s' \<and> rep (fill_join c Unused) 1 17 s' \<and> same_heap s s'"
proof (induction c arbitrary: x h f s)
  case Nil
  then have "combine (int x - 1) s = Some (put 1 NODE_UNUSED s)"
    using wr_node [OF place_root, of NODE_UNUSED s] by (subst combine.simps) (simp add: unfull.simps signed_divide_int_def)
  then show ?case by simp
next
  case (Cons d c)
  have pl: "place x h" using around_place [OF Cons.prems] .
  define b where "b = (if even x then x + 1 else x - 1)"
  obtain q where q: "d = (if even x then InL q else InR q)" "rep q b h s" "x \<noteq> 1" "0 < x"
    "around c (x div 2) (Suc h) (f \<and> full q) s"
    using Cons.prems by (cases d) (auto simp: b_def split: if_splits)
  have pb: "place b h" "0 < b" using place_sibling [OF pl q(3)] q(3,4) by (auto simp: b_def elim: oddE)
  have ib: "(if even x then int (x + 1) - 1 else int x - 2) = int b - 1"
    using q(4) by (auto simp: b_def of_nat_diff)
  have step: "combine (int x - 1) s =
      (if st s b \<noteq> NODE_UNUSED then unfull (int (x div 2) - 1) (put x NODE_UNUSED s) else combine (int (x div 2) - 1) s)"
    unfolding combine.simps [of "int x - 1"] index_buddy index_parent Let_def ib using pl pb by simp
  show ?case
  proof (cases "q = Unused")
    case True
    with Cons.IH [OF q(5)] step status(2) [OF q(2)] q(1) show ?thesis by (auto simp: join_def)
  next
    case False
    let ?s = "put x NODE_UNUSED s"
    have "around (d # c) x h f ?s" using Cons.prems q(4) by (simp add: around_put)
    from unfull_rep [OF this] obtain s' where s': "unfull (int (x div 2) - 1) ?s = Some s'"
      "around (d # c) x h False s'" "above x ?s s'" by blast
    have "st s' x = NODE_UNUSED" using s'(3) q(4) by (auto simp: above_def)
    then have "rep (fill (d # c) Unused) 1 17 s'" using s'(2) by (intro rep_fill) auto
    moreover have "fill_join (d # c) Unused = fill (d # c) Unused"
      using False q(1) by (auto simp: join_def fill_join_not_unused)
    moreover have "same_heap s s'" using s'(3) by (auto simp: above_def same_heap_def put_def)
    ultimately show ?thesis using step status(2) [OF q(2)] False s'(1) by auto
  qed
qed

section \<open>The search\<close>

lemma next_left: "0 < x \<Longrightarrow> nextNode (int (2 * x) - 1) lv n = Some (int (2 * x + 1) - 1, lv, n)"
  unfolding nextNode_def index_odd by simp

lemma climb: "0 < x \<Longrightarrow> climbLoop (int x - 1) lv n =
    (if x div 2 = 0 then None
     else if even (x div 2) then Some (int (x div 2 + 1) - 1, lv - 1, n * 2)
     else climbLoop (int (x div 2) - 1) (lv - 1) (n * 2))"
  unfolding climbLoop.simps [of "int x - 1"] index_parent Let_def index_odd by auto

lemma next_right: "0 < x \<Longrightarrow> nextNode (int (2 * x + 1) - 1) lv n = nextNode (int x - 1) (lv - 1) (n * 2)"
  unfolding nextNode_def index_odd using climb [of "2 * x + 1" lv n] by simp

lemma next_root: "nextNode (int 1 - 1) lv n = None"
  unfolding nextNode_def index_odd using climb [of 1 lv n] by simp

text \<open>The address of page \<open>i\<close> of the part that node \<open>x\<close> stands for.\<close>

definition page_addr :: "nat \<Rightarrow> nat \<Rightarrow> nat \<Rightarrow> buddy_state \<Rightarrow> int" where
  "page_addr x h i s = s32 ((int x * 2 ^ h - 2 ^ 17 + int i) * PAGE_SIZE + heapAddress s)"

lemma page_addr_same: "same_heap s s' \<Longrightarrow> page_addr x h i s' = page_addr x h i s"
  by (simp add: page_addr_def same_heap_def)

lemma page_addr_children:
  "page_addr (2 * x) h i s = page_addr x (Suc h) i s"
  "page_addr (2 * x + 1) h i s = page_addr x (Suc h) (i + 2 ^ h) s"
  by (simp_all add: page_addr_def algebra_simps)

lemma index_offset_node:
  assumes "place x h" "level s = 17"
  shows "index_offset (int x - 1) (17 - int h) (level s) s = page_addr x h 0 s"
proof -
  have h: "h \<le> 17" using assms by (auto simp: place_def)
  then have "(int x - 2 ^ (17 - h)) * 2 ^ h = int x * 2 ^ h - 2 ^ 17"
    by (simp add: algebra_simps flip: power_add)
  then show ?thesis using h assms(2) by (simp add: index_offset_def page_addr_def nat_diff_distrib)
qed

lemma alloc_none:
  assumes "rep t x h s" "place x h" "k \<le> h" "claim k h t = None"
  shows "allocLoop (2 ^ k) (int x - 1) lv (2 ^ h) s =
    (case nextNode (int x - 1) lv (2 ^ h) of None \<Rightarrow> Some (0, s) | Some (i, l, n) \<Rightarrow> allocLoop (2 ^ k) i l n s)"
  using assms
proof (induction t x h s arbitrary: lv rule: rep.induct)
  case (1 x h s)
  then show ?case using claim_unused [of k h] by simp
next
  case (2 x h s)
  then show ?case using place_pos [of x h] by (subst allocLoop.simps) simp
next
  case (4 l r x h s)
  have x: "0 < x" using place_pos [OF 4(4)] .
  show ?case
  proof (cases "k = Suc h \<or> (full l \<and> full r)")
    case True
    then show ?thesis using 4(3,4) x by (subst allocLoop.simps) (auto simp: power_inject_exp)
  next
    case False
    then have k: "k \<le> h" "claim k h l = None" "claim k h r = None"
      using 4(5,6) by (auto split: option.splits if_splits)
    have st: "st s x = NODE_SPLIT" "rep l (2 * x) h s" "rep r (2 * x + 1) h s" using 4(3) False by auto
    have ne: "(2::int) ^ k \<noteq> 2 ^ Suc h" using k(1) power_inject_exp [of "2::int" k "Suc h"] by auto
    have "allocLoop (2 ^ k) (int x - 1) lv (2 ^ Suc h) s = allocLoop (2 ^ k) (int (2 * x) - 1) (lv + 1) (2 ^ h) s"
      unfolding allocLoop.simps [of _ "int x - 1"] index_children using 4(4) x st(1) ne
      by (simp add: signed_divide_int_def sgn_if)
    also have "\<dots> = allocLoop (2 ^ k) (int (2 * x + 1) - 1) (lv + 1) (2 ^ h) s"
      using 4(1) [OF st(2) place_children(1) [OF 4(4)] k(1,2), of "lv + 1"] next_left [OF x, of "lv + 1" "2 ^ h"] by simp
    also have "\<dots> = (case nextNode (int x - 1) lv (2 ^ Suc h) of
        None \<Rightarrow> Some (0, s) | Some (i, l, n) \<Rightarrow> allocLoop (2 ^ k) i l n s)"
      unfolding 4(2) [OF st(3) place_children(2) [OF 4(4)] k(1,3), of "lv + 1"] next_right [OF x] by (simp add: mult.commute)
    finally show ?thesis .
  qed
qed simp

lemma alloc_here:
  assumes "st s x = NODE_UNUSED" "around c x h False s" "level s = 17"
  shows "\<exists>s'. allocLoop (2 ^ h) (int x - 1) (17 - int h) (2 ^ h) s = Some (page_addr x h 0 s, s') \<and>
    rep (fill c Used) 1 17 s' \<and> same_heap s s'"
proof -
  let ?s = "put x NODE_USED s"
  have pl: "place x h" using around_place [OF assms(2)] .
  have "around c x h False ?s" using assms(2) place_pos [OF pl] by (simp add: around_put)
  from mark_parent_rep [OF this] obtain s' where s': "mark_parent (int x - 1) ?s = Some s'" "around c x h True s'" "above x ?s s'"
    by blast
  have "st s' x = NODE_USED" using s'(3) place_pos [OF pl] by (auto simp: above_def)
  then have "rep (fill c Used) 1 17 s'" using s'(2) by (intro rep_fill) auto
  moreover have sm: "same_heap s s'" using same_heap_trans [OF same_heap_put] s'(3) by (auto simp: above_def)
  moreover have "level s' = 17" using sm assms(3) by (simp add: same_heap_def)
  then have "index_offset (int x - 1) (17 - int h) (level s') s' = page_addr x h 0 s"
    using index_offset_node [OF pl] page_addr_same [OF sm] by simp
  ultimately show ?thesis using assms(1) pl place_pos [OF pl] s'(1) by (subst allocLoop.simps) auto
qed

lemma alloc_descend:
  assumes "place x (Suc h)" "k \<le> h" "st s x = NODE_SPLIT"
  shows "allocLoop (2 ^ k) (int x - 1) (17 - int (Suc h)) (2 ^ Suc h) s =
    allocLoop (2 ^ k) (int (2 * x) - 1) (17 - int h) (2 ^ h) s"
proof -
  have ne: "(2::int) ^ k \<noteq> 2 ^ Suc h" using assms(2) power_inject_exp [of "2::int" k "Suc h"] by auto
  show ?thesis unfolding allocLoop.simps [of _ "int x - 1"] index_children
    using assms place_pos [OF assms(1)] ne by (simp add: signed_divide_int_def sgn_if)
qed

lemma alloc_split:
  assumes "place x (Suc h)" "k \<le> h" "st s x = NODE_UNUSED"
  shows "allocLoop (2 ^ k) (int x - 1) (17 - int (Suc h)) (2 ^ Suc h) s =
    allocLoop (2 ^ k) (int (2 * x) - 1) (17 - int h) (2 ^ h)
      (put (2 * x + 1) NODE_UNUSED (put (2 * x) NODE_UNUSED (put x NODE_SPLIT s)))"
proof -
  have ne: "(2::int) ^ k \<noteq> 2 ^ Suc h" using assms(2) power_inject_exp [of "2::int" k "Suc h"] by auto
  have w: "wrT (int (2 * x) - 1) v u = Some (put (2 * x) v u)" "wrT (int (2 * x + 1) - 1) v u = Some (put (2 * x + 1) v u)" for v u
    using place_children [OF assms(1)] by (blast intro: wr_node)+
  show ?thesis unfolding allocLoop.simps [of _ "int x - 1"] index_children w
    using assms place_pos [OF assms(1)] ne by (simp add: signed_divide_int_def sgn_if)
qed

lemma alloc_some:
  assumes "rep t x h s" "around c x h (full t) s" "k \<le> h" "claim k h t = Some (t', i)" "level s = 17"
  shows "\<exists>s'. allocLoop (2 ^ k) (int x - 1) (17 - int h) (2 ^ h) s = Some (page_addr x h i s, s') \<and>
    rep (fill c t') 1 17 s' \<and> same_heap s s'"
  using assms
proof (induction k h t arbitrary: x s c t' i rule: claim.induct)
  case (1 k)
  then show ?case using alloc_here [of s x c 0] by simp
next
  case (2 k h)
  have pl: "place x (Suc h)" using around_place [OF 2(3)] .
  have x: "0 < x" using place_pos [OF pl] .
  show ?case
  proof (cases "k = Suc h")
    case True
    with 2 alloc_here [of s x c "Suc h"] show ?thesis by simp
  next
    case False
    then obtain l where l: "t' = Split l Unused" "claim k h Unused = Some (l, i)" and k: "k \<le> h" using 2 by auto
    let ?s = "put (2 * x + 1) NODE_UNUSED (put (2 * x) NODE_UNUSED (put x NODE_SPLIT s))"
    have b: "below x (2 * x)" "below x (2 * x + 1)" using below_children(1) [OF below_self] below_children(2) [OF below_self] .
    have sm: "same_heap s ?s" by (simp add: same_heap_def put_def)
    have a: "around (InL Unused # c) (2 * x) h (full Unused) ?s" using 2(3) x b by (simp add: around_put)
    obtain s' where s': "allocLoop (2 ^ k) (int (2 * x) - 1) (17 - int h) (2 ^ h) ?s = Some (page_addr (2 * x) h i ?s, s')"
      "rep (fill (InL Unused # c) l) 1 17 s'" "same_heap ?s s'"
      using 2(1) [OF False _ a k l(2)] x 2(6) by (auto simp: put_def st_def)
    have "page_addr (2 * x) h i ?s = page_addr x (Suc h) i s" using page_addr_same [OF sm] by (simp add: page_addr_children)
    with s' l(1) alloc_split [OF pl k, of s] 2(2) same_heap_trans [OF sm] show ?thesis by auto
  qed
next
  case (5 k h l r)
  have pl: "place x (Suc h)" using around_place [OF 5(4)] .
  have x: "0 < x" using place_pos [OF pl] .
  have ks: "k \<noteq> Suc h" using 5(6) by (auto split: if_splits)
  then have k: "k \<le> h" using 5(5) by simp
  have nf: "\<not> (full l \<and> full r)" using claim_full [of "Split l r" k "Suc h"] 5(6) by auto
  then have st: "st s x = NODE_SPLIT" "rep l (2 * x) h s" "rep r (2 * x + 1) h s" using 5(3) by auto
  note desc = alloc_descend [OF pl k st(1)]
  have ar: "around c x (Suc h) False s" using 5(4) nf by simp
  show ?case
  proof (cases "claim k h l")
    case None
    obtain r' j where r: "claim k h r = Some (r', j)" "t' = Split l r'" "i = j + 2 ^ h"
      using 5(6) None ks by auto
    have a: "around (InR l # c) (2 * x + 1) h (full r) s" using ar st x nf by (auto simp: conj_commute)
    obtain s' where s': "allocLoop (2 ^ k) (int (2 * x + 1) - 1) (17 - int h) (2 ^ h) s = Some (page_addr (2 * x + 1) h j s, s')"
      "rep (fill (InR l # c) r') 1 17 s'" "same_heap s s'"
      using 5(2) [OF ks None st(3) a k r(1) 5(7)] by blast
    have "allocLoop (2 ^ k) (int (2 * x) - 1) (17 - int h) (2 ^ h) s = allocLoop (2 ^ k) (int (2 * x + 1) - 1) (17 - int h) (2 ^ h) s"
      using alloc_none [OF st(2) place_children(1) [OF pl] k None] next_left [OF x] by simp
    with s' r desc show ?thesis by (auto simp: page_addr_children(2) [simplified])
  next
    case (Some z)
    obtain l' where l: "claim k h l = Some (l', i)" "t' = Split l' r" using 5(6) Some ks by (cases z) auto
    have a: "around (InL r # c) (2 * x) h (full l) s" using ar st x nf by auto
    obtain s' where s': "allocLoop (2 ^ k) (int (2 * x) - 1) (17 - int h) (2 ^ h) s = Some (page_addr (2 * x) h i s, s')"
      "rep (fill (InL r # c) l') 1 17 s'" "same_heap s s'"
      using 5(1) [OF ks st(2) a k l(1) 5(7)] by blast
    with l desc show ?thesis by (auto simp: page_addr_children(1))
  qed
qed simp_all

section \<open>The descent\<close>

lemma free_descend:
  assumes "rep (Split l r) x (Suc h) s" "place x (Suc h)"
  shows "freeLoop i a (2 ^ Suc h) (int x - 1) s =
    (if i < a + 2 ^ h then freeLoop i a (2 ^ h) (int (2 * x) - 1) s
     else freeLoop i (a + 2 ^ h) (2 ^ h) (int (2 * x + 1) - 1) s)"
  unfolding freeLoop.simps [of _ _ _ "int x - 1"] index_children
  using assms by (auto simp: signed_divide_int_def sgn_if Let_def)

lemma free_some:
  assumes "rep t x h s" "around c x h (full t) s" "give i h t = Some t'"
  shows "\<exists>s'. freeLoop (a + int i) a (2 ^ h) (int x - 1) s = Some (0, s') \<and> rep (fill_join c t') 1 17 s' \<and> same_heap s s'"
  using assms
proof (induction i h t arbitrary: x c t' a rule: give.induct)
  case (2 i h)
  then have e: "t' = Unused" "i = 0" "st s x = NODE_USED" by (auto split: if_splits)
  obtain s' where "combine (int x - 1) s = Some s'" "rep (fill_join c Unused) 1 17 s'" "same_heap s s'"
    using combine_rep [OF 2(2)] by blast
  then show ?case using e around_place [OF 2(2)] by (subst freeLoop.simps) simp
next
  case (4 i h l r)
  have pl: "place x (Suc h)" using around_place [OF 4(4)] .
  have x: "0 < x" using place_pos [OF pl] .
  have st: "rep l (2 * x) h s" "rep r (2 * x + 1) h s" using 4(3) by auto
  show ?case
  proof (cases "i < 2 ^ h")
    case True
    then obtain l' where l: "give i h l = Some l'" "t' = join l' r" using 4(5) by auto
    have a: "around (InL r # c) (2 * x) h (full l) s" using 4(3,4) x by auto
    have "a + int i < a + 2 ^ h" using True by simp
    with 4(1) [OF True st(1) a l(1), of a] show ?thesis unfolding free_descend [OF 4(3) pl] by (auto simp: l(2))
  next
    case False
    then obtain r' where r: "give (i - 2 ^ h) h r = Some r'" "t' = join l r'" using 4(5) by auto
    have a: "around (InR l # c) (2 * x + 1) h (full r) s" using 4(3,4) x by (auto simp: conj_commute)
    have "\<not> a + int i < a + 2 ^ h" "a + 2 ^ h + int (i - 2 ^ h) = a + int i" using False by (auto simp: of_nat_diff)
    with 4(2) [OF False st(2) a r(1), of "a + 2 ^ h"] show ?thesis unfolding free_descend [OF 4(3) pl] by (auto simp: r(2))
  qed
qed simp_all

text \<open>Pages that are not the first of a used block, and pages before the heap, are refused.\<close>

lemma free_none:
  assumes "rep t x h s" "place x h" "give i h t = None" "i < 2 ^ h"
  shows "freeLoop (a + int i) a (2 ^ h) (int x - 1) s = Some (- 1, s)"
  using assms
proof (induction i h t arbitrary: x a rule: give.induct)
  case (4 i h l r)
  have st: "rep l (2 * x) h s" "rep r (2 * x + 1) h s" using 4(3) by auto
  show ?case
  proof (cases "i < 2 ^ h")
    case True
    then have "give i h l = None" "a + int i < a + 2 ^ h" using 4(5) by auto
    with 4(1) [OF True st(1) place_children(1) [OF 4(4)] _ True] show ?thesis unfolding free_descend [OF 4(3,4)] by simp
  next
    case False
    have "\<not> a + int i < a + 2 ^ h" "a + 2 ^ h + int (i - 2 ^ h) = a + int i" using False by (auto simp: of_nat_diff)
    moreover have "give (i - 2 ^ h) h r = None" "i - 2 ^ h < 2 ^ h" using 4(5,6) False by auto
    ultimately show ?thesis using 4(2) [OF False st(2) place_children(2) [OF 4(4)], of "a + 2 ^ h"]
      unfolding free_descend [OF 4(3,4)] by simp
  qed
qed (subst freeLoop.simps; auto split: if_splits)+

lemma free_before:
  assumes "rep t x h s" "place x h" "o' < a"
  shows "freeLoop o' a (2 ^ h) (int x - 1) s = Some (- 1, s)"
  using assms
proof (induction t x h s rule: rep.induct)
  case (4 l r x h s)
  then have "rep l (2 * x) h s" "o' < a + 2 ^ h" by (auto intro: less_trans)
  with 4(1) [OF this(1) place_children(1) [OF 4(4)] 4(5)] show ?case unfolding free_descend [OF 4(3,4)] by simp
qed (subst freeLoop.simps; auto)+

end
