(* ===== verification/Buddy_Pow2.thy ===== *)
theory Buddy_Pow2
  imports Buddy
begin

text \<open>
  The rounding of a number of pages to a power of two: \<open>next_pow_of_2\<close> of \<open>memManagerBuddy.c\<close>.
\<close>

unbundle bit_operations_syntax

lemma bit_unat: "bit (x :: u32) n \<longleftrightarrow> odd (unat x div 2 ^ n)"
  by (simp flip: bit_iff_odd add: bit_simps)

lemma top_bit:
  assumes "(x :: u32) \<noteq> 0"
  obtains b where "b < 32" "2 ^ b \<le> unat x" "unat x < 2 ^ Suc b" "bit x b" "\<And>n. b < n \<Longrightarrow> \<not> bit x n"
proof -
  have "1 \<le> unat x" using assms by (simp add: Suc_le_eq unat_gt_0)
  from ex_power_ivl1 [OF _ this, of 2] obtain b where b: "2 ^ b \<le> unat x" "unat x < 2 ^ Suc b" by auto
  have "(2::nat) ^ b < 2 ^ 32" using b(1) unsigned_less [of x, where ?'a = nat] by simp
  then have l: "b < 32" using power_strict_increasing_iff [of "2::nat" b 32] by simp
  have "unat x div 2 ^ b = 1" using b by (intro div_nat_eqI) auto
  then have "bit x b" by (simp add: bit_unat)
  moreover have "\<not> bit x n" if "b < n" for n
  proof -
    have "unat x < 2 ^ n" using b(2) power_increasing [of "Suc b" n "2::nat"] that by simp
    then show ?thesis by (simp add: bit_unat)
  qed
  ultimately show thesis using that b l by blast
qed

lemma is_pow_of_2_iff:
  assumes "x \<noteq> 0" "2 ^ b \<le> unat x" "unat x < 2 ^ Suc b" "b < 32"
  shows "is_pow_of_2 x \<longleftrightarrow> unat x = 2 ^ b"
proof
  assume e: "unat x = 2 ^ b"
  have "x = 2 ^ b" using arg_cong [OF e, of "of_nat :: nat \<Rightarrow> u32"] by simp
  then have m: "x - 1 = mask b" by (simp add: mask_eq_exp_minus_1)
  have "(2 ^ b :: u32) AND mask b = 0" by (rule bit_eqI) (auto simp: bit_simps)
  then show "is_pow_of_2 x" unfolding is_pow_of_2_def m by (simp only: \<open>x = 2 ^ b\<close>)
next
  assume p: "is_pow_of_2 x"
  show "unat x = 2 ^ b"
  proof (rule ccontr)
    assume "unat x \<noteq> 2 ^ b"
    then have "2 ^ b \<le> unat (x - 1)" "unat (x - 1) < 2 ^ Suc b"
      using assms unat_minus_one [OF assms(1)] by simp_all
    then have "unat (x - 1) div 2 ^ b = 1" "unat x div 2 ^ b = 1" using assms by (auto intro!: div_nat_eqI)
    then have "bit (x - 1) b" "bit x b" by (simp_all add: bit_unat)
    then have "bit (x AND (x - 1)) b" by (simp add: bit_simps)
    with p show False by (simp add: is_pow_of_2_def)
  qed
qed

lemma smear:
  assumes "\<And>n. bit (y :: u32) n \<longleftrightarrow> (\<exists>i < w. bit x (n + i))"
  shows "bit (y OR drop_bit w y) n \<longleftrightarrow> (\<exists>i < 2 * w. bit x (n + i))"
proof -
  have "bit (y OR drop_bit w y) n \<longleftrightarrow> (\<exists>i < w. bit x (n + i)) \<or> (\<exists>i < w. bit x (n + (w + i)))"
    by (simp add: bit_simps assms ac_simps)
  also have "\<dots> \<longleftrightarrow> (\<exists>i < 2 * w. bit x (n + i))"
  proof
    assume "\<exists>i < 2 * w. bit x (n + i)"
    then obtain i where "i < 2 * w" "bit x (n + i)" by blast
    moreover have "i - w < w" "n + (w + (i - w)) = n + i" if "\<not> i < w" using that \<open>i < 2 * w\<close> by simp_all
    ultimately show "(\<exists>i < w. bit x (n + i)) \<or> (\<exists>i < w. bit x (n + (w + i)))" by metis
  next
    assume "(\<exists>i < w. bit x (n + i)) \<or> (\<exists>i < w. bit x (n + (w + i)))"
    then obtain i where "bit x (n + i)" "i < 2 * w" by (metis add.assoc add_strict_left_mono mult_2 trans_less_add1)
    then show "\<exists>i < 2 * w. bit x (n + i)" by blast
  qed
  finally show ?thesis .
qed

lemma next_pow_of_2_smeared:
  assumes "\<not> is_pow_of_2 x" "b < 32" "bit x b" "\<And>n. b < n \<Longrightarrow> \<not> bit x n"
  shows "next_pow_of_2 x = 2 ^ Suc b"
proof -
  define y where "y = next_pow_of_2 x - 1"
  have "bit y n \<longleftrightarrow> (\<exists>i < 32. bit x (n + i))" for n
  proof -
    have 0: "bit x n \<longleftrightarrow> (\<exists>i < 1. bit x (n + i))" for n by simp
    show ?thesis using smear [OF smear [OF smear [OF smear [OF smear [OF 0]]]]] assms(1)
      by (simp add: y_def next_pow_of_2_def Let_def)
  qed
  moreover have "(\<exists>i < 32. bit x (n + i)) \<longleftrightarrow> n < Suc b" for n
  proof
    assume "\<exists>i < 32. bit x (n + i)"
    then obtain i where "bit x (n + i)" by blast
    then show "n < Suc b" using assms(4) [of "n + i"] by linarith
  next
    assume "n < Suc b"
    then show "\<exists>i < 32. bit x (n + i)" using assms(2,3) by (intro exI [of _ "b - n"]) simp
  qed
  ultimately have "bit y n \<longleftrightarrow> n < Suc b" for n by simp
  then have "y = mask (Suc b)" by (intro bit_word_eqI) (simp add: bit_simps)
  then show ?thesis by (simp add: y_def mask_eq_exp_minus_1)
qed

lemma next_pow_of_2_pow:
  assumes "x \<noteq> 0" "unat x \<le> 2 ^ 31"
  obtains k where "unat (next_pow_of_2 x) = 2 ^ k" "unat x \<le> 2 ^ k" "\<And>j. unat x \<le> 2 ^ j \<Longrightarrow> k \<le> j"
proof -
  obtain b where b: "b < 32" "2 ^ b \<le> unat x" "unat x < 2 ^ Suc b" "bit x b" "\<And>n. b < n \<Longrightarrow> \<not> bit x n"
    using top_bit [OF assms(1)] by blast
  show thesis
  proof (cases "is_pow_of_2 x")
    case True
    then have "unat x = 2 ^ b" using is_pow_of_2_iff [OF assms(1) b(2,3,1)] by simp
    moreover have "next_pow_of_2 x = x" using True by (simp add: next_pow_of_2_def)
    ultimately show ?thesis by (intro that [of b]) simp_all
  next
    case False
    then have ne: "unat x \<noteq> 2 ^ b" using is_pow_of_2_iff [OF assms(1) b(2,3,1)] by simp
    have "b < 31"
    proof (rule ccontr)
      assume "\<not> b < 31"
      then have "b = 31" using b(1) by simp
      with ne b(2) assms(2) show False by simp
    qed
    then have u: "unat (next_pow_of_2 x) = 2 ^ Suc b"
      using next_pow_of_2_smeared [OF False b(1,4,5)] power_strict_increasing [of "Suc b" 32 "2::nat"]
        unat_of_nat [of "2 ^ Suc b", where ?'a = 32] by simp
    have "Suc b \<le> j" if "unat x \<le> 2 ^ j" for j
    proof -
      have "(2::nat) ^ b < 2 ^ j" using that ne b(2) by linarith
      then show ?thesis using power_strict_increasing_iff [of "2::nat" b j] by simp
    qed
    with u b(3) show ?thesis by (intro that [of "Suc b"]) simp_all
  qed
qed

text \<open>up to \<open>2 ^ 31\<close>, \<open>next_pow_of_2\<close> gives the least power of two that is not less than its argument;
  above, where 32 bits cannot hold that power, it gives 0.\<close>

theorem next_pow_of_2_least:
  assumes "x \<noteq> 0"
  shows "if unat x \<le> 2 ^ 31
    then \<exists>k. unat (next_pow_of_2 x) = 2 ^ k \<and> unat x \<le> 2 ^ k \<and> (\<forall>j. unat x \<le> 2 ^ j \<longrightarrow> k \<le> j)
    else next_pow_of_2 x = 0"
proof (cases "unat x \<le> 2 ^ 31")
  case True
  then show ?thesis using next_pow_of_2_pow [OF assms True] by (metis (full_types))
next
  case False
  obtain b where b: "b < 32" "2 ^ b \<le> unat x" "unat x < 2 ^ Suc b" "bit x b" "\<And>n. b < n \<Longrightarrow> \<not> bit x n"
    using top_bit [OF assms] by blast
  have "(2::nat) ^ 31 < 2 ^ Suc b" using False b(3) by linarith
  then have e: "b = 31" using power_strict_increasing_iff [of "2::nat" 31 "Suc b"] b(1) by simp
  have "\<not> is_pow_of_2 x" using is_pow_of_2_iff [OF assms b(2,3,1)] False e by simp
  from next_pow_of_2_smeared [OF this b(1,4,5)] False show ?thesis by (simp add: e)
qed

theorem next_pow_of_2_least_witness:
  "(\<exists>k. unat (next_pow_of_2 5) = 2 ^ k \<and> 5 \<le> (2::nat) ^ k) \<and> next_pow_of_2 0x80000001 = 0"
  using next_pow_of_2_least [where x = 5] next_pow_of_2_least [where x = "0x80000001"] by auto

end
