(* ===== verification/Buddy_Props.thy ===== *)
theory Buddy_Props
  imports Buddy_Loops Buddy_Pow2
begin

text \<open>
  The buddy memory manager as an allocator: what \<open>pvPortMalloc\<close> and \<open>vPortFree\<close> of
  \<open>memManagerBuddy.c\<close> promise about the used blocks, and the interpretation of the interface of the
  memory managers.
\<close>

section \<open>State\<close>

fun tree_of :: "nat \<Rightarrow> nat \<Rightarrow> buddy_state \<Rightarrow> bt" where
  "tree_of 0 x s = (if st s x = NODE_UNUSED then Unused else Used)"
| "tree_of (Suc h) x s =
     (if st s x = NODE_UNUSED then Unused else if st s x = NODE_USED then Used
      else Split (tree_of h (2 * x) s) (tree_of h (2 * x + 1) s))"

lemma tree_of_rep: "rep t x h s \<Longrightarrow> tree_of h x s = t"
proof (induction t x h s rule: rep.induct)
  case (1 x h s) then show ?case by (cases h) auto
next
  case (2 x h s) then show ?case by (cases h) auto
qed auto

abbreviation heap_tree :: "buddy_state \<Rightarrow> bt" where
  "heap_tree s \<equiv> tree_of 17 1 s"

definition heap_ok :: "buddy_state \<Rightarrow> bool" where
  "heap_ok s \<longleftrightarrow> level s = 17 \<and> 4096 \<le> heapAddress s \<and> heapAddress s + 2 ^ 29 < 2 ^ 31 \<and>
     rep (heap_tree s) 1 17 s \<and> shape 17 (heap_tree s)"

text \<open>The used blocks: their addresses and their sizes in bytes.\<close>

definition used :: "buddy_state \<Rightarrow> addr \<rightharpoonup> nat" where
  "used s p =
     (let d = int p - heapAddress s in
      if 0 \<le> d \<and> 4096 dvd d then map_option (\<lambda>n. n * 4096) (blocks 0 17 (heap_tree s) (nat d div 4096)) else None)"

lemma heap_okI:
  assumes "heap_ok s" "same_heap s s'" "rep t 1 17 s'" "shape 17 t"
  shows "heap_ok s'" "heap_tree s' = t"
  using assms tree_of_rep [OF assms(3)] by (auto simp: heap_ok_def same_heap_def)

lemma init_ok:
  assumes "4096 \<le> a" "a + 2 ^ 29 < 2 ^ 31"
  shows "heap_ok (initMemoryManager_b a s)" "used (initMemoryManager_b a s) = Map.empty"
proof -
  have "st (initMemoryManager_b a s) 1 = NODE_UNUSED" by (simp add: st_def initMemoryManager_b_def)
  then have t: "rep Unused 1 17 (initMemoryManager_b a s)" by simp
  show "heap_ok (initMemoryManager_b a s)"
    using tree_of_rep [OF t] t assms by (simp add: heap_ok_def initMemoryManager_b_def)
  show "used (initMemoryManager_b a s) = Map.empty" 
    by (rule ext) (simp add: used_def tree_of_rep [OF t] Let_def del: One_nat_def)
qed

lemma used_block:
  assumes "heap_ok s" "used s p = Some m"
  obtains i n where "blocks 0 17 (heap_tree s) i = Some n" "m = n * 4096" "int p = heapAddress s + 4096 * int i"
    "i + n \<le> 2 ^ 17" "0 < n"
proof -
  let ?d = "int p - heapAddress s"
  have d: "0 \<le> ?d" "4096 dvd ?d" using assms(2) by (auto simp: used_def Let_def split: if_splits)
  then obtain n where n: "blocks 0 17 (heap_tree s) (nat ?d div 4096) = Some n" "m = n * 4096"
    using assms(2) by (auto simp: used_def Let_def)
  have "int p = heapAddress s + 4096 * int (nat ?d div 4096)" using d by (simp add: zdiv_int)
  with n blocks_range [OF n(1)] show thesis by (intro that) auto
qed

lemma used_at: "used s (nat (heapAddress s + 4096 * int i)) = map_option (\<lambda>n. n * 4096) (blocks 0 17 (heap_tree s) i)"
  if "0 < heapAddress s"
  using that by (simp add: used_def Let_def nat_mult_distrib)

lemma used_upd:
  assumes "0 < heapAddress s" "same_heap s s'" "blocks 0 17 (heap_tree s') = (blocks 0 17 (heap_tree s))(i := v)"
  shows "used s' = (used s)(nat (heapAddress s + 4096 * int i) := map_option (\<lambda>n. n * 4096) v)"
proof
  fix p
  show "used s' p = ((used s)(nat (heapAddress s + 4096 * int i) := map_option (\<lambda>n. n * 4096) v)) p"
  proof (cases "p = nat (heapAddress s + 4096 * int i)")
    case True
    then show ?thesis using used_at [of s' i] assms by (simp add: same_heap_def)
  next
    case False
    have "nat (int p - heapAddress s) div 4096 \<noteq> i" if "0 \<le> int p - heapAddress s" "4096 dvd int p - heapAddress s"
    proof
      assume "nat (int p - heapAddress s) div 4096 = i"
      then have "int p - heapAddress s = 4096 * int i" using that by (auto simp: zdiv_int)
      with False show False by auto
    qed
    with False assms show ?thesis by (auto simp: used_def Let_def same_heap_def)
  qed
qed

section \<open>Allocation\<close>

lemma sint_small: "uint (w :: u32) < 2 ^ 31 \<Longrightarrow> sint w = uint w"
  using signed_take_bit_int_eq_self [of 31 "uint w"] order_trans [of "- (2 ^ 31)" 0 "uint w"] by (simp add: sint_uint)

text \<open>The number of pages that a request takes: the least power of two that is enough.\<close>

definition order :: "nat \<Rightarrow> nat \<Rightarrow> bool" where
  "order n k \<longleftrightarrow> n \<le> 2 ^ k * 4096 \<and> (\<forall>j. n \<le> 2 ^ j * 4096 \<longrightarrow> k \<le> j)"

lemma order_unique: "order n j \<Longrightarrow> order n k \<Longrightarrow> j = k"
  by (simp add: order_def le_antisym)

lemma buddy_alloc_order:
  assumes "n < 2 ^ 31"
  obtains k where "order n k"
    "buddy_alloc (s32 (int n)) s = (if (2::int) ^ k > 2 ^ nat (level s) then Some (0, s) else allocLoop (2 ^ k) 0 0 (2 ^ nat (level s)) s)"
proof -
  define m where "m = (if n mod 4096 \<noteq> 0 then n div 4096 + 1 else n div 4096)"
  obtain a b where ab: "n div 4096 = a" "n mod 4096 = b" by blast
  then have "n = a * 4096 + b" "b < 4096" using div_mult_mod_eq [of n 4096] by auto
  then have m: "n \<le> m * 4096" "m * 4096 < n + 4096" unfolding m_def ab by auto
  have i: "(if int n smod PAGE_SIZE \<noteq> 0 then int n sdiv PAGE_SIZE + 1 else int n sdiv PAGE_SIZE) = int m"
  proof -
    have "int n smod PAGE_SIZE = int (n mod 4096)" "int n sdiv PAGE_SIZE = int (n div 4096)"
      by (simp_all add: signed_divide_int_def signed_modulo_int_def sgn_if zdiv_int zmod_int)
    then show ?thesis unfolding m_def by simp
  qed
  have w: "unat (word_of_int (int m) :: u32) = m" using m assms by (simp add: unat_of_nat)
  define k where "k = (if m = 0 then 0 else (THE k. unat (next_pow_of_2 (word_of_int (int m))) = 2 ^ k))"
  have "\<exists>k. order n k \<and> (if m = 0 then 1 else sint (next_pow_of_2 (word_of_int (int m)))) = 2 ^ k"
  proof (cases "m = 0")
    case True
    then show ?thesis using m by (intro exI [of _ 0]) (simp add: order_def)
  next
    case False
    let ?w = "word_of_int (int m) :: u32"
    have "?w \<noteq> 0" "unat ?w \<le> 2 ^ 31" using w False m assms by (auto simp: unat_eq_0 [symmetric])
    from next_pow_of_2_pow [OF this] obtain k where k: "unat (next_pow_of_2 ?w) = 2 ^ k" "m \<le> 2 ^ k"
      "\<And>j. m \<le> 2 ^ j \<Longrightarrow> k \<le> j" unfolding w by blast
    have "m \<le> 2 ^ 20" using m assms by simp
    then have "k \<le> 20" by (rule k(3))
    then have "(2::int) ^ k < 2 ^ 31" by (intro power_strict_increasing) auto
    moreover have "uint (next_pow_of_2 ?w) = 2 ^ k" unfolding uint_nat k(1) by simp
    ultimately have "sint (next_pow_of_2 ?w) = 2 ^ k" by (simp add: sint_small)
    moreover have "m \<le> 2 ^ j" if "n \<le> 2 ^ j * 4096" for j
      using that m(2) by linarith
    moreover have "n \<le> 2 ^ k * 4096" using k(2) m(1) by linarith
    ultimately show ?thesis using k(3) False by (auto simp: order_def)
  qed
  then obtain k where k: "order n k" "(if m = 0 then 1 else sint (next_pow_of_2 (word_of_int (int m)))) = 2 ^ k" by blast
  show thesis
  proof (rule that [OF k(1)])
    have "s32 (int n) = int n" using assms by simp
    then show "buddy_alloc (s32 (int n)) s = (if (2::int) ^ k > 2 ^ nat (level s) then Some (0, s) else allocLoop (2 ^ k) 0 0 (2 ^ nat (level s)) s)"
      using k(2) i by (simp add: buddy_alloc_def)
  qed
qed

text \<open>What a request does, by the tree.\<close>

lemma malloc_tree:
  assumes ok: "heap_ok s" and n: "n < 2 ^ 31"
  obtains k where "order n k"
    "(if k \<le> 17 then claim k 17 (heap_tree s) else None) = None \<Longrightarrow> pvPortMalloc_b n s = Some (NULL, s)"
    "\<And>t i. k \<le> 17 \<Longrightarrow> claim k 17 (heap_tree s) = Some (t, i) \<Longrightarrow> \<exists>s'.
       pvPortMalloc_b n s = Some (nat (heapAddress s + 4096 * int i), s') \<and> heap_ok s' \<and> same_heap s s' \<and> heap_tree s' = t"
proof -
  from ok have o: "level s = 17" "0 < heapAddress s" "heapAddress s + 2 ^ 29 < 2 ^ 31"
    "rep (heap_tree s) 1 17 s" "shape 17 (heap_tree s)" by (simp_all add: heap_ok_def)
  obtain k where k: "order n k" "buddy_alloc (s32 (int n)) s =
      (if (2::int) ^ k > 2 ^ 17 then Some (0, s) else allocLoop (2 ^ k) 0 0 (2 ^ 17) s)"
    by (rule buddy_alloc_order [OF n, of s]) (simp add: o(1))
  have le: "\<not> (2::int) ^ k > 2 ^ 17 \<longleftrightarrow> k \<le> 17"
    using power_increasing_iff [of "2::int" k 17] by (simp add: not_less)
  show thesis
  proof (rule that [OF k(1)])
    assume "(if k \<le> 17 then claim k 17 (heap_tree s) else None) = None"
    then have "buddy_alloc (s32 (int n)) s = Some (0, s)"
      using k(2) le alloc_none [OF o(4) place_root, of k 0] next_root [of 0 "2 ^ 17"] by (auto split: if_splits)
    then show "pvPortMalloc_b n s = Some (NULL, s)" by (simp add: pvPortMalloc_b_def)
  next
    fix t i
    assume c: "k \<le> 17" "claim k 17 (heap_tree s) = Some (t, i)"
    have "around [] 1 17 (full (heap_tree s)) s" by simp
    from alloc_some [OF o(4) this c o(1)] obtain s' where
      s': "allocLoop (2 ^ k) 0 0 (2 ^ 17) s = Some (page_addr 1 17 i s, s')" "rep t 1 17 s'" "same_heap s s'" by auto
    have i: "i + 2 ^ k \<le> 2 ^ 17" using claim_blocks [OF c(2)] by blast
    then have "i < 2 ^ 17" by (rule add_pow_less)
    then have "page_addr 1 17 i s = heapAddress s + 4096 * int i" using o(2,3) by (simp add: page_addr_def)
    moreover have "nat ((heapAddress s + 4096 * int i) mod 2 ^ 64) = nat (heapAddress s + 4096 * int i)"
      using o(2,3) \<open>i < 2 ^ 17\<close> by simp
    ultimately have "pvPortMalloc_b n s = Some (nat (heapAddress s + 4096 * int i), s')"
      using k(2) le c(1) s'(1) by (simp add: pvPortMalloc_b_def del: One_nat_def)
    moreover have "shape 17 t" using claim_shape [OF c(2) o(5)] .
    ultimately show "\<exists>s'. pvPortMalloc_b n s = Some (nat (heapAddress s + 4096 * int i), s') \<and> heap_ok s' \<and> same_heap s s' \<and> heap_tree s' = t"
      using heap_okI [OF ok s'(3,2)] s'(3) by blast
  qed
qed

lemma malloc_cases:
  assumes ok: "heap_ok s" and n: "n < 2 ^ 31"
  obtains k where "order n k" "17 < k \<or> claim k 17 (heap_tree s) = None" "pvPortMalloc_b n s = Some (NULL, s)"
  | k i s' where "order n k" "pvPortMalloc_b n s = Some (nat (heapAddress s + 4096 * int i), s')" "heap_ok s'"
      "i + 2 ^ k \<le> 2 ^ 17" "2 ^ k dvd i" "used s (nat (heapAddress s + 4096 * int i)) = None"
      "used s' = (used s)(nat (heapAddress s + 4096 * int i) \<mapsto> 2 ^ k * 4096)"
proof (rule malloc_tree [OF ok n])
  fix k
  assume k: "order n k"
    and no: "(if k \<le> 17 then claim k 17 (heap_tree s) else None) = None \<Longrightarrow> pvPortMalloc_b n s = Some (NULL, s)"
    and yes: "\<And>t i. k \<le> 17 \<Longrightarrow> claim k 17 (heap_tree s) = Some (t, i) \<Longrightarrow> \<exists>s'.
       pvPortMalloc_b n s = Some (nat (heapAddress s + 4096 * int i), s') \<and> heap_ok s' \<and> same_heap s s' \<and> heap_tree s' = t"
  have h: "0 < heapAddress s" using ok by (simp add: heap_ok_def)
  show thesis
  proof (cases "if k \<le> 17 then claim k 17 (heap_tree s) else None")
    case None
    with that(1) [OF k _ no] show ?thesis by (auto split: if_splits)
  next
    case (Some z)
    then obtain t i where c: "k \<le> 17" "claim k 17 (heap_tree s) = Some (t, i)" by (cases z) (auto split: if_splits)
    obtain s' where s': "pvPortMalloc_b n s = Some (nat (heapAddress s + 4096 * int i), s')" "heap_ok s'" "same_heap s s'" "heap_tree s' = t"
      using yes [OF c] by blast
    have b: "i + 2 ^ k \<le> 2 ^ 17" "2 ^ k dvd i" "blocks 0 17 (heap_tree s) i = None"
      "blocks 0 17 t = (blocks 0 17 (heap_tree s))(i \<mapsto> 2 ^ k)" using claim_blocks [OF c(2), of 0] by simp_all
    have "used s (nat (heapAddress s + 4096 * int i)) = None" using used_at [OF h] b by simp
    moreover have "used s' = (used s)(nat (heapAddress s + 4096 * int i) \<mapsto> 2 ^ k * 4096)"
      using used_upd [OF h s'(3), of i "Some (2 ^ k)"] b s'(4) by simp
    ultimately show ?thesis using that(2) [OF k s'(1,2)] b by blast
  qed
qed

section \<open>Release\<close>

lemma free_used:
  assumes ok: "heap_ok s" and p: "used s p = Some m"
  shows "\<exists>s'. vPortFree_b p s = Some s' \<and> heap_ok s' \<and> used s' = (used s)(p := None)"
proof -
  from ok have o: "level s = 17" "0 < heapAddress s" "heapAddress s + 2 ^ 29 < 2 ^ 31"
    "rep (heap_tree s) 1 17 s" "shape 17 (heap_tree s)" by (simp_all add: heap_ok_def)
  obtain i n where b: "blocks 0 17 (heap_tree s) i = Some n" "int p = heapAddress s + 4096 * int i" "i + n \<le> 2 ^ 17" "0 < n"
    by (rule used_block [OF ok p]) blast
  obtain t where t: "give i 17 (heap_tree s) = Some t" "shape 17 t" "blocks 0 17 t = (blocks 0 17 (heap_tree s))(i := None)"
    using give_blocks [OF b(1) o(5)] by auto
  have "around [] 1 17 (full (heap_tree s)) s" by simp
  from free_some [OF o(4) this t(1), of 0] obtain s' where
    s': "freeLoop (int i) 0 (2 ^ 17) 0 s = Some (0, s')" "rep t 1 17 s'" "same_heap s s'" by auto
  have off: "s32 (s32 (int p) - heapAddress s) sdiv PAGE_SIZE = int i"
    using b o by (simp add: signed_divide_int_def sgn_if)
  have "vPortFree_b p s = Some s'" using b(3,4) s'(1) o(1)
    by (simp add: vPortFree_b_def buddy_free_def off)
  moreover have "used s' = (used s)(nat (heapAddress s + 4096 * int i) := None)"
    using used_upd [OF o(2) s'(3), of i None] t(3) heap_okI(2) [OF ok s'(3,2) t(2)] by simp
  moreover have "nat (heapAddress s + 4096 * int i) = p" by (simp flip: b(2))
  ultimately show ?thesis using heap_okI(1) [OF ok s'(3,2) t(2)] by auto
qed

text \<open>Other pointers are refused.\<close>

lemma free_refused:
  assumes ok: "heap_ok s"
    and p: "int p \<le> heapAddress s - 4096 \<or>
      used s p = None \<and> heapAddress s \<le> int p \<and> int p < heapAddress s + 2 ^ 29 \<and> 4096 dvd int p - heapAddress s"
  shows "buddy_free p s = Some (- 1, s)"
proof -
  from ok have o: "level s = 17" "4096 \<le> heapAddress s" "heapAddress s + 2 ^ 29 < 2 ^ 31" "rep (heap_tree s) 1 17 s"
    by (simp_all add: heap_ok_def)
  let ?d = "int p - heapAddress s"
  have s32: "s32 (s32 (int p) - heapAddress s) = ?d" using p o by auto
  from p show ?thesis
  proof
    assume "int p \<le> heapAddress s - 4096"
    then have n: "?d sdiv PAGE_SIZE < 0" by (auto simp: signed_divide_int_def sgn_if)
    have "freeLoop (?d sdiv PAGE_SIZE) 0 (2 ^ 17) (int 1 - 1) s = Some (- 1, s)"
      using free_before [OF o(4) place_root n] .
    then show ?thesis using n o(1) s32 by (simp add: buddy_free_def Let_def)
  next
    assume a: "used s p = None \<and> heapAddress s \<le> int p \<and> int p < heapAddress s + 2 ^ 29 \<and> 4096 dvd ?d"
    define i where "i = nat ?d div 4096"
    have i: "i < 2 ^ 17" "?d sdiv PAGE_SIZE = int i" using a by (auto simp: i_def signed_divide_int_def sgn_if zdiv_int)
    have "blocks 0 17 (heap_tree s) i = None" using a by (auto simp: used_def Let_def i_def simp del: One_nat_def)
    then have "give i 17 (heap_tree s) = None" using give_only [of i 17 "heap_tree s" _ 0] by (cases "give i 17 (heap_tree s)") auto
    from free_none [OF o(4) place_root this i(1), of 0] show ?thesis using i o(1) s32 by (simp add: buddy_free_def Let_def)
  qed
qed

section \<open>The interface\<close>

interpretation buddy: allocator pvPortMalloc_b vPortFree_b heap_ok used "2 ^ 31"
proof
  fix s :: buddy_state and n :: nat
  assume ok: "heap_ok s" and n: "n < 2 ^ 31"
  then have h: "0 < heapAddress s" by (simp add: heap_ok_def)
  show "\<exists>p s'. pvPortMalloc_b n s = Some (p, s') \<and> heap_ok s' \<and>
      (p = NULL \<and> used s' = used s \<or> p \<noteq> NULL \<and> used s p = None \<and> (\<exists>k \<ge> n. used s' = (used s)(p \<mapsto> k)))"
  proof (rule malloc_cases [OF ok n])
    fix k i s'
    assume "order n k" "pvPortMalloc_b n s = Some (nat (heapAddress s + 4096 * int i), s')" "heap_ok s'"
      "used s (nat (heapAddress s + 4096 * int i)) = None"
      "used s' = (used s)(nat (heapAddress s + 4096 * int i) \<mapsto> 2 ^ k * 4096)"
    then show ?thesis using h by (intro exI conjI) (auto simp: order_def)
  qed (use ok in auto)
next
  fix s p q j k
  assume ok: "heap_ok s" and p: "used s p = Some j" and q: "used s q = Some k" and ne: "p \<noteq> q"
  obtain x m where x: "blocks 0 17 (heap_tree s) x = Some m" "j = m * 4096" "int p = heapAddress s + 4096 * int x"
    by (rule used_block [OF ok p]) blast
  obtain y n where y: "blocks 0 17 (heap_tree s) y = Some n" "k = n * 4096" "int q = heapAddress s + 4096 * int y"
    by (rule used_block [OF ok q]) blast
  have "x \<noteq> y" using ne x(3) y(3) by auto
  from blocks_apart [OF x(1) y(1) this] show "p + j \<le> q \<or> q + k \<le> p" using x(2,3) y(2,3) by linarith
next
  fix s :: buddy_state
  assume ok: "heap_ok s"
  then have h: "4096 \<le> heapAddress s" by (simp add: heap_ok_def)
  then show "vPortFree_b NULL s = Some s" using free_refused [OF ok, of NULL] by (simp add: vPortFree_b_def)
  show "used s NULL = None" using h by (simp add: used_def Let_def)
qed (rule free_used)

section \<open>Properties\<close>

text \<open>A heap at the address that the kernel uses: unused, and with one block.\<close>

definition buddy0 :: buddy_state where
  "buddy0 = initMemoryManager_b 0x600000 \<lparr>level = 0, tree = (\<lambda>_. 0), heapAddress = 0\<rparr>"

definition buddy_one :: buddy_state where
  "buddy_one = buddy0\<lparr>tree := (tree buddy0)(0 := NODE_USED)\<rparr>"

lemma buddy0_ok: "heap_ok buddy0" "used buddy0 = Map.empty"
  by (simp_all add: buddy0_def init_ok)

lemma buddy_one_ok: "heap_ok buddy_one" "used buddy_one = [0x600000 \<mapsto> 2 ^ 29]"
proof -
  have t: "rep Used 1 17 buddy_one" by (simp add: st_def buddy_one_def)
  show "heap_ok buddy_one"
    using tree_of_rep [OF t] t by (simp add: heap_ok_def buddy_one_def buddy0_def initMemoryManager_b_def)
  have "int p - 0x600000 = 0" if d: "0 \<le> int p - 0x600000" "4096 dvd int p - 0x600000" "nat (int p - 0x600000) div 4096 = 0" for p
  proof -
    obtain e where e: "int p - 0x600000 = 4096 * e" using d(2) by (elim dvdE)
    then have "nat (4096 * e) div 4096 = 0" using d(3) by simp
    moreover have "nat (4096 * e) div 4096 = nat e" using e d(1) by (simp add: nat_mult_distrib)
    ultimately show ?thesis using e d(1) by simp
  qed
  note z = this
  have h: "heapAddress buddy_one = 0x600000" by (simp add: buddy_one_def buddy0_def initMemoryManager_b_def)
  show "used buddy_one = [0x600000 \<mapsto> 2 ^ 29]"
  proof
    fix p
    show "used buddy_one p = [0x600000 \<mapsto> 2 ^ 29] p"
    proof (cases "p = 0x600000")
      case False
      then have "int p - 0x600000 \<noteq> 0" by simp
      with z [of p] False show ?thesis unfolding used_def tree_of_rep [OF t] h Let_def blocks.simps
        by (cases "0 \<le> int p - 0x600000 \<and> 4096 dvd int p - 0x600000") (simp_all, metis neq0_conv)
    qed (simp add: used_def tree_of_rep [OF t] h Let_def del: One_nat_def)
  qed
qed

text \<open>C33: a request for fewer than \<open>2 ^ 31\<close> bytes returns. It either changes nothing and gives \<open>NULL\<close>, or
  gives a block of the least power of two of pages that is enough, inside the heap and aligned to its
  size, that was not in use and overlaps no block in use; the other blocks stay as they are.\<close>

theorem buddy_malloc_safe:
  assumes "heap_ok s" "n < 2 ^ 31"
  shows "\<exists>p s'. pvPortMalloc_b n s = Some (p, s') \<and> heap_ok s' \<and>
    (p = NULL \<and> s' = s \<or>
     (\<exists>k. order n k \<and> used s p = None \<and> used s' = (used s)(p \<mapsto> 2 ^ k * 4096) \<and>
       heapAddress s \<le> int p \<and> int p + 2 ^ k * 4096 \<le> heapAddress s + 2 ^ 29 \<and> 2 ^ k * 4096 dvd int p - heapAddress s \<and>
       (\<forall>q m. used s q = Some m \<longrightarrow> q + m \<le> p \<or> p + 2 ^ k * 4096 \<le> q)))"
proof (rule malloc_cases [OF assms])
  fix k i s'
  let ?p = "nat (heapAddress s + 4096 * int i)"
  assume a: "order n k" "pvPortMalloc_b n s = Some (?p, s')" "heap_ok s'" "i + 2 ^ k \<le> 2 ^ 17" "2 ^ k dvd i"
    "used s ?p = None" "used s' = (used s)(?p \<mapsto> 2 ^ k * 4096)"
  have p: "int ?p = heapAddress s + 4096 * int i" using assms(1) by (simp add: heap_ok_def)
  have "int (i + 2 ^ k) \<le> int (2 ^ 17)" using a(4) by (simp only: of_nat_le_iff)
  then have fits: "int ?p + 2 ^ k * 4096 \<le> heapAddress s + 2 ^ 29" unfolding p by simp
  obtain z where "i = 2 ^ k * z" using a(5) by (elim dvdE)
  then have al: "2 ^ k * 4096 dvd int ?p - heapAddress s" unfolding p by simp
  have "q + m \<le> ?p \<or> ?p + 2 ^ k * 4096 \<le> q" if "used s q = Some m" for q m
  proof -
    have "q \<noteq> ?p" using that a(6) by auto
    then show ?thesis using buddy.live_apart [OF a(3), of q m ?p "2 ^ k * 4096"] that a(7) by simp
  qed
  with a p fits al show ?thesis by (intro exI [of _ ?p] exI [of _ s'] conjI disjI2 exI [of _ k]) auto
qed (use assms in auto)

theorem buddy_malloc_safe_witness: "\<exists>p s'. pvPortMalloc_b 5000 buddy0 = Some (p, s') \<and> heap_ok s'"
  using buddy_malloc_safe [OF buddy0_ok(1), of 5000] by auto

text \<open>C34: a request fails only when it must: if it gives \<open>NULL\<close>, every aligned run of pages of the size that
  it needs meets a block in use.\<close>

theorem buddy_malloc_complete:
  assumes "heap_ok s" "n < 2 ^ 31" "pvPortMalloc_b n s = Some (NULL, s')" "order n k" "b + 2 ^ k \<le> 2 ^ 17" "2 ^ k dvd b"
  shows "\<exists>p m. used s p = Some m \<and> int p < heapAddress s + int (b + 2 ^ k) * 4096 \<and> heapAddress s + int b * 4096 < int p + int m"
proof (rule malloc_cases [OF assms(1,2)])
  fix j
  assume j: "order n j" "17 < j \<or> claim j 17 (heap_tree s) = None"
  have h: "0 < heapAddress s" "shape 17 (heap_tree s)" using assms(1) by (auto simp: heap_ok_def)
  have "(2::nat) ^ k \<le> 2 ^ 17" using assms(5) by linarith
  then have k: "k \<le> 17" by (rule power_le_imp_le_exp [rotated]) simp
  then have "claim k 17 (heap_tree s) = None" using j order_unique [OF j(1) assms(4)] by simp
  from claim_complete [OF this h(2) k, of 0 b] obtain i m where
    i: "blocks 0 17 (heap_tree s) i = Some m" "i < b + 2 ^ k" "b < i + m" using assms(5,6) by auto
  let ?p = "nat (heapAddress s + 4096 * int i)"
  have "used s ?p = Some (m * 4096)" using used_at [OF h(1)] i(1) by simp
  moreover have e: "int ?p = heapAddress s + 4096 * int i" using h(1) by simp
  moreover obtain u where u: "int (b + 2 ^ k) = u" by blast
  have "int i < u" "int b < int i + int m" using i(2,3) u by linarith+
  then have "int ?p < heapAddress s + int (b + 2 ^ k) * 4096" "heapAddress s + int b * 4096 < int ?p + int (m * 4096)"
    unfolding e of_nat_mult of_nat_numeral u by linarith+
  ultimately show ?thesis by blast
next
  fix j i t
  assume "pvPortMalloc_b n s = Some (nat (heapAddress s + 4096 * int i), t)"
  with assms show ?thesis by (simp add: heap_ok_def)
qed

theorem buddy_malloc_complete_witness:
  "pvPortMalloc_b 1 buddy_one = Some (NULL, buddy_one) \<and>
   (\<exists>p m. used buddy_one p = Some m \<and> int p < heapAddress buddy_one + int (5 + 2 ^ 0) * 4096 \<and>
      heapAddress buddy_one + int 5 * 4096 < int p + int m)"
proof -
  have p: "next_pow_of_2 1 = 1" by (simp add: next_pow_of_2_def is_pow_of_2_def)
  have "buddy_alloc 1 buddy_one = Some (0, buddy_one)"
    using next_root [of 0 "2 ^ 17"]
    by (simp add: buddy_alloc_def signed_divide_int_def signed_modulo_int_def p allocLoop.simps rdT_def buddy_one_def
        buddy0_def initMemoryManager_b_def)
  then have m: "pvPortMalloc_b 1 buddy_one = Some (NULL, buddy_one)" by (simp add: pvPortMalloc_b_def)
  have "order 1 0" by (simp add: order_def)
  from buddy_malloc_complete [OF buddy_one_ok(1) _ m this, of 5] m show ?thesis by simp
qed

text \<open>C35: buddies coalesce: whatever the history, when all blocks in use are given back, in any order, the heap
  is one unused block again.\<close>

theorem buddy_coalesces:
  assumes "heap_ok s" "distinct ps" "set ps = dom (used s)"
  shows "\<exists>s'. frees vPortFree_b ps s = Some s' \<and> heap_ok s' \<and> used s' = Map.empty \<and> tree s' 0 = NODE_UNUSED"
proof -
  obtain s' where s': "frees vPortFree_b ps s = Some s'" "heap_ok s'" "used s' = used s |` (- set ps)"
    using buddy.frees_live [OF assms(1,2)] assms(3) by blast
  then have e: "used s' = Map.empty" using assms(3) by (auto simp: restrict_map_def fun_eq_iff dom_def)
  have o: "0 < heapAddress s'" "shape 17 (heap_tree s')" "rep (heap_tree s') 1 17 s'" using s'(2) by (auto simp: heap_ok_def)
  have "heap_tree s' = Unused"
  proof (rule ccontr)
    assume "heap_tree s' \<noteq> Unused"
    with shape_used [OF o(2), of 0] obtain i n where "blocks 0 17 (heap_tree s') i = Some n" by blast
    with used_at [OF o(1), of i] e show False by simp
  qed
  with o(3) have "st s' 1 = NODE_UNUSED" by simp
  then have "tree s' 0 = NODE_UNUSED" by (simp add: st_def)
  with s' e show ?thesis by blast
qed

theorem buddy_coalesces_witness: "\<exists>s'. frees vPortFree_b [0x600000] buddy_one = Some s' \<and> tree s' 0 = NODE_UNUSED"
  using buddy_coalesces [OF buddy_one_ok(1), of "[0x600000]"] by (auto simp: buddy_one_ok(2))

end
