(* ===== verification/Mutex.thy ===== *)
theory Mutex
  imports Bottler_Prelude
begin

text \<open>
  The critical sections of the user programs: processes that run between the wait for and the post to a
  semaphore that starts with 1. The semaphore is a value and a queue, as the kernel's semaphores are shown to
  be; a post with waiters lets the first one go on behind its wait. The interface takes the points of a process
  as it is given, and what holds of the semaphore and the points is proved once.
\<close>

record psem =
  sval :: nat
  squeue :: "addr list"

text \<open>
  \<open>inside c\<close>: the point \<open>c\<close> lies behind the wait and not behind the post. \<open>queued c\<close>: it is the wait
  of a blocked process. At most one process is inside, and the queue holds the blocked ones.
\<close>

definition guarded :: "('c \<Rightarrow> bool) \<Rightarrow> ('c \<Rightarrow> bool) \<Rightarrow> psem \<Rightarrow> (addr \<rightharpoonup> 'c) \<Rightarrow> bool" where
  "guarded inside queued m pc \<longleftrightarrow>
     (sval m = 1 \<and> squeue m = [] \<and> (\<forall>q d. pc q = Some d \<longrightarrow> \<not> inside d \<and> \<not> queued d)) \<or>
     (sval m = 0 \<and> (\<exists>h c. pc h = Some c \<and> inside c \<and> (\<forall>q d. pc q = Some d \<longrightarrow> inside d \<longrightarrow> q = h)) \<and>
      distinct (squeue m) \<and> (\<forall>q. q \<in> set (squeue m) \<longleftrightarrow> (\<exists>d. pc q = Some d \<and> queued d)))"

text \<open>\<open>behind c\<close> is the point behind the wait \<open>c\<close>.\<close>

locale mutex_users =
  fixes inside :: "'c \<Rightarrow> bool"
    and queued :: "'c \<Rightarrow> bool"
    and behind :: "'c \<Rightarrow> 'c"
  assumes behind_inside: "queued c \<Longrightarrow> inside (behind c) \<and> \<not> queued (behind c) \<and> \<not> inside c"
begin

lemma guarded_held:
  assumes "guarded inside queued m pc" "pc p = Some c" "inside c"
  shows "sval m = 0" "\<And>q d. pc q = Some d \<Longrightarrow> inside d \<Longrightarrow> q = p" "distinct (squeue m)"
    "\<And>q. q \<in> set (squeue m) \<longleftrightarrow> (\<exists>d. pc q = Some d \<and> queued d)"
proof -
  from assms obtain h where h: "sval m = 0" "\<And>q d. pc q = Some d \<Longrightarrow> inside d \<Longrightarrow> q = h" "distinct (squeue m)"
    "\<And>q. q \<in> set (squeue m) \<longleftrightarrow> (\<exists>d. pc q = Some d \<and> queued d)" unfolding guarded_def by metis
  from h(2) [OF assms(2,3)] have "p = h" .
  with h show "sval m = 0" "\<And>q d. pc q = Some d \<Longrightarrow> inside d \<Longrightarrow> q = p" "distinct (squeue m)"
    "\<And>q. q \<in> set (squeue m) \<longleftrightarrow> (\<exists>d. pc q = Some d \<and> queued d)" by blast+
qed

lemma guardedI_held:
  assumes "sval m = 0" "pc h = Some c" "inside c" "\<And>q d. pc q = Some d \<Longrightarrow> inside d \<Longrightarrow> q = h" "distinct (squeue m)"
    "\<And>q. q \<in> set (squeue m) \<longleftrightarrow> (\<exists>d. pc q = Some d \<and> queued d)"
  shows "guarded inside queued m pc"
  unfolding guarded_def using assms by blast

lemma guarded_move:
  "guarded inside queued m pc \<Longrightarrow> pc p = Some c \<Longrightarrow> inside c' = inside c \<Longrightarrow> queued c' = queued c \<Longrightarrow> guarded inside queued m (pc(p \<mapsto> c'))"
proof -
  assume g: "guarded inside queued m pc" and p: "pc p = Some c" and c: "inside c' = inside c" "queued c' = queued c"
  show ?thesis
  proof (cases "0 < sval m")
    case True
    then show ?thesis using g p c unfolding guarded_def by auto
  next
    case False
    then obtain h e where h: "pc h = Some e" "inside e" using g unfolding guarded_def by auto
    note g' = guarded_held [OF g h]
    show ?thesis
    proof (rule guardedI_held [of _ _ h "if h = p then c' else e"])
      show "q = h" if "(pc(p \<mapsto> c')) q = Some d" "inside d" for q d
        using that g'(2) [of q] c p by (cases "q = p") auto
      show "q \<in> set (squeue m) \<longleftrightarrow> (\<exists>d. (pc(p \<mapsto> c')) q = Some d \<and> queued d)" for q
        using g'(4) [of q] c p by auto
    qed (use g'(1,3) h p c in auto)
  qed
qed

lemma guarded_enter:
  assumes "guarded inside queued m pc" "0 < sval m" "pc p = Some c" "inside d" "\<not> queued d"
  shows "guarded inside queued (m\<lparr>sval := sval m - 1\<rparr>) (pc(p \<mapsto> d))"
  using assms unfolding guarded_def by (auto intro!: exI [of _ p])

lemma guarded_queue:
  assumes "guarded inside queued m pc" "sval m = 0" "pc p = Some c" "\<not> inside c" "\<not> queued c" "queued d"
  shows "guarded inside queued (m\<lparr>squeue := squeue m @ [p]\<rparr>) (pc(p \<mapsto> d))"
proof -
  have d: "\<not> inside d" using behind_inside [OF assms(6)] by simp
  obtain h e where h: "pc h = Some e" "inside e" using assms(1,2) unfolding guarded_def by auto
  note g = guarded_held [OF assms(1) h]
  have "h \<noteq> p" "p \<notin> set (squeue m)" using h assms(3,4,5) g(4) by auto
  then show ?thesis
  proof (intro guardedI_held [of _ _ h e])
    show "q = h" if "(pc(p \<mapsto> d)) q = Some y" "inside y" for q y using that d g(2) [of q] by (cases "q = p") auto
    show "q \<in> set (squeue (m\<lparr>squeue := squeue m @ [p]\<rparr>)) \<longleftrightarrow> (\<exists>y. (pc(p \<mapsto> d)) q = Some y \<and> queued y)" for q
      using g(4) [of q] assms(6) by auto
  qed (use assms(2) h g(3) in auto)
qed

lemma guarded_leave:
  assumes "guarded inside queued m pc" "squeue m = []" "pc p = Some c" "inside c" "\<not> inside d" "\<not> queued d"
  shows "guarded inside queued (m\<lparr>sval := sval m + 1\<rparr>) (pc(p \<mapsto> d))"
proof -
  note g = guarded_held [OF assms(1,3,4)]
  have "\<not> inside y" if "pc x = Some y" "x \<noteq> p" for x y using g(2) that by blast
  then show ?thesis using g(1,4) assms(2,5,6) unfolding guarded_def by auto
qed

lemma guarded_next:
  assumes g: "guarded inside queued m pc" and m: "squeue m = q # qs" and p: "pc p = Some c" "inside c" "\<not> inside d" "\<not> queued d"
  obtains e where "q \<noteq> p" "pc q = Some e" "queued e" "guarded inside queued (m\<lparr>squeue := qs\<rparr>) (pc(p \<mapsto> d, q \<mapsto> behind e))"
proof -
  have v: "sval m = 0" and h: "\<And>x y. pc x = Some y \<Longrightarrow> inside y \<Longrightarrow> x = p"
    and ds: "distinct (q # qs)" and qu: "\<And>x. x \<in> set (q # qs) \<longleftrightarrow> (\<exists>y. pc x = Some y \<and> queued y)"
    using guarded_held [OF g p(1,2)] m by auto
  obtain e where e: "pc q = Some e" "queued e" using qu [of q] by auto
  note b = behind_inside [OF e(2)]
  have ne: "q \<noteq> p" using e p b by auto
  have c: "\<not> queued c" using behind_inside [of c] p(2) by auto
  have "guarded inside queued (m\<lparr>squeue := qs\<rparr>) (pc(p \<mapsto> d, q \<mapsto> behind e))"
  proof (rule guardedI_held)
    show "(pc(p \<mapsto> d, q \<mapsto> behind e)) q = Some (behind e)" "inside (behind e)" using b by auto
    show "x = q" if "(pc(p \<mapsto> d, q \<mapsto> behind e)) x = Some y" "inside y" for x y
      using that h [of x y] p(3) by (auto split: if_splits)
    fix x
    show "x \<in> set (squeue (m\<lparr>squeue := qs\<rparr>)) \<longleftrightarrow> (\<exists>y. (pc(p \<mapsto> d, q \<mapsto> behind e)) x = Some y \<and> queued y)"
      using qu [of x] ds b p ne c by auto
  qed (use v ds in auto)
  with that ne e show thesis by blast
qed

lemma guarded_new:
  assumes "guarded inside queued m pc" "pc p = None" "\<not> inside c" "\<not> queued c"
  shows "guarded inside queued m (pc(p \<mapsto> c))"
proof (cases "0 < sval m")
  case True
  then show ?thesis using assms unfolding guarded_def by auto
next
  case False
  then obtain h e where h: "pc h = Some e" "inside e" using assms(1) unfolding guarded_def by auto
  note g = guarded_held [OF assms(1) h]
  show ?thesis
  proof (rule guardedI_held [of _ _ h e])
    show "q = h" if "(pc(p \<mapsto> c)) q = Some d" "inside d" for q d using that g(2) [of q] assms(3) by (cases "q = p") auto
    show "q \<in> set (squeue m) \<longleftrightarrow> (\<exists>d. (pc(p \<mapsto> c)) q = Some d \<and> queued d)" for q
      using g(4) [of q] assms(2,4) by auto
  qed (use g(1,3) h assms(2) in auto)
qed

end

end
