(* ===== verification/Phylo.thy ===== *)
theory Phylo
  imports Mutex
begin

text \<open>
  The dining philosophers, \<open>src/Userland/SampleCodeModule/shell/commands/phylo.c\<close>: definitions.
  Every philosopher is a process. A step is one statement of \<open>take_fork\<close> or \<open>put_fork\<close>, and the
  processes interleave between any two steps. The semaphores are those that the kernel's semaphores
  refine: a value and a queue; a post to a semaphore with waiters lets the first one go on behind its wait.
  The records are a map from their addresses; reading through another pointer is the outcome \<open>None\<close>. The
  strings that pass a record's address to its process are not part of the model.
\<close>

section \<open>State\<close>

datatype phil_states = EATING | HUNGRY | THINKING

record philosopher_t =
  own :: psem
  pstate :: phil_states
  left :: addr
  right :: addr

text \<open>Where a philosopher's process is: the statement that comes next, or the wait that blocks it.\<close>

datatype point =
  Begin | TakeWait | TakeHungry | TakeTest | TakePost | ForkWait | ForkBlocked
| Meal | PutWait | PutThinking | PutLeft | PutRight | PutPost

record phylo_state =
  phils :: "addr \<rightharpoonup> philosopher_t"
  firstPhil :: addr
  mutex :: psem
  pcs :: "addr \<rightharpoonup> point"

definition goto :: "addr \<Rightarrow> point \<Rightarrow> phylo_state \<Rightarrow> phylo_state" where
  "goto p c s = s\<lparr>pcs := (pcs s)(p \<mapsto> c)\<rparr>"

definition modPhil :: "addr \<Rightarrow> (philosopher_t \<Rightarrow> philosopher_t) \<Rightarrow> phylo_state \<Rightarrow> phylo_state option" where
  "modPhil p f s = do { a \<leftarrow> phils s p; Some (s\<lparr>phils := (phils s)(p \<mapsto> f a)\<rparr>) }"

section \<open>Semaphores\<close>

text \<open>The statement behind a wait.\<close>

fun behind :: "point \<Rightarrow> point" where
  "behind TakeWait = TakeHungry"
| "behind ForkBlocked = Meal"
| "behind PutWait = PutThinking"
| "behind c = c"

definition waitMutex :: "addr \<Rightarrow> point \<Rightarrow> phylo_state \<Rightarrow> phylo_state" where
  "waitMutex p c s =
     (if sval (mutex s) > 0
      then goto p (behind c) (s\<lparr>mutex := (mutex s)\<lparr>sval := sval (mutex s) - 1\<rparr>\<rparr>)
      else goto p c (s\<lparr>mutex := (mutex s)\<lparr>squeue := squeue (mutex s) @ [p]\<rparr>\<rparr>))"

definition wake :: "addr \<Rightarrow> phylo_state \<Rightarrow> phylo_state option" where
  "wake p s = do { c \<leftarrow> pcs s p; Some (goto p (behind c) s) }"

definition postMutex :: "phylo_state \<Rightarrow> phylo_state option" where
  "postMutex s =
     (case squeue (mutex s) of
        [] \<Rightarrow> Some (s\<lparr>mutex := (mutex s)\<lparr>sval := sval (mutex s) + 1\<rparr>\<rparr>)
      | q # qs \<Rightarrow> wake q (s\<lparr>mutex := (mutex s)\<lparr>squeue := qs\<rparr>\<rparr>))"

definition waitOwn :: "addr \<Rightarrow> phylo_state \<Rightarrow> phylo_state option" where
  "waitOwn p s =
     do {
       a \<leftarrow> phils s p;
       if sval (own a) > 0
       then do { s \<leftarrow> modPhil p (\<lambda>a. a\<lparr>own := (own a)\<lparr>sval := sval (own a) - 1\<rparr>\<rparr>) s; Some (goto p Meal s) }
       else do { s \<leftarrow> modPhil p (\<lambda>a. a\<lparr>own := (own a)\<lparr>squeue := squeue (own a) @ [p]\<rparr>\<rparr>) s; Some (goto p ForkBlocked s) }
     }"

definition postOwn :: "addr \<Rightarrow> phylo_state \<Rightarrow> phylo_state option" where
  "postOwn p s =
     do {
       a \<leftarrow> phils s p;
       case squeue (own a) of
         [] \<Rightarrow> modPhil p (\<lambda>a. a\<lparr>own := (own a)\<lparr>sval := sval (own a) + 1\<rparr>\<rparr>) s
       | q # qs \<Rightarrow> do { s \<leftarrow> modPhil p (\<lambda>a. a\<lparr>own := (own a)\<lparr>squeue := qs\<rparr>\<rparr>) s; wake q s }
     }"

section \<open>The philosophers\<close>

definition test :: "addr \<Rightarrow> phylo_state \<Rightarrow> phylo_state option" where
  "test phil s =
     do {
       a \<leftarrow> phils s phil;
       if pstate a = HUNGRY
       then do {
         l \<leftarrow> phils s (left a);
         if pstate l \<noteq> EATING
         then do {
           r \<leftarrow> phils s (right a);
           if pstate r \<noteq> EATING
           then do { s \<leftarrow> modPhil phil (pstate_update (\<lambda>_. EATING)) s; postOwn phil s }
           else Some s
         }
         else Some s
       }
       else Some s
     }"

definition take_fork :: "addr \<Rightarrow> point \<Rightarrow> phylo_state \<Rightarrow> phylo_state option" where
  "take_fork phil c s =
     (case c of
        Begin \<Rightarrow> Some (waitMutex phil TakeWait s)
      | TakeHungry \<Rightarrow> do { s \<leftarrow> modPhil phil (pstate_update (\<lambda>_. HUNGRY)) s; Some (goto phil TakeTest s) }
      | TakeTest \<Rightarrow> do { s \<leftarrow> test phil s; Some (goto phil TakePost s) }
      | TakePost \<Rightarrow> postMutex (goto phil ForkWait s)
      | ForkWait \<Rightarrow> waitOwn phil s
      | _ \<Rightarrow> None)"

definition put_fork :: "addr \<Rightarrow> point \<Rightarrow> phylo_state \<Rightarrow> phylo_state option" where
  "put_fork phil c s =
     (case c of
        Meal \<Rightarrow> Some (waitMutex phil PutWait s)
      | PutThinking \<Rightarrow> do { s \<leftarrow> modPhil phil (pstate_update (\<lambda>_. THINKING)) s; Some (goto phil PutLeft s) }
      | PutLeft \<Rightarrow> do { a \<leftarrow> phils s phil; s \<leftarrow> test (left a) s; Some (goto phil PutRight s) }
      | PutRight \<Rightarrow> do { a \<leftarrow> phils s phil; s \<leftarrow> test (right a) s; Some (goto phil PutPost s) }
      | PutPost \<Rightarrow> postMutex (goto phil Begin s)
      | _ \<Rightarrow> None)"

text \<open>One step of the process of a philosopher; \<open>None\<close> when it is blocked. \<open>take_fork\<close> comes back with
  \<open>Meal\<close>, the sleep before \<open>put_fork\<close>.\<close>

definition philosopher :: "addr \<Rightarrow> phylo_state \<Rightarrow> phylo_state option" where
  "philosopher phil s =
     do {
       c \<leftarrow> pcs s phil;
       if c \<in> {Begin, TakeHungry, TakeTest, TakePost, ForkWait} then take_fork phil c s
       else put_fork phil c s
     }"

text \<open>What \<open>printState\<close> writes, from a philosopher round to the first.\<close>

partial_function (option) printPhils :: "addr \<Rightarrow> phylo_state \<Rightarrow> char list option" where
  "printPhils phil s =
     do {
       a \<leftarrow> phils s phil;
       let c = (if pstate a = EATING then CHR ''E'' else CHR ''.'');
       if right a = firstPhil s then Some [c] else do { cs \<leftarrow> printPhils (right a) s; Some (c # cs) }
     }"

definition printState :: "phylo_state \<Rightarrow> char list option" where
  "printState s = do { cs \<leftarrow> printPhils (firstPhil s) s; Some (cs @ [CHR 0x0A]) }"

section \<open>The table\<close>

definition newPhil :: philosopher_t where
  "newPhil = \<lparr>own = \<lparr>sval = 0, squeue = []\<rparr>, pstate = THINKING, left = NULL, right = NULL\<rparr>"

text \<open>The loop of \<open>phylo\<close> over the records that \<open>sys_malloc\<close> gives, and the closing of the ring.\<close>

fun phyloLoop :: "addr list \<Rightarrow> addr \<Rightarrow> phylo_state \<Rightarrow> (addr \<times> phylo_state) option" where
  "phyloLoop [] lft s = Some (lft, s)"
| "phyloLoop (phil # ps) lft s =
     do {
       let s = s\<lparr>phils := (phils s)(phil \<mapsto> newPhil)\<rparr>;
       s \<leftarrow>
         (if lft \<noteq> NULL
          then do { s \<leftarrow> modPhil phil (left_update (\<lambda>_. lft)) s; modPhil lft (right_update (\<lambda>_. phil)) s }
          else Some s);
       let s = (if firstPhil s = NULL then s\<lparr>firstPhil := phil\<rparr> else s);
       phyloLoop ps phil s
     }"

text \<open>The loop that starts the processes: \<open>sys_loadProcess\<close> for every philosopher round the ring.\<close>

partial_function (option) startLoop :: "addr \<Rightarrow> phylo_state \<Rightarrow> phylo_state option" where
  "startLoop phil s =
     do {
       a \<leftarrow> phils s phil;
       let s = goto phil Begin s;
       if right a = firstPhil s then Some s else startLoop (right a) s
     }"

definition phylo_setup :: "addr list \<Rightarrow> phylo_state \<Rightarrow> phylo_state option" where
  "phylo_setup mem s =
     do {
       let s = s\<lparr>mutex := \<lparr>sval = 1, squeue = []\<rparr>\<rparr>;
       (lft, s) \<leftarrow> phyloLoop mem NULL s;
       s \<leftarrow> modPhil (firstPhil s) (left_update (\<lambda>_. lft)) s;
       f \<leftarrow> phils s (firstPhil s);
       s \<leftarrow> modPhil (left f) (right_update (\<lambda>_. firstPhil s)) s;
       startLoop (firstPhil s) s
     }"

definition addPhilo :: "addr \<Rightarrow> phylo_state \<Rightarrow> phylo_state option" where
  "addPhilo new s =
     do {
       f \<leftarrow> phils s (firstPhil s);
       let s = s\<lparr>phils := (phils s)(new \<mapsto> newPhil\<lparr>left := left f, right := firstPhil s\<rparr>)\<rparr>;
       s \<leftarrow> modPhil (left f) (right_update (\<lambda>_. new)) s;
       s \<leftarrow> modPhil (firstPhil s) (left_update (\<lambda>_. new)) s;
       Some (goto new Begin s)
     }"

text \<open>The record is freed and its process killed.\<close>

definition removePhilo :: "phylo_state \<Rightarrow> phylo_state option" where
  "removePhilo s =
     do {
       f \<leftarrow> phils s (firstPhil s);
       let del = left f;
       d \<leftarrow> phils s del;
       s \<leftarrow> modPhil (left d) (right_update (\<lambda>_. right d)) s;
       s \<leftarrow> modPhil (right d) (left_update (\<lambda>_. left d)) s;
       Some (s\<lparr>phils := (phils s)(del := None), pcs := (pcs s)(del := None)\<rparr>)
     }"

end
