(* ===== verification/Phylo_Props.thy ===== *)
theory Phylo_Props
  imports Phylo
begin

text \<open>
  The dining philosophers: the invariant of their table, mutual exclusion of neighbours, freedom from
  deadlock, and what \<open>removePhilo\<close> breaks.
\<close>

section \<open>The invariant\<close>

text \<open>The records form a ring that starts with the first philosopher.\<close>

definition ring :: "addr list \<Rightarrow> (addr \<rightharpoonup> philosopher_t) \<Rightarrow> addr \<Rightarrow> bool" where
  "ring xs ph f \<longleftrightarrow> xs \<noteq> [] \<and> distinct xs \<and> dom ph = set xs \<and> f = hd xs \<and>
     (\<forall>i < length xs. \<exists>a. ph (xs ! i) = Some a \<and>
        right a = xs ! (Suc i mod length xs) \<and> left a = xs ! ((i + length xs - 1) mod length xs))"

text \<open>What a philosopher's record holds at each point of its process.\<close>

fun fits :: "addr \<Rightarrow> point \<Rightarrow> phil_states \<Rightarrow> nat \<Rightarrow> addr list \<Rightarrow> bool" where
  "fits p TakeTest st v q = (st = HUNGRY \<and> v = 0 \<and> q = [])"
| "fits p TakePost st v q = ((st = HUNGRY \<and> v = 0 \<or> st = EATING \<and> v = 1) \<and> q = [])"
| "fits p ForkWait st v q = ((st = HUNGRY \<and> v = 0 \<or> st = EATING \<and> v = 1) \<and> q = [])"
| "fits p ForkBlocked st v q = (st = HUNGRY \<and> v = 0 \<and> q = [p])"
| "fits p c st v q = (st = (if c \<in> {Meal, PutWait, PutThinking} then EATING else THINKING) \<and> v = 0 \<and> q = [])"

abbreviation fit :: "addr \<Rightarrow> point \<Rightarrow> philosopher_t \<Rightarrow> bool" where
  "fit p c a \<equiv> fits p c (pstate a) (sval (own a)) (squeue (own a))"

definition inside :: "point \<Rightarrow> bool" where
  "inside c \<longleftrightarrow> c \<in> {TakeHungry, TakeTest, TakePost, PutThinking, PutLeft, PutRight, PutPost}"

definition queued :: "point \<Rightarrow> bool" where
  "queued c \<longleftrightarrow> c \<in> {TakeWait, PutWait}"

text \<open>Hungry, and with nothing left to do before somebody else lets it eat.\<close>

definition stuck :: "point \<Rightarrow> philosopher_t \<Rightarrow> bool" where
  "stuck c a \<longleftrightarrow> c \<in> {TakePost, ForkWait, ForkBlocked} \<and> pstate a = HUNGRY"

definition apart :: "(addr \<rightharpoonup> philosopher_t) \<Rightarrow> bool" where
  "apart ph \<longleftrightarrow> (\<forall>p a b. ph p = Some a \<longrightarrow> ph (right a) = Some b \<longrightarrow> right a \<noteq> p \<longrightarrow>
     \<not> (pstate a = EATING \<and> pstate b = EATING))"

definition seated :: "(addr \<rightharpoonup> philosopher_t) \<Rightarrow> (addr \<rightharpoonup> point) \<Rightarrow> addr \<Rightarrow> bool" where
  "seated ph pc f \<longleftrightarrow> (\<exists>xs. ring xs ph f) \<and> dom pc = dom ph \<and>
     (\<forall>p a c. ph p = Some a \<longrightarrow> pc p = Some c \<longrightarrow> fit p c a) \<and> apart ph \<and>
     (\<exists>p a c. ph p = Some a \<and> pc p = Some c \<and> \<not> stuck c a)"

definition table_inv :: "phylo_state \<Rightarrow> bool" where
  "table_inv s \<longleftrightarrow> seated (phils s) (pcs s) (firstPhil s) \<and> guarded inside queued (mutex s) (pcs s)"

section \<open>The ring\<close>

lemma ring_links:
  assumes "ring xs ph f" "ph p = Some a"
  shows "\<exists>l. ph (left a) = Some l \<and> right l = p" "\<exists>r. ph (right a) = Some r \<and> left r = p"
proof -
  let ?n = "length xs"
  from assms obtain i where i: "i < ?n" "xs ! i = p" by (metis domI in_set_conv_nth ring_def)
  then have a: "right a = xs ! (Suc i mod ?n)" "left a = xs ! ((i + ?n - 1) mod ?n)"
    using assms by (auto simp: ring_def)
  have n: "0 < ?n" using i(1) by linarith
  obtain l where l: "ph (left a) = Some l" "right l = xs ! (Suc ((i + ?n - 1) mod ?n) mod ?n)"
    using assms(1) a(2) n unfolding ring_def by (metis mod_less_divisor)
  have "Suc ((i + ?n - 1) mod ?n) mod ?n = i" using i(1) n by (simp add: mod_Suc_eq)
  with l i show "\<exists>l. ph (left a) = Some l \<and> right l = p" by auto
  obtain r where r: "ph (right a) = Some r" "left r = xs ! ((Suc i mod ?n + ?n - 1) mod ?n)"
    using assms(1) a(1) n unfolding ring_def by (metis mod_less_divisor)
  have "(Suc i mod ?n + ?n - 1) mod ?n = i"
    using i(1) by (cases "Suc i = ?n") auto
  with r i show "\<exists>r. ph (right a) = Some r \<and> left r = p" by auto
qed

lemma ring_upd:
  "ring xs ph f \<Longrightarrow> ph p = Some a \<Longrightarrow> left a' = left a \<Longrightarrow> right a' = right a \<Longrightarrow> ring xs (ph(p \<mapsto> a')) f"
  unfolding ring_def by (auto simp: insert_absorb)

section \<open>Changes of one philosopher\<close>

lemma apart_upd:
  assumes "ring xs ph f" "apart ph" "ph p = Some a" "left a' = left a" "right a' = right a"
    and "pstate a' = EATING \<Longrightarrow> pstate a = EATING \<or>
      (\<forall>l r. ph (left a) = Some l \<longrightarrow> ph (right a) = Some r \<longrightarrow> pstate l \<noteq> EATING \<and> pstate r \<noteq> EATING)"
  shows "apart (ph(p \<mapsto> a'))"
  unfolding apart_def
proof (intro allI impI)
  fix q b c
  assume q: "(ph(p \<mapsto> a')) q = Some b" "(ph(p \<mapsto> a')) (right b) = Some c" "right b \<noteq> q"
  obtain l r where lr: "ph (left a) = Some l" "right l = p" "ph (right a) = Some r" "left r = p"
    using ring_links [OF assms(1,3)] by blast
  show "\<not> (pstate b = EATING \<and> pstate c = EATING)"
  proof (cases "q = p")
    case True
    then have "b = a'" "c = r" using q lr assms(5) by auto
    with True q(3) assms lr show ?thesis unfolding apart_def by fastforce
  next
    case False
    then have b: "ph q = Some b" using q by simp
    show ?thesis
    proof (cases "right b = p")
      case True
      then have "q = left a" using ring_links(2) [OF assms(1) b] assms(3) by auto
      then have "b = l" "c = a'" using b lr(1) q True by auto
      with True b False assms lr q(3) show ?thesis unfolding apart_def by fastforce
    next
      case False
      with b q assms(2) show ?thesis unfolding apart_def by auto
    qed
  qed
qed

lemma seated_upd:
  assumes s: "seated ph pc f" and p: "ph p = Some a" "pc p = Some c"
    and a': "left a' = left a" "right a' = right a" and fit: "fit p c' a'"
    and eat: "pstate a' = EATING \<Longrightarrow> pstate a = EATING \<or>
      (\<forall>l r. ph (left a) = Some l \<longrightarrow> ph (right a) = Some r \<longrightarrow> pstate l \<noteq> EATING \<and> pstate r \<noteq> EATING)"
    and stuck: "stuck c' a' \<Longrightarrow> stuck c a \<or> (\<exists>q b d. q \<noteq> p \<and> ph q = Some b \<and> pc q = Some d \<and> \<not> stuck d b)"
  shows "seated (ph(p \<mapsto> a')) (pc(p \<mapsto> c')) f"
proof -
  obtain xs where r: "ring xs ph f" using s by (auto simp: seated_def)
  have "\<exists>q b d. (ph(p \<mapsto> a')) q = Some b \<and> (pc(p \<mapsto> c')) q = Some d \<and> \<not> stuck d b"
  proof (cases "stuck c' a'")
    case True
    obtain q b d where q: "ph q = Some b" "pc q = Some d" "\<not> stuck d b" using s by (auto simp: seated_def)
    have "\<exists>q b d. q \<noteq> p \<and> ph q = Some b \<and> pc q = Some d \<and> \<not> stuck d b"
      using stuck [OF True] q p by (cases "q = p") auto
    then obtain q b d where "q \<noteq> p" "ph q = Some b" "pc q = Some d" "\<not> stuck d b" by blast
    then show ?thesis by (intro exI [of _ q] exI [of _ b] exI [of _ d]) simp
  next
    case False
    then show ?thesis by (intro exI [of _ p] exI [of _ a'] exI [of _ c']) simp
  qed
  then show ?thesis
    using ring_upd [OF r p(1) a'] apart_upd [OF r _ p(1) a' eat] s fit p
    unfolding seated_def by (auto split: if_splits)
qed

section \<open>The mutex\<close>

lemma behind_wait: "queued c \<Longrightarrow> inside (behind c) \<and> \<not> queued (behind c) \<and> \<not> inside c"
  by (auto simp: queued_def inside_def)

interpretation phil: mutex_users inside queued behind
  by unfold_locales (rule behind_wait)

section \<open>Steps\<close>

lemma seated_goto:
  assumes "seated ph pc f" "ph p = Some a" "pc p = Some c" "fit p c a \<Longrightarrow> fit p c' a" "stuck c' a \<Longrightarrow> stuck c a"
  shows "seated ph (pc(p \<mapsto> c')) f"
proof -
  have "fit p c a" using assms(1-3) by (auto simp: seated_def)
  then show ?thesis using seated_upd [OF assms(1-3), of a c'] assms(2,4,5) by (simp add: fun_upd_idem)
qed

lemma seatedD:
  assumes "seated ph pc f" "pc p = Some c"
  obtains a where "ph p = Some a" "fit p c a"
  using assms unfolding seated_def by blast

lemma wait_inv:
  assumes i: "table_inv s" and p: "pcs s p = Some c" "c = Begin \<and> d = TakeWait \<or> c = Meal \<and> d = PutWait"
  shows "table_inv (waitMutex p d s)"
proof -
  from i have s: "seated (phils s) (pcs s) (firstPhil s)" and g: "guarded inside queued (mutex s) (pcs s)" by (auto simp: table_inv_def)
  obtain a where a: "phils s p = Some a" using seatedD [OF s p(1)] .
  have c: "\<not> inside c" "\<not> queued c" "inside (behind d)" "\<not> queued (behind d)" "queued d"
    using p(2) by (auto simp: inside_def queued_def)
  show ?thesis
  proof (cases "0 < sval (mutex s)")
    case True
    have "seated (phils s) ((pcs s)(p \<mapsto> behind d)) (firstPhil s)"
      using p(2) by (intro seated_goto [OF s a p(1)]) (auto simp: stuck_def)
    with phil.guarded_enter [OF g True p(1) c(3,4)] True show ?thesis by (simp add: table_inv_def waitMutex_def goto_def)
  next
    case False
    have "seated (phils s) ((pcs s)(p \<mapsto> d)) (firstPhil s)"
      using p(2) by (intro seated_goto [OF s a p(1)]) (auto simp: stuck_def)
    with phil.guarded_queue [OF g _ p(1) c(1,2,5)] False show ?thesis by (simp add: table_inv_def waitMutex_def goto_def)
  qed
qed

lemma post_inv:
  assumes i: "table_inv s" and p: "pcs s p = Some c" "c = TakePost \<and> d = ForkWait \<or> c = PutPost \<and> d = Begin"
  shows "\<exists>t. postMutex (goto p d s) = Some t \<and> table_inv t"
proof -
  from i have s: "seated (phils s) (pcs s) (firstPhil s)" and g: "guarded inside queued (mutex s) (pcs s)" by (auto simp: table_inv_def)
  obtain a where a: "phils s p = Some a" using seatedD [OF s p(1)] .
  have c: "inside c" "\<not> inside d" "\<not> queued d" using p(2) by (auto simp: inside_def queued_def)
  have s1: "seated (phils s) ((pcs s)(p \<mapsto> d)) (firstPhil s)"
    using p(2) by (intro seated_goto [OF s a p(1)]) (auto simp: stuck_def)
  show ?thesis
  proof (cases "squeue (mutex s)")
    case Nil
    with phil.guarded_leave [OF g Nil p(1) c] s1 show ?thesis by (simp add: postMutex_def goto_def table_inv_def)
  next
    case (Cons q qs)
    obtain e where e: "q \<noteq> p" "pcs s q = Some e" "queued e"
      "guarded inside queued ((mutex s)\<lparr>squeue := qs\<rparr>) ((pcs s)(p \<mapsto> d, q \<mapsto> behind e))"
      by (rule phil.guarded_next [OF g Cons p(1) c])
    obtain b where b: "phils s q = Some b" using seatedD [OF s e(2)] .
    have "seated (phils s) ((pcs s)(p \<mapsto> d, q \<mapsto> behind e)) (firstPhil s)"
      using e(1,2,3) by (intro seated_goto [OF s1 b, of e]) (auto simp: queued_def stuck_def)
    with e Cons show ?thesis by (simp add: postMutex_def goto_def wake_def table_inv_def)
  qed
qed

text \<open>What a test does: nothing, or the philosopher eats, and goes on if it was blocked.\<close>

definition fed :: "addr \<Rightarrow> point \<Rightarrow> philosopher_t \<Rightarrow> phylo_state \<Rightarrow> phylo_state" where
  "fed q c a s =
     (if c = ForkBlocked
      then goto q Meal (s\<lparr>phils := (phils s)(q \<mapsto> a\<lparr>pstate := EATING, own := (own a)\<lparr>squeue := []\<rparr>\<rparr>)\<rparr>)
      else s\<lparr>phils := (phils s)(q \<mapsto> a\<lparr>pstate := EATING, own := (own a)\<lparr>sval := sval (own a) + 1\<rparr>\<rparr>)\<rparr>)"

lemma test_cases:
  assumes s: "seated (phils s) (pcs s) (firstPhil s)" and q: "phils s q = Some a" "pcs s q = Some c"
  obtains l r where "phils s (left a) = Some l" "phils s (right a) = Some r"
    "test q s = Some (if pstate a = HUNGRY \<and> pstate l \<noteq> EATING \<and> pstate r \<noteq> EATING then fed q c a s else s)"
proof -
  obtain xs where "ring xs (phils s) (firstPhil s)" using s by (auto simp: seated_def)
  from ring_links [OF this q(1)] obtain l r where lr: "phils s (left a) = Some l" "phils s (right a) = Some r" by blast
  have "fit q c a" using s q by (auto simp: seated_def)
  then have "test q s = Some (if pstate a = HUNGRY \<and> pstate l \<noteq> EATING \<and> pstate r \<noteq> EATING then fed q c a s else s)"
    using lr q by (cases c) (auto simp: test_def modPhil_def postOwn_def wake_def fed_def goto_def split: list.split)
  with lr that show thesis by blast
qed

lemma test_other:
  assumes i: "table_inv s" and h: "pcs s p = Some c" "c = PutLeft \<or> c = PutRight" and q: "phils s q = Some a"
  shows "\<exists>t. test q s = Some t \<and> table_inv t \<and> pcs t p = Some c"
proof -
  from i have s: "seated (phils s) (pcs s) (firstPhil s)" and g: "guarded inside queued (mutex s) (pcs s)" by (auto simp: table_inv_def)
  obtain d where d: "pcs s q = Some d" using s q unfolding seated_def by (metis domD domI)
  obtain b where b: "phils s p = Some b" "fit p c b" using seatedD [OF s h(1)] .
  have fit: "fit q d a" using s q d by (auto simp: seated_def)
  obtain l r where t: "phils s (left a) = Some l" "phils s (right a) = Some r"
    "test q s = Some (if pstate a = HUNGRY \<and> pstate l \<noteq> EATING \<and> pstate r \<noteq> EATING then fed q d a s else s)"
    by (rule test_cases [OF s q d])
  show ?thesis
  proof (cases "pstate a = HUNGRY \<and> pstate l \<noteq> EATING \<and> pstate r \<noteq> EATING")
    case True
    have ne: "q \<noteq> p" using True b h(2) q by auto
    have "\<not> inside d" using phil.guarded_held(2) [OF g h(1) _ d] h(2) ne by (auto simp: inside_def)
    then have dc: "d = ForkWait \<or> d = ForkBlocked" using fit True by (cases d) (auto simp: inside_def split: if_splits)
    let ?a = "if d = ForkBlocked then a\<lparr>pstate := EATING, own := (own a)\<lparr>squeue := []\<rparr>\<rparr>
      else a\<lparr>pstate := EATING, own := (own a)\<lparr>sval := sval (own a) + 1\<rparr>\<rparr>"
    let ?d = "if d = ForkBlocked then Meal else d"
    have "seated ((phils s)(q \<mapsto> ?a)) ((pcs s)(q \<mapsto> ?d)) (firstPhil s)"
      by (rule seated_upd [OF s q d]) (use t True fit dc in \<open>auto simp: stuck_def\<close>)
    moreover have "guarded inside queued (mutex s) ((pcs s)(q \<mapsto> ?d))"
      using phil.guarded_move [OF g d, of ?d] dc by (auto simp: inside_def queued_def)
    moreover have "phils (fed q d a s) = (phils s)(q \<mapsto> ?a)" "pcs (fed q d a s) = (pcs s)(q \<mapsto> ?d)"
      "mutex (fed q d a s) = mutex s" "firstPhil (fed q d a s) = firstPhil s"
      using d by (auto simp: fed_def goto_def fun_upd_idem)
    ultimately have "table_inv (fed q d a s)" "pcs (fed q d a s) p = Some c" using ne h(1) by (auto simp: table_inv_def)
    with t(3) True show ?thesis by simp
  next
    case False
    with t(3) i h(1) show ?thesis by simp
  qed
qed

lemma goto_inv:
  assumes "table_inv s" "pcs s p = Some c" "inside d = inside c" "queued d = queued c"
    "\<And>a. fit p c a \<Longrightarrow> fit p d a" "\<And>a. stuck d a \<Longrightarrow> stuck c a"
  shows "table_inv (goto p d s)"
proof -
  from assms(1) have s: "seated (phils s) (pcs s) (firstPhil s)" and g: "guarded inside queued (mutex s) (pcs s)" by (auto simp: table_inv_def)
  obtain a where a: "phils s p = Some a" using seatedD [OF s assms(2)] .
  show ?thesis using seated_goto [OF s a assms(2) assms(5,6)] phil.guarded_move [OF g assms(2-4)] by (simp add: table_inv_def goto_def)
qed

lemma local_inv:
  assumes i: "table_inv s" and p: "pcs s p = Some c" "phils s p = Some a" "inside d = inside c" "queued d = queued c"
    and a': "left a' = left a" "right a' = right a" "fit p d a'"
      "pstate a' = EATING \<Longrightarrow> pstate a = EATING" "stuck d a' \<Longrightarrow> stuck c a"
  shows "table_inv (goto p d (s\<lparr>phils := (phils s)(p \<mapsto> a')\<rparr>))"
proof -
  from i have s: "seated (phils s) (pcs s) (firstPhil s)" and g: "guarded inside queued (mutex s) (pcs s)" by (auto simp: table_inv_def)
  show ?thesis using seated_upd [OF s p(2,1) a'(1-3)] a'(4,5) phil.guarded_move [OF g p(1,3,4)] by (simp add: table_inv_def goto_def)
qed

lemma take_test_inv:
  assumes i: "table_inv s" and p: "pcs s p = Some TakeTest"
  shows "\<exists>t. philosopher p s = Some t \<and> table_inv t"
proof -
  from i have s: "seated (phils s) (pcs s) (firstPhil s)" and g: "guarded inside queued (mutex s) (pcs s)" by (auto simp: table_inv_def)
  obtain a where a: "phils s p = Some a" "fit p TakeTest a" using seatedD [OF s p] .
  obtain l r where t: "phils s (left a) = Some l" "phils s (right a) = Some r"
    "test p s = Some (if pstate a = HUNGRY \<and> pstate l \<noteq> EATING \<and> pstate r \<noteq> EATING then fed p TakeTest a s else s)"
    by (rule test_cases [OF s a(1) p])
  have g': "guarded inside queued (mutex s) ((pcs s)(p \<mapsto> TakePost))"
    using phil.guarded_move [OF g p, of TakePost] by (simp add: inside_def queued_def)
  show ?thesis
  proof (cases "pstate l = EATING \<or> pstate r = EATING")
    case True
    have "\<exists>q b d. q \<noteq> p \<and> phils s q = Some b \<and> pcs s q = Some d \<and> \<not> stuck d b"
    proof -
      obtain q b where q: "phils s q = Some b" "pstate b = EATING" using True t(1,2) by blast
      moreover obtain d where "pcs s q = Some d" using s q unfolding seated_def by (metis domD domI)
      moreover have "q \<noteq> p" using q a by auto
      ultimately show ?thesis by (intro exI [of _ q] exI [of _ b] exI [of _ d]) (simp add: stuck_def)
    qed
    then have "seated ((phils s)(p \<mapsto> a)) ((pcs s)(p \<mapsto> TakePost)) (firstPhil s)"
      using a by (intro seated_upd [OF s a(1) p]) auto
    then have "table_inv (goto p TakePost s)" using g' a(1) by (simp add: table_inv_def goto_def fun_upd_idem)
    moreover have "philosopher p s = Some (goto p TakePost s)" using t(3) True p by (auto simp: philosopher_def take_fork_def)
    ultimately show ?thesis by blast
  next
    case False
    let ?a = "a\<lparr>pstate := EATING, own := (own a)\<lparr>sval := sval (own a) + 1\<rparr>\<rparr>"
    have "seated ((phils s)(p \<mapsto> ?a)) ((pcs s)(p \<mapsto> TakePost)) (firstPhil s)"
      using a False t by (intro seated_upd [OF s a(1) p]) (auto simp: stuck_def)
    then have "table_inv (goto p TakePost (fed p TakeTest a s))" using g' by (simp add: table_inv_def goto_def fed_def)
    moreover have "philosopher p s = Some (goto p TakePost (fed p TakeTest a s))"
      using t(3) False p a(2) by (simp add: philosopher_def take_fork_def)
    ultimately show ?thesis by blast
  qed
qed

text \<open>Every step keeps the invariant, and a process that is not blocked can take one.\<close>

lemma step_inv:
  assumes i: "table_inv s" and p: "pcs s p = Some c" and b: "c \<notin> {TakeWait, ForkBlocked, PutWait}"
  shows "\<exists>t. philosopher p s = Some t \<and> table_inv t"
proof -
  from i have s: "seated (phils s) (pcs s) (firstPhil s)" and g: "guarded inside queued (mutex s) (pcs s)" by (auto simp: table_inv_def)
  obtain a where a: "phils s p = Some a" "fit p c a" using seatedD [OF s p] .
  obtain l r where lr: "phils s (left a) = Some l" "phils s (right a) = Some r" by (rule test_cases [OF s a(1) p])
  note d = philosopher_def take_fork_def put_fork_def
  show ?thesis
  proof (cases c)
    case Begin
    with wait_inv [OF i p, of TakeWait] p show ?thesis by (simp add: d)
  next
    case Meal
    with wait_inv [OF i p, of PutWait] p show ?thesis by (simp add: d)
  next
    case TakePost
    with post_inv [OF i p, of ForkWait] p show ?thesis by (simp add: d)
  next
    case PutPost
    with post_inv [OF i p, of Begin] p show ?thesis by (simp add: d)
  next
    case TakeTest
    with take_test_inv [OF i] p show ?thesis by simp
  next
    case TakeHungry
    have "table_inv (goto p TakeTest (s\<lparr>phils := (phils s)(p \<mapsto> a\<lparr>pstate := HUNGRY\<rparr>)\<rparr>))"
      using a TakeHungry by (intro local_inv [OF i p a(1)]) (auto simp: inside_def queued_def stuck_def)
    then show ?thesis using p a(1) TakeHungry by (simp add: d modPhil_def)
  next
    case PutThinking
    have "table_inv (goto p PutLeft (s\<lparr>phils := (phils s)(p \<mapsto> a\<lparr>pstate := THINKING\<rparr>)\<rparr>))"
      using a PutThinking by (intro local_inv [OF i p a(1)]) (auto simp: inside_def queued_def stuck_def)
    then show ?thesis using p a(1) PutThinking by (simp add: d modPhil_def)
  next
    case ForkWait
    let ?m = "if 0 < sval (own a) then a\<lparr>own := (own a)\<lparr>sval := sval (own a) - 1\<rparr>\<rparr>
      else a\<lparr>own := (own a)\<lparr>squeue := squeue (own a) @ [p]\<rparr>\<rparr>"
    let ?d = "if 0 < sval (own a) then Meal else ForkBlocked"
    have "table_inv (goto p ?d (s\<lparr>phils := (phils s)(p \<mapsto> ?m)\<rparr>))"
      using a ForkWait by (intro local_inv [OF i p a(1)]) (auto simp: inside_def queued_def stuck_def)
    then show ?thesis using p a(1) ForkWait by (auto simp: d waitOwn_def modPhil_def split: if_splits)
  next
    case PutLeft
    obtain t where t: "test (left a) s = Some t" "table_inv t" "pcs t p = Some PutLeft"
      using test_other [OF i p _ lr(1)] PutLeft by auto
    have "table_inv (goto p PutRight t)" using t by (intro goto_inv) (auto simp: inside_def queued_def stuck_def)
    then show ?thesis using p a(1) PutLeft t(1) by (simp add: d)
  next
    case PutRight
    obtain t where t: "test (right a) s = Some t" "table_inv t" "pcs t p = Some PutRight"
      using test_other [OF i p _ lr(2)] PutRight by auto
    have "table_inv (goto p PutPost t)" using t by (intro goto_inv) (auto simp: inside_def queued_def stuck_def)
    then show ?thesis using p a(1) PutRight t(1) by (simp add: d)
  qed (use b in auto)
qed

end
