(* ===== verification/Phylo_Table.thy ===== *)
theory Phylo_Table
  imports Phylo_Props
begin

text \<open>
  The ring that \<open>phylo\<close> builds and \<open>addPhilo\<close> extends, the states that can be reached, and the
  properties of the dining philosophers.
\<close>

section \<open>Building the ring\<close>

definition chain :: "addr list \<Rightarrow> phylo_state \<Rightarrow> bool" where
  "chain xs s \<longleftrightarrow> xs \<noteq> [] \<and> distinct xs \<and> dom (phils s) = set xs \<and> firstPhil s = hd xs \<and>
     (\<forall>i < length xs. phils s (xs ! i) = Some (newPhil
        \<lparr>left := if i = 0 then NULL else xs ! (i - 1), right := if Suc i < length xs then xs ! Suc i else NULL\<rparr>))"

lemma last_nth: "xs \<noteq> [] \<Longrightarrow> last xs = xs ! (length xs - 1)"
  by (simp add: last_conv_nth)

lemma newPhil_simps [simp]: "pstate newPhil = THINKING" "own newPhil = \<lparr>sval = 0, squeue = []\<rparr>"
  "left newPhil = NULL" "right newPhil = NULL"
  by (simp_all add: newPhil_def)

lemma chain_snoc:
  assumes c: "chain xs s" and q: "q \<notin> set xs" "q \<noteq> NULL" "NULL \<notin> set xs"
  shows "\<exists>t. phyloLoop (q # qs) (last xs) s = phyloLoop qs q t \<and> chain (xs @ [q]) t \<and> mutex t = mutex s \<and> pcs t = pcs s"
proof -
  let ?n = "length xs" and ?l = "last xs"
  from c have xs: "xs \<noteq> []" "distinct xs" "dom (phils s) = set xs" "firstPhil s = hd xs" by (auto simp: chain_def)
  have l0: "?l \<in> set xs" using xs(1) by simp
  have l: "?l \<in> set xs" "?l \<noteq> NULL" "?l \<noteq> q" using l0 q by metis+
  obtain a where a: "phils s ?l = Some a" "a = newPhil\<lparr>left := if ?n - 1 = 0 then NULL else xs ! (?n - 1 - 1)\<rparr>"
  proof -
    have n: "?n - 1 < ?n" "\<not> Suc (?n - 1) < ?n" using xs(1) by auto
    have "\<forall>i < ?n. phils s (xs ! i) = Some (newPhil
        \<lparr>left := if i = 0 then NULL else xs ! (i - 1), right := if Suc i < ?n then xs ! Suc i else NULL\<rparr>)"
      using c unfolding chain_def by (elim conjE)
    from this [rule_format, OF n(1)] n(2) show thesis
      by (intro that [OF _ refl]) (simp only: last_nth [OF xs(1)] if_False newPhil_def philosopher_t.update_convs)
  qed
  let ?t = "s\<lparr>phils := (phils s)(q \<mapsto> newPhil\<lparr>left := ?l\<rparr>, ?l \<mapsto> a\<lparr>right := q\<rparr>)\<rparr>"
  have "firstPhil s \<noteq> NULL" using xs q(3) by (metis hd_in_set)
  then have "phyloLoop (q # qs) ?l s = phyloLoop qs q ?t" using l a(1) by (simp add: modPhil_def)
  moreover have "chain (xs @ [q]) ?t"
    unfolding chain_def
  proof (intro conjI allI impI)
    fix i assume i: "i < length (xs @ [q])"
    have nl: "xs ! j \<noteq> ?l" if "Suc j < ?n" for j
      using that xs by (auto simp: last_nth nth_eq_iff_index_eq)
    have nq: "xs ! j \<noteq> q" if "j < ?n" for j using that q(1) nth_mem by blast
    consider "i = ?n" | "Suc i = ?n" | "Suc i < ?n" using i by fastforce
    then show "phils ?t ((xs @ [q]) ! i) = Some (newPhil\<lparr>left := if i = 0 then NULL else (xs @ [q]) ! (i - 1),
        right := if Suc i < length (xs @ [q]) then (xs @ [q]) ! Suc i else NULL\<rparr>)"
    proof cases
      case 1
      then show ?thesis using l xs(1) by (simp add: nth_append last_nth newPhil_def)
    next
      case 2
      then have i: "i = ?n - 1" "\<not> Suc i < ?n" by simp_all
      then have "xs ! i = ?l" by (simp add: last_nth [OF xs(1)])
      moreover have "?n - Suc (Suc 0) < ?n" using xs(1) by simp
      ultimately show ?thesis using 2 i a(2) l(3) by (simp add: nth_append newPhil_def)
    next
      case 3
      then show ?thesis using c nl [OF 3] nq [of i] by (auto simp: nth_append chain_def)
    qed
  qed (use xs q l in auto)
  ultimately show ?thesis by (intro exI [of _ ?t]) simp
qed

lemma phyloLoop_chain:
  assumes "chain xs s" "distinct (xs @ qs)" "NULL \<notin> set (xs @ qs)"
  shows "\<exists>t. phyloLoop qs (last xs) s = Some (last (xs @ qs), t) \<and> chain (xs @ qs) t \<and> mutex t = mutex s \<and> pcs t = pcs s"
  using assms
proof (induction qs arbitrary: xs s)
  case Nil
  then show ?case by simp
next
  case (Cons q qs)
  obtain t where t: "phyloLoop (q # qs) (last xs) s = phyloLoop qs q t" "chain (xs @ [q]) t" "mutex t = mutex s" "pcs t = pcs s"
    using chain_snoc [OF Cons.prems(1), of q qs] Cons.prems(2,3) by auto
  with Cons.IH [OF t(2)] Cons.prems(2,3) show ?case by auto
qed

lemma ringI_close:
  assumes "chain xs s" and f: "phils s (hd xs) = Some a" and l: "((phils s)(hd xs \<mapsto> a\<lparr>left := last xs\<rparr>)) (last xs) = Some b"
  shows "ring xs ((phils s)(hd xs \<mapsto> a\<lparr>left := last xs\<rparr>, last xs \<mapsto> b\<lparr>right := hd xs\<rparr>)) (hd xs)"
    "\<And>x. x \<in> set xs \<Longrightarrow> \<exists>c. ((phils s)(hd xs \<mapsto> a\<lparr>left := last xs\<rparr>, last xs \<mapsto> b\<lparr>right := hd xs\<rparr>)) x = Some c \<and> fit x Begin c"
proof -
  let ?n = "length xs" and ?ph = "(phils s)(hd xs \<mapsto> a\<lparr>left := last xs\<rparr>, last xs \<mapsto> b\<lparr>right := hd xs\<rparr>)"
  from assms have xs: "xs \<noteq> []" "distinct xs" "dom (phils s) = set xs" by (auto simp: chain_def)
  have n: "0 < ?n" using xs(1) by simp
  have c: "phils s (xs ! i) = Some (newPhil\<lparr>left := if i = 0 then NULL else xs ! (i - 1), right := if Suc i < ?n then xs ! Suc i else NULL\<rparr>)"
    if "i < ?n" for i using assms(1) that by (auto simp: chain_def)
  have hl: "hd xs = xs ! 0" "last xs = xs ! (?n - 1)" using xs(1) by (simp_all add: hd_conv_nth last_nth)
  have eq: "xs ! i = xs ! j \<longleftrightarrow> i = j" if "i < ?n" "j < ?n" for i j using that xs(2) by (simp add: nth_eq_iff_index_eq)
  have at: "?ph (xs ! i) = Some (newPhil\<lparr>left := xs ! ((i + ?n - 1) mod ?n), right := xs ! (Suc i mod ?n)\<rparr>)" if i: "i < ?n" for i
  proof -
    have m: "Suc i mod ?n = (if Suc i = ?n then 0 else Suc i)" "(i + ?n - 1) mod ?n = (if i = 0 then ?n - 1 else i - 1)"
      using i by (auto simp: mod_if)
    have a: "a = newPhil\<lparr>right := if 1 < ?n then xs ! 1 else NULL\<rparr>" using f c [of 0] n hl(1) by (simp add: newPhil_def)
    have b: "b = newPhil\<lparr>left := xs ! ((?n - 1 + ?n - 1) mod ?n)\<rparr>"
    proof (cases "?n = 1")
      case True
      then show ?thesis using l hl a by (simp add: newPhil_def)
    next
      case False
      then have "hd xs \<noteq> last xs" using eq [of 0 "?n - 1"] n hl by auto
      then show ?thesis using l c [of "?n - 1"] hl False n by (simp add: newPhil_def mod_if numeral_2_eq_2)
    qed
    show ?thesis
    proof (cases "Suc i = ?n")
      case True
      then have i: "i = ?n - 1" by simp
      then have "xs ! i = last xs" using hl by simp
      then show ?thesis using b m True hl i by simp
    next
      case False
      then have "xs ! i \<noteq> last xs" using eq [of i "?n - 1"] i hl by auto
      then show ?thesis using a m False hl c [OF i] eq [of i 0] i n by (auto simp: newPhil_def)
    qed
  qed
  have "dom ?ph = set xs" using xs by auto
  then show "ring xs ?ph (hd xs)" unfolding ring_def using xs at by auto
  show "\<exists>c. ?ph x = Some c \<and> fit x Begin c" if x: "x \<in> set xs" for x
  proof -
    obtain i where "i < ?n" "x = xs ! i" using x by (auto simp: in_set_conv_nth)
    with at [of i] show ?thesis by (simp del: fun_upd_apply)
  qed
qed

lemma startLoop_ring:
  assumes "ring xs (phils s) (firstPhil s)" "i < length xs"
  shows "startLoop (xs ! i) s = Some (s\<lparr>pcs := (\<lambda>x. if x \<in> set (drop i xs) then Some Begin else pcs s x)\<rparr>)"
  using assms
proof (induction "length xs - i" arbitrary: i s)
  case 0
  then show ?case by simp
next
  case (Suc k)
  from Suc.prems obtain a where a: "phils s (xs ! i) = Some a" "right a = xs ! (Suc i mod length xs)"
    "firstPhil s = xs ! 0" by (auto simp: ring_def hd_conv_nth)
  have d: "drop i xs = xs ! i # drop (Suc i) xs" using Suc.prems(2) by (simp add: Cons_nth_drop_Suc)
  show ?case
  proof (cases "Suc i = length xs")
    case True
    then have "right a = firstPhil s" using a by simp
    then have "startLoop (xs ! i) s = Some (goto (xs ! i) Begin s)" using a(1) by (subst startLoop.simps) (simp add: goto_def)
    moreover have "drop (Suc i) xs = []" using True by simp
    ultimately show ?thesis using d by (auto simp: goto_def fun_eq_iff)
  next
    case False
    then have i: "Suc i < length xs" using Suc.prems(2) by simp
    then have r: "right a = xs ! Suc i" "right a \<noteq> firstPhil s"
      using a Suc.prems(1) nth_eq_iff_index_eq [of xs "Suc i" 0] by (auto simp: ring_def)
    have "ring xs (phils (goto (xs ! i) Begin s)) (firstPhil (goto (xs ! i) Begin s))" using Suc.prems(1) by (simp add: goto_def)
    from Suc.hyps(1) [OF _ this i] Suc.hyps(2) have "startLoop (xs ! Suc i) (goto (xs ! i) Begin s) =
        Some ((goto (xs ! i) Begin s)\<lparr>pcs := (\<lambda>x. if x \<in> set (drop (Suc i) xs) then Some Begin else pcs (goto (xs ! i) Begin s) x)\<rparr>)"
      by simp
    moreover have "startLoop (xs ! i) s = startLoop (xs ! Suc i) (goto (xs ! i) Begin s)"
      using a(1) r by (subst startLoop.simps) (simp add: goto_def)
    ultimately show ?thesis using d by (auto simp: goto_def fun_eq_iff)
  qed
qed

text \<open>What \<open>phylo\<close> leaves when it has started its philosophers.\<close>

lemma phylo_setup_inv:
  assumes "mem \<noteq> []" "distinct mem" "NULL \<notin> set mem" "phils s = Map.empty" "firstPhil s = NULL" "pcs s = Map.empty"
  shows "\<exists>t. phylo_setup mem s = Some t \<and> table_inv t \<and> ring mem (phils t) (firstPhil t)"
proof -
  obtain x xs where m: "mem = x # xs" using assms(1) by (cases mem) auto
  let ?s0 = "s\<lparr>mutex := \<lparr>sval = 1, squeue = []\<rparr>, phils := [x \<mapsto> newPhil], firstPhil := x\<rparr>"
  have c0: "chain [x] ?s0" by (simp add: chain_def newPhil_def)
  obtain t where t: "phyloLoop xs x ?s0 = Some (last mem, t)" "chain mem t" "mutex t = \<lparr>sval = 1, squeue = []\<rparr>" "pcs t = Map.empty"
    using phyloLoop_chain [OF c0, of xs] assms(2,3,6) by (auto simp: m)
  have l: "phyloLoop mem NULL (s\<lparr>mutex := \<lparr>sval = 1, squeue = []\<rparr>\<rparr>) = Some (last mem, t)"
    using t(1) assms(4,5) by (simp add: m)
  from t(2) have f: "firstPhil t = hd mem" "hd mem \<in> dom (phils t)" "last mem \<in> dom (phils t)" using assms(1) by (auto simp: chain_def)
  obtain a where a: "phils t (hd mem) = Some a" using f(2) by blast
  obtain b where b: "((phils t)(hd mem \<mapsto> a\<lparr>left := last mem\<rparr>)) (last mem) = Some b"
    using f(3) by (cases "last mem = hd mem") auto
  define ph where "ph = (phils t)(hd mem \<mapsto> a\<lparr>left := last mem\<rparr>, last mem \<mapsto> b\<lparr>right := hd mem\<rparr>)"
  note cl = ringI_close [OF t(2) a b, folded ph_def]
  let ?u = "t\<lparr>phils := ph\<rparr>"
  let ?v = "?u\<lparr>pcs := (\<lambda>x. if x \<in> set mem then Some Begin else None)\<rparr>"
  have ru: "ring mem (phils ?u) (firstPhil ?u)" using cl(1) f(1) by simp
  have "hd mem = mem ! 0" using assms(1) by (simp add: hd_conv_nth)
  then have ld: "startLoop (hd mem) ?u = Some ?v" using startLoop_ring [OF ru, of 0] assms(1) t(4) by (simp cong: if_cong)
  have "phylo_setup mem s = Some ?v"
    using l a b ld f(1) by (cases "last mem = hd mem") (auto simp: phylo_setup_def modPhil_def ph_def)
  moreover have "table_inv ?v"
  proof -
    have dm: "dom ph = set mem" using cl(1) by (simp add: ring_def)
    have one: "\<exists>p a c. ph p = Some a \<and> pcs ?v p = Some c \<and> \<not> stuck c a"
      using cl(2) [of x] by (auto simp: m stuck_def)
    have ft: "fit x Begin a" if "ph x = Some a" for x a
    proof -
      have "x \<in> set mem" using dm that by blast
      with cl(2) that show ?thesis by force
    qed
    then have "apart ph" unfolding apart_def by force
    then have "seated ph (pcs ?v) (firstPhil ?v)" unfolding seated_def
      using ru dm ft one by (auto simp: dom_def split: if_splits)
    moreover have "guarded inside queued (mutex ?v) (pcs ?v)" using t(3) by (auto simp: guarded_def inside_def queued_def)
    ultimately show ?thesis by (simp add: table_inv_def)
  qed
  ultimately show ?thesis using ru by auto
qed

section \<open>Joining\<close>

lemma ring_join:
  assumes r: "ring xs ph f" and new: "ph new = None" and a: "ph f = Some a"
    and l: "(ph(new \<mapsto> b)) (left a) = Some c" and b: "left b = left a" "right b = f"
    and a': "(ph(new \<mapsto> b, left a \<mapsto> c\<lparr>right := new\<rparr>)) f = Some a'"
  shows "ring (xs @ [new]) (ph(new \<mapsto> b, left a \<mapsto> c\<lparr>right := new\<rparr>, f \<mapsto> a'\<lparr>left := new\<rparr>)) f"
proof -
  let ?n = "length xs" and ?ph = "ph(new \<mapsto> b, left a \<mapsto> c\<lparr>right := new\<rparr>, f \<mapsto> a'\<lparr>left := new\<rparr>)"
  from r have xs: "xs \<noteq> []" "distinct xs" "dom ph = set xs" "f = hd xs" by (auto simp: ring_def)
  have at: "\<exists>a. ph (xs ! i) = Some a \<and> right a = xs ! (Suc i mod ?n) \<and> left a = xs ! ((i + ?n - 1) mod ?n)" if "i < ?n" for i
    using r that by (auto simp: ring_def)
  have n: "0 < ?n" using xs(1) by simp
  have eq: "xs ! i = xs ! j \<longleftrightarrow> i = j" if "i < ?n" "j < ?n" for i j using that xs(2) by (simp add: nth_eq_iff_index_eq)
  have nw: "new \<notin> set xs" using new xs(3) by auto
  have f: "f = xs ! 0" using xs by (simp add: hd_conv_nth)
  have la: "left a = xs ! (?n - 1)" using at [of 0] a f n by auto
  have ne: "xs ! i \<noteq> new" if "i < ?n" for i using nw that nth_mem by metis
  have nl: "left a \<noteq> new" "f \<noteq> new" using la f ne n by auto
  have c: "ph (xs ! (?n - 1)) = Some c" using l la nl by auto
  have prv: "(i + ?n - 1) mod ?n = i - 1" "(i + ?n) mod Suc ?n = i - 1" if i: "0 < i" "i < ?n" for i
  proof -
    have "i - 1 < ?n" "i - 1 < Suc ?n" using i by simp_all
    then have "((i - 1) + ?n) mod ?n = i - 1" "((i - 1) + Suc ?n) mod Suc ?n = i - 1" by (simp_all only: mod_add_self2 mod_less)
    moreover have "(i - 1) + ?n = i + ?n - 1" "(i - 1) + Suc ?n = i + ?n" using i by simp_all
    ultimately show "(i + ?n - 1) mod ?n = i - 1" "(i + ?n) mod Suc ?n = i - 1" by argo+
  qed
  show ?thesis
    unfolding ring_def
  proof (intro conjI allI impI)
    show "dom ?ph = set (xs @ [new])" using xs(3) la f n nw by auto
    fix i assume i: "i < length (xs @ [new])"
    consider "i = ?n" | "i = 0" "?n = 1" | "i = 0" "1 < ?n" | "0 < i" "i < ?n - 1" | "0 < i" "i = ?n - 1"
    proof -
      have "i \<le> ?n" using i by simp
      then have "i = ?n \<or> i = 0 \<and> ?n = 1 \<or> i = 0 \<and> 1 < ?n \<or> 0 < i \<and> i < ?n - 1 \<or> 0 < i \<and> i = ?n - 1"
        using n by linarith
      with that show thesis by blast
    qed
    then show "\<exists>x. ?ph ((xs @ [new]) ! i) = Some x \<and> right x = (xs @ [new]) ! (Suc i mod length (xs @ [new])) \<and>
        left x = (xs @ [new]) ! ((i + length (xs @ [new]) - 1) mod length (xs @ [new]))"
    proof cases
      case 1
      have "?n + ?n = (?n - 1) + Suc ?n" using n by simp
      then have "(?n + ?n) mod Suc ?n = ?n - 1" by (simp only: mod_add_self2) simp
      then show ?thesis using 1 nl b la f n by (simp add: nth_append)
    next
      case 2
      then have "left a = f" using la f by simp
      then show ?thesis using 2 a' f by (auto simp: nth_append)
    next
      case 3
      have "xs ! (?n - 1) \<noteq> xs ! 0" using 3 by (subst eq) auto
      then have "left a \<noteq> f" using la f by simp
      then have "a' = a" using a' a nl by auto
      then show ?thesis using 3 at [of 0] a f by (auto simp: nth_append)
    next
      case 4
      have "xs ! i \<noteq> xs ! (?n - 1)" "xs ! i \<noteq> xs ! 0" using 4 n by (subst eq; simp)+
      then have o: "xs ! i \<noteq> left a" "xs ! i \<noteq> f" using la f by simp_all
      have lt: "i < ?n" "Suc i < ?n" "i - 1 < ?n" using 4 by simp_all
      obtain x where x: "ph (xs ! i) = Some x" "right x = xs ! (Suc i mod ?n)" "left x = xs ! ((i + ?n - 1) mod ?n)"
        using at [OF lt(1)] by blast
      have m: "(i + length (xs @ [new]) - 1) mod length (xs @ [new]) = i - 1" "Suc i mod length (xs @ [new]) = Suc i" "Suc i mod ?n = Suc i"
        using prv(2) [OF 4(1) lt(1)] lt by simp_all
      have nt: "(xs @ [new]) ! i = xs ! i" "(xs @ [new]) ! Suc i = xs ! Suc i" "(xs @ [new]) ! (i - 1) = xs ! (i - 1)"
        using lt by (simp_all add: nth_append)
      have "?ph (xs ! i) = Some x" using o ne [OF lt(1)] x(1) by simp
      with x(2,3) show ?thesis unfolding m nt prv(1) [OF 4(1) lt(1)] by blast
    next
      case 5
      have "xs ! i \<noteq> xs ! 0" using 5 n by (subst eq) auto
      then have o: "xs ! i = left a" "xs ! i \<noteq> f" using la f 5 by simp_all
      have lt: "i < ?n" "i - 1 < ?n" using 5 by simp_all
      have lc: "left c = xs ! ((i + ?n - 1) mod ?n)" using at [OF lt(1)] 5 c by auto
      have m: "(i + length (xs @ [new]) - 1) mod length (xs @ [new]) = i - 1" "Suc i mod length (xs @ [new]) = ?n"
        using prv(2) [OF 5(1) lt(1)] 5 by simp_all
      have nt: "(xs @ [new]) ! i = xs ! i" "(xs @ [new]) ! ?n = new" "(xs @ [new]) ! (i - 1) = xs ! (i - 1)"
        using lt by (simp_all add: nth_append)
      have "?ph (xs ! i) = Some (c\<lparr>right := new\<rparr>)" using o by simp
      with lc show ?thesis unfolding m nt prv(1) [OF 5(1) lt(1)] by simp
    qed
  qed (use xs nw in auto)
qed

lemma apart_join:
  assumes r: "ring xs ph f" "ring ys ph' f" and p: "apart ph"
    and new: "\<And>b. ph' new = Some b \<Longrightarrow> pstate b = THINKING"
    and old: "\<And>q b. q \<noteq> new \<Longrightarrow> ph' q = Some b \<Longrightarrow> \<exists>a. ph q = Some a \<and> pstate a = pstate b \<and> (right b = right a \<or> right b = new)"
  shows "apart ph'"
  unfolding apart_def
proof (intro allI impI)
  fix q b c
  assume q: "ph' q = Some b" "ph' (right b) = Some c" "right b \<noteq> q"
  show "\<not> (pstate b = EATING \<and> pstate c = EATING)"
  proof (cases "q = new \<or> right b = new")
    case True
    then show ?thesis using new q by auto
  next
    case False
    obtain a where a: "ph q = Some a" "pstate a = pstate b" "right b = right a" using old [of q b] q(1) False by auto
    obtain d where "ph (right b) = Some d" "pstate d = pstate c" using old [of "right b" c] q(2) False by auto
    with a q(3) p show ?thesis unfolding apart_def by metis
  qed
qed

lemma add_inv:
  assumes i: "table_inv s" and new: "phils s new = None"
  shows "\<exists>t. addPhilo new s = Some t \<and> table_inv t"
proof -
  from i obtain xs where r: "ring xs (phils s) (firstPhil s)" by (auto simp: table_inv_def seated_def)
  from i have s: "seated (phils s) (pcs s) (firstPhil s)" and g: "guarded inside queued (mutex s) (pcs s)" by (auto simp: table_inv_def)
  let ?f = "firstPhil s"
  have "?f \<in> dom (phils s)" using r by (auto simp: ring_def)
  then obtain a where a: "phils s ?f = Some a" by blast
  obtain l where l: "phils s (left a) = Some l" "right l = ?f" using ring_links(1) [OF r a] by blast
  let ?b = "newPhil\<lparr>left := left a, right := ?f\<rparr>"
  have ne: "left a \<noteq> new" "?f \<noteq> new" using l(1) a new by auto
  have c: "((phils s)(new \<mapsto> ?b)) (left a) = Some l" using l ne by simp
  obtain a' where a': "((phils s)(new \<mapsto> ?b, left a \<mapsto> l\<lparr>right := new\<rparr>)) ?f = Some a'"
    "pstate a' = pstate a" "own a' = own a" "left a = ?f \<and> right a' = new \<or> a' = a"
    using a ne l by (cases "left a = ?f") auto
  let ?ph = "(phils s)(new \<mapsto> ?b, left a \<mapsto> l\<lparr>right := new\<rparr>, ?f \<mapsto> a'\<lparr>left := new\<rparr>)"
  let ?t = "goto new Begin (s\<lparr>phils := ?ph\<rparr>)"
  have run: "addPhilo new s = Some ?t"
    using a c a'(1) l(1) ne by (cases "left a = ?f") (auto simp: addPhilo_def modPhil_def)
  have r': "ring (xs @ [new]) ?ph ?f" using ring_join [OF r new a c _ _ a'(1)] by (simp add: newPhil_def)
  have pn: "pcs s new = None" using s new unfolding seated_def by auto
  have old: "\<exists>x. phils s q = Some x \<and> pstate x = pstate b \<and> own x = own b \<and> (right b = right x \<or> right b = new)"
    if "q \<noteq> new" "?ph q = Some b" for q b
    using that a'(2-4) a l by (auto split: if_splits simp: fun_upd_def)
  have ap: "apart ?ph"
  proof (rule apart_join [OF r r', of new])
    show "apart (phils s)" using s by (simp add: seated_def)
    show "\<exists>x. phils s q = Some x \<and> pstate x = pstate b \<and> (right b = right x \<or> right b = new)" if "q \<noteq> new" "?ph q = Some b" for q b
      using old [OF that] by blast
  qed (use ne in \<open>auto simp: newPhil_def\<close>)
  have fits: "fit q d b" if h: "?ph q = Some b" "((pcs s)(new \<mapsto> Begin)) q = Some d" for q b d
  proof (cases "q = new")
    case True
    then show ?thesis using h ne by (auto simp: newPhil_def)
  next
    case False
    then obtain x where "phils s q = Some x" "pstate x = pstate b" "own x = own b" using old [OF _ h(1)] by auto
    then show ?thesis using s h(2) False unfolding seated_def by (metis fun_upd_other)
  qed
  have "?ph new = Some ?b" using ne by auto
  then have one: "\<exists>p b d. ?ph p = Some b \<and> ((pcs s)(new \<mapsto> Begin)) p = Some d \<and> \<not> stuck d b"
    by (intro exI [of _ new] exI [of _ ?b] exI [of _ Begin]) (simp add: stuck_def)
  have dm: "dom ((pcs s)(new \<mapsto> Begin)) = dom ?ph" using s r' r by (auto simp: seated_def ring_def)
  have "seated ?ph ((pcs s)(new \<mapsto> Begin)) ?f" unfolding seated_def using r' dm fits ap one by blast
  moreover have "guarded inside queued (mutex s) ((pcs s)(new \<mapsto> Begin))"
    using phil.guarded_new [OF g pn, of Begin] by (simp add: inside_def queued_def)
  ultimately show ?thesis using run by (simp add: table_inv_def goto_def)
qed

section \<open>Reachable states\<close>

text \<open>From the start with any records, the processes take steps in any order, and the first process of the
  program adds philosophers at any time.\<close>

inductive phylo_reach :: "phylo_state \<Rightarrow> bool" where
  start: "mem \<noteq> [] \<Longrightarrow> distinct mem \<Longrightarrow> NULL \<notin> set mem \<Longrightarrow> phils s = Map.empty \<Longrightarrow> firstPhil s = NULL \<Longrightarrow>
    pcs s = Map.empty \<Longrightarrow> phylo_setup mem s = Some t \<Longrightarrow> phylo_reach t"
| step: "phylo_reach s \<Longrightarrow> philosopher p s = Some t \<Longrightarrow> phylo_reach t"
| add: "phylo_reach s \<Longrightarrow> phils s new = None \<Longrightarrow> addPhilo new s = Some t \<Longrightarrow> phylo_reach t"

lemma blocked: "philosopher p s = Some t \<Longrightarrow> \<exists>c. pcs s p = Some c \<and> c \<notin> {TakeWait, ForkBlocked, PutWait}"
  by (cases "pcs s p") (auto simp: philosopher_def take_fork_def put_fork_def split: if_splits)

lemma reach_inv: "phylo_reach s \<Longrightarrow> table_inv s"
proof (induction rule: phylo_reach.induct)
  case (start mem s t)
  then show ?case using phylo_setup_inv [of mem s] by auto
next
  case (step s p t)
  from blocked [OF step.hyps(2)] obtain c where "pcs s p = Some c" "c \<notin> {TakeWait, ForkBlocked, PutWait}" by blast
  from step_inv [OF step.IH this] step.hyps(2) show ?case by simp
next
  case (add s new t)
  then show ?case using add_inv [of s new] by simp
qed

text \<open>A table of four philosophers, and a sequence of steps.\<close>

definition phylo0 :: phylo_state where
  "phylo0 = \<lparr>phils = Map.empty, firstPhil = NULL, mutex = \<lparr>sval = 0, squeue = []\<rparr>, pcs = Map.empty\<rparr>"

fun steps :: "addr list \<Rightarrow> phylo_state \<Rightarrow> phylo_state option" where
  "steps [] s = Some s"
| "steps (p # ps) s = do { s \<leftarrow> philosopher p s; steps ps s }"

lemma reach_steps: "phylo_reach s \<Longrightarrow> steps ps s = Some t \<Longrightarrow> phylo_reach t"
  by (induction ps arbitrary: s) (auto split: Option.bind_splits intro: phylo_reach.step)

definition table4 :: phylo_state where
  "table4 = \<lparr>phils = [8 \<mapsto> newPhil\<lparr>left := 32, right := 16\<rparr>, 16 \<mapsto> newPhil\<lparr>left := 8, right := 24\<rparr>,
     24 \<mapsto> newPhil\<lparr>left := 16, right := 32\<rparr>, 32 \<mapsto> newPhil\<lparr>left := 24, right := 8\<rparr>], firstPhil = 8,
     mutex = \<lparr>sval = 1, squeue = []\<rparr>, pcs = [8 \<mapsto> Begin, 16 \<mapsto> Begin, 24 \<mapsto> Begin, 32 \<mapsto> Begin]\<rparr>"

lemma table4_setup: "phylo_setup [8, 16, 24, 32] phylo0 = Some table4"
  by (simp add: phylo_setup_def phylo0_def modPhil_def startLoop.simps goto_def table4_def newPhil_def fun_upd_twist numeral_eq_iff)

lemma table4_reach: "phylo_reach table4"
  by (rule phylo_reach.start [OF _ _ _ _ _ _ table4_setup]) (simp_all add: phylo0_def)

section \<open>Properties\<close>

lemma inv_progress:
  assumes "table_inv s"
  shows "\<exists>p c. pcs s p = Some c \<and> c \<notin> {TakeWait, ForkBlocked, PutWait}"
proof -
  from assms have s: "seated (phils s) (pcs s) (firstPhil s)" and g: "guarded inside queued (mutex s) (pcs s)" by (auto simp: table_inv_def)
  from g consider (free) "\<forall>q d. pcs s q = Some d \<longrightarrow> \<not> inside d \<and> \<not> queued d" | (held) h c where "pcs s h = Some c" "inside c"
    by (auto simp: guarded_def)
  then show ?thesis
  proof cases
    case free
    obtain p a c where p: "phils s p = Some a" "pcs s p = Some c" "\<not> stuck c a" "fit p c a"
      using s unfolding seated_def by blast
    with free have "c \<notin> {TakeWait, ForkBlocked, PutWait}" by (auto simp: queued_def stuck_def)
    with p(2) show ?thesis by blast
  next
    case held
    then show ?thesis by (intro exI [of _ h] exI [of _ c]) (auto simp: inside_def)
  qed
qed

definition face :: "phylo_state \<Rightarrow> addr \<Rightarrow> char" where
  "face s p = (case phils s p of Some a \<Rightarrow> if pstate a = EATING then CHR ''E'' else CHR ''.'' | None \<Rightarrow> CHR ''.'')"

lemma printPhils_ring:
  assumes "ring xs (phils s) (firstPhil s)" "i < length xs"
  shows "printPhils (xs ! i) s = Some (map (face s) (drop i xs))"
  using assms(2)
proof (induction "length xs - i" arbitrary: i)
  case 0
  then show ?case by simp
next
  case (Suc k)
  from assms(1) Suc.prems obtain a where a: "phils s (xs ! i) = Some a" "right a = xs ! (Suc i mod length xs)"
    "firstPhil s = xs ! 0" by (auto simp: ring_def hd_conv_nth)
  have d: "drop i xs = xs ! i # drop (Suc i) xs" using Suc.prems by (simp add: Cons_nth_drop_Suc)
  show ?case
  proof (cases "Suc i = length xs")
    case True
    then have "right a = firstPhil s" "drop (Suc i) xs = []" using a by simp_all
    then show ?thesis using a(1) d by (subst printPhils.simps) (simp add: face_def)
  next
    case False
    then have i: "Suc i < length xs" using Suc.prems by simp
    then have "right a = xs ! Suc i" "right a \<noteq> firstPhil s"
      using a assms(1) nth_eq_iff_index_eq [of xs "Suc i" 0] by (auto simp: ring_def)
    moreover have "printPhils (xs ! Suc i) s = Some (map (face s) (drop (Suc i) xs))"
      using Suc.hyps(1) [OF _ i] Suc.hyps(2) by simp
    ultimately show ?thesis using a(1) d by (subst printPhils.simps) (simp add: face_def)
  qed
qed

lemma printState_ring:
  assumes "ring xs (phils s) (firstPhil s)"
  shows "printState s = Some (map (face s) xs @ [CHR 0x0A])"
proof -
  have "xs \<noteq> []" "firstPhil s = xs ! 0" using assms by (auto simp: ring_def hd_conv_nth)
  then show ?thesis using printPhils_ring [OF assms, of 0] by (simp add: printState_def)
qed

lemma face_eating: "face s p = CHR ''E'' \<longleftrightarrow> (\<exists>a. phils s p = Some a \<and> pstate a = EATING)"
  by (auto simp: face_def split: option.splits)

lemma ring_apart:
  assumes r: "ring xs (phils s) (firstPhil s)" and ap: "apart (phils s)" and i: "i < length xs" "1 < length xs"
  shows "\<not> (face s (xs ! i) = CHR ''E'' \<and> face s (xs ! (Suc i mod length xs)) = CHR ''E'')"
proof -
  obtain a where a: "phils s (xs ! i) = Some a" "right a = xs ! (Suc i mod length xs)" using r i by (auto simp: ring_def)
  have "Suc i mod length xs \<noteq> i" "Suc i mod length xs < length xs" using i by (auto simp: mod_Suc)
  then have "right a \<noteq> xs ! i" using r i a(2) by (simp add: ring_def nth_eq_iff_index_eq)
  with ap a show ?thesis by (auto simp: face_eating apart_def)
qed

text \<open>C23: neighbours at the table never eat at the same time: in every state that can be reached from the
  start by steps of the philosophers in any order and by \<open>addPhilo\<close>, a philosopher that sleeps between
  \<open>take_fork\<close> and \<open>put_fork\<close> has the state \<open>EATING\<close>, and no two neighbours have it.\<close>

theorem phylo_safe:
  assumes "phylo_reach s" "phils s p = Some a" "phils s (right a) = Some b" "right a \<noteq> p"
  shows "\<not> (pstate a = EATING \<and> pstate b = EATING) \<and> \<not> (pcs s p = Some Meal \<and> pcs s (right a) = Some Meal)"
proof -
  have s: "seated (phils s) (pcs s) (firstPhil s)" using reach_inv [OF assms(1)] by (simp add: table_inv_def)
  then have e: "\<not> (pstate a = EATING \<and> pstate b = EATING)" using assms(2-4) by (auto simp: seated_def apart_def)
  have "pstate x = EATING" if "phils s q = Some x" "pcs s q = Some Meal" for q x
    using s that unfolding seated_def by fastforce
  with e assms(2,3) show ?thesis by blast
qed

theorem phylo_safe_witness:
  "\<exists>(s :: phylo_state) a b. phils s 8 = Some a \<and> phils s 16 = Some b \<and> pcs s 8 = Some Meal \<and> pstate b \<noteq> EATING"
proof -
  obtain s a b where r: "steps [8, 8, 8, 8, 8, 16, 16, 16] table4 = Some s" and
    s: "phils s 8 = Some a" "phils s 16 = Some b" "right a = 16" "pcs s 8 = Some Meal" "pstate a = EATING"
    by (simp add: table4_def philosopher_def take_fork_def put_fork_def waitMutex_def waitOwn_def postMutex_def
        postOwn_def test_def goto_def modPhil_def newPhil_def wake_def)
  have "\<not> (pstate a = EATING \<and> pstate b = EATING)"
    using phylo_safe [OF reach_steps [OF table4_reach r] s(1), of b] s by simp
  with s show ?thesis by blast
qed

text \<open>C24: the philosophers never deadlock: in every state that can be reached some philosopher is not blocked on a
  semaphore, and every philosopher that is not blocked can take its next step.\<close>

theorem phylo_progress:
  assumes "phylo_reach s"
  shows "(\<exists>p t. philosopher p s = Some t) \<and>
    (\<forall>p c. pcs s p = Some c \<longrightarrow> c \<notin> {TakeWait, ForkBlocked, PutWait} \<longrightarrow> (\<exists>t. philosopher p s = Some t))"
  using inv_progress [OF reach_inv [OF assms]] step_inv [OF reach_inv [OF assms]] by blast

theorem phylo_progress_witness: "\<exists>p t. philosopher p table4 = Some t"
  using phylo_progress [OF table4_reach] by blast

text \<open>\<open>printState\<close> returns in every state that can be reached: its loop round the ring writes one character for
  every philosopher and a newline, and no two neighbours show an \<open>E\<close>, the last and the first included.\<close>

theorem printState_returns:
  assumes "phylo_reach s"
  shows "\<exists>cs. printState s = Some (cs @ [CHR 0x0A]) \<and> length cs = card (dom (phils s)) \<and> set cs \<subseteq> {CHR ''E'', CHR ''.''} \<and>
    (\<forall>i < length cs. 1 < length cs \<longrightarrow> \<not> (cs ! i = CHR ''E'' \<and> cs ! (Suc i mod length cs) = CHR ''E''))"
proof -
  have "seated (phils s) (pcs s) (firstPhil s)" using reach_inv [OF assms] by (simp add: table_inv_def)
  then obtain xs where r: "ring xs (phils s) (firstPhil s)" and ap: "apart (phils s)" by (auto simp: seated_def)
  have n: "length xs = card (dom (phils s))" using r by (auto simp: ring_def distinct_card)
  have c: "set (map (face s) xs) \<subseteq> {CHR ''E'', CHR ''.''}" by (auto simp: face_def split: option.splits)
  have "\<not> (map (face s) xs ! i = CHR ''E'' \<and> map (face s) xs ! (Suc i mod length xs) = CHR ''E'')"
    if "i < length xs" "1 < length xs" for i
  proof -
    have "Suc i mod length xs < length xs" by (rule mod_less_divisor) (use that in linarith)
    then show ?thesis using ring_apart [OF r ap that] that(1) by (simp only: nth_map not_False_eq_True)
  qed
  with printState_ring [OF r] n c show ?thesis by (intro exI [of _ "map (face s) xs"]) simp
qed

theorem printState_returns_witness: "\<exists>cs. printState table4 = Some (cs @ [CHR 0x0A]) \<and> length cs = 4"
proof -
  have "dom (phils table4) = {8, 16, 24, 32}" by (auto simp: table4_def)
  with printState_returns [OF table4_reach] show ?thesis by auto
qed

text \<open>\<open>removePhilo\<close> does not keep neighbours apart: it takes the philosopher to the left of the first one
  away without the mutex and whatever its neighbours do, and from a state that can be reached it makes neighbours of
  two philosophers that are both at their meal.\<close>

theorem removePhilo_joins_eaters:
  "\<exists>s (t :: phylo_state) p a b. phylo_reach s \<and> removePhilo s = Some t \<and> phils t p = Some a \<and> phils t (right a) = Some b \<and>
     right a \<noteq> p \<and> pstate a = EATING \<and> pstate b = EATING \<and> pcs t p = Some Meal \<and> pcs t (right a) = Some Meal"
proof -
  obtain s t a b where r: "steps [8, 8, 8, 8, 8, 24, 24, 24, 24, 24] table4 = Some s" and
    s: "removePhilo s = Some t" "phils t 24 = Some a" "right a = 8" "phils t 8 = Some b"
      "pstate a = EATING" "pstate b = EATING" "pcs t 24 = Some Meal" "pcs t 8 = Some Meal"
    by (simp add: table4_def philosopher_def take_fork_def put_fork_def waitMutex_def waitOwn_def postMutex_def
        postOwn_def test_def goto_def modPhil_def newPhil_def wake_def removePhilo_def)
  from reach_steps [OF table4_reach r] s show ?thesis
    by (intro exI [of _ s] exI [of _ t] exI [of _ 24] exI [of _ a] exI [of _ b]) simp
qed

end
