(* ===== verification/Test_Sync.thy ===== *)
theory Test_Sync
  imports Mutex
begin

text \<open>
  The synchronisation test, \<open>src/Userland/SampleCodeModule/shell/commands/test_sync.c\<close>: definitions.
  Processes add to a shared number, with a semaphore around the addition or without one. A step is one
  statement of one process, and all interleave; \<open>sys_quitCPU\<close> is the end of a step. The arguments are taken
  as parsed: the third one is the number of rounds, and the first one says whether there is a semaphore.
\<close>

text \<open>Where a process that runs \<open>inc\<close> is. \<open>Load\<close> and \<open>Store\<close> are the two halves of \<open>slowInc\<close>.\<close>

datatype inc_point = Head | Waiting | Load | Store | Post | Final | Exit

record inc_proc =
  val_i :: int
  rounds :: nat
  i_i :: nat
  aux_i :: int

text \<open>\<open>sem_y\<close> is \<open>None\<close> once it is closed; \<open>todo\<close> are the processes that are not loaded yet, with their
  values, and \<open>kids\<close> the ones that are.\<close>

record sync_state =
  global :: int
  useSem :: bool
  sem_y :: "psem option"
  workers :: "addr \<rightharpoonup> inc_proc"
  points :: "addr \<rightharpoonup> inc_point"
  todo :: "(addr \<times> int) list"
  kids :: "addr list"
  printed :: "int list"

definition toPoint :: "addr \<Rightarrow> inc_point \<Rightarrow> sync_state \<Rightarrow> sync_state" where
  "toPoint p c s = s\<lparr>points := (points s)(p \<mapsto> c)\<rparr>"

fun behindWait :: "inc_point \<Rightarrow> inc_point" where
  "behindWait Waiting = Load"
| "behindWait c = c"

definition waitSem :: "addr \<Rightarrow> sync_state \<Rightarrow> sync_state option" where
  "waitSem p s =
     do {
       m \<leftarrow> sem_y s;
       Some (if sval m > 0
             then toPoint p Load (s\<lparr>sem_y := Some (m\<lparr>sval := sval m - 1\<rparr>)\<rparr>)
             else toPoint p Waiting (s\<lparr>sem_y := Some (m\<lparr>squeue := squeue m @ [p]\<rparr>)\<rparr>))
     }"

definition postSem :: "sync_state \<Rightarrow> sync_state option" where
  "postSem s =
     do {
       m \<leftarrow> sem_y s;
       case squeue m of
         [] \<Rightarrow> Some (s\<lparr>sem_y := Some (m\<lparr>sval := sval m + 1\<rparr>)\<rparr>)
       | q # qs \<Rightarrow> do { c \<leftarrow> points s q; Some (toPoint q (behindWait c) (s\<lparr>sem_y := Some (m\<lparr>squeue := qs\<rparr>)\<rparr>)) }
     }"

text \<open>The two halves of \<open>slowInc\<close>, around \<open>sys_quitCPU\<close>.\<close>

definition slowInc_load :: "addr \<Rightarrow> inc_proc \<Rightarrow> sync_state \<Rightarrow> sync_state" where
  "slowInc_load p w s = toPoint p Store (s\<lparr>workers := (workers s)(p \<mapsto> w\<lparr>aux_i := s32 (global s + val_i w)\<rparr>)\<rparr>)"

definition slowInc_store :: "addr \<Rightarrow> inc_proc \<Rightarrow> sync_state \<Rightarrow> sync_state" where
  "slowInc_store p w s = toPoint p Post (s\<lparr>global := aux_i w\<rparr>)"

definition inc :: "addr \<Rightarrow> sync_state \<Rightarrow> sync_state option" where
  "inc p s =
     do {
       c \<leftarrow> points s p;
       w \<leftarrow> workers s p;
       case c of
         Head \<Rightarrow>
           if i_i w < rounds w
           then (if useSem s then waitSem p s else Some (toPoint p Load s))
           else Some (toPoint p Final s)
       | Load \<Rightarrow> Some (slowInc_load p w s)
       | Store \<Rightarrow> Some (slowInc_store p w s)
       | Post \<Rightarrow>
           do {
             let s = toPoint p Head (s\<lparr>workers := (workers s)(p \<mapsto> w\<lparr>i_i := i_i w + 1\<rparr>)\<rparr>);
             if useSem s then postSem s else Some s
           }
       | Final \<Rightarrow> Some (toPoint p Exit (s\<lparr>printed := printed s @ [global s]\<rparr>))
       | Waiting \<Rightarrow> None
       | Exit \<Rightarrow> None
     }"

definition ITERS :: nat where
  "ITERS = 2000"

definition newInc :: "int \<Rightarrow> inc_proc" where
  "newInc v = \<lparr>val_i = v, rounds = ITERS, i_i = 0, aux_i = 0\<rparr>"

text \<open>The statements of the process that runs the test: it loads the next process; when there is none left and
  it uses a semaphore, it waits until its children have ended and closes the semaphore.\<close>

definition test_sync :: "sync_state \<Rightarrow> sync_state option" where
  "test_sync s =
     (case todo s of
        (p, v) # r \<Rightarrow> Some (toPoint p Head (s\<lparr>workers := (workers s)(p \<mapsto> newInc v), kids := kids s @ [p], todo := r\<rparr>))
      | [] \<Rightarrow>
          if useSem s \<and> sem_y s \<noteq> None \<and> list_all (\<lambda>p. points s p = Some Exit) (kids s)
          then Some (s\<lparr>sem_y := None\<rparr>) else None)"

text \<open>The two pairs of processes, with the identifiers that \<open>sys_loadProcess\<close> gives them.\<close>

definition pairs :: "addr \<Rightarrow> addr \<Rightarrow> addr \<Rightarrow> addr \<Rightarrow> (addr \<times> int) list" where
  "pairs a b c d = [(a, 1), (b, - 1), (c, 1), (d, - 1)]"

definition sync_start :: "bool \<Rightarrow> (addr \<times> int) list \<Rightarrow> sync_state" where
  "sync_start u td = \<lparr>global = 0, useSem = u, sem_y = (if u then Some \<lparr>sval = 1, squeue = []\<rparr> else None),
     workers = Map.empty, points = Map.empty, todo = td, kids = [], printed = []\<rparr>"

text \<open>The states that the test can be in after so many steps.\<close>

inductive sync_run :: "sync_state \<Rightarrow> nat \<Rightarrow> sync_state \<Rightarrow> bool" for s0 where
  start: "sync_run s0 0 s0"
| main: "sync_run s0 k s \<Longrightarrow> test_sync s = Some t \<Longrightarrow> sync_run s0 (Suc k) t"
| work: "sync_run s0 k s \<Longrightarrow> inc p s = Some t \<Longrightarrow> sync_run s0 (Suc k) t"

end
