(* ===== verification/Test_Sync_Props.thy ===== *)
theory Test_Sync_Props
  imports Test_Sync
begin

text \<open>
  The synchronisation test ends, and its semaphore makes the additions exact: an invariant over its
  states, a measure that every step takes down, and the lost updates of the test without a semaphore.
\<close>

section \<open>The invariant\<close>

definition inside_i :: "inc_point \<Rightarrow> bool" where
  "inside_i c \<longleftrightarrow> c \<in> {Load, Store, Post}"

definition queued_i :: "inc_point \<Rightarrow> bool" where
  "queued_i c \<longleftrightarrow> c = Waiting"

lemma behindWait_inside: "queued_i c \<Longrightarrow> inside_i (behindWait c) \<and> \<not> queued_i (behindWait c) \<and> \<not> inside_i c"
  by (auto simp: inside_i_def queued_i_def)

interpretation incs: mutex_users inside_i queued_i behindWait
  by unfold_locales (rule behindWait_inside)

text \<open>What a process has added so far, and how many steps it has left at most.\<close>

definition added :: "inc_point \<Rightarrow> inc_proc \<Rightarrow> int" where
  "added c w = val_i w * int (i_i w + (if c = Post then 1 else 0))"

fun left_over :: "inc_point \<Rightarrow> inc_proc \<Rightarrow> nat" where
  "left_over Head w = 5 * (rounds w - i_i w) + 2"
| "left_over Waiting w = 5 * (rounds w - i_i w) + 1"
| "left_over Load w = 5 * (rounds w - i_i w)"
| "left_over Store w = 5 * (rounds w - i_i w) - 1"
| "left_over Post w = 5 * (rounds w - i_i w) - 2"
| "left_over Final w = 1"
| "left_over Exit w = 0"

definition counts :: "inc_point \<Rightarrow> inc_proc \<Rightarrow> bool" where
  "counts c w \<longleftrightarrow> (if c = Head then i_i w \<le> rounds w else if c \<in> {Final, Exit} then i_i w = rounds w else i_i w < rounds w)"

definition tally :: "(inc_point \<Rightarrow> inc_proc \<Rightarrow> 'a :: comm_monoid_add) \<Rightarrow> addr list \<Rightarrow>
    (addr \<rightharpoonup> inc_point) \<Rightarrow> (addr \<rightharpoonup> inc_proc) \<Rightarrow> 'a" where
  "tally f ks pt wk = (\<Sum>p \<leftarrow> ks. case (pt p, wk p) of (Some c, Some w) \<Rightarrow> f c w | _ \<Rightarrow> 0)"

definition work_left :: "sync_state \<Rightarrow> nat" where
  "work_left s = tally left_over (kids s) (points s) (workers s) + length (todo s) * (5 * ITERS + 3) +
     (if sem_y s = None then 0 else 1)"

definition ended :: "sync_state \<Rightarrow> bool" where
  "ended s \<longleftrightarrow> todo s = [] \<and> (\<forall>p \<in> set (kids s). points s p = Some Exit)"

text \<open>The processes that are loaded and still to be loaded are those of the list \<open>td\<close>.\<close>

definition hired :: "(addr \<times> int) list \<Rightarrow> sync_state \<Rightarrow> bool" where
  "hired us s \<longleftrightarrow> (\<forall>p v. (p, v) \<in> set us \<longrightarrow>
     (\<exists>w c. workers s p = Some w \<and> points s p = Some c \<and> val_i w = v \<and> rounds w = ITERS \<and> counts c w))"

definition roster :: "(addr \<times> int) list \<Rightarrow> sync_state \<Rightarrow> bool" where
  "roster td s \<longleftrightarrow> distinct (map fst td) \<and> (\<exists>us. td = us @ todo s \<and> kids s = map fst us \<and> hired us s) \<and>
     dom (workers s) = set (kids s) \<and> dom (points s) = set (kids s)"

definition sums :: "sync_state \<Rightarrow> bool" where
  "sums s \<longleftrightarrow> global s = s32 (tally added (kids s) (points s) (workers s)) \<and>
     (\<forall>p w. points s p = Some Store \<longrightarrow> workers s p = Some w \<longrightarrow> aux_i w = s32 (global s + val_i w)) \<and>
     (ended s \<longrightarrow> kids s \<noteq> [] \<longrightarrow> printed s \<noteq> [] \<and> last (printed s) = global s)"

definition exact :: "sync_state \<Rightarrow> bool" where
  "exact s \<longleftrightarrow> sums s \<and>
     (case sem_y s of None \<Rightarrow> ended s | Some m \<Rightarrow> guarded inside_i queued_i m (points s))"

definition sync_inv :: "(addr \<times> int) list \<Rightarrow> sync_state \<Rightarrow> bool" where
  "sync_inv td s \<longleftrightarrow> roster td s \<and>
     (if useSem s then exact s else sem_y s = None \<and> (\<forall>p. points s p \<noteq> Some Waiting))"

section \<open>Changes of one process\<close>

lemma tally_outside: "p \<notin> set ks \<Longrightarrow> tally f ks (pt(p := x)) (wk(p := y)) = tally f ks pt wk"
  unfolding tally_def by (rule arg_cong [where f = sum_list], rule map_cong) auto

lemma tally_upd:
  assumes "distinct ks" "p \<in> set ks" "pt p = Some c" "wk p = Some w"
  shows "tally f ks (pt(p \<mapsto> c')) (wk(p \<mapsto> w')) + f c w = tally f ks pt wk + f c' w'"
  using assms(1,2)
proof (induction ks)
  case Nil
  then show ?case by simp
next
  case (Cons a ks)
  show ?case
  proof (cases "a = p")
    case True
    then show ?thesis using Cons.prems(1) assms(3,4) tally_outside [of p ks f pt "Some c'" wk "Some w'"]
      by (simp add: tally_def ac_simps)
  next
    case False
    then have "distinct ks" "p \<in> set ks" using Cons.prems by simp_all
    then have "tally f ks (pt(p \<mapsto> c')) (wk(p \<mapsto> w')) + f c w = tally f ks pt wk + f c' w'" by (rule Cons.IH)
    moreover have "tally f (a # ks) (pt(p \<mapsto> c')) (wk(p \<mapsto> w')) = tally f [a] pt wk + tally f ks (pt(p \<mapsto> c')) (wk(p \<mapsto> w'))"
      "tally f (a # ks) pt wk = tally f [a] pt wk + tally f ks pt wk" using False by (simp_all add: tally_def)
    ultimately show ?thesis by (simp only: add.assoc)
  qed
qed

lemma tally_point:
  assumes "distinct ks" "p \<in> set ks" "pt p = Some c" "wk p = Some w"
  shows "tally f ks (pt(p \<mapsto> c')) wk + f c w = tally f ks pt wk + f c' w"
  using tally_upd [of ks p pt c wk w f c' w, OF assms] fun_upd_idem [of wk p "Some w", OF assms(4)] by simp

lemma rosterE:
  assumes "roster td s" "points s p = Some c"
  obtains w where "workers s p = Some w" "p \<in> set (kids s)" "distinct (kids s)" "counts c w" "rounds w = ITERS"
proof -
  from assms(1) obtain us where us: "distinct (map fst td)" "td = us @ todo s" "kids s = map fst us"
    "hired us s" "dom (points s) = set (kids s)" unfolding roster_def by blast
  have "p \<in> set (kids s)" using us(5) assms(2) by auto
  moreover have "distinct (kids s)" using us(1-3) by simp
  moreover obtain v where "(p, v) \<in> set us" using calculation(1) us(3) by auto
  then obtain w d where "workers s p = Some w" "points s p = Some d" "rounds w = ITERS" "counts d w" using us(4) unfolding hired_def by blast
  ultimately show thesis using that assms(2) by simp
qed

text \<open>The process \<open>p\<close> has moved to the point \<open>c\<close> with the record \<open>w\<close>.\<close>

definition moved :: "addr \<Rightarrow> inc_point \<Rightarrow> inc_proc \<Rightarrow> sync_state \<Rightarrow> sync_state \<Rightarrow> bool" where
  "moved p c w s t \<longleftrightarrow> kids t = kids s \<and> todo t = todo s \<and> useSem t = useSem s \<and> (sem_y t = None) = (sem_y s = None) \<and>
     workers t = (workers s)(p \<mapsto> w) \<and> points t = (points s)(p \<mapsto> c)"

lemma roster_upd:
  assumes "roster td s" "points s p = Some c" "workers s p = Some w" "val_i w' = val_i w" "rounds w' = rounds w" "counts c' w'"
    and m: "moved p c' w' s t"
  shows "roster td t"
proof -
  note t = m [unfolded moved_def]
  from assms(1) obtain us where us: "td = us @ todo s" "kids s = map fst us" "hired us s" unfolding roster_def by blast
  have "\<exists>x d. workers t q = Some x \<and> points t q = Some d \<and> val_i x = v \<and> rounds x = ITERS \<and> counts d x" if q: "(q, v) \<in> set us" for q v
  proof -
    obtain x d where x: "workers s q = Some x" "points s q = Some d" "val_i x = v" "rounds x = ITERS" "counts d x"
      using us(3) q unfolding hired_def by blast
    then show ?thesis using assms(2-6) t by (cases "q = p") simp_all
  qed
  then have "hired us t" unfolding hired_def by blast
  then have "\<exists>us. td = us @ todo t \<and> kids t = map fst us \<and> hired us t"
    using us(1,2) t by auto
  moreover have "distinct (map fst td)" "dom (workers t) = set (kids t)" "dom (points t) = set (kids t)"
    using assms(1-3) t unfolding roster_def by auto
  ultimately show ?thesis unfolding roster_def by blast
qed

lemma work_upd:
  assumes "roster td s" "points s p = Some c" "workers s p = Some w" "left_over c' w' < left_over c w"
    and m: "moved p c' w' s t"
  shows "work_left t < work_left s"
proof -
  obtain x where "p \<in> set (kids s)" "distinct (kids s)" using rosterE [OF assms(1,2)] by metis
  from tally_upd [of "kids s" p "points s" c "workers s" w left_over c' w', OF this(2,1) assms(2,3)] assms(4) m
  show ?thesis by (simp add: work_left_def moved_def)
qed

lemma s32_add: "s32 (s32 a + b) = s32 (a + b)"
  by (metis s32_def signed_take_bit_add signed_take_bit_signed_take_bit min.idem)

lemma sums_upd:
  assumes "sums s" "roster td s" "points s p = Some c" "workers s p = Some w" and m: "moved p c' w' s t"
    and g: "added c' w' = added c w \<and> global t = global s \<or> added c' w' = added c w + v \<and> global t = s32 (global s + v)"
    and st: "\<And>q x. points t q = Some Store \<Longrightarrow> workers t q = Some x \<Longrightarrow> aux_i x = s32 (global t + val_i x)"
    and l: "c' = Exit \<Longrightarrow> printed t \<noteq> [] \<and> last (printed t) = global t"
  shows "sums t"
proof -
  obtain x where p: "p \<in> set (kids s)" "distinct (kids s)" using rosterE [OF assms(2,3)] by metis
  note ta = tally_upd [of "kids s" p "points s" c "workers s" w added c' w', OF p(2,1) assms(3,4)]
  have "global t = s32 (tally added (kids t) (points t) (workers t))"
    using g
  proof
    assume g: "added c' w' = added c w \<and> global t = global s"
    then show ?thesis using assms(1) ta m by (simp add: sums_def moved_def)
  next
    assume g: "added c' w' = added c w + v \<and> global t = s32 (global s + v)"
    then have "tally added (kids t) (points t) (workers t) = tally added (kids s) (points s) (workers s) + v"
      using ta m by (simp add: moved_def)
    then show ?thesis using g assms(1) by (simp add: sums_def s32_add)
  qed
  moreover have "ended t \<longrightarrow> c' = Exit" using m p(1) by (auto simp: ended_def moved_def)
  ultimately show ?thesis using st l unfolding sums_def by blast
qed

section \<open>Steps\<close>

text \<open>A step of a process with the semaphore, on the parts of the invariant.\<close>

lemma exactE:
  assumes "exact s" "roster td s" "points s p = Some c" "c \<noteq> Exit"
  obtains m where "sem_y s = Some m" "guarded inside_i queued_i m (points s)"
proof -
  have "p \<in> set (kids s)" using rosterE [OF assms(2,3)] by metis
  then have "\<not> ended s" using assms(3,4) by (auto simp: ended_def intro!: bexI [of _ p])
  then show thesis using that assms(1) by (auto simp: exact_def split: option.splits)
qed

lemma sums_store: "sums s \<Longrightarrow> points s q = Some Store \<Longrightarrow> workers s q = Some x \<Longrightarrow> aux_i x = s32 (global s + val_i x)"
  by (simp add: sums_def)

lemma only_inside:
  assumes "guarded inside_i queued_i m (points s)" "points s p = Some c" "inside_i c" "points s q = Some Store"
  shows "q = p"
  using incs.guarded_held(2) [OF assms(1-4)] by (simp add: inside_i_def)

text \<open>A step that changes neither the number nor what a process has added.\<close>

lemma sums_quiet:
  assumes "sums s" "roster td s" "points s p = Some c" "workers s p = Some w" "moved p c' w' s t"
    and "added c' w' = added c w" "global t = global s" "c' = Exit \<Longrightarrow> printed t \<noteq> [] \<and> last (printed t) = global t"
    and "c' = Store \<Longrightarrow> aux_i w' = s32 (global s + val_i w')"
  shows "sums t"
proof (rule sums_upd [OF assms(1-5)])
  show "aux_i x = s32 (global t + val_i x)" if "points t q = Some Store" "workers t q = Some x" for q x
    using that assms(5,7,9) sums_store [OF assms(1), of q x] by (cases "q = p") (auto simp: moved_def)
qed (use assms in auto)

lemma inc_sem:
  assumes i: "roster td s" "exact s" and u: "useSem s" and p: "points s p = Some c" "c \<noteq> Waiting" "c \<noteq> Exit"
  shows "\<exists>t. inc p s = Some t \<and> roster td t \<and> exact t \<and> useSem t \<and> work_left t < work_left s"
proof -
  obtain w where w: "workers s p = Some w" "counts c w" "rounds w = ITERS" using rosterE [OF i(1) p(1)] by metis
  obtain m where m: "sem_y s = Some m" "guarded inside_i queued_i m (points s)" by (rule exactE [OF i(2,1) p(1,3)])
  have sm: "sums s" using i(2) by (simp add: exact_def)
  have go: ?thesis
    if r: "inc p s = Some t" and mv: "moved p c' w' s t" and v: "val_i w' = val_i w" "rounds w' = rounds w"
      and c: "counts c' w'" "left_over c' w' < left_over c w" and st: "sums t" and y: "sem_y t = Some m'"
      and g: "guarded inside_i queued_i m' ((points s)(p \<mapsto> c'))" for t c' w' m'
  proof -
    have "points t = (points s)(p \<mapsto> c')" using mv by (simp add: moved_def)
    then have "exact t" using st y g by (simp add: exact_def)
    moreover have "useSem t" using mv u by (simp add: moved_def)
    ultimately show ?thesis using r roster_upd [OF i(1) p(1) w(1) v c(1) mv] work_upd [OF i(1) p(1) w(1) c(2) mv] by blast
  qed
  note quiet = sums_quiet [OF sm i(1) p(1) w(1)]
  have same: "(workers s)(p \<mapsto> w) = workers s" using w(1) by (simp add: fun_upd_idem)
  show ?thesis
  proof (cases c)
    case Head
    show ?thesis
    proof (cases "i_i w < rounds w")
      case lt: True
      show ?thesis
      proof (cases "0 < sval m")
        case True
        let ?m = "m\<lparr>sval := sval m - 1\<rparr>"
        let ?t = "toPoint p Load (s\<lparr>sem_y := Some ?m\<rparr>)"
        have mv: "moved p Load w s ?t" using m(1) same by (simp add: moved_def toPoint_def)
        show ?thesis
          by (rule go [OF _ mv, of ?m])
            (use p w m u lt True Head quiet [OF mv] incs.guarded_enter [OF m(2) True p(1), of Load] in
              \<open>auto simp: inc_def waitSem_def counts_def added_def toPoint_def inside_i_def queued_i_def\<close>)
      next
        case False
        let ?m = "m\<lparr>squeue := squeue m @ [p]\<rparr>"
        let ?t = "toPoint p Waiting (s\<lparr>sem_y := Some ?m\<rparr>)"
        have mv: "moved p Waiting w s ?t" using m(1) same by (simp add: moved_def toPoint_def)
        show ?thesis
          by (rule go [OF _ mv, of ?m])
            (use p w m u lt False Head quiet [OF mv] incs.guarded_queue [OF m(2) _ p(1), of Waiting] in
              \<open>auto simp: inc_def waitSem_def counts_def added_def toPoint_def inside_i_def queued_i_def\<close>)
      qed
    next
      case False
      let ?t = "toPoint p Final s"
      have mv: "moved p Final w s ?t" using same by (simp add: moved_def toPoint_def)
      show ?thesis
        by (rule go [OF _ mv, of m])
          (use p w m u False Head quiet [OF mv] incs.guarded_move [OF m(2) p(1), of Final] in
            \<open>auto simp: inc_def counts_def added_def toPoint_def inside_i_def queued_i_def\<close>)
    qed
  next
    case Load
    let ?w = "w\<lparr>aux_i := s32 (global s + val_i w)\<rparr>"
    have mv: "moved p Store ?w s (slowInc_load p w s)" by (simp add: moved_def slowInc_load_def toPoint_def)
    show ?thesis
      by (rule go [OF _ mv, of m])
        (use p w m u Load quiet [OF mv] incs.guarded_move [OF m(2) p(1), of Store] in
          \<open>auto simp: inc_def slowInc_load_def counts_def added_def toPoint_def inside_i_def queued_i_def\<close>)
  next
    case Store
    have mv: "moved p Post w s (slowInc_store p w s)" using same by (simp add: moved_def slowInc_store_def toPoint_def)
    have a: "aux_i w = s32 (global s + val_i w)" using sums_store [OF sm] p(1) w(1) Store by simp
    have "sums (slowInc_store p w s)"
    proof (rule sums_upd [OF sm i(1) p(1) w(1) mv, of "val_i w"])
      show "aux_i x = s32 (global (slowInc_store p w s) + val_i x)"
        if "points (slowInc_store p w s) q = Some Store" for q x
        using that only_inside [OF m(2) p(1), of q] Store by (cases "q = p") (auto simp: slowInc_store_def toPoint_def inside_i_def)
    qed (use a Store in \<open>auto simp: slowInc_store_def toPoint_def added_def algebra_simps\<close>)
    then show ?thesis
      by (intro go [OF _ mv, of m])
        (use p w m u Store incs.guarded_move [OF m(2) p(1), of Post] in
          \<open>auto simp: inc_def slowInc_store_def counts_def toPoint_def inside_i_def queued_i_def\<close>)
  next
    case Final
    let ?t = "toPoint p Exit (s\<lparr>printed := printed s @ [global s]\<rparr>)"
    have mv: "moved p Exit w s ?t" using same by (simp add: moved_def toPoint_def)
    show ?thesis
      by (rule go [OF _ mv, of m])
        (use p w m u Final quiet [OF mv] incs.guarded_move [OF m(2) p(1), of Exit] in
          \<open>auto simp: inc_def counts_def added_def toPoint_def inside_i_def queued_i_def\<close>)
  next
    case Post
    let ?w = "w\<lparr>i_i := i_i w + 1\<rparr>"
    let ?t = "toPoint p Head (s\<lparr>workers := (workers s)(p \<mapsto> ?w)\<rparr>)"
    have mv: "moved p Head ?w s ?t" by (simp add: moved_def toPoint_def)
    have lt: "i_i w < rounds w" using w(2) Post by (simp add: counts_def)
    have sums: "sums ?t" using quiet [OF mv] Post by (simp add: added_def toPoint_def)
    show ?thesis
    proof (cases "squeue m")
      case Nil
      let ?m = "m\<lparr>sval := sval m + 1\<rparr>"
      have mv': "moved p Head ?w s (?t\<lparr>sem_y := Some ?m\<rparr>)" using m(1) by (simp add: moved_def toPoint_def)
      have "sums (?t\<lparr>sem_y := Some ?m\<rparr>)" using sums by (simp add: sums_def ended_def toPoint_def)
      then show ?thesis
        by (intro go [OF _ mv', of ?m])
          (use p w m u Nil lt Post incs.guarded_leave [OF m(2) Nil p(1), of Head] in
            \<open>auto simp: inc_def postSem_def counts_def toPoint_def inside_i_def queued_i_def\<close>)
    next
      case (Cons q qs)
      let ?m = "m\<lparr>squeue := qs\<rparr>"
      obtain e where q: "q \<noteq> p" "points s q = Some e" "queued_i e"
        and g: "guarded inside_i queued_i ?m ((points s)(p \<mapsto> Head, q \<mapsto> behindWait e))"
        by (rule incs.guarded_next [OF m(2) Cons p(1), of Head]) (auto simp: Post inside_i_def queued_i_def)
      have e: "e = Waiting" using q(3) by (simp add: queued_i_def)
      have r1: "roster td ?t" by (rule roster_upd [OF i(1) p(1) w(1) _ _ _ mv]) (use lt in \<open>simp_all add: counts_def\<close>)
      have q1: "points ?t q = Some e" using q by (simp add: toPoint_def)
      obtain x where x: "workers ?t q = Some x" "counts e x" by (rule rosterE [OF r1 q1]) blast
      let ?u = "toPoint q Load (?t\<lparr>sem_y := Some ?m\<rparr>)"
      have mu: "moved q Load x ?t ?u" using m(1) x(1) by (simp add: moved_def toPoint_def fun_upd_idem)
      have "sums ?u" using sums_quiet [OF sums r1 q1 x(1) mu] by (simp add: e added_def toPoint_def)
      moreover have "guarded inside_i queued_i ?m (points ?u)" using g e by (simp add: toPoint_def)
      ultimately have "exact ?u" by (simp add: exact_def toPoint_def)
      moreover have "inc p s = Some ?u" using p(1) w(1) u m(1) Cons Post q1 e by (simp add: inc_def postSem_def toPoint_def)
      moreover have "roster td ?u"
        by (rule roster_upd [OF r1 q1 x(1) _ _ _ mu]) (use x(2) e in \<open>simp_all add: counts_def\<close>)
      moreover have "work_left ?t < work_left s"
        by (rule work_upd [OF i(1) p(1) w(1) _ mv]) (use lt Post in simp)
      moreover have "work_left ?u < work_left ?t"
        by (rule work_upd [OF r1 q1 x(1) _ mu]) (use x(2) e in \<open>simp add: counts_def\<close>)
      ultimately show ?thesis using u by (auto simp: toPoint_def)
    qed
  qed (use p in simp_all)
qed

text \<open>Without the semaphore only the number of steps and the list of processes are kept.\<close>

definition free :: "sync_state \<Rightarrow> bool" where
  "free s \<longleftrightarrow> \<not> useSem s \<and> sem_y s = None \<and> (\<forall>p. points s p \<noteq> Some Waiting)"

lemma inc_free:
  assumes i: "roster td s" "free s" and p: "points s p = Some c" "c \<noteq> Exit"
  shows "\<exists>t. inc p s = Some t \<and> roster td t \<and> free t \<and> work_left t < work_left s"
proof -
  obtain w where w: "workers s p = Some w" "counts c w" using rosterE [OF i(1) p(1)] by metis
  have same: "(workers s)(p \<mapsto> w) = workers s" using w(1) by (simp add: fun_upd_idem)
  have c: "c \<noteq> Waiting" using p(1) i(2) by (auto simp: free_def)
  have go: ?thesis
    if r: "inc p s = Some t" and mv: "moved p c' w' s t" and v: "val_i w' = val_i w" "rounds w' = rounds w"
      and c: "counts c' w'" "left_over c' w' < left_over c w" "c' \<noteq> Waiting" for t c' w'
  proof -
    have "free t" using mv i(2) c(3) by (auto simp: free_def moved_def)
    then show ?thesis using r roster_upd [OF i(1) p(1) w(1) v c(1) mv] work_upd [OF i(1) p(1) w(1) c(2) mv] by blast
  qed
  have f: "\<not> useSem s" using i(2) by (simp add: free_def)
  show ?thesis
  proof (cases c)
    case Head
    let ?c = "if i_i w < rounds w then Load else Final"
    have mv: "moved p ?c w s (toPoint p ?c s)" using same by (simp add: moved_def toPoint_def)
    show ?thesis by (rule go [OF _ mv]) (use p w f Head in \<open>auto simp: inc_def counts_def\<close>)
  next
    case Load
    let ?w = "w\<lparr>aux_i := s32 (global s + val_i w)\<rparr>"
    have mv: "moved p Store ?w s (slowInc_load p w s)" by (simp add: moved_def slowInc_load_def toPoint_def)
    show ?thesis by (rule go [OF _ mv]) (use p w f Load in \<open>auto simp: inc_def counts_def\<close>)
  next
    case Store
    have mv: "moved p Post w s (slowInc_store p w s)" using same by (simp add: moved_def slowInc_store_def toPoint_def)
    show ?thesis by (rule go [OF _ mv]) (use p w f Store in \<open>auto simp: inc_def counts_def\<close>)
  next
    case Post
    let ?w = "w\<lparr>i_i := i_i w + 1\<rparr>"
    have mv: "moved p Head ?w s (toPoint p Head (s\<lparr>workers := (workers s)(p \<mapsto> ?w)\<rparr>))" by (simp add: moved_def toPoint_def)
    show ?thesis by (rule go [OF _ mv]) (use p w f Post in \<open>auto simp: inc_def counts_def toPoint_def\<close>)
  next
    case Final
    have mv: "moved p Exit w s (toPoint p Exit (s\<lparr>printed := printed s @ [global s]\<rparr>))" using same by (simp add: moved_def toPoint_def)
    show ?thesis by (rule go [OF _ mv]) (use p w f Final in \<open>auto simp: inc_def counts_def\<close>)
  qed (use p c in simp_all)
qed

lemma sync_inv_alt: "sync_inv td s \<longleftrightarrow> roster td s \<and> (useSem s \<and> exact s \<or> free s)"
  by (auto simp: sync_inv_def free_def)

lemma inc_inv:
  assumes "sync_inv td s" "points s p = Some c" "c \<noteq> Waiting" "c \<noteq> Exit"
  shows "\<exists>t. inc p s = Some t \<and> sync_inv td t \<and> useSem t = useSem s \<and> work_left t < work_left s"
  using assms inc_sem [of td s p c] inc_free [of td s p c] by (auto simp: sync_inv_alt free_def)

section \<open>Loading and closing\<close>

lemma tally_snoc: "p \<notin> set ks \<Longrightarrow> tally f (ks @ [p]) (pt(p \<mapsto> c)) (wk(p \<mapsto> w)) = tally f ks pt wk + f c w"
  using tally_outside [of p ks f pt "Some c" wk "Some w"] by (simp add: tally_def)

lemma load_inv:
  assumes i: "sync_inv td s" and td: "todo s = (p, v) # r"
  shows "\<exists>t. test_sync s = Some t \<and> sync_inv td t \<and> useSem t = useSem s \<and> work_left t < work_left s"
proof -
  let ?t = "toPoint p Head (s\<lparr>workers := (workers s)(p \<mapsto> newInc v), kids := kids s @ [p], todo := r\<rparr>)"
  from i obtain us where us: "td = us @ todo s" "kids s = map fst us" "hired us s" "distinct (map fst td)"
    "dom (workers s) = set (kids s)" "dom (points s) = set (kids s)" by (auto simp: sync_inv_def roster_def)
  have p: "p \<notin> set (kids s)" using us(1,2,4) td by auto
  have "(p, x) \<notin> set us" for x using us(2) p by force
  then have "hired (us @ [(p, v)]) ?t"
    using us(3) by (auto simp: hired_def toPoint_def newInc_def counts_def)
  then have "\<exists>us. td = us @ todo ?t \<and> kids ?t = map fst us \<and> hired us ?t"
    using us(1,2) td by (intro exI [of _ "us @ [(p, v)]"]) (simp add: toPoint_def)
  moreover have "dom (workers ?t) = set (kids ?t)" "dom (points ?t) = set (kids ?t)" using us(5,6) by (auto simp: toPoint_def)
  ultimately have "roster td ?t" using us(4) unfolding roster_def by blast
  moreover have "useSem s \<and> exact ?t" if u: "useSem s" "exact s"
  proof -
    have "\<not> ended s" using td by (simp add: ended_def)
    then obtain m where m: "sem_y s = Some m" "guarded inside_i queued_i m (points s)"
      using u(2) by (auto simp: exact_def split: option.splits)
    have "points s p = None" using us(6) p by auto
    then have "guarded inside_i queued_i m ((points s)(p \<mapsto> Head))"
      using incs.guarded_new [OF m(2), of p Head] by (simp add: inside_i_def queued_i_def)
    moreover have "sums ?t"
      using u(2) tally_snoc [OF p, of added "points s" Head "workers s" "newInc v"]
      by (auto simp: exact_def sums_def ended_def toPoint_def added_def newInc_def split: if_splits)
    ultimately show ?thesis using m(1) u(1) by (simp add: exact_def toPoint_def)
  qed
  moreover have "free ?t" if "free s" using that by (auto simp: free_def toPoint_def)
  moreover have "work_left ?t < work_left s"
    using tally_snoc [OF p, of left_over "points s" Head "workers s" "newInc v"] td
    by (simp add: work_left_def toPoint_def newInc_def)
  ultimately show ?thesis using i td by (auto simp: sync_inv_alt test_sync_def toPoint_def)
qed

lemma main_inv:
  assumes i: "sync_inv td s" and r: "test_sync s = Some t"
  shows "sync_inv td t \<and> useSem t = useSem s \<and> work_left t < work_left s"
proof (cases "todo s")
  case (Cons a r')
  then show ?thesis using load_inv [OF i, of "fst a" "snd a" r'] r by simp
next
  case Nil
  then have t: "useSem s" "sem_y s \<noteq> None" "ended s" "t = s\<lparr>sem_y := None\<rparr>"
    using r by (auto simp: test_sync_def ended_def list_all_iff split: if_splits)
  then have "exact t" using i by (simp add: sync_inv_def exact_def sums_def ended_def)
  moreover have "roster td t" using i t(4) by (simp add: sync_inv_def roster_def hired_def)
  ultimately show ?thesis using t by (simp add: sync_inv_def work_left_def)
qed

lemma inc_some: "inc p s = Some t \<Longrightarrow> \<exists>c. points s p = Some c \<and> c \<noteq> Waiting \<and> c \<noteq> Exit"
  by (auto simp: inc_def split: Option.bind_splits inc_point.splits)

lemma run_inv:
  assumes "sync_inv td s0" "sync_run s0 k s"
  shows "sync_inv td s \<and> useSem s = useSem s0 \<and> k + work_left s \<le> work_left s0"
  using assms(2)
proof (induction rule: sync_run.induct)
  case start
  then show ?case using assms(1) by simp
next
  case (main k s t)
  then show ?case using main_inv [of td s t] by fastforce
next
  case (work k s p t)
  obtain c where "points s p = Some c" "c \<noteq> Waiting" "c \<noteq> Exit" using inc_some [OF work.hyps(2)] by blast
  then show ?case using inc_inv [of td s p c] work by fastforce
qed

lemma start_inv:
  assumes "distinct (map fst td)" "td \<noteq> []"
  shows "sync_inv td (sync_start u td)" "work_left (sync_start u td) \<le> length td * (5 * ITERS + 3) + 1"
  using assms by (auto simp: sync_inv_def roster_def hired_def sync_start_def exact_def sums_def ended_def tally_def guarded_def work_left_def)

text \<open>A state without a next step is one where everybody has ended.\<close>

lemma stuck_ended:
  assumes i: "sync_inv td s" and n: "test_sync s = None" "\<And>p. inc p s = None"
  shows "ended s \<and> sem_y s = None"
proof -
  have td: "todo s = []" using n(1) by (auto simp: test_sync_def split: list.splits)
  have st: "c = Waiting \<or> c = Exit" if "points s p = Some c" for p c using inc_inv [OF i that] n(2) [of p] by auto
  have dom: "dom (points s) = set (kids s)" using i by (simp add: sync_inv_def roster_def)
  have "c \<noteq> Waiting" if p: "points s p = Some c" for p c
  proof (cases "useSem s")
    case False
    then show ?thesis using i p by (auto simp: sync_inv_def)
  next
    case True
    show ?thesis
    proof
      assume c: "c = Waiting"
      obtain m where "guarded inside_i queued_i m (points s)"
        using exactE [of s td p c] i p c True by (auto simp: sync_inv_def)
      then obtain h d where "points s h = Some d" "inside_i d" using p c unfolding guarded_def by (auto simp: queued_i_def)
      then show False using st [of h d] by (auto simp: inside_i_def)
    qed
  qed
  with st have ex: "points s p = Some Exit" if "p \<in> set (kids s)" for p using that dom by (metis domIff option.exhaust)
  then have e: "ended s" using td by (simp add: ended_def)
  moreover have "sem_y s = None" using n(1) td ex i by (auto simp: test_sync_def list_all_iff sync_inv_def split: if_splits)
  ultimately show ?thesis by simp
qed

section \<open>Lost updates\<close>

lemma run_trans: "sync_run t k u \<Longrightarrow> sync_run s j t \<Longrightarrow> sync_run s (j + k) u"
proof (induction rule: sync_run.induct)
  case (main k s' t')
  then show ?case using sync_run.main [of s "j + k" s' t'] by simp
next
  case (work k s' p t')
  then show ?case using sync_run.work [of s "j + k" s' p t'] by simp
qed simp

abbreviation runs :: "sync_state \<Rightarrow> sync_state \<Rightarrow> bool" where
  "runs s t \<equiv> \<exists>k. sync_run s k t"

lemma runs_trans [trans]: "runs s t \<Longrightarrow> runs t u \<Longrightarrow> runs s u"
  using run_trans by blast

lemma runs_inc: "inc p s = Some t \<Longrightarrow> runs s t"
  using sync_run.work [OF sync_run.start] by blast

text \<open>Only \<open>p\<close> and the number have changed.\<close>

definition alone :: "addr \<Rightarrow> inc_point \<Rightarrow> nat \<Rightarrow> int \<Rightarrow> sync_state \<Rightarrow> sync_state \<Rightarrow> bool" where
  "alone p c i g s t \<longleftrightarrow> (\<exists>w. workers t p = Some w \<and> i_i w = i \<and> map_option val_i (workers s p) = Some (val_i w) \<and>
     map_option rounds (workers s p) = Some (rounds w)) \<and> points t = (points s)(p \<mapsto> c) \<and> global t = g \<and>
     useSem t = useSem s \<and> (\<forall>q. q \<noteq> p \<longrightarrow> workers t q = workers s q)"

lemma alone_trans: "alone p c i g s t \<Longrightarrow> alone p d j h t u \<Longrightarrow> alone p d j h s u"
  by (auto simp: alone_def)

text \<open>A process behind its addition, without the semaphore: one round more, and all the rounds that are left.\<close>

lemma solo_round:
  assumes "\<not> useSem s" "points s p = Some Head" "workers s p = Some w" "i_i w < rounds w"
  shows "\<exists>t. runs s t \<and> alone p Head (i_i w + 1) (s32 (global s + val_i w)) s t"
proof -
  let ?w = "w\<lparr>aux_i := s32 (global s + val_i w)\<rparr>"
  let ?t = "s\<lparr>points := (points s)(p \<mapsto> Head), workers := (workers s)(p \<mapsto> ?w\<lparr>i_i := i_i w + 1\<rparr>), global := aux_i ?w\<rparr>"
  have r1: "runs s (toPoint p Load s)" using assms by (intro runs_inc [of p]) (simp add: inc_def)
  have r2: "runs (toPoint p Load s) (slowInc_load p w (toPoint p Load s))"
    using assms by (intro runs_inc [of p]) (simp add: inc_def toPoint_def)
  have r3: "runs (slowInc_load p w (toPoint p Load s)) (slowInc_store p ?w (slowInc_load p w (toPoint p Load s)))"
    by (intro runs_inc [of p]) (simp add: inc_def toPoint_def slowInc_load_def)
  have r4: "runs (slowInc_store p ?w (slowInc_load p w (toPoint p Load s))) ?t"
    using assms(1) by (intro runs_inc [of p]) (simp add: inc_def toPoint_def slowInc_load_def slowInc_store_def)
  have "alone p Head (i_i w + 1) (s32 (global s + val_i w)) s ?t" using assms by (simp add: alone_def)
  with runs_trans [OF runs_trans [OF runs_trans [OF r1 r2] r3] r4] show ?thesis by blast
qed

lemma solo_end:
  assumes "\<not> useSem s" "points s p = Some Head" "workers s p = Some w" "i_i w + n = rounds w" "s32 (global s) = global s"
  shows "\<exists>t. runs s t \<and> alone p Exit (rounds w) (s32 (global s + val_i w * int n)) s t"
  using assms
proof (induction n arbitrary: s w)
  case 0
  let ?t = "toPoint p Exit (s\<lparr>printed := printed s @ [global s], points := (points s)(p \<mapsto> Final)\<rparr>)"
  have "runs s (toPoint p Final s)" using 0 by (intro runs_inc [of p]) (simp add: inc_def)
  moreover have "runs (toPoint p Final s) ?t" using 0 by (intro runs_inc [of p]) (simp add: inc_def toPoint_def)
  ultimately have "runs s ?t" by (rule runs_trans)
  then show ?case using 0 by (intro exI [of _ ?t]) (simp add: alone_def toPoint_def)
next
  case (Suc n)
  then obtain t where t: "runs s t" "alone p Head (i_i w + 1) (s32 (global s + val_i w)) s t"
    using solo_round [of s p w] by auto
  then obtain x where x: "workers t p = Some x" "i_i x = i_i w + 1" "val_i x = val_i w" "rounds x = rounds w"
    "points t p = Some Head" "global t = s32 (global s + val_i w)" "\<not> useSem t"
    using Suc.prems by (auto simp: alone_def)
  have "s32 (global t) = global t" using s32_add [of "global s + val_i w" 0] x(6) by simp
  then obtain u where u: "runs t u" "alone p Exit (rounds x) (s32 (global t + val_i x * int n)) t u"
    using Suc.IH [OF x(7,5,1)] x(2,4) Suc.prems(4) by auto
  have "s32 (global t + val_i x * int n) = s32 (global s + val_i w * int (Suc n))"
    using x(3,6) s32_add [of "global s + val_i w" "val_i w * int n"] by (simp add: algebra_simps)
  then show ?case using runs_trans [OF t(1) u(1)] alone_trans [OF t(2) u(2)] x(4) by auto
qed

lemma runs_main: "test_sync s = Some t \<Longrightarrow> runs s t"
  using sync_run.main [OF sync_run.start] by blast

text \<open>Four processes loaded, and the first one between the two halves of its first addition.\<close>

lemma race_start:
  assumes "distinct [a, b, c, d]"
  shows "\<exists>s. runs (sync_start False (pairs a b c d)) s \<and> \<not> useSem s \<and> global s = 0 \<and>
     points s = [a \<mapsto> Store, b \<mapsto> Head, c \<mapsto> Head, d \<mapsto> Head] \<and>
     workers s = [a \<mapsto> (newInc 1)\<lparr>aux_i := 1\<rparr>, b \<mapsto> newInc (- 1), c \<mapsto> newInc 1, d \<mapsto> newInc (- 1)]"
proof -
  let ?s0 = "sync_start False (pairs a b c d)"
  let ?s4 = "?s0\<lparr>todo := [], kids := [a, b, c, d], points := [a \<mapsto> Head, b \<mapsto> Head, c \<mapsto> Head, d \<mapsto> Head],
    workers := [a \<mapsto> newInc 1, b \<mapsto> newInc (- 1), c \<mapsto> newInc 1, d \<mapsto> newInc (- 1)]\<rparr>"
  have "runs ?s0 (toPoint a Head (?s0\<lparr>workers := [a \<mapsto> newInc 1], kids := [a], todo := tl (pairs a b c d)\<rparr>))" (is "runs _ ?s1")
    by (rule runs_main) (simp add: test_sync_def sync_start_def pairs_def)
  also have "runs ?s1 (toPoint b Head (?s1\<lparr>workers := (workers ?s1)(b \<mapsto> newInc (- 1)), kids := [a, b], todo := [(c, 1), (d, - 1)]\<rparr>))" (is "runs _ ?s2")
    by (rule runs_main) (simp add: test_sync_def pairs_def toPoint_def)
  also have "runs ?s2 (toPoint c Head (?s2\<lparr>workers := (workers ?s2)(c \<mapsto> newInc 1), kids := [a, b, c], todo := [(d, - 1)]\<rparr>))" (is "runs _ ?s3")
    by (rule runs_main) (simp add: test_sync_def toPoint_def)
  also have "runs ?s3 ?s4"
    by (rule runs_main) (simp add: test_sync_def toPoint_def sync_start_def)
  also have "runs ?s4 (toPoint a Load ?s4)" using assms
    by (intro runs_inc [of a]) (simp add: inc_def sync_start_def newInc_def ITERS_def)
  also have "runs (toPoint a Load ?s4) (slowInc_load a (newInc 1) (toPoint a Load ?s4))" using assms
    by (intro runs_inc [of a]) (simp add: inc_def sync_start_def toPoint_def)
  finally have r: "runs ?s0 (slowInc_load a (newInc 1) (toPoint a Load ?s4))" .
  show ?thesis
    by (intro exI [of _ "slowInc_load a (newInc 1) (toPoint a Load ?s4)"] conjI, rule r)
      (use assms in \<open>auto simp: slowInc_load_def toPoint_def sync_start_def newInc_def fun_eq_iff\<close>)
qed

text \<open>C26: the test with the semaphore ends and is exact. Whatever the order of the steps of its processes, it
  makes at most 40013 of them, none of them uses the semaphore behind its end, and when no step is left
  the four processes have ended, the semaphore is closed, the shared number is 0 and 0 is what was printed last.\<close>

theorem test_sync_exact:
  assumes "distinct [a, b, c, d]" "sync_run (sync_start True (pairs a b c d)) k s"
  shows "k \<le> 40013 \<and>
    (\<forall>p q. points s p = Some q \<longrightarrow> q \<noteq> Waiting \<longrightarrow> q \<noteq> Exit \<longrightarrow> inc p s \<noteq> None) \<and>
    ((\<forall>p. inc p s = None) \<longrightarrow> test_sync s = None \<longrightarrow>
       points s = [a \<mapsto> Exit, b \<mapsto> Exit, c \<mapsto> Exit, d \<mapsto> Exit] \<and> sem_y s = None \<and> global s = 0 \<and> last (printed s) = 0)"
proof -
  let ?td = "pairs a b c d"
  have td: "distinct (map fst ?td)" "?td \<noteq> []" using assms(1) by (simp_all add: pairs_def)
  note i0 = start_inv [OF td, of True]
  have i: "sync_inv ?td s" "useSem s" "k \<le> 40013"
    using run_inv [OF i0(1) assms(2)] i0(2) by (simp_all add: pairs_def ITERS_def sync_start_def)
  have f: "points s = [a \<mapsto> Exit, b \<mapsto> Exit, c \<mapsto> Exit, d \<mapsto> Exit] \<and> sem_y s = None \<and> global s = 0 \<and> last (printed s) = 0"
    if n: "\<forall>p. inc p s = None" "test_sync s = None"
  proof -
    have e: "ended s" "sem_y s = None" using stuck_ended [OF i(1)] n by simp_all
    obtain us where us: "kids s = map fst ?td" "hired ?td s" "dom (points s) = set (kids s)"
      using i(1) e(1) by (auto simp: sync_inv_def roster_def ended_def)
    have ks: "kids s = [a, b, c, d]" using us(1) by (simp add: pairs_def)
    have ex: "points s p = Some Exit" if "p \<in> {a, b, c, d}" for p using e(1) ks that by (auto simp: ended_def)
    have pts: "points s = [a \<mapsto> Exit, b \<mapsto> Exit, c \<mapsto> Exit, d \<mapsto> Exit]"
    proof
      fix p
      show "points s p = [a \<mapsto> Exit, b \<mapsto> Exit, c \<mapsto> Exit, d \<mapsto> Exit] p"
        using ex [of p] us(3) ks by (cases "p \<in> {a, b, c, d}") (auto simp: domIff)
    qed
    have w: "\<exists>w. workers s p = Some w \<and> added Exit w = v * 2000" if "(p, v) \<in> set ?td" for p v
    proof -
      obtain w q where w: "workers s p = Some w" "points s p = Some q" "val_i w = v" "rounds w = ITERS" "counts q w"
        using us(2) \<open>(p, v) \<in> set ?td\<close> unfolding hired_def by blast
      moreover have "q = Exit" using ex [of p] w(2) that by (auto simp: pairs_def)
      ultimately show ?thesis by (simp add: added_def counts_def ITERS_def)
    qed
    have "tally added (kids s) (points s) (workers s) = 0"
      using w [of a 1] w [of b "- 1"] w [of c 1] w [of d "- 1"] ex by (auto simp: tally_def ks pairs_def)
    moreover have "sums s" using i(1,2) by (simp add: sync_inv_def exact_def)
    ultimately show ?thesis using pts e ks by (simp add: sums_def)
  qed
  show ?thesis using i(3) f inc_inv [OF i(1)] by blast
qed

theorem test_sync_exact_witness:
  "\<exists>s. sync_run (sync_start True (pairs 2 3 4 5)) 0 s \<and> \<not> (\<exists>t. sync_run (sync_start True (pairs 2 3 4 5)) 40014 t)"
  using test_sync_exact [of 2 3 4 5 40014] sync_run.start by auto

text \<open>without the semaphore updates are lost: the four processes, two of them adding 1 and two of them taking 1 away
  2000 times each, can end with the shared number 2000.\<close>

theorem test_no_sync_loses:
  assumes "distinct [a, b, c, d]"
  shows "\<exists>k s. sync_run (sync_start False (pairs a b c d)) k s \<and>
    points s = [a \<mapsto> Exit, b \<mapsto> Exit, c \<mapsto> Exit, d \<mapsto> Exit] \<and> global s = 2000"
proof -
  from race_start [OF assms] obtain s where s: "runs (sync_start False (pairs a b c d)) s" "\<not> useSem s" "global s = 0"
    "points s = [a \<mapsto> Store, b \<mapsto> Head, c \<mapsto> Head, d \<mapsto> Head]"
    "workers s = [a \<mapsto> (newInc 1)\<lparr>aux_i := 1\<rparr>, b \<mapsto> newInc (- 1), c \<mapsto> newInc 1, d \<mapsto> newInc (- 1)]" by blast
  note n = newInc_def ITERS_def
  obtain t where t: "runs s t" "alone b Exit 2000 (- 2000) s t"
    using solo_end [of s b "newInc (- 1)" 2000] s(2-5) assms by (auto simp: n)
  have t': "\<not> useSem t" "global t = - 2000" "points t = (points s)(b \<mapsto> Exit)" "\<And>q. q \<noteq> b \<Longrightarrow> workers t q = workers s q"
    using t(2) s(2) by (auto simp: alone_def)
  obtain u where u: "runs t u" "alone c Exit 2000 0 t u"
    using solo_end [of t c "newInc 1" 2000] t' s(4,5) assms by (auto simp: n)
  have u': "\<not> useSem u" "global u = 0" "points u = (points t)(c \<mapsto> Exit)" "\<And>q. q \<noteq> c \<Longrightarrow> workers u q = workers t q"
    using u(2) t'(1) by (auto simp: alone_def)
  obtain v where v: "runs u v" "alone d Exit 2000 (- 2000) u v"
    using solo_end [of u d "newInc (- 1)" 2000] u' t' s(4,5) assms by (auto simp: n)
  have v': "\<not> useSem v" "points v = (points u)(d \<mapsto> Exit)" "\<And>q. q \<noteq> d \<Longrightarrow> workers v q = workers u q"
    using v(2) u'(1) by (auto simp: alone_def)
  have a: "points v a = Some Store" "workers v a = Some ((newInc 1)\<lparr>aux_i := 1\<rparr>)"
    using v' u' t' s(4,5) assms by auto
  let ?w = "(newInc 1)\<lparr>aux_i := 1\<rparr>"
  let ?x = "slowInc_store a ?w v"
  let ?y = "toPoint a Head (?x\<lparr>workers := (workers v)(a \<mapsto> ?w\<lparr>i_i := 1\<rparr>)\<rparr>)"
  have x: "runs v ?x" using a by (intro runs_inc [of a]) (simp add: inc_def)
  have y: "runs ?x ?y" using a v'(1) by (intro runs_inc [of a]) (simp add: inc_def slowInc_store_def toPoint_def n)
  obtain z where z: "runs ?y z" "alone a Exit 2000 2000 ?y z"
    using solo_end [of ?y a "?w\<lparr>i_i := 1\<rparr>" 1999] v'(1) by (auto simp: n slowInc_store_def toPoint_def)
  have "points z = [a \<mapsto> Exit, b \<mapsto> Exit, c \<mapsto> Exit, d \<mapsto> Exit]" "global z = 2000"
    using z(2) v'(2) u'(3) t'(3) s(4) assms by (auto simp: alone_def toPoint_def slowInc_store_def fun_eq_iff)
  moreover have "runs (sync_start False (pairs a b c d)) z"
    using runs_trans [OF runs_trans [OF runs_trans [OF runs_trans [OF runs_trans [OF runs_trans [OF s(1) t(1)] u(1)] v(1)] x] y] z(1)] .
  ultimately show ?thesis by blast
qed

theorem test_no_sync_loses_witness: "\<exists>k s. sync_run (sync_start False (pairs 2 3 4 5)) k s \<and> global s = 2000"
  using test_no_sync_loses [of 2 3 4 5] by auto

end
