(* ===== verification/Test_MM.thy ===== *)
theory Test_MM
  imports Complex_Main KLib Buddy_Props MemFRT4_Ops
begin

text \<open>
  The test of the memory manager, \<open>src/Userland/SampleCodeModule/shell/commands/test_mm.c\<close>, and the
  user program's \<open>memset\<close> and \<open>_start\<close> (\<open>_loader.c\<close>). The test runs on any memory manager with the
  interface of \<open>Allocator\<close>; it is shown never to report an error, on both managers of the kernel.

  The pseudo-random numbers go through \<open>double\<close>. Its arithmetic is exact arithmetic on the rationals
  followed by a rounding, and the rounding \<open>rnd\<close> is a parameter: IEEE 754 asks that it be monotone and
  leave numbers alone that have a representation.
\<close>

section \<open>Definitions\<close>

fun memsetLoop_u :: "addr \<Rightarrow> u8 \<Rightarrow> nat \<Rightarrow> mem \<Rightarrow> mem" where
  "memsetLoop_u dst chr 0 m = m"
| "memsetLoop_u dst chr (Suc n) m = memsetLoop_u dst chr n (m(dst + n := chr))"

definition memset_u :: "addr \<Rightarrow> int \<Rightarrow> nat \<Rightarrow> mem \<Rightarrow> addr \<times> mem" where
  "memset_u destination c n m = (destination, memsetLoop_u destination (byte c) n m)"

definition start_u :: "addr \<Rightarrow> addr \<Rightarrow> mem \<Rightarrow> mem" where
  "start_u bss endOfBinary m = snd (memset_u bss 0 (endOfBinary - bss) m)"

record seed =
  m_z :: u32
  m_w :: u32

definition seed0 :: seed where
  "seed0 = \<lparr>m_z = 362436069, m_w = 521288629\<rparr>"

definition GetUint :: "seed \<Rightarrow> u32 \<times> seed" where
  "GetUint g =
     (let z = 36969 * (m_z g AND 65535) + drop_bit 16 (m_z g);
          w = 18000 * (m_w g AND 65535) + drop_bit 16 (m_w g)
      in (push_bit 16 z + w, \<lparr>m_z = z, m_w = w\<rparr>))"

type_synonym rounding = "rat \<Rightarrow> rat"

text \<open>The conversion of a \<open>double\<close> to \<open>uint32_t\<close>, for values in range.\<close>

definition to_u32 :: "rat \<Rightarrow> u32" where
  "to_u32 x = of_nat (nat \<lfloor>x\<rfloor>)"

definition GetUniform :: "rounding \<Rightarrow> u32 \<Rightarrow> seed \<Rightarrow> u32 \<times> seed" where
  "GetUniform rnd mx g =
     (let (u, g) = GetUint g
      in (to_u32 (rnd (rnd (rnd (of_nat (unat u) + 1) * rnd (2328306435454494 / 10 ^ 25)) * of_nat (unat mx))), g))"

fun memcheck :: "mem \<Rightarrow> addr \<Rightarrow> u8 \<Rightarrow> nat \<Rightarrow> bool" where
  "memcheck m p v 0 = True"
| "memcheck m p v (Suc n) = (if m p \<noteq> v then False else memcheck m (p + 1) v n)"

definition MAX_BLOCKS :: nat where
  "MAX_BLOCKS = 128"

definition MAX_MEMORY :: "rounding \<Rightarrow> rat" where
  "MAX_MEMORY rnd = rnd (rnd (rnd (rnd (8 / 10) * 1024) * 1024) * 512)"

text \<open>The requests, from the block number \<open>rq\<close> on.\<close>

function allocLoop_t :: "(nat \<Rightarrow> 's \<Rightarrow> (addr \<times> 's) option) \<Rightarrow> rounding \<Rightarrow> nat \<Rightarrow> u32 \<Rightarrow> seed \<Rightarrow> 's \<Rightarrow>
    ((addr \<times> u32) list \<times> seed \<times> 's) option" where
  "allocLoop_t malloc rnd rq tot g s =
     (if rq < MAX_BLOCKS \<and> of_nat (unat tot) < MAX_MEMORY rnd
      then do {
        let (u, g) = GetUniform rnd (to_u32 (rnd (rnd (MAX_MEMORY rnd - of_nat (unat tot)) - 1))) g;
        let sz = u + 1;
        (address, s) \<leftarrow> malloc (unat sz) s;
        (rqs, g, s) \<leftarrow> allocLoop_t malloc rnd (rq + 1) (tot + sz) g s;
        Some ((address, sz) # rqs, g, s)
      }
      else Some ([], g, s))"
  by pat_completeness auto
termination
  by (relation "measure (\<lambda>(a, b, rq, c, d, e). MAX_BLOCKS - rq)") auto

fun setLoop_t :: "nat \<Rightarrow> (addr \<times> u32) list \<Rightarrow> mem \<Rightarrow> mem" where
  "setLoop_t i [] m = m"
| "setLoop_t i ((address, sz) # rqs) m =
     setLoop_t (i + 1) rqs (if address \<noteq> NULL then snd (memset_u address (int i) (unat sz) m) else m)"

text \<open>The number of errors that are printed.\<close>

fun checkLoop_t :: "nat \<Rightarrow> (addr \<times> u32) list \<Rightarrow> mem \<Rightarrow> nat" where
  "checkLoop_t i [] m = 0"
| "checkLoop_t i ((address, sz) # rqs) m =
     (if address \<noteq> NULL \<and> \<not> memcheck m address (of_nat i) (unat sz) then 1 else 0) + checkLoop_t (i + 1) rqs m"

fun freeLoop_t :: "(addr \<Rightarrow> 's \<Rightarrow> 's option) \<Rightarrow> (addr \<times> u32) list \<Rightarrow> 's \<Rightarrow> 's option" where
  "freeLoop_t free [] s = Some s"
| "freeLoop_t free ((address, sz) # rqs) s =
     do { s \<leftarrow> (if address \<noteq> NULL then free address s else Some s); freeLoop_t free rqs s }"

text \<open>The test runs for ever: \<open>test_mm n\<close> is its first \<open>n\<close> rounds, and counts the errors they print.\<close>

fun test_mm :: "(nat \<Rightarrow> 's \<Rightarrow> (addr \<times> 's) option) \<Rightarrow> (addr \<Rightarrow> 's \<Rightarrow> 's option) \<Rightarrow> rounding \<Rightarrow> nat \<Rightarrow>
    seed \<Rightarrow> mem \<Rightarrow> 's \<Rightarrow> (nat \<times> seed \<times> mem \<times> 's) option" where
  "test_mm malloc free rnd 0 g m s = Some (0, g, m, s)"
| "test_mm malloc free rnd (Suc n) g m s =
     do {
       (rqs, g, s) \<leftarrow> allocLoop_t malloc rnd 0 0 g s;
       let m = setLoop_t 0 rqs m;
       let e = checkLoop_t 0 rqs m;
       s \<leftarrow> freeLoop_t free rqs s;
       (es, g, m, s) \<leftarrow> test_mm malloc free rnd n g m s;
       Some (e + es, g, m, s)
     }"

declare allocLoop_t.simps [simp del]

section \<open>Filling and checking\<close>

lemma memset_u_wr: "memset_u p c n m = (p, wr m p (replicate n (byte c)))"
proof -
  have "memsetLoop_u p chr n m = memset_loop chr p n m" for chr by (induction n arbitrary: m) auto
  then show ?thesis by (simp add: memset_u_def memset_loop_wr)
qed

lemma memcheck_iff: "memcheck m p v n \<longleftrightarrow> (\<forall>i < n. m (p + i) = v)"
  by (induction n arbitrary: p) (auto simp: less_Suc_eq_0_disj)

text \<open>The blocks of a list do not meet.\<close>

definition meet :: "addr \<times> u32 \<Rightarrow> addr \<times> u32 \<Rightarrow> bool" where
  "meet a b \<longleftrightarrow> fst a \<noteq> NULL \<and> fst b \<noteq> NULL \<and> fst a < fst b + unat (snd b) \<and> fst b < fst a + unat (snd a)"

definition in_block :: "addr \<Rightarrow> addr \<times> u32 \<Rightarrow> bool" where
  "in_block x a \<longleftrightarrow> fst a \<noteq> NULL \<and> fst a \<le> x \<and> x < fst a + unat (snd a)"

lemma setLoop_outside: "(\<And>a. a \<in> set rqs \<Longrightarrow> \<not> in_block x a) \<Longrightarrow> setLoop_t i rqs m x = m x"
proof (induction rqs arbitrary: i m)
  case (Cons a rqs)
  then have "\<not> in_block x a" "\<And>b. b \<in> set rqs \<Longrightarrow> \<not> in_block x b" by simp_all
  with Cons.IH show ?case by (cases a) (auto simp: memset_u_wr wr_def in_block_def)
qed simp

lemma setLoop_check:
  assumes "pairwise (\<lambda>a b. \<not> meet a b) (set rqs)" "distinct (filter (\<lambda>a. fst a \<noteq> NULL) rqs)"
  shows "checkLoop_t i rqs (setLoop_t i rqs m) = 0"
  using assms
proof (induction rqs arbitrary: i m)
  case Nil
  then show ?case by simp
next
  case (Cons a rqs)
  obtain p n where a: "a = (p, n)" by force
  let ?m = "if p \<noteq> NULL then wr m p (replicate (unat n) (byte (int i))) else m"
  have s: "setLoop_t i (a # rqs) m = setLoop_t (i + 1) rqs ?m" by (simp add: a memset_u_wr)
  have "memcheck (setLoop_t (i + 1) rqs ?m) p (of_nat i) (unat n)" if p: "p \<noteq> NULL"
    unfolding memcheck_iff
  proof (intro allI impI)
    fix k assume k: "k < unat n"
    define x where "x = p + k"
    have x: "p \<le> x \<and> x < p + unat n" using k by (simp add: x_def)
    have "\<not> in_block x b" if b: "b \<in> set rqs" for b
    proof -
      have "in_block x b \<Longrightarrow> fst b \<noteq> NULL" by (simp add: in_block_def)
      moreover have "in_block x b \<Longrightarrow> meet a b" using x p by (auto simp: in_block_def meet_def a)
      moreover have "fst b \<noteq> NULL \<Longrightarrow> a \<noteq> b" using Cons.prems(2) b p by (auto simp: a)
      ultimately show ?thesis using Cons.prems(1) b by (auto simp: pairwise_def)
    qed
    then have "setLoop_t (i + 1) rqs ?m x = ?m x" by (rule setLoop_outside)
    then show "setLoop_t (i + 1) rqs ?m (p + k) = of_nat i" using k p by (simp add: wr_def byte_def x_def)
  qed
  moreover have "checkLoop_t (i + 1) rqs (setLoop_t (i + 1) rqs ?m) = 0"
    using Cons.IH Cons.prems by (simp add: pairwise_insert split: if_splits)
  ultimately show ?case by (simp only: s) (simp add: a)
qed

section \<open>The sizes of the requests\<close>

text \<open>What IEEE 754 says of the rounding: it is monotone, and exact on fractions with few bits.\<close>

definition ieee_rounding :: "rounding \<Rightarrow> bool" where
  "ieee_rounding rnd \<longleftrightarrow> mono rnd \<and> (\<forall>k n. \<bar>k\<bar> \<le> 2 ^ 53 \<longrightarrow> n \<le> 1000 \<longrightarrow> rnd (of_int k / 2 ^ n) = of_int k / 2 ^ n)"

lemma ieee_mono: "ieee_rounding rnd \<Longrightarrow> x \<le> y \<Longrightarrow> rnd x \<le> rnd y"
  by (simp add: ieee_rounding_def mono_def)

lemma ieee_int: "ieee_rounding rnd \<Longrightarrow> \<bar>k\<bar> \<le> 2 ^ 53 \<Longrightarrow> rnd (of_int k) = of_int k"
  unfolding ieee_rounding_def by (metis div_by_1 power_0 zero_le)

lemma ieee_le: "ieee_rounding rnd \<Longrightarrow> \<bar>k\<bar> \<le> 2 ^ 53 \<Longrightarrow> x \<le> of_int k \<Longrightarrow> rnd x \<le> of_int k"
  using ieee_mono [of rnd x "of_int k"] ieee_int [of rnd k] by simp

lemma MAX_MEMORY_le: assumes "ieee_rounding rnd" shows "MAX_MEMORY rnd \<le> 536870912"
proof -
  have a: "rnd (8 / 10) \<le> 1" using ieee_le [OF assms, of 1 "8 / 10"] by simp
  have b: "rnd (rnd (8 / 10) * 1024) \<le> 1024" using ieee_le [OF assms, of 1024 "rnd (8 / 10) * 1024"] a by simp
  have c: "rnd (rnd (rnd (8 / 10) * 1024) * 1024) \<le> 1048576"
    using ieee_le [OF assms, of 1048576 "rnd (rnd (8 / 10) * 1024) * 1024"] b by simp
  show ?thesis unfolding MAX_MEMORY_def
    using ieee_le [OF assms, of 536870912 "rnd (rnd (rnd (8 / 10) * 1024) * 1024) * 512"] c by simp
qed

lemma to_u32_le: "x \<le> of_nat k \<Longrightarrow> k < 2 ^ 32 \<Longrightarrow> unat (to_u32 x) \<le> k"
proof -
  assume x: "x \<le> of_nat k" "k < 2 ^ 32"
  have "\<lfloor>x\<rfloor> \<le> int k" using x(1) by (simp add: floor_le_iff)
  then have k: "nat \<lfloor>x\<rfloor> \<le> k" by simp
  then have "unat (to_u32 x) = nat \<lfloor>x\<rfloor>" using x(2) by (simp add: to_u32_def unsigned_of_nat take_bit_nat_eq_self)
  with k show ?thesis by simp
qed

lemma GetUniform_le:
  assumes "ieee_rounding rnd"
  shows "unat (fst (GetUniform rnd mx g)) \<le> unat mx"
proof -
  obtain u h where u: "GetUint g = (u, h)" by force
  let ?c = "rnd (2328306435454494 / 10 ^ 25)" and ?u = "rnd (of_nat (unat u) + 1)"
  have "unat u < 2 ^ 32" by (rule order_less_le_trans [OF unsigned_less]) simp
  then have "of_nat (unat u + 1) \<le> (of_nat (2 ^ 32) :: rat)" by (intro of_nat_mono) simp
  then have "of_nat (unat u) + 1 \<le> (of_int (2 ^ 32) :: rat)" by simp
  then have ub: "?u \<le> 2 ^ 32" using ieee_le [OF assms, of "2 ^ 32" "of_nat (unat u) + 1"] by simp
  have u0: "0 \<le> ?u" using ieee_mono [OF assms, of 0 "of_nat (unat u) + 1"] ieee_int [OF assms, of 0] of_nat_0_le_iff [of "unat u + 1", where ?'a = rat] by simp
  have "rnd (of_int 1 / 2 ^ 32) = of_int 1 / 2 ^ 32" using assms unfolding ieee_rounding_def by (elim conjE allE [of _ 1] allE [of _ 32]) simp
  moreover have "?c \<le> rnd (of_int 1 / 2 ^ 32)" by (rule ieee_mono [OF assms]) simp
  ultimately have c: "?c \<le> 1 / 2 ^ 32" by simp
  have c0: "0 \<le> ?c" using ieee_mono [OF assms, of 0 "2328306435454494 / 10 ^ 25"] ieee_int [OF assms, of 0] by simp
  have "?u * ?c \<le> 2 ^ 32 * (1 / 2 ^ 32)" by (rule mult_mono [OF ub c]) (use c0 in simp_all)
  then have r: "rnd (?u * ?c) \<le> 1" using ieee_le [OF assms, of 1 "?u * ?c"] by simp
  have "rnd (?u * ?c) * of_nat (unat mx) \<le> 1 * of_nat (unat mx)" by (rule mult_right_mono [OF r]) (rule of_nat_0_le_iff)
  moreover have "unat mx < 2 ^ 32" by (rule order_less_le_trans [OF unsigned_less]) simp
  moreover have "uint mx < 2 ^ 32" by (rule order_less_le_trans [OF unsigned_less]) simp
  ultimately have "rnd (rnd (?u * ?c) * of_nat (unat mx)) \<le> of_nat (unat mx)"
    using ieee_le [OF assms, of "int (unat mx)" "rnd (?u * ?c) * of_nat (unat mx)"] by simp
  then have "unat (to_u32 (rnd (rnd (?u * ?c) * of_nat (unat mx)))) \<le> unat mx"
    using to_u32_le \<open>unat mx < 2 ^ 32\<close> by blast
  then show ?thesis using u by (simp add: GetUniform_def)
qed

text \<open>The test makes between one and 128 requests, none of them empty or larger than the memory.\<close>

lemma request_size:
  assumes "ieee_rounding rnd"
  shows "unat (fst (GetUniform rnd (to_u32 (rnd (rnd (MAX_MEMORY rnd - of_nat (unat tot)) - 1))) g) + 1) \<le> 2 ^ 29"
    and "0 < unat (fst (GetUniform rnd (to_u32 (rnd (rnd (MAX_MEMORY rnd - of_nat (unat tot)) - 1))) g) + 1)"
proof -
  let ?a = "to_u32 (rnd (rnd (MAX_MEMORY rnd - of_nat (unat tot)) - 1))"
  have "MAX_MEMORY rnd - of_nat (unat tot) \<le> of_int 536870912" 
    using MAX_MEMORY_le [OF assms] of_nat_0_le_iff [of "unat tot", where ?'a = rat] by simp
  then have "rnd (MAX_MEMORY rnd - of_nat (unat tot)) \<le> of_int 536870912" by (intro ieee_le [OF assms]) simp_all
  then have "rnd (rnd (MAX_MEMORY rnd - of_nat (unat tot)) - 1) \<le> of_int 536870911" by (intro ieee_le [OF assms]) simp_all
  then have "unat ?a \<le> 536870911" by (intro to_u32_le) simp_all
  then have u: "unat (fst (GetUniform rnd ?a g)) \<le> 536870911" using GetUniform_le [OF assms, of ?a g] by linarith
  then have "unat (fst (GetUniform rnd ?a g) + 1) = unat (fst (GetUniform rnd ?a g)) + 1" by (intro unat_add_lem [THEN iffD1, THEN trans]) auto
  with u show "unat (fst (GetUniform rnd ?a g) + 1) \<le> 2 ^ 29" "0 < unat (fst (GetUniform rnd ?a g) + 1)" by simp_all
qed

lemma mallocs_length: "mallocs malloc ns s = Some (ps, t) \<Longrightarrow> length ps = length ns"
  by (induction ns arbitrary: s ps t) (auto split: Option.bind_splits)

text \<open>The sizes do not depend on the memory manager.\<close>

lemma allocLoop_mallocs:
  assumes "ieee_rounding rnd"
  shows "\<exists>ns g'. (\<forall>s. allocLoop_t malloc rnd rq tot g s =
      do { (ps, s) \<leftarrow> mallocs malloc (map unat ns) s; Some (zip ps ns, g', s) }) \<and> (\<forall>n \<in> set ns. unat n \<le> 2 ^ 29)"
proof (induction "MAX_BLOCKS - rq" arbitrary: rq tot g rule: less_induct)
  case less
  let ?r = "GetUniform rnd (to_u32 (rnd (rnd (MAX_MEMORY rnd - of_nat (unat tot)) - 1))) g"
  let ?n = "fst ?r + 1"
  show ?case
  proof (cases "rq < MAX_BLOCKS \<and> of_nat (unat tot) < MAX_MEMORY rnd")
    case False
    then show ?thesis by (intro exI [of _ "[]"] exI [of _ g]) (auto simp: allocLoop_t.simps [of malloc rnd rq])
  next
    case True
    then have "MAX_BLOCKS - (rq + 1) < MAX_BLOCKS - rq" by linarith
    from less [OF this, of "tot + ?n" "snd ?r"] obtain ns g' where
      n: "\<And>s. allocLoop_t malloc rnd (rq + 1) (tot + ?n) (snd ?r) s =
        do { (ps, s) \<leftarrow> mallocs malloc (map unat ns) s; Some (zip ps ns, g', s) }" "\<forall>n \<in> set ns. unat n \<le> 2 ^ 29"
      by blast
    have "allocLoop_t malloc rnd rq tot g s =
        do { (ps, s) \<leftarrow> mallocs malloc (map unat (?n # ns)) s; Some (zip ps (?n # ns), g', s) }" for s
      using True n(1) by (subst allocLoop_t.simps) (auto simp: split_beta Let_def split: Option.bind_splits)
    moreover have "unat ?n \<le> 2 ^ 29" by (rule request_size(1) [OF assms])
    ultimately show ?thesis using n(2) by (intro exI [of _ "?n # ns"] exI [of _ g']) auto
  qed
qed

lemma freeLoop_frees:
  "length ps = length ns \<Longrightarrow> freeLoop_t free (zip ps ns) s = frees free (filter (\<lambda>p. p \<noteq> NULL) ps) s"
  by (induction ps ns arbitrary: s rule: list_induct2) (auto intro!: Option.bind_cong)

section \<open>On any memory manager\<close>

context allocator
begin

lemma mallocs_other:
  assumes "ok s" "\<And>n. n \<in> set ns \<Longrightarrow> n < lim" "mallocs malloc ns s = Some (ps, t)" "p \<notin> set ps \<or> p = NULL"
  shows "live t p = live s p"
  using assms
proof (induction ns arbitrary: s ps)
  case Nil
  then show ?case by simp
next
  case (Cons n ns)
  then obtain q u qs where q: "malloc n s = Some (q, u)" "mallocs malloc ns u = Some (qs, t)" "ps = q # qs"
    by (auto split: Option.bind_splits)
  have "ok u \<and> (live u = live s \<or> q \<noteq> NULL \<and> (\<exists>k. live u = (live s)(q \<mapsto> k)))"
    using malloc_result [OF Cons.prems(1), of n] Cons.prems(2) q(1) by fastforce
  moreover have "live t p = live u p" if "ok u" using Cons.IH [OF that _ q(2)] Cons.prems(2,4) q(3) by auto
  ultimately show ?case using Cons.prems(4) q(3) by auto
qed

lemma mm_round:
  assumes "ok s" "ieee_rounding rnd" "2 ^ 29 < lim"
  shows "\<exists>rqs g' s1 s2. allocLoop_t malloc rnd 0 0 g s = Some (rqs, g', s1) \<and> checkLoop_t 0 rqs (setLoop_t 0 rqs m) = 0 \<and>
    freeLoop_t free rqs s1 = Some s2 \<and> ok s2 \<and> live s2 = live s \<and>
    (\<forall>p k x. live s p = Some k \<longrightarrow> p \<le> x \<longrightarrow> x < p + k \<longrightarrow> setLoop_t 0 rqs m x = m x)"
proof -
  obtain ns g' where n: "\<And>s. allocLoop_t malloc rnd 0 0 g s =
      do { (ps, s) \<leftarrow> mallocs malloc (map unat ns) s; Some (zip ps ns, g', s) }" "\<And>n. n \<in> set ns \<Longrightarrow> unat n \<le> 2 ^ 29"
    using allocLoop_mallocs [OF assms(2), of malloc 0 0 g] by blast
  have lim: "k < lim" if "k \<in> set (map unat ns)" for k using n(2) that assms(3) by fastforce
  obtain ps s1 where m: "mallocs malloc (map unat ns) s = Some (ps, s1)" "ok s1" "length ps = length ns"
    "\<And>q k. live s q = Some k \<Longrightarrow> live s1 q = Some k"
    "\<And>p. p \<in> set ps \<Longrightarrow> p \<noteq> NULL \<Longrightarrow> live s p = None"
    "\<And>i. i < length ps \<Longrightarrow> ps ! i \<noteq> NULL \<Longrightarrow> \<exists>k \<ge> unat (ns ! i). live s1 (ps ! i) = Some k"
    "distinct (filter (\<lambda>p. p \<noteq> NULL) ps)"
    using mallocs_result [OF assms(1), of "map unat ns", OF lim] by auto
  let ?rqs = "zip ps ns"
  have blk: "\<exists>k \<ge> unat z. live s1 p = Some k" if "(p, z) \<in> set ?rqs" "p \<noteq> NULL" for p z
  proof -
    obtain i where i: "i < length ps" "ps ! i = p" "ns ! i = z" using \<open>(p, z) \<in> set ?rqs\<close> m(3) by (auto simp: set_zip)
    with m(6) [of i] that(2) show ?thesis by simp
  qed
  have ds: "distinct (filter (\<lambda>a. fst a \<noteq> NULL) ?rqs)" and inj: "\<And>p y z. (p, y) \<in> set ?rqs \<Longrightarrow> (p, z) \<in> set ?rqs \<Longrightarrow> p \<noteq> NULL \<Longrightarrow> y = z"
  proof -
    have f: "filter (\<lambda>p. p \<noteq> NULL) ps = map fst (filter (\<lambda>a. fst a \<noteq> NULL) ?rqs)"
      using m(3) by (induction ps ns rule: list_induct2) auto
    then have d: "distinct (map fst (filter (\<lambda>a. fst a \<noteq> NULL) ?rqs))" using m(7) by simp
    then show "distinct (filter (\<lambda>a. fst a \<noteq> NULL) ?rqs)" by (simp add: distinct_map)
    show "y = z" if "(p, y) \<in> set ?rqs" "(p, z) \<in> set ?rqs" "p \<noteq> NULL" for p y z
      using eq_key_imp_eq_value [OF d, of p y z] that by simp
  qed
  have pw: "pairwise (\<lambda>a b. \<not> meet a b) (set ?rqs)"
  proof (rule pairwiseI)
    fix a b assume ab: "a \<in> set ?rqs" "b \<in> set ?rqs" "a \<noteq> b"
    obtain p y q z where e: "a = (p, y)" "b = (q, z)" by force
    show "\<not> meet a b"
    proof (cases "p = NULL \<or> q = NULL")
      case False
      then obtain j k where "unat y \<le> j" "live s1 p = Some j" "unat z \<le> k" "live s1 q = Some k" using blk ab e by blast
      moreover have "p \<noteq> q" using inj [of p y z] ab e False by auto
      ultimately show ?thesis using live_apart [OF m(2), of p j q k] by (auto simp: meet_def e)
    qed (auto simp: meet_def e)
  qed
  let ?qs = "filter (\<lambda>p. p \<noteq> NULL) ps"
  have "live s1 p \<noteq> None" if "p \<in> set ?qs" for p
    using m(6) that by (auto simp: in_set_conv_nth)
  then obtain s2 where s2: "frees free ?qs s1 = Some s2" "ok s2" "live s2 = live s1 |` (- set ?qs)"
    using frees_live [OF m(2,7)] by blast
  have "live s2 p = live s p" for p
    using mallocs_other [OF assms(1) lim m(1), of p] m(5) [of p] s2(3) by (cases "p \<in> set ?qs") auto
  then have lv: "live s2 = live s" by blast
  have out: "setLoop_t 0 ?rqs m x = m x" if x: "live s p = Some k" "p \<le> x" "x < p + k" for p k x
  proof (rule setLoop_outside)
    fix a assume a: "a \<in> set ?rqs"
    obtain q z where e: "a = (q, z)" by force
    show "\<not> in_block x a"
    proof (cases "q = NULL")
      case False
      then obtain j where j: "unat z \<le> j" "live s1 q = Some j" using blk [of q z] a e by blast
      have "q \<in> set ps" using a e by (auto dest: set_zip_leftD)
      then have "p \<noteq> q" using m(5) False x(1) by auto
      then show ?thesis using live_apart [OF m(2) m(4) [OF x(1)] j(2)] j(1) x by (auto simp: in_block_def e)
    qed (simp add: in_block_def e)
  qed
  show ?thesis
    using n(1) [of s] m(1) setLoop_check [OF pw ds] freeLoop_frees [OF m(3), of free s1] s2 lv out
    by (intro exI [of _ ?rqs] exI [of _ g'] exI [of _ s1] exI [of _ s2]) simp
qed

lemma mm_test:
  assumes "ok s" "ieee_rounding rnd" "2 ^ 29 < lim"
  shows "\<exists>g' m' s'. test_mm malloc free rnd n g m s = Some (0, g', m', s') \<and> ok s' \<and> live s' = live s \<and>
    (\<forall>p k x. live s p = Some k \<longrightarrow> p \<le> x \<longrightarrow> x < p + k \<longrightarrow> m' x = m x)"
  using assms(1)
proof (induction n arbitrary: g m s)
  case 0
  then show ?case by auto
next
  case (Suc n)
  obtain rqs g1 s1 s2 where r: "allocLoop_t malloc rnd 0 0 g s = Some (rqs, g1, s1)" "checkLoop_t 0 rqs (setLoop_t 0 rqs m) = 0"
    "freeLoop_t free rqs s1 = Some s2" "ok s2" "live s2 = live s"
    "\<forall>p k x. live s p = Some k \<longrightarrow> p \<le> x \<longrightarrow> x < p + k \<longrightarrow> setLoop_t 0 rqs m x = m x"
    using mm_round [OF Suc.prems assms(2,3), of g m] by blast
  from Suc.IH [OF r(4), of g1 "setLoop_t 0 rqs m"] obtain g' m' s' where
    t: "test_mm malloc free rnd n g1 (setLoop_t 0 rqs m) s2 = Some (0, g', m', s')" "ok s'" "live s' = live s2"
    "\<forall>p k x. live s2 p = Some k \<longrightarrow> p \<le> x \<longrightarrow> x < p + k \<longrightarrow> m' x = setLoop_t 0 rqs m x" by blast
  with r show ?case by auto
qed

end

section \<open>On the managers of the kernel\<close>

text \<open>C27: the test of the memory manager never reports an error and leaves nothing behind, on both memory managers of the
  kernel: whatever the number of rounds and the seed, its calls return, all its checks find the bytes it wrote, at
  the end exactly the blocks from before are in use, and no byte of those has changed.\<close>

theorem test_mm_no_errors:
  assumes "ieee_rounding rnd" "mm_ok s" "Buddy_Props.heap_ok b"
  shows "(\<exists>g' m' s'. test_mm pvPortMalloc vPortFree rnd n g m s = Some (0, g', m', s') \<and> mm_ok s' \<and>
      payload s' = payload s \<and> (\<forall>p k x. payload s p = Some k \<longrightarrow> p \<le> x \<longrightarrow> x < p + k \<longrightarrow> m' x = m x)) \<and>
    (\<exists>g' m' b'. test_mm pvPortMalloc_b vPortFree_b rnd n g m b = Some (0, g', m', b') \<and> Buddy_Props.heap_ok b' \<and>
      used b' = used b \<and> (\<forall>p k x. used b p = Some k \<longrightarrow> p \<le> x \<longrightarrow> x < p + k \<longrightarrow> m' x = m x))"
  using frt4.mm_test [OF assms(2,1)] buddy.mm_test [OF assms(3,1)] by simp

theorem test_mm_no_errors_witness:
  "\<exists>g' m' s'. test_mm pvPortMalloc vPortFree id 3 seed0 (\<lambda>_. 0) boot_mm = Some (0, g', m', s')"
proof -
  have "ieee_rounding id" by (simp add: ieee_rounding_def mono_def)
  then show ?thesis
    using test_mm_no_errors [of id boot_mm buddy0 3 seed0 "\<lambda>_. 0"] boot_fresh buddy0_ok(1) by (auto simp: mm_ok_def)
qed

end
