(* ===== verification/Shell.thy ===== *)
theory Shell
  imports Libc
begin

text \<open>
  The shell, \<open>src/Userland/SampleCodeModule/shell/shell.c\<close>: definitions. The line is in byte memory, and the
  tokens are the pointers into it that \<open>strtok\<close> gives. The arrays that the shell fills and hands to a
  process (\<open>argv0\<close>, \<open>argv1\<close>, \<open>fd1\<close>, \<open>fd2\<close>) are values; the calls it makes are a list, in which the blocks
  from \<open>sys_malloc\<close> go by their number. Two functions stand for the kernel's answers after the calls so far, the last one
  included: \<open>gives\<close> says whether \<open>sys_malloc\<close> returns a block and not NULL, and \<open>kern\<close> what \<open>sys_openPipe\<close> returns, the two
  file descriptors, or \<open>None\<close> for a failure. The shell never compares a block with NULL: when one that is written to is
  missing it writes at address 0, where the interrupt table is, and the line has no result (\<open>None\<close>). Characters come from
  a list; the shell waits (\<open>None\<close>) when it is empty.
\<close>

section \<open>Literals\<close>

text \<open>\<open>strcmp\<close> with a string literal.\<close>

fun strcmp_lit :: "mem \<Rightarrow> addr \<Rightarrow> string \<Rightarrow> int" where
  "strcmp_lit m s [] = sint (m s)"
| "strcmp_lit m s (c # cs) =
     (if m s \<noteq> 0 \<and> m s = of_char c then strcmp_lit m (s + 1) cs else sint (m s) - sint (of_char c :: u8))"

text \<open>The first \<open>n\<close> bytes of a literal and its NUL.\<close>

definition literal :: "string \<Rightarrow> nat \<Rightarrow> u8 list" where
  "literal s n = take n (map of_char s @ [0])"

section \<open>State\<close>

record cmd_t =
  name_c :: string
  func_c :: string
  isBuiltIn :: bool
  isForeground_c :: bool

definition commands :: "cmd_t list" where
  "commands = map (\<lambda>(n, f, b). \<lparr>name_c = n, func_c = f, isBuiltIn = b, isForeground_c = True\<rparr>)
    [(''help'', ''help'', False), (''cat'', ''cat'', False), (''time'', ''time'', False), (''block'', ''block'', True),
     (''unblock'', ''unblock'', True), (''inforeg'', ''inforeg'', False), (''excdiv'', ''excdiv'', False),
     (''excop'', ''excop'', False), (''filter'', ''filter'', False), (''clear'', ''clear'', True),
     (''cpufeatures'', ''cpufeatures'', False), (''nice'', ''nice'', False), (''ps'', ''ps'', False),
     (''pipes'', ''pipe'', False), (''kill'', ''kill'', True), (''sem'', ''sem'', False),
     (''quadratic'', ''quadratic'', False), (''printmem'', ''printmem'', False), (''phylo'', ''phylo'', False),
     (''wc'', ''wc'', False), (''loop'', ''loop'', False), (''mem'', ''mem'', False), (''test_mm'', ''test_mm'', False),
     (''test_prio'', ''test_prio'', False), (''test_processes'', ''test_processes'', False),
     (''test_sync'', ''test_sync'', False), (''test_no_sync'', ''test_no_sync'', False)]"

datatype call =
  Text "u8 list"
| String addr
| Char int
| Malloc int
| Free nat
| OpenPipe nat string
| LoadProcess string bool int "addr list" "int \<times> int"
| BuiltIn string int "addr list"
| WaitChild
| ClosePipe int

record shell_state =
  umem :: mem
  cmds :: "cmd_t list"
  calls :: "call list"

definition did :: "call list \<Rightarrow> shell_state \<Rightarrow> shell_state" where
  "did cs s = s\<lparr>calls := calls s @ cs\<rparr>"

definition SIZE_s :: int where
  "SIZE_s = 100"

definition MAX_ARGS :: nat where
  "MAX_ARGS = 11"

section \<open>Reading a line\<close>

text \<open>The loop of \<open>scanfNoPrint\<close> on the characters that \<open>getChar\<close> returns.\<close>

fun scanfLoop :: "addr \<Rightarrow> int list \<Rightarrow> int \<Rightarrow> shell_state \<Rightarrow> (int \<times> int list \<times> shell_state) option" where
  "scanfLoop buffer [] i s = None"
| "scanfLoop buffer (c # cs) i s =
     (if c \<noteq> 10 \<and> i < SIZE_s - 1
      then if c \<noteq> - 1
           then if c = 8 \<and> i > 0
                then scanfLoop buffer cs (i - 1) (did [Char 8] (s\<lparr>umem := (umem s)(idx buffer (i - 1) := 32)\<rparr>))
                else if c \<noteq> 0 \<and> c \<noteq> 8
                then scanfLoop buffer cs (i + 1) (did [Char c] (s\<lparr>umem := (umem s)(idx buffer i := byte c)\<rparr>))
                else scanfLoop buffer cs i s
           else scanfLoop buffer cs i s
      else Some (i, cs, s))"

definition scanfNoPrint :: "addr \<Rightarrow> int list \<Rightarrow> shell_state \<Rightarrow> (int \<times> int list \<times> shell_state) option" where
  "scanfNoPrint buffer cs s =
     do { (i, cs, s) \<leftarrow> scanfLoop buffer cs 0 s; Some (i, cs, s\<lparr>umem := (umem s)(idx buffer i := 0)\<rparr>) }"

section \<open>Running a line\<close>

text \<open>The tokens, and the places of the pipe, the end and the ampersand among them.\<close>

record line_t =
  tokens :: "addr list"
  pipe_l :: int
  end_l :: int
  ampersand :: int

function tokLoop :: "nat \<Rightarrow> line_t \<Rightarrow> mem \<Rightarrow> (line_t \<times> mem) option" where
  "tokLoop i l m =
     (if i < MAX_ARGS
      then do {
        (t, m) \<leftarrow> strtok (tokens l ! (i - 1)) 32 m;
        let l = l\<lparr>tokens := tokens l @ [t]\<rparr>;
        let l = (if i > 1 \<and> strcmp_lit m (tokens l ! (i - 1)) ''|'' = 0 then l\<lparr>pipe_l := int i - 1\<rparr> else l);
        if m t = 0
        then if i > 1 \<and> strcmp_lit m (tokens l ! (i - 1)) ''&'' = 0
             then Some (l\<lparr>ampersand := int i - 1, end_l := int i - 1\<rparr>, m)
             else Some (l\<lparr>end_l := int i\<rparr>, m)
        else tokLoop (i + 1) l m
      }
      else Some (l, m))"
  by pat_completeness auto
termination
  by (relation "measure (\<lambda>(i, l, m). MAX_ARGS - i)") auto

declare tokLoop.simps [simp del]

definition tokenize :: "addr \<Rightarrow> mem \<Rightarrow> (line_t \<times> mem) option" where
  "tokenize input m =
     do {
       t \<leftarrow> strstrip m input 32;
       tokLoop 1 \<lparr>tokens = [t], pipe_l = - 1, end_l = - 1, ampersand = - 1\<rparr> m
     }"

text \<open>The loop that looks a name up: the index of the command, or \<open>- 1\<close>.\<close>

fun findCmd :: "mem \<Rightarrow> addr \<Rightarrow> cmd_t list \<Rightarrow> int \<Rightarrow> int" where
  "findCmd m s [] i = - 1"
| "findCmd m s (c # cs) i = (if strcmp_lit m s (name_c c) = 0 then i else findCmd m s cs (i + 1))"

definition incorrect_comm :: "addr \<Rightarrow> shell_state \<Rightarrow> shell_state" where
  "incorrect_comm buffer s = did [String buffer, Text (literal '' is not a BottlerShell command\<newline>'' 32)] s"

text \<open>The tokens from \<open>a\<close> up to \<open>b\<close>, for the argument arrays.\<close>

definition slice :: "line_t \<Rightarrow> int \<Rightarrow> int \<Rightarrow> addr list" where
  "slice l a b = map (\<lambda>i. tokens l ! nat i) [a..b - 1]"

text \<open>The part behind the lookup: the processes are started, and what has to be given back is.\<close>

definition dispatch :: "line_t \<Rightarrow> int \<Rightarrow> int \<Rightarrow> int \<times> int \<Rightarrow> shell_state \<Rightarrow> shell_state" where
  "dispatch l comm0 comm1 fd s =
     (let pipe = pipe_l l;
          argv0 = slice l 0 (if pipe \<noteq> - 1 then pipe else end_l l);
          argv1 = slice l (pipe + 1) (end_l l);
          c0 = cmds s ! nat comm0;
          s = (if pipe \<noteq> - 1
               then did [LoadProcess (func_c c0) (isForeground_c c0) pipe argv0 (0, snd fd),
                         LoadProcess (func_c (cmds s ! nat comm1)) False (end_l l - pipe - 1) argv1 (fst fd, 1)] s
               else if isBuiltIn c0 then did [BuiltIn (func_c c0) (end_l l) argv0] s
               else
                 let s = (if ampersand l \<ge> 0 then s\<lparr>cmds := (cmds s)[nat comm0 := c0\<lparr>isForeground_c := False\<rparr>]\<rparr> else s)
                 in did [LoadProcess (func_c c0) (isForeground_c (cmds s ! nat comm0)) (end_l l) argv0 (0, 1)] s);
          s = (if isForeground_c (cmds s ! nat comm0) then did [WaitChild] s else s)
      in if pipe \<noteq> - 1 then did [Free 3, Free 4, ClosePipe (snd fd)] s else did [Free 1] s)"

text \<open>A block of \<open>n\<close> bytes from \<open>sys_malloc\<close>; \<open>used\<close> says whether the shell goes on to write to it.\<close>

definition sys_malloc_s :: "(call list \<Rightarrow> bool) \<Rightarrow> int \<Rightarrow> bool \<Rightarrow> shell_state \<Rightarrow> shell_state option" where
  "sys_malloc_s gives n used s =
     (let s = did [Malloc n] s in if gives (calls s) \<or> \<not> used then Some s else None)"

text \<open>The part behind the argument arrays. \<open>fd\<close> are the file descriptors of the pipe, if there is one.\<close>

definition runLine :: "line_t \<Rightarrow> int \<times> int \<Rightarrow> shell_state \<Rightarrow> shell_state" where
  "runLine l fd s =
     (let pipe = pipe_l l;
          comm0 = findCmd (umem s) (tokens l ! 0) (cmds s) 0;
          comm1 = (if comm0 \<noteq> - 1 \<and> pipe \<noteq> - 1 then findCmd (umem s) (tokens l ! nat (pipe + 1)) (cmds s) 0 else - 1)
      in if comm1 \<noteq> - 1 \<and> isBuiltIn (cmds s ! 0) \<and> ampersand l \<noteq> 0
         then did [Text (literal ''built-in commands are not able to run in background\<newline>'' 53)] s
         else
           let s = (if comm0 \<noteq> - 1 \<and> (comm1 \<noteq> - 1 \<or> pipe = - 1) then dispatch l comm0 comm1 fd s else s)
           in if comm0 = - 1
              then (if umem s (tokens l ! 0) \<noteq> 0 then incorrect_comm (tokens l ! 0) s else s)
              else if comm1 = - 1 \<and> pipe \<noteq> - 1
              then (if umem s (tokens l ! nat (pipe + 1)) \<noteq> 0 then incorrect_comm (tokens l ! nat (pipe + 1)) s else s)
              else s)"

text \<open>The argument arrays; an empty one is not written to.\<close>

definition argvs :: "(call list \<Rightarrow> bool) \<Rightarrow> line_t \<Rightarrow> shell_state \<Rightarrow> shell_state option" where
  "argvs gives l s =
     (if pipe_l l \<noteq> - 1
      then do {
        s \<leftarrow> sys_malloc_s gives (s32 (8 * pipe_l l)) (0 < pipe_l l) s;
        sys_malloc_s gives (s32 (8 * (end_l l - pipe_l l - 1))) (pipe_l l + 1 < end_l l) s
      }
      else sys_malloc_s gives (s32 (8 * end_l l)) (0 < end_l l) s)"

definition processInput :: "(call list \<Rightarrow> bool) \<Rightarrow> (call list \<Rightarrow> (int \<times> int) option) \<Rightarrow> addr \<Rightarrow> shell_state \<Rightarrow> shell_state option" where
  "processInput gives kern input s =
     do {
       (l, m) \<leftarrow> tokenize input (umem s);
       let s = s\<lparr>umem := m\<rparr>;
       if pipe_l l \<noteq> - 1 \<and> ampersand l \<ge> 0
       then Some (did [Text (literal ''piped processes are not able to run in background\<newline>'' 50)] s)
       else do {
         s \<leftarrow> sys_malloc_s gives 8 True s;
         if pipe_l l \<noteq> - 1
         then
           let s = did [Malloc 8] s; block = gives (calls s); s = did [OpenPipe 1 ''pipe''] s
           in case kern (calls s) of
                None \<Rightarrow> Some s
              | Some fd \<Rightarrow>
                  if block
                  then do { s \<leftarrow> sys_malloc_s gives 8 True s; s \<leftarrow> argvs gives l s; Some (runLine l fd s) }
                  else None
         else do { s \<leftarrow> argvs gives l s; Some (runLine l (0, 1) s) }
       }
     }"

partial_function (option) shellLoop :: "(call list \<Rightarrow> bool) \<Rightarrow> (call list \<Rightarrow> (int \<times> int) option) \<Rightarrow> addr \<Rightarrow> int list \<Rightarrow> shell_state \<Rightarrow> (int list \<times> shell_state) option" where
  "shellLoop gives kern buffer cs s =
     do {
       (n, cs, s) \<leftarrow> scanfNoPrint buffer cs s;
       if n \<noteq> 0
       then do {
         s \<leftarrow> processInput gives kern buffer (did [Char 10] s);
         shellLoop gives kern buffer cs (did [Text (literal ''$> '' 3)] s)
       }
       else Some (cs, s)
     }"

definition shell :: "(call list \<Rightarrow> bool) \<Rightarrow> (call list \<Rightarrow> (int \<times> int) option) \<Rightarrow> addr \<Rightarrow> int list \<Rightarrow> shell_state \<Rightarrow> (int list \<times> shell_state) option" where
  "shell gives kern buffer cs s =
     do {
       let s = did [Text (literal ''$> '' 3)] s;
       let s = s\<lparr>umem := wr (umem s) buffer (replicate (nat SIZE_s) 0)\<rparr>;
       shellLoop gives kern buffer cs s
     }"

end
