(* ===== verification/Shell_Props.thy ===== *)
theory Shell_Props
  imports Shell
begin

text \<open>
  The shell: its tokens are the words of the line, what a line makes it do, that its editing
  stays inside the line buffer, and what goes wrong with ampersands and with long lines.
\<close>

section \<open>Literals\<close>

lemma of_char_u8: "(of_char c :: u8) = word_of_nat (of_char c)"
  by (simp add: of_nat_of_char)

lemma of_char_u8_inj [simp]: "(of_char c :: u8) = of_char d \<longleftrightarrow> c = d"
proof
  assume "(of_char c :: u8) = of_char d"
  then have "unat (word_of_nat (of_char c) :: u8) = unat (word_of_nat (of_char d) :: u8)" by (simp add: of_char_u8)
  then have "(of_char c :: nat) = of_char d"
    using nat_of_char_less_256 [of c] nat_of_char_less_256 [of d] by (simp add: unsigned_of_nat take_bit_nat_eq_self)
  then show "c = d" by simp
qed simp

lemma of_char_u8_0: "(of_char c :: u8) = 0 \<longleftrightarrow> c = CHR 0x00"
  using of_char_u8_inj [of c "CHR 0x00"] by simp

lemma strcmp_lit_iff:
  assumes "cstr m p t" "CHR 0x00 \<notin> set lit"
  shows "strcmp_lit m p lit = 0 \<longleftrightarrow> t = map of_char lit"
  using assms
proof (induction lit arbitrary: p t)
  case Nil
  then show ?case by (cases t) auto
next
  case (Cons c cs)
  then have "(of_char c :: u8) \<noteq> 0" by (auto simp: of_char_u8_0)
  with Cons show ?case by (cases t) auto
qed

declare strcmp_lit.simps [simp del]

section \<open>The words of a line\<close>

function words :: "u8 list \<Rightarrow> u8 list list" where
  "words s =
     (case dropWhile (\<lambda>c. c = 32) s of
        [] \<Rightarrow> []
      | c # t \<Rightarrow> takeWhile (\<lambda>c. c \<noteq> 32) (c # t) # words (dropWhile (\<lambda>c. c \<noteq> 32) (c # t)))"
  by pat_completeness auto
termination
proof (relation "measure length")
  fix s c t assume d: "dropWhile (\<lambda>c. c = (32 :: u8)) s = c # t"
  then have "c \<noteq> 32" using hd_dropWhile [of "\<lambda>c. c = 32" s] by simp
  then have "length (dropWhile (\<lambda>c. c \<noteq> 32) (c # t)) < length (c # t)" by (simp add: length_dropWhile_le less_Suc_eq_le)
  also have "\<dots> \<le> length s" using length_dropWhile_le [of "\<lambda>c. c = 32" s] d by simp
  finally show "(dropWhile (\<lambda>c. c \<noteq> 32) (c # t), s) \<in> measure length" by simp
qed simp

declare words.simps [simp del]

lemma words_Nil [simp]: "words [] = []"
  by (simp add: words.simps)

lemma words_blanks [simp]: "words (replicate n 32 @ t) = words t"
proof -
  have "dropWhile (\<lambda>c. c = 32) (replicate n 32 @ t) = dropWhile (\<lambda>c. c = 32) t" by (induction n) auto
  then show ?thesis by (simp only: words.simps [of "replicate n 32 @ t"] words.simps [of t])
qed

lemma words_split:
  assumes "w \<noteq> []" "32 \<notin> set w" "n = 0 \<Longrightarrow> t = []"
  shows "words (w @ replicate n 32 @ t) = w # words t"
proof -
  obtain c v where w: "w = c # v" "c \<noteq> 32" using assms(1,2) by (cases w) auto
  have "takeWhile (\<lambda>c. c \<noteq> 32) (w @ replicate n 32 @ t) = w @ takeWhile (\<lambda>c. c \<noteq> 32) (replicate n 32 @ t)"
    "dropWhile (\<lambda>c. c \<noteq> 32) (w @ replicate n 32 @ t) = dropWhile (\<lambda>c. c \<noteq> 32) (replicate n 32 @ t)"
    using assms(2) by (intro takeWhile_append2 dropWhile_append2; metis)+
  moreover have "takeWhile (\<lambda>c. c \<noteq> 32) (replicate n 32 @ t) = []" "dropWhile (\<lambda>c. c \<noteq> 32) (replicate n 32 @ t) = replicate n 32 @ t"
    using assms(3) by (cases n; simp)+
  ultimately have tk: "takeWhile (\<lambda>c. c \<noteq> 32) (w @ replicate n 32 @ t) = w" "dropWhile (\<lambda>c. c \<noteq> 32) (w @ replicate n 32 @ t) = replicate n 32 @ t"
    by simp_all
  have "dropWhile (\<lambda>c. c = 32) (w @ replicate n 32 @ t) = w @ replicate n 32 @ t" using w by simp
  then show ?thesis using tk by (subst words.simps) (simp add: w)
qed

lemma blanks_split: obtains n t where "s = replicate n (32 :: u8) @ t" "t = [] \<or> hd t \<noteq> 32"
proof
  have "takeWhile (\<lambda>c. c = 32) s = replicate (length (takeWhile (\<lambda>c. c = 32) s)) 32"
    by (rule replicate_length_same [symmetric]) (auto dest: set_takeWhileD)
  then show "s = replicate (length (takeWhile (\<lambda>c. c = 32) s)) 32 @ dropWhile (\<lambda>c. c = 32) s"
    by (metis takeWhile_dropWhile_id)
  show "dropWhile (\<lambda>c. c = 32) s = [] \<or> hd (dropWhile (\<lambda>c. c = 32) s) \<noteq> 32"
    using hd_dropWhile [of "\<lambda>c. c = 32" s] by auto
qed

lemma split_line:
  assumes "u \<noteq> []" "hd u \<noteq> (32 :: u8)"
  obtains w n t where "u = w @ replicate n 32 @ t" "w \<noteq> []" "32 \<notin> set w" "n = 0 \<Longrightarrow> t = []" "t = [] \<or> hd t \<noteq> 32"
proof -
  let ?w = "takeWhile (\<lambda>c. c \<noteq> 32) u" and ?r = "dropWhile (\<lambda>c. c \<noteq> 32) u"
  obtain n t where r: "?r = replicate n 32 @ t" "t = [] \<or> hd t \<noteq> 32" by (rule blanks_split [of ?r])
  have "?r = [] \<or> hd ?r = 32" using hd_dropWhile [of "\<lambda>c. c \<noteq> 32" u] by auto
  then have "n = 0 \<Longrightarrow> t = []" using r by auto
  moreover have "?w \<noteq> []" using assms by (cases u) auto
  moreover have "32 \<notin> set ?w" by (auto dest: set_takeWhileD)
  moreover have "u = ?w @ replicate n 32 @ t" using r(1) by (metis takeWhile_dropWhile_id)
  ultimately show thesis using that r(2) by blast
qed

section \<open>The tokens are the words\<close>

abbreviation bar :: "u8 list" where "bar \<equiv> map of_char ''|''"
abbreviation amper :: "u8 list" where "amper \<equiv> map of_char ''&''"

text \<open>The last place of a pipe among the words 1 to \<open>n - 1\<close>, or \<open>- 1\<close>.\<close>

fun pipeOf :: "u8 list list \<Rightarrow> nat \<Rightarrow> int" where
  "pipeOf ws 0 = - 1"
| "pipeOf ws (Suc n) = (if 0 < n \<and> ws ! n = bar then int n else pipeOf ws n)"

text \<open>What the loop has read: the pointers \<open>ts\<close> point to the words before the \<open>n\<close>-th one.\<close>

definition reads :: "mem \<Rightarrow> addr list \<Rightarrow> u8 list list \<Rightarrow> nat \<Rightarrow> bool" where
  "reads m ts ws n \<longleftrightarrow> (\<forall>j < n. cstr m (ts ! j) (ws ! j))"

text \<open>The line at the end of the loop.\<close>

definition tokens_of :: "line_t \<Rightarrow> mem \<Rightarrow> u8 list list \<Rightarrow> bool" where
  "tokens_of l m ws \<longleftrightarrow>
     (let n = length ws in
        if n < MAX_ARGS
        then length (tokens l) = n + 1 \<and> reads m (tokens l) ws n \<and> m (tokens l ! n) = 0 \<and> pipe_l l = pipeOf ws n \<and>
          (if 1 < n \<and> last ws = amper then ampersand l = int n - 1 \<and> end_l l = int n - 1
           else ampersand l = - 1 \<and> end_l l = int n)
        else length (tokens l) = MAX_ARGS \<and> reads m (tokens l) ws (MAX_ARGS - 1) \<and> pipe_l l = pipeOf ws (MAX_ARGS - 1) \<and>
          ampersand l = - 1 \<and> end_l l = - 1)"

lemma tokLoop_step:
  assumes "i < MAX_ARGS" "strtok (tokens l ! (i - 1)) 32 m = Some (q, m')" "(tokens l @ [q]) ! (i - 1) = p"
    and "strcmp_lit m' p ''|'' = 0 \<longleftrightarrow> B" "strcmp_lit m' p ''&'' = 0 \<longleftrightarrow> A"
  shows "tokLoop i l m =
      (let l = (if 1 < i \<and> B then l\<lparr>tokens := tokens l @ [q]\<rparr>\<lparr>pipe_l := int i - 1\<rparr> else l\<lparr>tokens := tokens l @ [q]\<rparr>) in
       if m' q = 0 then if 1 < i \<and> A then Some (l\<lparr>ampersand := int i - 1, end_l := int i - 1\<rparr>, m') else Some (l\<lparr>end_l := int i\<rparr>, m')
       else tokLoop (i + 1) l m')"
proof -
  have t: "tokens (l\<lparr>tokens := tokens l @ [q]\<rparr>) = tokens l @ [q]" for l :: line_t by simp
  have u: "tokens (if c then l\<lparr>tokens := tokens l @ [q]\<rparr>\<lparr>pipe_l := x\<rparr> else l\<lparr>tokens := tokens l @ [q]\<rparr>) = tokens l @ [q]" for c x
    by simp
  show ?thesis
    by (subst tokLoop.simps) (simp only: assms t u if_True Option.bind.simps split Let_def)
qed

lemma tokLoop_words:
  assumes "length (tokens l) = i" "1 \<le> i" "i \<le> MAX_ARGS"
    and "cstr m (last (tokens l)) u" "u \<noteq> []" "hd u \<noteq> 32" "words u = drop (i - 1) ws" "last (tokens l) \<noteq> NULL"
    and "\<And>j. j < i - 1 \<Longrightarrow> cstr m (tokens l ! j) (ws ! j) \<and> tokens l ! j + length (ws ! j) < last (tokens l)"
    and "pipe_l l = pipeOf ws (i - 1)" "end_l l = - 1" "ampersand l = - 1"
  shows "\<exists>l' m'. tokLoop i l m = Some (l', m') \<and> tokens_of l' m' ws \<and>
    (\<forall>x. x < last (tokens l) \<or> last (tokens l) + length u \<le> x \<longrightarrow> m' x = m x)"
  using assms
proof (induction "MAX_ARGS - i" arbitrary: i l m u)
  case 0
  then have i: "i = MAX_ARGS" by simp
  obtain w n t where "u = w @ replicate n 32 @ t" "w \<noteq> []" "32 \<notin> set w" "n = 0 \<Longrightarrow> t = []"
    using split_line [OF "0.prems"(5,6)] by blast
  then have "drop (MAX_ARGS - 1) ws \<noteq> []" using "0.prems"(7) i words_split [of w n t] by auto
  then have n: "\<not> length ws < MAX_ARGS" by (simp add: MAX_ARGS_def)
  have "tokens_of l m ws" unfolding tokens_of_def reads_def using n 0 i by (simp add: Let_def)
  then show ?case using i by (subst tokLoop.simps) simp
next
  case (Suc k)
  let ?p = "last (tokens l)"
  obtain w n t where u: "u = w @ replicate n 32 @ t" "w \<noteq> []" "32 \<notin> set w" "n = 0 \<Longrightarrow> t = []" "t = [] \<or> hd t \<noteq> 32"
    using split_line [OF Suc.prems(5,6)] by blast
  have lt: "i < MAX_ARGS" "i - 1 < i" using Suc.hyps(2) Suc.prems(2) by linarith+
  let ?q = "?p + length w + n"
  obtain m' where m': "strtok ?p 32 m = Some (?q, m')" "cstr m' ?p w" "cstr m' ?q t"
    "\<And>x. x < ?p + length w \<or> ?q \<le> x \<Longrightarrow> m' x = m x"
    using strtok_split [OF Suc.prems(4) [unfolded u(1)] u(3,5,4) Suc.prems(8)] by blast
  have last: "tokens l ! (i - 1) = ?p" using Suc.prems(1,2) by (subst last_conv_nth) auto
  have ws: "drop (i - 1) ws = w # words t" using Suc.prems(7) words_split [OF u(2-4)] u(1) by simp
  have il: "i - 1 < length ws" using ws by (metis drop_all leI list.distinct(1))
  have "drop (i - 1) ws = ws ! (i - 1) # drop (Suc (i - 1)) ws" using il by (rule Cons_nth_drop_Suc [symmetric])
  then have dr: "ws ! (i - 1) = w" "drop i ws = words t" using ws Suc.prems(2) by simp_all
  let ?l1 = "l\<lparr>tokens := tokens l @ [?q]\<rparr>"
  let ?l = "if 1 < i \<and> w = bar then ?l1\<lparr>pipe_l := int i - 1\<rparr> else ?l1"
  have tk: "tokens ?l = tokens l @ [?q]" "end_l ?l = - 1" "ampersand ?l = - 1" using Suc.prems(11,12) by simp_all
  have nth: "(tokens l @ [?q]) ! j = tokens l ! j" if "j < i" for j using that Suc.prems(1) by (simp add: nth_append)
  have bars: "strcmp_lit m' ?p ''|'' = 0 \<longleftrightarrow> w = bar" "strcmp_lit m' ?p ''&'' = 0 \<longleftrightarrow> w = amper"
    by (rule strcmp_lit_iff [OF m'(2)], simp)+
  have pl: "pipe_l ?l = pipeOf ws i"
  proof -
    have "pipeOf ws i = (if 0 < i - 1 \<and> ws ! (i - 1) = bar then int (i - 1) else pipeOf ws (i - 1))"
      using pipeOf.simps(2) [of ws "i - 1"] Suc.prems(2) by simp
    then show ?thesis using Suc.prems(2,10) dr(1) by (auto simp: of_nat_diff)
  qed
  have old: "cstr m' (tokens l ! j) (ws ! j) \<and> (t \<noteq> [] \<longrightarrow> tokens l ! j + length (ws ! j) < ?q)" if j: "j < i" for j
  proof (cases "j = i - 1")
    case True
    moreover have "0 < n" if "t \<noteq> []" using u(4) that by blast
    ultimately show ?thesis using m'(2) last dr(1) by simp
  next
    case False
    then have "j < i - 1" using j by simp
    note o = Suc.prems(9) [OF this]
    then have "cstr m' (tokens l ! j) (ws ! j) = cstr m (tokens l ! j) (ws ! j)" by (intro cstr_cong m'(4)) linarith
    then show ?thesis using o by auto
  qed
  have st: "strtok (tokens l ! (i - 1)) 32 m = Some (?q, m')" by (simp only: last m'(1))
  have step: "tokLoop i l m =
      (if m' ?q = 0 then if 1 < i \<and> w = amper then Some (?l\<lparr>ampersand := int i - 1, end_l := int i - 1\<rparr>, m') else Some (?l\<lparr>end_l := int i\<rparr>, m')
       else tokLoop (i + 1) ?l m')"
    using tokLoop_step [OF lt(1) st nth [OF lt(2), unfolded last] bars] by (simp only: Let_def)
  have frame: "m' x = m x" if "x < ?p \<or> ?p + length u \<le> x" for x using m'(4) [of x] that u(1) by auto
  show ?case
  proof (cases "t = []")
    case True
    then have n: "length ws = i" using dr(2) il by simp
    have z: "m' ?q = 0" using m'(3) True by simp
    have lw: "last ws = w" using il n dr(1) by (subst last_conv_nth) auto
    have rd: "reads m' (tokens l @ [?q]) ws i" using old nth by (simp add: reads_def)
    have q: "m' ((tokens l @ [?q]) ! i) = 0" using z Suc.prems(1) by (simp add: nth_append)
    have "tokens_of (if 1 < i \<and> w = amper then ?l\<lparr>ampersand := int i - 1, end_l := int i - 1\<rparr> else ?l\<lparr>end_l := int i\<rparr>) m' ws"
      using lt(1) rd q pl tk lw n Suc.prems(1) by (auto simp: tokens_of_def Let_def)
    then show ?thesis using step z frame by (auto split: if_splits)
  next
    case False
    then have z: "m' ?q \<noteq> 0" using m'(3) by (cases t) auto
    have "\<exists>l' m''. tokLoop (i + 1) ?l m' = Some (l', m'') \<and> tokens_of l' m'' ws \<and>
      (\<forall>x. x < last (tokens ?l) \<or> last (tokens ?l) + length t \<le> x \<longrightarrow> m'' x = m' x)"
      by (rule Suc.hyps(1)) (use Suc.hyps(2) lt m'(3) False u(5) dr tk Suc.prems(1,8) old nth pl in auto)
    then obtain l' m'' where r: "tokLoop (i + 1) ?l m' = Some (l', m'')" "tokens_of l' m'' ws"
      "\<And>x. x < ?q \<or> ?q + length t \<le> x \<Longrightarrow> m'' x = m' x" using tk(1) by auto
    have "m'' x = m x" if "x < ?p \<or> ?p + length u \<le> x" for x
      using r(3) [of x] frame [OF that] that u(1) by auto
    with r(1,2) step z show ?thesis by auto
  qed
qed

text \<open>The tokens of a line that is not blank are its words.\<close>

lemma tokenize_words:
  assumes "cstr m input s" "input \<noteq> NULL" "words s \<noteq> []"
  shows "\<exists>l m'. tokenize input m = Some (l, m') \<and> tokens_of l m' (words s) \<and>
    (\<forall>x. x < input \<or> input + length s \<le> x \<longrightarrow> m' x = m x)"
proof -
  obtain n t where s: "s = replicate n 32 @ t" "t = [] \<or> hd t \<noteq> 32" by (rule blanks_split)
  have w: "words t = words s" by (simp add: s(1))
  have t: "t \<noteq> []" using assms(3) w by auto
  have st: "strstrip m input 32 = Some (input + n)" using strstrip_strip assms(1) s by simp
  have c: "cstr m (input + n) t" using assms(1) by (simp add: s(1) cstr_append)
  let ?l = "\<lparr>tokens = [input + n], pipe_l = - 1, end_l = - 1, ampersand = - 1\<rparr>"
  have "\<exists>l' m'. tokLoop 1 ?l m = Some (l', m') \<and> tokens_of l' m' (words s) \<and>
    (\<forall>x. x < last (tokens ?l) \<or> last (tokens ?l) + length t \<le> x \<longrightarrow> m' x = m x)"
    by (rule tokLoop_words) (use c t s(2) w assms(2) in \<open>simp_all add: MAX_ARGS_def\<close>)
  then obtain l' m' where r: "tokLoop 1 ?l m = Some (l', m')" "tokens_of l' m' (words s)"
    "\<And>x. x < input + n \<or> input + n + length t \<le> x \<Longrightarrow> m' x = m x" by auto
  moreover have "m' x = m x" if "x < input \<or> input + length s \<le> x" for x using r(3) [of x] that by (auto simp: s(1))
  ultimately show ?thesis using st by (simp add: tokenize_def)
qed

section \<open>Lookup\<close>

fun cmd_index :: "u8 list \<Rightarrow> cmd_t list \<Rightarrow> int \<Rightarrow> int" where
  "cmd_index w [] i = - 1"
| "cmd_index w (c # cs) i = (if w = map of_char (name_c c) then i else cmd_index w cs (i + 1))"

definition names_ok :: "cmd_t list \<Rightarrow> bool" where
  "names_ok cs \<longleftrightarrow> (\<forall>c \<in> set cs. CHR 0x00 \<notin> set (name_c c))"

lemma findCmd_index: "cstr m p w \<Longrightarrow> names_ok cs \<Longrightarrow> findCmd m p cs i = cmd_index w cs i"
proof (induction cs arbitrary: i)
  case (Cons c cs)
  then have "strcmp_lit m p (name_c c) = 0 \<longleftrightarrow> w = map of_char (name_c c)" by (intro strcmp_lit_iff) (auto simp: names_ok_def)
  with Cons show ?case by (simp add: names_ok_def)
qed simp

lemma cmd_index_range: "0 \<le> i \<Longrightarrow> cmd_index w cs i = - 1 \<or> i \<le> cmd_index w cs i \<and> cmd_index w cs i < i + int (length cs)"
proof (induction cs arbitrary: i)
  case (Cons c cs)
  then have "cmd_index w cs (i + 1) = - 1 \<or> i + 1 \<le> cmd_index w cs (i + 1) \<and> cmd_index w cs (i + 1) < i + 1 + int (length cs)" by simp
  then show ?case by auto
qed simp

lemma cmd_index_name:
  "0 \<le> i \<Longrightarrow> cmd_index w cs i \<noteq> - 1 \<Longrightarrow> map of_char (name_c (cs ! nat (cmd_index w cs i - i))) = w"
proof (induction cs arbitrary: i)
  case (Cons c cs)
  show ?case
  proof (cases "w = map of_char (name_c c)")
    case False
    then have "cmd_index w cs (i + 1) \<noteq> - 1" using Cons.prems by simp
    moreover from cmd_index_range [of "i + 1" w cs] this Cons.prems(1)
    have "nat (cmd_index w cs (i + 1) - i) = Suc (nat (cmd_index w cs (i + 1) - (i + 1)))" by linarith
    ultimately show ?thesis using Cons.IH [of "i + 1"] Cons.prems False by simp
  qed simp
qed simp

lemma cmd_index_update:
  "0 \<le> k \<Longrightarrow> name_c c' = name_c (cs ! n) \<Longrightarrow> n < length cs \<Longrightarrow> cmd_index w (cs[n := c']) k = cmd_index w cs k"
proof (induction cs arbitrary: k n)
  case (Cons c cs)
  then show ?case by (cases n) auto
qed simp

lemma pipeOf_none: "(\<And>j. 0 < j \<Longrightarrow> j < n \<Longrightarrow> ws ! j \<noteq> bar) \<Longrightarrow> pipeOf ws n = - 1"
  by (induction n) auto

lemma slice_nat: "slice l (int a) (int b) = map (\<lambda>i. tokens l ! i) [a..<b]"
proof -
  have "[int a..int b - 1] = map int [a..<b]" by (induction b) (auto simp: upto_rec2 upto_empty)
  then show ?thesis by (simp add: slice_def)
qed

lemma did_simps [simp]: "umem (did cs s) = umem s" "cmds (did cs s) = cmds s" "calls (did cs s) = calls s @ cs"
  by (simp_all add: did_def)

lemma did_did: "did ds (did cs s) = did (cs @ ds) s"
  by (simp add: did_def)

section \<open>A command without a pipe\<close>

text \<open>Every \<open>sys_malloc\<close> among the calls \<open>xs\<close>, which come behind the calls \<open>cs\<close>, gives a block.\<close>

fun granted :: "(call list \<Rightarrow> bool) \<Rightarrow> call list \<Rightarrow> call list \<Rightarrow> bool" where
  "granted gives cs [] = True"
| "granted gives cs (x # xs) = ((case x of Malloc n \<Rightarrow> gives (cs @ [x]) | _ \<Rightarrow> True) \<and> granted gives (cs @ [x]) xs)"

text \<open>The effects of a line of up to ten words \<open>ws\<close> without a pipe; \<open>k\<close> words are for the command.\<close>

definition simple_effect :: "u8 list list \<Rightarrow> nat \<Rightarrow> bool \<Rightarrow> addr list \<Rightarrow> shell_state \<Rightarrow> shell_state \<Rightarrow> bool" where
  "simple_effect ws k bg argv s t \<longleftrightarrow>
     (let i = cmd_index (ws ! 0) (cmds s) 0; c = cmds s ! nat i;
          fg = (isForeground_c c \<and> (bg \<longrightarrow> isBuiltIn c))
      in if i = - 1
         then calls t = calls s @ [Malloc 8, Malloc (8 * int k), String (argv ! 0), Text (literal '' is not a BottlerShell command\<newline>'' 32)] \<and>
           cmds t = cmds s
         else calls t = calls s @ [Malloc 8, Malloc (8 * int k),
             if isBuiltIn c then BuiltIn (func_c c) (int k) argv else LoadProcess (func_c c) fg (int k) argv (0, 1)] @
             (if fg then [WaitChild] else []) @ [Free 1] \<and>
           cmds t = (if bg \<and> \<not> isBuiltIn c then (cmds s)[nat i := c\<lparr>isForeground_c := False\<rparr>] else cmds s))"

lemma simple_line:
  assumes l: "tokens_of l m ws" "ws \<noteq> []" "length ws \<le> 10" "\<And>j. 0 < j \<Longrightarrow> j < length ws \<Longrightarrow> ws ! j \<noteq> bar"
    and w0: "ws ! 0 \<noteq> []" and nm: "names_ok (cmds s)" and m: "umem s = m"
    and bg: "bg \<longleftrightarrow> 1 < length ws \<and> last ws = amper" and k: "k = (if bg then length ws - 1 else length ws)"
  shows "pipe_l l = - 1 \<and> end_l l = int k \<and> 0 < k \<and> umem (runLine l (0, 1) (did [Malloc 8, Malloc (8 * int k)] s)) = m \<and>
    length (slice l 0 (int k)) = k \<and> reads m (slice l 0 (int k)) ws k \<and>
    simple_effect ws k bg (slice l 0 (int k)) s (runLine l (0, 1) (did [Malloc 8, Malloc (8 * int k)] s))"
proof -
  let ?n = "length ws"
  have n: "?n < MAX_ARGS" "0 < ?n" using l(2,3) by (simp_all add: MAX_ARGS_def)
  have t: "length (tokens l) = ?n + 1" "reads m (tokens l) ws ?n" "pipe_l l = - 1"
    using l(1) n(1) pipeOf_none [OF l(4)] by (simp_all add: tokens_of_def Let_def)
  have e: "end_l l = int k" "ampersand l \<ge> 0 \<longleftrightarrow> bg"
    using l(1) n bg k by (auto simp: tokens_of_def Let_def of_nat_diff)
  have k': "0 < k" "k \<le> ?n" using n bg k by auto
  have sl: "slice l 0 (int k) = map (\<lambda>i. tokens l ! i) [0..<k]" using slice_nat [of l 0 k] by simp
  have rd: "reads m (slice l 0 (int k)) ws k" using t(2) k' by (simp add: reads_def sl)
  have c0: "cstr m (tokens l ! 0) (ws ! 0)" using t(2) n(2) by (simp add: reads_def)
  have a0: "slice l 0 (int k) ! 0 = tokens l ! 0" using k' by (simp add: sl)
  have nz: "m (tokens l ! 0) \<noteq> 0" using c0 w0 by (cases "ws ! 0") auto
  let ?i = "cmd_index (ws ! 0) (cmds s) 0"
  have f: "findCmd m (tokens l ! 0) (cmds s) 0 = ?i" by (rule findCmd_index [OF c0 nm])
  have "?i = - 1 \<or> 0 \<le> ?i \<and> nat ?i < length (cmds s)" using cmd_index_range [of 0 "ws ! 0" "cmds s"] by auto
  then have "simple_effect ws k bg (slice l 0 (int k)) s (runLine l (0, 1) (did [Malloc 8, Malloc (8 * int k)] s)) \<and>
    umem (runLine l (0, 1) (did [Malloc 8, Malloc (8 * int k)] s)) = m"
    using t(3) e f m nz a0
    by (auto simp: simple_effect_def runLine_def dispatch_def incorrect_comm_def Let_def)
  then show ?thesis using t(3) e k' rd sl by simp
qed

section \<open>Properties of a line\<close>

lemma words_ne: "w \<in> set (words s) \<Longrightarrow> w \<noteq> []"
proof (induction s rule: words.induct)
  case (1 s)
  show ?case
  proof (cases "dropWhile (\<lambda>c. c = 32) s")
    case Nil
    have "words s = []" by (subst words.simps) (simp only: Nil list.case)
    then show ?thesis using "1.prems" by simp
  next
    case (Cons c t)
    then have "c \<noteq> 32" using hd_dropWhile [of "\<lambda>c. c = 32" s] by simp
    have "words s = takeWhile (\<lambda>c. c \<noteq> 32) (c # t) # words (dropWhile (\<lambda>c. c \<noteq> 32) (c # t))"
      by (subst words.simps) (simp only: Cons list.case)
    moreover have "takeWhile (\<lambda>c. c \<noteq> 32) (c # t) \<noteq> []" using \<open>c \<noteq> 32\<close> by simp
    ultimately show ?thesis using "1.IH" [OF Cons] "1.prems" by auto
  qed
qed

lemma simple_run:
  assumes "cstr (umem s) input line" "input \<noteq> NULL" "names_ok (cmds s)" "ws = words line" "ws \<noteq> []" "length ws \<le> 10"
    and "\<And>j. 0 < j \<Longrightarrow> j < length ws \<Longrightarrow> ws ! j \<noteq> bar"
    and "bg \<longleftrightarrow> 1 < length ws \<and> last ws = amper" "k = (if bg then length ws - 1 else length ws)"
  shows "\<exists>t argv. processInput gives kern input s = (if granted gives (calls s) [Malloc 8, Malloc (8 * int k)] then Some t else None) \<and>
    length argv = k \<and> reads (umem t) argv ws k \<and> simple_effect ws k bg argv s t"
proof -
  obtain l m where l: "tokenize input (umem s) = Some (l, m)" "tokens_of l m ws"
    using tokenize_words [OF assms(1,2)] assms(4,5) by auto
  have w0: "ws ! 0 \<noteq> []" using words_ne [of "ws ! 0" line] assms(4,5) by simp
  let ?t = "runLine l (0, 1) (did [Malloc 8, Malloc (8 * int k)] (s\<lparr>umem := m\<rparr>))"
  have r: "pipe_l l = - 1 \<and> end_l l = int k \<and> 0 < k \<and> umem ?t = m \<and> length (slice l 0 (int k)) = k \<and> reads m (slice l 0 (int k)) ws k \<and>
    simple_effect ws k bg (slice l 0 (int k)) (s\<lparr>umem := m\<rparr>) ?t"
    by (rule simple_line [OF l(2) assms(5,6,7) w0]) (use assms in simp_all)
  have "s32 (8 * int k) = 8 * int k" using assms(6,9) by (simp split: if_splits)
  then have p: "processInput gives kern input s = (if granted gives (calls s) [Malloc 8, Malloc (8 * int k)] then Some ?t else None)"
    using l(1) r by (simp add: processInput_def argvs_def sys_malloc_s_def did_did Let_def)
  have "simple_effect ws k bg (slice l 0 (int k)) s ?t" using r by (simp add: simple_effect_def Let_def)
  then show ?thesis using p r by (intro exI [of _ ?t] exI [of _ "slice l 0 (int k)"]) simp
qed

text \<open>C28: a line of up to ten words and without a pipe does what its words say when \<open>sys_malloc\<close> gives its two blocks, and is
  lost in a write to address 0 when one is missing. The words of the line are the arguments;
  a first word that names no command is reported; a built-in command is called; any other is started as a process with
  its words, in the background when the last word is an ampersand, and waited for otherwise.\<close>

theorem shell_command:
  assumes "cstr (umem s) input line" "input \<noteq> NULL" "names_ok (cmds s)" "ws = words line" "ws \<noteq> []" "length ws \<le> 10"
    and "\<And>j. 0 < j \<Longrightarrow> j < length ws \<Longrightarrow> ws ! j \<noteq> bar"
    and "bg \<longleftrightarrow> 1 < length ws \<and> last ws = amper" "k = (if bg then length ws - 1 else length ws)"
  shows "if granted gives (calls s) [Malloc 8, Malloc (8 * int k)]
    then \<exists>t argv. processInput gives kern input s = Some t \<and> length argv = k \<and> reads (umem t) argv ws k \<and> simple_effect ws k bg argv s t
    else processInput gives kern input s = None"
proof (cases "granted gives (calls s) [Malloc 8, Malloc (8 * int k)]")
  case True
  then show ?thesis using simple_run [OF assms, of gives kern] by (simp only: if_True)
next
  case False
  then show ?thesis using simple_run [OF assms, of gives kern] by (simp only: if_False) blast
qed

definition line_mem :: "string \<Rightarrow> mem" where
  "line_mem str = wr (\<lambda>_. 0) 1000 (map of_char str @ [0])"

definition shell0 :: "string \<Rightarrow> shell_state" where
  "shell0 str = \<lparr>umem = line_mem str, cmds = commands, calls = []\<rparr>"

lemma line_mem_cstr: "CHR 0x00 \<notin> set str \<Longrightarrow> cstr (line_mem str) 1000 (map of_char str)"
proof -
  assume "CHR 0x00 \<notin> set str"
  then have "(0 :: u8) \<notin> set (map of_char str)" by (auto simp: of_char_u8_0)
  then show ?thesis unfolding line_mem_def by (rule cstr_wr)
qed

lemma names_ok_commands: "names_ok commands"
  by (simp add: names_ok_def commands_def)

theorem shell_command_witness:
  "\<exists>t argv. processInput (\<lambda>_. True) (\<lambda>_. None) 1000 (shell0 ''loop  1 a &'') = Some t \<and> length argv = 3 \<and>
     calls t = [Malloc 8, Malloc 24, LoadProcess ''loop'' False 3 argv (0, 1), Free 1]"
proof -
  let ?l = "map of_char ''loop  1 a &'' :: u8 list"
  let ?s = "shell0 ''loop  1 a &''"
  have w: "words ?l = [map of_char ''loop'', map of_char ''1'', map of_char ''a'', map of_char ''&'']" by (simp add: words.simps)
  have c: "cstr (umem ?s) 1000 ?l" using line_mem_cstr [of "''loop  1 a &''"] by (simp add: shell0_def)
  have n: "names_ok (cmds ?s)" using names_ok_commands by (simp add: shell0_def)
  have "if granted (\<lambda>_. True) (calls ?s) [Malloc 8, Malloc (8 * int 3)]
      then \<exists>t argv. processInput (\<lambda>_. True) (\<lambda>_. None) 1000 ?s = Some t \<and> length argv = 3 \<and> reads (umem t) argv (words ?l) 3 \<and>
        simple_effect (words ?l) 3 True argv ?s t
      else processInput (\<lambda>_. True) (\<lambda>_. None) 1000 ?s = None"
    by (rule shell_command [OF c _ n refl]) (use w in \<open>auto simp: less_Suc_eq nth_Cons'\<close>)
  then obtain t argv where r: "processInput (\<lambda>_. True) (\<lambda>_. None) 1000 ?s = Some t" "length argv = 3" "simple_effect (words ?l) 3 True argv ?s t"
    by (auto simp del: list.map)
  have "cmd_index (words ?l ! 0) (cmds ?s) 0 = 20" using w by (simp add: shell0_def commands_def)
  moreover have "cmds ?s ! 20 = \<lparr>name_c = ''loop'', func_c = ''loop'', isBuiltIn = False, isForeground_c = True\<rparr>" "calls ?s = []"
    by (simp_all add: shell0_def commands_def)
  ultimately have "calls t = [Malloc 8, Malloc 24, LoadProcess ''loop'' False 3 argv (0, 1), Free 1]"
    using r(3) unfolding simple_effect_def Let_def by simp
  with r show ?thesis by blast
qed

text \<open>An ampersand is for ever: after a command that is not built in was started in the background once, a line
  without an ampersand starts it in the background too, and the shell does not wait for it.\<close>

theorem background_sticks:
  assumes "cstr (umem s) input line" "input \<noteq> NULL" "names_ok (cmds s)" "ws = words line" "1 < length ws" "length ws \<le> 10"
    and "\<And>j. 0 < j \<Longrightarrow> j < length ws \<Longrightarrow> ws ! j \<noteq> bar" "last ws = amper"
    and "i = cmd_index (ws ! 0) (cmds s) 0" "i \<noteq> - 1" "\<not> isBuiltIn (cmds s ! nat i)"
    and "cstr m input line'" "us = words line'" "us \<noteq> []" "length us \<le> 10" "us ! 0 = ws ! 0" "last us \<noteq> amper"
    and "\<And>j. 0 < j \<Longrightarrow> j < length us \<Longrightarrow> us ! j \<noteq> bar" "\<And>cs. gives cs"
  shows "\<exists>t u argv. processInput gives kern input s = Some t \<and> processInput gives kern input (t\<lparr>umem := m\<rparr>) = Some u \<and>
    calls u = calls t @ [Malloc 8, Malloc (8 * int (length us)), LoadProcess (func_c (cmds s ! nat i)) False (int (length us)) argv (0, 1), Free 1]"
proof -
  have "ws \<noteq> []" using assms(5) by auto
  then obtain t argv where t: "processInput gives kern input s = Some t" "simple_effect ws (length ws - 1) True argv s t"
    using simple_run [OF assms(1-4), of True "length ws - 1" gives kern] assms(5-8,19) by auto
  let ?c = "(cmds s ! nat i)\<lparr>isForeground_c := False\<rparr>"
  have i: "0 \<le> i" "nat i < length (cmds s)" using cmd_index_range [of 0 "ws ! 0" "cmds s"] assms(9,10) by auto
  have c: "cmds t = (cmds s)[nat i := ?c]" using t(2) assms(9-11) by (simp add: simple_effect_def Let_def)
  have nm: "names_ok (cmds (t\<lparr>umem := m\<rparr>))"
    using assms(3) i(2) c by (auto simp: names_ok_def dest!: set_update_subset_insert [THEN subsetD])
  have x: "cmd_index (us ! 0) (cmds t) 0 = i" using cmd_index_update [of 0 ?c "cmds s" "nat i"] i(2) c assms(9,16) by simp
  obtain u argv' where u: "processInput gives kern input (t\<lparr>umem := m\<rparr>) = Some u" "simple_effect us (length us) False argv' (t\<lparr>umem := m\<rparr>) u"
    using simple_run [of "t\<lparr>umem := m\<rparr>" input line' us False "length us" gives kern] assms(2,12-19) nm by auto
  have "calls u = calls t @ [Malloc 8, Malloc (8 * int (length us)), LoadProcess (func_c (cmds s ! nat i)) False (int (length us)) argv' (0, 1), Free 1]"
    using u(2) x c i assms(10,11) by (simp add: simple_effect_def Let_def)
  with t(1) u(1) show ?thesis by blast
qed

theorem background_sticks_witness:
  "\<exists>t u argv. processInput (\<lambda>_. True) (\<lambda>_. None) 1000 (shell0 ''ps &'') = Some t \<and>
     processInput (\<lambda>_. True) (\<lambda>_. None) 1000 (t\<lparr>umem := line_mem ''ps''\<rparr>) = Some u \<and>
     calls u = calls t @ [Malloc 8, Malloc 8, LoadProcess ''ps'' False 1 argv (0, 1), Free 1]"
proof -
  let ?s = "shell0 ''ps &''"
  have w: "words (map of_char ''ps &'') = [map of_char ''ps'', map of_char ''&'']" "words (map of_char ''ps'') = [map of_char ''ps'']"
    by (simp_all add: words.simps)
  have c: "cstr (umem ?s) 1000 (map of_char ''ps &'')" "cstr (line_mem ''ps'') 1000 (map of_char ''ps'')"
    using line_mem_cstr [of "''ps &''"] line_mem_cstr [of "''ps''"] by (simp_all add: shell0_def)
  have n: "names_ok (cmds ?s)" using names_ok_commands by (simp add: shell0_def)
  have i: "cmd_index (words (map of_char ''ps &'') ! 0) (cmds ?s) 0 = 12"
    "cmds ?s ! 12 = \<lparr>name_c = ''ps'', func_c = ''ps'', isBuiltIn = False, isForeground_c = True\<rparr>"
    using w by (simp_all add: shell0_def commands_def)
  have "\<exists>t u argv. processInput (\<lambda>_. True) (\<lambda>_. None) 1000 ?s = Some t \<and> processInput (\<lambda>_. True) (\<lambda>_. None) 1000 (t\<lparr>umem := line_mem ''ps''\<rparr>) = Some u \<and>
    calls u = calls t @ [Malloc 8, Malloc (8 * int (length (words (map of_char ''ps'')))),
      LoadProcess (func_c (cmds ?s ! nat 12)) False (int (length (words (map of_char ''ps'')))) argv (0, 1), Free 1]"
    by (rule background_sticks [OF c(1) _ n refl _ _ _ _ i(1) [symmetric] _ _ c(2) refl]) (use i w in \<open>auto simp: less_Suc_eq nth_Cons'\<close>)
  then show ?thesis using i(2) w(2) by simp
qed

lemma pipeOf_last: "bar \<notin> set bs \<Longrightarrow> as \<noteq> [] \<Longrightarrow> n \<le> length bs \<Longrightarrow> pipeOf (as @ bar # bs) (length as + 1 + n) = int (length as)"
proof (induction n)
  case 0
  then show ?case by simp
next
  case (Suc n)
  then have "(as @ bar # bs) ! (length as + 1 + n) = bs ! n" by (simp add: nth_append)
  moreover have "bs ! n \<noteq> bar" using Suc.prems by (metis Suc_le_lessD nth_mem)
  ultimately show ?case using Suc by (simp del: append_Cons list.map)
qed

text \<open>C29: two commands joined by a pipe. The words before the last pipe sign and the words behind it are started as two
  processes, each with its words; the first one writes to the pipe that the kernel gave and the second one reads
  from it, the shell waits if the first one is a foreground command, and the pipe is closed behind them. That takes five
  blocks; when one is missing the line is lost in a write to address 0.\<close>

theorem shell_pipe:
  assumes "cstr (umem s) input line" "input \<noteq> NULL" "names_ok (cmds s)" "words line = as @ bar # bs" "as \<noteq> []" "bs \<noteq> []"
    and "length as + length bs \<le> 9" "bar \<notin> set bs" "last bs \<noteq> amper" "\<not> isBuiltIn (cmds s ! 0)"
    and "i = cmd_index (as ! 0) (cmds s) 0" "j = cmd_index (bs ! 0) (cmds s) 0" "i \<noteq> - 1" "j \<noteq> - 1"
    and "kern (calls s @ [Malloc 8, Malloc 8, OpenPipe 1 ''pipe'']) = Some (r, w)"
  shows "if granted gives (calls s) [Malloc 8, Malloc 8, OpenPipe 1 ''pipe'', Malloc 8, Malloc (8 * int (length as)), Malloc (8 * int (length bs))]
    then \<exists>t argv0 argv1. processInput gives kern input s = Some t \<and>
      length argv0 = length as \<and> reads (umem t) argv0 as (length as) \<and> length argv1 = length bs \<and> reads (umem t) argv1 bs (length bs) \<and>
      calls t = calls s @ [Malloc 8, Malloc 8, OpenPipe 1 ''pipe'', Malloc 8, Malloc (8 * int (length as)), Malloc (8 * int (length bs)),
        LoadProcess (func_c (cmds s ! nat i)) (isForeground_c (cmds s ! nat i)) (int (length as)) argv0 (0, w),
        LoadProcess (func_c (cmds s ! nat j)) False (int (length bs)) argv1 (r, 1)] @
        (if isForeground_c (cmds s ! nat i) then [WaitChild] else []) @ [Free 3, Free 4, ClosePipe w]
    else processInput gives kern input s = None"
proof -
  let ?ws = "as @ bar # bs" and ?a = "length as" and ?b = "length bs"
  obtain l m where l: "tokenize input (umem s) = Some (l, m)" "tokens_of l m ?ws"
    using tokenize_words [OF assms(1,2)] assms(4) by auto
  have n: "length ?ws = ?a + 1 + ?b" by simp
  then have lt: "length ?ws < MAX_ARGS" using assms(7) by (simp add: MAX_ARGS_def)
  have "last ?ws \<noteq> amper" using assms(6,9) by simp
  then have t: "reads m (tokens l) ?ws (?a + 1 + ?b)" "ampersand l = - 1" "end_l l = int (?a + 1 + ?b)"
    using l(2) lt unfolding tokens_of_def Let_def n by auto
  have p: "pipe_l l = int ?a"
    using l(2) lt pipeOf_last [OF assms(8,5), of ?b] unfolding tokens_of_def Let_def n by auto
  let ?x = "slice l 0 (int ?a)" and ?y = "slice l (int ?a + 1) (int (?a + 1 + ?b))"
  have sl: "?x = map (\<lambda>k. tokens l ! k) [0..<?a]" "?y = map (\<lambda>k. tokens l ! k) [?a + 1..<?a + 1 + ?b]"
    using slice_nat [of l 0 ?a] slice_nat [of l "?a + 1" "?a + 1 + ?b"] by (simp_all add: add.commute)
  have wa: "?ws ! k = as ! k" if "k < ?a" for k using that by (simp add: nth_append)
  have wb: "?ws ! (?a + 1 + k) = bs ! k" for k by (simp add: nth_append)
  have at: "cstr m (tokens l ! k) (?ws ! k)" if "k < ?a + 1 + ?b" for k using t(1) that by (simp add: reads_def)
  have "cstr m (?x ! k) (as ! k)" if "k < ?a" for k using at [of k] wa [OF that] that sl(1) by simp
  moreover have "cstr m (?y ! k) (bs ! k)" if k: "k < ?b" for k
  proof -
    have "?y ! k = tokens l ! (?a + 1 + k)" unfolding sl(2) using k by (simp del: upt_Suc)
    moreover have "cstr m (tokens l ! (?a + 1 + k)) (bs ! k)" using at [of "?a + 1 + k"] k by (simp only: wb)
    ultimately show ?thesis by (simp only:)
  qed
  ultimately have rd: "reads m ?x as ?a" "reads m ?y bs ?b" by (simp_all only: reads_def) blast+
  have c: "cstr m (tokens l ! 0) (as ! 0)" "cstr m (tokens l ! (?a + 1)) (bs ! 0)"
    using at [of 0] at [of "?a + 1"] wa [of 0] wb [of 0] assms(5,6) by auto
  have f: "findCmd m (tokens l ! 0) (cmds s) 0 = i" "findCmd m (tokens l ! (?a + 1)) (cmds s) 0 = j"
    using findCmd_index [OF c(1) assms(3)] findCmd_index [OF c(2) assms(3)] assms(11,12) by simp_all
  have s32: "s32 (8 * int ?a) = 8 * int ?a" "s32 (8 * int ?b) = 8 * int ?b" using assms(7) by simp_all
  let ?cs = "[Malloc 8, Malloc 8, OpenPipe 1 ''pipe'', Malloc 8, Malloc (8 * int ?a), Malloc (8 * int ?b)]"
  let ?s = "did ?cs (s\<lparr>umem := m\<rparr>)"
  have e: "end_l l - int ?a - 1 = int ?b" "int ?a + 1 < end_l l" "nat (int ?a + 1) = ?a + 1" "0 < int ?a"
    using t(3) assms(5,6) by simp_all
  have run: "processInput gives kern input s = (if granted gives (calls s) ?cs then Some (runLine l (r, w) ?s) else None)"
    using l(1) p e s32 t(2) assms(15) by (simp add: processInput_def argvs_def sys_malloc_s_def did_did Let_def)
  have res: "umem (runLine l (r, w) ?s) = m" "calls (runLine l (r, w) ?s) = calls s @ ?cs @
     [LoadProcess (func_c (cmds s ! nat i)) (isForeground_c (cmds s ! nat i)) (int ?a) ?x (0, w),
      LoadProcess (func_c (cmds s ! nat j)) False (int ?b) ?y (r, 1)] @
      (if isForeground_c (cmds s ! nat i) then [WaitChild] else []) @ [Free 3, Free 4, ClosePipe w]"
    unfolding runLine_def dispatch_def Let_def p e using f assms(10,13,14) t(3) by simp_all
  have len: "length ?x = ?a" "length ?y = ?b" by (simp_all only: sl length_map length_upt)
  show ?thesis
  proof (cases "granted gives (calls s) ?cs")
    case True
    show ?thesis
      by (simp only: run True if_True, rule exI [of _ "runLine l (r, w) ?s"], rule exI [of _ ?x], rule exI [of _ ?y])
        (simp only: rd res len append.simps simp_thms)
  next
    case False
    then show ?thesis by (simp only: run False if_False)
  qed
qed

theorem shell_pipe_witness:
  "\<exists>t argv0 argv1. processInput (\<lambda>_. True) (\<lambda>_. Some (5, 6)) 1000 (shell0 ''cat | wc'') = Some t \<and>
     calls t = [Malloc 8, Malloc 8, OpenPipe 1 ''pipe'', Malloc 8, Malloc 8, Malloc 8, LoadProcess ''cat'' True 1 argv0 (0, 6),
       LoadProcess ''wc'' False 1 argv1 (5, 1), WaitChild, Free 3, Free 4, ClosePipe 6]"
proof -
  let ?s = "shell0 ''cat | wc''"
  have w: "words (map of_char ''cat | wc'') = [map of_char ''cat''] @ bar # [map of_char ''wc'']" by (simp add: words.simps)
  have c: "cstr (umem ?s) 1000 (map of_char ''cat | wc'')" using line_mem_cstr [of "''cat | wc''"] by (simp add: shell0_def)
  have n: "names_ok (cmds ?s)" using names_ok_commands by (simp add: shell0_def)
  have i: "cmd_index ([map of_char ''cat''] ! 0) (cmds ?s) 0 = 1" "cmd_index ([map of_char ''wc''] ! 0) (cmds ?s) 0 = 19"
    "cmds ?s ! 1 = \<lparr>name_c = ''cat'', func_c = ''cat'', isBuiltIn = False, isForeground_c = True\<rparr>"
    "cmds ?s ! 19 = \<lparr>name_c = ''wc'', func_c = ''wc'', isBuiltIn = False, isForeground_c = True\<rparr>"
    "\<not> isBuiltIn (cmds ?s ! 0)" "calls ?s = []"
    by (simp_all add: shell0_def commands_def)
  show ?thesis
    using shell_pipe [OF c _ n w _ _ _ _ _ i(5) i(1) [symmetric] i(2) [symmetric], of "\<lambda>_. Some (5, 6)" 5 6 "\<lambda>_. True"] i by auto
qed

section \<open>Long lines\<close>

text \<open>a line of more than ten words has no end: its command is started with the number of arguments - 1, an empty array
  of arguments, and the memory for the array is asked for with a negative size; nothing is written to what comes back.\<close>

theorem shell_long_line:
  assumes "cstr (umem s) input line" "input \<noteq> NULL" "names_ok (cmds s)" "ws = words line" "10 < length ws"
    and "\<And>j. 0 < j \<Longrightarrow> j < 10 \<Longrightarrow> ws ! j \<noteq> bar"
    and "i = cmd_index (ws ! 0) (cmds s) 0" "i \<noteq> - 1" "\<not> isBuiltIn (cmds s ! nat i)" "gives (calls s @ [Malloc 8])"
  shows "\<exists>t. processInput gives kern input s = Some t \<and>
    calls t = calls s @ [Malloc 8, Malloc (- 8), LoadProcess (func_c (cmds s ! nat i)) (isForeground_c (cmds s ! nat i)) (- 1) [] (0, 1)] @
      (if isForeground_c (cmds s ! nat i) then [WaitChild] else []) @ [Free 1]"
proof -
  have "words line \<noteq> []" using assms(4,5) by auto
  then obtain l m where l: "tokenize input (umem s) = Some (l, m)" "tokens_of l m ws"
    using tokenize_words [OF assms(1,2)] assms(4,5) by auto
  have n: "\<not> length ws < MAX_ARGS" "MAX_ARGS - 1 = 10" using assms(5) by (simp_all add: MAX_ARGS_def)
  have t: "reads m (tokens l) ws 10" "pipe_l l = - 1" "ampersand l = - 1" "end_l l = - 1"
    using l(2) pipeOf_none [OF assms(6)] unfolding tokens_of_def Let_def by (simp_all only: n if_False)
  have c: "cstr m (tokens l ! 0) (ws ! 0)" using t(1) by (simp add: reads_def)
  have f: "findCmd m (tokens l ! 0) (cmds s) 0 = i" using findCmd_index [OF c assms(3)] assms(7) by simp
  let ?t = "runLine l (0, 1) (did [Malloc 8, Malloc (- 8)] (s\<lparr>umem := m\<rparr>))"
  have "processInput gives kern input s = Some ?t" using l(1) t(2,4) assms(10)
    by (simp add: processInput_def argvs_def sys_malloc_s_def did_did Let_def)
  moreover have "calls ?t = calls s @ [Malloc 8, Malloc (- 8), LoadProcess (func_c (cmds s ! nat i)) (isForeground_c (cmds s ! nat i)) (- 1) [] (0, 1)] @
      (if isForeground_c (cmds s ! nat i) then [WaitChild] else []) @ [Free 1]"
    unfolding runLine_def dispatch_def Let_def using t f assms(8,9) by (simp add: slice_def)
  ultimately show ?thesis by blast
qed

theorem shell_long_line_witness:
  "\<exists>t. processInput (\<lambda>_. True) (\<lambda>_. None) 1000 (shell0 ''ps a b c d e f g h i j'') = Some t \<and>
    calls t = [Malloc 8, Malloc (- 8), LoadProcess ''ps'' True (- 1) [] (0, 1), WaitChild, Free 1]"
proof -
  let ?s = "shell0 ''ps a b c d e f g h i j''"
  have w: "words (map of_char ''ps a b c d e f g h i j'') = map (map of_char)
      [''ps'', ''a'', ''b'', ''c'', ''d'', ''e'', ''f'', ''g'', ''h'', ''i'', ''j'']" by (simp add: words.simps)
  have c: "cstr (umem ?s) 1000 (map of_char ''ps a b c d e f g h i j'')"
    using line_mem_cstr [of "''ps a b c d e f g h i j''"] by (simp add: shell0_def)
  have n: "names_ok (cmds ?s)" using names_ok_commands by (simp add: shell0_def)
  have i: "cmd_index (words (map of_char ''ps a b c d e f g h i j'') ! 0) (cmds ?s) 0 = 12" "calls ?s = []"
    "cmds ?s ! 12 = \<lparr>name_c = ''ps'', func_c = ''ps'', isBuiltIn = False, isForeground_c = True\<rparr>"
    using w by (simp_all add: shell0_def commands_def)
  let ?ws = "words (map of_char ''ps a b c d e f g h i j'') :: u8 list list"
  have ws: "length ?ws = 11" "bar \<notin> set ?ws" using w by simp_all
  have nb: "?ws ! j \<noteq> bar" if "j < 10" for j using ws nth_mem [of j ?ws] that by fastforce
  have "\<exists>t. processInput (\<lambda>_. True) (\<lambda>_. None) 1000 ?s = Some t \<and>
    calls t = calls ?s @ [Malloc 8, Malloc (- 8), LoadProcess (func_c (cmds ?s ! nat 12)) (isForeground_c (cmds ?s ! nat 12)) (- 1) [] (0, 1)] @
      (if isForeground_c (cmds ?s ! nat 12) then [WaitChild] else []) @ [Free 1]"
    by (rule shell_long_line [OF c _ n refl _ _ i(1) [symmetric]]) (use ws nb i in simp_all)
  then show ?thesis using i by simp
qed

section \<open>Reading a line\<close>

text \<open>Line editing: the text typed so far, up to 99 characters; what does not fit ends the line, too.\<close>

fun edit :: "int list \<Rightarrow> u8 list \<Rightarrow> (u8 list \<times> int list) option" where
  "edit [] l = None"
| "edit (c # cs) l =
     (if c = 10 \<or> length l = 99 then Some (l, cs)
      else if c = 8 then edit cs (butlast l)
      else if c = 0 \<or> c = - 1 then edit cs l
      else edit cs (l @ [byte c]))"

lemma bytes_butlast: "bytes m p (length l) = l \<Longrightarrow> l \<noteq> [] \<Longrightarrow> bytes (m(p + (length l - 1) := v)) p (length l - 1) = butlast l"
  by (cases l rule: rev_cases) (auto simp: bytes_Suc)

lemma scanfLoop_edit:
  assumes "bytes (umem s) buffer (length l) = l" "length l \<le> 99"
  shows "case edit cs l of
      None \<Rightarrow> scanfLoop buffer cs (int (length l)) s = None
    | Some (l', cs') \<Rightarrow> \<exists>t. scanfLoop buffer cs (int (length l)) s = Some (int (length l'), cs', t) \<and>
        bytes (umem t) buffer (length l') = l' \<and> length l' \<le> 99 \<and> cmds t = cmds s \<and>
        (\<forall>x. x < buffer \<or> buffer + 99 \<le> x \<longrightarrow> umem t x = umem s x)"
  using assms
proof (induction cs arbitrary: l s)
  case Nil
  then show ?case by simp
next
  case (Cons c cs)
  have go: ?case if e: "edit (c # cs) l = edit cs k" "scanfLoop buffer (c # cs) (int (length l)) s = scanfLoop buffer cs (int (length k)) s'"
    and k: "bytes (umem s') buffer (length k) = k" "length k \<le> 99" "cmds s' = cmds s"
    and f: "\<And>x. x < buffer \<or> buffer + 99 \<le> x \<Longrightarrow> umem s' x = umem s x" for k s'
  proof (cases "edit cs k")
    case None
    then show ?thesis using Cons.IH [OF k(1,2)] unfolding e by simp
  next
    case (Some r)
    obtain l' cs' where r: "r = (l', cs')" by force
    obtain t where t: "scanfLoop buffer cs (int (length k)) s' = Some (int (length l'), cs', t)" "bytes (umem t) buffer (length l') = l'"
      "length l' \<le> 99" "cmds t = cmds s'" "\<And>x. x < buffer \<or> buffer + 99 \<le> x \<Longrightarrow> umem t x = umem s' x"
      using Cons.IH [OF k(1,2)] Some r by auto
    then have "umem t x = umem s x" if "x < buffer \<or> buffer + 99 \<le> x" for x using f that by metis
    then show ?thesis unfolding e using Some r t(1-4) k(3) by auto
  qed
  have "length l = 99 \<or> length l < 99" using Cons.prems(2) by linarith
  then consider "c = 10 \<or> length l = 99" | "c \<noteq> 10" "length l < 99" "c = 8" "l \<noteq> []" | "c \<noteq> 10" "length l < 99" "c = 0 \<or> c = - 1 \<or> c = 8 \<and> l = []"
    | "c \<noteq> 10" "length l < 99" "c \<noteq> 8" "c \<noteq> 0" "c \<noteq> - 1" by blast
  then show ?case
  proof cases
    case 1
    then show ?thesis using Cons.prems by (auto simp: SIZE_s_def)
  next
    case 2
    let ?s = "did [Char 8] (s\<lparr>umem := (umem s)(buffer + (length l - 1) := 32)\<rparr>)"
    have "0 < length l" using 2(4) by simp
    then have i: "int (length l) - 1 = int (length (butlast l))" by (simp only: length_butlast of_nat_diff [OF Suc_leI] One_nat_def)
    then have a: "idx buffer (int (length l) - 1) = buffer + (length l - 1)" by (simp only: idx_def length_butlast)
    have "scanfLoop buffer (c # cs) (int (length l)) s = scanfLoop buffer cs (int (length l) - 1) ?s"
      using 2 a by (simp add: SIZE_s_def)
    then have "scanfLoop buffer (c # cs) (int (length l)) s = scanfLoop buffer cs (int (length (butlast l))) ?s" by (simp only: i)
    moreover have "edit (c # cs) l = edit cs (butlast l)" using 2 by simp
    moreover have "bytes (umem ?s) buffer (length (butlast l)) = butlast l"
      using bytes_butlast [OF Cons.prems(1) 2(4)] by simp
    moreover have "umem ?s x = umem s x" if "x < buffer \<or> buffer + 99 \<le> x" for x using that 2(2) by auto
    moreover have "length (butlast l) \<le> 99" "cmds ?s = cmds s" using Cons.prems(2) by simp_all
    ultimately show ?thesis by (intro go)
  next
    case 3
    then have "scanfLoop buffer (c # cs) (int (length l)) s = scanfLoop buffer cs (int (length l)) s" "edit (c # cs) l = edit cs l"
      by (auto simp: SIZE_s_def)
    then show ?thesis using Cons.prems by (intro go) auto
  next
    case 4
    let ?s = "did [Char c] (s\<lparr>umem := (umem s)(buffer + length l := byte c)\<rparr>)"
    have "scanfLoop buffer (c # cs) (int (length l)) s = scanfLoop buffer cs (int (length (l @ [byte c]))) ?s"
      using 4 nat_int [of "buffer + length l"] by (simp add: SIZE_s_def idx_def add.commute)
    moreover have "edit (c # cs) l = edit cs (l @ [byte c])" using 4 by simp
    moreover have "bytes (umem ?s) buffer (length (l @ [byte c])) = l @ [byte c]" using Cons.prems(1) by (simp add: bytes_Suc)
    moreover have "umem ?s x = umem s x" if "x < buffer \<or> buffer + 99 \<le> x" for x using that 4(2) by auto
    moreover have "length (l @ [byte c]) \<le> 99" "cmds ?s = cmds s" using 4(2) by simp_all
    ultimately show ?thesis by (intro go)
  qed
qed

text \<open>C31: \<open>scanfNoPrint\<close> edits a line: it waits until the line is complete, leaves the edited text as a string in the buffer
  and returns its length, at most 99, and it writes to the 100 bytes of the buffer only.\<close>

theorem scanf_edits:
  assumes "\<And>c. c \<in> set cs \<Longrightarrow> - 128 \<le> c \<and> c < 128"
  shows "case edit cs [] of
      None \<Rightarrow> scanfNoPrint buffer cs s = None
    | Some (l, cs') \<Rightarrow> \<exists>t. scanfNoPrint buffer cs s = Some (int (length l), cs', t) \<and> cstr (umem t) buffer l \<and> length l \<le> 99 \<and>
        (\<forall>x. x < buffer \<or> buffer + 100 \<le> x \<longrightarrow> umem t x = umem s x)"
proof -
  have nz: "0 \<notin> set l" if "edit cs k = Some (l, cs')" "0 \<notin> set k" for k l cs'
    using that assms
  proof (induction cs arbitrary: k)
    case (Cons c cs)
    have "byte c \<noteq> 0" if "c \<noteq> 0"
    proof
      assume "byte c = 0"
      then have "256 dvd c" by (simp add: byte_def word_of_int_eq_0_iff)
      with that Cons.prems(3) [of c] show False by (auto elim!: dvdE)
    qed
    then show ?case using Cons by (auto split: if_splits dest: in_set_butlastD)
  qed simp
  show ?thesis
  proof (cases "edit cs []")
    case None
    then show ?thesis using scanfLoop_edit [of s buffer "[]" cs] by (simp add: scanfNoPrint_def)
  next
    case (Some r)
    obtain l cs' where r: "r = (l, cs')" by force
    obtain t where t: "scanfLoop buffer cs 0 s = Some (int (length l), cs', t)" "bytes (umem t) buffer (length l) = l" "length l \<le> 99"
      "\<And>x. x < buffer \<or> buffer + 99 \<le> x \<Longrightarrow> umem t x = umem s x"
      using scanfLoop_edit [of s buffer "[]" cs] Some r by auto
    have "cstr ((umem t)(buffer + length l := 0)) buffer l" using t(2) nz [of "[]" l cs'] Some r by (simp add: cstr_def)
    moreover have "idx buffer (int (length l)) = buffer + length l" by (simp add: idx_def)
    ultimately show ?thesis using Some r t(1,3,4) by (simp add: scanfNoPrint_def)
  qed
qed

theorem scanf_edits_witness:
  "\<exists>t. scanfNoPrint 1000 [112, 120, 8, 115, 10, 65] (shell0 []) = Some (2, [65], t) \<and> cstr (umem t) 1000 (map of_char ''ps'')"
proof -
  have "edit [112, 120, 8, 115, 10, 65] [] = Some (map of_char ''ps'', [65])" by (simp add: byte_def)
  moreover have "- 128 \<le> c \<and> c < 128" if "c \<in> set [112, 120, 8, 115, 10, 65]" for c :: int using that by auto
  note scanf_edits [of "[112, 120, 8, 115, 10, 65]" 1000 "shell0 []", OF this]
  with calculation show ?thesis by auto
qed

end
