(* ===== verification/Commands.thy ===== *)
theory Commands
  imports Shell Test_MM
begin

text \<open>
  The small programs, \<open>src/Userland/SampleCodeModule/shell/commands\<close>: definitions. A program gives the list of
  the calls it makes and the texts it prints; it is \<open>None\<close> when it reads or writes outside an array, and while it
  waits for input. What \<open>getChar\<close> returns is a list. Arrays of local variables are lists.
\<close>

section \<open>Calls and arrays\<close>

datatype ucall =
  Print "u8 list"
| SysExit
| SysKill int
| SysBlock int
| SysUnblock int
| SysNice int int
| SysLoad string int
| SysWait
| SysSleep int
| SysFree addr

definition lit :: "string \<Rightarrow> nat \<Rightarrow> ucall" where
  "lit s n = Print (literal s n)"

definition storeAt :: "u8 list \<Rightarrow> int \<Rightarrow> int \<Rightarrow> u8 list option" where
  "storeAt b i v = (if 0 \<le> i \<and> i < int (length b) then Some (b[nat i := byte v]) else None)"

definition part :: "u8 list \<Rightarrow> int \<Rightarrow> int \<Rightarrow> u8 list option" where
  "part b from n = (if 0 \<le> from \<and> 0 \<le> n \<and> from + n \<le> int (length b) then Some (take (nat n) (drop (nat from) b)) else None)"

section \<open>cat, filter and wc\<close>

definition SIZE_c :: int where
  "SIZE_c = 1000"

record copier =
  i_c :: int
  j_c :: int
  line_c :: int
  buf_c :: "u8 list"
  out_c :: "ucall list"

definition copier0 :: copier where
  "copier0 = \<lparr>i_c = 0, j_c = 0, line_c = 0, buf_c = replicate (nat SIZE_c) 0, out_c = []\<rparr>"

text \<open>The end of a line: what was read of it is printed.\<close>

definition flush :: "copier \<Rightarrow> copier option" where
  "flush s =
     do {
       t \<leftarrow> part (buf_c s) (line_c s) (j_c s);
       Some (s\<lparr>out_c := out_c s @ [Print t], j_c := 0, line_c := i_c s\<rparr>)
     }"

text \<open>The loops end with the last character read.\<close>

fun catLoop_c :: "int list \<Rightarrow> copier \<Rightarrow> (int \<times> copier) option" where
  "catLoop_c [] s = None"
| "catLoop_c (c # cs) s =
     (if c > 0
      then if i_c s > SIZE_c - 1 then Some (c, s)
           else do {
             b \<leftarrow> storeAt (buf_c s) (i_c s) c;
             let s = s\<lparr>buf_c := b, i_c := i_c s + 1, j_c := j_c s + 1\<rparr>;
             s \<leftarrow> (if c = 10 then flush s else Some s);
             s \<leftarrow> (if c = 8
                   then do {
                     b \<leftarrow> storeAt (buf_c s) (i_c s - 1) 0;
                     b \<leftarrow> storeAt b (i_c s - 2) 0;
                     Some (s\<lparr>buf_c := b, i_c := i_c s - 2\<rparr>)
                   }
                   else Some s);
             catLoop_c cs s
           }
      else Some (c, s))"

text \<open>The statements behind the loop, the same in \<open>cat\<close> and \<open>filter\<close>.\<close>

definition finish :: "int \<times> copier \<Rightarrow> ucall list option" where
  "finish cs =
     (let (c, s) = cs in
      do {
        b \<leftarrow> storeAt (buf_c s) (i_c s) c;
        t \<leftarrow> part b (line_c s) (j_c s + 1);
        Some (out_c s @ [Print t, Print [10], SysExit])
      })"

definition cat :: "int list \<Rightarrow> ucall list option" where
  "cat input = do { r \<leftarrow> catLoop_c input copier0; finish r }"

definition isVocal :: "int \<Rightarrow> bool" where
  "isVocal c \<longleftrightarrow> c \<in> {65, 69, 73, 79, 85, 97, 101, 105, 111, 117}"

fun filterLoop :: "int list \<Rightarrow> copier \<Rightarrow> (int \<times> copier) option" where
  "filterLoop [] s = None"
| "filterLoop (c # cs) s =
     (if c > 0
      then if i_c s \<ge> SIZE_c then Some (c, s)
           else do {
             s \<leftarrow> (if \<not> isVocal c
                   then do { b \<leftarrow> storeAt (buf_c s) (i_c s) c; Some (s\<lparr>buf_c := b, i_c := i_c s + 1, j_c := j_c s + 1\<rparr>) }
                   else Some s);
             s \<leftarrow> (if c = 8
                   then do {
                     b \<leftarrow> storeAt (buf_c s) (i_c s - 1) 0;
                     let s = s\<lparr>buf_c := b, i_c := i_c s - 1\<rparr>;
                     t \<leftarrow> part b (i_c s - 1) 1;
                     if isVocal (sint (hd t))
                     then do { b \<leftarrow> storeAt b (i_c s - 1) 0; Some (s\<lparr>buf_c := b, i_c := i_c s - 1\<rparr>) }
                     else Some s
                   }
                   else Some s);
             s \<leftarrow> (if c = 10 then flush s else Some s);
             filterLoop cs s
           }
      else Some (c, s))"

definition filter_c :: "int list \<Rightarrow> ucall list option" where
  "filter_c input = do { r \<leftarrow> filterLoop input copier0; finish r }"

fun wcLoop :: "int list \<Rightarrow> int \<Rightarrow> (int \<times> int) option" where
  "wcLoop [] i = None"
| "wcLoop (c # cs) i =
     (if c > 0 then if i \<ge> SIZE_c then Some (c, i) else wcLoop cs (if c = 10 then i + 1 else i) else Some (c, i))"

text \<open>\<open>gtoa\<close> works on memory: \<open>buffer\<close> is the address of the local array.\<close>

definition wc :: "addr \<Rightarrow> mem \<Rightarrow> int list \<Rightarrow> ucall list option" where
  "wc buffer m input =
     do {
       let m = wr m buffer (replicate (nat SIZE_c) 0);
       (c, i) \<leftarrow> wcLoop input 0;
       if i < SIZE_c
       then do {
         let m = m(idx buffer i := byte c);
         let (p, m) = gtoa (i + 1) buffer 10 SIZE_c m;
         Some [Print (bytes m p (nat SIZE_c)), Print [10], SysExit]
       }
       else None
     }"

section \<open>help\<close>

definition PAGE_SIZE_h :: int where
  "PAGE_SIZE_h = 10"

definition info :: "string list" where
  "info = [''block: Block a process given the pid'', ''cat: Prints out the text it receives'', ''clear: Clears the window'',
     ''cpufeatures: Show the features the cpu supports'', ''excdiv: Throw exception 0 (zero division)'',
     ''excop: Throw exception 6 (opcode error)'', ''filter: Prints out the text it receives ignoring vocals'',
     ''help: Print information about commands'', ''inforeg: Print values of registers'', ''kill: Kills a process given the pid'',
     ''loop: Prints it's pid and a given message every given amount of seconds'',
     ''nice: Changes the priority of a given process (min: -20, max: 19)'', ''phylo: Shows a solution for the philosopher problem'',
     ''pipes: Prints the dump of the used pipes and their state'', ''printmem: Prints 32 bytes of memory, starting at a given direction'',
     ''ps: Prints information of the running processes'', ''quadratic: Receives 3 floats, quadratic coefficients, prints roots if real'',
     ''sems: Prints the dump of used semaphores'', ''test_mm: Runs memory manager test'',
     ''test_no_sync: Runs synchronization test without semaphores'', ''test_prio: Runs process priority test'',
     ''test_processes: Runs process creation test'', ''test_sync: Runs synchronization test with semaphores'',
     ''time: Prints date and time in UTC'', ''unblock: Unblocks a process given it's pid'',
     ''wc: Prints out amount of lines in the received text'']"

text \<open>\<open>info[i]\<close>, \<open>None\<close> outside the array; the entry behind the texts is the 0 that ends the array.\<close>

definition infoAt :: "int \<Rightarrow> string option option" where
  "infoAt i = (if 0 \<le> i \<and> i < int (length info) then Some (Some (info ! nat i)) else if i = int (length info) then Some None else None)"

definition getCurrentPages :: int where
  "getCurrentPages = (int (length info) + 1) div PAGE_SIZE_h + 1"

function helpLoop :: "int \<Rightarrow> int \<Rightarrow> ucall list option" where
  "helpLoop page i =
     do {
       t \<leftarrow> infoAt i;
       case t of
         None \<Rightarrow> Some []
       | Some s \<Rightarrow>
           if i < s32 (page * PAGE_SIZE_h)
           then do { r \<leftarrow> helpLoop page (i + 1); Some (Print (map of_char s) # Print [10] # r) }
           else Some []
     }"
  by pat_completeness auto
termination
  by (relation "measure (\<lambda>(page, i). nat (s32 (page * PAGE_SIZE_h) - i))") auto

declare helpLoop.simps [simp del]

text \<open>\<open>page\<close> is the number that \<open>atoi\<close> reads from the argument; the numbers in the messages are
  the text that \<open>itoa\<close> gives.\<close>

definition help_c :: "int \<Rightarrow> int \<Rightarrow> ucall list option" where
  "help_c argc page =
     (if argc \<noteq> 2
      then Some [lit ''help receives a number of page between 1 and '' 46, Print (itoa_text getCurrentPages 10 31), Print [10], SysExit]
      else do {
        let m = (if page < 1 \<or> page > getCurrentPages
                 then (if getCurrentPages > 1
                       then [lit ''page number must be between 1 and '' 34, Print (itoa_text getCurrentPages 10 31)]
                       else [lit ''help only has one page (page = 1)\<newline>'' 35]) @ [Print [10]]
                 else []);
        r \<leftarrow> helpLoop page (s32 ((page - 1) * PAGE_SIZE_h));
        Some (m @ r @ [Print [- 1], SysExit])
      })"

section \<open>time\<close>

text \<open>\<open>sys_time\<close> stands for the system call; the options are those of \<open>time.h\<close>.\<close>

definition printTime :: "int \<Rightarrow> ucall list" where
  "printTime number = [Print (takeWhile (\<lambda>c. c \<noteq> 0) [byte (number sdiv 10 + 48), byte (number smod 10 + 48), 0])]"

definition SECONDS_u :: int where "SECONDS_u = 0"
definition MINUTES_u :: int where "MINUTES_u = 2"
definition HOURS_u :: int where "HOURS_u = 4"
definition DAY_u :: int where "DAY_u = 7"
definition MONTH_u :: int where "MONTH_u = 8"
definition YEAR_u :: int where "YEAR_u = 9"

type_synonym sys_time = "int \<Rightarrow> int"

definition getSeconds :: "sys_time \<Rightarrow> int" where "getSeconds sys_time = sys_time SECONDS_u"
definition getMinutes :: "sys_time \<Rightarrow> int" where "getMinutes sys_time = sys_time MINUTES_u"
definition getHours :: "sys_time \<Rightarrow> int" where "getHours sys_time = sys_time HOURS_u"
definition getDay :: "sys_time \<Rightarrow> int" where "getDay sys_time = sys_time DAY_u"
definition getMonth :: "sys_time \<Rightarrow> int" where "getMonth sys_time = sys_time MONTH_u"
definition getYear :: "sys_time \<Rightarrow> int" where "getYear sys_time = sys_time YEAR_u"

definition time_c :: "sys_time \<Rightarrow> ucall list" where
  "time_c t =
     printTime (getDay t) @ [Print [47]] @ printTime (getMonth t) @ [Print [47]] @ printTime (getYear t) @ [Print [32]] @
     printTime (getHours t) @ [Print [58]] @ printTime (getMinutes t) @ [Print [58]] @ printTime (getSeconds t) @
     [Print [- 1], Print [10], SysExit]"

section \<open>cpufeatures\<close>

text \<open>\<open>cpu_id\<close> stands for the instruction: the leaf and the subleaf give \<open>ebx\<close>, \<open>ecx\<close> and \<open>edx\<close>.\<close>

type_synonym cpu = "u32 \<Rightarrow> u32 \<Rightarrow> u32 \<times> u32 \<times> u32"

definition ebx_of :: "cpu \<Rightarrow> u32 \<Rightarrow> u32" where "ebx_of cpu leaf = fst (cpu leaf 0)"
definition ecx_of :: "cpu \<Rightarrow> u32 \<Rightarrow> u32" where "ecx_of cpu leaf = fst (snd (cpu leaf 0))"
definition edx_of :: "cpu \<Rightarrow> u32 \<Rightarrow> u32" where "edx_of cpu leaf = snd (snd (cpu leaf 0))"

definition CPUID_FEAT_ECX_PCLMUL :: u32 where "CPUID_FEAT_ECX_PCLMUL = push_bit 1 1"
definition CPUID_FEAT_ECX_SSSE3 :: u32 where "CPUID_FEAT_ECX_SSSE3 = push_bit 9 1"
definition CPUID_FEAT_ECX_FMA :: u32 where "CPUID_FEAT_ECX_FMA = push_bit 12 1"
definition CPUID_FEAT_ECX_SSE4_1 :: u32 where "CPUID_FEAT_ECX_SSE4_1 = push_bit 19 1"
definition CPUID_FEAT_ECX_SSE4_2 :: u32 where "CPUID_FEAT_ECX_SSE4_2 = push_bit 20 1"
definition CPUID_FEAT_ECX_AES :: u32 where "CPUID_FEAT_ECX_AES = push_bit 25 1"
definition CPUID_FEAT_ECX_AVX :: u32 where "CPUID_FEAT_ECX_AVX = push_bit 28 1"
definition CPUID_FEAT_ECX_F16C :: u32 where "CPUID_FEAT_ECX_F16C = push_bit 29 1"
definition CPUID_FEAT_EDX_FPU :: u32 where "CPUID_FEAT_EDX_FPU = push_bit 0 1"
definition CPUID_FEAT_EDX_MMX :: u32 where "CPUID_FEAT_EDX_MMX = push_bit 23 1"
definition CPUID_FEAT_EDX_SSE :: u32 where "CPUID_FEAT_EDX_SSE = push_bit 25 1"
definition CPUID_FEAT_EDX_SSE2 :: u32 where "CPUID_FEAT_EDX_SSE2 = push_bit 26 1"
definition CPUID_FEAT_AVX2 :: u32 where "CPUID_FEAT_AVX2 = push_bit 5 1"
definition CPUID_FEAT_VPCLMULQDQ :: u32 where "CPUID_FEAT_VPCLMULQDQ = push_bit 10 1"
definition CPUID_FEAT_VAES :: u32 where "CPUID_FEAT_VAES = push_bit 9 1"

definition check_fpu :: "cpu \<Rightarrow> bool" where "check_fpu c \<longleftrightarrow> edx_of c 1 AND CPUID_FEAT_EDX_FPU \<noteq> 0"
definition check_sse :: "cpu \<Rightarrow> bool" where "check_sse c \<longleftrightarrow> edx_of c 1 AND CPUID_FEAT_EDX_SSE \<noteq> 0"
definition check_sse2 :: "cpu \<Rightarrow> bool" where "check_sse2 c \<longleftrightarrow> edx_of c 1 AND CPUID_FEAT_EDX_SSE2 \<noteq> 0"
definition check_sse41 :: "cpu \<Rightarrow> bool" where "check_sse41 c \<longleftrightarrow> ecx_of c 1 AND CPUID_FEAT_ECX_SSE4_1 \<noteq> 0"
definition check_sse42 :: "cpu \<Rightarrow> bool" where "check_sse42 c \<longleftrightarrow> ecx_of c 1 AND CPUID_FEAT_ECX_SSE4_2 \<noteq> 0"
definition check_avx :: "cpu \<Rightarrow> bool" where "check_avx c \<longleftrightarrow> ecx_of c 1 AND CPUID_FEAT_ECX_AVX \<noteq> 0"
definition check_fma :: "cpu \<Rightarrow> bool" where "check_fma c \<longleftrightarrow> ecx_of c 1 AND CPUID_FEAT_ECX_FMA \<noteq> 0"
definition check_f16c :: "cpu \<Rightarrow> bool" where "check_f16c c \<longleftrightarrow> ecx_of c 1 AND CPUID_FEAT_ECX_F16C \<noteq> 0"
definition check_avx2 :: "cpu \<Rightarrow> bool" where "check_avx2 c \<longleftrightarrow> ebx_of c 7 AND CPUID_FEAT_AVX2 \<noteq> 0"
definition check_vaesni :: "cpu \<Rightarrow> bool" where "check_vaesni c \<longleftrightarrow> ebx_of c 7 AND CPUID_FEAT_VAES \<noteq> 0"
definition check_vpclmulqdq :: "cpu \<Rightarrow> bool" where "check_vpclmulqdq c \<longleftrightarrow> ebx_of c 7 AND CPUID_FEAT_VPCLMULQDQ \<noteq> 0"
definition check_pclmulqdq :: "cpu \<Rightarrow> bool" where "check_pclmulqdq c \<longleftrightarrow> ecx_of c 1 AND CPUID_FEAT_ECX_PCLMUL \<noteq> 0"
definition check_sse3 :: "cpu \<Rightarrow> bool" where "check_sse3 c \<longleftrightarrow> ecx_of c 1 AND CPUID_FEAT_ECX_SSSE3 \<noteq> 0"
definition check_mmx :: "cpu \<Rightarrow> bool" where "check_mmx c \<longleftrightarrow> edx_of c 1 AND CPUID_FEAT_EDX_MMX \<noteq> 0"
definition check_aes :: "cpu \<Rightarrow> bool" where "check_aes c \<longleftrightarrow> ecx_of c 1 AND CPUID_FEAT_ECX_AES \<noteq> 0"

text \<open>\<open>has_id\<close> is the answer of \<open>cpu_id_support\<close>.\<close>

definition checks :: "(string \<times> (bool \<Rightarrow> cpu \<Rightarrow> bool)) list" where
  "checks = [(''cpuid_support'', \<lambda>h c. h), (''mx_support'', \<lambda>h. check_mmx), (''sse_support'', \<lambda>h. check_sse),
     (''sse2_support'', \<lambda>h. check_sse2), (''sse3_support'', \<lambda>h. check_sse3), (''sse41_support'', \<lambda>h. check_sse41),
     (''sse42_support'', \<lambda>h. check_sse42), (''aes_support'', \<lambda>h. check_aes), (''pclmulqdq_support'', \<lambda>h. check_pclmulqdq),
     (''avx_support'', \<lambda>h. check_avx), (''vaesni_support'', \<lambda>h. check_vaesni), (''vpclmulqdq_support'', \<lambda>h. check_vpclmulqdq),
     (''f16c_support'', \<lambda>h. check_f16c), (''fma_support'', \<lambda>h. check_fma), (''avx2_support'', \<lambda>h. check_avx2),
     (''fpu_support'', \<lambda>h. check_fpu)]"

definition cpufeatures :: "bool \<Rightarrow> cpu \<Rightarrow> ucall list" where
  "cpufeatures has_id c =
     concat (map (\<lambda>(s, check). if check has_id c then [Print (map of_char s), Print [10]] else []) checks) @ [Print [- 1], SysExit]"

section \<open>kill, block, unblock and nice\<close>

definition kill_c :: "mem \<Rightarrow> int \<Rightarrow> (nat \<Rightarrow> addr) \<Rightarrow> ucall list option" where
  "kill_c m argc argv =
     (if argc \<noteq> 2 then Some [lit ''kill receives a pid\<newline>'' 21]
      else do { k \<leftarrow> atoi m (argv 1); Some [SysKill k] })"

definition block_c :: "mem \<Rightarrow> int \<Rightarrow> (nat \<Rightarrow> addr) \<Rightarrow> ucall list option" where
  "block_c m argc argv =
     (if argc \<noteq> 2 then Some [lit ''block receives a pid\<newline>'' 21]
      else do { k \<leftarrow> atoi m (argv 1); Some [SysBlock k] })"

definition unblock_c :: "mem \<Rightarrow> int \<Rightarrow> (nat \<Rightarrow> addr) \<Rightarrow> ucall list option" where
  "unblock_c m argc argv =
     (if argc \<noteq> 2 then Some [lit ''unblock receives a pid\<newline>'' 21, SysExit]
      else do { k \<leftarrow> atoi m (argv 1); Some [SysUnblock k, SysExit] })"

definition nice_c :: "mem \<Rightarrow> int \<Rightarrow> (nat \<Rightarrow> addr) \<Rightarrow> ucall list option" where
  "nice_c m argc argv =
     (if argc \<noteq> 3 then Some [lit ''nice receives a pid and an offset\<newline>'' 35, SysExit]
      else do { k \<leftarrow> atoi m (argv 1); offset \<leftarrow> atoi m (argv 2); Some [SysNice k (s8 offset), SysExit] })"

section \<open>inforeg\<close>

definition regsNames :: "string list" where
  "regsNames = [''RAX: '', ''RBX: '', ''RCX: '', ''RDX: '', ''RBP: '', ''RDI: '', ''RSI: '',
     ''R8: '', ''R9: '', ''R10: '', ''R11: '', ''R12: '', ''R13: '', ''R14: '', ''R15: '', ''RSP: '', ''RIP: '']"

text \<open>\<open>regs\<close> are the values that \<open>_getRegs\<close> stores; \<open>gtoa\<close> takes them as an \<open>int\<close>.\<close>

definition inforeg :: "(nat \<Rightarrow> u64) \<Rightarrow> ucall list" where
  "inforeg regs =
     concat (map (\<lambda>i.
       (if i mod 5 = 0 \<and> i \<noteq> 0 then [Print [10]] else []) @
       [Print (map of_char (regsNames ! i)), lit ''0x'' 2, Print (itoa_text (s32 (uint (regs i))) 16 20)] @
       (if i \<noteq> 14 \<and> i mod 5 \<noteq> 4 then [lit '' - '' 3] else [])) [0..<17]) @
     [Print [- 1], Print [10], SysExit]"

section \<open>The priority test and the first process\<close>

abbreviation (input) TOTAL_PROCESSES :: nat where "TOTAL_PROCESSES \<equiv> 3"

text \<open>\<open>pids\<close> are the answers to \<open>sys_loadProcess\<close>. The busy waits between the parts make no call.\<close>

definition test_prio :: "(nat \<Rightarrow> int) \<Rightarrow> ucall list" where
  "test_prio pids =
     map (\<lambda>i. SysLoad ''test_prio'' 0) [0..<TOTAL_PROCESSES] @
     [lit ''\<newline>CHANGING PRIORITIES...\<newline>'' 25] @
     map (\<lambda>i. SysNice (pids i) (if i mod 3 = 0 then 19 else if i mod 3 = 1 then 0 else - 20)) [0..<TOTAL_PROCESSES] @
     [lit ''\<newline>BLOCKING...\<newline>'' 14] @
     map (\<lambda>i. SysBlock (pids i)) [0..<TOTAL_PROCESSES] @
     [lit ''CHANGING PRIORITIES WHILE BLOCKED...\<newline>'' 38] @
     map (\<lambda>i. SysNice (pids i) 0) [0..<TOTAL_PROCESSES] @
     [lit ''UNBLOCKING...\<newline>'' 15] @
     map (\<lambda>i. SysUnblock (pids i)) [0..<TOTAL_PROCESSES] @
     [lit ''\<newline>KILLING...\<newline>'' 13] @
     map (\<lambda>i. SysKill (pids i)) [0..<TOTAL_PROCESSES] @ [SysExit]"

text \<open>The first \<open>n\<close> rounds of a process that the test starts: ten bytes of \<open>buffer\<close> are printed, the ones behind the
  number included. \<open>bussy_wait\<close> makes no call.\<close>

definition endless_loop2 :: "int \<Rightarrow> addr \<Rightarrow> nat \<Rightarrow> mem \<Rightarrow> ucall list option" where
  "endless_loop2 pid buffer n m =
     do {
       (p, m) \<leftarrow> itoa_u pid buffer 10 m;
       Some (replicate n (Print (bytes m p 10)))
     }"

definition main_u :: "ucall list" where
  "main_u = [Print [27, 12], SysLoad ''bottler'' 0, SysWait, SysLoad ''shell'' 1, SysExit]"

section \<open>Dumps\<close>

text \<open>What \<open>printString\<close> of a string in memory writes.\<close>

definition printed :: "mem \<Rightarrow> addr \<Rightarrow> ucall option" where
  "printed m a = do { len \<leftarrow> strlen m a; Some (Print (bytes m a (nat len))) }"

text \<open>\<open>output\<close> is the address of the text that the system call made.\<close>

definition ps_c :: "mem \<Rightarrow> addr \<Rightarrow> ucall list option" where
  "ps_c m output = do { t \<leftarrow> printed m output; Some [t, Print [- 1], Print [10], SysFree output, SysExit] }"

definition mem_c :: "mem \<Rightarrow> addr \<Rightarrow> ucall list option" where
  "mem_c m output = do { t \<leftarrow> printed m output; Some [t, Print [10], SysFree output, Print [- 1], SysExit] }"

definition pipe_c :: "mem \<Rightarrow> addr \<Rightarrow> ucall list option" where
  "pipe_c m output = do { t \<leftarrow> printed m output; Some [t, Print [10], SysFree output, Print [- 1], SysExit] }"

definition sem_c :: "mem \<Rightarrow> addr \<Rightarrow> ucall list option" where
  "sem_c m output = do { t \<leftarrow> printed m output; Some [t, Print [10], SysFree output, Print [- 1], SysExit] }"

definition clear_c :: "ucall list" where
  "clear_c = [Print [27, 12]]"

section \<open>printmem\<close>

definition getMem :: "(int \<Rightarrow> int) \<Rightarrow> int \<Rightarrow> int list" where
  "getMem peek initialAddress = map (\<lambda>i. peek (s32 (initialAddress + int i * 4))) [0..<8]"

text \<open>\<open>peek\<close> is the \<open>int\<close> at an address. The text of a number must fit in the 8 places of \<open>bufferAux\<close>.\<close>

fun memLoop :: "addr \<Rightarrow> int list \<Rightarrow> mem \<Rightarrow> ucall list option" where
  "memLoop bufferAux [] m = Some []"
| "memLoop bufferAux (v # vs) m =
     do {
       (p, m) \<leftarrow> itoa_u v bufferAux 16 m;
       len \<leftarrow> strlen m p;
       t \<leftarrow> printed m p;
       if len < 8 then do { r \<leftarrow> memLoop bufferAux vs m; Some (lit ''0x'' 2 # t # Print [10] # r) } else None
     }"

definition printmem :: "(int \<Rightarrow> int) \<Rightarrow> addr \<Rightarrow> mem \<Rightarrow> int \<Rightarrow> (nat \<Rightarrow> addr) \<Rightarrow> ucall list option" where
  "printmem peek bufferAux m argc argv =
     (if argc \<noteq> 2 then Some [lit ''printmem receives a memory position\<newline>'' 37, SysExit]
      else do {
        a \<leftarrow> atoi m (argv 1);
        r \<leftarrow> memLoop bufferAux (getMem peek a) m;
        Some (r @ [Print [- 1], SysExit])
      })"

section \<open>loop\<close>

definition MAX_PID_LEN :: int where
  "MAX_PID_LEN = 100"

text \<open>The first \<open>n\<close> rounds of a loop that does not end. \<open>buffer\<close> is the block of \<open>MAX_PID_LEN\<close> bytes and \<open>space\<close> the
  literal between the number and the text, all of which must fit.\<close>

definition loop_c :: "int \<Rightarrow> addr \<Rightarrow> addr \<Rightarrow> nat \<Rightarrow> mem \<Rightarrow> int \<Rightarrow> (nat \<Rightarrow> addr) \<Rightarrow> ucall list option" where
  "loop_c pid buffer space n m argc argv =
     (if argc \<noteq> 3 then Some [lit ''loop receives an amount of seconds and a text\<newline>'' 47, SysExit]
      else do {
        secs \<leftarrow> atoi m (argv 1);
        (p, m) \<leftarrow> itoa_u pid buffer 10 m;
        (p, m) \<leftarrow> strcat p space m;
        (p, m) \<leftarrow> strcat p (argv 2) m;
        len \<leftarrow> strlen m p;
        t \<leftarrow> printed m p;
        if len < MAX_PID_LEN then Some (concat (replicate n [t, Print [10], SysSleep secs])) else None
      })"

section \<open>bottler\<close>

text \<open>The calls print more bytes than their literals have: \<open>behind s i\<close> is the byte \<open>i\<close> places behind the NUL of
  the literal \<open>s\<close>.\<close>

definition over :: "(string \<Rightarrow> nat \<Rightarrow> u8) \<Rightarrow> string \<Rightarrow> nat \<Rightarrow> ucall" where
  "over behind s n = Print (take n (map of_char s @ 0 # map (behind s) [0..<n]))"

definition bottler :: "(string \<Rightarrow> nat \<Rightarrow> u8) \<Rightarrow> ucall list" where
  "bottler behind =
     [over behind ''                                                                             '' 80, Print [10], 
      over behind ''                                   (%(                                     '' 80, Print [10], 
      over behind ''      Welcome to'' 17, 
      over behind ''                  %%%%%                                      '' 80, Print [10], 
      over behind ''        BottlerOS'' 18, 
      over behind ''                  %%%                                      '' 80, Print [10], 
      over behind ''                              %%%%%%%%%%%%%                                 '' 80, Print [10], 
      over behind ''                          %%%%%%%%%%%%%%%%%%%%%                             '' 80, Print [10], 
      over behind ''                        %%%%%%%           %%%%%%%                           '' 80, Print [10], 
      over behind ''                      %%%%%                   %%%%%                         '' 80, Print [10], 
      over behind ''                     %%%%%                     %%%%%                        '' 80, Print [10], 
      over behind ''                    %%%%% '' 27, over behind '' %%%%           %%%% '' 22, 
      over behind '' %%%%%                       '' 30, Print [10], over behind ''                    %%%%%  '' 28, 
      over behind '' (%             %(  '' 21, over behind '' %%%%%                       '' 30, Print [10], 
      over behind ''                    %%%%%%%                   %%%%%%%                       '' 80, Print [10], 
      over behind ''                    %%%%%%%%%%%%%%%%%%%%%%%%%%%%%%%%%                       '' 80, Print [10], 
      over behind ''                 %%%%%%%%%%%%%%%%%%%%%%%%%%%%%%%%%%%%%%%                    '' 80, Print [10], 
      over behind ''                %%%%%%%%%%%%%%%%%%%%%%% '' 41, over behind '' %  %* '' 8, 
      over behind '' %%%%%%%%%                   '' 30, Print [10], 
      over behind ''                %%%%%%%%%%%%%%%%%%%%%%%%%%%%%%%%%%%%%%%%%                   '' 80, Print [10], 
      over behind ''                %%**%%%%%%%%%%%%%%%%%%%%%%%%%%%%%%%%%*/%%                   '' 80, Print [10], 
      over behind ''                %%* %%%%%%%%%%%%%%%%%%%%%%%%%%%%%%%%% /%%                   '' 80, Print [10], 
      over behind ''                %%* %%%%%%%%%%%%%%%%%%%%%%%%%%%%%%%%% /%%                   '' 80, Print [10], 
      over behind ''                %%%  %%%%%%%%%%%%%%%%%%%%%%%%%%%%%%%  %%%                   '' 80, Print [10], 
      over behind ''              ,%%%%%   %%%%%%%%%%%%%%%%%%%%%%%%%%%   %%%%%.                 '' 80, Print [10], 
      over behind ''                %%.         %%%%%%%%%%%%%%%%%         .%%                   '' 80, Print [10], 
      over behind ''                              %%%%%%%%%%%%%                                 '' 80, Print [10], 
      over behind ''                                 %%%%%%%                                    '' 80, Print [10], 
      over behind ''                                                                            '' 80, Print [10], 
      SysSleep 3, Print [27, 12], SysExit]"

end
