(* ===== verification/Commands_Props.thy ===== *)
theory Commands_Props
  imports Commands
begin

text \<open>
  The small programs: what \<open>cat\<close>, \<open>filter\<close> and \<open>wc\<close> write for a text, and where they leave their
  buffer; the pages of \<open>help\<close>; the features that \<open>cpufeatures\<close> names wrongly.
\<close>

section \<open>Texts\<close>

fun texts :: "ucall list \<Rightarrow> u8 list" where
  "texts [] = []"
| "texts (Print t # cs) = t @ texts cs"
| "texts (_ # cs) = texts cs"

lemma texts_append [simp]: "texts (as @ bs) = texts as @ texts bs"
  by (induction as rule: texts.induct) auto

text \<open>The copier has stored the text \<open>t\<close>, and printed it up to the line it is in.\<close>

definition copied :: "u8 list \<Rightarrow> copier \<Rightarrow> bool" where
  "copied t s \<longleftrightarrow> length (buf_c s) = 1000 \<and> length t \<le> 1000 \<and> i_c s = int (length t) \<and> take (length t) (buf_c s) = t \<and>
     0 \<le> line_c s \<and> line_c s \<le> i_c s \<and> j_c s = i_c s - line_c s \<and> texts (out_c s) = take (nat (line_c s)) t"

lemma copied0: "copied [] copier0"
  by (simp add: copied_def copier0_def SIZE_c_def)

lemma copied_store:
  assumes "copied t s" "length t < 1000"
  obtains b where "storeAt (buf_c s) (i_c s) c = Some b"
    "copied (t @ [byte c]) (s\<lparr>buf_c := b, i_c := i_c s + 1, j_c := j_c s + 1\<rparr>)"
proof -
  let ?b = "(buf_c s)[length t := byte c]"
  have "storeAt (buf_c s) (i_c s) c = Some ?b" using assms by (simp add: storeAt_def copied_def)
  moreover have "take (Suc (length t)) ?b = t @ [byte c]"
    using assms by (simp add: copied_def take_Suc_conv_app_nth)
  ultimately show thesis using that [of ?b] assms by (auto simp: copied_def)
qed

lemma copied_full: "copied t s \<Longrightarrow> length t = 1000 \<Longrightarrow> finish (c, s) = None"
  by (simp add: copied_def finish_def storeAt_def)

lemma copied_flush:
  assumes "copied t s"
  obtains u where "flush s = Some u" "copied t u" "i_c u = i_c s"
proof -
  have "part (buf_c s) (line_c s) (j_c s) = Some (drop (nat (line_c s)) t)"
  proof -
    have n: "nat (j_c s) = length t - nat (line_c s)" using assms by (simp add: copied_def nat_diff_distrib)
    have "take (nat (j_c s)) (drop (nat (line_c s)) (buf_c s)) = drop (nat (line_c s)) (take (length t) (buf_c s))"
      by (simp only: n drop_take)
    then show ?thesis using assms by (auto simp: part_def copied_def)
  qed
  then show thesis using that [of "s\<lparr>out_c := out_c s @ [Print (drop (nat (line_c s)) t)], j_c := 0, line_c := i_c s\<rparr>"] assms
    by (auto simp: flush_def copied_def)
qed

lemma copied_finish:
  assumes "copied t s" "length t < 1000"
  shows "\<exists>out. finish (c, s) = Some out \<and> texts out = t @ [byte c, 10]"
proof -
  obtain b where b: "storeAt (buf_c s) (i_c s) c = Some b"
    "copied (t @ [byte c]) (s\<lparr>buf_c := b, i_c := i_c s + 1, j_c := j_c s + 1\<rparr>)" by (rule copied_store [OF assms])
  obtain u where u: "flush (s\<lparr>buf_c := b, i_c := i_c s + 1, j_c := j_c s + 1\<rparr>) = Some u" "copied (t @ [byte c]) u"
    "i_c u = i_c s + 1" using copied_flush [OF b(2)] by auto
  then obtain x where x: "part b (line_c s) (j_c s + 1) = Some x" "out_c u = out_c s @ [Print x]" "line_c u = i_c s + 1"
    by (auto simp: flush_def split: Option.bind_splits)
  have "texts (out_c s) @ x = t @ [byte c]" using u(2) x(2,3) assms by (auto simp: copied_def)
  then show ?thesis using b(1) x(1) by (simp add: finish_def)
qed

lemma catLoop_copies:
  assumes "copied t s" "\<And>c. c \<in> set cs \<Longrightarrow> 0 < c \<and> c \<noteq> 8" "e \<le> 0"
  shows "\<exists>d u v. catLoop_c (cs @ e # r) s = Some (d, u) \<and> copied v u \<and>
    (if length t + length cs \<le> 1000 then d = e \<and> v = t @ map byte cs else length v = 1000)"
  using assms(1,2)
proof (induction cs arbitrary: t s)
  case Nil
  then show ?case using assms(3) by (auto simp: copied_def)
next
  case (Cons c cs)
  have c: "0 < c" "c \<noteq> 8" using Cons.prems(2) by auto
  show ?case
  proof (cases "length t = 1000")
    case True
    then have "catLoop_c ((c # cs) @ e # r) s = Some (c, s)" using Cons.prems(1) c by (simp add: copied_def SIZE_c_def)
    then show ?thesis using True Cons.prems(1) by auto
  next
    case False
    then have lt: "length t < 1000" using Cons.prems(1) by (simp add: copied_def)
    obtain b where b: "storeAt (buf_c s) (i_c s) c = Some b"
      "copied (t @ [byte c]) (s\<lparr>buf_c := b, i_c := i_c s + 1, j_c := j_c s + 1\<rparr>)" (is "copied _ ?s") by (rule copied_store [OF Cons.prems(1) lt])
    obtain u where u: "flush ?s = Some u" "copied (t @ [byte c]) u" using copied_flush [OF b(2)] by auto
    let ?u = "if c = 10 then u else ?s"
    have i: "\<not> i_c s > SIZE_c - 1" using Cons.prems(1) lt by (simp add: copied_def SIZE_c_def)
    have w: "catLoop_c ((c # cs) @ e # r) s = catLoop_c (cs @ e # r) ?u" using i b(1) u(1) c by simp
    have "copied (t @ [byte c]) ?u" using b(2) u(2) by (cases "c = 10") simp_all
    then obtain d x v where h: "catLoop_c (cs @ e # r) ?u = Some (d, x)" "copied v x"
      "if length (t @ [byte c]) + length cs \<le> 1000 then d = e \<and> v = (t @ [byte c]) @ map byte cs else length v = 1000"
      using Cons.IH [of "t @ [byte c]" ?u] Cons.prems(2) by (meson list.set_intros(2))
    show ?thesis by (rule exI [of _ d], rule exI [of _ x], rule exI [of _ v], use w h in simp)
  qed
qed

lemma filterLoop_copies:
  assumes "copied t s" "\<And>c. c \<in> set cs \<Longrightarrow> 0 < c \<and> c \<noteq> 8" "e \<le> 0"
  shows "\<exists>d u v. filterLoop (cs @ e # r) s = Some (d, u) \<and> copied v u \<and>
    (if length t + length (filter (\<lambda>c. \<not> isVocal c) cs) < 1000 then d = e \<and> v = t @ map byte (filter (\<lambda>c. \<not> isVocal c) cs)
     else length v = 1000)"
  using assms(1,2)
proof (induction cs arbitrary: t s)
  case Nil
  then show ?case using assms(3) by (auto simp: copied_def)
next
  case (Cons c cs)
  have c: "0 < c" "c \<noteq> 8" using Cons.prems(2) by auto
  show ?case
  proof (cases "length t = 1000")
    case True
    then have "filterLoop ((c # cs) @ e # r) s = Some (c, s)" using Cons.prems(1) c by (simp add: copied_def SIZE_c_def)
    then show ?thesis using True Cons.prems(1) by auto
  next
    case False
    then have lt: "length t < 1000" using Cons.prems(1) by (simp add: copied_def)
    have i: "\<not> i_c s \<ge> SIZE_c" using Cons.prems(1) lt by (simp add: copied_def SIZE_c_def)
    show ?thesis
    proof (cases "isVocal c")
      case True
      then have w: "filterLoop ((c # cs) @ e # r) s = filterLoop (cs @ e # r) s" using i c by (auto simp: isVocal_def)
      obtain d x v where h: "filterLoop (cs @ e # r) s = Some (d, x)" "copied v x"
        "if length t + length (filter (\<lambda>c. \<not> isVocal c) cs) < 1000
         then d = e \<and> v = t @ map byte (filter (\<lambda>c. \<not> isVocal c) cs) else length v = 1000"
        using Cons.IH [OF Cons.prems(1)] Cons.prems(2) by (meson list.set_intros(2))
      show ?thesis by (rule exI [of _ d], rule exI [of _ x], rule exI [of _ v], use w h True in simp)
    next
      case False
      obtain b where b: "storeAt (buf_c s) (i_c s) c = Some b"
        "copied (t @ [byte c]) (s\<lparr>buf_c := b, i_c := i_c s + 1, j_c := j_c s + 1\<rparr>)" (is "copied _ ?s") by (rule copied_store [OF Cons.prems(1) lt])
      obtain u where u: "flush ?s = Some u" "copied (t @ [byte c]) u" using copied_flush [OF b(2)] by auto
      let ?u = "if c = 10 then u else ?s"
      have w: "filterLoop ((c # cs) @ e # r) s = filterLoop (cs @ e # r) ?u" using i b(1) u(1) c False by simp
      have "copied (t @ [byte c]) ?u" using b(2) u(2) by (cases "c = 10") simp_all
      then obtain d x v where h: "filterLoop (cs @ e # r) ?u = Some (d, x)" "copied v x"
        "if length (t @ [byte c]) + length (filter (\<lambda>c. \<not> isVocal c) cs) < 1000
         then d = e \<and> v = (t @ [byte c]) @ map byte (filter (\<lambda>c. \<not> isVocal c) cs) else length v = 1000"
        using Cons.IH [of "t @ [byte c]" ?u] Cons.prems(2) by (meson list.set_intros(2))
      show ?thesis by (rule exI [of _ d], rule exI [of _ x], rule exI [of _ v], use w h False in simp)
    qed
  qed
qed

lemma wcLoop_counts:
  assumes "\<And>c. c \<in> set cs \<Longrightarrow> 0 < c" "e \<le> 0" "0 \<le> i" "i \<le> 1000"
  shows "\<exists>d n. wcLoop (cs @ e # r) i = Some (d, n) \<and>
    (if i + int (count_list cs 10) < 1000 then d = e \<and> n = i + int (count_list cs 10) else n = 1000)"
  using assms(1,3,4)
proof (induction cs arbitrary: i)
  case Nil
  then show ?case using assms(2) by auto
next
  case (Cons c cs)
  then show ?case
  proof (cases "i = 1000")
    case True
    then show ?thesis using Cons.prems(1) by (auto simp: SIZE_c_def)
  next
    case False
    let ?i = "if c = 10 then i + 1 else i"
    have w: "wcLoop ((c # cs) @ e # r) i = wcLoop (cs @ e # r) ?i" using False Cons.prems by (auto simp: SIZE_c_def)
    have "0 \<le> ?i" "?i \<le> 1000" using Cons.prems(2,3) False by auto
    then obtain d n where h: "wcLoop (cs @ e # r) ?i = Some (d, n)"
      "if ?i + int (count_list cs 10) < 1000 then d = e \<and> n = ?i + int (count_list cs 10) else n = 1000"
      using Cons.IH [of ?i] Cons.prems(1) by auto
    have "?i + int (count_list cs 10) = i + int (count_list (c # cs) 10)" by simp
    with h w show ?thesis by (simp only:) blast
  qed
qed

section \<open>Properties\<close>

text \<open>C30: \<open>cat\<close> writes the text it reads, \<open>filter\<close> writes it without its vowels, both followed by the character
  that ends the input and a newline, and \<open>wc\<close> writes the decimal number of its newlines and 1, if the text has no
  backspace and fewer than 1000 characters that count. With 1000 of them every one of the three programs writes
  behind its buffer.\<close>

theorem text_programs:
  assumes "\<And>c. c \<in> set cs \<Longrightarrow> 0 < c \<and> c \<noteq> 8" "e \<le> 0" "kept = filter (\<lambda>c. \<not> isVocal c) cs" "n = int (count_list cs 10) + 1"
  shows "(if length cs < 1000 then \<exists>out. cat (cs @ e # r) = Some out \<and> texts out = map byte cs @ [byte e, 10]
      else cat (cs @ e # r) = None) \<and>
    (if length kept < 1000 then \<exists>out. filter_c (cs @ e # r) = Some out \<and> texts out = map byte kept @ [byte e, 10]
      else filter_c (cs @ e # r) = None) \<and>
    (if n \<le> 1000 then \<exists>t. wc buffer m (cs @ e # r) = Some [Print (itoa_text n 10 1000 @ 0 # t), Print [10], SysExit]
      else wc buffer m (cs @ e # r) = None)"
proof (intro conjI)
  obtain d u v where c: "catLoop_c (cs @ e # r) copier0 = Some (d, u)" "copied v u"
    "if length cs \<le> 1000 then d = e \<and> v = map byte cs else length v = 1000"
    using catLoop_copies [OF copied0, of cs e r, OF assms(1,2)] by auto
  show "if length cs < 1000 then \<exists>out. cat (cs @ e # r) = Some out \<and> texts out = map byte cs @ [byte e, 10] else cat (cs @ e # r) = None"
  proof (cases "length cs < 1000")
    case True
    then show ?thesis using c copied_finish [OF c(2), of e] by (simp add: cat_def)
  next
    case False
    then have "length v = 1000" using c(3) by (auto split: if_splits)
    then show ?thesis using False c(1) copied_full [OF c(2)] by (simp add: cat_def)
  qed
  obtain d u v where f: "filterLoop (cs @ e # r) copier0 = Some (d, u)" "copied v u"
    "if length kept < 1000 then d = e \<and> v = map byte kept else length v = 1000"
    using filterLoop_copies [OF copied0, of cs e r, OF assms(1,2)] assms(3) by auto
  show "if length kept < 1000 then \<exists>out. filter_c (cs @ e # r) = Some out \<and> texts out = map byte kept @ [byte e, 10]
      else filter_c (cs @ e # r) = None"
    using f copied_finish [OF f(2), of e] copied_full [OF f(2), of d] by (auto simp: filter_c_def split: if_splits)
  obtain d k where w: "wcLoop (cs @ e # r) 0 = Some (d, k)" "if int (count_list cs 10) < 1000 then d = e \<and> k = int (count_list cs 10) else k = 1000"
    using wcLoop_counts [of cs e 0 r] assms(1,2) by auto
  show "if n \<le> 1000 then \<exists>t. wc buffer m (cs @ e # r) = Some [Print (itoa_text n 10 1000 @ 0 # t), Print [10], SysExit]
      else wc buffer m (cs @ e # r) = None"
  proof (cases "n \<le> 1000")
    case False
    then show ?thesis using w assms(4) by (auto simp: wc_def SIZE_c_def split: if_splits)
  next
    case True
    then have k: "k = n - 1" "k < SIZE_c" "0 \<le> n" using w(2) assms(4) by (auto simp: SIZE_c_def)
    let ?m = "(wr m buffer (replicate (nat SIZE_c) 0))(idx buffer k := byte d)" and ?t = "itoa_text n 10 1000 @ [0]"
    have g: "gtoa n buffer 10 SIZE_c ?m = (buffer, wr ?m buffer ?t)"
      using itoa_wr [of 10 n buffer 1000 ?m] True k(3) by (simp add: gtoa_eq SIZE_c_def)
    have "length (lsd 10 (nat n)) \<le> 4" by (rule length_lsd) (use True k(3) in simp_all)
    then have len: "length ?t + (1000 - length ?t) = nat SIZE_c" using k(3) by (simp add: itoa_text_def Let_def SIZE_c_def)
    have "bytes (wr ?m buffer ?t) buffer (nat SIZE_c) = ?t @ bytes (wr ?m buffer ?t) (buffer + length ?t) (1000 - length ?t)"
      unfolding len [symmetric] bytes_append by (simp only: bytes_wr)
    then show ?thesis using w(1) k g True by (auto simp: wc_def)
  qed
qed

theorem text_programs_witness:
  "(\<exists>out. cat [72, 105, 10, - 1] = Some out \<and> texts out = [72, 105, 10, - 1, 10]) \<and>
   (\<exists>out. filter_c [72, 105, 10, - 1] = Some out \<and> texts out = [72, 10, - 1, 10])"
proof -
  have c: "0 < c \<and> c \<noteq> 8" if "c \<in> set [72, 105, 10]" for c :: int using that by auto
  from text_programs [of "[72, 105, 10]" "- 1" _ _ "[]", OF c _ refl refl]
  show ?thesis by (simp add: isVocal_def byte_def)
qed

section \<open>help\<close>

lemma length_info: "length info = 26"
  by (simp add: info_def)

lemma helpLoop_info:
  assumes "0 \<le> i" "i \<le> 26" "1 \<le> page" "page \<le> 3"
  shows "helpLoop page i = Some (concat (map (\<lambda>s. [Print (map of_char s), Print [10]]) (take (nat (page * 10 - i)) (drop (nat i) info))))"
  using assms(1,2)
proof (induction "nat (26 - i)" arbitrary: i)
  case 0
  then have "i = 26" by simp
  then show ?case by (simp add: helpLoop.simps [of page 26] infoAt_def length_info)
next
  case (Suc n)
  have i: "i < 26" "nat (i + 1) = Suc (nat i)" using Suc.hyps(2) Suc.prems(1) by simp_all
  then have d: "drop (nat i) info = info ! nat i # drop (Suc (nat i)) info" using Suc.prems(1) by (simp add: Cons_nth_drop_Suc length_info)
  have s: "s32 (page * PAGE_SIZE_h) = page * 10" using assms(3,4) by (simp add: PAGE_SIZE_h_def)
  show ?case
  proof (cases "i < page * 10")
    case False
    then show ?thesis using i Suc.prems(1) s by (simp add: helpLoop.simps [of page i] infoAt_def length_info)
  next
    case True
    have "helpLoop page (i + 1) = Some (concat (map (\<lambda>s. [Print (map of_char s), Print [10]]) (take (nat (page * 10 - (i + 1))) (drop (nat (i + 1)) info))))"
      by (rule Suc.hyps(1)) (use Suc.hyps(2) Suc.prems(1) i(1) in simp_all)
    moreover have "nat (page * 10 - i) = Suc (nat (page * 10 - (i + 1)))" using True by simp
    ultimately show ?thesis using True i s d Suc.prems(1) by (simp add: helpLoop.simps [of page i] infoAt_def length_info)
  qed
qed

lemma pages: "getCurrentPages = 3"
  by (simp add: getCurrentPages_def length_info PAGE_SIZE_h_def)

text \<open>Every page from 1 to 3 returns, and the three pages together are the whole text.\<close>

theorem help_pages:
  "\<exists>a b c. help_c 2 1 = Some (a @ [Print [- 1], SysExit]) \<and> help_c 2 2 = Some (b @ [Print [- 1], SysExit]) \<and>
    help_c 2 3 = Some (c @ [Print [- 1], SysExit]) \<and> texts (a @ b @ c) = concat (map (\<lambda>s. map of_char s @ [10]) info)"
proof -
  let ?p = "\<lambda>xs. concat (map (\<lambda>s. [Print (map of_char s), Print [10]]) xs)"
  have t: "texts (?p xs) = concat (map (\<lambda>s. map of_char s @ [10]) xs)" for xs by (induction xs) auto
  have h: "help_c 2 page = Some (?p (take 10 (drop (nat ((page - 1) * 10)) info)) @ [Print [- 1], SysExit])" if "1 \<le> page" "page \<le> 3" for page
  proof -
    have "nat (page * 10 - (page - 1) * 10) = 10" by simp
    then show ?thesis using helpLoop_info [of "(page - 1) * 10" page] that by (simp add: help_c_def pages PAGE_SIZE_h_def)
  qed
  have "take 10 info @ take 10 (drop 10 info) @ take 10 (drop 20 info) = info" by (simp add: info_def)
  then have "texts (?p (take 10 info) @ ?p (take 10 (drop 10 info)) @ ?p (take 10 (drop 20 info))) = concat (map (\<lambda>s. map of_char s @ [10]) info)"
    by (simp only: texts_append t flip: concat_append map_append)
  then show ?thesis using h [of 1] h [of 2] h [of 3] by auto
qed

text \<open>Behind the message about a page that does not exist the program goes on and reads outside the array of texts.\<close>

theorem help_bad_page: "help_c 2 0 = None \<and> help_c 2 4 = None"
  by (simp add: help_c_def PAGE_SIZE_h_def helpLoop.simps [of _ "- 10"] helpLoop.simps [of _ 30] infoAt_def length_info)

section \<open>cpufeatures\<close>

text \<open>The check for SSE3 looks at the bit of SSSE3: a processor with SSE3 only is said not to have it.\<close>

theorem sse3_wrong: "\<exists>c. ecx_of c 1 AND push_bit 0 1 \<noteq> 0 \<and> \<not> check_sse3 c"
  by (rule exI [of _ "\<lambda>_ _. (0, 1, 0)"]) (simp add: ecx_of_def check_sse3_def CPUID_FEAT_ECX_SSSE3_def)

section \<open>inforeg\<close>

text \<open>Only the low halves of the registers are printed, and without a sign.\<close>

theorem inforeg_low: "(\<And>i. s32 (uint (r i)) = s32 (uint (q i))) \<Longrightarrow> inforeg r = inforeg q"
  by (simp add: inforeg_def)

theorem inforeg_wrong: "itoa_text (s32 (uint (0xFFFFFFFFFFFFFFFF :: u64))) 16 20 = itoa_text 1 16 20"
proof -
  have "s32 (uint (0xFFFFFFFFFFFFFFFF :: u64)) = - 1" by code_simp
  then show ?thesis by (simp add: itoa_text_def)
qed

end
