(* ===== verification/Test_Processes.thy ===== *)
theory Test_Processes
  imports Scheduler_Props Shell Test_MM
begin

text \<open>
  The process test, \<open>src/Userland/SampleCodeModule/shell/commands/test_processes.c\<close>, running on the
  scheduler: definitions, and the proof that its table agrees with the kernel's process list. A step is
  the code between two system calls, with the second call; the timer may tick between any two steps, and
  the processes that the test creates run their endless loop.
\<close>

section \<open>The test\<close>

datatype State = ERROR_t | RUNNING_t | BLOCKED_t | KILLED_t

record p_rq =
  pid_t :: u32
  state_t :: State

text \<open>Where the test is.\<close>

datatype tp_point = Quit_t | Create_t | Nice_t | Action_t | Unblock_t | Report_t | Failed_t

record tp =
  rqs_t :: "p_rq list"
  rq_t :: nat
  alive_t :: u8
  i_t :: int
  seed_t :: seed
  point_t :: tp_point
  out_t :: "u8 list list"

abbreviation (input) MAX_PROCESSES_t :: nat where "MAX_PROCESSES_t \<equiv> 10"

definition setState :: "State \<Rightarrow> tp \<Rightarrow> tp" where
  "setState x t = t\<lparr>rqs_t := (rqs_t t)[rq_t t := (rqs_t t ! rq_t t)\<lparr>state_t := x\<rparr>]\<rparr>"

definition failed_t :: "string \<Rightarrow> nat \<Rightarrow> tp \<Rightarrow> tp" where
  "failed_t m n t = t\<lparr>point_t := Failed_t, out_t := out_t t @ [literal m n]\<rparr>"

definition whileAlive :: "tp \<Rightarrow> tp" where
  "whileAlive t = (if alive_t t > 0 then t\<lparr>point_t := Action_t, rq_t := 0\<rparr> else t\<lparr>point_t := Report_t\<rparr>)"

definition quit_t :: "tp \<Rightarrow> sched_state \<Rightarrow> (tp \<times> sched_state) option" where
  "quit_t t s = do { (_, s) \<leftarrow> quitCPU s; Some (t\<lparr>point_t := Create_t, rq_t := 0\<rparr>, s) }"

text \<open>\<open>fn\<close> is the address of \<open>endless_loop\<close>, \<open>argv\<close> that of the local array with its name.\<close>

definition create_t :: "addr \<Rightarrow> addr \<Rightarrow> tp \<Rightarrow> sched_state \<Rightarrow> (tp \<times> sched_state) option" where
  "create_t fn argv t s =
     do {
       (r, s) \<leftarrow> enqueueProcess fn 0 1 argv NULL s;
       Some (t\<lparr>rqs_t := (rqs_t t)[rq_t t := (rqs_t t ! rq_t t)\<lparr>pid_t := of_int r\<rparr>], point_t := Nice_t\<rparr>, s)
     }"

definition nice_t :: "tp \<Rightarrow> sched_state \<Rightarrow> (tp \<times> sched_state) option" where
  "nice_t t s =
     do {
       let pd = pid_t (rqs_t t ! rq_t t);
       (_, s) \<leftarrow> nice (sint pd) 19 s;
       let t = t\<lparr>i_t := s32 (i_t t + 1)\<rparr>;
       if pd = - 1 then Some (failed_t ''Error creating process\<newline>'' 24 t, s)
       else do {
         let t = (setState RUNNING_t t)\<lparr>alive_t := alive_t t + 1, rq_t := rq_t t + 1\<rparr>;
         Some (if rq_t t < MAX_PROCESSES_t then t\<lparr>point_t := Create_t\<rparr> else whileAlive t, s)
       }
     }"

definition afterAction :: "tp \<Rightarrow> tp" where
  "afterAction t = (if rq_t t + 1 < MAX_PROCESSES_t then t\<lparr>rq_t := rq_t t + 1\<rparr> else t\<lparr>point_t := Unblock_t, rq_t := 0\<rparr>)"

definition action_t :: "rounding \<Rightarrow> tp \<Rightarrow> sched_state \<Rightarrow> (tp \<times> sched_state) option" where
  "action_t rnd t s =
     do {
       let (u, g) = GetUniform rnd 2 (seed_t t);
       let t = t\<lparr>seed_t := g\<rparr>;
       let p = rqs_t t ! rq_t t;
       if u mod 2 = 0
       then if state_t p = RUNNING_t \<or> state_t p = BLOCKED_t
            then do {
              (_, s) \<leftarrow> kill (sint (pid_t p)) s;
              Some (afterAction ((setState KILLED_t t)\<lparr>alive_t := alive_t t - 1\<rparr>), s)
            }
            else Some (afterAction t, s)
       else if state_t p = RUNNING_t
            then do {
              (r, s) \<leftarrow> block (sint (pid_t p)) s;
              if r = - 1 then Some (failed_t ''Error blocking process\<newline>'' 24 t, s)
              else Some (afterAction (setState BLOCKED_t t), s)
            }
            else Some (afterAction t, s)
     }"

definition afterUnblock :: "tp \<Rightarrow> tp" where
  "afterUnblock t = (if rq_t t + 1 < MAX_PROCESSES_t then t\<lparr>rq_t := rq_t t + 1\<rparr> else whileAlive t)"

definition unblock_t :: "rounding \<Rightarrow> tp \<Rightarrow> sched_state \<Rightarrow> (tp \<times> sched_state) option" where
  "unblock_t rnd t s =
     do {
       let p = rqs_t t ! rq_t t;
       if state_t p = BLOCKED_t
       then do {
         let (u, g) = GetUniform rnd 2 (seed_t t);
         let t = t\<lparr>seed_t := g\<rparr>;
         if u mod 2 \<noteq> 0
         then do {
           (r, s) \<leftarrow> unblock (sint (pid_t p)) s;
           if r = - 1 then Some (failed_t ''Error unblocking process\<newline>'' 26 t, s)
           else Some (afterUnblock (setState RUNNING_t t), s)
         }
         else Some (afterUnblock t, s)
       }
       else Some (afterUnblock t, s)
     }"

text \<open>The count goes through a buffer of 4 bytes; a number that does not fit is written outside it.\<close>

definition report_t :: "tp \<Rightarrow> sched_state \<Rightarrow> (tp \<times> sched_state) option" where
  "report_t t s =
     (let t' = t\<lparr>point_t := Quit_t\<rparr>; n = itoa_text (i_t t) 10 31
      in if i_t t smod 10000 = 0
         then if length n < 4 then Some (t'\<lparr>out_t := out_t t @ [literal ''Procesos: '' 11, n, [10]]\<rparr>, s) else None
         else Some (t', s))"

definition test_processes :: "rounding \<Rightarrow> addr \<Rightarrow> addr \<Rightarrow> tp \<Rightarrow> sched_state \<Rightarrow> (tp \<times> sched_state) option" where
  "test_processes rnd fn argv t s =
     (case point_t t of
        Quit_t \<Rightarrow> quit_t t s
      | Create_t \<Rightarrow> create_t fn argv t s
      | Nice_t \<Rightarrow> nice_t t s
      | Action_t \<Rightarrow> action_t rnd t s
      | Unblock_t \<Rightarrow> unblock_t rnd t s
      | Report_t \<Rightarrow> report_t t s
      | Failed_t \<Rightarrow> None)"

text \<open>The array is not initialised.\<close>

definition test_processes_start :: "p_rq list \<Rightarrow> seed \<Rightarrow> tp" where
  "test_processes_start rqs g = \<lparr>rqs_t = rqs, rq_t = 0, alive_t = 0, i_t = 0, seed_t = g, point_t = Quit_t, out_t = []\<rparr>"

section \<open>The running system\<close>

text \<open>
  The system around the test, whose process structure is at \<open>me\<close>: the process that runs goes on,
  the timer ticks, or the test runs and makes a step. It creates a process only with memory and
  identifiers left; the code does not defend itself against the lack of them.
\<close>

inductive tp_sys :: "rounding \<Rightarrow> addr \<Rightarrow> addr \<Rightarrow> addr \<Rightarrow> tp \<times> sched_state \<Rightarrow> tp \<times> sched_state \<Rightarrow> bool"
  for rnd fn argv me where
  tp_run: "tp_sys rnd fn argv me (t, s) (t, s\<lparr>cpu_rsp := r, tm := c, ram := m\<rparr>)"
| tp_tick: "forceTimer s = Some s' \<Longrightarrow> tp_sys rnd fn argv me (t, s) (t, s')"
| tp_test: "currentProcess s = me \<Longrightarrow>
    (point_t t = Create_t \<Longrightarrow> pids s < 2147483647 \<and> room_for [8, 72, STACK_SIZE, 10] (mm s)) \<Longrightarrow>
    test_processes rnd fn argv t s = Some (t', s') \<Longrightarrow> tp_sys rnd fn argv me (t, s) (t', s')"

inductive_cases tp_sysE: "tp_sys rnd fn argv me c d"

section \<open>What the operations leave alone\<close>

text \<open>
  \<open>at_state s ps k x\<close>: the process \<open>k\<close> is in state \<open>x\<close>; \<open>gone s ps k\<close>: it is dead, or no longer in the list.
\<close>

definition at_state :: "sched_state \<Rightarrow> addr list \<Rightarrow> int \<Rightarrow> states \<Rightarrow> bool" where
  "at_state s ps k x \<longleftrightarrow> (\<exists>a \<in> set ps. pid (P s a) = k \<and> state (P s a) = x)"

definition gone :: "sched_state \<Rightarrow> addr list \<Rightarrow> int \<Rightarrow> bool" where
  "gone s ps k \<longleftrightarrow> (\<forall>a \<in> set ps. pid (P s a) = k \<longrightarrow> state (P s a) = DEAD)"

text \<open>An operation on the processes \<open>K\<close> leaves the others ready, blocked or gone, as they are.\<close>

definition spares :: "int set \<Rightarrow> sched_state \<Rightarrow> addr list \<Rightarrow> sched_state \<Rightarrow> addr list \<Rightarrow> bool" where
  "spares K s ps t qs \<longleftrightarrow>
     (\<forall>x \<in> set ps. pid (P s x) \<notin> insert IDLE_PID K \<longrightarrow> state (P s x) \<in> {READY, BLOCKED} \<longrightarrow>
        x \<in> set qs \<and> pid (P t x) = pid (P s x) \<and> state (P t x) = state (P s x)) \<and>
     (\<forall>k. k \<notin> insert IDLE_PID K \<longrightarrow> gone s ps k \<longrightarrow> gone t qs k)"

lemma spares_at: "spares K s ps t qs \<Longrightarrow> k \<notin> insert IDLE_PID K \<Longrightarrow> x \<in> {READY, BLOCKED} \<Longrightarrow> at_state s ps k x \<Longrightarrow> at_state t qs k x"
  unfolding spares_def at_state_def by metis

lemma spares_gone: "spares K s ps t qs \<Longrightarrow> k \<notin> insert IDLE_PID K \<Longrightarrow> gone s ps k \<Longrightarrow> gone t qs k"
  by (simp add: spares_def)

text \<open>When the list stays the same, it is enough to look at the states.\<close>

lemma spares_same:
  assumes "\<And>x. x \<in> set ps \<Longrightarrow> pid (P t x) = pid (P s x)"
    and "\<And>x. x \<in> set ps \<Longrightarrow> pid (P s x) \<notin> insert IDLE_PID K \<Longrightarrow> state (P s x) \<in> {READY, BLOCKED, DEAD} \<Longrightarrow> state (P t x) = state (P s x)"
  shows "spares K s ps t ps"
  using assms unfolding spares_def gone_def by auto

lemma tick_spares:
  assumes r: "sched_inv s ps ss" and sl: "sleepers s = {}"
  shows "\<exists>t qs us. forceTimer s = Some t \<and> runs t qs us \<and> sleepers t = {} \<and> spares {} s ps t qs"
proof -
  from forceTimer_spec [OF r] obtain u us t where
    u: "wakes s u ps" "slept s u ps" "forceTimer s = Some t" "sleepers t \<subseteq> sleepers s"
      "sched_inv t (survivors u ps) us" "currentProcess t = pick u ps" "pick u ps \<in> set (survivors u ps)" "state (P t (pick u ps)) = READY"
      "\<forall>a \<in> set (survivors u ps). kept (P u a) (P t a) \<and> (pid (P u a) \<noteq> IDLE_PID \<longrightarrow> state (P t a) = state (P u a))"
    by blast
  have pu: "pid (P u x) = pid (P s x)" "state (P u x) = state (P s x)" if "x \<in> set ps" for x
    using u(1,2) that sl unfolding wakes_def woken_def slept_def by (cases "P s x"; cases "P u x"; auto)+
  have pt: "pid (P t x) = pid (P s x)" "pid (P s x) \<noteq> IDLE_PID \<Longrightarrow> state (P t x) = state (P s x)"
    if x: "x \<in> set (survivors u ps)" for x
  proof -
    have "x \<in> set ps" using x survivors_subset by blast
    with u(9) x pu [OF this] show "pid (P t x) = pid (P s x)" "pid (P s x) \<noteq> IDLE_PID \<Longrightarrow> state (P t x) = state (P s x)"
      by (auto simp: kept_iff)
  qed
  have "spares {} s ps t (survivors u ps)"
    unfolding spares_def
  proof (intro conjI ballI allI impI)
    fix x
    assume x: "x \<in> set ps" "pid (P s x) \<notin> insert IDLE_PID {}" "state (P s x) \<in> {READY, BLOCKED}"
    then show y: "x \<in> set (survivors u ps)" using pu(2) [OF x(1)] by (auto simp: survivors_def)
    show "pid (P t x) = pid (P s x)" "state (P t x) = state (P s x)" using pt [OF y] x(2) by auto
  next
    fix k
    assume "k \<notin> insert IDLE_PID {}" "gone s ps k"
    then show "gone t (survivors u ps) k" using pt survivors_subset unfolding gone_def by fastforce
  qed
  moreover have "runs t (survivors u ps) us" using u(5-8) by (simp add: runs_def)
  ultimately show ?thesis using u(3,4) sl by blast
qed

lemma spares_trans:
  assumes a: "spares K s ps t qs" and b: "spares K t qs u rs" shows "spares K s ps u rs"
proof -
  have "x \<in> set rs \<and> pid (P u x) = pid (P s x) \<and> state (P u x) = state (P s x)"
    if x: "x \<in> set ps" "pid (P s x) \<notin> insert IDLE_PID K" "state (P s x) \<in> {READY, BLOCKED}" for x
  proof -
    have "x \<in> set qs" "pid (P t x) = pid (P s x)" "state (P t x) = state (P s x)" using a x unfolding spares_def by blast+
    then show ?thesis using b x(2,3) unfolding spares_def by metis
  qed
  then show ?thesis using a b unfolding spares_def by auto
qed

lemma quit_spares:
  assumes r: "runs s ps ss" and sl: "sleepers s = {}"
  shows "\<exists>x t qs us. quitCPU s = Some (x, t) \<and> runs t qs us \<and> sleepers t = {} \<and> spares {} s ps t qs"
proof (cases "pid (P s (currentProcess s)) = - 1")
  case True
  then show ?thesis using r sl runs_nonnull [OF r] runs_current [OF r]
    by (intro exI [of _ EXIT_FAILURE] exI [of _ s] exI [of _ ps] exI [of _ ss]) (auto simp: quitCPU_def spares_def)
next
  case False
  let ?f = "\<lambda>c. c\<lparr>executions := s8 (MAX_PRIORITY - priority c)\<rparr>"
  obtain u where u: "modP (currentProcess s) ?f s = Some u" "sched_inv u ps ss"
    "u = s\<lparr>procs := (procs s)(currentProcess s \<mapsto> ?f (P s (currentProcess s)))\<rparr>"
    by (rule modP_sched [OF runs_inv [OF r] runs_in [OF r], where f = ?f]) (auto simp: mild_exec)
  have "sleepers u = {}" using sl by (simp add: u(3) sleepers_def)
  from tick_spares [OF u(2) this] obtain t qs us where
    t: "forceTimer u = Some t" "runs t qs us" "sleepers t = {}" "spares {} u ps t qs" by blast
  have "spares {} s ps u ps" by (rule spares_same) (simp_all add: u(3))
  then have "spares {} s ps t qs" using t(4) by (rule spares_trans)
  moreover have "quitCPU s = Some (EXIT_SUCCESS, t)"
    using u(1) t(1) False runs_nonnull [OF r] runs_current [OF r] by (auto simp: quitCPU_def)
  ultimately show ?thesis using t by blast
qed

section \<open>The operations that the test calls\<close>

text \<open>The state in which the test makes a call: the process \<open>me\<close> runs, nobody sleeps.\<close>

definition calling :: "addr \<Rightarrow> sched_state \<Rightarrow> addr list \<Rightarrow> addr list \<Rightarrow> bool" where
  "calling me s ps ss \<longleftrightarrow> runs s ps ss \<and> sleepers s = {} \<and> currentProcess s = me \<and> pid (P s me) \<noteq> IDLE_PID"

lemma callsD:
  assumes "calling me s ps ss"
  shows calls_runs: "runs s ps ss" and calls_inv: "sched_inv s ps ss" and calls_base: "base_inv s ps ss"
    and calls_in: "me \<in> set ps" and calls_ready: "state (P s me) = READY"
  using assms runs_inv sched_base runs_in runs_ready unfolding calling_def by metis+

lemma fork_call:
  assumes c: "calling me s ps ss" and n: "pids s < 2147483647" and room: "room_for [8, 72, STACK_SIZE, 10] (mm s)"
  shows "\<exists>t qs. enqueueProcess fn fg ac av NULL s = Some (pids s, t) \<and> calling me t qs ss \<and> pid (P t me) = pid (P s me) \<and>
    IDLE_PID < pids s \<and> pid (P s me) \<noteq> pids s \<and> gone s ps (pids s) \<and> at_state t qs (pids s) READY \<and> spares {pids s} s ps t qs"
proof -
  note ic = calls_in [OF c] and b = calls_base [OF c]
  have "can_fork s ps ss" using c n by (auto simp: can_fork_def calling_def)
  from enqueueProcess_spec [OF this room, of fn fg ac av] obtain t a where
    t: "enqueueProcess fn fg ac av NULL s = Some (pids s, t)" "runs t (ps @ [a]) ss" "currentProcess t = currentProcess s"
      "state (P t a) = READY" "pid (P t a) = pids s" "sleepers t = sleepers s"
      "\<forall>x \<in> set ps. pid (P t x) = pid (P s x) \<and> executions (P t x) = executions (P s x) \<and>
         (pid (P s x) \<noteq> IDLE_PID \<longrightarrow> state (P t x) = state (P s x))" by blast
  have lt: "1 \<le> pid (P s x) \<and> pid (P s x) < pids s" if "x \<in> set ps" for x using base_pinv [OF b that] by (auto simp: pinv_def)
  have "spares {pids s} s ps t (ps @ [a])" using t(5,7) unfolding spares_def gone_def by auto
  moreover have "calling me t (ps @ [a]) ss" using t(2,3,6,7) c ic by (auto simp: calling_def)
  moreover have "at_state t (ps @ [a]) (pids s) READY" using t(4,5) by (auto simp: at_state_def)
  moreover have "gone s ps (pids s)" using lt by (force simp: gone_def)
  moreover have "IDLE_PID < pids s" using lt [OF ic] c by (auto simp: calling_def)
  moreover have "pid (P s me) \<noteq> pids s" using lt [OF ic] by auto
  moreover have "pid (P t me) = pid (P s me)" using t(7) ic by blast
  ultimately show ?thesis using t(1) by blast
qed

lemma nice_call:
  assumes c: "calling me s ps ss" and a: "at_state s ps k x" and o: "- 20 \<le> n" "n < 20"
  shows "\<exists>t. nice k n s = Some (EXIT_SUCCESS, t) \<and> calling me t ps ss \<and> spares {} s ps t ps \<and> pid (P t me) = pid (P s me)"
proof -
  obtain a where a: "a \<in> set ps" "pid (P s a) = k" using a by (auto simp: at_state_def)
  let ?t = "s\<lparr>procs := (procs s)(a \<mapsto> (P s a)\<lparr>priority := n + 20\<rparr>)\<rparr>"
  note t = nice_found [OF calls_inv [OF c] a o]
  have "calling me ?t ps ss" using t(2) c calls_in [OF c] calls_ready [OF c] by (auto simp: calling_def runs_def sleepers_def)
  moreover have "spares {} s ps ?t ps" by (rule spares_same) simp_all
  ultimately show ?thesis using t(1) by (intro exI [of _ ?t]) simp
qed

lemma calls_other:
  assumes c: "calling me s ps ss" and "a \<in> set ps" "pid (P s a) \<noteq> pid (P s me)" shows "a \<noteq> currentProcess s"
  using assms by (auto simp: calling_def)

lemma kill_call:
  assumes c: "calling me s ps ss" and a: "at_state s ps k x" "x \<noteq> DEAD" and k: "k \<noteq> IDLE_PID" "k \<noteq> pid (P s me)"
  shows "\<exists>t. kill k s = Some (EXIT_SUCCESS, t) \<and> calling me t ps ss \<and> gone t ps k \<and> spares {k} s ps t ps \<and> pid (P t me) = pid (P s me)"
proof -
  obtain a where a: "a \<in> set ps" "pid (P s a) = k" "state (P s a) \<noteq> DEAD" using a by (auto simp: at_state_def)
  have "a \<noteq> currentProcess s" using calls_other [OF c a(1)] a(2) k(2) by simp
  from kill_other [OF calls_runs [OF c] a(1,2) k(1) a(3) this] obtain t where
    t: "kill k s = Some (EXIT_SUCCESS, t)" "runs t ps ss" "state (P t a) = DEAD" "currentProcess t = currentProcess s"
      "sleeps t = sleeps s" "\<forall>c \<in> set ps. pid (P t c) = pid (P s c) \<and>
       (c \<noteq> a \<longrightarrow> P t c = (if pid (P s c) = ppid (P s a) then orphaned (foreground (P s a)) (P s c) else P s c))" by blast
  have st: "state (P t x) = state (P s x)" if x: "x \<in> set ps" "pid (P s x) \<noteq> k" "state (P s x) \<in> {READY, BLOCKED, DEAD}" for x
  proof -
    have "x \<noteq> a" using x(2) a(2) by auto
    then show ?thesis using t(6) x(1,3) by (auto simp: orphaned_def Let_def)
  qed
  have "spares {k} s ps t ps" by (rule spares_same) (use t(6) st in auto)
  moreover have "gone t ps k"
  proof -
    have "x = a" if "x \<in> set ps" "pid (P s x) = k" for x using pid_eq_iff [OF calls_base [OF c] that(1) a(1)] that(2) a(2) by simp
    then show ?thesis using t(3,6) by (auto simp: gone_def)
  qed
  moreover have "calling me t ps ss" using t(2,4-6) c calls_in [OF c] by (auto simp: calling_def sleepers_def)
  ultimately show ?thesis using t(1,6) calls_in [OF c] by blast
qed

lemma block_call:
  assumes c: "calling me s ps ss" and a: "at_state s ps k x" "x \<noteq> DEAD" and k: "k \<noteq> pid (P s me)"
  shows "\<exists>t. block k s = Some (EXIT_SUCCESS, t) \<and> calling me t ps ss \<and> at_state t ps k BLOCKED \<and> spares {k} s ps t ps \<and>
    pid (P t me) = pid (P s me)"
proof -
  obtain a where a: "a \<in> set ps" "pid (P s a) = k" "state (P s a) \<noteq> DEAD" using a by (auto simp: at_state_def)
  have ac: "a \<noteq> currentProcess s" using calls_other [OF c a(1)] a(2) k by simp
  from blockWith_found [OF calls_base [OF c] runs_in [OF calls_runs [OF c]] a, of forceTimer] obtain t where
    t: "base_inv t ps ss" "t = s\<lparr>procs := procs t\<rparr>" "state (P t a) = BLOCKED"
      "\<forall>c \<in> set ps. wake_eq (if c = a then (P s c)\<lparr>state := BLOCKED\<rparr> else P s c) (P t c)"
      "block k s = Some (EXIT_SUCCESS, t)" using ac by (auto simp: block_def)
  have cur: "currentProcess t = currentProcess s" "sleeps t = sleeps s" by (subst t(2), simp)+
  have pd: "pid (P t x) = pid (P s x)" "state (P t x) = (if x = a then BLOCKED else state (P s x))" if "x \<in> set ps" for x
    using wake_eqD(1,2) [OF t(4) [rule_format, OF that]] by (auto split: if_splits)
  have "spares {k} s ps t ps" by (rule spares_same) (use pd a(2) in auto)
  moreover have "at_state t ps k BLOCKED" using a pd(1) [OF a(1)] t(3) by (auto simp: at_state_def)
  moreover have "calling me t ps ss"
    using sched_procs [OF calls_inv [OF c] t(1,2)] c calls_in [OF c] calls_ready [OF c] pd ac cur
    by (auto simp: calling_def runs_def sleepers_def)
  ultimately show ?thesis using t(5) pd(1) [OF calls_in [OF c]] by blast
qed

lemma unblock_call:
  assumes c: "calling me s ps ss" and a: "at_state s ps k x" "x \<noteq> DEAD" and k: "k \<noteq> pid (P s me)"
  shows "\<exists>t. unblock k s = Some (EXIT_SUCCESS, t) \<and> calling me t ps ss \<and> at_state t ps k READY \<and> spares {k} s ps t ps \<and>
    pid (P t me) = pid (P s me)"
proof -
  obtain a where a: "a \<in> set ps" "pid (P s a) = k" "state (P s a) \<noteq> DEAD" using a by (auto simp: at_state_def)
  from unblock_found [OF calls_base [OF c] a] obtain t where
    t: "unblock k s = Some (EXIT_SUCCESS, t)" "base_inv t ps ss" "t = s\<lparr>procs := procs t\<rparr>" "state (P t a) = READY"
      "\<forall>c \<in> set ps. wake_eq (if c = a then (P s c)\<lparr>state := READY\<rparr> else P s c) (P t c)" by blast
  have cur: "currentProcess t = currentProcess s" "sleeps t = sleeps s" by (subst t(3), simp)+
  have pd: "pid (P t x) = pid (P s x)" "state (P t x) = (if x = a then READY else state (P s x))" if "x \<in> set ps" for x
    using wake_eqD(1,2) [OF t(5) [rule_format, OF that]] by (auto split: if_splits)
  have "spares {k} s ps t ps" by (rule spares_same) (use pd a(2) in auto)
  moreover have "at_state t ps k READY" using a pd(1) [OF a(1)] t(4) by (auto simp: at_state_def)
  moreover have "calling me t ps ss"
    using sched_procs [OF calls_inv [OF c] t(2,3)] c calls_in [OF c] calls_ready [OF c] pd cur
    by (auto simp: calling_def runs_def sleepers_def)
  ultimately show ?thesis using t(1) pd(1) [OF calls_in [OF c]] by blast
qed

section \<open>The table and the process list\<close>

text \<open>What an entry of the table says of the kernel's process.\<close>

definition entry_ok :: "sched_state \<Rightarrow> addr list \<Rightarrow> p_rq \<Rightarrow> bool" where
  "entry_ok s ps r \<longleftrightarrow>
     (case state_t r of
        ERROR_t \<Rightarrow> False
      | RUNNING_t \<Rightarrow> at_state s ps (sint (pid_t r)) READY
      | BLOCKED_t \<Rightarrow> at_state s ps (sint (pid_t r)) BLOCKED
      | KILLED_t \<Rightarrow> gone s ps (sint (pid_t r)))"

definition live :: "p_rq \<Rightarrow> bool" where
  "live r \<longleftrightarrow> state_t r \<in> {RUNNING_t, BLOCKED_t}"

text \<open>The entries that have been written in this round.\<close>

definition written :: "tp \<Rightarrow> p_rq list" where
  "written t = take (if point_t t = Quit_t then 0 else if point_t t \<in> {Create_t, Nice_t} then rq_t t else MAX_PROCESSES_t) (rqs_t t)"

definition agrees :: "sched_state \<Rightarrow> addr list \<Rightarrow> int \<Rightarrow> p_rq list \<Rightarrow> bool" where
  "agrees s ps m rs \<longleftrightarrow> (\<forall>r \<in> set rs. entry_ok s ps r \<and> sint (pid_t r) \<notin> {IDLE_PID, m}) \<and> distinct (map pid_t rs)"

lemma entry_spares:
  assumes "spares K s ps t qs" "sint (pid_t r) \<notin> insert IDLE_PID K" "entry_ok s ps r" shows "entry_ok t qs r"
  using assms spares_at [OF assms(1,2)] spares_gone [OF assms(1,2)] by (cases "state_t r") (auto simp: entry_ok_def)

lemma agrees_spares:
  assumes "agrees s ps m rs" "spares K s ps t qs" "\<And>r. r \<in> set rs \<Longrightarrow> sint (pid_t r) \<notin> K"
  shows "agrees t qs m rs"
  using assms entry_spares [OF assms(2)] by (auto simp: agrees_def)

lemma agrees_set:
  assumes a: "agrees s ps m rs" and i: "i < length rs" and k: "spares {sint (pid_t (rs ! i))} s ps t qs"
    and e: "entry_ok t qs ((rs ! i)\<lparr>state_t := x\<rparr>)"
  shows "agrees t qs m (rs[i := (rs ! i)\<lparr>state_t := x\<rparr>])"
proof -
  have d: "distinct (map pid_t rs)" using a by (simp add: agrees_def)
  have "map pid_t (rs[i := (rs ! i)\<lparr>state_t := x\<rparr>]) = map pid_t rs" using i by (simp add: map_update list_update_same_conv)
  moreover have "entry_ok t qs r \<and> sint (pid_t r) \<notin> {IDLE_PID, m}" if r: "r \<in> set (rs[i := (rs ! i)\<lparr>state_t := x\<rparr>])" for r
  proof -
    obtain j where j: "j < length rs" "r = rs[i := (rs ! i)\<lparr>state_t := x\<rparr>] ! j" using r by (auto simp: in_set_conv_nth)
    have o: "entry_ok s ps (rs ! j)" "sint (pid_t (rs ! j)) \<notin> {IDLE_PID, m}" using a j(1) by (auto simp: agrees_def)
    show ?thesis
    proof (cases "j = i")
      case True
      with j o e show ?thesis by simp
    next
      case False
      then have "pid_t (rs ! j) \<noteq> pid_t (rs ! i)" using d i j(1) by (simp add: distinct_conv_nth)
      then have "sint (pid_t (rs ! j)) \<noteq> sint (pid_t (rs ! i))" by (metis word_eq_iff_signed)
      with entry_spares [OF k _ o(1)] o(2) False j show ?thesis by simp
    qed
  qed
  ultimately show ?thesis using d by (simp add: agrees_def)
qed

lemma length_filter_update:
  "i < length xs \<Longrightarrow> length (filter Q (xs[i := x])) + (if Q (xs ! i) then 1 else 0) = length (filter Q xs) + (if Q x then 1 else 0)"
proof (induction xs arbitrary: i)
  case (Cons y ys)
  then show ?case using Cons.IH by (cases i) auto
qed simp

text \<open>The invariant of the table.\<close>

definition table_ok :: "tp \<Rightarrow> sched_state \<Rightarrow> addr list \<Rightarrow> int \<Rightarrow> bool" where
  "table_ok t s ps m \<longleftrightarrow> length (rqs_t t) = MAX_PROCESSES_t \<and> point_t t \<noteq> Failed_t \<and>
     (point_t t \<in> {Create_t, Nice_t, Action_t, Unblock_t} \<longrightarrow> rq_t t < MAX_PROCESSES_t) \<and>
     agrees s ps m (written t) \<and> alive_t t = of_nat (length (filter live (written t))) \<and>
     (point_t t \<in> {Create_t, Nice_t} \<longrightarrow> (\<forall>r \<in> set (written t). live r)) \<and>
     (point_t t = Nice_t \<longrightarrow> 0 < sint (pid_t (rqs_t t ! rq_t t)) \<and> at_state s ps (sint (pid_t (rqs_t t ! rq_t t))) READY \<and>
        sint (pid_t (rqs_t t ! rq_t t)) \<notin> {IDLE_PID, m} \<and> pid_t (rqs_t t ! rq_t t) \<notin> pid_t ` set (written t)) \<and>
     (point_t t = Report_t \<longrightarrow> alive_t t = 0)"

text \<open>The test is ready to run.\<close>

definition stands :: "addr \<Rightarrow> tp \<times> sched_state \<Rightarrow> addr list \<Rightarrow> addr list \<Rightarrow> bool" where
  "stands me c ps ss \<longleftrightarrow> runs (snd c) ps ss \<and> sleepers (snd c) = {} \<and> me \<in> set ps \<and> state (P (snd c) me) = READY \<and>
     pid (P (snd c) me) \<noteq> IDLE_PID \<and> table_ok (fst c) (snd c) ps (pid (P (snd c) me))"

lemma table_spares:
  assumes t: "table_ok t s ps m" and k: "spares {} s ps s' qs" shows "table_ok t s' qs m"
proof -
  have "agrees s' qs m (written t)" using t by (auto simp: table_ok_def intro: agrees_spares [OF _ k])
  then show ?thesis using t spares_at [OF k] by (auto simp: table_ok_def)
qed

lemma stands_spares:
  assumes st: "stands me (t, s) ps ss" and r: "runs s' qs us" "sleepers s' = {}" and k: "spares {} s ps s' qs"
  shows "stands me (t, s') qs us \<and> pid (P s' me) = pid (P s me)"
proof -
  have "me \<in> set qs \<and> pid (P s' me) = pid (P s me) \<and> state (P s' me) = state (P s me)"
    using st k unfolding stands_def spares_def by auto
  then show ?thesis using st r table_spares [OF _ k] by (simp add: stands_def)
qed

lemma stands_calls: "stands me (t, s) ps ss \<Longrightarrow> currentProcess s = me \<Longrightarrow> calling me s ps ss"
  by (simp add: stands_def calling_def)

lemma calls_stands: "calling me s ps ss \<Longrightarrow> table_ok t s ps (pid (P s me)) \<Longrightarrow> stands me (t, s) ps ss"
  using calls_in [of me s ps ss] calls_ready [of me s ps ss] by (simp add: stands_def calling_def)

lemma sint_pid: "0 < k \<Longrightarrow> k < 2147483648 \<Longrightarrow> sint (of_int k :: u32) = k"
  by (simp add: sint_sbintrunc' signed_take_bit_int_eq_self)

section \<open>The steps\<close>

text \<open>When all entries are written.\<close>

definition full_ok :: "tp \<Rightarrow> sched_state \<Rightarrow> addr list \<Rightarrow> int \<Rightarrow> bool" where
  "full_ok t s ps m \<longleftrightarrow> length (rqs_t t) = MAX_PROCESSES_t \<and> rq_t t < MAX_PROCESSES_t \<and> agrees s ps m (rqs_t t) \<and>
     alive_t t = of_nat (length (filter live (rqs_t t)))"

lemma written_full [simp]:
  "length (rqs_t t) = MAX_PROCESSES_t \<Longrightarrow> point_t t \<notin> {Quit_t, Create_t, Nice_t} \<Longrightarrow> written t = rqs_t t"
  by (simp add: written_def)

lemma table_full: "table_ok t s ps m \<Longrightarrow> point_t t \<in> {Action_t, Unblock_t} \<Longrightarrow> full_ok t s ps m"
  by (auto simp: table_ok_def full_ok_def)

lemma full_table:
  assumes "full_ok t s ps m"
  shows afterAction_ok: "point_t t = Action_t \<Longrightarrow> table_ok (afterAction t) s ps m"
    and afterUnblock_ok: "point_t t = Unblock_t \<Longrightarrow> table_ok (afterUnblock t) s ps m"
  using assms by (auto simp: table_ok_def full_ok_def afterAction_def afterUnblock_def whileAlive_def word_greater_zero_iff)

lemma whileAlive_ok:
  "length (rqs_t t) = MAX_PROCESSES_t \<Longrightarrow> agrees s ps m (rqs_t t) \<Longrightarrow> alive_t t = of_nat (length (filter live (rqs_t t))) \<Longrightarrow>
   table_ok (whileAlive t) s ps m"
  by (auto simp: table_ok_def whileAlive_def word_greater_zero_iff)

lemma full_seed: "full_ok t s ps m \<Longrightarrow> full_ok (t\<lparr>seed_t := g\<rparr>) s ps m"
  by (simp add: full_ok_def)

lemma full_entry:
  assumes "full_ok t s ps m"
  shows "entry_ok s ps (rqs_t t ! rq_t t)" "sint (pid_t (rqs_t t ! rq_t t)) \<notin> {IDLE_PID, m}"
  using assms nth_mem [of "rq_t t" "rqs_t t"] by (auto simp: full_ok_def agrees_def)

lemma full_set:
  assumes f: "full_ok t s ps m" and k: "spares {sint (pid_t (rqs_t t ! rq_t t))} s ps s' ps'"
    and e: "entry_ok s' ps' ((rqs_t t ! rq_t t)\<lparr>state_t := x\<rparr>)"
    and a: "a + (if live (rqs_t t ! rq_t t) then 1 else 0) = alive_t t + (if x \<in> {RUNNING_t, BLOCKED_t} then 1 else 0)"
  shows "full_ok ((setState x t)\<lparr>alive_t := a\<rparr>) s' ps' m"
proof -
  let ?r = "(rqs_t t ! rq_t t)\<lparr>state_t := x\<rparr>"
  have i: "rq_t t < length (rqs_t t)" and ag: "agrees s ps m (rqs_t t)" using f by (auto simp: full_ok_def)
  have "length (filter live ((rqs_t t)[rq_t t := ?r])) + (if live (rqs_t t ! rq_t t) then 1 else 0) =
      length (filter live (rqs_t t)) + (if x \<in> {RUNNING_t, BLOCKED_t} then 1 else 0)"
    using length_filter_update [OF i, of live ?r] by (simp add: live_def)
  from arg_cong [OF this, of "of_nat :: nat \<Rightarrow> u8"]
  have "a + (if live (rqs_t t ! rq_t t) then 1 else 0) =
      of_nat (length (filter live ((rqs_t t)[rq_t t := ?r]))) + (if live (rqs_t t ! rq_t t) then 1 else 0)"
    using a f by (auto simp: full_ok_def)
  then have "a = of_nat (length (filter live ((rqs_t t)[rq_t t := ?r])))" by (rule add_right_imp_eq)
  then show ?thesis using agrees_set [OF ag i k e] f by (simp add: full_ok_def setState_def)
qed

lemma setState_alive: "setState x t = (setState x t)\<lparr>alive_t := alive_t t\<rparr>"
  by (simp add: setState_def)

lemma setState_simps [simp]: "point_t (setState x t) = point_t t" "alive_t (setState x t) = alive_t t" "rq_t (setState x t) = rq_t t"
  by (simp_all add: setState_def)

lemma action_step:
  assumes c: "calling me s ps ss" and t: "table_ok t s ps (pid (P s me))" "point_t t = Action_t"
  shows "\<exists>t' s' qs. action_t rnd t s = Some (t', s') \<and> calling me s' qs ss \<and> table_ok t' s' qs (pid (P s' me))"
proof -
  obtain u g where g: "GetUniform rnd 2 (seed_t t) = (u, g)" by force
  define v where "v = t\<lparr>seed_t := g\<rparr>"
  define p where "p = rqs_t t ! rq_t t"
  define k where "k = sint (pid_t p)"
  have pv: "rqs_t v ! rq_t v = p" by (simp add: v_def p_def)
  have f: "full_ok v s ps (pid (P s me))" "point_t v = Action_t" using full_seed [OF table_full [OF t(1)]] t(2) by (simp_all add: v_def)
  note e = full_entry [OF f(1), unfolded pv, folded k_def]
  have act: "action_t rnd t s =
     (if u mod 2 = 0
      then if live p then do { (_, s) \<leftarrow> kill k s; Some (afterAction ((setState KILLED_t v)\<lparr>alive_t := alive_t v - 1\<rparr>), s) }
           else Some (afterAction v, s)
      else if state_t p = RUNNING_t
           then do { (r, s) \<leftarrow> block k s;
             if r = - 1 then Some (failed_t ''Error blocking process\<newline>'' 24 v, s) else Some (afterAction (setState BLOCKED_t v), s) }
           else Some (afterAction v, s))"
    unfolding v_def p_def k_def by (simp add: action_t_def g live_def Let_def)
  have skip: "table_ok (afterAction v) s ps (pid (P s me))" using full_table(1) [OF f] .
  consider (dead) "u mod 2 = 0" "live p" | (blocked) "u mod 2 \<noteq> 0" "state_t p = RUNNING_t" | (skip) "action_t rnd t s = Some (afterAction v, s)"
    using act by argo
  then show ?thesis
  proof cases
    case dead
    have "\<exists>x. at_state s ps k x \<and> x \<noteq> DEAD" using e(1) dead(2) by (auto simp: entry_ok_def live_def k_def)
    then obtain x where x: "at_state s ps k x" "x \<noteq> DEAD" by blast
    from kill_call [OF c x] e(2) obtain s' where
      s: "kill k s = Some (EXIT_SUCCESS, s')" "calling me s' ps ss" "gone s' ps k" "spares {k} s ps s' ps" "pid (P s' me) = pid (P s me)" by auto
    have "full_ok ((setState KILLED_t v)\<lparr>alive_t := alive_t v - 1\<rparr>) s' ps (pid (P s me))"
      using full_set [OF f(1), unfolded pv, OF s(4) [unfolded k_def], of KILLED_t "alive_t v - 1"] s(3) dead(2) by (simp add: entry_ok_def k_def)
    from full_table(1) [OF this] act dead s f(2) show ?thesis by auto
  next
    case blocked
    then have x: "at_state s ps k READY" using e(1) by (simp add: entry_ok_def k_def)
    from block_call [OF c x] e(2) obtain s' where
      s: "block k s = Some (EXIT_SUCCESS, s')" "calling me s' ps ss" "at_state s' ps k BLOCKED" "spares {k} s ps s' ps" "pid (P s' me) = pid (P s me)" by auto
    have "full_ok (setState BLOCKED_t v) s' ps (pid (P s me))"
      using full_set [OF f(1), unfolded pv, OF s(4) [unfolded k_def], of BLOCKED_t "alive_t v"] s(3) blocked(2) setState_alive [of BLOCKED_t v]
      by (simp add: entry_ok_def k_def live_def)
    from full_table(1) [OF this] act blocked s f(2) show ?thesis by auto
  next
    case skip
    with c \<open>table_ok (afterAction v) s ps (pid (P s me))\<close> show ?thesis by auto
  qed
qed

lemma unblock_step:
  assumes c: "calling me s ps ss" and t: "table_ok t s ps (pid (P s me))" "point_t t = Unblock_t"
  shows "\<exists>t' s' qs. unblock_t rnd t s = Some (t', s') \<and> calling me s' qs ss \<and> table_ok t' s' qs (pid (P s' me))"
proof -
  obtain u g where g: "GetUniform rnd 2 (seed_t t) = (u, g)" by force
  define v where "v = t\<lparr>seed_t := g\<rparr>"
  define p where "p = rqs_t t ! rq_t t"
  define k where "k = sint (pid_t p)"
  have pv: "rqs_t v ! rq_t v = p" by (simp add: v_def p_def)
  have f0: "full_ok t s ps (pid (P s me))" using table_full [OF t(1)] t(2) by simp
  have f: "full_ok v s ps (pid (P s me))" "point_t v = Unblock_t" using full_seed [OF f0] t(2) by (simp_all add: v_def)
  note e = full_entry [OF f(1), unfolded pv, folded k_def]
  have act: "unblock_t rnd t s =
     (if state_t p = BLOCKED_t
      then if u mod 2 \<noteq> 0
           then do { (r, s) \<leftarrow> unblock k s;
             if r = - 1 then Some (failed_t ''Error unblocking process\<newline>'' 26 v, s) else Some (afterUnblock (setState RUNNING_t v), s) }
           else Some (afterUnblock v, s)
      else Some (afterUnblock t, s))"
    unfolding v_def p_def k_def by (simp add: unblock_t_def g Let_def)
  consider (ready) "state_t p = BLOCKED_t" "u mod 2 \<noteq> 0" | (skip) "unblock_t rnd t s = Some (afterUnblock v, s) \<or> unblock_t rnd t s = Some (afterUnblock t, s)"
    using act by argo
  then show ?thesis
  proof cases
    case ready
    then have x: "at_state s ps k BLOCKED" using e(1) by (simp add: entry_ok_def k_def)
    from unblock_call [OF c x] e(2) obtain s' where
      s: "unblock k s = Some (EXIT_SUCCESS, s')" "calling me s' ps ss" "at_state s' ps k READY" "spares {k} s ps s' ps" "pid (P s' me) = pid (P s me)" by auto
    have "full_ok (setState RUNNING_t v) s' ps (pid (P s me))"
      using full_set [OF f(1), unfolded pv, OF s(4) [unfolded k_def], of RUNNING_t "alive_t v"] s(3) ready(1) setState_alive [of RUNNING_t v]
      by (simp add: entry_ok_def k_def live_def)
    from full_table(2) [OF this] act ready s f(2) show ?thesis by auto
  next
    case skip
    with c full_table(2) [OF f] full_table(2) [OF f0 t(2)] show ?thesis by auto
  qed
qed

lemma create_step:
  assumes c: "calling me s ps ss" and t: "table_ok t s ps (pid (P s me))" "point_t t = Create_t"
    and n: "pids s < 2147483647" and room: "room_for [8, 72, STACK_SIZE, 10] (mm s)"
  shows "\<exists>t' s' qs. create_t fn argv t s = Some (t', s') \<and> calling me s' qs ss \<and> table_ok t' s' qs (pid (P s' me))"
proof -
  from fork_call [OF c n room, of fn 0 1 argv] obtain s' qs where
    s: "enqueueProcess fn 0 1 argv NULL s = Some (pids s, s')" "calling me s' qs ss" "pid (P s' me) = pid (P s me)"
      "IDLE_PID < pids s" "pid (P s me) \<noteq> pids s" "gone s ps (pids s)" "at_state s' qs (pids s) READY" "spares {pids s} s ps s' qs" by blast
  define r where "r = (rqs_t t ! rq_t t)\<lparr>pid_t := of_int (pids s)\<rparr>"
  define t' where "t' = t\<lparr>rqs_t := (rqs_t t)[rq_t t := r], point_t := Nice_t\<rparr>"
  have i: "rq_t t < 10" "length (rqs_t t) = 10" and w: "written t = take (rq_t t) (rqs_t t)" using t by (auto simp: table_ok_def written_def)
  have k: "sint (pid_t r) = pids s" using sint_pid [of "pids s"] s(4) n by (simp add: r_def)
  have w': "written t' = written t" by (simp add: w t'_def) (simp add: written_def)
  have old: "sint (pid_t x) \<noteq> pids s" if x: "x \<in> set (written t)" for x
  proof
    assume eq: "sint (pid_t x) = pids s"
    have "live x" "entry_ok s ps x" using t x by (auto simp: table_ok_def agrees_def)
    then show False using s(6) eq by (auto simp: live_def entry_ok_def gone_def at_state_def)
  qed
  have "agrees s ps (pid (P s me)) (written t)" using t by (simp add: table_ok_def)
  then have "agrees s' qs (pid (P s' me)) (written t')" using agrees_spares [OF _ s(8)] old w' s(3) by simp
  moreover have "pid_t r \<notin> pid_t ` set (written t')" using old k w' by auto
  ultimately have "table_ok t' s' qs (pid (P s' me))"
    using t i k s(3-5,7) w' by (simp add: table_ok_def) (auto simp: t'_def)
  moreover have "create_t fn argv t s = Some (t', s')" using s(1) by (simp add: create_t_def t'_def r_def)
  ultimately show ?thesis using s(2) by blast
qed

lemma nice_step:
  assumes c: "calling me s ps ss" and t: "table_ok t s ps (pid (P s me))" "point_t t = Nice_t"
  shows "\<exists>t' s' qs. nice_t t s = Some (t', s') \<and> calling me s' qs ss \<and> table_ok t' s' qs (pid (P s' me))"
proof -
  define r where "r = rqs_t t ! rq_t t"
  have i: "rq_t t < 10" "length (rqs_t t) = 10" and w: "written t = take (rq_t t) (rqs_t t)" using t by (auto simp: table_ok_def written_def)
  have r: "0 < sint (pid_t r)" "at_state s ps (sint (pid_t r)) READY" "sint (pid_t r) \<notin> {IDLE_PID, pid (P s me)}"
    "pid_t r \<notin> pid_t ` set (written t)" using t by (auto simp: table_ok_def r_def)
  from nice_call [OF c r(2), of 19] obtain s' where
    s: "nice (sint (pid_t r)) 19 s = Some (EXIT_SUCCESS, s')" "calling me s' ps ss" "spares {} s ps s' ps" "pid (P s' me) = pid (P s me)" by auto
  define v where "v = (setState RUNNING_t (t\<lparr>i_t := s32 (i_t t + 1)\<rparr>))\<lparr>alive_t := alive_t t + 1, rq_t := rq_t t + 1\<rparr>"
  have "pid_t r \<noteq> - 1" using r(1) by auto
  then have "nice_t t s = Some (if rq_t v < MAX_PROCESSES_t then v\<lparr>point_t := Create_t\<rparr> else whileAlive v, s')"
    using s(1) by (simp add: nice_t_def Let_def r_def [symmetric] v_def)
  moreover have v: "take (rq_t v) (rqs_t v) = written t @ [r\<lparr>state_t := RUNNING_t\<rparr>]" "rq_t v = rq_t t + 1" "length (rqs_t v) = 10"
    using i by (simp_all add: v_def setState_def r_def w take_Suc_conv_app_nth)
  have ag: "agrees s' ps (pid (P s' me)) (take (rq_t v) (rqs_t v))"
  proof -
    have "agrees s' ps (pid (P s me)) (written t)" using t agrees_spares [OF _ s(3)] by (auto simp: table_ok_def)
    moreover have "at_state s' ps (sint (pid_t r)) READY" using spares_at [OF s(3) _ _ r(2)] r(3) by auto
    ultimately show ?thesis using r(3,4) s(4) v(1) by (auto simp: agrees_def entry_ok_def)
  qed
  have al: "alive_t v = of_nat (length (filter live (take (rq_t v) (rqs_t v))))"
    using t v(1) by (simp add: table_ok_def v_def live_def)
  have lv: "live x" if "x \<in> set (take (rq_t v) (rqs_t v))" for x
    using t that v(1) by (auto simp: table_ok_def live_def)
  have "table_ok (if rq_t v < MAX_PROCESSES_t then v\<lparr>point_t := Create_t\<rparr> else whileAlive v) s' ps (pid (P s' me))"
  proof (cases "rq_t v < MAX_PROCESSES_t")
    case True
    with ag al lv v(3) show ?thesis by (simp add: table_ok_def written_def)
  next
    case False
    then have "take (rq_t v) (rqs_t v) = rqs_t v" using v(3) by simp
    with False ag al v(3) show ?thesis by (simp add: whileAlive_ok)
  qed
  ultimately show ?thesis using s(2) by blast
qed

lemma quit_step:
  assumes st: "stands me (t, s) ps ss" and c: "currentProcess s = me" and q: "point_t t = Quit_t"
  shows "\<exists>t' s' qs us. quit_t t s = Some (t', s') \<and> stands me (t', s') qs us"
proof -
  have r: "runs s ps ss" "sleepers s = {}" using st by (simp_all add: stands_def)
  from quit_spares [OF r] obtain x s' qs us where
    s: "quitCPU s = Some (x, s')" "runs s' qs us" "sleepers s' = {}" "spares {} s ps s' qs" by blast
  have "stands me (t, s') qs us" using stands_spares [OF st s(2-4)] by blast
  then have "stands me (t\<lparr>point_t := Create_t, rq_t := 0\<rparr>, s') qs us"
    using q by (auto simp: stands_def table_ok_def written_def)
  with s(1) show ?thesis by (auto simp: quit_t_def)
qed

lemma report_step:
  assumes t: "table_ok t s ps m" "point_t t = Report_t" and "report_t t s = Some (t', s')"
  shows "s' = s \<and> table_ok t' s ps m"
  using assms by (auto simp: report_t_def table_ok_def written_def agrees_def Let_def split: if_splits)

lemma step_stands:
  "\<exists>t' s' qs. f = Some (t', s') \<and> calling me s' qs ss \<and> table_ok t' s' qs (pid (P s' me)) \<Longrightarrow>
   \<exists>t' s' qs us. f = Some (t', s') \<and> stands me (t', s') qs us"
  using calls_stands by fastforce

text \<open>A call by the test.\<close>

lemma test_step:
  assumes st: "stands me (t, s) ps ss" and c: "currentProcess s = me"
    and room: "point_t t = Create_t \<Longrightarrow> pids s < 2147483647 \<and> room_for [8, 72, STACK_SIZE, 10] (mm s)"
    and n: "point_t t \<noteq> Report_t"
  shows "\<exists>t' s' qs us. test_processes rnd fn argv t s = Some (t', s') \<and> stands me (t', s') qs us"
proof -
  note cl = stands_calls [OF st c]
  have t: "table_ok t s ps (pid (P s me))" using st by (simp add: stands_def)
  have nf: "point_t t \<noteq> Failed_t" using t by (simp add: table_ok_def)
  show ?thesis
  proof (cases "point_t t")
    case Quit_t
    with quit_step [OF st c] show ?thesis by (simp add: test_processes_def)
  next
    case Create_t
    with step_stands [OF create_step [OF cl t Create_t]] room show ?thesis by (simp add: test_processes_def)
  next
    case Nice_t
    with step_stands [OF nice_step [OF cl t Nice_t]] show ?thesis by (simp add: test_processes_def)
  next
    case Action_t
    with step_stands [OF action_step [OF cl t Action_t]] show ?thesis by (simp add: test_processes_def)
  next
    case Unblock_t
    with step_stands [OF unblock_step [OF cl t Unblock_t]] show ?thesis by (simp add: test_processes_def)
  qed (use n nf in simp_all)
qed

lemma tp_sys_stands:
  assumes "tp_sys rnd fn argv me c d" and st: "stands me c ps ss"
  shows "\<exists>qs us. stands me d qs us"
  using assms(1)
proof cases
  case (tp_run t s m c' r)
  let ?s = "s\<lparr>cpu_rsp := r, tm := c', ram := m\<rparr>"
  have "runs ?s ps ss" "sleepers ?s = {}" using st tp_run(1) by (simp_all add: stands_def sleepers_def)
  moreover have "spares {} s ps ?s ps" by (rule spares_same) simp_all
  ultimately show ?thesis using stands_spares [OF st [unfolded tp_run(1)]] tp_run(2) by blast
next
  case (tp_tick s s' t)
  have "sched_inv s ps ss" "sleepers s = {}" using st tp_tick(1) runs_inv by (auto simp: stands_def)
  from tick_spares [OF this] tp_tick(3) obtain qs us where "runs s' qs us" "sleepers s' = {}" "spares {} s ps s' qs" by auto
  with stands_spares [OF st [unfolded tp_tick(1)]] tp_tick(2) show ?thesis by blast
next
  case (tp_test s t t' s')
  show ?thesis
  proof (cases "point_t t = Report_t")
    case True
    then have "report_t t s = Some (t', s')" using tp_test(5) by (simp add: test_processes_def)
    from report_step [OF _ True this, of ps "pid (P s me)"] st tp_test(1,2) show ?thesis by (auto simp: stands_def)
  next
    case False
    from test_step [OF st [unfolded tp_test(1)] tp_test(3,4) False, of rnd fn argv] tp_test(2,5) show ?thesis by auto
  qed
qed

lemma tp_reach_stands:
  assumes "(tp_sys rnd fn argv me)\<^sup>*\<^sup>* c d" "stands me c ps ss" shows "\<exists>qs us. stands me d qs us"
  using assms by (induction rule: rtranclp_induct) (auto dest: tp_sys_stands)

lemma start_stands:
  assumes "runs s ps ss" "sleepers s = {}" "me \<in> set ps" "state (P s me) = READY" "pid (P s me) \<noteq> IDLE_PID" "length rqs = MAX_PROCESSES_t"
  shows "stands me (test_processes_start rqs g, s) ps ss"
  using assms by (simp add: stands_def table_ok_def test_processes_start_def written_def agrees_def)

text \<open>The end of a round.\<close>

lemma table_end:
  assumes t: "table_ok t s ps m" "point_t t = Report_t" and r: "r \<in> set (rqs_t t)" shows "gone s ps (sint (pid_t r))"
proof -
  have w: "written t = rqs_t t" and l: "length (rqs_t t) = 10" using t by (auto simp: table_ok_def)
  have "alive_t t = of_nat (length (filter live (written t)))" "alive_t t = 0" using t unfolding table_ok_def by blast+
  then have "(of_nat (length (filter live (rqs_t t))) :: u8) = 0" using w by metis
  moreover have "length (filter live (rqs_t t)) < 256" using l length_filter_le [of live "rqs_t t"] by simp
  ultimately have "filter live (rqs_t t) = []" by (simp add: word_of_nat_eq_0_iff) (use dvd_imp_le in fastforce)
  then have "\<not> live r" using r by (auto simp: filter_empty_conv)
  moreover have "entry_ok s ps r" using t r w by (auto simp: table_ok_def agrees_def)
  ultimately show ?thesis by (cases "state_t r") (auto simp: live_def entry_ok_def)
qed

section \<open>Properties\<close>

text \<open>C25: whatever the random numbers and however the timer ticks between its calls, the process test never
  reports an error: the process that it takes for running, blocked or killed is ready, blocked or gone in
  the kernel's list, different entries are different processes, \<open>alive\<close> is the number of those that are
  left, and at the end of a round all are gone. The test never gets stuck, unless it has no memory or
  identifier for a new process or prints its count.\<close>

theorem test_processes_agrees:
  assumes "runs s0 ps0 ss0" "sleepers s0 = {}" "me \<in> set ps0" "state (P s0 me) = READY" "pid (P s0 me) \<noteq> IDLE_PID"
    and "length rqs = MAX_PROCESSES_t" "(tp_sys rnd fn argv me)\<^sup>*\<^sup>* (test_processes_start rqs g, s0) (t, s)"
  shows "point_t t \<noteq> Failed_t \<and> distinct (map pid_t (written t)) \<and> alive_t t = of_nat (length (filter live (written t))) \<and>
    (\<exists>ps ss. runs s ps ss \<and> me \<in> set ps \<and> (\<forall>r \<in> set (written t). entry_ok s ps r) \<and>
       (point_t t = Report_t \<longrightarrow> (\<forall>r \<in> set (rqs_t t). gone s ps (sint (pid_t r))))) \<and>
    (currentProcess s = me \<longrightarrow> point_t t \<notin> {Create_t, Report_t} \<longrightarrow> test_processes rnd fn argv t s \<noteq> None)"
proof -
  obtain qs us where st: "stands me (t, s) qs us" using tp_reach_stands [OF assms(7) start_stands [OF assms(1-6)]] by blast
  then have t: "table_ok t s qs (pid (P s me))" by (simp add: stands_def)
  have "\<exists>ps ss. runs s ps ss \<and> me \<in> set ps \<and> (\<forall>r \<in> set (written t). entry_ok s ps r) \<and>
       (point_t t = Report_t \<longrightarrow> (\<forall>r \<in> set (rqs_t t). gone s ps (sint (pid_t r))))"
  proof (rule exI [of _ qs], rule exI [of _ us], intro conjI)
    show "runs s qs us" "me \<in> set qs" using st by (simp_all add: stands_def)
    show "\<forall>r \<in> set (written t). entry_ok s qs r" using t unfolding table_ok_def agrees_def by blast
    show "point_t t = Report_t \<longrightarrow> (\<forall>r \<in> set (rqs_t t). gone s qs (sint (pid_t r)))" using table_end [OF t] by blast
  qed
  moreover have "test_processes rnd fn argv t s \<noteq> None" if "currentProcess s = me" "point_t t \<notin> {Create_t, Report_t}"
    using test_step [OF st that(1), of rnd fn argv] that(2) by auto
  ultimately show ?thesis using t unfolding table_ok_def agrees_def by blast
qed

theorem test_processes_agrees_witness:
  "\<exists>s i a t u. sample s i a \<and> test_processes (\<lambda>x. x) 0x401000 0 (test_processes_start (replicate 10 \<lparr>pid_t = 0, state_t = ERROR_t\<rparr>) seed0) s = Some (t, u) \<and>
     point_t t = Create_t \<and> (\<exists>ps ss. runs u ps ss \<and> a \<in> set ps)"
proof (rule sample)
  fix s i a
  let ?t = "test_processes_start (replicate 10 \<lparr>pid_t = 0, state_t = ERROR_t\<rparr>) seed0"
  assume s: "sample s i a"
  have h: "runs s [i, a] []" "sleepers s = {}" "a \<in> set [i, a]" "state (P s a) = READY" "pid (P s a) \<noteq> IDLE_PID" "currentProcess s = a"
    using s runs_ready [OF sample_runs [OF s]] by (auto simp: sample_def)
  note th = test_processes_agrees [OF h(1-5), of "replicate 10 \<lparr>pid_t = 0, state_t = ERROR_t\<rparr>" "\<lambda>x. x" "0x401000" 0 seed0]
  have p: "point_t ?t = Quit_t" by (simp add: test_processes_start_def)
  obtain t u where tu: "test_processes (\<lambda>x. x) 0x401000 0 ?t s = Some (t, u)" using th [of ?t s] h(6) p by auto
  then have c: "point_t t = Create_t" using p by (auto simp: test_processes_def quit_t_def bind_eq_Some_conv)
  have "tp_sys (\<lambda>x. x) 0x401000 0 a (?t, s) (t, u)" using tp_test [OF h(6) _ tu] p by simp
  then have "(tp_sys (\<lambda>x. x) 0x401000 0 a)\<^sup>*\<^sup>* (?t, s) (t, u)" by blast
  from th [OF _ this] have "\<exists>ps ss. runs u ps ss \<and> a \<in> set ps" by auto
  with s tu c show ?thesis by blast
qed

end
