(* ===== verification/BMFS.thy ===== *)
theory BMFS
  imports Boot
begin

text \<open>
  The file system tool of the boot loader, \<open>src/Bootloader/BMFS/bmfs.c\<close>: definitions. The disk, the
  directory and the disk information are byte memories; \<open>None\<close> is an access outside an array. The
  files of the host are a map from names to contents; opening an existing one, every \<open>malloc\<close>, and every read and
  write, succeeds. The host's \<open>qsort\<close> and \<open>atoi\<close> are parameters. Texts that are printed are given by a constructor of
  \<open>answer\<close>.
\<close>

section \<open>Directory entries\<close>

record BMFSEntry =
  FileName :: "u8 list"
  StartingBlock :: u64
  ReservedBlocks :: u64
  FileSize :: u64
  Unused :: u64

definition le64 :: "u64 \<Rightarrow> u8 list" where
  "le64 w = map (\<lambda>i. ucast (drop_bit (8 * i) w)) [0..<8]"

definition rd_le64 :: "mem \<Rightarrow> addr \<Rightarrow> u64" where
  "rd_le64 m a = foldr (\<lambda>i w. ucast (m (a + i)) OR push_bit 8 w) [0..<8] 0"

text \<open>The copy of 64 bytes into a structure, and the bytes of a structure.\<close>

definition entry_at :: "mem \<Rightarrow> addr \<Rightarrow> BMFSEntry" where
  "entry_at m a = \<lparr>FileName = bytes m a 32, StartingBlock = rd_le64 m (a + 32), ReservedBlocks = rd_le64 m (a + 40),
     FileSize = rd_le64 m (a + 48), Unused = rd_le64 m (a + 56)\<rparr>"

definition entry_bytes :: "BMFSEntry \<Rightarrow> u8 list" where
  "entry_bytes e = FileName e @ le64 (StartingBlock e) @ le64 (ReservedBlocks e) @ le64 (FileSize e) @ le64 (Unused e)"

abbreviation (input) entryNo :: "mem \<Rightarrow> nat \<Rightarrow> BMFSEntry" where
  "entryNo dir i \<equiv> entry_at dir (i * 64)"

definition mark :: "BMFSEntry \<Rightarrow> u8" where
  "mark e = hd (FileName e)"

section \<open>State\<close>

type_synonym hostfiles = "u8 list \<rightharpoonup> u8 list"

record bmfs =
  disk_b :: mem
  DiskInfo :: mem
  Directory :: mem
  disksize :: u32
  host :: hostfiles

abbreviation (input) BLOCK :: nat where "BLOCK \<equiv> 2097152"

datatype answer = Complete | No_entry | No_room | File_exists | Not_found | No_local_file | Not_enough |
  Listing "(u8 list \<times> u64 \<times> u64) list" | Invalid_size | Not_specified | Aborted | Unknown_command | Not_a_drive | No_disk | Usage | Failed

definition flush_dir :: "bmfs \<Rightarrow> bmfs" where
  "flush_dir s = s\<lparr>disk_b := wr (disk_b s) 4096 (bytes (Directory s) 0 4096)\<rparr>"

section \<open>findfile\<close>

text \<open>\<open>strcmp\<close> of a name with the bytes of an entry, from its name on: are they equal?\<close>

fun strcmp_b :: "u8 list \<Rightarrow> u8 list \<Rightarrow> bool option" where
  "strcmp_b n [] = None"
| "strcmp_b [] (c # cs) = Some (c = 0)"
| "strcmp_b (x # xs) (c # cs) = (if x = c then strcmp_b xs cs else Some False)"

function findLoop :: "u8 list \<Rightarrow> mem \<Rightarrow> nat \<Rightarrow> (BMFSEntry \<times> nat) option option" where
  "findLoop filename dir tint =
     (if tint < 64
      then let entry = entryNo dir tint in
        if mark entry = 0 then Some None
        else if mark entry = 1 then findLoop filename dir (tint + 1)
        else do {
          eq \<leftarrow> strcmp_b filename (entry_bytes entry);
          if eq then Some (Some (entry, tint)) else findLoop filename dir (tint + 1)
        }
      else Some None)"
  by pat_completeness auto
termination
  by (relation "measure (\<lambda>(f, d, t). 64 - t)") auto

declare findLoop.simps [simp del]

definition findfile :: "u8 list \<Rightarrow> bmfs \<Rightarrow> (BMFSEntry \<times> nat) option option" where
  "findfile filename s = findLoop filename (Directory s) 0"

section \<open>list and format\<close>

function listLoop :: "mem \<Rightarrow> nat \<Rightarrow> (u8 list \<times> u64 \<times> u64) list" where
  "listLoop dir tint =
     (if tint < 64
      then let entry = entryNo dir tint in
        if mark entry = 0 then []
        else if mark entry = 1 then listLoop dir (tint + 1)
        else (takeWhile (\<lambda>c. c \<noteq> 0) (entry_bytes entry), FileSize entry, ReservedBlocks entry * 2) # listLoop dir (tint + 1)
      else [])"
  by pat_completeness auto
termination
  by (relation "measure (\<lambda>(d, t). 64 - t)") auto

declare listLoop.simps [simp del]

definition list_b :: "bmfs \<Rightarrow> answer" where
  "list_b s = Listing (listLoop (Directory s) 0)"

definition fs_tag :: "u8 list" where
  "fs_tag = map of_char ''BMFS''"

definition format_b :: "bmfs \<Rightarrow> bmfs" where
  "format_b s =
     (let info = wr (wr (DiskInfo s) 0 (replicate 512 0)) 0 fs_tag;
          dir = wr (Directory s) 0 (replicate 4096 0)
      in s\<lparr>DiskInfo := info, Directory := dir,
           disk_b := wr (wr (disk_b s) 1024 (bytes info 0 512)) 4096 (bytes dir 0 4096)\<rparr>)"

section \<open>create\<close>

text \<open>The difference of the blocks is cut to an \<open>int\<close>.\<close>

definition StartingBlockCmp :: "BMFSEntry \<Rightarrow> BMFSEntry \<Rightarrow> int" where
  "StartingBlockCmp ea eb =
     (if mark ea = 1 then 1 else if mark eb = 1 then - 1 else s32 (uint (StartingBlock ea - StartingBlock eb)))"

type_synonym qsort = "(BMFSEntry \<Rightarrow> BMFSEntry \<Rightarrow> int) \<Rightarrow> BMFSEntry list \<Rightarrow> BMFSEntry list"

text \<open>The result is \<open>num_used_entries\<close>, which stays 0 when the loop does not meet the end of the
  directory, and \<open>first_free_entry\<close>.\<close>

function countLoop :: "mem \<Rightarrow> nat \<Rightarrow> int \<Rightarrow> nat \<times> int" where
  "countLoop dir tint first_free =
     (if tint < 64
      then let e = entryNo dir tint in
        if mark e = 0 then (tint, if first_free = - 1 then int tint else first_free)
        else if mark e = 1 then countLoop dir (tint + 1) (if first_free = - 1 then int tint else first_free)
        else countLoop dir (tint + 1) first_free
      else (0, first_free))"
  by pat_completeness auto
termination
  by (relation "measure (\<lambda>(d, t, f). 64 - t)") auto

declare countLoop.simps [simp del]

text \<open>The search for free blocks, over the entries that are left and the end of the file before; 0 when there are none.\<close>

fun gapLoop :: "u64 \<Rightarrow> u64 \<Rightarrow> u64 \<Rightarrow> BMFSEntry list \<Rightarrow> u64" where
  "gapLoop num_blocks req prev_file_end [] =
     (if num_blocks - 1 - prev_file_end \<ge> req then prev_file_end else 0)"
| "gapLoop num_blocks req prev_file_end (e # es) =
     (let this_file_start = (if mark e = 1 then num_blocks - 1 else StartingBlock e)
      in if this_file_start - prev_file_end \<ge> req then prev_file_end
         else gapLoop num_blocks req (StartingBlock e + ReservedBlocks e) es)"

text \<open>The new record; the name is copied last, over whatever is behind it.\<close>

definition addEntry :: "u8 list \<Rightarrow> u64 \<Rightarrow> u64 \<Rightarrow> nat \<Rightarrow> mem \<Rightarrow> mem option" where
  "addEntry filename start req i dir =
     (let dir = wr dir (i * 64 + 32) (le64 start);
          dir = wr dir (i * 64 + 40) (le64 req);
          dir = wr dir (i * 64 + 48) (le64 0)
      in if i * 64 + length filename + 1 \<le> 4096 then Some (wr dir (i * 64) (filename @ [0])) else None)"

definition create_b :: "qsort \<Rightarrow> u8 list \<Rightarrow> u64 \<Rightarrow> bmfs \<Rightarrow> (answer \<times> bmfs) option" where
  "create_b qsort filename maxsize s =
     do {
       let maxsize = (if maxsize mod 2 \<noteq> 0 then maxsize + 1 else maxsize);
       found \<leftarrow> findfile filename s;
       case found of
         Some _ \<Rightarrow> Some (File_exists, s)
       | None \<Rightarrow>
           let req = maxsize div 2;
               num_blocks = ucast (disksize s div 2);
               dir = Directory s;
               (used, first_free) = countLoop dir 0 (- 1)
           in if first_free = - 1 then Some (No_entry, s)
              else let es = qsort StartingBlockCmp (map (\<lambda>i. entryNo dir i) [0..<used]);
                       start = gapLoop num_blocks req 1 es
                in if start = 0 then Some (No_room, s)
                   else do {
                     dir \<leftarrow> addEntry filename start req (nat first_free) dir;
                     let dir = (if nat first_free = used \<and> used + 1 < 64 then dir((used + 1) * 64 := 0) else dir);
                     Some (Complete, flush_dir (s\<lparr>Directory := dir\<rparr>))
                   }
     }"

section \<open>read, write and delete\<close>

text \<open>The character at a place of the disk, which has \<open>len\<close> bytes: behind its end \<open>getc\<close> gives \<open>EOF\<close>, which \<open>putc\<close> writes
  as a byte of ones.\<close>

definition getc_b :: "nat \<Rightarrow> bmfs \<Rightarrow> addr \<Rightarrow> u8" where
  "getc_b len s p = (if p < len then disk_b s p else - 1)"

text \<open>The counters of the loops are of type \<open>int\<close>: a file of 2 GiB makes them overflow.\<close>

definition read_b :: "nat \<Rightarrow> u8 list \<Rightarrow> bmfs \<Rightarrow> (answer \<times> bmfs) option" where
  "read_b len filename s =
     do {
       found \<leftarrow> findfile filename s;
       case found of
         None \<Rightarrow> Some (Not_found, s)
       | Some (e, slot) \<Rightarrow>
           if unat (FileSize e) < 2147483648
           then Some (Complete, s\<lparr>host := (host s)(takeWhile (\<lambda>c. c \<noteq> 0) (entry_bytes e) \<mapsto>
                  bytes (getc_b len s) (unat (StartingBlock e * of_nat BLOCK)) (unat (FileSize e)))\<rparr>)
           else None
     }"

definition write_b :: "u8 list \<Rightarrow> bmfs \<Rightarrow> (answer \<times> bmfs) option" where
  "write_b filename s =
     do {
       found \<leftarrow> findfile filename s;
       case found of
         None \<Rightarrow> Some (Not_found, s)
       | Some (e, slot) \<Rightarrow>
           (case host s filename of
              None \<Rightarrow> Some (No_local_file, s)
            | Some t \<Rightarrow>
                if unat (ReservedBlocks e * of_nat BLOCK) < length t then Some (Not_enough, s)
                else if length t < 2147483648
                then Some (Complete, flush_dir (s\<lparr>disk_b := wr (disk_b s) (unat (StartingBlock e * of_nat BLOCK)) t,
                       Directory := wr (Directory s) (slot * 64 + 48) (le64 (of_nat (length t)))\<rparr>))
                else None)
     }"

definition delete_b :: "u8 list \<Rightarrow> bmfs \<Rightarrow> (answer \<times> bmfs) option" where
  "delete_b filename s =
     do {
       found \<leftarrow> findfile filename s;
       case found of
         None \<Rightarrow> Some (Not_found, s)
       | Some (e, slot) \<Rightarrow> Some (Complete, flush_dir (s\<lparr>Directory := (Directory s)(slot * 64 := 1)\<rparr>))
     }"

section \<open>initialize\<close>

definition minimumDiskSize :: u64 where
  "minimumDiskSize = 6 * 1024 * 1024"

definition isdigit_b :: "u8 \<Rightarrow> bool" where
  "isdigit_b c \<longleftrightarrow> 48 \<le> c \<and> c \<le> 57"

definition toupper_b :: "u8 \<Rightarrow> u8" where
  "toupper_b c = (if 97 \<le> c \<and> c \<le> 122 then c - 32 else c)"

text \<open>\<open>K\<close>, \<open>M\<close>, \<open>G\<close>, \<open>T\<close> and \<open>P\<close>.\<close>

definition size_unit :: "u8 \<Rightarrow> nat option" where
  "size_unit c = map_of [(75, 1), (77, 2), (71, 3), (84, 4), (80, 5)] (toupper_b c)"

text \<open>The size and the unit; \<open>None\<close> is an error.\<close>

fun sizeLoop :: "bool \<Rightarrow> u64 \<Rightarrow> u8 list \<Rightarrow> (u64 \<times> nat) option" where
  "sizeLoop first diskSize [] = Some (diskSize, 0)"
| "sizeLoop first diskSize (ch # cs) =
     (if isdigit_b ch
      then let n = ucast ch - 48 in
        if diskSize * 10 > diskSize then sizeLoop False (diskSize * 10 + n) cs
        else if diskSize = 0 then sizeLoop False (diskSize + n) cs
        else None
      else if first then None
      else do { f \<leftarrow> size_unit ch; if cs \<noteq> [] then None else Some (diskSize, f) })"

fun unitLoop :: "u64 \<Rightarrow> nat \<Rightarrow> u64 option" where
  "unitLoop diskSize 0 = Some diskSize"
| "unitLoop diskSize (Suc f) = (if diskSize * 1024 > diskSize then unitLoop (diskSize * 1024) f else None)"

definition parseSize :: "u8 list \<Rightarrow> u64 option" where
  "parseSize sz =
     do {
       (diskSize, f) \<leftarrow> sizeLoop True 0 sz;
       diskSize \<leftarrow> (if diskSize > 0 \<and> f > 0 then unitLoop diskSize f else Some diskSize);
       if diskSize < minimumDiskSize then None else Some diskSize
     }"

abbreviation (input) bufferSize :: nat where "bufferSize \<equiv> 51200"

text \<open>Filling the disk, and copying a file to it from the place \<open>pos\<close> on, a buffer at a time.\<close>

function fillLoop :: "nat \<Rightarrow> nat \<Rightarrow> mem \<Rightarrow> mem" where
  "fillLoop diskSize writeSize m =
     (if writeSize < diskSize
      then let chunkSize = min bufferSize (diskSize - writeSize)
           in fillLoop diskSize (writeSize + chunkSize) (wr m writeSize (replicate chunkSize 0))
      else m)"
  by pat_completeness auto
termination
  by (relation "measure (\<lambda>(d, w, m). d - w)") (auto simp: min_def)

function copyLoop :: "u8 list \<Rightarrow> nat \<Rightarrow> mem \<Rightarrow> nat \<times> mem" where
  "copyLoop source pos m =
     (if source \<noteq> []
      then copyLoop (drop bufferSize source) (pos + min bufferSize (length source)) (wr m pos (take bufferSize source))
      else (pos, m))"
  by pat_completeness auto
termination
  by (relation "measure (\<lambda>(s, p, m). length s)") auto

declare fillLoop.simps [simp del] copyLoop.simps [simp del]

text \<open>A file that is given must exist.\<close>

definition opens :: "hostfiles \<Rightarrow> u8 list option \<Rightarrow> bool" where
  "opens h f \<longleftrightarrow> (case f of None \<Rightarrow> True | Some n \<Rightarrow> h n \<noteq> None)"

text \<open>The exit status, and the disk if it was opened.\<close>

definition initialize_b :: "u8 list \<Rightarrow> u8 list option \<Rightarrow> u8 list option \<Rightarrow> u8 list option \<Rightarrow> bmfs \<Rightarrow> int \<times> bmfs option" where
  "initialize_b sz mbr boot kern s =
     (case parseSize sz of
        None \<Rightarrow> (1, None)
      | Some diskSize \<Rightarrow>
          if \<not> (opens (host s) mbr \<and> opens (host s) boot \<and> opens (host s) kern) then (1, None)
          else
            let s = format_b (s\<lparr>disk_b := fillLoop (unat diskSize) 0 (\<lambda>_. 0)\<rparr>);
                m = disk_b s; pos = 8192;
                (ret, pos, m) = (case Option.bind mbr (host s) of
                    None \<Rightarrow> (0, pos, m)
                  | Some t \<Rightarrow> if 512 \<le> length t then (0, 512, wr m 0 (take 512 t)) else (1, 0, m));
                (pos, m) = (case Option.bind boot (host s) of
                    Some t \<Rightarrow> if ret = 0 then copyLoop t 8192 m else (pos, m)
                  | None \<Rightarrow> (pos, m));
                (pos, m) = (case Option.bind kern (host s) of
                    Some t \<Rightarrow> if ret = 0 then copyLoop t pos m else (pos, m)
                  | None \<Rightarrow> (pos, m))
            in (ret, Some (s\<lparr>disk_b := m\<rparr>)))"

section \<open>main\<close>

text \<open>\<open>strcasecmp\<close> with a literal, as a test of equality.\<close>

definition tolower_b :: "u8 \<Rightarrow> u8" where
  "tolower_b c = (if 65 \<le> c \<and> c \<le> 90 then c + 32 else c)"

definition strcasecmp_b :: "u8 list \<Rightarrow> u8 list \<Rightarrow> bool" where
  "strcasecmp_b xs ys \<longleftrightarrow> map tolower_b xs = map tolower_b ys"

abbreviation (input) is_cmd :: "u8 list \<Rightarrow> string \<Rightarrow> bool" where
  "is_cmd c n \<equiv> strcasecmp_b (map of_char n) c"

text \<open>What the tool reads from an opened disk of \<open>len\<close> bytes.\<close>

definition load_b :: "nat \<Rightarrow> bmfs \<Rightarrow> bmfs" where
  "load_b len s =
     s\<lparr>disksize := of_nat (len div 1048576), DiskInfo := wr (DiskInfo s) 0 (bytes (disk_b s) 1024 512),
       Directory := wr (Directory s) 0 (bytes (disk_b s) 4096 4096)\<rparr>"

definition is_bmfs :: "bmfs \<Rightarrow> bool" where
  "is_bmfs s \<longleftrightarrow> map tolower_b (bytes (DiskInfo s) 0 4) = map tolower_b fs_tag \<and> DiskInfo s 4 = 0"

text \<open>The command \<open>create\<close>; \<open>typed\<close> is what is typed when no size is given, and goes into an \<open>unsigned int\<close>.\<close>

definition create_cmd :: "qsort \<Rightarrow> (u8 list \<Rightarrow> int) \<Rightarrow> u8 list \<Rightarrow> u8 list list \<Rightarrow> bmfs \<Rightarrow> (answer \<times> bmfs) option" where
  "create_cmd qsort atoi typed argv s =
     (if length argv \<le> 3 then Some (Not_specified, s)
      else if length argv > 4
      then let filesize = s32 (atoi (argv ! 4))
           in if filesize \<ge> 1 then create_b qsort (argv ! 3) (of_int filesize) s else Some (Invalid_size, s)
      else let filesize = of_int (atoi typed) :: u32
           in if filesize \<ge> 1 then create_b qsort (argv ! 3) (ucast filesize) s else Some (Invalid_size, s))"

text \<open>\<open>read\<close>, \<open>write\<close> and \<open>delete\<close> are called without looking whether there is a name. Without one, \<open>findfile\<close> gives \<open>NULL\<close>
  to \<open>strcmp\<close> at the first entry in use, and finds no file when there is none before the end of the directory.\<close>

function nullLoop :: "mem \<Rightarrow> nat \<Rightarrow> unit option" where
  "nullLoop dir tint =
     (if tint < 64
      then let entry = entryNo dir tint in
        if mark entry = 0 then Some ()
        else if mark entry = 1 then nullLoop dir (tint + 1)
        else None
      else Some ())"
  by pat_completeness auto
termination
  by (relation "measure (\<lambda>(d, t). 64 - t)") auto

declare nullLoop.simps [simp del]

definition with_name :: "u8 list list \<Rightarrow> bmfs \<Rightarrow> (u8 list \<Rightarrow> (answer \<times> bmfs) option) \<Rightarrow> (answer \<times> bmfs) option" where
  "with_name argv s f =
     (if length argv > 3 then f (argv ! 3) else do { nullLoop (Directory s) 0; Some (Not_found, s) })"

definition bmfs_main :: "qsort \<Rightarrow> (u8 list \<Rightarrow> int) \<Rightarrow> nat option \<Rightarrow> u8 list \<Rightarrow> u8 list list \<Rightarrow> bmfs \<Rightarrow> (answer \<times> bmfs) option" where
  "bmfs_main qsort atoi len typed argv s =
     (if length argv < 3 then Some (Usage, s)
      else
        let command = argv ! 2 in
        if is_cmd command ''initialize''
        then if length argv \<ge> 4
             then let arg = (\<lambda>i. if length argv > i then Some (argv ! i) else None);
                      (ret, r) = initialize_b (argv ! 3) (arg 4) (arg 5) (arg 6) s
                  in Some (if ret = 0 then Complete else Failed, case r of None \<Rightarrow> s | Some t \<Rightarrow> t)
             else Some (Usage, s)
        else case len of
          None \<Rightarrow> Some (No_disk, s)
        | Some n \<Rightarrow>
            let s = load_b n s in
            if \<not> is_bmfs s
            then if is_cmd command ''format'' then Some (Complete, format_b s) else Some (Not_a_drive, s)
            else if is_cmd command ''list'' then Some (list_b s, s)
            else if is_cmd command ''format''
            then if length argv > 3 \<and> strcasecmp_b (argv ! 3) (map of_char ''/FORCE'') then Some (Complete, format_b s) else Some (Aborted, s)
            else if is_cmd command ''create'' then create_cmd qsort atoi typed argv s
            else if is_cmd command ''read'' then with_name argv s (\<lambda>f. read_b n f s)
            else if is_cmd command ''write'' then with_name argv s (\<lambda>f. write_b f s)
            else if is_cmd command ''delete'' then with_name argv s (\<lambda>f. delete_b f s)
            else Some (Unknown_command, s))"

end
