(* ===== verification/BMFS_Rep.thy ===== *)
theory BMFS_Rep
  imports BMFS
begin

text \<open>
  Consistent disks of the BMFS tool: entries in memory, the invariant \<open>fs_ok\<close>, the files of a disk as a map
  from names to blocks and contents, and what \<open>findfile\<close>, \<open>read\<close>, \<open>write\<close> and \<open>delete\<close> do to it.
\<close>

section \<open>Entries in memory\<close>

lemma length_le64 [simp]: "length (le64 w) = 8"
  by (simp add: le64_def)

lemma rd_le64_cong: "(\<And>i. i < 8 \<Longrightarrow> m (a + i) = m' (b + i)) \<Longrightarrow> rd_le64 m a = rd_le64 m' b"
  unfolding rd_le64_def by (rule foldr_cong) auto

lemma bit_u64: "bit (w :: u64) n \<Longrightarrow> n < 64"
  using bit_imp_le_length [of w n] by simp

lemma le64_parts: "foldr (\<lambda>i w. ucast (ucast (drop_bit (8 * i) v) :: u8) OR push_bit 8 w) [0..<8] 0 = (v :: u64)" (is "?f = v")
proof (rule bit_word_eqI)
  fix n
  assume n: "n < LENGTH(64)"
  have u: "[0..<8] = [0, 1, 2, 3, 4, 5, 6, 7 :: nat]" by (simp add: upt_rec)
  consider "n < 8" | "8 \<le> n" "n < 16" | "16 \<le> n" "n < 24" | "24 \<le> n" "n < 32" | "32 \<le> n" "n < 40" | "40 \<le> n" "n < 48"
    | "48 \<le> n" "n < 56" | "56 \<le> n" "n < 64" using n by force
  then show "bit ?f n = bit v n"
    by cases (use n in \<open>simp_all add: u bit_simps less_diff_conv2\<close>)
qed

lemma rd_le64_bytes: "bytes m a 8 = le64 v \<Longrightarrow> rd_le64 m a = v"
proof -
  assume b: "bytes m a 8 = le64 v"
  have "m (a + i) = ucast (drop_bit (8 * i) v)" if "i < 8" for i
  proof -
    have "m (a + i) = bytes m a 8 ! i" using that by simp
    also have "\<dots> = ucast (drop_bit (8 * i) v)" unfolding b using that by (simp add: le64_def)
    finally show ?thesis .
  qed
  then have "rd_le64 m a = foldr (\<lambda>i w. ucast (ucast (drop_bit (8 * i) v) :: u8) OR push_bit 8 w) [0..<8] 0"
    unfolding rd_le64_def by (intro foldr_cong) auto
  then show ?thesis by (simp only: le64_parts)
qed

lemma rd_le64_wr [simp]: "rd_le64 (wr m a (le64 v)) a = v"
  by (rule rd_le64_bytes) (simp add: bytes_wr_eq)

lemma rd_le64_outside: "q + length bs \<le> a \<or> a + 8 \<le> q \<Longrightarrow> rd_le64 (wr m q bs) a = rd_le64 m a"
  by (rule rd_le64_cong) (auto simp: wr_outside)

lemma entry_outside: "q + length bs \<le> a \<or> a + 64 \<le> q \<Longrightarrow> entry_at (wr m q bs) a = entry_at m a"
  by (auto simp: entry_at_def rd_le64_outside bytes_outside)

lemma wr_point: "m(a := v) = wr m a [v]"
  by simp

lemma mark_at: "mark (entry_at m a) = m a"
proof -
  have "bytes m a (Suc 31) = m a # bytes m (Suc a) 31" by (rule bytes_Cons)
  then show ?thesis by (simp add: mark_def entry_at_def)
qed

lemma length_FileName [simp]: "length (FileName (entry_at m a)) = 32"
  by (simp add: entry_at_def)

section \<open>Names\<close>

definition name_of :: "BMFSEntry \<Rightarrow> u8 list" where
  "name_of e = takeWhile (\<lambda>c. c \<noteq> 0) (FileName e)"

definition valid_name :: "u8 list \<Rightarrow> bool" where
  "valid_name n \<longleftrightarrow> n \<noteq> [] \<and> 0 \<notin> set n \<and> hd n \<noteq> 1 \<and> length n < 32"

lemma strcmp_b_string: "0 \<in> set cs \<Longrightarrow> 0 \<notin> set n \<Longrightarrow> strcmp_b n (cs @ ds) = Some (n = takeWhile (\<lambda>c. c \<noteq> 0) cs)"
proof (induction n cs rule: strcmp_b.induct)
  case (3 x xs c cs)
  then show ?case by (cases "c = 0") auto
qed auto

lemma strcmp_name: "0 \<in> set (FileName e) \<Longrightarrow> 0 \<notin> set n \<Longrightarrow> strcmp_b n (entry_bytes e) = Some (n = name_of e)"
  by (simp add: entry_bytes_def strcmp_b_string name_of_def)

section \<open>Consistent disks\<close>

abbreviation ent :: "bmfs \<Rightarrow> nat \<Rightarrow> BMFSEntry" where
  "ent s i \<equiv> entry_at (Directory s) (i * 64)"

definition is_file :: "BMFSEntry \<Rightarrow> bool" where
  "is_file e \<longleftrightarrow> mark e \<notin> {0, 1}"

abbreviation first_block :: "BMFSEntry \<Rightarrow> nat" where "first_block e \<equiv> unat (StartingBlock e)"
abbreviation end_block :: "BMFSEntry \<Rightarrow> nat" where "end_block e \<equiv> unat (StartingBlock e) + unat (ReservedBlocks e)"

text \<open>The blocks of the disk; the last one is never used.\<close>

definition num_blocks :: "bmfs \<Rightarrow> nat" where
  "num_blocks s = unat (disksize s) div 2"

definition entry_fits :: "nat \<Rightarrow> BMFSEntry \<Rightarrow> bool" where
  "entry_fits N e \<longleftrightarrow> 0 \<in> set (FileName e) \<and> 1 \<le> first_block e \<and> 1 \<le> unat (ReservedBlocks e) \<and> end_block e \<le> N - 1 \<and>
     unat (FileSize e) \<le> unat (ReservedBlocks e) * BLOCK \<and> unat (FileSize e) < 2147483648"

definition apart_from :: "BMFSEntry \<Rightarrow> BMFSEntry \<Rightarrow> bool" where
  "apart_from e f \<longleftrightarrow> (end_block e \<le> first_block f \<or> end_block f \<le> first_block e) \<and> name_of e \<noteq> name_of f"

text \<open>The first \<open>n\<close> entries are in use or deleted; the files are in the disk and do not meet.\<close>

definition fs_ok :: "bmfs \<Rightarrow> nat \<Rightarrow> bool" where
  "fs_ok s n \<longleftrightarrow> n \<le> 64 \<and> 2 \<le> num_blocks s \<and> (\<forall>i < n. mark (ent s i) \<noteq> 0) \<and> (n < 64 \<longrightarrow> mark (ent s n) = 0) \<and>
     (\<forall>i < n. is_file (ent s i) \<longrightarrow> entry_fits (num_blocks s) (ent s i)) \<and>
     (\<forall>i < n. \<forall>j < n. i \<noteq> j \<longrightarrow> is_file (ent s i) \<longrightarrow> is_file (ent s j) \<longrightarrow> apart_from (ent s i) (ent s j))"

definition used_by :: "bmfs \<Rightarrow> nat \<Rightarrow> nat set" where
  "used_by s n = {i. i < n \<and> is_file (ent s i)}"

text \<open>The abstraction: the blocks and the contents that belong to a name.\<close>

definition content :: "bmfs \<Rightarrow> BMFSEntry \<Rightarrow> nat \<times> u8 list" where
  "content s e = (unat (ReservedBlocks e), bytes (disk_b s) (first_block e * BLOCK) (unat (FileSize e)))"

definition files_of :: "bmfs \<Rightarrow> u8 list \<rightharpoonup> nat \<times> u8 list" where
  "files_of s n = (if 0 \<in> set n then None else
     case findfile n s of Some (Some (e, i)) \<Rightarrow> Some (content s e) | _ \<Rightarrow> None)"

lemma fs_okD:
  assumes "fs_ok s n"
  shows "n \<le> 64" "2 \<le> num_blocks s" "i < n \<Longrightarrow> mark (ent s i) \<noteq> 0" "n < 64 \<Longrightarrow> mark (ent s n) = 0"
    and "i \<in> used_by s n \<Longrightarrow> entry_fits (num_blocks s) (ent s i)"
    and "i \<in> used_by s n \<Longrightarrow> j \<in> used_by s n \<Longrightarrow> i \<noteq> j \<Longrightarrow> apart_from (ent s i) (ent s j)"
  using assms by (auto simp: fs_ok_def used_by_def)

lemma name_no_0: "0 \<notin> set (name_of e)"
  unfolding name_of_def using set_takeWhileD by fastforce

lemma findLoop_spec:
  assumes ok: "fs_ok s n" and z: "0 \<notin> set nm"
  shows "t \<le> n \<Longrightarrow> (\<forall>i \<in> used_by s n. i < t \<longrightarrow> name_of (ent s i) \<noteq> nm) \<Longrightarrow>
    (\<exists>i \<in> used_by s n. name_of (ent s i) = nm \<and> findLoop nm (Directory s) t = Some (Some (ent s i, i))) \<or>
    (\<forall>i \<in> used_by s n. name_of (ent s i) \<noteq> nm) \<and> findLoop nm (Directory s) t = Some None"
proof (induction "64 - t" arbitrary: t)
  case 0
  then have "t = n" "n = 64" using fs_okD(1) [OF ok] by auto
  then show ?case using 0(3) by (auto simp: findLoop.simps used_by_def)
next
  case (Suc k)
  then have t: "t < 64" by simp
  show ?case
  proof (cases "t = n")
    case True
    then have "findLoop nm (Directory s) t = Some None" using fs_okD(4) [OF ok] t by (simp add: findLoop.simps [of nm _ n])
    then show ?thesis using Suc.prems(2) True by (auto simp: used_by_def)
  next
    case False
    then have tn: "t < n" using Suc.prems(1) by simp
    have m: "mark (ent s t) \<noteq> 0" using fs_okD(3) [OF ok tn] .
    show ?thesis
    proof (cases "mark (ent s t) = 1")
      case True
      then have "findLoop nm (Directory s) t = findLoop nm (Directory s) (t + 1)" using t by (simp add: findLoop.simps [of nm _ t])
      moreover have "\<forall>i \<in> used_by s n. i < t + 1 \<longrightarrow> name_of (ent s i) \<noteq> nm"
        using Suc.prems(2) True by (auto simp: less_Suc_eq used_by_def is_file_def)
      ultimately show ?thesis using Suc.hyps(1) [of "t + 1"] Suc.hyps(2) tn by simp
    next
      case False
      then have u: "t \<in> used_by s n" using m tn by (simp add: used_by_def is_file_def)
      then have f: "strcmp_b nm (entry_bytes (ent s t)) = Some (nm = name_of (ent s t))"
        using fs_okD(5) [OF ok u] by (intro strcmp_name [OF _ z]) (simp add: entry_fits_def)
      show ?thesis
      proof (cases "nm = name_of (ent s t)")
        case True
        then show ?thesis using t m False f u by (intro disjI1 bexI [of _ t]) (simp_all add: findLoop.simps [of _ _ t])
      next
        case ne: False
        then have "findLoop nm (Directory s) t = findLoop nm (Directory s) (t + 1)"
          using t m False f by (simp add: findLoop.simps [of nm _ t])
        moreover have "\<forall>i \<in> used_by s n. i < t + 1 \<longrightarrow> name_of (ent s i) \<noteq> nm" using Suc.prems(2) ne by (auto simp: less_Suc_eq)
        ultimately show ?thesis using Suc.hyps(1) [of "t + 1"] Suc.hyps(2) tn by simp
      qed
    qed
  qed
qed

lemma findfile_cases:
  assumes "fs_ok s n" "0 \<notin> set nm"
  obtains (found) i where "i \<in> used_by s n" "name_of (ent s i) = nm" "findfile nm s = Some (Some (ent s i, i))"
  | (missing) "\<forall>i \<in> used_by s n. name_of (ent s i) \<noteq> nm" "findfile nm s = Some None"
  using findLoop_spec [OF assms, of 0] by (auto simp: findfile_def)

lemma findfile_used:
  assumes ok: "fs_ok s n" and i: "i \<in> used_by s n" shows "findfile (name_of (ent s i)) s = Some (Some (ent s i, i))"
proof (rule findfile_cases [OF ok name_no_0, of "ent s i"])
  fix j
  assume j: "j \<in> used_by s n" "name_of (ent s j) = name_of (ent s i)" "findfile (name_of (ent s i)) s = Some (Some (ent s j, j))"
  then have "j = i" using fs_okD(6) [OF ok j(1) i] by (auto simp: apart_from_def)
  with j show ?thesis by simp
qed (use i in auto)

lemma files_used: "fs_ok s n \<Longrightarrow> i \<in> used_by s n \<Longrightarrow> files_of s (name_of (ent s i)) = Some (content s (ent s i))"
  by (simp add: files_of_def name_no_0 findfile_used)

lemma files_cases:
  assumes "fs_ok s n"
  obtains (found) i where "i \<in> used_by s n" "name_of (ent s i) = nm" "files_of s nm = Some (content s (ent s i))"
  | (missing) "\<forall>i \<in> used_by s n. name_of (ent s i) \<noteq> nm" "files_of s nm = None"
proof (cases "0 \<in> set nm")
  case True
  then have "files_of s nm = None" by (simp add: files_of_def)
  moreover have "\<forall>i \<in> used_by s n. name_of (ent s i) \<noteq> nm" using True name_no_0 by metis
  ultimately show ?thesis using missing by blast
next
  case False
  show ?thesis by (rule findfile_cases [OF assms False]) (use False in \<open>auto simp: files_of_def intro: found missing\<close>)
qed

text \<open>An operation that changes one entry changes what belongs to one name.\<close>

lemma files_change:
  assumes ok: "fs_ok s n" and ok': "fs_ok s' n'"
    and same: "\<And>i. i \<noteq> k \<Longrightarrow> i \<in> used_by s' n' \<longleftrightarrow> i \<in> used_by s n"
    and keep: "\<And>i. i \<noteq> k \<Longrightarrow> i \<in> used_by s n \<Longrightarrow> name_of (ent s' i) = name_of (ent s i) \<and> content s' (ent s' i) = content s (ent s i)"
    and old: "if k \<in> used_by s n then name_of (ent s k) = nm else files_of s nm = None"
    and new: "k \<in> used_by s' n' \<Longrightarrow> name_of (ent s' k) = nm"
  shows "files_of s' = (files_of s)(nm := if k \<in> used_by s' n' then Some (content s' (ent s' k)) else None)"
proof
  fix x
  have none: False if i: "i \<noteq> k" "i \<in> used_by s' n'" "name_of (ent s' i) = nm" for i
  proof -
    have i': "i \<in> used_by s n" "name_of (ent s i) = nm" using i same keep by auto
    show False
    proof (cases "k \<in> used_by s n")
      case True
      with old i' fs_okD(6) [OF ok i'(1) True i(1)] show False by (simp add: apart_from_def)
    next
      case False
      with old i' files_used [OF ok i'(1)] show False by simp
    qed
  qed
  show "files_of s' x = ((files_of s)(nm := if k \<in> used_by s' n' then Some (content s' (ent s' k)) else None)) x"
  proof (cases rule: files_cases [OF ok', of x, case_names found missing])
    case (found i)
    show ?thesis
    proof (cases "i = k")
      case True
      then show ?thesis using found new by auto
    next
      case False
      then have "x \<noteq> nm" using none found by auto
      moreover have "files_of s x = Some (content s' (ent s' i))"
        using files_used [OF ok, of i] found False same keep by auto
      ultimately show ?thesis using found by simp
    qed
  next
    case missing
    show ?thesis
    proof (cases "x = nm")
      case True
      then show ?thesis using missing new by auto
    next
      case False
      have "files_of s x = None"
      proof (cases rule: files_cases [OF ok, of x, case_names found missing])
        case (found i)
        then show ?thesis using missing(1) same [of i] keep [of i] old False by (cases "i = k") auto
      qed
      then show ?thesis using False missing(2) by simp
    qed
  qed
qed

section \<open>Deleting, writing and reading\<close>

lemma flush_dir_simps [simp]: "Directory (flush_dir s) = Directory s" "disksize (flush_dir s) = disksize s" "host (flush_dir s) = host s"
  by (simp_all add: flush_dir_def)

lemma num_blocks_less: "num_blocks s < 2147483648"
proof -
  have "unat (disksize s) < 4294967296" using unsigned_less [of "disksize s"] by simp
  then show ?thesis by (simp add: num_blocks_def)
qed

lemma unat_blocks: "unat w < 2147483648 \<Longrightarrow> unat (w * of_nat BLOCK :: u64) = unat w * BLOCK"
  by (simp add: unat_word_ariths)

lemma fits_bounds:
  assumes "fs_ok s n" "i \<in> used_by s n"
  shows "1 \<le> first_block (ent s i)" "unat (ReservedBlocks (ent s i)) < 2147483648" "first_block (ent s i) < 2147483648"
    "unat (FileSize (ent s i)) < 2147483648" "unat (FileSize (ent s i)) \<le> unat (ReservedBlocks (ent s i)) * BLOCK"
    "0 \<in> set (FileName (ent s i))"
  using fs_okD(5) [OF assms] num_blocks_less [of s] unfolding entry_fits_def by linarith+

text \<open>What is written elsewhere on the disk leaves a file alone.\<close>

lemma content_wr:
  assumes "q + length bs \<le> first_block e * BLOCK \<or> (first_block e + unat (ReservedBlocks e)) * BLOCK \<le> q"
    and "unat (FileSize e) \<le> unat (ReservedBlocks e) * BLOCK"
  shows "content (s\<lparr>disk_b := wr (disk_b s) q bs\<rparr>) e = content s e"
proof -
  have "q + length bs \<le> first_block e * BLOCK \<or> first_block e * BLOCK + unat (FileSize e) \<le> q"
    using assms by (auto simp: algebra_simps)
  then show ?thesis by (simp add: content_def bytes_outside)
qed

lemma content_flush: "1 \<le> first_block e \<Longrightarrow> unat (FileSize e) \<le> unat (ReservedBlocks e) * BLOCK \<Longrightarrow> content (flush_dir s) e = content s e"
  unfolding flush_dir_def by (rule content_wr) auto

lemma content_dir [simp]: "content (s\<lparr>Directory := d\<rparr>) e = content s e"
  by (simp add: content_def)

text \<open>Changing a byte or more inside one entry.\<close>

lemma ent_other: "k * 64 \<le> q \<Longrightarrow> q + length bs \<le> k * 64 + 64 \<Longrightarrow> i \<noteq> k \<Longrightarrow> entry_at (wr m q bs) (i * 64) = entry_at m (i * 64)"
  by (rule entry_outside) (cases "i < k"; auto dest: Suc_leI)

text \<open>The entry \<open>k\<close> changes: one of the first \<open>n\<close>, or the next one.\<close>

lemma fs_ok_entry:
  assumes ok: "fs_ok s n" and k: "k < n \<and> n' = n \<or> k = n \<and> n < 64 \<and> n' = n + 1" and d: "disksize s' = disksize s"
    and o: "\<And>i. i \<noteq> k \<Longrightarrow> i < n \<Longrightarrow> ent s' i = ent s i" and e: "n' < 64 \<Longrightarrow> mark (ent s' n') = 0" and m: "mark (ent s' k) \<noteq> 0"
    and f: "is_file (ent s' k) \<Longrightarrow> entry_fits (num_blocks s) (ent s' k)"
    and c: "\<And>i. is_file (ent s' k) \<Longrightarrow> i \<in> used_by s n \<Longrightarrow> i \<noteq> k \<Longrightarrow> apart_from (ent s' k) (ent s i)"
  shows "fs_ok s' n'" and "used_by s' n' = used_by s n - {k} \<union> (if is_file (ent s' k) then {k} else {})"
proof -
  have i: "i = k \<or> i < n \<and> i \<noteq> k \<and> ent s' i = ent s i" if "i < n'" for i using that k o [of i] by auto
  show "used_by s' n' = used_by s n - {k} \<union> (if is_file (ent s' k) then {k} else {})"
  proof (rule set_eqI)
    fix x
    show "x \<in> used_by s' n' \<longleftrightarrow> x \<in> used_by s n - {k} \<union> (if is_file (ent s' k) then {k} else {})"
      by (cases "x = k") (use k o in \<open>auto simp: used_by_def\<close>)
  qed
  have nb: "num_blocks s' = num_blocks s" by (simp add: num_blocks_def d)
  have cl: "apart_from (ent s' i) (ent s' j)" if h: "i < n'" "j < n'" "i \<noteq> j" "is_file (ent s' i)" "is_file (ent s' j)" for i j
  proof -
    have sym: "apart_from a b \<Longrightarrow> apart_from b a" for a b by (auto simp: apart_from_def)
    consider "i = k" "j < n" "j \<noteq> k" "ent s' j = ent s j" | "j = k" "i < n" "i \<noteq> k" "ent s' i = ent s i"
      | "i < n" "j < n" "ent s' i = ent s i" "ent s' j = ent s j" using i [OF h(1)] i [OF h(2)] h(3) by auto
    then show ?thesis
    proof cases
      case 1
      then show ?thesis using c [of j] h by (simp add: used_by_def)
    next
      case 2
      then show ?thesis using c [of i] h sym by (simp add: used_by_def)
    next
      case 3
      then show ?thesis using fs_okD(6) [OF ok, of i j] h by (simp add: used_by_def)
    qed
  qed
  have ft: "entry_fits (num_blocks s') (ent s' i)" if "i < n'" "is_file (ent s' i)" for i
    using i [OF that(1)] that(2) f fs_okD(5) [OF ok, of i] nb by (auto simp: used_by_def)
  have mk: "mark (ent s' i) \<noteq> 0" if "i < n'" for i using i [OF that] m fs_okD(3) [OF ok, of i] by auto
  have "n' \<le> 64" "2 \<le> num_blocks s'" using k fs_okD(1,2) [OF ok] nb by auto
  then show "fs_ok s' n'" using cl ft mk e unfolding fs_ok_def by blast
qed

lemma delete_spec:
  assumes ok: "fs_ok s n" and z: "0 \<notin> set nm"
  shows "\<exists>s'. delete_b nm s = Some (if nm \<in> dom (files_of s) then Complete else Not_found, s') \<and> fs_ok s' n \<and>
    files_of s' = (files_of s)(nm := None) \<and> host s' = host s"
proof (cases rule: findfile_cases [OF ok z, case_names found missing])
  case (found i)
  define s' where "s' = flush_dir (s\<lparr>Directory := (Directory s)(i * 64 := 1)\<rparr>)"
  have i: "i < n" using found(1) by (simp add: used_by_def)
  have dir: "Directory s' = wr (Directory s) (i * 64) [1]" by (simp add: s'_def)
  have o: "ent s' j = ent s j" if "j \<noteq> i" for j unfolding dir by (rule ent_other [OF _ _ that]) simp_all
  have m: "mark (ent s' i) = 1" by (simp add: s'_def mark_at)
  then have nf: "\<not> is_file (ent s' i)" by (simp add: is_file_def)
  have "n < 64 \<Longrightarrow> mark (ent s' n) = 0" using o [of n] fs_okD(4) [OF ok] i by simp
  note d = fs_ok_entry [OF ok, of i n s', OF _ _ o this]
  have d': "fs_ok s' n" "used_by s' n = used_by s n - {i}" using d i m nf by (simp_all add: s'_def)
  have c: "content s' (ent s j) = content s (ent s j)" if "j \<in> used_by s n" for j
    using fits_bounds [OF ok that] by (simp add: s'_def content_flush)
  have "files_of s' = (files_of s)(nm := if i \<in> used_by s' n then Some (content s' (ent s' i)) else None)"
    by (rule files_change [OF ok d'(1)]) (use d'(2) o c found in auto)
  moreover have "files_of s nm = Some (content s (ent s i))" using files_used [OF ok found(1)] found(2) by simp
  moreover have "delete_b nm s = Some (Complete, s')" using found(3) by (simp add: delete_b_def s'_def)
  ultimately show ?thesis using d' by (intro exI [of _ s']) (auto simp: s'_def)
next
  case missing
  then have "files_of s nm = None" by (simp add: files_of_def)
  with missing ok show ?thesis by (intro exI [of _ s]) (auto simp: delete_b_def)
qed

lemma ent_size: "entry_at (wr m (k * 64 + 48) (le64 v)) (k * 64) = (entry_at m (k * 64))\<lparr>FileSize := v\<rparr>"
  by (simp add: entry_at_def rd_le64_outside bytes_outside)

lemma write_spec:
  assumes ok: "fs_ok s n" and f: "files_of s nm = Some (r, c)" and h: "host s nm = Some t" "length t < 2147483648"
  shows "if length t \<le> r * BLOCK
    then \<exists>s'. write_b nm s = Some (Complete, s') \<and> fs_ok s' n \<and> files_of s' = (files_of s)(nm \<mapsto> (r, t)) \<and> host s' = host s
    else write_b nm s = Some (Not_enough, s)"
proof (cases rule: files_cases [OF ok, of nm, case_names found missing])
  case (found i)
  note fb = fits_bounds [OF ok found(1)] and ff = findfile_used [OF ok found(1), unfolded found(2)]
  have r: "r = unat (ReservedBlocks (ent s i))" using found(3) f by (simp add: content_def)
  note bl = unat_blocks [OF fb(2)] unat_blocks [OF fb(3)]
  show ?thesis
  proof (cases "length t \<le> r * BLOCK")
    case False
    then show ?thesis using ff h bl r by (simp add: write_b_def)
  next
    case True
    define u where "u = s\<lparr>disk_b := wr (disk_b s) (first_block (ent s i) * BLOCK) t,
      Directory := wr (Directory s) (i * 64 + 48) (le64 (of_nat (length t)))\<rparr>"
    define s' where "s' = flush_dir u"
    have i: "i < n" "is_file (ent s i)" using found(1) by (auto simp: used_by_def)
    have dir: "Directory s' = wr (Directory s) (i * 64 + 48) (le64 (of_nat (length t)))" by (simp add: s'_def u_def)
    have o: "ent s' j = ent s j" if "j \<noteq> i" for j unfolding dir by (rule ent_other [OF _ _ that]) simp_all
    have len: "unat (of_nat (length t) :: u64) = length t" using h(2) by (simp add: unsigned_of_nat take_bit_nat_eq_self)
    have e: "ent s' i = (ent s i)\<lparr>FileSize := of_nat (length t)\<rparr>" by (simp add: s'_def u_def ent_size)
    then have ei: "is_file (ent s' i)" "name_of (ent s' i) = nm" "first_block (ent s' i) = first_block (ent s i)"
      "ReservedBlocks (ent s' i) = ReservedBlocks (ent s i)" "unat (FileSize (ent s' i)) = length t" "mark (ent s' i) \<noteq> 0"
      using i(2) found(2) len by (simp_all add: is_file_def mark_def name_of_def)
    have n: "mark (ent s' n) = 0" if "n < 64" using o [of n] fs_okD(4) [OF ok that] i(1) by simp
    have fit: "entry_fits (num_blocks s) (ent s' i)"
      using fs_okD(5) [OF ok found(1)] True h(2) r e len by (simp add: entry_fits_def)
    have cl: "apart_from (ent s' i) (ent s j)" if "j \<in> used_by s n" "j \<noteq> i" for j
      using fs_okD(6) [OF ok found(1) that(1)] that(2) e by (simp add: apart_from_def name_of_def)
    have d: "fs_ok s' n" "used_by s' n = used_by s n - {i} \<union> {i}"
      using fs_ok_entry [OF ok, of i n s'] i(1) o n ei(1,6) fit cl by (auto simp: s'_def u_def)
    have c: "content s' (ent s' j) = content s (ent s j)" if j: "j \<noteq> i" "j \<in> used_by s n" for j
    proof -
      note fj = fits_bounds [OF ok j(2)]
      have "end_block (ent s i) \<le> first_block (ent s j) \<or> end_block (ent s j) \<le> first_block (ent s i)"
        using fs_okD(6) [OF ok found(1) j(2)] j(1) by (auto simp: apart_from_def)
      then have "end_block (ent s i) * BLOCK \<le> first_block (ent s j) * BLOCK \<or> end_block (ent s j) * BLOCK \<le> first_block (ent s i) * BLOCK"
        by auto
      then have "first_block (ent s i) * BLOCK + length t \<le> first_block (ent s j) * BLOCK \<or>
          end_block (ent s j) * BLOCK \<le> first_block (ent s i) * BLOCK" using True r by (auto simp: algebra_simps)
      then have "content u (ent s j) = content s (ent s j)" using content_wr fj(5) by (auto simp: u_def)
      then show ?thesis using o [OF j(1)] fj content_flush [of "ent s j" u] by (simp add: s'_def)
    qed
    have "content s' (ent s' i) = (r, t)"
    proof -
      have "content s' (ent s' i) = content u (ent s' i)" using ei(3,4,5) fb(1) True r by (simp add: s'_def content_flush)
      then show ?thesis using ei(3,4,5) r by (simp add: content_def u_def bytes_wr_eq)
    qed
    moreover have "files_of s' = (files_of s)(nm := if i \<in> used_by s' n then Some (content s' (ent s' i)) else None)"
      by (rule files_change [OF ok d(1)]) (use d(2) o c found ei in auto)
    moreover have "write_b nm s = Some (Complete, s')"
      using ff h True bl r by (simp add: write_b_def s'_def u_def)
    ultimately show ?thesis using True d by (auto simp: s'_def u_def)
  qed
qed (use f in simp)

lemma read_spec:
  assumes ok: "fs_ok s n" and f: "files_of s nm = Some (r, c)"
    and "num_blocks s * BLOCK \<le> len"
  shows "read_b len nm s = Some (Complete, s\<lparr>host := (host s)(nm \<mapsto> c)\<rparr>)"
proof (cases rule: files_cases [OF ok, of nm, case_names found missing])
  case (found i)
  have "takeWhile (\<lambda>c. c \<noteq> 0) (entry_bytes (ent s i)) = name_of (ent s i)"
    using fits_bounds(6) [OF ok found(1)] by (simp add: entry_bytes_def name_of_def takeWhile_append1 [of 0])
  moreover note fb = fits_bounds [OF ok found(1)]
  have "end_block (ent s i) * BLOCK \<le> num_blocks s * BLOCK"
    using fs_okD(5) [OF ok found(1)] by (intro mult_le_mono1) (auto simp: entry_fits_def)
  then have "first_block (ent s i) * BLOCK + unat (FileSize (ent s i)) \<le> len" using fb assms(3) by (simp add: algebra_simps)
  then have "bytes (getc_b len s) (first_block (ent s i) * BLOCK) (unat (FileSize (ent s i))) =
      bytes (disk_b s) (first_block (ent s i) * BLOCK) (unat (FileSize (ent s i)))"
    by (intro bytes_cong) (simp add: getc_b_def)
  ultimately show ?thesis
    using findfile_used [OF ok found(1)] found f fb unat_blocks [of "StartingBlock (ent s i)"]
    by (simp add: read_b_def content_def)
qed (use f in simp)
end
