(* ===== verification/BMFS_Alloc.thy ===== *)
theory BMFS_Alloc
  imports BMFS_Rep "HOL-Library.Multiset"
begin

text \<open>
  \<open>create\<close> of the BMFS tool: what it relies on of the host's \<open>qsort\<close>, the directory sorted by blocks, the
  search for the first free blocks, and the new entry.
\<close>

section \<open>The host's sort\<close>

text \<open>
  What is asked of a comparison, for the elements of an array two by two and three by three, and what
  \<open>qsort\<close> promises then. The C standard asks for a total order, so that an element must compare equal to itself, too.
  That is left out here: \<open>StartingBlockCmp\<close> gives 1 for a deleted entry and itself. The promise is thus one for a sort that
  never compares an element with itself, as a merge sort or an insertion sort; without a deleted entry it is the standard's.
\<close>

definition consistent :: "('a \<Rightarrow> 'a \<Rightarrow> int) \<Rightarrow> 'a list \<Rightarrow> bool" where
  "consistent cmp xs \<longleftrightarrow>
     (\<forall>a b. {#a, b#} \<subseteq># mset xs \<longrightarrow> sgn (cmp a b) = - sgn (cmp b a)) \<and>
     (\<forall>a b c. {#a, b, c#} \<subseteq># mset xs \<longrightarrow> cmp a b \<le> 0 \<longrightarrow> cmp b c \<le> 0 \<longrightarrow> cmp a c \<le> 0)"

definition qsort_ok :: "qsort \<Rightarrow> bool" where
  "qsort_ok qs \<longleftrightarrow> (\<forall>cmp xs. consistent cmp xs \<longrightarrow> mset (qs cmp xs) = mset xs \<and> sorted_wrt (\<lambda>a b. cmp a b \<le> 0) (qs cmp xs))"

text \<open>An insertion sort is one.\<close>

fun put_in :: "('a \<Rightarrow> 'a \<Rightarrow> int) \<Rightarrow> 'a \<Rightarrow> 'a list \<Rightarrow> 'a list" where
  "put_in cmp x [] = [x]"
| "put_in cmp x (y # ys) = (if cmp x y \<le> 0 then x # y # ys else y # put_in cmp x ys)"

fun ins_sort :: "('a \<Rightarrow> 'a \<Rightarrow> int) \<Rightarrow> 'a list \<Rightarrow> 'a list" where
  "ins_sort cmp [] = []"
| "ins_sort cmp (x # xs) = put_in cmp x (ins_sort cmp xs)"

lemma mset_put_in [simp]: "mset (put_in cmp x ys) = add_mset x (mset ys)"
  by (induction ys) auto

lemma mset_ins_sort [simp]: "mset (ins_sort cmp xs) = mset xs"
  by (induction xs) auto

lemma set_put_in [simp]: "set (put_in cmp x ys) = insert x (set ys)"
  by (induction ys) auto

lemma consistent_sub: "consistent cmp xs \<Longrightarrow> mset ys \<subseteq># mset xs \<Longrightarrow> consistent cmp ys"
  unfolding consistent_def using subset_mset.order_trans by blast

lemma pair_in: "b \<in> set xs \<Longrightarrow> {#a, b#} \<subseteq># mset (a # xs)"
  by simp

lemma triple_in: "c \<in> set xs \<Longrightarrow> {#a, b, c#} \<subseteq># mset (a # b # xs)"
  by simp

lemma put_in_sorted:
  "consistent cmp (x # ys) \<Longrightarrow> sorted_wrt (\<lambda>a b. cmp a b \<le> 0) ys \<Longrightarrow> sorted_wrt (\<lambda>a b. cmp a b \<le> 0) (put_in cmp x ys)"
proof (induction ys)
  case (Cons y ys)
  have sub: "consistent cmp (x # ys)" by (rule consistent_sub [OF Cons.prems(1)]) (simp add: subset_mset.le_add_same_cancel1)
  show ?case
  proof (cases "cmp x y \<le> 0")
    case True
    have "cmp x z \<le> 0" if "z \<in> set ys" for z
    proof -
      have "cmp y z \<le> 0" using Cons.prems(2) that by simp
      with Cons.prems(1) True triple_in [OF that, of x y] show ?thesis unfolding consistent_def by blast
    qed
    with True Cons.prems(2) show ?thesis by simp
  next
    case False
    have "{#x, y#} \<subseteq># mset (x # y # ys)" by simp
    then have "sgn (cmp x y) = - sgn (cmp y x)" using Cons.prems(1) unfolding consistent_def by blast
    then have "cmp y x \<le> 0" using False by (auto simp: sgn_if split: if_splits)
    with False Cons.IH [OF sub] Cons.prems(2) show ?thesis by simp
  qed
qed simp

lemma ins_sort_ok: "qsort_ok ins_sort"
proof -
  have "sorted_wrt (\<lambda>a b. cmp a b \<le> 0) (ins_sort cmp xs)" if "consistent cmp xs" for cmp and xs :: "BMFSEntry list"
    using that
  proof (induction xs)
    case (Cons x xs)
    have "consistent cmp xs" by (rule consistent_sub [OF Cons.prems]) simp
    moreover have "consistent cmp (x # ins_sort cmp xs)" by (rule consistent_sub [OF Cons.prems]) simp
    ultimately show ?case using Cons.IH put_in_sorted by simp
  qed simp
  then show ?thesis by (simp add: qsort_ok_def)
qed

section \<open>Free blocks\<close>

text \<open>The files from block \<open>p\<close> on, in the order of their blocks.\<close>

fun in_order :: "nat \<Rightarrow> nat \<Rightarrow> BMFSEntry list \<Rightarrow> bool" where
  "in_order N p [] \<longleftrightarrow> p \<le> N - 1"
| "in_order N p (e # es) \<longleftrightarrow> p \<le> first_block e \<and> in_order N (end_block e) es"

text \<open>First fit, as a specification.\<close>

fun first_gap :: "nat \<Rightarrow> nat \<Rightarrow> nat \<Rightarrow> BMFSEntry list \<Rightarrow> nat option" where
  "first_gap N r p [] = (if p + r \<le> N - 1 then Some p else None)"
| "first_gap N r p (e # es) = (if p + r \<le> first_block e then Some p else first_gap N r (end_block e) es)"

text \<open>The blocks from \<open>q\<close> on are free.\<close>

definition free_at :: "nat \<Rightarrow> BMFSEntry set \<Rightarrow> nat \<Rightarrow> nat \<Rightarrow> bool" where
  "free_at N E r q \<longleftrightarrow> 1 \<le> q \<and> q + r \<le> N - 1 \<and> (\<forall>e \<in> E. end_block e \<le> q \<or> q + r \<le> first_block e)"

lemma in_order_ge: "in_order N p es \<Longrightarrow> e \<in> set es \<Longrightarrow> p \<le> first_block e"
  by (induction es arbitrary: p) fastforce+

lemma in_order_le: "in_order N p es \<Longrightarrow> p \<le> N - 1"
  by (induction es arbitrary: p) fastforce+

lemma first_gap_sound:
  "in_order N p es \<Longrightarrow> first_gap N r p es = Some q \<Longrightarrow> 1 \<le> p \<Longrightarrow> p \<le> q \<and> free_at N (set es) r q"
proof (induction es arbitrary: p)
  case (Cons e es)
  show ?case
  proof (cases "p + r \<le> first_block e")
    case True
    have "q = p" using True Cons.prems(2) by simp
    moreover have "p + r \<le> first_block f" if "f \<in> set es" for f
      using in_order_ge [OF _ that] Cons.prems(1) True by fastforce
    moreover have "end_block e \<le> N - 1" using Cons.prems(1) in_order_le by auto
    ultimately show ?thesis using True Cons.prems(3) by (auto simp: free_at_def)
  next
    case False
    then have "end_block e \<le> q \<and> free_at N (set es) r q" using Cons by auto
    then show ?thesis using Cons.prems by (auto simp: free_at_def)
  qed
qed (auto simp: free_at_def split: if_splits)

lemma first_gap_complete: "first_gap N r p es = None \<Longrightarrow> p \<le> q \<Longrightarrow> free_at N (set es) r q \<Longrightarrow> False"
proof (induction es arbitrary: p)
  case (Cons e es)
  then have p: "\<not> p + r \<le> first_block e" "first_gap N r (end_block e) es = None" by (auto split: if_splits)
  then have "end_block e \<le> q" using Cons.prems(2,3) by (auto simp: free_at_def)
  with Cons.IH [OF p(2)] Cons.prems(3) show ?case by (auto simp: free_at_def)
qed (auto simp: free_at_def split: if_splits)

text \<open>The loop finds it, behind the files, whatever deleted entries follow; without them it finds nothing else.\<close>

lemma gapLoop_first:
  assumes "in_order N p es" "\<forall>e \<in> set es. is_file e" "\<forall>d \<in> set ds. mark d = 1" "2 \<le> N" "N < 2147483648"
    and "unat (nb :: u64) = N" "unat w = p"
  shows "case first_gap N (unat rq) p es of Some q \<Rightarrow> gapLoop nb rq w (es @ ds) = of_nat q
    | None \<Rightarrow> ds = [] \<longrightarrow> gapLoop nb rq w (es @ ds) = 0"
  using assms
proof (induction es arbitrary: p w)
  case Nil
  have nb: "unat (nb - 1) = N - 1" using Nil.prems by (subst unat_minus_one) auto
  then have "w \<le> nb - 1" using Nil.prems by (simp add: word_le_nat_alt)
  then have d: "unat (nb - 1 - w) = N - 1 - p" using nb Nil.prems(7) by (simp add: unat_sub_if' word_le_nat_alt)
  have "nb - 1 - w \<ge> rq \<longleftrightarrow> p + unat rq \<le> N - 1" using d Nil.prems(1) by (auto simp: word_le_nat_alt)
  then show ?case using Nil.prems(3,7) by (cases ds) (auto simp: Let_def)
next
  case (Cons e es)
  have e: "mark e \<noteq> 1" using Cons.prems(2) by (simp add: is_file_def)
  have le: "w \<le> StartingBlock e" using Cons.prems(1,7) by (simp add: word_le_nat_alt)
  then have "unat (StartingBlock e - w) = first_block e - p" using Cons.prems(7) by (simp add: unat_sub_if' word_le_nat_alt)
  then have c: "StartingBlock e - w \<ge> rq \<longleftrightarrow> p + unat rq \<le> first_block e" using Cons.prems(1) by (auto simp: word_le_nat_alt)
  have eb: "end_block e < 2147483648" using Cons.prems(1,5) in_order_le [of N "end_block e" es] by simp
  have u: "unat (StartingBlock e + ReservedBlocks e) = end_block e" using eb by (simp add: unat_plus_if')
  show ?case
  proof (cases "p + unat rq \<le> first_block e")
    case True
    then show ?thesis using c e Cons.prems(7) by (auto simp: Let_def)
  next
    case False
    have g: "gapLoop nb rq w ((e # es) @ ds) = gapLoop nb rq (StartingBlock e + ReservedBlocks e) (es @ ds)"
      using False c e by (simp add: Let_def)
    have f: "first_gap N (unat rq) p (e # es) = first_gap N (unat rq) (end_block e) es" using False by simp
    show ?thesis unfolding g f by (rule Cons.IH) (use Cons.prems u in simp_all)
  qed
qed

section \<open>Sorting the directory\<close>

lemma pair_nth: "{#a, b#} \<subseteq># mset xs \<Longrightarrow> \<exists>i j. i < length xs \<and> j < length xs \<and> i \<noteq> j \<and> xs ! i = a \<and> xs ! j = b"
proof (induction xs)
  case (Cons x xs)
  show ?case
  proof (cases "x = a \<or> x = b")
    case False
    then have "{#a, b#} \<subseteq># mset xs" using Cons.prems by (auto simp: insert_subset_eq_iff)
    from Cons.IH [OF this] obtain i j where "i < length xs" "j < length xs" "i \<noteq> j" "xs ! i = a" "xs ! j = b" by blast
    then show ?thesis by (intro exI [of _ "Suc i"] exI [of _ "Suc j"]) simp
  next
    case True
    then consider "x = a" "b \<in> set xs" | "x = b" "a \<in> set xs" using Cons.prems by (auto simp: insert_subset_eq_iff split: if_splits)
    then show ?thesis
    proof cases
      case 1
      then obtain j where "j < length xs" "xs ! j = b" by (auto simp: in_set_conv_nth)
      with 1 show ?thesis by (intro exI [of _ 0] exI [of _ "Suc j"]) simp
    next
      case 2
      then obtain i where "i < length xs" "xs ! i = a" by (auto simp: in_set_conv_nth)
      with 2 show ?thesis by (intro exI [of _ "Suc i"] exI [of _ 0]) simp
    qed
  qed
qed simp

lemma sorted_wrt_pairs: "(\<And>a b. {#a, b#} \<subseteq># mset xs \<Longrightarrow> Q a b) \<Longrightarrow> sorted_wrt Q xs"
proof (induction xs)
  case (Cons x xs)
  have "Q x y" if "y \<in> set xs" for y by (rule Cons.prems [OF pair_in [OF that]])
  moreover have "sorted_wrt Q xs"
  proof (rule Cons.IH)
    fix a b
    assume "{#a, b#} \<subseteq># mset xs"
    then have "{#a, b#} \<subseteq># mset (x # xs)" using subset_mset.order_trans [of "{#a, b#}" "mset xs" "mset (x # xs)"] by simp
    then show "Q a b" by (rule Cons.prems)
  qed
  ultimately show ?case by simp
qed simp

lemma in_order_sorted:
  assumes "sorted_wrt (\<lambda>a b. first_block a \<le> first_block b) es" "sorted_wrt apart_from es" "\<forall>e \<in> set es. entry_fits N e"
    and "\<forall>e \<in> set es. p \<le> first_block e" "p \<le> N - 1"
  shows "in_order N p es"
  using assms
proof (induction es arbitrary: p)
  case (Cons e es)
  have "end_block e \<le> first_block f" if "f \<in> set es" for f
  proof -
    have "first_block e \<le> first_block f" "apart_from e f" "entry_fits N f" using Cons.prems(1-3) that by auto
    then show ?thesis by (auto simp: apart_from_def entry_fits_def)
  qed
  moreover have "end_block e \<le> N - 1" using Cons.prems(3) by (simp add: entry_fits_def)
  ultimately have "in_order N (end_block e) es" using Cons.prems(1-3) by (intro Cons.IH) auto
  then show ?case using Cons.prems(4) by simp
qed simp

lemma cmp_blocks:
  assumes "mark e \<noteq> 1" "mark f \<noteq> 1" "first_block e < 2147483648" "first_block f < 2147483648"
  shows "StartingBlockCmp e f = int (first_block e) - int (first_block f)"
proof -
  have "uint (StartingBlock e - StartingBlock f) = (uint (StartingBlock e) - uint (StartingBlock f)) mod 2 ^ 64"
    by (simp add: uint_word_ariths)
  then have "s32 (uint (StartingBlock e - StartingBlock f)) = s32 (uint (StartingBlock e) - uint (StartingBlock f))"
    by (simp only: s32_def take_bit_eq_mod [symmetric]) (simp add: signed_take_bit_take_bit)
  also have "uint (StartingBlock e) - uint (StartingBlock f) = int (first_block e) - int (first_block f)" by simp
  also have "s32 \<dots> = int (first_block e) - int (first_block f)" by (rule s32_id) (use assms(3,4) in linarith)+
  finally have "s32 (uint (StartingBlock e - StartingBlock f)) = int (first_block e) - int (first_block f)" .
  then show ?thesis unfolding StartingBlockCmp_def using assms(1,2) by (simp only: if_False)
qed

lemma directory_pair:
  assumes "{#a, b#} \<subseteq># mset (map (ent s) [0..<n])"
  obtains i j where "i < n" "j < n" "i \<noteq> j" "a = ent s i" "b = ent s j"
  using pair_nth [OF assms] by auto

text \<open>At most one entry is deleted: the comparison contradicts itself on two.\<close>

definition one_deleted :: "bmfs \<Rightarrow> nat \<Rightarrow> bool" where
  "one_deleted s n \<longleftrightarrow> (\<forall>i < n. \<forall>j < n. mark (ent s i) = 1 \<longrightarrow> mark (ent s j) = 1 \<longrightarrow> i = j)"

lemma directory_consistent:
  assumes ok: "fs_ok s n" and one: "one_deleted s n" shows "consistent StartingBlockCmp (map (ent s) [0..<n])"
  unfolding consistent_def
proof (intro conjI allI impI)
  have fl: "first_block (ent s i) < 2147483648" if "i < n" "mark (ent s i) \<noteq> 1" for i
    using fits_bounds(3) [OF ok, of i] fs_okD(3) [OF ok that(1)] that by (simp add: used_by_def is_file_def)
  fix a b
  assume "{#a, b#} \<subseteq># mset (map (ent s) [0..<n])"
  then obtain i j where ij: "i < n" "j < n" "i \<noteq> j" "a = ent s i" "b = ent s j" by (rule directory_pair)
  then have "\<not> (mark a = 1 \<and> mark b = 1)" using one by (auto simp: one_deleted_def)
  then consider "mark a = 1" "mark b \<noteq> 1" | "mark b = 1" "mark a \<noteq> 1" | "mark a \<noteq> 1" "mark b \<noteq> 1" by blast
  then show "sgn (StartingBlockCmp a b) = - sgn (StartingBlockCmp b a)"
  proof cases
    case 3
    have "StartingBlockCmp a b = int (first_block a) - int (first_block b)" "StartingBlockCmp b a = int (first_block b) - int (first_block a)"
      using 3 fl ij by (intro cmp_blocks; simp)+
    then show ?thesis by (simp add: sgn_if)
  qed (simp_all add: StartingBlockCmp_def)
next
  have fl: "first_block (ent s i) < 2147483648" if "i < n" "mark (ent s i) \<noteq> 1" for i
    using fits_bounds(3) [OF ok, of i] fs_okD(3) [OF ok that(1)] that by (simp add: used_by_def is_file_def)
  fix a b c
  assume t: "{#a, b, c#} \<subseteq># mset (map (ent s) [0..<n])" and le: "StartingBlockCmp a b \<le> 0" "StartingBlockCmp b c \<le> 0"
  have "{#a, b#} \<subseteq># {#a, b, c#}" "{#b, c#} \<subseteq># {#a, b, c#}" by simp_all
  then have "{#a, b#} \<subseteq># mset (map (ent s) [0..<n])" "{#b, c#} \<subseteq># mset (map (ent s) [0..<n])"
    using t subset_mset.order_trans by blast+
  then obtain i j k where ijk: "i < n" "a = ent s i" "j < n" "b = ent s j" "k < n" "c = ent s k"
    by (elim directory_pair) metis
  have m: "mark a \<noteq> 1" "mark b \<noteq> 1" using le by (auto simp: StartingBlockCmp_def)
  show "StartingBlockCmp a c \<le> 0"
  proof (cases "mark c = 1")
    case False
    have f: "first_block a < 2147483648" "first_block b < 2147483648" "first_block c < 2147483648" using fl ijk m False by auto
    show ?thesis using le cmp_blocks [OF m f(1,2)] cmp_blocks [OF m(2) False f(2,3)] cmp_blocks [OF m(1) False f(1,3)] by simp
  qed (use m in \<open>simp add: StartingBlockCmp_def\<close>)
qed

lemma sorted_directory:
  assumes ok: "fs_ok s n" and one: "one_deleted s n" and q: "qsort_ok qs"
  shows "\<exists>es ds. qs StartingBlockCmp (map (ent s) [0..<n]) = es @ ds \<and> in_order (num_blocks s) 1 es \<and> (\<forall>e \<in> set es. is_file e) \<and>
    set es = ent s ` used_by s n \<and> (\<forall>d \<in> set ds. mark d = 1) \<and> (ds \<noteq> [] \<longrightarrow> (\<exists>i < n. mark (ent s i) = 1))"
proof -
  let ?L = "map (ent s) [0..<n]"
  define r where "r = qs StartingBlockCmp ?L"
  have ms: "mset r = mset ?L" and so: "sorted_wrt (\<lambda>a b. StartingBlockCmp a b \<le> 0) r"
    using q directory_consistent [OF ok one] unfolding qsort_ok_def r_def by blast+
  define es ds where "es = takeWhile is_file r" and "ds = dropWhile is_file r"
  have r: "r = es @ ds" by (simp add: es_def ds_def)
  have set_r: "set r = ent s ` {..<n}" using arg_cong [OF ms, of set_mset] by (auto simp: lessThan_atLeast0)
  have fe: "\<forall>e \<in> set es. is_file e" using set_takeWhileD by (fastforce simp: es_def)
  have dm: "mark d = 1" if "d \<in> set ds" for d
  proof -
    obtain x xs where x: "ds = x # xs" using \<open>d \<in> set ds\<close> by (cases ds) auto
    then have "\<not> is_file x" using hd_dropWhile [of is_file r] by (simp add: ds_def)
    moreover have "x \<in> set r" using r x by simp
    ultimately have m: "mark x = 1" using set_r fs_okD(3) [OF ok] by (auto simp: is_file_def)
    have "StartingBlockCmp x y \<le> 0" if "y \<in> set xs" for y using so r x that by (simp add: sorted_wrt_append)
    then have "xs = []" using m by (cases xs) (auto simp: StartingBlockCmp_def)
    then show ?thesis using that x m by simp
  qed
  have es_used: "set es = ent s ` used_by s n"
  proof
    show "set es \<subseteq> ent s ` used_by s n"
    proof
      fix e
      assume e: "e \<in> set es"
      then have "e \<in> ent s ` {..<n}" using r set_r by (metis Un_iff set_append)
      with e fe show "e \<in> ent s ` used_by s n" by (auto simp: used_by_def)
    qed
    show "ent s ` used_by s n \<subseteq> set es"
    proof
      fix e
      assume "e \<in> ent s ` used_by s n"
      then have "e \<in> set r" "is_file e" using set_r by (auto simp: used_by_def)
      then show "e \<in> set es" using r dm by (auto simp: is_file_def)
    qed
  qed
  have fits: "entry_fits (num_blocks s) e" if "e \<in> set es" for e using that es_used fs_okD(5) [OF ok] by auto
  then have small: "first_block e < 2147483648" "mark e \<noteq> 1" if "e \<in> set es" for e
    using that num_blocks_less [of s] fe by (fastforce simp: entry_fits_def is_file_def)+
  have "sorted_wrt (\<lambda>a b. StartingBlockCmp a b \<le> 0) es" using so r by (simp add: sorted_wrt_append)
  then have "sorted_wrt (\<lambda>a b. first_block a \<le> first_block b) es"
  proof (rule sorted_wrt_mono_rel [rotated])
    fix a b
    assume ab: "a \<in> set es" "b \<in> set es" "StartingBlockCmp a b \<le> 0"
    then show "first_block a \<le> first_block b" using cmp_blocks [of a b] small [of a] small [of b] by linarith
  qed
  moreover have "sorted_wrt apart_from es"
  proof (rule sorted_wrt_pairs)
    fix a b
    assume ab: "{#a, b#} \<subseteq># mset es"
    moreover have "mset es \<subseteq># mset r" using r by simp
    ultimately have "{#a, b#} \<subseteq># mset ?L" unfolding ms [symmetric] by (rule subset_mset.order_trans)
    then obtain i j where ij: "i < n" "j < n" "i \<noteq> j" "a = ent s i" "b = ent s j" by (rule directory_pair)
    moreover have "a \<in> set es" "b \<in> set es" using mset_subset_eqD [OF ab] by auto
    ultimately show "apart_from a b" using fs_okD(6) [OF ok, of i j] fe by (simp add: used_by_def)
  qed
  ultimately have "in_order (num_blocks s) 1 es"
    by (rule in_order_sorted) (use fits fs_okD(2) [OF ok] in \<open>auto simp: entry_fits_def\<close>)
  moreover have "\<exists>i < n. mark (ent s i) = 1" if "ds \<noteq> []"
  proof -
    have "hd ds \<in> set r" "mark (hd ds) = 1" using that r dm by simp_all
    then show ?thesis using set_r by auto
  qed
  ultimately show ?thesis using r fe es_used dm unfolding r_def by blast
qed

section \<open>Creating a file\<close>

lemma countLoop_free:
  assumes ok: "fs_ok s n" and n: "n < 64"
  shows "t \<le> n \<Longrightarrow> \<exists>k. countLoop (Directory s) t f = (n, if f = - 1 then int k else f) \<and> (k < n \<and> mark (ent s k) = 1 \<or> k = n)"
proof (induction "n - t" arbitrary: t f)
  case 0
  then have "t = n" by simp
  then show ?case using fs_okD(4) [OF ok n] n by (intro exI [of _ n]) (simp add: countLoop.simps [of _ n])
next
  case (Suc j)
  then have t: "t < n" by simp
  have c: "countLoop (Directory s) t f = countLoop (Directory s) (t + 1) (if mark (ent s t) = 1 \<and> f = - 1 then int t else f)"
    using fs_okD(3) [OF ok t] t n by (simp add: countLoop.simps [of _ t])
  have "j = n - (t + 1)" "t + 1 \<le> n" using Suc.hyps(2) t by simp_all
  from Suc.hyps(1) [OF this, of "if mark (ent s t) = 1 \<and> f = - 1 then int t else f"] obtain k where
    k: "countLoop (Directory s) (t + 1) (if mark (ent s t) = 1 \<and> f = - 1 then int t else f) =
      (n, if (if mark (ent s t) = 1 \<and> f = - 1 then int t else f) = - 1 then int k else if mark (ent s t) = 1 \<and> f = - 1 then int t else f)"
      "k < n \<and> mark (ent s k) = 1 \<or> k = n" by blast
  show ?case
  proof (cases "mark (ent s t) = 1 \<and> f = - 1")
    case True
    then show ?thesis using c k t by (intro exI [of _ t]) simp
  next
    case False
    then show ?thesis using c k by (intro exI [of _ k]) simp
  qed
qed

lemma addEntry_ent:
  assumes v: "valid_name nm" and k: "k < 64"
  shows "\<exists>d. addEntry nm a b k m = Some d \<and> mark (entry_at d (k * 64)) = hd nm \<and> name_of (entry_at d (k * 64)) = nm \<and>
    0 \<in> set (FileName (entry_at d (k * 64))) \<and> StartingBlock (entry_at d (k * 64)) = a \<and> ReservedBlocks (entry_at d (k * 64)) = b \<and>
    FileSize (entry_at d (k * 64)) = 0 \<and> (\<forall>i. i \<noteq> k \<longrightarrow> entry_at d (i * 64) = entry_at m (i * 64))"
proof -
  have nm: "0 \<notin> set nm" "length nm < 32" "nm \<noteq> []" using v by (auto simp: valid_name_def)
  let ?m = "wr (wr (wr m (k * 64 + 32) (le64 a)) (k * 64 + 40) (le64 b)) (k * 64 + 48) (le64 0)"
  let ?d = "wr ?m (k * 64) (nm @ [0])"
  have "k * 64 + length nm + 1 \<le> 4096" using k nm(2) by simp
  then have add: "addEntry nm a b k m = Some ?d" by (simp add: addEntry_def Let_def)
  have len: "(32 :: nat) = length (nm @ [0]) + (31 - length nm)" using nm(2) by simp
  have "FileName (entry_at ?d (k * 64)) = bytes ?d (k * 64) (length (nm @ [0]) + (31 - length nm))"
    unfolding entry_at_def len [symmetric] by simp
  also have "\<dots> = (nm @ [0]) @ bytes ?d (k * 64 + length (nm @ [0])) (31 - length nm)"
    unfolding bytes_append by (simp only: bytes_wr)
  finally have fn: "FileName (entry_at ?d (k * 64)) = (nm @ [0]) @ bytes ?d (k * 64 + length (nm @ [0])) (31 - length nm)" .
  have "name_of (entry_at ?d (k * 64)) = nm" using nm(1) by (simp add: name_of_def fn takeWhile_append)
  moreover have "mark (entry_at ?d (k * 64)) = hd nm" unfolding mark_def fn using nm(3) by simp
  moreover have "0 \<in> set (FileName (entry_at ?d (k * 64)))" unfolding fn by simp
  moreover have "StartingBlock (entry_at ?d (k * 64)) = a" "ReservedBlocks (entry_at ?d (k * 64)) = b" "FileSize (entry_at ?d (k * 64)) = 0"
    using nm(2) by (simp_all add: entry_at_def rd_le64_outside)
  moreover have "entry_at ?d (i * 64) = entry_at m (i * 64)" if "i \<noteq> k" for i
    using ent_other [OF _ _ that] nm(2) by simp
  ultimately show ?thesis using add by blast
qed

lemma create_new:
  assumes ok: "fs_ok s n" and n: "n < 64" and v: "valid_name nm" and new: "files_of s nm = None"
    and c: "countLoop (Directory s) 0 (- 1) = (n, int k)" "k < n \<and> mark (ent s k) = 1 \<or> k = n"
    and q: "free_at (num_blocks s) (ent s ` used_by s n) r q" and r: "1 \<le> r" "unat rq = r" "unat w = q"
    and d: "addEntry nm w rq k (Directory s) = Some d" "d' = (if k = n \<and> n + 1 < 64 then d((n + 1) * 64 := 0) else d)"
  shows "\<exists>n'. fs_ok (flush_dir (s\<lparr>Directory := d'\<rparr>)) n' \<and> files_of (flush_dir (s\<lparr>Directory := d'\<rparr>)) = (files_of s)(nm \<mapsto> (r, []))"
proof -
  define s' where "s' = flush_dir (s\<lparr>Directory := d'\<rparr>)"
  define n' where "n' = (if k < n then n else n + 1)"
  have k: "k < 64" "k < n \<and> n' = n \<or> k = n \<and> n < 64 \<and> n' = n + 1" using c(2) n by (auto simp: n'_def)
  obtain e where e: "addEntry nm w rq k (Directory s) = Some e" "mark (entry_at e (k * 64)) = hd nm" "name_of (entry_at e (k * 64)) = nm"
    "0 \<in> set (FileName (entry_at e (k * 64)))" "StartingBlock (entry_at e (k * 64)) = w" "ReservedBlocks (entry_at e (k * 64)) = rq"
    "FileSize (entry_at e (k * 64)) = 0" "\<forall>i. i \<noteq> k \<longrightarrow> entry_at e (i * 64) = ent s i"
    using addEntry_ent [OF v k(1), of w rq "Directory s"] by blast
  have ed: "e = d" using e(1) d(1) by simp
  have dir: "Directory s' = d'" by (simp add: s'_def)
  have d'e: "entry_at d' (i * 64) = entry_at d (i * 64)" if "i \<noteq> n + 1 \<or> k \<noteq> n" for i
  proof (cases "k = n \<and> n + 1 < 64")
    case True
    then have i: "i \<noteq> n + 1" using that by simp
    have "d' = wr d ((n + 1) * 64) [0]" using True d(2) by simp
    then show ?thesis using ent_other [OF _ _ i, of "(n + 1) * 64" "[0]" d] by simp
  next
    case False
    then have "d' = d" using d(2) by (simp only: if_False)
    then show ?thesis by simp
  qed
  have o: "ent s' i = ent s i" if "i \<noteq> k" "i < n" for i using d'e [of i] that e(8) ed dir by auto
  have ek: "ent s' k = entry_at d (k * 64)" using d'e [of k] dir by simp
  note ek' = e(2-7) [unfolded ed, folded ek]
  have end_mark: "mark (ent s' n') = 0" if "n' < 64"
  proof (cases "k < n")
    case True
    then show ?thesis using d'e [of n] e(8) ed dir fs_okD(4) [OF ok n] by (simp add: n'_def)
  next
    case False
    then have "d' = d((n + 1) * 64 := 0)" using that c(2) d(2) by (auto simp: n'_def)
    then show ?thesis using False dir by (simp add: n'_def mark_at)
  qed
  have "hd nm \<noteq> 0" "hd nm \<noteq> 1" using v by (cases nm; auto simp: valid_name_def)+
  then have f: "is_file (ent s' k)" using ek'(1) by (simp add: is_file_def)
  have fit: "entry_fits (num_blocks s) (ent s' k)" using ek' q r by (auto simp: entry_fits_def free_at_def)
  have cl: "apart_from (ent s' k) (ent s i)" if "i \<in> used_by s n" "i \<noteq> k" for i
  proof -
    have "name_of (ent s i) \<noteq> nm" using new files_used [OF ok that(1)] by auto
    moreover have "end_block (ent s i) \<le> q \<or> q + r \<le> first_block (ent s i)" using q that(1) by (auto simp: free_at_def)
    ultimately show ?thesis using ek' r by (auto simp: apart_from_def)
  qed
  have kn: "k \<notin> used_by s n" using c(2) by (auto simp: used_by_def is_file_def)
  have ok': "fs_ok s' n'" "used_by s' n' = insert k (used_by s n)"
    using fs_ok_entry [OF ok k(2), of s', OF _ o end_mark] f fit cl ek'(1) kn by (auto simp: s'_def is_file_def)
  have ck: "content s' (ent s' i) = content s (ent s i)" if "i \<noteq> k" "i \<in> used_by s n" for i
    using o [of i] that fits_bounds [OF ok that(2)] by (simp add: s'_def content_flush used_by_def)
  have "content s' (ent s' k) = (r, [])" using ek' r by (simp add: content_def)
  moreover have "files_of s' = (files_of s)(nm := if k \<in> used_by s' n' then Some (content s' (ent s' k)) else None)"
    by (rule files_change [OF ok ok'(1)]) (use ok'(2) kn o ck new ek' in \<open>auto simp: used_by_def\<close>)
  ultimately show ?thesis using ok' by (auto simp: s'_def)
qed

lemma half_up: "unat maxsize < 4294967296 \<Longrightarrow>
  unat ((if maxsize mod 2 \<noteq> 0 then maxsize + 1 else maxsize) div 2 :: u64) = (unat maxsize + 1) div 2"
  by (auto simp: unat_div unat_plus_if' unat_mod word_unat_eq_iff)

text \<open>What \<open>create\<close> does with a new name.\<close>

lemma create_run:
  assumes "findfile nm s = Some None" "countLoop (Directory s) 0 (- 1) = (n, int k)"
  shows "create_b qs nm maxsize s =
    (let rq = (if maxsize mod 2 \<noteq> 0 then maxsize + 1 else maxsize) div 2;
         w = gapLoop (ucast (disksize s div 2)) rq 1 (qs StartingBlockCmp (map (ent s) [0..<n])) in
      if w = 0 then Some (No_room, s)
      else do { dir \<leftarrow> addEntry nm w rq k (Directory s);
        let dir = (if k = n \<and> n + 1 < 64 then dir((n + 1) * 64 := 0) else dir);
        Some (Complete, flush_dir (s\<lparr>Directory := dir\<rparr>)) })"
  unfolding create_b_def Let_def assms by simp

lemma unat_num_blocks: "unat (ucast (disksize s div 2) :: u64) = num_blocks s"
  using num_blocks_less [of s] by (simp add: num_blocks_def unat_div unsigned_ucast_eq take_bit_nat_eq_self)

lemma missing_findfile:
  assumes "fs_ok s n" "valid_name nm" "files_of s nm = None" shows "findfile nm s = Some None"
  by (rule findfile_cases [OF assms(1), of nm]) (use assms(2,3) in \<open>auto simp: valid_name_def files_of_def\<close>)

lemma create_spec:
  assumes ok: "fs_ok s n" and n: "n < 64" and one: "one_deleted s n" and qs: "qsort_ok qs" and v: "valid_name nm"
    and new: "files_of s nm = None" and sz: "1 \<le> unat maxsize" "unat maxsize < 4294967296" and r: "r = (unat maxsize + 1) div 2"
  shows "if \<exists>q. free_at (num_blocks s) (ent s ` used_by s n) r q
    then \<exists>s' n'. create_b qs nm maxsize s = Some (Complete, s') \<and> fs_ok s' n' \<and> files_of s' = (files_of s)(nm \<mapsto> (r, [])) \<and> host s' = host s
    else (\<forall>i < n. mark (ent s i) \<noteq> 1) \<longrightarrow> create_b qs nm maxsize s = Some (No_room, s)"
proof -
  define rq where "rq = (if maxsize mod 2 \<noteq> 0 then maxsize + 1 else maxsize) div 2"
  have rq: "unat rq = r" "1 \<le> r" using half_up [OF sz(2)] sz(1) by (simp_all add: rq_def r)
  define nb where "nb = (ucast (disksize s div 2) :: u64)"
  have nb: "unat nb = num_blocks s" by (simp add: nb_def unat_num_blocks)
  obtain k where k: "countLoop (Directory s) 0 (- 1) = (n, int k)" "k < n \<and> mark (ent s k) = 1 \<or> k = n"
    using countLoop_free [OF ok n, of 0 "- 1"] by auto
  obtain es ds where e: "qs StartingBlockCmp (map (ent s) [0..<n]) = es @ ds" "in_order (num_blocks s) 1 es" "\<forall>e \<in> set es. is_file e"
    "set es = ent s ` used_by s n" "\<forall>d \<in> set ds. mark d = 1" "ds \<noteq> [] \<longrightarrow> (\<exists>i < n. mark (ent s i) = 1)"
    using sorted_directory [OF ok one qs] by blast
  note g = gapLoop_first [OF e(2,3,5) fs_okD(2) [OF ok] num_blocks_less nb unat_1, of rq, unfolded rq]
  have run: "create_b qs nm maxsize s = (let w = gapLoop nb rq 1 (es @ ds) in
      if w = 0 then Some (No_room, s)
      else do { dir \<leftarrow> addEntry nm w rq k (Directory s);
        let dir = (if k = n \<and> n + 1 < 64 then dir((n + 1) * 64 := 0) else dir);
        Some (Complete, flush_dir (s\<lparr>Directory := dir\<rparr>)) })"
    using create_run [OF missing_findfile [OF ok v new] k(1), of qs maxsize] unfolding rq_def nb_def e(1) by (simp add: Let_def)
  show ?thesis
  proof (cases "first_gap (num_blocks s) r 1 es")
    case None
    have "\<not> free_at (num_blocks s) (ent s ` used_by s n) r q" for q
      using first_gap_complete [OF None, of q] e(4) by (auto simp: free_at_def)
    moreover have "gapLoop nb rq 1 (es @ ds) = 0" if "\<forall>i < n. mark (ent s i) \<noteq> 1" using g None that e(6) by auto
    ultimately show ?thesis using run by simp
  next
    case (Some q)
    have q: "free_at (num_blocks s) (ent s ` used_by s n) r q" using first_gap_sound [OF e(2) Some] e(4) by simp
    have w: "gapLoop nb rq 1 (es @ ds) = of_nat q" using g Some by simp
    have "q < 2147483648" "1 \<le> q" using q num_blocks_less [of s] by (auto simp: free_at_def)
    then have uq: "unat (of_nat q :: u64) = q" "(of_nat q :: u64) \<noteq> 0" by (auto simp: unsigned_of_nat take_bit_nat_eq_self word_unat_eq_iff)
    have "k < 64" using k(2) n by auto
    then obtain d where d: "addEntry nm (of_nat q) rq k (Directory s) = Some d" using addEntry_ent [OF v] by blast
    from create_new [OF ok n v new k q rq(2,1) uq(1) d refl] run w uq(2) d q show ?thesis by auto
  qed
qed

text \<open>Nothing is free, and the last block that the loop looks behind is that of a deleted entry.\<close>

lemma gapLoop_deleted:
  assumes "in_order N p es" "\<forall>e \<in> set es. is_file e" "mark d = 1" "2 \<le> N" "N < 2147483648"
    and "unat (nb :: u64) = N" "unat w = p" "first_gap N (unat rq) p es = None"
    and "end_block d + unat rq \<le> N - 1"
  shows "gapLoop nb rq w (es @ [d]) = StartingBlock d + ReservedBlocks d"
  using assms
proof (induction es arbitrary: p w)
  case Nil
  have nb: "unat (nb - 1) = N - 1" using Nil.prems by (subst unat_minus_one) auto
  have d: "unat (nb - 1 - w) = N - 1 - p" using nb Nil.prems(1,7) by (simp add: unat_sub_if')
  have "\<not> nb - 1 - w \<ge> rq" using d Nil.prems(1,8) by (auto simp: word_le_nat_alt split: if_splits)
  moreover have "end_block d < 2147483648" using Nil.prems(5,9) by linarith
  then have u: "unat (StartingBlock d + ReservedBlocks d) = end_block d" by (simp add: unat_plus_if')
  moreover have "unat (nb - 1 - (StartingBlock d + ReservedBlocks d)) = N - 1 - end_block d"
    using nb u Nil.prems(9) by (subst unat_sub_if') simp
  then have "nb - 1 - (StartingBlock d + ReservedBlocks d) \<ge> rq" using Nil.prems(9) by (simp add: word_le_nat_alt)
  ultimately show ?case using Nil.prems(3) by (simp add: Let_def)
next
  case (Cons e es)
  have e: "mark e \<noteq> 1" using Cons.prems(2) by (simp add: is_file_def)
  have "unat (StartingBlock e - w) = first_block e - p" using Cons.prems(1,7) by (simp add: unat_sub_if')
  then have c: "\<not> StartingBlock e - w \<ge> rq" and f: "first_gap N (unat rq) (end_block e) es = None"
    using Cons.prems(1,8) by (auto simp: word_le_nat_alt split: if_splits)
  have eb: "end_block e < 2147483648" using Cons.prems(1,5) in_order_le [of N "end_block e" es] by simp
  have u: "unat (StartingBlock e + ReservedBlocks e) = end_block e" using eb by (simp add: unat_plus_if')
  have g: "gapLoop nb rq w ((e # es) @ [d]) = gapLoop nb rq (StartingBlock e + ReservedBlocks e) (es @ [d])"
    using c e by (simp add: Let_def)
  show ?case unfolding g by (rule Cons.IH) (use Cons.prems u f in simp_all)
qed

text \<open>The sorted directory with one deleted entry.\<close>

lemma sorted_deleted:
  assumes ok: "fs_ok s n" and one: "one_deleted s n" and q: "qsort_ok qs" and i: "i < n" "mark (ent s i) = 1"
  shows "\<exists>es. qs StartingBlockCmp (map (ent s) [0..<n]) = es @ [ent s i] \<and> in_order (num_blocks s) 1 es \<and> (\<forall>e \<in> set es. is_file e) \<and>
    set es = ent s ` used_by s n"
proof -
  let ?r = "qs StartingBlockCmp (map (ent s) [0..<n])"
  obtain es ds where e: "?r = es @ ds" "in_order (num_blocks s) 1 es" "\<forall>e \<in> set es. is_file e"
    "set es = ent s ` used_by s n" "\<forall>d \<in> set ds. mark d = 1" using sorted_directory [OF ok one q] by blast
  have ms: "mset ?r = mset (map (ent s) [0..<n])" using q directory_consistent [OF ok one] unfolding qsort_ok_def by blast
  have "set ?r = ent s ` {..<n}" using arg_cong [OF ms, of set_mset] by (auto simp: lessThan_atLeast0)
  then have in_r: "ent s i \<in> set ?r" using i(1) by simp
  have del: "x = ent s i" if "x \<in> set ds" for x
  proof -
    have "x \<in> ent s ` {..<n}" using that e(1) \<open>set ?r = ent s ` {..<n}\<close> by auto
    then show ?thesis using that e(5) one i by (auto simp: one_deleted_def)
  qed
  have "ent s i \<in> set ds" using in_r e(1,3) i(2) by (auto simp: is_file_def)
  moreover have "length ds \<le> 1"
  proof (rule ccontr)
    assume "\<not> length ds \<le> 1"
    then obtain x y zs where ds: "ds = x # y # zs" by (cases ds rule: remdups_adj.cases) auto
    have "{#x, y#} \<subseteq># mset ?r" by (simp add: e(1) ds)
    then obtain a b where "a < n" "b < n" "a \<noteq> b" "x = ent s a" "y = ent s b" unfolding ms by (rule directory_pair)
    then show False using e(5) ds one by (auto simp: one_deleted_def)
  qed
  ultimately have "ds = [ent s i]" by (cases ds) auto
  then show ?thesis using e by auto
qed
end
