(* ===== verification/BMFS_Props.thy ===== *)
theory BMFS_Props
  imports BMFS_Alloc
begin

text \<open>
  The properties of the BMFS tool: a new disk is empty, \<open>create\<close> on a consistent disk and what goes wrong with
  a deleted entry.
\<close>

section \<open>A new disk\<close>

lemma copyLoop_wr: "copyLoop source pos m = (pos + length source, wr m pos source)"
proof (induction source pos m rule: copyLoop.induct)
  case (1 source pos m)
  show ?case
  proof (cases "source = []")
    case False
    have "wr (wr m pos (take bufferSize source)) (pos + min bufferSize (length source)) (drop bufferSize source) =
        wr m pos (take bufferSize source @ drop bufferSize source)" by (simp only: wr_append length_take min.commute)
    then show ?thesis using False 1 by (simp add: copyLoop.simps [of source])
  qed (simp add: copyLoop.simps)
qed

lemma format_disk:
  shows "bytes (disk_b (format_b s)) 1024 5 = map of_char ''BMFS'' @ [0]" and "4096 \<le> x \<Longrightarrow> x < 8192 \<Longrightarrow> disk_b (format_b s) x = 0"
proof -
  let ?info = "wr (wr (DiskInfo s) 0 (replicate 512 0)) 0 fs_tag"
  let ?d = "wr (disk_b s) 1024 (bytes ?info 0 512)"
  have z: "bytes (wr (Directory s) 0 (replicate 4096 0)) 0 4096 = replicate 4096 0" by (rule bytes_wr_eq) simp
  have f: "disk_b (format_b s) = wr ?d 4096 (replicate 4096 0)" by (simp add: format_b_def Let_def z)
  have "disk_b (format_b s) (1024 + i) = ?info i" if "i < 512" for i
  proof -
    have "disk_b (format_b s) (1024 + i) = ?d (1024 + i)" using that by (simp add: f wr_outside)
    then show ?thesis using that by (simp add: wr_inside)
  qed
  moreover have "bytes ?info 0 5 = map of_char ''BMFS'' @ [0]"
  proof -
    have len: "(5 :: nat) = length fs_tag + 1" by (simp add: fs_tag_def)
    have "?info 4 = wr (DiskInfo s) 0 (replicate 512 0) 4" by (rule wr_outside) (simp add: fs_tag_def)
    also have "\<dots> = 0" using wr_inside [of 4 "replicate 512 (0 :: u8)" "DiskInfo s" 0] by simp
    finally have "?info 4 = 0" .
    moreover have "bytes m a 1 = [m a]" for m a by (simp add: bytes_def)
    moreover have "0 + length fs_tag = 4" by (simp add: fs_tag_def)
    ultimately have "bytes ?info (0 + length fs_tag) 1 = [0]" by metis
    then show ?thesis unfolding len bytes_append by (simp add: bytes_wr) (simp add: fs_tag_def)
  qed
  ultimately show "bytes (disk_b (format_b s)) 1024 5 = map of_char ''BMFS'' @ [0]"
    using bytes_cong [of 5 "disk_b (format_b s)" 1024 ?info 0] by simp
  show "disk_b (format_b s) x = 0" if "4096 \<le> x" "x < 8192"
    using wr_inside [of "x - 4096" "replicate 4096 (0 :: u8)" ?d 4096] that by (simp add: f)
qed

text \<open>What \<open>initialize\<close> leaves is a consistent disk without files, for a boot record of any length and a kernel
  with a boot loader before it.\<close>

lemma initialize_disk:
  assumes "initialize_b sz mbr boot kern s = (0, Some t)" "kern = None \<or> boot \<noteq> None"
  shows "\<exists>u. \<forall>x. 512 \<le> x \<longrightarrow> x < 8192 \<longrightarrow> disk_b t x = disk_b (format_b u) x"
proof -
  obtain diskSize where z: "parseSize sz = Some diskSize" using assms(1) by (auto simp: initialize_b_def split: option.splits)
  have op: "opens (host s) mbr" "opens (host s) boot" "opens (host s) kern"
    using assms(1) z by (auto simp: initialize_b_def split: if_splits)
  let ?u = "s\<lparr>disk_b := fillLoop (unat diskSize) 0 (\<lambda>_. 0)\<rparr>"
  have h: "host (format_b v) = host v" for v by (simp add: format_b_def Let_def)
  have bk: "Option.bind kern (host s) = None \<or> (\<exists>b. Option.bind boot (host s) = Some b)"
    using assms(2) op(2) by (auto simp: opens_def split: option.splits)
  have "disk_b t x = disk_b (format_b ?u) x" if "512 \<le> x" "x < 8192" for x
    using assms(1) z op bk that unfolding initialize_b_def
    by (auto simp: Let_def copyLoop_wr wr_outside h split: option.splits if_splits)
  then show ?thesis by blast
qed

theorem initialize_empty:
  assumes "initialize_b sz mbr boot kern s = (0, Some t)" "kern = None \<or> boot \<noteq> None"
    and "4 \<le> len div 1048576" "len div 1048576 < 4294967296"
  shows "is_bmfs (load_b len t) \<and> fs_ok (load_b len t) 0 \<and> files_of (load_b len t) = Map.empty"
proof -
  from initialize_disk [OF assms(1,2)] obtain u where u: "\<And>x. 512 \<le> x \<Longrightarrow> x < 8192 \<Longrightarrow> disk_b t x = disk_b (format_b u) x" by blast
  have di: "DiskInfo (load_b len t) i = disk_b (format_b u) (1024 + i)" if "i < 512" for i
    using wr_inside [of i "bytes (disk_b t) 1024 512" "DiskInfo t" 0] that u [of "1024 + i"] by (simp add: load_b_def)
  have b: "bytes (DiskInfo (load_b len t)) 0 5 = map of_char ''BMFS'' @ [0]"
    using format_disk(1) [of u] bytes_cong [of 5 "DiskInfo (load_b len t)" 0 "disk_b (format_b u)" 1024] di by simp
  have "bytes (DiskInfo (load_b len t)) 0 4 = take 4 (bytes (DiskInfo (load_b len t)) 0 5)"
    "DiskInfo (load_b len t) 4 = bytes (DiskInfo (load_b len t)) 0 5 ! 4"
    by (simp_all add: bytes_def take_map)
  then have "is_bmfs (load_b len t)" unfolding is_bmfs_def b by (simp add: fs_tag_def)
  moreover have "mark (ent (load_b len t) 0) = 0"
    using wr_inside [of 0 "bytes (disk_b t) 4096 4096" "Directory t" 0] u [of 4096] format_disk(2) [of 4096 u]
    by (simp add: mark_at load_b_def)
  moreover have "num_blocks (load_b len t) = len div 1048576 div 2"
    using assms(4) by (simp add: num_blocks_def load_b_def unsigned_of_nat take_bit_nat_eq_self)
  ultimately have ok: "is_bmfs (load_b len t)" "fs_ok (load_b len t) 0" using assms(3) by (simp_all add: fs_ok_def)
  have "files_of (load_b len t) nm = None" for nm by (rule files_cases [OF ok(2), of nm]) (auto simp: used_by_def)
  with ok show ?thesis by auto
qed

section \<open>Properties\<close>


text \<open>A formatted disk of three blocks.\<close>

definition bmfs0 :: bmfs where
  "bmfs0 = format_b \<lparr>disk_b = \<lambda>_. 0, DiskInfo = \<lambda>_. 0, Directory = \<lambda>_. 0, disksize = 6, host = [[97] \<mapsto> [1, 2, 3]]\<rparr>"

lemma wr_zeros: "wr (\<lambda>_. 0) a (replicate k 0) = (\<lambda>_. 0)"
  by (auto simp: wr_def fun_eq_iff)

lemma bmfs0_ok: "fs_ok bmfs0 0" "num_blocks bmfs0 = 3" "files_of bmfs0 nm = None" "host bmfs0 = [[97] \<mapsto> [1, 2, 3]]"
proof -
  show n: "num_blocks bmfs0 = 3" "host bmfs0 = [[97] \<mapsto> [1, 2, 3]]" by (simp_all add: bmfs0_def format_b_def num_blocks_def Let_def)
  have "mark (ent bmfs0 0) = 0" by (simp add: bmfs0_def format_b_def Let_def mark_at wr_zeros)
  then show ok: "fs_ok bmfs0 0" using n by (simp add: fs_ok_def)
  show "files_of bmfs0 nm = None" by (rule files_cases [OF ok, of nm]) (auto simp: used_by_def)
qed


lemma content_host [simp]: "content (s\<lparr>host := h\<rparr>) e = content s e"
  by (simp add: content_def)

lemma host_irrelevant [simp]: "files_of (s\<lparr>host := h\<rparr>) = files_of s" "fs_ok (s\<lparr>host := h\<rparr>) n = fs_ok s n"
  by (auto simp: files_of_def findfile_def fun_eq_iff fs_ok_def num_blocks_def split: option.splits)


text \<open>A disk of six blocks: a file in blocks 1 to 4, and what is left of a deleted one that was in block 2.\<close>

definition bmfs2 :: bmfs where
  "bmfs2 = \<lparr>disk_b = \<lambda>_. 0, DiskInfo = \<lambda>_. 0,
     Directory = wr (wr (\<lambda>_. 0) 0 (entry_bytes \<lparr>FileName = 98 # replicate 31 0, StartingBlock = 1, ReservedBlocks = 4, FileSize = 0, Unused = 0\<rparr>))
       64 (entry_bytes \<lparr>FileName = 1 # replicate 31 0, StartingBlock = 2, ReservedBlocks = 1, FileSize = 0, Unused = 0\<rparr>),
     disksize = 12, host = Map.empty\<rparr>"

lemma entry_at_wr: "length (FileName e) = 32 \<Longrightarrow> entry_at (wr m a (entry_bytes e)) a = e"
  by (cases e) (simp add: entry_at_def entry_bytes_def wr_append bytes_outside bytes_wr_eq rd_le64_outside add.assoc)

lemma length_entry_bytes: "length (FileName e) = 32 \<Longrightarrow> length (entry_bytes e) = 64"
  by (simp add: entry_bytes_def)

lemma bmfs2_ents:
  "ent bmfs2 0 = \<lparr>FileName = 98 # replicate 31 0, StartingBlock = 1, ReservedBlocks = 4, FileSize = 0, Unused = 0\<rparr>"
  "ent bmfs2 1 = \<lparr>FileName = 1 # replicate 31 0, StartingBlock = 2, ReservedBlocks = 1, FileSize = 0, Unused = 0\<rparr>"
  "mark (ent bmfs2 2) = 0" "num_blocks bmfs2 = 6"
proof -
  show "ent bmfs2 0 = \<lparr>FileName = 98 # replicate 31 0, StartingBlock = 1, ReservedBlocks = 4, FileSize = 0, Unused = 0\<rparr>"
    unfolding bmfs2_def bmfs.simps by (subst entry_outside) (simp_all add: length_entry_bytes entry_at_wr)
  show "ent bmfs2 1 = \<lparr>FileName = 1 # replicate 31 0, StartingBlock = 2, ReservedBlocks = 1, FileSize = 0, Unused = 0\<rparr>"
    unfolding bmfs2_def bmfs.simps by (simp add: entry_at_wr)
  show "mark (ent bmfs2 2) = 0" by (simp add: mark_at bmfs2_def wr_outside length_entry_bytes)
  show "num_blocks bmfs2 = 6" by (simp add: num_blocks_def bmfs2_def)
qed

lemma less2: "(i :: nat) < 2 \<longleftrightarrow> i = 0 \<or> i = 1"
  by auto

lemma bmfs2_ok: "fs_ok bmfs2 2" "used_by bmfs2 2 = {0}" "one_deleted bmfs2 2"
proof -
  have m: "mark (ent bmfs2 0) = 98" "mark (ent bmfs2 1) = 1" unfolding bmfs2_ents by (simp_all add: mark_def)
  show u: "used_by bmfs2 2 = {0}" using m by (auto simp: used_by_def less2 is_file_def)
  have "entry_fits 6 (ent bmfs2 0)" unfolding bmfs2_ents by (simp add: entry_fits_def)
  then show "fs_ok bmfs2 2" using m bmfs2_ents(3,4) by (auto simp: fs_ok_def less2 is_file_def)
  show "one_deleted bmfs2 2" using m by (auto simp: one_deleted_def less2)
qed


end
