(* ===== verification/BMFS_Session.thy ===== *)
theory BMFS_Session
  imports BMFS_Props
begin

text \<open>
  The BMFS tool as it is used: every command is a run of its own, which loads the directory from the disk image. What a
  command leaves in the image is what the next one finds, so the runs act on a map from names to blocks and contents.
\<close>

section \<open>What the image holds\<close>

definition drive :: "nat \<Rightarrow> bmfs \<Rightarrow> nat \<Rightarrow> (u8 list \<rightharpoonup> nat \<times> u8 list) \<Rightarrow> bool" where
  "drive len s n F \<longleftrightarrow> is_bmfs (load_b len s) \<and> fs_ok (load_b len s) n \<and> files_of (load_b len s) = F"

text \<open>The directory is in the image, and the disk information is the same.\<close>

definition saved :: "bmfs \<Rightarrow> bmfs \<Rightarrow> bool" where
  "saved s u \<longleftrightarrow> disksize u = disksize s \<and> (\<forall>x. 1024 \<le> x \<and> x < 1536 \<longrightarrow> disk_b u x = disk_b s x) \<and>
     bytes (disk_b u) 4096 4096 = bytes (Directory u) 0 4096"

lemma entry_at_cong: "(\<And>k. k < 64 \<Longrightarrow> m (a + k) = m' (a + k)) \<Longrightarrow> entry_at m a = entry_at m' a"
  by (auto simp: entry_at_def add.assoc intro!: bytes_cong rd_le64_cong)

lemma same_directory:
  assumes "\<And>x. x < 4096 \<Longrightarrow> Directory v x = Directory u x" "disk_b v = disk_b u" "disksize v = disksize u"
  shows "fs_ok v n = fs_ok u n" "files_of v = files_of u"
proof -
  have e: "ent v i = ent u i" if "i < 64" for i using assms(1) that by (intro entry_at_cong) simp
  have f: "findLoop nm (Directory v) i = findLoop nm (Directory u) i" for nm i
  proof (induction nm "Directory v" i rule: findLoop.induct)
    case (1 nm i)
    show ?case
    proof (cases "i < 64")
      case True
      then show ?thesis using 1 e [OF True]
        by (subst (1 2) findLoop.simps) (cases "strcmp_b nm (entry_bytes (ent u i))"; simp add: Let_def)
    qed (subst (1 2) findLoop.simps, simp)
  qed
  show "files_of v = files_of u" by (simp add: fun_eq_iff files_of_def findfile_def f content_def assms(2) split: option.splits)
  have nb: "num_blocks v = num_blocks u" by (simp add: num_blocks_def assms(3))
  show "fs_ok v n = fs_ok u n"
  proof (cases "n \<le> 64")
    case True
    then have "ent v i = ent u i" if "i < n" for i using e that by simp
    with e [of n] True show ?thesis unfolding fs_ok_def nb by (auto; blast)
  qed (simp add: fs_ok_def)
qed

lemma load_simps [simp]: "host (load_b len s) = host s" "disk_b (load_b len s) = disk_b s" "disksize (load_b len s) = of_nat (len div 1048576)"
  by (simp_all add: load_b_def)

lemma load_DiskInfo: "x < 512 \<Longrightarrow> DiskInfo (load_b len s) x = disk_b s (1024 + x)"
  using wr_inside [of x "bytes (disk_b s) 1024 512" "DiskInfo s" 0] by (simp add: load_b_def)

lemma load_Directory: "x < 4096 \<Longrightarrow> Directory (load_b len s) x = disk_b s (4096 + x)"
  using wr_inside [of x "bytes (disk_b s) 4096 4096" "Directory s" 0] by (simp add: load_b_def)

lemma reload:
  assumes "saved (load_b len s) u" "is_bmfs (load_b len s)" "fs_ok u n" "files_of u = F"
  shows "drive len u n F"
proof -
  have "Directory (load_b len u) x = Directory u x" if "x < 4096" for x
  proof -
    have "bytes (disk_b u) 4096 4096 ! x = bytes (Directory u) 0 4096 ! x" using assms(1) by (simp add: saved_def)
    then show ?thesis using that by (simp add: load_Directory)
  qed
  then have "fs_ok (load_b len u) n" "files_of (load_b len u) = F"
    using same_directory [of "load_b len u" u] assms(1,3,4) by (simp_all add: saved_def)
  moreover have "DiskInfo (load_b len u) x = DiskInfo (load_b len s) x" if "x < 512" for x
    using assms(1) that by (simp add: load_DiskInfo saved_def)
  then have "is_bmfs (load_b len u)" using assms(2) bytes_cong [of 4 "DiskInfo (load_b len u)" 0 "DiskInfo (load_b len s)" 0] by (simp add: is_bmfs_def)
  ultimately show ?thesis by (simp add: drive_def)
qed

lemma saved_flush: "disksize t = disksize s \<Longrightarrow> (\<And>x. 1024 \<le> x \<Longrightarrow> x < 1536 \<Longrightarrow> disk_b t x = disk_b s x) \<Longrightarrow> saved s (flush_dir t)"
  by (simp add: saved_def flush_dir_def wr_outside bytes_wr_eq)

lemma create_saved: "create_b qs nm maxsize s = Some (Complete, u) \<Longrightarrow> saved s u"
  by (auto simp: create_b_def Let_def bind_eq_Some_conv split: option.splits if_splits prod.splits intro!: saved_flush)

lemma delete_saved: "delete_b nm s = Some (Complete, u) \<Longrightarrow> saved s u"
  by (auto simp: delete_b_def bind_eq_Some_conv split: option.splits intro!: saved_flush)

lemma write_saved:
  assumes "fs_ok s n" "files_of s nm = Some (r, c)" "write_b nm s = Some (Complete, u)"
  shows "saved s u"
proof (cases rule: files_cases [OF assms(1), of nm, case_names found missing])
  case (found i)
  note fb = fits_bounds [OF assms(1) found(1)] and ff = findfile_used [OF assms(1) found(1), unfolded found(2)]
  have b: "unat (StartingBlock (ent s i) * of_nat BLOCK) = first_block (ent s i) * BLOCK" by (rule unat_blocks [OF fb(3)])
  have "2097152 \<le> first_block (ent s i) * BLOCK" using fb(1) by simp
  then show ?thesis using assms(3) ff b
    by (auto simp: write_b_def wr_outside split: option.splits if_splits intro!: saved_flush)
qed (use assms(2) in simp)

section \<open>Commands\<close>

text \<open>The words of a command line.\<close>

abbreviation (input) cmd :: "string \<Rightarrow> u8 list list \<Rightarrow> u8 list list" where
  "cmd c ws \<equiv> [map of_char ''bmfs'', map of_char ''disk.img'', map of_char c] @ ws"

lemma main_create: "is_bmfs (load_b len s) \<Longrightarrow>
    bmfs_main qs atoi (Some len) ty (cmd ''create'' [nm, sz]) s = create_cmd qs atoi ty (cmd ''create'' [nm, sz]) (load_b len s)"
  by (simp add: bmfs_main_def strcasecmp_b_def tolower_b_def)

lemma main_read: "is_bmfs (load_b len s) \<Longrightarrow> bmfs_main qs atoi (Some len) ty (cmd ''read'' [nm]) s = read_b len nm (load_b len s)"
  by (simp add: bmfs_main_def strcasecmp_b_def tolower_b_def with_name_def)

lemma main_write: "is_bmfs (load_b len s) \<Longrightarrow> bmfs_main qs atoi (Some len) ty (cmd ''write'' [nm]) s = write_b nm (load_b len s)"
  by (simp add: bmfs_main_def strcasecmp_b_def tolower_b_def with_name_def)

lemma main_delete: "is_bmfs (load_b len s) \<Longrightarrow> bmfs_main qs atoi (Some len) ty (cmd ''delete'' [nm]) s = delete_b nm (load_b len s)"
  by (simp add: bmfs_main_def strcasecmp_b_def tolower_b_def with_name_def)

lemma main_initialize: "bmfs_main qs atoi len ty (cmd ''initialize'' [sz]) s =
    (let (ret, r) = initialize_b sz None None None s in Some (if ret = 0 then Complete else Failed, case r of None \<Rightarrow> s | Some t \<Rightarrow> t))"
  by (simp add: bmfs_main_def strcasecmp_b_def tolower_b_def)

text \<open>\<open>create\<close> in the image.\<close>

lemma run_create:
  assumes d: "drive len s n F" and n: "n < 64" and one: "one_deleted (load_b len s) n" and qs: "qsort_ok qs" and v: "valid_name nm"
    and new: "F nm = None" and k: "atoi sz = k" "1 \<le> k" "k < 2147483648" and r: "r = (nat k + 1) div 2"
    and q: "free_at (num_blocks (load_b len s)) (ent (load_b len s) ` used_by (load_b len s) n) r q"
  shows "\<exists>u n'. bmfs_main qs atoi (Some len) ty (cmd ''create'' [nm, sz]) s = Some (Complete, u) \<and> drive len u n' (F(nm \<mapsto> (r, []))) \<and> host u = host s"
proof -
  let ?s = "load_b len s"
  have s: "is_bmfs ?s" "fs_ok ?s n" "files_of ?s = F" using d by (simp_all add: drive_def)
  have u: "unat (of_int k :: u64) = nat k" using k(2,3) by (simp add: unat_eq_nat_uint uint_word_of_int take_bit_int_eq_self)
  have "create_cmd qs atoi ty (cmd ''create'' [nm, sz]) ?s = create_b qs nm (of_int k) ?s" using k by (simp add: create_cmd_def)
  moreover have ex: "\<exists>q. free_at (num_blocks ?s) (ent ?s ` used_by ?s n) r q" using q by blast
  have pre: "files_of ?s nm = None" "1 \<le> unat (of_int k :: u64)" "unat (of_int k :: u64) < 4294967296" "r = (unat (of_int k :: u64) + 1) div 2"
    using new s(3) k r by (simp_all add: u)
  obtain t n' where t: "create_b qs nm (of_int k) ?s = Some (Complete, t)" "fs_ok t n'" "files_of t = (files_of ?s)(nm \<mapsto> (r, []))" "host t = host ?s"
    using create_spec [OF s(2) n one qs v pre] unfolding if_P [OF ex] by blast
  ultimately show ?thesis
    using reload [OF create_saved [OF t(1)] s(1) t(2,3)] t(1,4) main_create [OF s(1)] s(3) by (metis load_simps(1))
qed

lemma driveD: "drive len s n F \<Longrightarrow> is_bmfs (load_b len s) \<and> fs_ok (load_b len s) n \<and> files_of (load_b len s) = F"
  by (simp add: drive_def)

lemma load_host: "load_b len (s\<lparr>host := h\<rparr>) = (load_b len s)\<lparr>host := h\<rparr>"
  by (cases s) (simp add: load_b_def)

lemma drive_host: "drive len (s\<lparr>host := h\<rparr>) n F = drive len s n F"
  by (simp add: drive_def load_host) (simp add: is_bmfs_def)

lemma drive_load: "drive len s n F \<Longrightarrow> drive len ((load_b len s)\<lparr>host := h\<rparr>) n F"
  using driveD [of len s n F] by (auto intro!: reload [of len s] simp: saved_def bytes_def load_Directory)

lemma num_blocks_len: "num_blocks (load_b len s) * BLOCK \<le> len"
proof -
  have "num_blocks (load_b len s) \<le> len div 1048576 div 2"
    unfolding num_blocks_def load_simps by (intro div_le_mono) (simp add: unsigned_of_nat)
  then have "num_blocks (load_b len s) * BLOCK \<le> len div 1048576 div 2 * BLOCK" by (rule mult_le_mono1)
  also have "\<dots> \<le> len" by simp
  finally show ?thesis .
qed

lemma run_read:
  assumes "drive len s n F" "F nm = Some (r, c)"
  shows "\<exists>u. bmfs_main qs atoi (Some len) ty (cmd ''read'' [nm]) s = Some (Complete, u) \<and> drive len u n F \<and> host u = (host s)(nm \<mapsto> c)"
proof -
  let ?s = "load_b len s"
  have s: "is_bmfs ?s" "fs_ok ?s n" "files_of ?s = F" using driveD [OF assms(1)] by auto
  then have "read_b len nm ?s = Some (Complete, ?s\<lparr>host := (host s)(nm \<mapsto> c)\<rparr>)" using read_spec [OF s(2), of nm r c len] assms(2) num_blocks_len [of len s] by simp
  then show ?thesis unfolding main_read [OF s(1)] using drive_load [OF assms(1)] by simp
qed

lemma run_delete:
  assumes "drive len s n F" "F nm = Some (r, c)"
  shows "\<exists>u. bmfs_main qs atoi (Some len) ty (cmd ''delete'' [nm]) s = Some (Complete, u) \<and> drive len u n (F(nm := None)) \<and> host u = host s"
proof -
  let ?s = "load_b len s"
  have s: "is_bmfs ?s" "fs_ok ?s n" "files_of ?s = F" using driveD [OF assms(1)] by auto
  have z: "0 \<notin> set nm" "nm \<in> dom (files_of ?s)" using s(3) assms(2) by (auto simp: files_of_def)
  obtain v where v: "delete_b nm ?s = Some (Complete, v)" "fs_ok v n" "files_of v = F(nm := None)" "host v = host s"
    using delete_spec [OF s(2) z(1)] unfolding if_P [OF z(2)] unfolding s(3) load_simps by blast
  with reload [OF delete_saved [OF v(1)] s(1) v(2,3)] main_delete [OF s(1)] show ?thesis by auto
qed

lemma run_write:
  assumes "drive len s n F" "F nm = Some (r, c)" "host s nm = Some t" "length t < 2147483648"
  shows "\<exists>a u. bmfs_main qs atoi (Some len) ty (cmd ''write'' [nm]) s = Some (a, u) \<and> host u = host s \<and>
    (if length t \<le> r * BLOCK then a = Complete \<and> drive len u n (F(nm \<mapsto> (r, t))) else a = Not_enough \<and> drive len u n F)"
proof -
  let ?s = "load_b len s"
  have s: "is_bmfs ?s" "fs_ok ?s n" "files_of ?s = F" using driveD [OF assms(1)] by auto
  then have f: "files_of ?s nm = Some (r, c)" using assms(2) by simp
  note w = write_spec [OF s(2) f, of t]
  show ?thesis
  proof (cases "length t \<le> r * BLOCK")
    case True
    with w assms(3,4) s(3) obtain u where u: "write_b nm ?s = Some (Complete, u)" "fs_ok u n" "files_of u = F(nm \<mapsto> (r, t))" "host u = host s"
      by auto
    with reload [OF write_saved [OF s(2) f u(1)] s(1) u(2,3)] True main_write [OF s(1)] show ?thesis by auto
  next
    case False
    with w assms(3,4) drive_load [OF assms(1), of "host s"] main_write [OF s(1)] show ?thesis by (auto simp: load_b_def)
  qed
qed

text \<open>A new image with a new file.\<close>

lemma new_file:
  assumes "parseSize sz = Some ds" "unat ds < 2 ^ 52" "qsort_ok qs" "valid_name nm" "atoi mib = k" "1 \<le> k" "k < 2147483648"
    and "(nat k + 1) div 2 + 2 \<le> unat ds div 1048576 div 2"
  shows "\<exists>s1 s2 n. bmfs_main qs atoi None ty (cmd ''initialize'' [sz]) s = Some (Complete, s1) \<and>
    bmfs_main qs atoi (Some (unat ds)) ty (cmd ''create'' [nm, mib]) s1 = Some (Complete, s2) \<and>
    drive (unat ds) s2 n [nm \<mapsto> ((nat k + 1) div 2, [])] \<and> host s2 = host s"
proof -
  let ?len = "unat ds"
  define s1 where "s1 = format_b (s\<lparr>disk_b := fillLoop ?len 0 (\<lambda>_. 0)\<rparr>)"
  have i: "initialize_b sz None None None s = (0, Some s1)" by (simp add: initialize_b_def assms(1) opens_def Let_def s1_def)
  have h1: "host s1 = host s" by (simp add: s1_def format_b_def Let_def)
  have big: "4 \<le> ?len div 1048576" using assms(6,8) by linarith
  have small: "?len div 1048576 < 4294967296" using assms(2) by (simp add: less_mult_imp_div_less)
  have d1: "drive ?len s1 0 Map.empty" using initialize_empty [OF i _ big small] by (simp add: drive_def)
  have nb: "num_blocks (load_b ?len s1) = ?len div 1048576 div 2"
    using small by (simp add: num_blocks_def unsigned_of_nat take_bit_nat_eq_self)
  have q: "free_at (num_blocks (load_b ?len s1)) (ent (load_b ?len s1) ` used_by (load_b ?len s1) 0) ((nat k + 1) div 2) 1"
    using assms(8) by (simp add: free_at_def nb used_by_def)
  have one: "one_deleted (load_b ?len s1) 0" by (simp add: one_deleted_def)
  have "\<exists>u n. bmfs_main qs atoi (Some ?len) ty (cmd ''create'' [nm, mib]) s1 = Some (Complete, u) \<and>
      drive ?len u n (Map.empty(nm \<mapsto> ((nat k + 1) div 2, []))) \<and> host u = host s1"
    by (rule run_create [OF d1 _ one assms(3,4) _ _ assms(6,7) _ q]) (simp_all add: assms(5))
  then obtain s2 n where s2: "bmfs_main qs atoi (Some ?len) ty (cmd ''create'' [nm, mib]) s1 = Some (Complete, s2)"
      "drive ?len s2 n [nm \<mapsto> ((nat k + 1) div 2, [])]" "host s2 = host s1" by blast
  have s1: "bmfs_main qs atoi None ty (cmd ''initialize'' [sz]) s = Some (Complete, s1)" unfolding main_initialize i by simp
  show ?thesis using s1 s2 h1 by (metis (no_types, lifting))
qed

section \<open>Properties\<close>

text \<open>C37: every command is a run of the tool that loads the image, and the image of a consistent disk is a map from
  names to blocks and contents: a run of \<open>write\<close> changes the contents of one name to those of the local file, or fails
  when its blocks are too few, a run of \<open>read\<close> makes a local file of them and leaves the image as it is, and a run of
  \<open>delete\<close> removes the name.\<close>

theorem bmfs_runs:
  assumes "drive len s n F" "F nm = Some (r, c)"
  shows "(\<exists>u. bmfs_main qs atoi (Some len) ty (cmd ''read'' [nm]) s = Some (Complete, u) \<and> drive len u n F \<and> host u = (host s)(nm \<mapsto> c)) \<and>
    (\<exists>u. bmfs_main qs atoi (Some len) ty (cmd ''delete'' [nm]) s = Some (Complete, u) \<and> drive len u n (F(nm := None)) \<and> host u = host s) \<and>
    (\<forall>t. host s nm = Some t \<longrightarrow> length t < 2147483648 \<longrightarrow> (\<exists>a u. bmfs_main qs atoi (Some len) ty (cmd ''write'' [nm]) s = Some (a, u) \<and> host u = host s \<and>
      (if length t \<le> r * BLOCK then a = Complete \<and> drive len u n (F(nm \<mapsto> (r, t))) else a = Not_enough \<and> drive len u n F)))"
  using run_read [OF assms] run_delete [OF assms] run_write [OF assms] by blast

lemma parse_6M: "parseSize [54, 77] = Some 6291456"
proof -
  have u: "unitLoop d 2 = (if d * 1024 > d then if d * 1024 * 1024 > d * 1024 then Some (d * 1024 * 1024) else None else None)" for d
    by (simp add: numeral_2_eq_2)
  show ?thesis by (simp add: parseSize_def size_unit_def toupper_b_def isdigit_b_def minimumDiskSize_def u)
qed

lemma drive_example: "\<exists>s n. drive 6291456 s n [[97] \<mapsto> (1, [])] \<and> host s [97] = Some [1, 2, 3]"
proof -
  let ?s = "\<lparr>disk_b = \<lambda>_. 0, DiskInfo = \<lambda>_. 0, Directory = \<lambda>_. 0, disksize = 0, host = [[97] \<mapsto> [1, 2, 3]]\<rparr>"
  have v: "valid_name [97]" "unat (6291456 :: u64) < 2 ^ 52" "(nat 1 + 1) div 2 + 2 \<le> unat (6291456 :: u64) div 1048576 div 2" by (simp_all add: valid_name_def)
  note new_file [where atoi = "\<lambda>_. 1" and mib = "[49]" and k = 1, OF parse_6M v(2) ins_sort_ok v(1) refl _ _ v(3), of "[]" ?s]
  then obtain s2 n where "drive (unat (6291456 :: u64)) s2 n [[97] \<mapsto> ((nat 1 + 1) div 2, [])]" "host s2 = host ?s" by force
  moreover have "unat (6291456 :: u64) = 6291456" "(nat 1 + 1) div 2 = 1" by simp_all
  ultimately show ?thesis by (metis fun_upd_same bmfs.select_convs(5))
qed

theorem bmfs_runs_witness:
  "\<exists>s n u. drive 6291456 s n [[97] \<mapsto> (1, [])] \<and> bmfs_main ins_sort (\<lambda>_. 0) (Some 6291456) [] (cmd ''delete'' [[97]]) s = Some (Complete, u) \<and>
    drive 6291456 u n Map.empty"
proof -
  obtain s n where s: "drive 6291456 s n [[97] \<mapsto> (1, [])]" "host s [97] = Some [1, 2, 3]" using drive_example by blast
  have "[[97] \<mapsto> (1, [])] [97] = Some (1, [])" by simp
  from bmfs_runs [OF s(1) this, of ins_sort "\<lambda>_. 0" "[]"]
  obtain u where u: "bmfs_main ins_sort (\<lambda>_. 0) (Some 6291456) [] (cmd ''delete'' [[97]]) s = Some (Complete, u)"
    "drive 6291456 u n (([[97] \<mapsto> (1, [])])([97] := None))" by blast
  have "drive 6291456 u n Map.empty" using u(2) by simp
  with u(1) s(1) show ?thesis by blast
qed

text \<open>C38: a session. An image is initialised with a size, a file is created in it, the local file is written to it, and is
  lost; the run of \<open>read\<close> brings it back, byte for byte. All four runs succeed when the size is one that the tool accepts,
  the name is new to the host's standards of a name and the file fits in the megabytes asked for, which fit in the disk.\<close>

theorem bmfs_session:
  assumes "parseSize sz = Some ds" "unat ds < 2 ^ 52" "qsort_ok qs" "valid_name nm" "atoi mib = k" "1 \<le> k" "k < 2147483648"
    and "(nat k + 1) div 2 + 2 \<le> unat ds div 1048576 div 2" "host s nm = Some t" "length t \<le> (nat k + 1) div 2 * BLOCK" "length t < 2147483648"
  shows "\<exists>s1 s2 s3 s4. bmfs_main qs atoi None ty (cmd ''initialize'' [sz]) s = Some (Complete, s1) \<and>
    bmfs_main qs atoi (Some (unat ds)) ty (cmd ''create'' [nm, mib]) s1 = Some (Complete, s2) \<and>
    bmfs_main qs atoi (Some (unat ds)) ty (cmd ''write'' [nm]) s2 = Some (Complete, s3) \<and>
    bmfs_main qs atoi (Some (unat ds)) ty (cmd ''read'' [nm]) (s3\<lparr>host := (host s3)(nm := None)\<rparr>) = Some (Complete, s4) \<and> host s4 nm = Some t"
proof -
  let ?len = "unat ds"
  obtain s1 s2 n where s1: "bmfs_main qs atoi None ty (cmd ''initialize'' [sz]) s = Some (Complete, s1)"
      and s2: "bmfs_main qs atoi (Some ?len) ty (cmd ''create'' [nm, mib]) s1 = Some (Complete, s2)"
        "drive ?len s2 n [nm \<mapsto> ((nat k + 1) div 2, [])]" "host s2 = host s"
    using new_file [where atoi = atoi and mib = mib, OF assms(1-8)] by blast
  have ht: "host s2 nm = Some t" using s2(3) assms(9) by simp
  let ?F = "[nm \<mapsto> ((nat k + 1) div 2, t)]"
  have "\<exists>a u. bmfs_main qs atoi (Some ?len) ty (cmd ''write'' [nm]) s2 = Some (a, u) \<and> host u = host s2 \<and>
      (if length t \<le> (nat k + 1) div 2 * BLOCK then a = Complete \<and> drive ?len u n ([nm \<mapsto> ((nat k + 1) div 2, [])](nm \<mapsto> ((nat k + 1) div 2, t)))
       else a = Not_enough \<and> drive ?len u n [nm \<mapsto> ((nat k + 1) div 2, [])])"
    by (rule run_write [OF s2(2) _ ht assms(11)]) simp
  then obtain s3 where s3: "bmfs_main qs atoi (Some ?len) ty (cmd ''write'' [nm]) s2 = Some (Complete, s3)" "drive ?len s3 n ?F"
    unfolding if_P [OF assms(10)] fun_upd_upd by blast
  have "drive ?len (s3\<lparr>host := (host s3)(nm := None)\<rparr>) n ?F" using s3(2) by (simp add: drive_host)
  then have "\<exists>u. bmfs_main qs atoi (Some ?len) ty (cmd ''read'' [nm]) (s3\<lparr>host := (host s3)(nm := None)\<rparr>) = Some (Complete, u) \<and>
      drive ?len u n ?F \<and> host u = (host (s3\<lparr>host := (host s3)(nm := None)\<rparr>))(nm \<mapsto> t)"
    by (rule run_read) simp
  then obtain s4 where
    s4: "bmfs_main qs atoi (Some ?len) ty (cmd ''read'' [nm]) (s3\<lparr>host := (host s3)(nm := None)\<rparr>) = Some (Complete, s4)"
      "host s4 = (host (s3\<lparr>host := (host s3)(nm := None)\<rparr>))(nm \<mapsto> t)" by blast
  have s4t: "host s4 nm = Some t" unfolding s4(2) by simp
  show ?thesis using s1 s2(1) s3(1) s4(1) s4t by blast
qed

theorem bmfs_session_witness:
  "\<exists>s1 s2 s3 s4. bmfs_main ins_sort (\<lambda>_. 1) None [] (cmd ''initialize'' [[54, 77]]) bmfs0 = Some (Complete, s1) \<and>
    bmfs_main ins_sort (\<lambda>_. 1) (Some (unat (6291456 :: u64))) [] (cmd ''create'' [[97], [49]]) s1 = Some (Complete, s2) \<and>
    bmfs_main ins_sort (\<lambda>_. 1) (Some (unat (6291456 :: u64))) [] (cmd ''write'' [[97]]) s2 = Some (Complete, s3) \<and>
    bmfs_main ins_sort (\<lambda>_. 1) (Some (unat (6291456 :: u64))) [] (cmd ''read'' [[97]]) (s3\<lparr>host := (host s3)([97] := None)\<rparr>) = Some (Complete, s4) \<and>
    host s4 [97] = Some [1, 2, 3]"
  by (rule bmfs_session [where k = 1, OF parse_6M _ ins_sort_ok]) (simp_all add: valid_name_def bmfs0_ok)

end
