(* ===== verification/Libc_Float.thy ===== *)
theory Libc_Float
  imports Libc Test_MM
begin

text \<open>
  The functions of \<open>src/Userland/SampleCodeModule/libc.c\<close> that compute in floating point, \<open>atof\<close> and \<open>ftoa\<close>. As
  in \<open>Test_MM\<close> an operation is the exact one followed by a rounding: \<open>fl\<close> for \<open>float\<close> and \<open>rnd\<close> for \<open>double\<close>. Infinities
  and values that are no number are not modelled; a \<open>double\<close> that no \<open>long\<close> holds is the outcome \<open>None\<close>.

  On the whole numbers below a million, \<open>ftoa\<close> writes the text of \<open>itoa\<close>, and \<open>atof\<close> reads it back.
\<close>

section \<open>atof\<close>

partial_function (option) atofLoop :: "rounding \<Rightarrow> rounding \<Rightarrow> mem \<Rightarrow> addr \<Rightarrow> bool \<Rightarrow> rat \<Rightarrow> rat \<Rightarrow> rat option" where
  "atofLoop fl rnd m arr afterdot scale val =
     (if m arr \<noteq> 0
      then let d = of_int (sint (m arr) - 48) in
        if afterdot
        then let scale = fl (scale / 10) in atofLoop fl rnd m (arr + 1) afterdot scale (fl (val + fl (d * scale)))
        else if m arr = 46 then atofLoop fl rnd m (arr + 1) True scale val
        else atofLoop fl rnd m (arr + 1) afterdot scale (fl (rnd (rnd (val * 10) + d)))
      else Some val)"

definition atof :: "rounding \<Rightarrow> rounding \<Rightarrow> mem \<Rightarrow> addr \<Rightarrow> rat option" where
  "atof fl rnd m arr =
     (if m arr = 45
      then do { val \<leftarrow> atofLoop fl rnd m (arr + 1) False 1 0; Some (- val) }
      else atofLoop fl rnd m arr False 1 0)"

section \<open>ftoa\<close>

definition MAX_PRECISION :: int where
  "MAX_PRECISION = 10"

definition rounders :: "rounding \<Rightarrow> rat list" where
  "rounders rnd = map rnd [5 / 10, 5 / 100, 5 / 1000, 5 / 10000, 5 / 100000, 5 / 1000000, 5 / 10000000, 5 / 100000000,
     5 / 1000000000, 5 / 10000000000, 5 / 100000000000]"

text \<open>The conversion of a \<open>double\<close> to an integer drops the fraction.\<close>

definition trunc :: "rat \<Rightarrow> int" where
  "trunc f = (if f < 0 then \<lceil>f\<rceil> else \<lfloor>f\<rfloor>)"

definition to_long :: "rat \<Rightarrow> int option" where
  "to_long f = (if - (2 ^ 63) \<le> trunc f \<and> trunc f < 2 ^ 63 then Some (trunc f) else None)"

definition autoPrecision :: "rat \<Rightarrow> int" where
  "autoPrecision f =
     (if f < 1 then 6 else if f < 10 then 5 else if f < 100 then 4 else if f < 1000 then 3
      else if f < 10000 then 2 else if f < 100000 then 1 else 0)"

function intLoop :: "int \<Rightarrow> addr \<Rightarrow> mem \<Rightarrow> addr \<times> mem" where
  "intLoop intPart p m =
     (if intPart \<noteq> 0 then intLoop (intPart sdiv 10) (p + 1) (m(p := byte (48 + intPart smod 10))) else (p, m))"
  by pat_completeness auto
termination
  by (relation "measure (\<lambda>(n, p, m). nat \<bar>n\<bar>)") (auto simp: signed_divide_int_def abs_mult sgn_if)

text \<open>The digits are turned round in place.\<close>

function turnLoop :: "addr \<Rightarrow> addr \<Rightarrow> mem \<Rightarrow> mem" where
  "turnLoop p ptr m =
     (if p > ptr
      then let p = p - 1; c = m p; m = m(p := m ptr) in turnLoop p (ptr + 1) (m(ptr := c))
      else m)"
  by pat_completeness auto
termination
  by (relation "measure (\<lambda>(p, q, m). p - q)") auto

text \<open>The digits behind the point, while the ones that are left are not all 0.\<close>

fun fracLoop :: "rounding \<Rightarrow> nat \<Rightarrow> rat \<Rightarrow> addr \<Rightarrow> mem \<Rightarrow> addr \<times> mem" where
  "fracLoop rnd 0 f ptr m = (ptr, m)"
| "fracLoop rnd (Suc precision) f ptr m =
     (if trunc (rnd (f * of_int (pow 10 (int precision)))) \<noteq> 0
      then let f = rnd (f * 10); c = s8 (trunc f)
           in fracLoop rnd precision (rnd (f - of_int c)) (ptr + 1) (m(ptr := byte (48 + c)))
      else (ptr, m))"

definition ftoa :: "rounding \<Rightarrow> rat \<Rightarrow> addr \<Rightarrow> int \<Rightarrow> mem \<Rightarrow> mem option" where
  "ftoa rnd f buf precision m =
     (let precision = (if precision > MAX_PRECISION then MAX_PRECISION else precision);
          (f, ptr, m) = (if f < 0 then (- f, buf + 1, m(buf := 45)) else (f, buf, m));
          precision = (if precision < 0 then autoPrecision f else precision);
          f = (if precision \<noteq> 0 then rnd (f + rounders rnd ! nat precision) else f)
      in do {
        intPart \<leftarrow> to_long f;
        let f = rnd (f - rnd (of_int intPart));
        let (ptr, m) =
          (if intPart = 0 then (ptr + 1, m(ptr := 48))
           else let (p, m) = intLoop intPart ptr m in (p, turnLoop p ptr m));
        let (ptr, m) =
          (if precision \<noteq> 0 \<and> trunc (rnd (f * of_int (pow 10 precision))) \<noteq> 0
           then fracLoop rnd (nat precision) f (ptr + 1) (m(ptr := 46))
           else (ptr, m));
        Some (m(ptr := 0))
      })"

declare intLoop.simps [simp del] turnLoop.simps [simp del]

section \<open>The text of a number\<close>

lemma intLoop_wr: "intLoop (int n) p m = (p + length (lsd 10 n), wr m p (lsd 10 n))"
proof (induction n arbitrary: p m rule: less_induct)
  case (less n)
  show ?case
  proof (cases "n = 0")
    case False
    have q: "int n sdiv 10 = int (n div 10)" "int n smod 10 = int (n mod 10)"
      by (simp_all add: signed_divide_int_def signed_modulo_int_def zdiv_int zmod_int sgn_if)
    have "\<not> int (n mod 10) \<ge> 10" using mod_less_divisor [of 10 n] by linarith
    then have d: "digit_char (int (n mod 10)) = byte (48 + int (n mod 10))" by (simp only: digit_char_def if_False)
    have l: "lsd 10 n = byte (48 + int (n mod 10)) # lsd 10 (n div 10)"
      using False by (subst lsd.simps) (simp add: d)
    have "n div 10 < n" using False by simp
    from less [OF this] show ?thesis using False by (subst intLoop.simps) (simp add: q l wr_Cons fun_upd_def)
  qed (subst intLoop.simps, simp)
qed

lemma turnLoop_wr: "turnLoop (p + length bs) p (wr m p bs) = wr m p (rev bs)"
proof (induction "length bs" arbitrary: bs p m rule: less_induct)
  case less
  show ?case
  proof (cases bs)
    case Nil
    then show ?thesis by (subst turnLoop.simps) simp
  next
    case (Cons x xs)
    show ?thesis
    proof (cases xs rule: rev_cases)
      case Nil
      with Cons show ?thesis by (subst turnLoop.simps, subst turnLoop.simps) (simp add: Let_def)
    next
      case (snoc mid y)
      let ?l = "Suc p + length mid"
      have bs: "bs = x # mid @ [y]" using Cons snoc by simp
      have w: "wr m p bs = (wr m (Suc p) mid)(p := x, ?l := y)"
        unfolding bs by (auto simp: wr_def fun_eq_iff nth_Cons' nth_append)
      have "turnLoop (p + length bs) p (wr m p bs) = turnLoop ?l (Suc p) ((wr m (Suc p) mid)(p := y, ?l := x))"
        unfolding w by (subst turnLoop.simps) (simp add: bs Let_def fun_upd_twist)
      also have "(wr m (Suc p) mid)(p := y, ?l := x) = wr (m(p := y, ?l := x)) (Suc p) mid"
        by (auto simp: wr_def fun_eq_iff)
      also have "turnLoop ?l (Suc p) \<dots> = wr (m(p := y, ?l := x)) (Suc p) (rev mid)"
        using less [of mid "Suc p"] bs by simp
      also have "\<dots> = wr m p (rev bs)"
        unfolding bs by (auto simp: wr_def fun_eq_iff nth_Cons' nth_append)
      finally show ?thesis .
    qed
  qed
qed

section \<open>Rounding\<close>

text \<open>The same as \<open>ieee_rounding\<close>, for \<open>float\<close>.\<close>

definition ieee_float :: "rounding \<Rightarrow> bool" where
  "ieee_float fl \<longleftrightarrow> mono fl \<and> (\<forall>k n. \<bar>k\<bar> \<le> 2 ^ 24 \<longrightarrow> n \<le> 100 \<longrightarrow> fl (of_int k / 2 ^ n) = of_int k / 2 ^ n)"

lemma float_int: "ieee_float fl \<Longrightarrow> \<bar>k\<bar> \<le> 2 ^ 24 \<Longrightarrow> fl (of_int k) = of_int k"
  unfolding ieee_float_def by (metis div_by_1 power_0 zero_le)

lemma ieee_frac: "ieee_rounding rnd \<Longrightarrow> \<bar>k\<bar> \<le> 2 ^ 53 \<Longrightarrow> n \<le> 1000 \<Longrightarrow> rnd (of_int k / 2 ^ n) = of_int k / 2 ^ n"
  by (simp add: ieee_rounding_def)

lemma ieee_frac_le: "ieee_rounding rnd \<Longrightarrow> x \<le> of_int k / 2 ^ n \<Longrightarrow> \<bar>k\<bar> \<le> 2 ^ 53 \<Longrightarrow> n \<le> 1000 \<Longrightarrow> rnd x \<le> of_int k / 2 ^ n"
  using ieee_mono [of rnd x "of_int k / 2 ^ n"] ieee_frac [of rnd k n] by simp

lemma ieee_frac_ge: "ieee_rounding rnd \<Longrightarrow> of_int k / 2 ^ n \<le> x \<Longrightarrow> \<bar>k\<bar> \<le> 2 ^ 53 \<Longrightarrow> n \<le> 1000 \<Longrightarrow> of_int k / 2 ^ n \<le> rnd x"
  using ieee_mono [of rnd "of_int k / 2 ^ n" x] ieee_frac [of rnd k n] by simp

lemma ieee_pos: "ieee_rounding rnd \<Longrightarrow> 0 \<le> x \<Longrightarrow> 0 \<le> rnd x"
  using ieee_frac_ge [of rnd 0 0 x] by simp

lemma ieee_near:
  assumes "ieee_rounding rnd" "0 \<le> x" "x \<le> 2 ^ 21"
  shows "rnd x \<le> x + 1 / 2 ^ 31" "x - 1 / 2 ^ 31 \<le> rnd x"
proof -
  define k where "k = \<lfloor>x * 2 ^ 31\<rfloor>"
  have k: "of_int k \<le> x * 2 ^ 31" "x * 2 ^ 31 \<le> of_int (k + 1)" using floor_correct [of "x * 2 ^ 31"] by (simp_all add: k_def)
  have "0 \<le> k" using assms(2) by (simp add: k_def)
  moreover have "of_int k \<le> (of_int (2 ^ 52) :: rat)" using k(1) assms(3) by simp
  then have "k \<le> 2 ^ 52" by (simp only: of_int_le_iff)
  ultimately have b: "\<bar>k\<bar> \<le> 2 ^ 53" "\<bar>k + 1\<bar> \<le> 2 ^ 53" by auto
  have "rnd x \<le> of_int (k + 1) / 2 ^ 31" by (rule ieee_frac_le [OF assms(1) _ b(2)]) (use k(2) in \<open>simp_all add: field_simps\<close>)
  then show "rnd x \<le> x + 1 / 2 ^ 31" using k(1) by (simp add: field_simps)
  have "of_int k / 2 ^ 31 \<le> rnd x" by (rule ieee_frac_ge [OF assms(1) _ b(1)]) (use k(1) in \<open>simp_all add: field_simps\<close>)
  then show "x - 1 / 2 ^ 31 \<le> rnd x" using k(2) by (simp add: field_simps)
qed

lemma trunc_0: "0 \<le> x \<Longrightarrow> x < 1 \<Longrightarrow> trunc x = 0"
  by (simp add: trunc_def floor_eq_iff)

lemma trunc_int: "0 \<le> v \<Longrightarrow> of_int v \<le> x \<Longrightarrow> x < of_int v + 1 \<Longrightarrow> trunc x = v"
  by (auto simp: trunc_def floor_eq_iff)

section \<open>Whole numbers\<close>

text \<open>A power of two above the rounder of each precision, the exponent.\<close>

definition rounder_bits :: "nat list" where
  "rounder_bits = [1, 4, 7, 10, 14, 17, 20, 24, 27, 30, 31]"

lemma pow_10: "map (\<lambda>p. pow 10 (int p)) [0..<11] = [1, 10, 100, 1000, 10000, 100000, 1000000, 10000000, 100000000, 1000000000, 1410065408]"
  by (simp add: upt_rec pow_def powLoop.simps s32_def signed_take_bit_int_eq_self_iff)

lemma rounder_less:
  assumes "p \<le> 10"
  shows "0 \<le> rounders (\<lambda>x. x) ! p" "rounders (\<lambda>x. x) ! p \<le> of_int 1 / 2 ^ (rounder_bits ! p)" "rounder_bits ! p \<le> 31"
    "0 < pow 10 (int p)" "pow 10 (int p) < 2 ^ (rounder_bits ! p)"
proof -
  have "p \<in> set [0..<11]" using assms by auto
  moreover have "\<forall>p \<in> set [0..<11]. pow 10 (int p) = [1, 10, 100, 1000, 10000, 100000, 1000000, 10000000, 100000000, 1000000000, 1410065408] ! p"
    using pow_10 by (simp add: upt_rec)
  ultimately show "0 \<le> rounders (\<lambda>x. x) ! p" "rounders (\<lambda>x. x) ! p \<le> of_int 1 / 2 ^ (rounder_bits ! p)" "rounder_bits ! p \<le> 31"
    "0 < pow 10 (int p)" "pow 10 (int p) < 2 ^ (rounder_bits ! p)"
    by (auto simp: upt_rec rounders_def rounder_bits_def)
qed

lemma rounders_nth: "p \<le> 10 \<Longrightarrow> rounders rnd ! p = rnd (rounders (\<lambda>x. x) ! p)"
  by (simp add: rounders_def del: list.map)

text \<open>Behind the rounder a whole number has the same whole part, and digits that all are 0.\<close>

lemma rounded_whole:
  assumes "ieee_rounding rnd" "0 \<le> v" "v < 2 ^ 22" "p \<le> 10" "f = rnd (of_int v + rounders rnd ! p)"
  shows "trunc f = v" "trunc (rnd (rnd (f - of_int v) * of_int (pow 10 (int p)))) = 0"
proof -
  let ?k = "rounder_bits ! p"
  note b = rounder_less [OF assms(4)]
  have k: "1 \<le> ?k" using assms(4) by (auto simp: rounder_bits_def le_Suc_eq numeral_eq_Suc)
  have p2: "v * 2 ^ ?k + 1 \<le> 2 ^ 53"
  proof -
    have "v * 2 ^ ?k \<le> (2 ^ 22 - 1) * 2 ^ 31" using assms(2,3) power_increasing [OF b(3), of "2 :: int"] by (intro mult_mono) auto
    then show ?thesis by simp
  qed
  have r: "0 \<le> rounders rnd ! p" "rounders rnd ! p \<le> 1 / 2 ^ ?k"
    using ieee_pos [OF assms(1) b(1)] ieee_frac_le [OF assms(1) b(2)] b(3) by (simp_all add: rounders_nth [OF assms(4), of rnd])
  have f: "of_int v \<le> f" "f \<le> of_int v + 1 / 2 ^ ?k"
  proof -
    have v: "\<bar>v\<bar> \<le> 2 ^ 53" using assms(2,3) by simp
    have "of_int v / 2 ^ 0 \<le> f" unfolding assms(5) by (rule ieee_frac_ge [OF assms(1) _ v]) (simp_all add: r(1))
    then show "of_int v \<le> f" by simp
    have "f \<le> of_int (v * 2 ^ ?k + 1) / 2 ^ ?k" unfolding assms(5)
    proof (rule ieee_frac_le [OF assms(1)])
      show "of_int v + rounders rnd ! p \<le> of_int (v * 2 ^ ?k + 1) / 2 ^ ?k" using r(2) by (simp add: add_divide_distrib)
      show "\<bar>v * 2 ^ ?k + 1\<bar> \<le> 2 ^ 53" using p2 assms(2) by simp
      show "?k \<le> 1000" using b(3) by simp
    qed
    then show "f \<le> of_int v + 1 / 2 ^ ?k" by (simp add: add_divide_distrib)
  qed
  have "1 / 2 ^ ?k < (1 :: rat)" using k by simp
  with f have "f < of_int v + 1" by linarith
  with f(1) assms(2) show "trunc f = v" by (intro trunc_int)
  define g where "g = rnd (f - of_int v)"
  have g: "0 \<le> g" "g \<le> of_int 1 / 2 ^ ?k"
    using ieee_pos [OF assms(1), of "f - of_int v"] ieee_frac_le [OF assms(1), of "f - of_int v" 1 ?k] f b(3) by (auto simp: g_def)
  have le: "g * of_int (pow 10 (int p)) \<le> of_int (pow 10 (int p)) / 2 ^ ?k"
    using mult_right_mono [OF g(2), of "of_int (pow 10 (int p))"] b(4) by simp
  have "pow 10 (int p) < 2 ^ 31" using b(5) power_increasing [OF b(3), of "2 :: int"] by linarith
  then have "\<bar>pow 10 (int p)\<bar> \<le> 2 ^ 53" using b(4) by simp
  from ieee_frac_le [OF assms(1) le this] b(3) have "rnd (g * of_int (pow 10 (int p))) \<le> of_int (pow 10 (int p)) / 2 ^ ?k" by simp
  also have "\<dots> < 1"
  proof -
    have "of_int (pow 10 (int p)) < (of_int (2 ^ ?k) :: rat)" using b(5) by (simp only: of_int_less_iff)
    then show ?thesis by simp
  qed
  finally have "trunc (rnd (g * of_int (pow 10 (int p)))) = 0"
    by (rule trunc_0 [rotated]) (use ieee_pos [OF assms(1)] g(1) b(4) in auto)
  then show "trunc (rnd (rnd (f - of_int v) * of_int (pow 10 (int p)))) = 0" by (simp add: g_def)
qed

text \<open>What \<open>ftoa\<close> writes of a number, when nothing or only a point is behind the digits.\<close>

lemma lsd_text: "0 \<le> v \<Longrightarrow> v < 2147483648 \<Longrightarrow> itoa_text v 10 31 = (if v = 0 then [48] else rev (lsd 10 (nat v)))"
  using length_lsd [of 10 "nat v" 31] by (auto simp: itoa_text_def Let_def lsd.simps [of 10 "nat v"] byte_def)

lemma int_text:
  assumes "0 \<le> v" "v < 2147483648"
  shows "(if v = 0 then (ptr + 1, m(ptr := 48)) else let (p, m) = intLoop v ptr m in (p, turnLoop p ptr m)) =
    (ptr + length (itoa_text v 10 31), wr m ptr (itoa_text v 10 31))"
  using intLoop_wr [of "nat v" ptr m] turnLoop_wr [of ptr "lsd 10 (nat v)" m] assms by (simp add: lsd_text)

lemma negative_text: "0 < v \<Longrightarrow> itoa_text (- v) 10 31 = 45 # itoa_text v 10 31"
  by (auto simp: itoa_text_def Let_def byte_def)

lemma ftoa_whole:
  assumes "ieee_rounding rnd" "0 \<le> v" "v < 2 ^ 22" "0 \<le> precision" "precision \<le> 10"
    and "f = (if precision \<noteq> 0 then rnd (of_int v + rounders rnd ! nat precision) else of_int v)"
  shows "to_long f = Some v"
    "\<not> (precision \<noteq> 0 \<and> trunc (rnd (rnd (f - rnd (of_int v)) * of_int (pow 10 precision))) \<noteq> 0)"
proof -
  have "trunc f = v"
  proof (cases "precision = 0")
    case True
    then show ?thesis using assms(2,6) by (simp add: trunc_int)
  next
    case False
    with rounded_whole(1) [OF assms(1-3), of "nat precision" f] assms(4-6) show ?thesis by simp
  qed
  then show "to_long f = Some v" using assms(2,3) by (simp add: to_long_def)
  have v: "rnd (of_int v) = of_int v" by (rule ieee_int [OF assms(1)]) (use assms(2,3) in simp)
  show "\<not> (precision \<noteq> 0 \<and> trunc (rnd (rnd (f - rnd (of_int v)) * of_int (pow 10 precision))) \<noteq> 0)"
    using rounded_whole(2) [OF assms(1-3), of "nat precision" f] assms(4-6) by (cases "precision = 0") (simp_all add: v)
qed

lemma ftoa_prints:
  assumes "ieee_rounding rnd" "\<bar>v\<bar> < 2 ^ 22"
  shows "ftoa rnd (of_int v) buf precision m = Some (wr m buf (itoa_text v 10 31 @ [0]))"
proof -
  define a where "a = \<bar>v\<bar>"
  define ptr where "ptr = (if v < 0 then buf + 1 else buf)"
  define m1 where "m1 = (if v < 0 then m(buf := 45) else m)"
  define pr where "pr = (let precision = (if precision > MAX_PRECISION then MAX_PRECISION else precision) in
    if precision < 0 then autoPrecision (of_int a) else precision)"
  define f where "f = (if pr \<noteq> 0 then rnd (of_int a + rounders rnd ! nat pr) else of_int a)"
  have pr: "0 \<le> pr" "pr \<le> 10" by (simp_all add: pr_def Let_def MAX_PRECISION_def autoPrecision_def)
  have a: "0 \<le> a" "a < 2 ^ 22" using assms(2) by (simp_all add: a_def)
  then have a31: "a < 2147483648" by simp
  note w = ftoa_whole [OF assms(1) a pr f_def]
  have sign: "(if of_int v < (0 :: rat) then (- of_int v, buf + 1, m(buf := 45)) else (of_int v, buf, m)) = (of_int a :: rat, ptr, m1)"
    by (simp add: a_def ptr_def m1_def)
  have "ftoa rnd (of_int v) buf precision m =
    do {
      intPart \<leftarrow> to_long f;
      let f = rnd (f - rnd (of_int intPart));
      let (ptr, m) = (if intPart = 0 then (ptr + 1, m1(ptr := 48)) else let (p, m) = intLoop intPart ptr m1 in (p, turnLoop p ptr m));
      let (ptr, m) = (if pr \<noteq> 0 \<and> trunc (rnd (f * of_int (pow 10 pr))) \<noteq> 0 then fracLoop rnd (nat pr) f (ptr + 1) (m(ptr := 46)) else (ptr, m));
      Some (m(ptr := 0))
    }"
    unfolding ftoa_def f_def pr_def Let_def sign prod.case by (rule refl)
  also have "\<dots> = Some ((wr m1 ptr (itoa_text a 10 31))(ptr + length (itoa_text a 10 31) := 0))"
    by (simp only: w(1) int_text [OF a(1) a31, unfolded Let_def] bind.bind_lunit Let_def w(2) if_False prod.case)
  also have "\<dots> = Some (wr m1 ptr (itoa_text a 10 31 @ [0]))" by (simp add: wr_append)
  also have "wr m1 ptr (itoa_text a 10 31 @ [0]) = wr m buf (itoa_text v 10 31 @ [0])"
    using negative_text [of "- v"] by (auto simp: a_def ptr_def m1_def wr_Cons)
  finally show ?thesis .
qed

section \<open>Reading a whole number\<close>

lemma atofLoop_digits:
  assumes "ieee_float fl" "ieee_rounding rnd" "cstr m arr ds" "decimal ds" "0 \<le> v"
    and "foldl (\<lambda>a c. a * 10 + digit_val c) v ds \<le> 2 ^ 24"
  shows "atofLoop fl rnd m arr False scale (of_int v) = Some (of_int (foldl (\<lambda>a c. a * 10 + digit_val c) v ds))"
  using assms(3-)
proof (induction ds arbitrary: arr v)
  case Nil
  then show ?case by (simp add: atofLoop.simps)
next
  case (Cons c ds)
  let ?v = "v * 10 + digit_val c"
  have c: "48 \<le> uint c" "uint c \<le> 57" and ds: "decimal ds" using Cons.prems(2) by (auto simp: decimal_def)
  then have s: "sint c - 48 = digit_val c" "c \<noteq> 46" by (auto simp: sint_ascii digit_val_def)
  have "0 \<le> digit_val c" using c by (simp add: digit_val_def)
  then have v: "0 \<le> ?v" "?v \<le> 2 ^ 24" using digits_ge [OF _ ds, of ?v] Cons.prems(3,4) by auto
  have "rnd (of_int v * 10) = of_int (v * 10)" using ieee_int [OF assms(2), of "v * 10"] v \<open>0 \<le> digit_val c\<close> Cons.prems(3) by simp
  moreover have "rnd (of_int ?v) = of_int ?v" by (rule ieee_int [OF assms(2)]) (use v in simp)
  moreover have "fl (of_int ?v) = of_int ?v" by (rule float_int [OF assms(1)]) (use v in simp)
  ultimately have "fl (rnd (rnd (of_int v * 10) + of_int (digit_val c))) = of_int ?v" by simp
  moreover have "m arr = c" "c \<noteq> 0" "cstr m (Suc arr) ds" using Cons.prems(1) by auto
  ultimately show ?case using Cons.IH [of "Suc arr" ?v] Cons.prems(4) ds v(1) s
    by (subst atofLoop.simps) (simp add: Let_def)
qed

lemma text_decimal: "0 \<le> v \<Longrightarrow> v < 2147483648 \<Longrightarrow> decimal (itoa_text v 10 31) \<and> digits_value 10 (itoa_text v 10 31) = v"
  using lsd_decimal [of "nat v"] digits_value_lsd [of 10 "nat v"]
  by (auto simp: lsd_text decimal_def digits_value_def digit_val_def)

lemma atof_text:
  assumes "ieee_float fl" "ieee_rounding rnd" "\<bar>v\<bar> \<le> 2 ^ 24" "cstr m arr (itoa_text v 10 31)"
  shows "atof fl rnd m arr = Some (of_int v)"
proof -
  let ?a = "\<bar>v\<bar>"
  have d: "decimal (itoa_text ?a 10 31)" "digits_value 10 (itoa_text ?a 10 31) = ?a" using text_decimal [of ?a] assms(3) by simp_all
  have run: "atofLoop fl rnd m p False 1 0 = Some (of_int ?a)" if "cstr m p (itoa_text ?a 10 31)" for p
    using atofLoop_digits [OF assms(1,2) that d(1), of 0 1] d(2) assms(3) by (simp add: digits_value_def)
  show ?thesis
  proof (cases "v < 0")
    case True
    then have "itoa_text v 10 31 = 45 # itoa_text ?a 10 31" using negative_text [of ?a] by simp
    with assms(4) have "m arr = 45" "cstr m (Suc arr) (itoa_text ?a 10 31)" by auto
    with run True show ?thesis by (simp add: atof_def)
  next
    case False
    then have c: "cstr m arr (itoa_text ?a 10 31)" using assms(4) by simp
    have "itoa_text ?a 10 31 \<noteq> []" by (auto simp: itoa_text_def Let_def)
    then have "m arr \<in> set (itoa_text ?a 10 31)" using c by (cases "itoa_text ?a 10 31") auto
    then have "m arr \<noteq> 45" using decimal_no_minus [OF d(1)] by metis
    with run [OF c] False show ?thesis by (simp add: atof_def)
  qed
qed

section \<open>Properties\<close>

text \<open>C40: on whole numbers below \<open>2 ^ 22\<close> and with every precision, the wrapped power of precision 10 and the
  chosen one of a negative precision included, \<open>ftoa\<close> writes the text that \<open>itoa\<close> writes and nothing else, and
  \<open>atof\<close> reads the number back, exactly, whatever the rounding does that IEEE 754 leaves open.\<close>

theorem ftoa_atof:
  assumes "ieee_float fl" "ieee_rounding rnd" "\<bar>v\<bar> < 2 ^ 22"
  shows "\<exists>m'. ftoa rnd (of_int v) buf precision m = Some m' \<and> itoa v buf 10 31 m = (buf, m') \<and> atof fl rnd m' buf = Some (of_int v)"
proof -
  have v: "- 2147483648 < v" "v < 2147483648" "\<bar>v\<bar> \<le> 2 ^ 24" using assms(3) by auto
  have c: "cstr (wr m buf (itoa_text v 10 31 @ [0])) buf (itoa_text v 10 31)" using itoa_text_value(1) [of 10 v 31] v by simp
  show ?thesis using ftoa_prints [OF assms(2,3)] itoa_wr [of 10 v buf 31 m] v(1,2) atof_text [OF assms(1,2) v(3) c] by simp
qed

theorem ftoa_atof_witness:
  "\<exists>m'. ftoa (\<lambda>x. x) (- 305) 64 10 (\<lambda>_. 0) = Some m' \<and> itoa (- 305) 64 10 31 (\<lambda>_. 0) = (64, m') \<and> atof (\<lambda>x. x) (\<lambda>x. x) m' 64 = Some (- 305)"
  using ftoa_atof [of "\<lambda>x. x" "\<lambda>x. x" "- 305" 64 10 "\<lambda>_. 0"] by (simp add: ieee_float_def ieee_rounding_def mono_def)

text \<open>with a precision of 1, \<open>ftoa\<close> writes a number with one digit behind the point as far as the point, and
  leaves the digit out: the loop over the digits looks at the precision after it has counted it down.\<close>

theorem ftoa_loses_digit:
  assumes "ieee_rounding rnd" "0 \<le> v" "v < 2 ^ 20" "1 \<le> d" "d \<le> 9"
  shows "ftoa rnd (rnd (of_int v + of_int d / 10)) buf 1 m = Some (wr m buf (itoa_text v 10 31 @ [46, 0]))"
proof -
  let ?e = "1 / 2 ^ 31 :: rat"
  define f0 where "f0 = rnd (of_int v + of_int d / 10)"
  define f where "f = rnd (f0 + rounders rnd ! nat 1)"
  define g where "g = rnd (f - of_int v)"
  have vr: "of_int v \<le> (of_int (2 ^ 20 - 1) :: rat)" "0 \<le> (of_int v :: rat)" using assms(2,3) by (simp_all only: of_int_le_iff of_int_0_le_iff)
  have dr: "1 \<le> (of_int d :: rat)" "(of_int d :: rat) \<le> 9" using assms(4,5) by simp_all
  have f0: "of_int v + of_int d / 10 - ?e \<le> f0" "f0 \<le> of_int v + of_int d / 10 + ?e"
    using ieee_near [OF assms(1), of "of_int v + of_int d / 10"] vr dr by (simp_all add: f0_def)
  have r: "5 / 100 - ?e \<le> rounders rnd ! 1" "rounders rnd ! 1 \<le> 5 / 100 + ?e"
    using ieee_near [OF assms(1), of "5 / 100"] by (simp_all add: rounders_def)
  have f: "f0 + rounders rnd ! 1 - ?e \<le> f" "f \<le> f0 + rounders rnd ! 1 + ?e"
    using ieee_near [OF assms(1), of "f0 + rounders rnd ! 1"] vr dr f0 r by (simp_all add: f_def)
  have fv: "14 / 100 \<le> f - of_int v" "f - of_int v \<le> 96 / 100" using f0 r f dr by simp_all
  have g: "14 / 100 - ?e \<le> g" "g \<le> 96 / 100 + ?e" using ieee_near [OF assms(1), of "f - of_int v"] fv by (simp_all add: g_def)
  have v: "rnd (of_int v) = of_int v" by (rule ieee_int [OF assms(1)]) (use assms(2,3) in simp)
  have "trunc f = v" using fv assms(2) by (intro trunc_int) simp_all
  then have long: "to_long f = Some v" using assms(2,3) by (simp add: to_long_def)
  have ge1: "1 \<le> rnd (g * 10)" using ieee_near(1) [OF assms(1), of "g * 10"] ieee_frac_ge [OF assms(1), of 1 0 "g * 10"] g by simp
  then have "1 \<le> \<lfloor>rnd (g * 10)\<rfloor>" by simp
  then have nz: "\<lfloor>rnd (g * 10)\<rfloor> \<noteq> 0" by linarith
  have dot: "trunc (rnd (g * of_int (pow 10 1))) \<noteq> 0"
    using ge1 nz by (simp add: trunc_def pow_def powLoop.simps)
  have "rnd g \<le> of_int 31 / 2 ^ 5" by (rule ieee_frac_le [OF assms(1)]) (use g in simp_all)
  moreover have "0 \<le> rnd g" by (rule ieee_pos [OF assms(1)]) (use g in simp)
  ultimately have stop: "trunc (rnd (g * of_int (pow 10 0))) = 0" by (simp add: trunc_0 pow_def powLoop.simps)
  have "\<not> f0 < 0" using f0(1) vr dr by simp
  then have cases: "(f0 < 0) = False" "(1 > MAX_PRECISION) = False" "((1 :: int) < 0) = False" "((1 :: int) \<noteq> 0) = True"
    by (simp_all add: MAX_PRECISION_def)
  have v31: "v < 2147483648" using assms(3) by simp
  have "ftoa rnd f0 buf 1 m = do {
      intPart \<leftarrow> to_long f;
      let f = rnd (f - rnd (of_int intPart));
      let (ptr, m) = (if intPart = 0 then (buf + 1, m(buf := 48)) else let (p, m) = intLoop intPart buf m in (p, turnLoop p buf m));
      let (ptr, m) = (if trunc (rnd (f * of_int (pow 10 1))) \<noteq> 0 then fracLoop rnd (nat 1) f (ptr + 1) (m(ptr := 46)) else (ptr, m));
      Some (m(ptr := 0))
    }"
    by (simp only: ftoa_def f_def Let_def cases if_True if_False prod.case HOL.simp_thms)
  also have "\<dots> = Some (wr m buf (itoa_text v 10 31 @ [46, 0]))"
  proof -
    have "fracLoop rnd (nat 1) g p m' = (p, m')" for p m' using stop by simp
    then show ?thesis
      by (simp only: long bind.bind_lunit Let_def int_text [OF assms(2) v31, unfolded Let_def] prod.case v g_def [symmetric] dot if_True not_False_eq_True)
        (simp add: wr_append wr_Cons fun_upd_def)
  qed
  finally show ?thesis by (simp add: f0_def)
qed

theorem ftoa_loses_digit_witness:
  "ftoa (\<lambda>x. x) (5 / 2) 64 1 (\<lambda>_. 0) = Some (wr (\<lambda>_. 0) 64 [50, 46, 0])"
  using ftoa_loses_digit [of "\<lambda>x. x" 2 5 64 "\<lambda>_. 0"] by (simp add: ieee_rounding_def mono_def itoa_text_def lsd.simps digit_char_def byte_def)

end
