(* ===== verification/Programs.thy ===== *)
theory Programs
  imports Commands_Props Libc_Float
begin

text \<open>
  \<open>shell/commands/quadratic.c\<close> in \<open>src/Userland/SampleCodeModule\<close>, and what it, \<open>printmem\<close>, \<open>loop\<close> and the
  greeting \<open>bottler\<close> of \<open>Commands\<close> write.
\<close>

section \<open>quadratic\<close>

text \<open>A number goes through one of the buffers, of 30 bytes.\<close>

definition writeFloat :: "rounding \<Rightarrow> rat \<Rightarrow> addr \<Rightarrow> mem \<Rightarrow> (ucall \<times> mem) option" where
  "writeFloat rnd f buffer m =
     do {
       m \<leftarrow> ftoa rnd f buffer 10 m;
       len \<leftarrow> strlen m buffer;
       t \<leftarrow> printed m buffer;
       if len < 30 then Some (t, m) else None
     }"

text \<open>\<open>quadSolver\<close>, in assembly, is a parameter: the solutions, or \<open>None\<close> when they are not real.\<close>

definition quadratic :: "rounding \<Rightarrow> rounding \<Rightarrow> (rat \<Rightarrow> rat \<Rightarrow> rat \<Rightarrow> (rat \<times> rat) option) \<Rightarrow> addr \<Rightarrow> addr \<Rightarrow> mem \<Rightarrow> int \<Rightarrow> (nat \<Rightarrow> addr) \<Rightarrow>
    ucall list option" where
  "quadratic fl rnd quadSolver buffer buffer2 m argc argv =
     (if argc \<noteq> 4 then Some [lit ''quadratic receives 3 doubles\<newline>'' 30, SysExit]
      else do {
        a \<leftarrow> atof fl rnd m (argv 1);
        b \<leftarrow> atof fl rnd m (argv 2);
        c \<leftarrow> atof fl rnd m (argv 3);
        if a = 0 then Some [lit ''First argument cannot be 0\<newline>'' 28, SysExit]
        else case quadSolver a b c of
          None \<Rightarrow> Some [lit ''Not real!\<newline>'' 11, SysExit]
        | Some (sol1, sol2) \<Rightarrow>
            do {
              let m = wr m buffer (replicate 30 0);
              (ta, m) \<leftarrow> writeFloat rnd a buffer m;
              (tb, m) \<leftarrow> writeFloat rnd b buffer m;
              (tc, m) \<leftarrow> writeFloat rnd c buffer m;
              (t1, m) \<leftarrow> writeFloat rnd sol1 buffer m;
              let m = wr m buffer2 (replicate 30 0);
              (t2, m) \<leftarrow> writeFloat rnd sol2 buffer2 m;
              Some [lit ''Roots for '' 11, ta, lit ''x^2 + '' 7, tb, lit ''x + '' 4, tc, Print [10], t1, lit '' and '' 6, t2,
                Print [- 1], Print [10], SysExit]
            }
      })"

section \<open>Properties\<close>

lemma printed_text: "cstr m a t \<Longrightarrow> length t < 2147483648 \<Longrightarrow> printed m a = Some (Print t)"
  by (simp add: printed_def strlen_len) (simp add: cstr_def)

lemma short_text:
  assumes "\<bar>v\<bar> < 10 ^ k" "1 \<le> k" "k \<le> 31"
  shows "length (itoa_text v 10 31) \<le> k + 1"
proof -
  have "nat \<bar>v\<bar> < 10 ^ k" using assms(1) by (simp add: nat_less_iff)
  then show ?thesis using length_lsd [of 10 "nat \<bar>v\<bar>" k] assms(2,3) by (auto simp: itoa_text_def Let_def)
qed

lemma writeFloat_whole:
  assumes "ieee_rounding rnd" "\<bar>v\<bar> < 2 ^ 22"
  shows "\<exists>m'. writeFloat rnd (of_int v) buffer m = Some (Print (itoa_text v 10 31), m')"
proof -
  let ?m = "wr m buffer (itoa_text v 10 31 @ [0])"
  have c: "cstr ?m buffer (itoa_text v 10 31)" using itoa_text_value(1) [of 10 v 31] assms(2) by simp
  have l: "length (itoa_text v 10 31) \<le> 8" using short_text [of v 7] assms(2) by simp
  show ?thesis using ftoa_prints [OF assms] strlen_len [OF c] printed_text [OF c] l by (simp add: writeFloat_def)
qed

text \<open>With whole coefficients and solutions \<open>quadratic\<close> reads what was typed and prints the equation and its solutions.\<close>

theorem quadratic_whole:
  assumes "ieee_float fl" "ieee_rounding rnd" "\<forall>v \<in> {a, b, c, r, q}. \<bar>v\<bar> < 2 ^ 22" "a \<noteq> 0"
    and "cstr m (argv 1) (itoa_text a 10 31)" "cstr m (argv 2) (itoa_text b 10 31)" "cstr m (argv 3) (itoa_text c 10 31)"
    and "quadSolver (of_int a) (of_int b) (of_int c) = Some (of_int r, of_int q)"
  shows "quadratic fl rnd quadSolver buffer buffer2 m 4 argv =
    Some [lit ''Roots for '' 11, Print (itoa_text a 10 31), lit ''x^2 + '' 7, Print (itoa_text b 10 31), lit ''x + '' 4,
      Print (itoa_text c 10 31), Print [10], Print (itoa_text r 10 31), lit '' and '' 6, Print (itoa_text q 10 31), Print [- 1], Print [10], SysExit]"
proof -
  have read: "atof fl rnd m (argv 1) = Some (of_int a)" "atof fl rnd m (argv 2) = Some (of_int b)" "atof fl rnd m (argv 3) = Some (of_int c)"
    using assms(3,5-7) by (auto intro!: atof_text [OF assms(1,2)])
  have w: "\<exists>m'. writeFloat rnd (of_int v) p m = Some (Print (itoa_text v 10 31), m')" if "v \<in> {a, b, c, r, q}" for v p m
    using writeFloat_whole [OF assms(2)] assms(3) that by blast
  obtain m1 where 1: "writeFloat rnd (of_int a) buffer (wr m buffer (replicate 30 0)) = Some (Print (itoa_text a 10 31), m1)" using w by blast
  obtain m2 where 2: "writeFloat rnd (of_int b) buffer m1 = Some (Print (itoa_text b 10 31), m2)" using w by blast
  obtain m3 where 3: "writeFloat rnd (of_int c) buffer m2 = Some (Print (itoa_text c 10 31), m3)" using w by blast
  obtain m4 where 4: "writeFloat rnd (of_int r) buffer m3 = Some (Print (itoa_text r 10 31), m4)" using w by blast
  obtain m5 where 5: "writeFloat rnd (of_int q) buffer2 (wr m4 buffer2 (replicate 30 0)) = Some (Print (itoa_text q 10 31), m5)" using w by blast
  show ?thesis using assms(4) by (simp add: quadratic_def read assms(8) 1 2 3 4 5 del: One_nat_def)
qed

text \<open>A number of eight hexadecimal digits does not fit in the buffer of \<open>printmem\<close>.\<close>

theorem printmem_overrun: "memLoop b [0x10000000] (\<lambda>_. 0) = None"
proof -
  let ?t = "itoa_text 0x10000000 16 31"
  have t: "?t = [49, 48, 48, 48, 48, 48, 48, 48]" by (simp add: itoa_text_def lsd.simps digit_char_def byte_def)
  have "itoa_u 0x10000000 b 16 (\<lambda>_. 0) = Some (b, wr (\<lambda>_. 0) b (?t @ [0]))" by (simp add: itoa_u_eq itoa_wr)
  moreover have c: "cstr (wr (\<lambda>_. 0) b (?t @ [0])) b ?t" by (rule cstr_wr) (simp add: t)
  ultimately show ?thesis using strlen_len [OF c] printed_text [OF c] by (simp add: t)
qed

text \<open>\<open>strcat\<close> onto the string at \<open>p\<close>, in a block that the other string is not in.\<close>

lemma strcat_text:
  assumes "cstr m p s" "cstr m q t" "p + length s + length t < q \<or> q + length t < p"
  shows "\<exists>m'. strcat p q m = Some (p, m') \<and> cstr m' p (s @ t) \<and> (\<forall>x. x < p \<or> p + length s + length t < x \<longrightarrow> m' x = m x)"
proof -
  let ?m = "wr m (p + length s) (t @ [0])"
  have "strcat p q m = Some (p, ?m)"
    using catLoop_wr [OF assms(2), of "p + length s"] assms(3) by (auto simp: strcat_def strEnd_end [OF assms(1)])
  moreover have "bytes ?m p (length s) = bytes m p (length s)" by (simp add: bytes_outside)
  then have "cstr ?m p (s @ t)" using assms(1,2) cstr_wr [of t m "p + length s"] by (simp add: cstr_append) (simp add: cstr_def)
  moreover have "?m x = m x" if "x < p \<or> p + length s + length t < x" for x using that by (auto simp: wr_def)
  ultimately show ?thesis by blast
qed

text \<open>\<open>loop\<close> prints its number, a space and the text, round after round, when they fit in the block.\<close>

theorem loop_prints:
  assumes "atoi m (argv 1) = Some secs" "cstr m space [32]" "cstr m (argv 2) t" "0 \<le> pid" "pid < 2147483648" "length t \<le> 87"
    and "space + 1 < buffer \<or> buffer + 100 \<le> space" "argv 2 + length t < buffer \<or> buffer + 100 \<le> argv 2"
  shows "loop_c pid buffer space n m 3 argv =
    Some (concat (replicate n [Print (itoa_text pid 10 31 @ [32] @ t), Print [10], SysSleep secs]))"
proof -
  let ?i = "itoa_text pid 10 31"
  let ?m = "wr m buffer (?i @ [0])"
  have l: "length ?i \<le> 11" using short_text [of pid 10] assms(4,5) by simp
  have i: "itoa_u pid buffer 10 m = Some (buffer, ?m)" using itoa_u_eq [of 10 pid buffer m] itoa_wr [of 10 pid buffer 31 m] assms(4,5) by simp
  have c: "cstr ?m buffer ?i" using itoa_text_value(1) [of 10 pid 31] assms(4,5) by simp
  have s: "cstr ?m space [32]" using cstr_wr_outside [of space "[32]" buffer "?i @ [0]" m] assms(2,7) l by auto
  have t: "cstr ?m (argv 2) t" using cstr_wr_outside [of "argv 2" t buffer "?i @ [0]" m] assms(3,8) l by auto
  obtain m1 where 1: "strcat buffer space ?m = Some (buffer, m1)" "cstr m1 buffer (?i @ [32])"
      "\<forall>x. x < buffer \<or> buffer + length ?i + 1 < x \<longrightarrow> m1 x = ?m x"
    using strcat_text [OF c s] assms(7) l by auto
  have "cstr m1 (argv 2) t = cstr ?m (argv 2) t" using 1(3) assms(8) l by (intro cstr_cong) auto
  with t have t1: "cstr m1 (argv 2) t" by simp
  obtain m2 where 2: "strcat buffer (argv 2) m1 = Some (buffer, m2)" "cstr m2 buffer (?i @ [32] @ t)"
    using strcat_text [OF 1(2) t1] assms(6,8) l by auto
  show ?thesis using strlen_len [OF 2(2)] printed_text [OF 2(2)] l assms(6)
    by (simp add: loop_c_def assms(1) i 1(1) 2(1) MAX_PID_LEN_def del: One_nat_def)
qed

text \<open>The greeting prints bytes that are none of its own.\<close>

theorem bottler_leaks: "bottler (\<lambda>s i. 65) \<noteq> bottler (\<lambda>s i. 66)"
  by (simp add: bottler_def over_def upt_rec numeral_eq_Suc)

end
