(* ===== verification/Packer_Args.thy ===== *)
theory Packer_Args
  imports Boot
begin

text \<open>
  The command line of the module packer, \<open>src/Toolchain/ModulePacker/main.c\<close>. The calls that \<open>argp_parse\<close> makes to
  \<open>parse_opt\<close> for a command line are a parameter: a key, an argument and \<open>state->arg_num\<close>. The answer
  \<open>ARGP_ERR_UNKNOWN\<close> has no effect, since the keys that get it are \<open>argp\<close>'s own. \<open>None\<close> is an access outside \<open>args\<close>.
\<close>

section \<open>Definitions\<close>

abbreviation (input) MAX_FILES :: nat where "MAX_FILES \<equiv> 128"

definition OUTPUT_FILE :: string where
  "OUTPUT_FILE = ''packedKernel.bin''"

record arguments =
  args_p :: "string option list"
  output_file :: string
  count_p :: nat

datatype argp_key = Key_o | ARGP_KEY_ARG | ARGP_KEY_END | Other_key

text \<open>\<open>Usage_exit\<close>: \<open>argp_usage\<close> ends the program.\<close>

datatype parsed = Parsed arguments | Unknown_key | Usage_exit

definition parse_opt :: "argp_key \<Rightarrow> string \<Rightarrow> nat \<Rightarrow> arguments \<Rightarrow> parsed option" where
  "parse_opt key arg arg_num st =
     (case key of
        Key_o \<Rightarrow> Some (Parsed (st\<lparr>output_file := arg\<rparr>))
      | ARGP_KEY_ARG \<Rightarrow> if arg_num < MAX_FILES then Some (Parsed (st\<lparr>args_p := (args_p st)[arg_num := Some arg]\<rparr>)) else None
      | ARGP_KEY_END \<Rightarrow> if arg_num < 1 then Some Usage_exit else Some (Parsed (st\<lparr>count_p := arg_num\<rparr>))
      | Other_key \<Rightarrow> Some Unknown_key)"

type_synonym argp_calls = "(argp_key \<times> string \<times> nat) list"

fun parseLoop :: "argp_calls \<Rightarrow> arguments \<Rightarrow> arguments option option" where
  "parseLoop [] st = Some (Some st)"
| "parseLoop ((key, arg, n) # es) st =
     do {
       r \<leftarrow> parse_opt key arg n st;
       case r of Parsed st' \<Rightarrow> parseLoop es st' | Unknown_key \<Rightarrow> parseLoop es st | Usage_exit \<Rightarrow> Some None
     }"

text \<open>The exit status, and the name and the contents of the file that was written.\<close>

definition packer :: "(string list \<Rightarrow> argp_calls) \<Rightarrow> files \<Rightarrow> string list \<Rightarrow> (int \<times> (string \<times> u8 list) option) option" where
  "packer argp fs argv =
     do {
       r \<leftarrow> parseLoop (argp argv) \<lparr>args_p = replicate MAX_FILES None, output_file = OUTPUT_FILE, count_p = 0\<rparr>;
       case r of
         None \<Rightarrow> Some (64, None)
       | Some st \<Rightarrow> do {
           fileArray \<leftarrow> those (take (count_p st) (args_p st));
           case packer_main fs fileArray of
             None \<Rightarrow> Some (1, None)
           | Some img \<Rightarrow> Some (0, Some (output_file st, img))
         }
     }"

section \<open>Properties\<close>

text \<open>The calls for a command line, but for the keys of \<open>argp\<close>'s own: the options, then the other words with
  their numbers, and the end.\<close>

definition calls_for :: "string list \<Rightarrow> string list \<Rightarrow> argp_calls" where
  "calls_for outs fnames = map (\<lambda>f. (Key_o, f, 0)) outs @ map (\<lambda>(i, f). (ARGP_KEY_ARG, f, i)) (enumerate 0 fnames) @ [(ARGP_KEY_END, [], length fnames)]"

lemma parseLoop_other: "parseLoop es st = parseLoop (filter (\<lambda>(k, _, _). k \<noteq> Other_key) es) st"
proof (induction es st rule: parseLoop.induct)
  case (2 key arg n es st)
  show ?case
  proof (cases "key = Other_key")
    case True
    then show ?thesis using 2(2) [of Unknown_key] by (simp add: parse_opt_def)
  next
    case False
    with 2 show ?thesis by (auto split: parsed.split bind_split)
  qed
qed simp

lemma parseLoop_outs: "parseLoop (map (\<lambda>f. (Key_o, f, 0)) outs @ es) st = parseLoop es (st\<lparr>output_file := last (output_file st # outs)\<rparr>)"
  by (induction outs arbitrary: st) (auto simp: parse_opt_def)

lemma parseLoop_args:
  "k + length fnames \<le> MAX_FILES \<Longrightarrow> parseLoop (map (\<lambda>(i, f). (ARGP_KEY_ARG, f, i)) (enumerate k fnames) @ es) st =
    parseLoop es (st\<lparr>args_p := take k (args_p st) @ map Some fnames @ drop (k + length fnames) (args_p st)\<rparr>)"
  if "length (args_p st) = MAX_FILES" for st
  using that
proof (induction fnames arbitrary: k st)
  case Nil
  then show ?case by simp
next
  case (Cons f fs)
  let ?st = "st\<lparr>args_p := (args_p st)[k := Some f]\<rparr>"
  have k: "k < MAX_FILES" "k < length (args_p st)" using Cons.prems by simp_all
  have t: "take (Suc k) ((args_p st)[k := Some f]) = take k (args_p st) @ [Some f]"
    using k(2) by (simp add: take_Suc_conv_app_nth)
  show ?case using Cons.IH [of "Suc k" ?st] Cons.prems k t by (simp add: parse_opt_def)
qed

lemma parseLoop_overflow:
  assumes "MAX_FILES < k + length fnames" "k \<le> MAX_FILES"
  shows "parseLoop (map (\<lambda>(i, f). (ARGP_KEY_ARG, f, i)) (enumerate k fnames) @ es) st = None"
  using assms by (induction fnames arbitrary: k st) (auto simp: parse_opt_def)

lemma those_Some: "those (map Some xs) = Some xs"
  by (induction xs) auto

text \<open>The packer writes the image of the files that are named on the command line, in their order, to the file of
  the last option \<open>-o\<close>; with more than 128 files it writes outside its array.\<close>

theorem packer_command_line:
  assumes "filter (\<lambda>(k, _, _). k \<noteq> Other_key) (argp argv) = calls_for outs fnames" "fnames \<noteq> []"
  shows "packer argp fs argv =
    (if MAX_FILES < length fnames then None
     else case packer_main fs fnames of None \<Rightarrow> Some (1, None) | Some img \<Rightarrow> Some (0, Some (last (OUTPUT_FILE # outs), img)))"
proof -
  let ?st = "\<lparr>args_p = replicate MAX_FILES None, output_file = OUTPUT_FILE, count_p = 0\<rparr>"
  let ?so = "?st\<lparr>output_file := last (OUTPUT_FILE # outs)\<rparr>"
  have run: "parseLoop (argp argv) ?st =
      parseLoop (map (\<lambda>(i, f). (ARGP_KEY_ARG, f, i)) (enumerate 0 fnames) @ [(ARGP_KEY_END, [], length fnames)]) ?so"
    unfolding parseLoop_other [of "argp argv"] assms(1) calls_for_def parseLoop_outs by simp
  show ?thesis
  proof (cases "MAX_FILES < length fnames")
    case True
    then show ?thesis using parseLoop_overflow [of 0 fnames _ ?so] by (simp add: packer_def run)
  next
    case False
    have "parseLoop (argp argv) ?st =
        Some (Some (?so\<lparr>args_p := map Some fnames @ replicate (MAX_FILES - length fnames) None, count_p := length fnames\<rparr>))"
      unfolding run using False assms(2) parseLoop_args [of ?so 0 fnames] by (simp add: parse_opt_def Suc_le_eq)
    then show ?thesis using False by (cases "packer_main fs fnames") (simp_all add: packer_def those_Some)
  qed
qed

theorem packer_usage: "argp argv = calls_for outs [] \<Longrightarrow> packer argp fs argv = Some (64, None)"
  by (simp add: packer_def calls_for_def parseLoop_outs parse_opt_def)

end
