(* ===== verification/Registry.thy ===== *)
theory Registry
  imports Bottler_Prelude
begin

text \<open>
  The registry of a process's allocations in the build with \<open>FREE_EXIT\<close>, \<open>src/Kernel/utils/scheduler.c\<close>: what
  \<open>malloc\<close> and \<open>free\<close> of the running process do to it, and the blocks that \<open>kill\<close> gives back. The array is taken to
  be the process's own; in the code it is a local array of \<open>enqueueProcess\<close>.
\<close>

section \<open>Definitions\<close>

definition MAX_MALLOCS :: nat where
  "MAX_MALLOCS = 40"

record registry =
  mmRegs :: "addr list"
  mmRegsQty :: nat

definition newRegs :: registry where
  "newRegs = \<lparr>mmRegs = replicate MAX_MALLOCS NULL, mmRegsQty = 0\<rparr>"

text \<open>The argument is the registry of \<open>currentProcess\<close>, \<open>None\<close> when there is none.\<close>

definition processMallocs :: "addr \<Rightarrow> registry option \<Rightarrow> registry option" where
  "processMallocs ptr cur =
     (case cur of
        None \<Rightarrow> None
      | Some r \<Rightarrow>
          if mmRegsQty r + 1 = MAX_MALLOCS then cur
          else Some (r\<lparr>mmRegs := (mmRegs r)[mmRegsQty r := ptr], mmRegsQty := mmRegsQty r + 1\<rparr>))"

function freesLoop :: "addr \<Rightarrow> nat \<Rightarrow> nat \<Rightarrow> bool \<Rightarrow> addr list \<Rightarrow> bool \<times> addr list" where
  "freesLoop ptr qty i flag regs =
     (if i < qty
      then let flag = (if regs ! i = ptr then True else flag);
               regs = (if flag then if i \<noteq> qty - 1 then regs[i := regs ! (i + 1)] else regs[i := NULL] else regs)
           in freesLoop ptr qty (i + 1) flag regs
      else (flag, regs))"
  by pat_completeness auto
termination
  by (relation "measure (\<lambda>(p, qty, i, f, r). qty - i)") auto

declare freesLoop.simps [simp del]

definition processFrees :: "addr \<Rightarrow> registry option \<Rightarrow> registry option" where
  "processFrees ptr cur =
     (case cur of
        None \<Rightarrow> None
      | Some r \<Rightarrow>
          let (flag, regs) = freesLoop ptr (mmRegsQty r) 0 False (mmRegs r)
          in Some (r\<lparr>mmRegs := regs, mmRegsQty := (if flag then mmRegsQty r - 1 else mmRegsQty r)\<rparr>))"

text \<open>The blocks that \<open>kill\<close> frees.\<close>

definition killFrees :: "registry \<Rightarrow> addr list" where
  "killFrees del = map (\<lambda>i. mmRegs del ! i) [0..<mmRegsQty del]"

section \<open>Properties\<close>

definition regs_ok :: "registry \<Rightarrow> bool" where
  "regs_ok r \<longleftrightarrow> length (mmRegs r) = MAX_MALLOCS \<and> mmRegsQty r < MAX_MALLOCS"

lemma killFrees_take: "regs_ok r \<Longrightarrow> killFrees r = take (mmRegsQty r) (mmRegs r)"
  by (rule nth_equalityI) (auto simp: killFrees_def regs_ok_def)

lemma newRegs_ok [simp]: "regs_ok newRegs" "killFrees newRegs = []"
  by (simp_all add: regs_ok_def newRegs_def killFrees_def MAX_MALLOCS_def)

lemma processMallocs_regs:
  assumes "regs_ok r"
  shows "\<exists>r'. processMallocs p (Some r) = Some r' \<and> regs_ok r' \<and>
    killFrees r' = (if length (killFrees r) < MAX_MALLOCS - 1 then killFrees r @ [p] else killFrees r)"
proof (cases "mmRegsQty r + 1 = MAX_MALLOCS")
  case True
  then show ?thesis using assms by (auto simp: processMallocs_def killFrees_def)
next
  case False
  let ?r = "r\<lparr>mmRegs := (mmRegs r)[mmRegsQty r := p], mmRegsQty := mmRegsQty r + 1\<rparr>"
  have ok: "regs_ok ?r" using assms False by (simp add: regs_ok_def)
  have "killFrees ?r = killFrees r @ [p]"
    using killFrees_take [OF ok] assms by (simp add: killFrees_take [OF assms] take_Suc_conv_app_nth regs_ok_def)
  then show ?thesis using assms False ok by (auto simp: processMallocs_def killFrees_def regs_ok_def)
qed

text \<open>Behind the first place that holds the pointer the entries move down by one.\<close>

lemma freesLoop_shift:
  assumes "length pre = i" "i + length xs = qty" "qty \<le> length regs" "regs = pre @ xs @ post"
  shows "freesLoop ptr qty i True regs = (True, pre @ (if xs = [] then [] else tl xs @ [NULL]) @ post)"
  using assms
proof (induction xs arbitrary: pre i regs)
  case Nil
  then show ?case by (subst freesLoop.simps) simp
next
  case (Cons x xs)
  show ?case
  proof (cases xs)
    case Nil
    with Cons.prems show ?thesis
      by (auto simp: freesLoop.simps [of ptr qty i] freesLoop.simps [of ptr qty qty] Let_def list_update_append)
  next
    case (Cons y ys)
    with Cons.IH [of "pre @ [y]" "Suc i" "pre @ y # xs @ post"] Cons.prems show ?thesis
      by (subst freesLoop.simps) (auto simp: Let_def list_update_append nth_append)
  qed
qed

lemma freesLoop_remove:
  assumes "length pre = i" "i + length xs = qty" "qty \<le> length regs" "regs = pre @ xs @ post"
  shows "freesLoop ptr qty i False regs = (ptr \<in> set xs, pre @ (if ptr \<in> set xs then remove1 ptr xs @ [NULL] else xs) @ post)"
  using assms
proof (induction xs arbitrary: pre i)
  case Nil
  then show ?case by (subst freesLoop.simps) simp
next
  case (Cons x xs)
  have at: "regs ! i = x" using Cons.prems by (simp add: nth_append)
  show ?case
  proof (cases "x = ptr")
    case True
    have "freesLoop ptr qty i False regs = freesLoop ptr qty i True regs"
      using True at Cons.prems(2) by (subst (1 2) freesLoop.simps) simp
    with freesLoop_shift [OF Cons.prems] True show ?thesis by simp
  next
    case False
    with Cons.IH [of "pre @ [x]" "Suc i"] Cons.prems at show ?thesis by (subst freesLoop.simps) (simp add: Let_def)
  qed
qed

lemma processFrees_regs:
  assumes "regs_ok r"
  shows "\<exists>r'. processFrees p (Some r) = Some r' \<and> regs_ok r' \<and> killFrees r' = remove1 p (killFrees r)"
proof -
  let ?xs = "take (mmRegsQty r) (mmRegs r)" and ?post = "drop (mmRegsQty r) (mmRegs r)"
  have len: "mmRegsQty r \<le> length (mmRegs r)" using assms by (simp add: regs_ok_def)
  have run: "freesLoop p (mmRegsQty r) 0 False (mmRegs r) =
      (p \<in> set ?xs, (if p \<in> set ?xs then remove1 p ?xs @ [NULL] else ?xs) @ ?post)"
    using freesLoop_remove [of "[]" 0 ?xs "mmRegsQty r" "mmRegs r" ?post p] len by simp
  show ?thesis
  proof (cases "p \<in> set ?xs")
    case True
    then have l: "length (remove1 p ?xs) = mmRegsQty r - 1" "0 < mmRegsQty r" using len by (cases "mmRegsQty r"; auto simp: length_remove1)+
    let ?r = "r\<lparr>mmRegs := remove1 p ?xs @ [NULL] @ ?post, mmRegsQty := mmRegsQty r - 1\<rparr>"
    have ok: "regs_ok ?r" using assms l by (auto simp: regs_ok_def)
    have "killFrees ?r = remove1 p (killFrees r)" using killFrees_take [OF ok] l(1) by (simp add: killFrees_take [OF assms])
    then show ?thesis using ok True by (simp add: processFrees_def run)
  next
    case False
    then show ?thesis using assms by (simp add: processFrees_def run killFrees_take [OF assms] remove1_idem)
  qed
qed

text \<open>A process that never has more than 39 blocks gets exactly the ones back that it still has when it is killed.\<close>

datatype use = Took addr | Gave addr

fun used :: "use list \<Rightarrow> addr list" where
  "used [] = []"
| "used (Took p # us) = used us @ [p]"
| "used (Gave p # us) = remove1 p (used us)"

fun registered :: "use list \<Rightarrow> registry option" where
  "registered [] = Some newRegs"
| "registered (Took p # us) = processMallocs p (registered us)"
| "registered (Gave p # us) = processFrees p (registered us)"

theorem registry_exact:
  assumes "\<And>n. length (used (drop n us)) < MAX_MALLOCS"
  shows "\<exists>r. registered us = Some r \<and> regs_ok r \<and> killFrees r = used us"
  using assms
proof (induction us)
  case Nil
  then show ?case by simp
next
  case (Cons u us)
  have "length (used (drop n us)) < MAX_MALLOCS" for n using Cons.prems [of "Suc n"] by simp
  with Cons.IH obtain r where r: "registered us = Some r" "regs_ok r" "killFrees r = used us" by auto
  show ?case
  proof (cases u)
    case (Took p)
    with Cons.prems [of 0] have "length (used us) < MAX_MALLOCS - 1" by simp
    with processMallocs_regs [OF r(2), of p] r Took show ?thesis by auto
  next
    case (Gave p)
    with processFrees_regs [OF r(2), of p] r show ?thesis by auto
  qed
qed

text \<open>The place that is left is never used: the 40th block is not registered.\<close>

theorem registry_forgets: "regs_ok r \<Longrightarrow> length (killFrees r) = 39 \<Longrightarrow> processMallocs p (Some r) = Some r"
  by (simp add: processMallocs_def killFrees_def MAX_MALLOCS_def)

end
