(* ===== verification/Phylo_Main.thy ===== *)
theory Phylo_Main
  imports Phylo Libc
begin

text \<open>
  The rest of \<open>src/Userland/SampleCodeModule/shell/commands/phylo.c\<close>: the argument of \<open>phylo\<close>, the names of the
  semaphores, the text that carries the address of a record to its process, the keys, and \<open>end\<close>. String literals are at
  addresses that are parameters.
\<close>

section \<open>Arguments\<close>

definition STARTING :: int where
  "STARTING = 5"

definition MAX_PHILO_SIZE :: int where
  "MAX_PHILO_SIZE = 3"

text \<open>The number of philosophers; \<open>Some None\<close> when the program ends.\<close>

definition phylo_count :: "mem \<Rightarrow> int \<Rightarrow> (nat \<Rightarrow> addr) \<Rightarrow> int option option" where
  "phylo_count m argc argv =
     (if argc = 1 then Some (Some STARTING)
      else if argc = 2
      then do { n \<leftarrow> atoi m (argv 1); Some (if n < 1 \<or> n > MAX_PHILO_SIZE then None else Some n) }
      else Some None)"

text \<open>The name of a semaphore is made at \<open>aux\<close>; \<open>buffer\<close> has two places, \<open>lit\<close> is the literal.\<close>

definition philo_name :: "addr \<Rightarrow> addr \<Rightarrow> addr \<Rightarrow> int \<Rightarrow> mem \<Rightarrow> mem option" where
  "philo_name aux lit buffer i m =
     do {
       let m = m(aux := 0);
       (aux, m) \<leftarrow> strcat aux lit m;
       let m = wr m buffer [0, 0];
       (b, m) \<leftarrow> itoa_u i buffer 10 m;
       len \<leftarrow> strlen m b;
       if len < 2 then do { (_, m) \<leftarrow> strcat aux b m; Some m } else None
     }"

text \<open>The address of a record as the text of an \<open>int\<close>, and what its process makes of the text.\<close>

definition phil_arg :: "addr \<Rightarrow> addr \<Rightarrow> mem \<Rightarrow> mem option" where
  "phil_arg phil buffer m =
     do {
       (t, m) \<leftarrow> itoa_u (s32 (int phil)) buffer 10 m;
       (_, m) \<leftarrow> strcpy_u buffer t m;
       Some m
     }"

definition phil_of :: "mem \<Rightarrow> addr \<Rightarrow> addr option" where
  "phil_of m arg = do { v \<leftarrow> atoi m arg; Some (nat (v mod 2 ^ 64)) }"

section \<open>The end\<close>

text \<open>\<open>sys_free\<close> of a record ends it; the next statements of \<open>freePhilo\<close> read it.\<close>

definition freePhilo :: "addr \<Rightarrow> phylo_state \<Rightarrow> phylo_state option" where
  "freePhilo phil s =
     do {
       a \<leftarrow> phils s phil;
       let s = s\<lparr>phils := (phils s)(phil := None)\<rparr>;
       a \<leftarrow> phils s phil;
       Some (s\<lparr>pcs := (pcs s)(phil := None)\<rparr>)
     }"

partial_function (option) endLoop :: "addr \<Rightarrow> phylo_state \<Rightarrow> phylo_state option" where
  "endLoop phil s =
     do {
       s \<leftarrow> freePhilo phil s;
       a \<leftarrow> phils s phil;
       if right a \<noteq> firstPhil s then endLoop (right a) s else Some s
     }"

text \<open>\<open>end\<close> once it has the mutex.\<close>

definition end_p :: "phylo_state \<Rightarrow> phylo_state option" where
  "end_p s =
     do {
       f \<leftarrow> phils s (firstPhil s);
       s \<leftarrow> endLoop (right f) s;
       s \<leftarrow> freePhilo (firstPhil s) s;
       postMutex s
     }"

section \<open>Keys\<close>

text \<open>What the keys do, until the input ends; \<open>new\<close> is the block that \<open>sys_malloc\<close> would give at each key. \<open>end\<close> does not
  come back.\<close>

fun phyloKeys :: "(int \<times> addr) list \<Rightarrow> phylo_state \<Rightarrow> phylo_state option" where
  "phyloKeys [] s = Some s"
| "phyloKeys ((c, new) # cs) s =
     (if c \<noteq> 0 \<and> c \<noteq> - 1
      then if c = 97 then do { s \<leftarrow> addPhilo new s; phyloKeys cs s }
           else if c = 114 then do { s \<leftarrow> removePhilo s; phyloKeys cs s }
           else if c = 113 then end_p s
           else phyloKeys cs s
      else Some s)"

section \<open>Properties\<close>

text \<open>More than three philosophers are only possible without an argument.\<close>

theorem phylo_count_limit:
  "phylo_count m 2 argv = Some (Some n) \<Longrightarrow> 1 \<le> n \<and> n \<le> 3"
  by (auto simp: phylo_count_def MAX_PHILO_SIZE_def bind_eq_Some_conv split: if_splits)

text \<open>The address of a record below 2 GiB reaches its process.\<close>

theorem phil_arg_reaches:
  assumes "phil < 2147483648"
  shows "\<exists>m'. phil_arg phil buffer m = Some m' \<and> phil_of m' buffer = Some phil"
proof -
  let ?t = "itoa_text (int phil) 10 31"
  let ?m = "wr m buffer (?t @ [0])"
  have w: "- 2147483648 < int phil" "int phil < 2147483648" using assms by simp_all
  have run: "itoa_u (int phil) buffer 10 m = Some (buffer, ?m)" using itoa_u_eq [of 10 "int phil" buffer m] itoa_wr [of 10 "int phil" buffer 31 m] w by simp
  have c: "cstr ?m buffer ?t" using itoa_text_value(1) [of 10 "int phil" 31] w by simp
  have "length ?t < 2147483648" using length_itoa_text [of 31 "int phil" 10] by simp
  then have "strcpy_u buffer buffer ?m = Some (int (length ?t), wr ?m buffer (?t @ [0]))"
    using strcpy_wr [OF c, of buffer] strcpy_u_eq [OF c, of buffer 0] by (simp add: strcpy_u_def strcpy_def)
  moreover have "wr ?m buffer (?t @ [0]) = ?m" by (rule wr_overwrite) simp
  moreover have "atoi ?m buffer = Some (int phil)" using atoi_text [OF w] by simp
  ultimately show ?thesis using assms by (simp add: phil_arg_def phil_of_def run)
qed

text \<open>\<open>end\<close> reads the record that it has just freed.\<close>

theorem end_reads_freed: "end_p s = None"
proof -
  have "freePhilo p t = None" for p t by (cases "phils t p") (simp_all add: freePhilo_def)
  then have "endLoop p t = None" for p t by (subst endLoop.simps) simp
  then show ?thesis by (cases "phils s (firstPhil s)") (simp_all add: end_p_def)
qed

end
