(* ===== verification/Spec2Isabelle.thy ===== *)
theory Spec2Isabelle
  imports Libc Syscall_Props Boot Scheduler_Live Buddy_Props Phylo_Table Test_Sync_Props Test_MM Shell_Props Commands_Props Test_Processes BMFS_Session Programs Packer_Args Registry Phylo_Main
begin

text \<open>
  Verification of bottlerOS, a small x86-64 kernel with user programs (\<open>src/\<close>).

  \<^bold>\<open>The program.\<close> The kernel runs with one processor and without memory protection. The boot image is
  the kernel followed by modules; the kernel copies the modules to fixed addresses, loads the interrupt
  table, prepares the heap and the scheduler, creates the first process and lets the timer interrupt.
  Processes enter the kernel by interrupt 0x80. The kernel's parts share its memory: the scheduler, the
  semaphores and the pipes allocate their records from the heap, the pipes are built on the semaphores,
  and the semaphores and the keyboard driver block and wake processes through the scheduler.

  \<^bold>\<open>Conventions.\<close> A C \<open>int\<close> or \<open>char\<close> is an \<open>int\<close> that \<open>s32\<close> and \<open>s8\<close> wrap where the code
  stores it; unsigned integers are words, or \<open>nat\<close> with \<open>mod 2 ^ 64\<close> for sizes. Memory (\<open>ram\<close>) is a
  function from addresses to bytes, and a record of the kernel is kept in a map from its address, with
  its pointers as addresses; \<open>NULL\<close> is 0. An operation that would read through a pointer
  that points to no record, or outside an array, has the outcome \<open>None\<close>, so a theorem that an operation
  gives \<open>Some\<close> says that it returns and makes no such access. Loops without a bound that the code
  shows are \<open>partial_function (option)\<close>; that they return is proved, never assumed, and no
  definition has fuel. Operations have the names of the C functions; a suffix tells apart
  functions of the same name (\<open>_u\<close> user library, \<open>_b\<close> buddy allocator, \<open>_p\<close> pipes, \<open>_s\<close>, \<open>_m\<close>
  allocation lifted to the scheduler's and the semaphores' states).

  \<^bold>\<open>Theories\<close> (sources below \<open>src/Kernel\<close> unless said otherwise).
  \<^item> \<open>Bottler_Prelude\<close>: integers, bytes, C strings in memory, the decimal text of a number,
    and the facts on them that all parts share.
  \<^item> \<open>KLib\<close>: \<open>lib.c\<close> (\<open>memset\<close>, \<open>memcpy\<close> with its two paths, \<open>itoa\<close>, \<open>strcpy\<close>,
    \<open>strcmp\<close>, \<open>addSpaces\<close>): \<open>memcpy\<close> copies, the text of \<open>itoa\<close> reads back as the number,
    \<open>strcmp\<close> of a copy is 0.
  \<^item> \<open>Allocator\<close>: the interface of the two memory managers, a locale with the laws that live blocks
    do not overlap, that a request keeps them and adds a new one or fails, and that a release removes
    one. The client lemmas on sequences of requests and releases are proved in it once.
  \<^item> \<open>MemFRT4\<close>, \<open>MemFRT4_Heap\<close>, \<open>MemFRT4_Ops\<close>: \<open>utils/memManagerFRT4.c\<close>, the allocator of
    the default build. The block headers are a map from addresses; the invariant \<open>mm_ok\<close> says that
    the blocks tile the heap, that the free list is sorted, links exactly the free blocks and has no two
    adjacent ones, and that the counter is their total. Interpretation \<open>frt4\<close> of the interface.
  \<^item> \<open>Buddy\<close>: \<open>utils/memManagerBuddy.c\<close>, the allocator of the build with \<open>BUDDY\<close>;
    \<open>Buddy_Pow2\<close>: its rounding to powers of two; \<open>Buddy_Tree\<close>: the allocator on a tree, the
    specification; \<open>Buddy_Rep\<close> and \<open>Buddy_Loops\<close>: the array of node states represents such a
    tree, and every loop of the code does what the operation on trees does; \<open>Buddy_Props\<close>:
    interpretation \<open>buddy\<close> of the interface, and the properties.
  \<^item> \<open>Time\<close>: \<open>drivers/time.c\<close> and the clock functions of \<open>asm/libasm.asm\<close>; the chip's
    readings are a parameter.
  \<^item> \<open>Scheduler\<close>: \<open>utils/scheduler.c\<close>, the timer part of \<open>asm/interrupts.asm\<close> and the
    body of \<open>main\<close>: process control blocks, the lists of processes and of sleepers, every operation.
    \<open>Scheduler_Inv\<close>, \<open>Scheduler_Next\<close>, \<open>Scheduler_Timer\<close>, \<open>Scheduler_Ops\<close>,
    \<open>Scheduler_Links\<close>, \<open>Scheduler_Create\<close>: the invariant (both lists are finite and their
    ends right, identifiers and addresses distinct, every block owned by the kernel is live in the heap,
    links of different lists do not mix, parents exist) and what each operation does to it.
    \<open>Scheduler_Props\<close>: reachability from boot as an inductive step relation \<open>sched_step\<close>, in which processes run, the
    timer ticks, everybody allocates and frees, and every operation of the scheduler is called; the invariant over it,
    and the behaviour of each operation. The relation keeps rules that the code relies on and does not check, such as that
    a dead process is not killed again; they stand at its definition, and what happens without two of them is shown. \<open>Scheduler_Live\<close>: under timer interrupts every ready
    process runs within 40 ticks per process (the bound comes from the largest quota of a process), and the ticks
    leave the identifiers and descriptors of the processes, and the memory, as they are (\<open>undisturbed\<close>).
  \<^item> \<open>Sem\<close>: \<open>utils/sem.c\<close> and the locks of \<open>asm/libasm.asm\<close>; what a process has left to do when
    it gave the processor away inside an operation is a value (\<open>cont\<close>) kept under its identifier, run
    by \<open>resume\<close>. \<open>Semaphore_Spec\<close>: the interface that the pipes use, the waits and posts that do not block.
    \<open>Sem_Props\<close>: its interpretation, and \<open>semWait\<close> and \<open>semPost\<close> refine the abstract semaphore, a
    value and a queue of identifiers. \<open>Sem_Live\<close>: the operations are steps of the scheduler, and what a waiting process
    does that is unblocked by another process and not by a post. System calls run with interrupts off, as the interrupt
    gates have it, so that nothing comes between a post and the process it wakes.
  \<^item> \<open>Pipe\<close>, \<open>Pipe_Props\<close>: \<open>utils/pipe.c\<close> on top of the semaphores, its rest of an operation a list
    of actions; a pipe is a queue of up to 1024 bytes.
  \<^item> \<open>Keyboard\<close>: \<open>drivers/keyboard.c\<close> with both layouts; the driver refines a one-place mailbox of
    decoded scan codes. \<open>Video\<close>: \<open>drivers/video.c\<close>; printing refines a scrolling terminal.
  \<^item> \<open>Listing\<close>: the functions that print processes, semaphores, pipes and the heap into new blocks
    (\<open>processes\<close>, \<open>getSems\<close>, \<open>pipes\<close>, \<open>dumpMM\<close>); string literals and local arrays are at
    addresses that are parameters (\<open>rodata\<close>).
  \<^item> \<open>Syscalls\<close>, \<open>Syscall_Props\<close>: \<open>interruptions/systemCalls.c\<close>, \<open>systemCallsDispatcher.c\<close>
    and \<open>irqDispatcher.c\<close> on the state of the whole kernel (\<open>kernel_state\<close>), with the return
    value of a process in \<open>rax\<close>; properties that go from a system call through
    pipes, semaphores, keyboard, screen and scheduler, with the switch from the process that writes to the one that reads.
  \<^item> \<open>Registry\<close>: the registry of allocations of a process in \<open>utils/scheduler.c\<close> with \<open>FREE_EXIT\<close>; it holds the
    blocks that the process still has, as long as there are fewer than 40.
  \<^item> \<open>Boot\<close>: \<open>moduleLoader.c\<close>, \<open>kernel.c\<close>, \<open>interruptions/idtLoader.c\<close>,
    \<open>interruptions/exceptions.c\<close> and \<open>src/Toolchain/ModulePacker/main.c\<close>; the loader reads what
    the packer wrote. \<open>Packer_Args\<close>: the packer's command line.
  \<^item> \<open>Libc\<close>: \<open>src/Userland/SampleCodeModule/libc.c\<close>. \<open>Libc_Float\<close>: its \<open>atof\<close> and \<open>ftoa\<close>, over roundings of \<open>float\<close>
    and \<open>double\<close> that are parameters; on whole numbers they agree with \<open>itoa\<close>.
  \<^item> \<open>Mutex\<close>: the critical sections of the user programs, a locale on the points of a process and what
    they and a semaphore with a queue hold, interpreted by the next two.
  \<^item> \<open>Phylo\<close>, \<open>Phylo_Props\<close>, \<open>Phylo_Table\<close>: the dining philosophers,
    \<open>src/Userland/SampleCodeModule/shell/commands/phylo.c\<close>. A step is one statement of one philosopher;
    the semaphores are values with queues, and a post lets the first waiter go on behind its wait, which is
    what \<open>sem_handover\<close> of \<open>Sem_Props\<close> proves of the kernel when nobody else unblocks a waiting process.
    \<open>phylo_setup\<close> (the table is laid and all processes created) and \<open>addPhilo\<close> are one step each.
    The invariant \<open>table_inv\<close> says that the records form a ring, what each record holds at each
    point of its process, that at most one process is inside the mutex, that no two neighbours eat and that
    somebody is not waiting for others; mutual exclusion, freedom from deadlock and the end of
    \<open>printState\<close>'s loop follow, and \<open>removePhilo\<close> is shown to break it. \<open>Phylo_Main\<close>: the argument, the texts, the keys and \<open>end\<close>, which reads
    freed records.
  \<^item> \<open>Test_Sync\<close>, \<open>Test_Sync_Props\<close>: \<open>shell/commands/test_sync.c\<close>, also as steps of processes that
    interleave. A measure bounds the number of steps of any run; with the semaphore the additions are exact, and
    without it a run that loses updates is given.
  \<^item> \<open>Test_MM\<close>: \<open>shell/commands/test_mm.c\<close> and \<open>_loader.c\<close>, on any memory manager with the interface of
    \<open>Allocator\<close>; both managers of the kernel pass it for any number of rounds. The rounding of \<open>double\<close> is a
    parameter of which IEEE 754's monotony and exactness are asked.
  \<^item> \<open>Shell\<close>, \<open>Shell_Props\<close>: \<open>shell/shell.c\<close>. The tokens are pointers into the line, and the words of the line
    (\<open>words\<close>) are their specification; what a line does is the list of calls that the shell makes. Whether
    \<open>sys_malloc\<close> gives a block is a parameter, because the shell writes through the result unchecked.
  \<^item> \<open>Commands\<close>, \<open>Commands_Props\<close>: the small programs of \<open>shell/commands\<close> and \<open>sampleCodeModule.c\<close>, each as
    the list of its system calls and texts (\<open>ucall\<close>); what \<open>cat\<close>, \<open>filter\<close> and \<open>wc\<close> write, and the inputs for which
    they leave their buffers. \<open>Programs\<close>: \<open>quadratic\<close>, and what \<open>loop\<close>, \<open>printmem\<close> and \<open>bottler\<close> print.
  \<^item> \<open>Test_Processes\<close>: \<open>shell/commands/test_processes.c\<close> running on the scheduler of \<open>Scheduler\<close>, one step per
    system call, with timer interrupts between the calls. The invariant \<open>table_ok\<close> relates its table to the kernel's list of
    processes; \<open>spares\<close> says what a kernel operation leaves alone.
  \<^item> \<open>BMFS\<close>: \<open>src/Bootloader/BMFS/bmfs.c\<close>, the tool that keeps files on the disk image. \<open>BMFS_Rep\<close>: the invariant
    \<open>fs_ok\<close> of a disk (names differ, blocks of different files do not overlap, every file fits in its blocks) and its files as
    a map from names to blocks and contents (\<open>files_of\<close>), which \<open>write\<close>, \<open>read\<close> and \<open>delete\<close> refine. \<open>BMFS_Alloc\<close>:
    \<open>create\<close>, of whose \<open>qsort\<close> it is asked that it sorts when the comparison of different elements is consistent. \<open>BMFS_Props\<close>: its properties,
    with the case in which a new file gets the blocks of another one. \<open>BMFS_Session\<close>: every command is a run that loads
    the image, so \<open>drive\<close> relates an image to the map, and the runs of \<open>main\<close> refine the operations on the map.

  \<^bold>\<open>Not modelled.\<close> The context switch that saves and loads registers is represented by the saved stack
  pointer of each process; the code of the processes themselves is not part of the scheduler's model, so
  a property of a kernel operation is about a call by the running process. The array of the registry of allocations
  is taken to be the process's own, and the registry is not composed with the scheduler. The steps of the philosophers
  do not carry the texts that \<open>Phylo_Main\<close> models. \<open>naiveConsole.c\<close> is commented out as a
  whole. The Pure64 loader is assembly of a third party. Of the user programs \<open>excDiv\<close> and \<open>excOP\<close>, which only raise
  an exception, are left out; \<open>quadSolver\<close>, in assembly, is a parameter of \<open>quadratic\<close>.
\<close>

end
